(* ===== verification/Prelude.thy ===== *)
theory Prelude
  imports Main "HOL-Library.Word" "HOL-Library.Code_Target_Nat"
begin

unbundle bit_operations_syntax

text \<open>
  The shared vocabulary of the development: the Rust machine types the sources use as words,
  Rust slices as lists with checked and unchecked ranges, big-endian encodings, fallible results
  with a separate value for a panic, the ASCII helpers of \<^verbatim>\<open>std\<close>, and the generic facts on them
  that the component theories rely on. Nothing here models a file of the program: these are the
  pieces of the language and its standard library the program is written in.

  Conventions. \<^verbatim>\<open>usize\<close> is \<^typ>\<open>nat\<close> (every length the program handles is a length of a slice in
  memory; the places where a count could overflow are written out). A \<^verbatim>\<open>Result<T, E>\<close> is the sum
  \<open>'e + 't\<close> with \<open>Inl\<close> the error; where the code can also panic (an \<^verbatim>\<open>expect\<close>, an \<^verbatim>\<open>assert!\<close>, an
  index out of range) the error side is \<open>'e fault\<close>.
\<close>

named_theorems wire_simps \<open>decoding and encoding facts of the wire formats\<close>
named_theorems inv_intros \<open>preservation of the component invariants\<close>

section \<open>Machine types and results\<close>

type_synonym u8 = "8 word"
type_synonym u16 = "16 word"
type_synonym u32 = "32 word"
type_synonym u64 = "64 word"
type_synonym bytes = "u8 list"
type_synonym ('e, 'a) result = "'e + 'a"

datatype 'e fault = Panic | Err 'e

definition result_bind :: "('e, 'a) result \<Rightarrow> ('a \<Rightarrow> ('e, 'b) result) \<Rightarrow> ('e, 'b) result" where
  "result_bind r f = (case r of Inl e \<Rightarrow> Inl e | Inr a \<Rightarrow> f a)"

definition ok_or :: "'e \<Rightarrow> 'a option \<Rightarrow> ('e, 'a) result" where
  "ok_or e v = (case v of None \<Rightarrow> Inl e | Some a \<Rightarrow> Inr a)"

definition result_ok :: "('e, 'a) result \<Rightarrow> 'a option" where
  "result_ok r = (case r of Inl _ \<Rightarrow> None | Inr a \<Rightarrow> Some a)"

lemma result_bind_simps [simp]:
  "result_bind (Inl e) f = Inl e" "result_bind (Inr a) f = f a"
  by (simp_all add: result_bind_def)

lemma result_bind_Inr_iff:
  "result_bind r f = Inr b \<longleftrightarrow> (\<exists>a. r = Inr a \<and> f a = Inr b)"
  by (cases r) auto

lemma result_bind_cong [fundef_cong]:
  "r = r' \<Longrightarrow> (\<And>a. r' = Inr a \<Longrightarrow> f a = f' a) \<Longrightarrow> result_bind r f = result_bind r' f'"
  by (cases r') auto

lemma ok_or_simps [simp]: "ok_or e None = Inl e" "ok_or e (Some a) = Inr a"
  by (simp_all add: ok_or_def)

lemma ok_or_Inr_iff: "ok_or e v = Inr a \<longleftrightarrow> v = Some a"
  by (cases v) auto

lemma result_ok_simps [simp]: "result_ok (Inl e) = None" "result_ok (Inr a) = Some a"
  by (simp_all add: result_ok_def)

text \<open>\<^verbatim>\<open>u16::try_from\<close>, \<^verbatim>\<open>u32::try_from\<close> on a \<^verbatim>\<open>usize\<close>: \<open>None\<close> past the width.\<close>

definition u16_try_from :: "nat \<Rightarrow> u16 option" where
  "u16_try_from n = (if n < 65536 then Some (of_nat n) else None)"

definition u32_try_from :: "nat \<Rightarrow> u32 option" where
  "u32_try_from n = (if n < 4294967296 then Some (of_nat n) else None)"

lemma unat_of_nat_u16: "n < 65536 \<Longrightarrow> unat (of_nat n :: u16) = n"
  by (simp add: unat_of_nat)

lemma unat_of_nat_u32: "n < 4294967296 \<Longrightarrow> unat (of_nat n :: u32) = n"
  by (simp add: unat_of_nat)

lemma of_nat_unat_word [simp]: "of_nat (unat w) = (w :: 'a::len word)"
  by simp

lemma unat_word_eq_iff: "unat v = unat w \<longleftrightarrow> v = (w :: 'a::len word)"
  by (metis of_nat_unat_word)

lemma unat_eq_0_iff: "unat w = 0 \<longleftrightarrow> w = (0 :: 'a::len word)"
  using unat_word_eq_iff [of w 0] by simp

lemma unat_u16_lt [simp]: "unat (w :: u16) < 65536"
  using unsigned_less [of w, where ?'a = nat] by simp

lemma unat_u8_lt [simp]: "unat (w :: u8) < 256"
  using unsigned_less [of w, where ?'a = nat] by simp

lemma unat_ucast_up: "LENGTH('a) \<le> LENGTH('b) \<Longrightarrow> unat (ucast (w :: 'a::len word) :: 'b::len word) = unat w"
proof -
  assume le: "LENGTH('a) \<le> LENGTH('b)"
  have "unat w < 2 ^ LENGTH('a)" by (rule unsigned_less)
  also have "\<dots> \<le> 2 ^ LENGTH('b)" using le by simp
  finally show ?thesis by (simp add: unsigned_ucast_eq take_bit_nat_eq_self_iff)
qed

section \<open>Slices\<close>

definition sub_slice :: "nat \<Rightarrow> nat \<Rightarrow> 'a list \<Rightarrow> 'a list" where
  "sub_slice a b xs = take (b - a) (drop a xs)"

text \<open>\<^verbatim>\<open>xs.get(a..b)\<close>: \<open>None\<close> when the range is decreasing or runs past the end.\<close>

definition get_slice :: "nat \<Rightarrow> nat \<Rightarrow> 'a list \<Rightarrow> 'a list option" where
  "get_slice a b xs = (if a \<le> b \<and> b \<le> length xs then Some (sub_slice a b xs) else None)"

definition nth_opt :: "'a list \<Rightarrow> nat \<Rightarrow> 'a option" where
  "nth_opt xs i = (if i < length xs then Some (xs ! i) else None)"

text \<open>\<^verbatim>\<open>xs[i..i + n].copy_from_slice(ys)\<close> with \<open>n = length ys\<close>, in range.\<close>

definition write_at :: "nat \<Rightarrow> 'a list \<Rightarrow> 'a list \<Rightarrow> 'a list" where
  "write_at i ys xs = take i xs @ ys @ drop (i + length ys) xs"

definition div_ceil :: "nat \<Rightarrow> nat \<Rightarrow> nat" where
  "div_ceil a b = (if a mod b = 0 then a div b else a div b + 1)"

lemma length_slice [simp]: "length (sub_slice a b xs) = min (b - a) (length xs - a)"
  by (simp add: sub_slice_def)

lemma nth_sub_slice: "a + i < b \<Longrightarrow> b \<le> length xs \<Longrightarrow> sub_slice a b xs ! i = xs ! (a + i)"
  by (simp add: sub_slice_def)

lemma slice_append_slice: "a \<le> b \<Longrightarrow> b \<le> c \<Longrightarrow> sub_slice a b xs @ sub_slice b c xs = sub_slice a c xs"
proof -
  assume ab: "a \<le> b" and bc: "b \<le> c"
  then have "drop b xs = drop (b - a) (drop a xs)" and "c - a = (b - a) + (c - b)" by simp_all
  then show ?thesis by (simp only: sub_slice_def take_add)
qed

lemma sub_slice_dropped: "drop a xs = ys @ zs \<Longrightarrow> length ys = n \<Longrightarrow> sub_slice a (a + n) xs = ys"
  by (simp add: sub_slice_def)

lemma slice_full [simp]: "length xs \<le> b \<Longrightarrow> sub_slice 0 b xs = xs"
  by (simp add: sub_slice_def)

lemma length_write_at [simp]: "i + length ys \<le> length xs \<Longrightarrow> length (write_at i ys xs) = length xs"
  by (simp add: write_at_def)

lemma nth_write_at:
  assumes "i + length ys \<le> length xs" and "k < length xs"
  shows "write_at i ys xs ! k = (if i \<le> k \<and> k < i + length ys then ys ! (k - i) else xs ! k)"
  using assms by (auto simp: write_at_def nth_append min_def)

lemma slice_write_at_same: "i + length ys \<le> length xs \<Longrightarrow> sub_slice i (i + length ys) (write_at i ys xs) = ys"
  by (simp add: sub_slice_def write_at_def)

lemma slice_write_at_other:
  assumes "i + length ys \<le> length xs" and "b \<le> length xs" and "b \<le> i \<or> i + length ys \<le> a"
  shows "sub_slice a b (write_at i ys xs) = sub_slice a b xs"
proof (rule nth_equalityI)
  fix k assume "k < length (sub_slice a b (write_at i ys xs))"
  then have "a + k < b" and "a + k < length xs" using assms(1) by auto
  then show "sub_slice a b (write_at i ys xs) ! k = sub_slice a b xs ! k"
    using assms by (auto simp: nth_sub_slice nth_write_at)
qed (use assms in simp)

lemma div_ceil_le_iff: "0 < b \<Longrightarrow> div_ceil a b \<le> n \<longleftrightarrow> a \<le> n * b"
proof -
  assume b: "0 < b"
  show ?thesis
  proof (cases "a mod b = 0")
    case True
    then obtain q where "a = q * b" by (metis div_mult_mod_eq add_0_right)
    with b show ?thesis by (simp add: div_ceil_def)
  next
    case False
    have "a div b < n \<longleftrightarrow> a < n * b" using b by (simp add: less_mult_imp_div_less div_less_iff_less_mult)
    moreover have "a \<noteq> n * b" using False by auto
    ultimately show ?thesis using False by (auto simp: div_ceil_def)
  qed
qed

lemma less_div_ceil_iff: "0 < b \<Longrightarrow> n < div_ceil a b \<longleftrightarrow> n * b < a"
  using div_ceil_le_iff [of b a n] by linarith

lemma length4: "length xs = 4 \<Longrightarrow> \<exists>a b c d. xs = [a, b, c, d]"
  by (auto simp: numeral_eq_Suc length_Suc_conv)

section \<open>Big-endian encodings\<close>

definition u16_of :: "u8 \<Rightarrow> u8 \<Rightarrow> u16" where
  "u16_of hi lo = push_bit 8 (ucast hi) OR ucast lo"

definition u16_be :: "u16 \<Rightarrow> bytes" where
  "u16_be w = [ucast (drop_bit 8 w), ucast w]"

definition u32_of :: "u8 \<Rightarrow> u8 \<Rightarrow> u8 \<Rightarrow> u8 \<Rightarrow> u32" where
  "u32_of a b c d =
     push_bit 24 (ucast a) OR push_bit 16 (ucast b) OR push_bit 8 (ucast c) OR ucast d"

definition u32_be :: "u32 \<Rightarrow> bytes" where
  "u32_be w = [ucast (drop_bit 24 w), ucast (drop_bit 16 w), ucast (drop_bit 8 w), ucast w]"

text \<open>\<^verbatim>\<open>octets()\<close> of an \<open>n\<close>-byte address, and back.\<close>

fun be_bytes :: "nat \<Rightarrow> 'a::len word \<Rightarrow> bytes" where
  "be_bytes 0 w = []"
| "be_bytes (Suc n) w = be_bytes n (drop_bit 8 w) @ [ucast w]"

definition of_be_bytes :: "bytes \<Rightarrow> 'a::len word" where
  "of_be_bytes bs = foldl (\<lambda>a b. push_bit 8 a OR ucast b) 0 bs"

lemma not_bit_u8 [simp]: "8 \<le> n \<Longrightarrow> \<not> bit (w :: u8) n"
  by (auto dest: bit_imp_le_length)

lemma u16_of_be [simp, wire_simps]: "u16_of (ucast (drop_bit 8 w)) (ucast w) = w"
  unfolding u16_of_def by (rule bit_word_eqI) (auto simp: bit_simps)

lemma u16_hi_of [simp]: "(ucast (drop_bit 8 (u16_of h l)) :: u8) = h"
  unfolding u16_of_def by (rule bit_word_eqI) (auto simp: bit_simps)

lemma u16_lo_of [simp]: "(ucast (u16_of h l) :: u8) = l"
  unfolding u16_of_def by (rule bit_word_eqI) (auto simp: bit_simps)

lemma u16_be_of [simp]: "u16_be (u16_of h l) = [h, l]"
  by (simp add: u16_be_def)

lemma unat_push_bit_8: "unat a < 256 \<Longrightarrow> 16 \<le> LENGTH('a) \<Longrightarrow> unat (push_bit 8 (a :: 'a::len word)) = 256 * unat a"
proof -
  assume a: "unat a < 256" and len: "16 \<le> LENGTH('a)"
  have "256 * unat a < 2 ^ 16" using a by simp
  also have "(2 :: nat) ^ 16 \<le> 2 ^ LENGTH('a)" using len by (rule power_increasing) simp
  finally have "take_bit LENGTH('a) (push_bit 8 (unat a)) = 256 * unat a"
    by (simp add: push_bit_eq_mult take_bit_nat_eq_self_iff mult.commute)
  then show ?thesis by (simp only: unsigned_push_bit_eq)
qed

lemma unat_u16_of: "unat (u16_of a b) = 256 * unat a + unat b"
proof -
  have up: "unat (ucast x :: u16) = unat x" for x :: u8 by (simp add: unat_ucast_up)
  have disj: "push_bit 8 (ucast a :: u16) AND ucast b = 0"
    by (rule bit_word_eqI) (auto simp: bit_simps)
  have "u16_of a b = push_bit 8 (ucast a) + ucast b"
    unfolding u16_of_def using disj by (simp add: disjunctive_add_eq_or)
  moreover have "unat (push_bit 8 (ucast a :: u16)) = 256 * unat a"
    by (simp add: unat_push_bit_8 up)
  moreover have "256 * unat a + unat b < 65536" using unat_u8_lt [of a] unat_u8_lt [of b] by linarith
  ultimately show ?thesis by (simp add: unat_word_ariths(1) up)
qed

lemma u32_of_be [simp, wire_simps]:
  "u32_of (ucast (drop_bit 24 w)) (ucast (drop_bit 16 w)) (ucast (drop_bit 8 w)) (ucast w) = w"
proof (rule bit_word_eqI)
  fix n assume n: "n < LENGTH(32)"
  then have "n < 8 \<or> 8 \<le> n \<and> n < 16 \<or> 16 \<le> n \<and> n < 24 \<or> 24 \<le> n \<and> n < 32" by auto
  then show "bit (u32_of (ucast (drop_bit 24 w)) (ucast (drop_bit 16 w)) (ucast (drop_bit 8 w)) (ucast w)) n
      = bit w n"
    unfolding u32_of_def by (elim disjE) (auto simp: bit_simps)
qed

lemma length_be [simp]: "length (u16_be w) = 2" "length (u32_be v) = 4"
  by (simp_all add: u16_be_def u32_be_def)

lemma length_be_bytes [simp]: "length (be_bytes n w) = n"
  by (induction n w rule: be_bytes.induct) auto

lemma of_be_bytes_snoc: "of_be_bytes (bs @ [b]) = push_bit 8 (of_be_bytes bs) OR ucast b"
  by (simp add: of_be_bytes_def)

lemma of_be_bytes_be_bytes:
  "(of_be_bytes (be_bytes n w) :: 'a::len word) = take_bit (8 * n) w"
proof (induction n w rule: be_bytes.induct)
  case (1 w)
  show ?case by (simp add: of_be_bytes_def)
next
  case (2 n w)
  have "(of_be_bytes (be_bytes (Suc n) w) :: 'a word)
      = push_bit 8 (take_bit (8 * n) (drop_bit 8 w)) OR ucast (ucast w :: u8)"
    by (simp add: of_be_bytes_snoc 2)
  also have "\<dots> = take_bit (8 * Suc n) w"
    by (rule bit_word_eqI) (auto simp: bit_simps)
  finally show ?case .
qed

lemma be_bytes_of_be_bytes:
  "8 * length bs \<le> LENGTH('a) \<Longrightarrow> be_bytes (length bs) (of_be_bytes bs :: 'a::len word) = bs"
proof (induction bs rule: rev_induct)
  case Nil
  show ?case by simp
next
  case (snoc b bs)
  let ?v = "of_be_bytes bs :: 'a word"
  have drop: "drop_bit 8 (push_bit 8 ?v OR ucast b) = take_bit (LENGTH('a) - 8) ?v"
    by (rule bit_word_eqI) (auto simp: bit_simps)
  have "be_bytes (length bs) (take_bit (LENGTH('a) - 8) ?v) = be_bytes (length bs) ?v"
    if "8 * n + 8 \<le> LENGTH('a)" "length bs = n" for n
  proof -
    have "be_bytes n (take_bit m w) = be_bytes n w" if "8 * n \<le> m" for m and w :: "'a word"
      using that
    proof (induction n arbitrary: m w)
      case (Suc n)
      have "drop_bit 8 (take_bit m w) = take_bit (m - 8) (drop_bit 8 w)"
        using Suc.prems by (simp add: drop_bit_take_bit)
      moreover have "(ucast (take_bit m w) :: u8) = ucast w"
        using Suc.prems by (intro bit_word_eqI) (auto simp: bit_simps)
      ultimately show ?case using Suc by simp
    qed simp
    with that show ?thesis by simp
  qed
  moreover have "(ucast (push_bit 8 ?v OR ucast b) :: u8) = b"
    using snoc.prems by (intro bit_word_eqI) (auto simp: bit_simps)
  ultimately show ?case using snoc by (simp add: of_be_bytes_snoc drop del: drop_bit_or)
qed

lemma of_be_bytes_u32 [simp, wire_simps]: "of_be_bytes (be_bytes 4 (w :: 32 word)) = w"
  by (simp add: of_be_bytes_be_bytes take_bit_word_eq_self)

lemma of_be_bytes_u128 [simp, wire_simps]: "of_be_bytes (be_bytes 16 (w :: 128 word)) = w"
  by (simp add: of_be_bytes_be_bytes take_bit_word_eq_self)

section \<open>Scanning\<close>

text \<open>\<^verbatim>\<open>iter().position(p)\<close>, \<^verbatim>\<open>rposition\<close>, \<^verbatim>\<open>split(p)\<close>, \<^verbatim>\<open>windows(n).position(\<dots>)\<close>.\<close>

fun position :: "('a \<Rightarrow> bool) \<Rightarrow> 'a list \<Rightarrow> nat option" where
  "position p [] = None"
| "position p (x # xs) = (if p x then Some 0 else map_option Suc (position p xs))"

definition rposition :: "('a \<Rightarrow> bool) \<Rightarrow> 'a list \<Rightarrow> nat option" where
  "rposition p xs = map_option (\<lambda>i. length xs - 1 - i) (position p (rev xs))"

fun split_by :: "('a \<Rightarrow> bool) \<Rightarrow> 'a list \<Rightarrow> 'a list list" where
  "split_by p [] = [[]]"
| "split_by p (x # xs) =
     (if p x then [] # split_by p xs
      else (case split_by p xs of [] \<Rightarrow> [[x]] | y # ys \<Rightarrow> (x # y) # ys))"

fun find_window :: "'a list \<Rightarrow> 'a list \<Rightarrow> nat option" where
  "find_window pat [] = (if pat = [] then Some 0 else None)"
| "find_window pat (x # xs) =
     (if take (length pat) (x # xs) = pat then Some 0
      else map_option Suc (find_window pat xs))"

definition starts_with :: "'a list \<Rightarrow> 'a list \<Rightarrow> bool" where
  "starts_with xs pre \<longleftrightarrow> take (length pre) xs = pre"

definition strip_prefix :: "'a list \<Rightarrow> 'a list \<Rightarrow> 'a list option" where
  "strip_prefix pre xs = (if starts_with xs pre then Some (drop (length pre) xs) else None)"

definition strip_suffix :: "'a list \<Rightarrow> 'a list \<Rightarrow> 'a list option" where
  "strip_suffix suf xs =
     (if length suf \<le> length xs \<and> drop (length xs - length suf) xs = suf
      then Some (take (length xs - length suf) xs) else None)"

text \<open>\<^verbatim>\<open>Iterator::min_by_key\<close>: the first element with the least key.\<close>

fun min_by_key :: "('a \<Rightarrow> nat) \<Rightarrow> 'a list \<Rightarrow> 'a option" where
  "min_by_key f [] = None"
| "min_by_key f (x # xs) =
     (case min_by_key f xs of None \<Rightarrow> Some x | Some y \<Rightarrow> Some (if f y < f x then y else x))"

lemma position_Some_iff:
  "position p xs = Some i \<longleftrightarrow> i < length xs \<and> p (xs ! i) \<and> (\<forall>j<i. \<not> p (xs ! j))"
proof (induction xs arbitrary: i)
  case (Cons x xs)
  show ?case
  proof (cases i)
    case (Suc k)
    then show ?thesis using Cons.IH [of k] by (auto simp: less_Suc_eq_0_disj)
  qed (auto simp: Cons.IH)
qed simp

lemma position_None_iff: "position p xs = None \<longleftrightarrow> (\<forall>x \<in> set xs. \<not> p x)"
  by (induction xs) auto

lemma position_less: "position p xs = Some i \<Longrightarrow> i < length xs"
  by (simp add: position_Some_iff)

lemma find_window_bound: "find_window pat xs = Some i \<Longrightarrow> i + length pat \<le> length xs"
proof (induction xs arbitrary: i)
  case (Cons x xs)
  then show ?case by (auto split: if_splits) (metis length_take min.bounded_iff length_Cons nle_le)
qed (simp split: if_splits)

lemma find_window_match: "find_window pat xs = Some i \<Longrightarrow> take (length pat) (drop i xs) = pat"
  by (induction xs arbitrary: i) (auto split: if_splits)

lemma find_window_append:
  "find_window pat xs = Some i \<Longrightarrow> find_window pat (xs @ ys) = Some i"
proof (induction xs arbitrary: i)
  case (Cons x xs)
  show ?case
  proof (cases "take (length pat) (x # xs) = pat")
    case True
    then have "length pat \<le> length (x # xs)" by (metis length_take min.bounded_iff nle_le)
    then have "take (length pat) ((x # xs) @ ys) = pat" using True by (simp del: append_Cons add: take_append)
    with True Cons.prems show ?thesis by simp
  next
    case False
    with Cons.prems obtain k where k: "find_window pat xs = Some k" "i = Suc k" by auto
    have "take (length pat) ((x # xs) @ ys) \<noteq> pat"
    proof
      assume "take (length pat) ((x # xs) @ ys) = pat"
      moreover have "length pat \<le> length (x # xs)" using find_window_bound [OF k(1)] by simp
      ultimately show False using False by (simp del: append_Cons add: take_append)
    qed
    with k Cons.IH [OF k(1)] False show ?thesis by simp
  qed
next
  case Nil
  then show ?case by (cases ys) (auto split: if_splits)
qed

lemma min_by_key_in: "min_by_key f xs = Some x \<Longrightarrow> x \<in> set xs"
  by (induction xs arbitrary: x) (auto split: option.splits if_splits)

lemma min_by_key_None [simp]: "min_by_key f xs = None \<longleftrightarrow> xs = []"
  by (cases xs) (auto split: option.splits)

lemma min_by_key_le: "min_by_key f xs = Some x \<Longrightarrow> y \<in> set xs \<Longrightarrow> f x \<le> f y"
  by (induction xs arbitrary: x) (fastforce split: option.splits if_splits)+

lemma strip_prefix_Some: "strip_prefix pre xs = Some ys \<Longrightarrow> xs = pre @ ys"
  by (auto simp: strip_prefix_def starts_with_def split: if_splits) (metis append_take_drop_id)

section \<open>ASCII\<close>

text \<open>A byte-string literal, and the ASCII operations of \<^verbatim>\<open>u8\<close> and \<^verbatim>\<open>[u8]\<close>.\<close>

definition bstr :: "string \<Rightarrow> bytes" where
  "bstr s = map (\<lambda>c. of_nat (of_char c)) s"

definition is_ascii_digit :: "u8 \<Rightarrow> bool" where
  "is_ascii_digit b \<longleftrightarrow> 48 \<le> b \<and> b \<le> 57"

definition is_ascii_hexdigit :: "u8 \<Rightarrow> bool" where
  "is_ascii_hexdigit b \<longleftrightarrow> is_ascii_digit b \<or> (65 \<le> b \<and> b \<le> 70) \<or> (97 \<le> b \<and> b \<le> 102)"

definition is_ascii_alphanumeric :: "u8 \<Rightarrow> bool" where
  "is_ascii_alphanumeric b \<longleftrightarrow> is_ascii_digit b \<or> (65 \<le> b \<and> b \<le> 90) \<or> (97 \<le> b \<and> b \<le> 122)"

definition is_ascii_whitespace :: "u8 \<Rightarrow> bool" where
  "is_ascii_whitespace b \<longleftrightarrow> b \<in> {32, 9, 10, 12, 13}"

definition ascii_lower :: "u8 \<Rightarrow> u8" where
  "ascii_lower b = (if 65 \<le> b \<and> b \<le> 90 then b + 32 else b)"

definition eq_ignore_ascii_case :: "bytes \<Rightarrow> bytes \<Rightarrow> bool" where
  "eq_ignore_ascii_case a b \<longleftrightarrow> map ascii_lower a = map ascii_lower b"

definition trim_ascii_start :: "bytes \<Rightarrow> bytes" where
  "trim_ascii_start s = dropWhile is_ascii_whitespace s"

definition trim_ascii_end :: "bytes \<Rightarrow> bytes" where
  "trim_ascii_end s = rev (dropWhile is_ascii_whitespace (rev s))"

definition trim_ascii :: "bytes \<Rightarrow> bytes" where
  "trim_ascii s = trim_ascii_end (trim_ascii_start s)"

lemma ascii_lower_idem [simp]: "ascii_lower (ascii_lower b) = ascii_lower b"
  unfolding ascii_lower_def by unat_arith

text \<open>
  \<^verbatim>\<open><uint>::from_str_radix\<close> for radix 10 and 16 on the bytes of a string: an optional leading
  plus sign, then at least one digit, and a value within the type's maximum. Bytes that are not
  UTF-8 never are digits, so a \<^verbatim>\<open>from_utf8\<close> check in front of it rejects nothing it would accept.
\<close>

definition digit_value :: "u8 \<Rightarrow> nat" where
  "digit_value b =
     (if is_ascii_digit b then unat b - 48 else if 97 \<le> b then unat b - 87 else unat b - 55)"

definition digits_value :: "nat \<Rightarrow> bytes \<Rightarrow> nat" where
  "digits_value radix ds = foldl (\<lambda>acc d. acc * radix + digit_value d) 0 ds"

definition parse_uint :: "nat \<Rightarrow> nat \<Rightarrow> bytes \<Rightarrow> nat option" where
  "parse_uint radix max_value s =
     (let ds = (case s of b # rest \<Rightarrow> (if b = 43 then rest else s) | [] \<Rightarrow> []);
          is_digit = (if radix = 16 then is_ascii_hexdigit else is_ascii_digit)
      in if ds = [] \<or> \<not> list_all is_digit ds then None
         else let v = digits_value radix ds in if v \<le> max_value then Some v else None)"

definition USIZE_MAX :: nat where "USIZE_MAX = 2 ^ 64 - 1"

text \<open>Decimal printing, as \<^verbatim>\<open>Display\<close> renders an unsigned integer.\<close>

fun decimal :: "nat \<Rightarrow> bytes" where
  "decimal n = (if n < 10 then [of_nat (48 + n)] else decimal (n div 10) @ [of_nat (48 + n mod 10)])"

declare decimal.simps [simp del]

section \<open>UTF-8 strings\<close>

text \<open>
  \<^verbatim>\<open>str::trim\<close> on the UTF-8 bytes of a string: the Unicode \<^verbatim>\<open>White_Space\<close> characters, by their
  encodings, off both ends.
\<close>

definition ws_chars :: "bytes list" where
  "ws_chars = [[9], [10], [11], [12], [13], [32], [0xC2, 0x85], [0xC2, 0xA0], [0xE1, 0x9A, 0x80],
     [0xE2, 0x80, 0x80], [0xE2, 0x80, 0x81], [0xE2, 0x80, 0x82], [0xE2, 0x80, 0x83], [0xE2, 0x80, 0x84],
     [0xE2, 0x80, 0x85], [0xE2, 0x80, 0x86], [0xE2, 0x80, 0x87], [0xE2, 0x80, 0x88], [0xE2, 0x80, 0x89],
     [0xE2, 0x80, 0x8A], [0xE2, 0x80, 0xA8], [0xE2, 0x80, 0xA9], [0xE2, 0x80, 0xAF], [0xE2, 0x81, 0x9F],
     [0xE3, 0x80, 0x80]]"

function drop_any_prefix :: "bytes list \<Rightarrow> bytes \<Rightarrow> bytes" where
  "drop_any_prefix ps s =
     (case find (\<lambda>p. p \<noteq> [] \<and> starts_with s p) ps of
        None \<Rightarrow> s
      | Some p \<Rightarrow> drop_any_prefix ps (drop (length p) s))"
  by pat_completeness auto
termination
proof (relation "measure (length \<circ> snd)")
  fix ps s p
  assume "find (\<lambda>p. p \<noteq> [] \<and> starts_with s p) ps = Some p"
  then have "p \<noteq> []" and "starts_with s p" by (auto simp: find_Some_iff)
  then have "0 < length p" and "length p \<le> length s"
    by (simp_all add: starts_with_def) (metis length_take min.bounded_iff nle_le)
  then have "length s - length p < length s" by linarith
  then show "((ps, drop (length p) s), ps, s) \<in> measure (length \<circ> snd)" by simp
qed simp

declare drop_any_prefix.simps [simp del]

definition trim_str :: "bytes \<Rightarrow> bytes" where
  "trim_str s = rev (drop_any_prefix (map rev ws_chars) (rev (drop_any_prefix ws_chars s)))"

end
