(* ===== verification/Arena.thy ===== *)
theory Arena
  imports Prelude
begin

text \<open>
  \<^verbatim>\<open>src/src/reactor/arena.rs\<close>: the generational-index arena behind the reactor's handlers and the
  dispatcher's registrations. A slot's generation is a wrapping \<^verbatim>\<open>u32\<close>; the free list is a stack
  whose top is the end of the vector. \<open>None\<close> of an insertion is the code's panic on an exhausted
  index space (or a free index out of range, which the invariant excludes). The locale
  \<open>handle_store\<close> is the contract the dispatcher relies on; \<open>ar\<close> interprets it on the arena.
\<close>

section \<open>Keys\<close>

record key =
  key_index :: u32
  key_generation :: u32

definition key_to_u64 :: "key \<Rightarrow> u64" where
  "key_to_u64 k = push_bit 32 (ucast (key_index k)) OR ucast (key_generation k)"

definition key_from_u64 :: "u64 \<Rightarrow> key" where
  "key_from_u64 packed = \<lparr>key_index = ucast (drop_bit 32 packed), key_generation = ucast packed\<rparr>"

section \<open>The arena\<close>

record 'a slot =
  sl_generation :: u32
  sl_value :: "'a option"

record 'a arena =
  ar_slots :: "'a slot list"
  ar_free :: "u32 list"

definition arena_new :: "'a arena" where
  "arena_new = \<lparr>ar_slots = [], ar_free = []\<rparr>"

definition arena_slot :: "'a arena \<Rightarrow> key \<Rightarrow> 'a slot option" where
  "arena_slot a k =
     (case nth_opt (ar_slots a) (unat (key_index k)) of
        None \<Rightarrow> None
      | Some s \<Rightarrow> if sl_generation s = key_generation k then Some s else None)"

definition arena_insert_from :: "'a arena \<Rightarrow> (key \<Rightarrow> 'a) \<Rightarrow> (key \<times> 'a arena) option" where
  "arena_insert_from a mk =
     (if ar_free a \<noteq> [] then
        let index = last (ar_free a); i = unat index in
        case nth_opt (ar_slots a) i of
          None \<Rightarrow> None
        | Some s \<Rightarrow>
            let key = \<lparr>key_index = index, key_generation = sl_generation s\<rparr> in
            Some (key, \<lparr>ar_slots = (ar_slots a)[i := s\<lparr>sl_value := Some (mk key)\<rparr>],
                        ar_free = butlast (ar_free a)\<rparr>)
      else
        case u32_try_from (length (ar_slots a)) of
          None \<Rightarrow> None
        | Some index \<Rightarrow>
            let key = \<lparr>key_index = index, key_generation = 0\<rparr> in
            Some (key, a\<lparr>ar_slots := ar_slots a @ [\<lparr>sl_generation = 0, sl_value = Some (mk key)\<rparr>]\<rparr>))"

definition arena_insert :: "'a arena \<Rightarrow> 'a \<Rightarrow> (key \<times> 'a arena) option" where
  "arena_insert a value = arena_insert_from a (\<lambda>_. value)"

definition arena_get :: "'a arena \<Rightarrow> key \<Rightarrow> 'a option" where
  "arena_get a k = (case arena_slot a k of None \<Rightarrow> None | Some s \<Rightarrow> sl_value s)"

text \<open>\<^verbatim>\<open>get_mut\<close> lends the value for an edit \<open>f\<close>.\<close>

definition arena_get_mut :: "'a arena \<Rightarrow> key \<Rightarrow> ('a \<Rightarrow> 'a) \<Rightarrow> 'a arena" where
  "arena_get_mut a k f =
     (case arena_slot a k of
        None \<Rightarrow> a
      | Some s \<Rightarrow> a\<lparr>ar_slots := (ar_slots a)[unat (key_index k) := s\<lparr>sl_value := map_option f (sl_value s)\<rparr>]\<rparr>)"

definition arena_remove :: "'a arena \<Rightarrow> key \<Rightarrow> 'a arena \<times> 'a option" where
  "arena_remove a k =
     (case arena_slot a k of
        None \<Rightarrow> (a, None)
      | Some s \<Rightarrow>
          (case sl_value s of
             None \<Rightarrow> (a, None)
           | Some v \<Rightarrow>
               (\<lparr>ar_slots = (ar_slots a)[unat (key_index k) :=
                   \<lparr>sl_generation = sl_generation s + 1, sl_value = None\<rparr>],
                 ar_free = ar_free a @ [key_index k]\<rparr>, Some v)))"

definition arena_contains :: "'a arena \<Rightarrow> key \<Rightarrow> bool" where
  "arena_contains a k = (arena_get a k \<noteq> None)"

definition arena_iter :: "'a arena \<Rightarrow> (key \<times> 'a) list" where
  "arena_iter a =
     List.map_filter (\<lambda>(i, s). map_option (\<lambda>v.
        (\<lparr>key_index = of_nat i, key_generation = sl_generation s\<rparr>, v)) (sl_value s))
       (zip [0..<length (ar_slots a)] (ar_slots a))"

text \<open>
  \<^verbatim>\<open>HandlerSlot\<close>: a value with a slot whose handler is taken out for the duration of a call. The
  trait's accessors are the arguments \<open>get_slot\<close> and \<open>set_slot\<close>.
\<close>

definition take_handler ::
  "('t \<Rightarrow> 'h option) \<Rightarrow> ('h option \<Rightarrow> 't \<Rightarrow> 't) \<Rightarrow> 't arena \<Rightarrow> key \<Rightarrow> 't arena \<times> 'h option" where
  "take_handler get_slot set_slot a k =
     (case arena_get a k of
        None \<Rightarrow> (a, None)
      | Some v \<Rightarrow> (arena_get_mut a k (set_slot None), get_slot v))"

definition restore_handler :: "('h option \<Rightarrow> 't \<Rightarrow> 't) \<Rightarrow> 't arena \<Rightarrow> key \<Rightarrow> 'h \<Rightarrow> 't arena" where
  "restore_handler set_slot a k handler =
     (case arena_get a k of
        None \<Rightarrow> a
      | Some _ \<Rightarrow> arena_get_mut a k (set_slot (Some handler)))"

definition arena_handlers :: "('t \<Rightarrow> 'h option) \<Rightarrow> 't arena \<Rightarrow> (key \<times> 'h) list" where
  "arena_handlers get_slot a = List.map_filter (\<lambda>(k, v). map_option (\<lambda>h. (k, h)) (get_slot v)) (arena_iter a)"

section \<open>The invariant\<close>

definition arena_inv :: "'a arena \<Rightarrow> bool" where
  "arena_inv a \<longleftrightarrow> length (ar_slots a) \<le> 2 ^ 32 \<and> distinct (ar_free a)
     \<and> (\<forall>i < length (ar_slots a). sl_value (ar_slots a ! i) = None \<longleftrightarrow> of_nat i \<in> set (ar_free a))
     \<and> (\<forall>f \<in> set (ar_free a). unat f < length (ar_slots a))"

lemma arena_inv_new: "arena_inv arena_new"
  by (simp add: arena_inv_def arena_new_def)

lemma arena_slot_Some:
  "arena_slot a k = Some s \<longleftrightarrow> unat (key_index k) < length (ar_slots a)
     \<and> s = ar_slots a ! unat (key_index k) \<and> sl_generation s = key_generation k"
  by (auto simp: arena_slot_def nth_opt_def)

lemma arena_get_Some:
  "arena_get a k = Some v \<longleftrightarrow> unat (key_index k) < length (ar_slots a)
     \<and> sl_generation (ar_slots a ! unat (key_index k)) = key_generation k
     \<and> sl_value (ar_slots a ! unat (key_index k)) = Some v"
  by (auto simp: arena_get_def arena_slot_def nth_opt_def)

lemma unat_u32_of_nat: "i < length xs \<Longrightarrow> length xs \<le> 4294967296 \<Longrightarrow> unat (of_nat i :: u32) = i"
  by (rule unat_of_nat_u32) simp

lemma slot_update_value: "(s :: 'a slot)\<lparr>sl_value := v\<rparr> = \<lparr>sl_generation = sl_generation s, sl_value = v\<rparr>"
  by simp

lemma arena_insert_from_cases:
  assumes inv: "arena_inv a" and ins: "arena_insert_from a mk = Some (k, a')"
  obtains (reuse) free where "ar_free a = free @ [key_index k]" and "unat (key_index k) < length (ar_slots a)"
      and "key_generation k = sl_generation (ar_slots a ! unat (key_index k))"
      and "sl_value (ar_slots a ! unat (key_index k)) = None"
      and "a' = \<lparr>ar_slots = (ar_slots a)[unat (key_index k) :=
             \<lparr>sl_generation = key_generation k, sl_value = Some (mk k)\<rparr>], ar_free = free\<rparr>"
  | (grow) "ar_free a = []" and "unat (key_index k) = length (ar_slots a)"
      and "length (ar_slots a) < 2 ^ 32" and "key_generation k = 0"
      and "a' = a\<lparr>ar_slots := ar_slots a @ [\<lparr>sl_generation = 0, sl_value = Some (mk k)\<rparr>]\<rparr>"
proof (cases "ar_free a" rule: rev_cases)
  case Nil
  with ins have lt: "length (ar_slots a) < 2 ^ 32"
    and k: "k = \<lparr>key_index = of_nat (length (ar_slots a)), key_generation = 0\<rparr>"
    and a': "a' = a\<lparr>ar_slots := ar_slots a @ [\<lparr>sl_generation = 0, sl_value = Some (mk k)\<rparr>]\<rparr>"
    by (auto simp: arena_insert_from_def u32_try_from_def Let_def split: if_splits)
  show thesis
    by (rule grow) (use Nil lt k a' in \<open>simp_all add: unat_of_nat_u32\<close>)
next
  case (snoc free index)
  with inv have lt: "unat index < length (ar_slots a)" by (simp add: arena_inv_def)
  with snoc ins have k: "k = \<lparr>key_index = index, key_generation = sl_generation (ar_slots a ! unat index)\<rparr>"
    and a': "a' = \<lparr>ar_slots = (ar_slots a)[unat index := (ar_slots a ! unat index)\<lparr>sl_value := Some (mk k)\<rparr>],
                   ar_free = free\<rparr>"
    by (auto simp: arena_insert_from_def nth_opt_def Let_def)
  from inv lt snoc have "sl_value (ar_slots a ! unat index) = None"
    unfolding arena_inv_def by (metis in_set_conv_decomp of_nat_unat_word)
  then show thesis
    by (intro reuse [of free]) (use snoc lt k a' in \<open>simp_all add: slot_update_value\<close>)
qed

lemma arena_insert_inv [inv_intros]:
  assumes inv: "arena_inv a" and ins: "arena_insert_from a mk = Some (k, a')"
  shows "arena_inv a'"
  using assms
proof (cases rule: arena_insert_from_cases)
  case (reuse free)
  have "of_nat i \<noteq> key_index k" if "i < length (ar_slots a)" "i \<noteq> unat (key_index k)" for i
    using that inv unat_u32_of_nat [of i "ar_slots a"] by (auto simp: arena_inv_def)
  with reuse inv show ?thesis
    by (auto simp: arena_inv_def nth_list_update)
next
  case grow
  with inv show ?thesis
    by (auto simp: arena_inv_def nth_append less_Suc_eq)
qed

lemma arena_remove_inv [inv_intros]:
  assumes inv: "arena_inv a"
  shows "arena_inv (fst (arena_remove a k))"
proof (cases "arena_get a k")
  case None
  then show ?thesis using inv
    by (auto simp: arena_remove_def arena_get_def split: option.splits)
next
  case (Some v)
  then have lt: "unat (key_index k) < length (ar_slots a)"
    and v: "sl_value (ar_slots a ! unat (key_index k)) = Some v"
    and g: "sl_generation (ar_slots a ! unat (key_index k)) = key_generation k"
    by (simp_all add: arena_get_Some)
  have "key_index k \<notin> set (ar_free a)"
    using inv lt v unfolding arena_inv_def by (metis option.distinct(1) of_nat_unat_word)
  moreover have "of_nat i \<noteq> key_index k" if "i < length (ar_slots a)" "i \<noteq> unat (key_index k)" for i
    using that inv unat_u32_of_nat [of i "ar_slots a"] by (auto simp: arena_inv_def)
  ultimately show ?thesis using inv lt v g
    by (auto simp: arena_inv_def arena_remove_def arena_slot_def nth_opt_def nth_list_update)
qed

section \<open>The contract\<close>

text \<open>A store that hands out a handle per value; the handle of a removed value resolves to nothing.\<close>

locale handle_store =
  fixes lookup :: "'s \<Rightarrow> 'h \<Rightarrow> 'v option"
    and add :: "'s \<Rightarrow> 'v \<Rightarrow> ('h \<times> 's) option"
    and del :: "'s \<Rightarrow> 'h \<Rightarrow> 's \<times> 'v option"
    and invar :: "'s \<Rightarrow> bool"
  assumes add_fresh: "invar s \<Longrightarrow> add s v = Some (h, s') \<Longrightarrow> lookup s h = None"
    and add_lookup: "invar s \<Longrightarrow> add s v = Some (h, s') \<Longrightarrow> lookup s' = (lookup s)(h \<mapsto> v)"
    and add_invar: "invar s \<Longrightarrow> add s v = Some (h, s') \<Longrightarrow> invar s'"
    and del_lookup: "invar s \<Longrightarrow> lookup (fst (del s h)) = (lookup s)(h := None)"
    and del_value: "snd (del s h) = lookup s h"
    and del_invar: "invar s \<Longrightarrow> invar (fst (del s h))"
begin

lemma add_then_del: "invar s \<Longrightarrow> add s v = Some (h, s') \<Longrightarrow> lookup (fst (del s' h)) = lookup s"
  using add_fresh [of s v h s'] add_lookup [of s v h s'] del_lookup [of s' h] add_invar [of s v h s']
  by (auto simp: fun_eq_iff)

lemma add_keeps_others: "invar s \<Longrightarrow> add s v = Some (h, s') \<Longrightarrow> lookup s h' = Some w \<Longrightarrow> lookup s' h' = Some w"
  using add_fresh [of s v h s'] add_lookup [of s v h s'] by auto

lemma del_twice: "invar s \<Longrightarrow> snd (del (fst (del s h)) h) = None"
  by (simp add: del_value del_lookup)

end

lemma arena_insert_lookup:
  assumes inv: "arena_inv a" and ins: "arena_insert_from a mk = Some (k, a')"
  shows "arena_get a k = None" and "arena_get a' = (arena_get a)(k \<mapsto> mk k)"
proof -
  have "arena_get a k = None \<and> (\<forall>k'. arena_get a' k' = ((arena_get a)(k \<mapsto> mk k)) k')"
    using assms
  proof (cases rule: arena_insert_from_cases)
    case (reuse free)
    have "key_index k' = key_index k \<longleftrightarrow> unat (key_index k') = unat (key_index k)" for k' :: key by (simp add: unat_word_eq_iff)
    with reuse show ?thesis
      by (auto simp: arena_get_def arena_slot_def nth_opt_def nth_list_update intro!: key.equality)
  next
    case grow
    have "key_index k' = key_index k \<longleftrightarrow> unat (key_index k') = unat (key_index k)" for k' :: key by (simp add: unat_word_eq_iff)
    with grow show ?thesis
      by (auto simp: arena_get_def arena_slot_def nth_opt_def nth_append intro!: key.equality)
  qed
  then show "arena_get a k = None" and "arena_get a' = (arena_get a)(k \<mapsto> mk k)"
    by (auto simp: fun_eq_iff)
qed

lemma arena_remove_lookup:
  assumes inv: "arena_inv a"
  shows "arena_get (fst (arena_remove a k)) = (arena_get a)(k := None)"
proof
  fix k'
    have gen: "g + 1 \<noteq> g" for g :: u32 by simp
  show "arena_get (fst (arena_remove a k)) k' = ((arena_get a)(k := None)) k'"
  proof (cases "arena_get a k")
    case None
    then show ?thesis
      by (auto simp: arena_remove_def arena_get_def split: option.splits)
  next
    case (Some v)
    then have slot: "arena_slot a k = Some (ar_slots a ! unat (key_index k))"
      and lt: "unat (key_index k) < length (ar_slots a)"
      and v: "sl_value (ar_slots a ! unat (key_index k)) = Some v"
      and g: "sl_generation (ar_slots a ! unat (key_index k)) = key_generation k"
      by (simp_all add: arena_get_Some arena_slot_Some)
    have free: "arena_get (fst (arena_remove a k)) k' = None" if "unat (key_index k') = unat (key_index k)"
      using that slot v lt by (simp add: arena_remove_def arena_get_def arena_slot_def nth_opt_def)
    have other: "arena_get (fst (arena_remove a k)) k' = arena_get a k'" if "unat (key_index k') \<noteq> unat (key_index k)"
      using that slot v lt by (simp add: arena_remove_def arena_get_def arena_slot_def nth_opt_def)
    have same_slot: "arena_get a k' = None" if "unat (key_index k') = unat (key_index k)" "k' \<noteq> k"
    proof -
      have "key_generation k' \<noteq> key_generation k" using that by (auto simp: unat_word_eq_iff intro: key.equality)
      then show ?thesis using that g lt by (auto simp: arena_get_def arena_slot_def nth_opt_def)
    qed
    show ?thesis
      using free other same_slot by (cases "unat (key_index k') = unat (key_index k)") auto
  qed
qed

interpretation ar: handle_store arena_get arena_insert arena_remove arena_inv
proof
  show "\<And>(s :: 'a arena) h. snd (arena_remove s h) = arena_get s h"
    by (simp add: arena_remove_def arena_get_def split: option.splits)
qed (auto simp: arena_insert_def arena_insert_lookup arena_remove_lookup intro: arena_insert_inv arena_remove_inv)

section \<open>Stale keys\<close>

text \<open>The operations a client can run, and a run of them; an insertion that panics ends it.\<close>

datatype 'a arena_op = Insert 'a | Remove key

fun arena_step :: "'a arena \<Rightarrow> 'a arena_op \<Rightarrow> 'a arena option" where
  "arena_step a (Insert v) = map_option snd (arena_insert a v)"
| "arena_step a (Remove k) = Some (fst (arena_remove a k))"

fun arena_run :: "'a arena \<Rightarrow> 'a arena_op list \<Rightarrow> 'a arena option" where
  "arena_run a [] = Some a"
| "arena_run a (x # xs) = (case arena_step a x of None \<Rightarrow> None | Some a' \<Rightarrow> arena_run a' xs)"

fun is_remove :: "'a arena_op \<Rightarrow> bool" where
  "is_remove (Remove _) = True"
| "is_remove (Insert _) = False"

text \<open>The generation a slot has run ahead of the key's, counted without wrapping.\<close>

definition ahead :: "'a arena \<Rightarrow> key \<Rightarrow> nat \<Rightarrow> bool" where
  "ahead a k n \<longleftrightarrow> unat (key_index k) < length (ar_slots a)
     \<and> sl_generation (ar_slots a ! unat (key_index k)) = key_generation k + of_nat n"

lemma ahead_stale: "ahead a k n \<Longrightarrow> 0 < n \<Longrightarrow> n < 4294967296 \<Longrightarrow> arena_get a k = None"
proof -
  assume a: "ahead a k n" and n: "0 < n" "n < 4294967296"
  have "(of_nat n :: u32) \<noteq> 0" using n unat_of_nat_u32 [of n] by (metis less_numeral_extra(3) unat_0)
  then have "key_generation k + of_nat n \<noteq> key_generation k" by simp
  with a show ?thesis by (auto simp: ahead_def arena_get_def arena_slot_def nth_opt_def)
qed

lemma ahead_insert:
  assumes "arena_inv a" "arena_insert a v = Some (k', a')" "ahead a k n"
  shows "ahead a' k n"
  using assms(1,2) unfolding arena_insert_def
proof (cases rule: arena_insert_from_cases)
  case (reuse free)
  with assms(3) show ?thesis by (auto simp: ahead_def nth_list_update)
next
  case grow
  with assms(3) show ?thesis by (auto simp: ahead_def nth_append)
qed

lemma ahead_remove:
  assumes "ahead a k n"
  shows "ahead (fst (arena_remove a k')) k n \<or> ahead (fst (arena_remove a k')) k (Suc n)"
  using assms
  by (auto simp: ahead_def arena_remove_def arena_slot_def nth_opt_def nth_list_update split: option.splits)

lemma ahead_run:
  assumes "arena_inv a" "ahead a k n" "arena_run a ops = Some a'"
  shows "\<exists>m. n \<le> m \<and> m \<le> n + length (filter is_remove ops) \<and> ahead a' k m"
  using assms
proof (induction ops arbitrary: a n)
  case Nil
  then show ?case by auto
next
  case (Cons x xs)
  show ?case
  proof (cases x)
    case (Insert v)
    with Cons.prems(3) obtain k' b where b: "arena_insert a v = Some (k', b)" "arena_run b xs = Some a'"
      by (auto split: option.splits)
    have "arena_inv b" using ar.add_invar [OF Cons.prems(1) b(1)] .
    from Cons.IH [OF this ahead_insert [OF Cons.prems(1) b(1) Cons.prems(2)] b(2)] Insert show ?thesis by simp
  next
    case (Remove k')
    let ?b = "fst (arena_remove a k')"
    have inv: "arena_inv ?b" using Cons.prems(1) by (rule arena_remove_inv)
    from Remove Cons.prems(3) have run: "arena_run ?b xs = Some a'" by simp
    from ahead_remove [OF Cons.prems(2)] show ?thesis
    proof
      assume "ahead ?b k n"
      from Cons.IH [OF inv this run] Remove show ?thesis by auto
    next
      assume "ahead ?b k (Suc n)"
      from Cons.IH [OF inv this run] Remove show ?thesis by (auto intro: Suc_leD)
    qed
  qed
qed

section \<open>Properties\<close>

text \<open>A key survives its trip through the 64-bit token the kernel's readiness API carries, and
  distinct keys have distinct tokens.\<close>

theorem key_token_roundtrip: "key_from_u64 (key_to_u64 k) = k \<and> inj key_to_u64"
proof -
  have rt: "key_from_u64 (key_to_u64 i) = i" for i
  proof -
    have "(ucast (drop_bit 32 (key_to_u64 i)) :: u32) = key_index i"
      unfolding key_to_u64_def by (rule bit_word_eqI) (auto simp: bit_simps dest: bit_imp_le_length)
    moreover have "(ucast (key_to_u64 i) :: u32) = key_generation i"
      unfolding key_to_u64_def by (rule bit_word_eqI) (auto simp: bit_simps)
    ultimately show ?thesis by (simp add: key_from_u64_def)
  qed
  show ?thesis using rt by (metis injI)
qed

text \<open>C20. No use after free: once the value behind a key is removed, the key resolves to nothing
  whatever insertions and removals follow, until the slot's generation has gone all the way round,
  which takes \<open>2\<^sup>3\<^sup>2 - 1\<close> further removals.\<close>

theorem stale_key_stays_stale:
  assumes inv: "arena_inv a" and live: "arena_get a k = Some v"
    and run: "arena_run (fst (arena_remove a k)) ops = Some b"
    and few: "length (filter is_remove ops) < 2 ^ 32 - 1"
  shows "arena_get b k = None"
proof -
  have "ahead (fst (arena_remove a k)) k 1"
    using live by (auto simp: arena_get_Some ahead_def arena_remove_def arena_slot_def nth_opt_def)
  from ahead_run [OF arena_remove_inv [OF inv] this run]
  obtain m where "1 \<le> m" "m \<le> 1 + length (filter is_remove ops)" "ahead b k m" by blast
  with few show ?thesis by (intro ahead_stale [of b k m]) auto
qed

text \<open>The iterator lists exactly the live entries, each under the key that finds it.\<close>

theorem arena_iter_exact:
  assumes inv: "arena_inv a"
  shows "(k, v) \<in> set (arena_iter a) \<longleftrightarrow> arena_get a k = Some v"
proof -
  have len: "length (ar_slots a) \<le> 4294967296" using inv by (simp add: arena_inv_def)
  have "(k, v) \<in> set (arena_iter a) \<longleftrightarrow> (\<exists>i < length (ar_slots a). sl_value (ar_slots a ! i) = Some v
      \<and> k = \<lparr>key_index = of_nat i, key_generation = sl_generation (ar_slots a ! i)\<rparr>)"
    by (force simp: arena_iter_def map_filter_def set_zip image_iff)
  also have "\<dots> \<longleftrightarrow> arena_get a k = Some v"
  proof
    assume "\<exists>i < length (ar_slots a). sl_value (ar_slots a ! i) = Some v
      \<and> k = \<lparr>key_index = of_nat i, key_generation = sl_generation (ar_slots a ! i)\<rparr>"
    then show "arena_get a k = Some v" using len by (auto simp: arena_get_Some unat_u32_of_nat)
  next
    assume "arena_get a k = Some v"
    then show "\<exists>i < length (ar_slots a). sl_value (ar_slots a ! i) = Some v
      \<and> k = \<lparr>key_index = of_nat i, key_generation = sl_generation (ar_slots a ! i)\<rparr>"
      by (intro exI [of _ "unat (key_index k)"]) (auto simp: arena_get_Some)
  qed
  finally show ?thesis .
qed

definition sample_arena :: "u8 arena" where
  "sample_arena = snd (the (arena_insert (snd (the (arena_insert arena_new 7))) 9))"

lemma sample_arena_inv: "arena_inv sample_arena"
proof -
  have one: "arena_insert arena_new (7 :: u8) = Some (fst (the (arena_insert arena_new 7)), snd (the (arena_insert arena_new 7)))"
    by code_simp
  have two: "arena_insert (snd (the (arena_insert arena_new 7))) (9 :: u8)
      = Some (fst (the (arena_insert (snd (the (arena_insert arena_new 7))) 9)), sample_arena)"
    by code_simp
  show ?thesis by (rule ar.add_invar [OF ar.add_invar [OF arena_inv_new one] two])
qed

lemma stale_key_stays_stale_witness:
  "arena_get (the (arena_run (fst (arena_remove sample_arena \<lparr>key_index = 1, key_generation = 0\<rparr>))
     [Insert 4, Remove \<lparr>key_index = 0, key_generation = 0\<rparr>])) \<lparr>key_index = 1, key_generation = 0\<rparr> = None"
proof (rule stale_key_stays_stale [where v = 9, OF sample_arena_inv])
  show "length (filter is_remove [Insert 4, Remove \<lparr>key_index = 0, key_generation = 0\<rparr>]) < 2 ^ 32 - 1"
    by simp
qed code_simp+

lemma arena_iter_exact_witness: "(\<lparr>key_index = 1, key_generation = 0\<rparr>, 9) \<in> set (arena_iter sample_arena)"
  unfolding arena_iter_exact [OF sample_arena_inv] by code_simp

end
