(* ===== verification/Unique_List.thy ===== *)
theory Unique_List
  imports Prelude
begin

text \<open>
  \<^verbatim>\<open>src/src/unique_list.rs\<close>: a non-empty, duplicate-free list under a per-element admission rule,
  which the configuration uses for device filters and port sets. The trait \<^verbatim>\<open>ListRule\<close> is a record
  of its noun and its refusal; the element parser of \<^verbatim>\<open>FromStr\<close> is an argument of the string form.
\<close>

record 'a list_rule =
  lr_noun :: string
  lr_refuse :: "'a \<Rightarrow> string option"

datatype 'a list_error =
    ListEmpty string
  | ListDuplicate string 'a
  | ListRefused 'a string
  | ListInvalid string bytes

text \<open>The loop of \<^verbatim>\<open>try_from\<close>: \<open>seen\<close> is the prefix \<^verbatim>\<open>items[..i]\<close>.\<close>

fun unique_list_scan :: "'a list_rule \<Rightarrow> 'a list \<Rightarrow> 'a list \<Rightarrow> 'a list_error option" where
  "unique_list_scan r seen [] = None"
| "unique_list_scan r seen (item # rest) =
     (case lr_refuse r item of
        Some reason \<Rightarrow> Some (ListRefused item reason)
      | None \<Rightarrow> if item \<in> set seen then Some (ListDuplicate (lr_noun r) item)
                else unique_list_scan r (seen @ [item]) rest)"

definition unique_list_try_from :: "'a list_rule \<Rightarrow> 'a list \<Rightarrow> ('a list_error, 'a list) result" where
  "unique_list_try_from r items =
     (if items = [] then Inl (ListEmpty (lr_noun r))
      else case unique_list_scan r [] items of Some e \<Rightarrow> Inl e | None \<Rightarrow> Inr items)"

fun collect_tokens :: "'a list_rule \<Rightarrow> (bytes \<Rightarrow> 'a option) \<Rightarrow> bytes list \<Rightarrow> ('a list_error, 'a list) result" where
  "collect_tokens r parse [] = Inr []"
| "collect_tokens r parse (t # ts) =
     (let token = trim_str t in
      case parse token of
        None \<Rightarrow> Inl (ListInvalid (lr_noun r) token)
      | Some v \<Rightarrow> result_bind (collect_tokens r parse ts) (\<lambda>vs. Inr (v # vs)))"

definition unique_list_from_str :: "'a list_rule \<Rightarrow> (bytes \<Rightarrow> 'a option) \<Rightarrow> bytes \<Rightarrow> ('a list_error, 'a list) result" where
  "unique_list_from_str r parse s =
     result_bind (collect_tokens r parse (split_by (\<lambda>b. b = 44) s)) (unique_list_try_from r)"

lemma unique_list_scan_None:
  "unique_list_scan r seen items = None \<longleftrightarrow>
     (\<forall>x \<in> set items. lr_refuse r x = None) \<and> distinct items \<and> set seen \<inter> set items = {}"
  by (induction r seen items rule: unique_list_scan.induct) (auto split: option.splits)

lemma unique_list_try_from_Inr:
  "unique_list_try_from r items = Inr xs \<longleftrightarrow>
     xs = items \<and> items \<noteq> [] \<and> distinct items \<and> (\<forall>x \<in> set items. lr_refuse r x = None)"
  using unique_list_scan_None [of r "[]" items]
  by (auto simp: unique_list_try_from_def split: option.splits)

text \<open>The list a configuration ends up with: \<^verbatim>\<open>try_from\<close> accepts a vector, unchanged, exactly when
  it is non-empty, free of duplicates and every element is admitted by the rule; on a string, an
  accepted list is that of the trimmed comma-separated tokens.\<close>

theorem unique_list_accepts:
  "(unique_list_try_from r items = Inr xs \<longleftrightarrow>
      xs = items \<and> items \<noteq> [] \<and> distinct items \<and> (\<forall>x \<in> set items. lr_refuse r x = None))
   \<and> (unique_list_from_str r parse s = Inr ys \<longrightarrow>
      map Some ys = map (parse \<circ> trim_str) (split_by (\<lambda>b. b = 44) s) \<and> ys \<noteq> [] \<and> distinct ys)"
proof -
  have "collect_tokens r parse ts = Inr vs \<Longrightarrow> map Some vs = map (parse \<circ> trim_str) ts" for ts vs
    by (induction ts arbitrary: vs) (auto simp: Let_def result_bind_Inr_iff split: option.splits)
  then show ?thesis
    by (auto simp: unique_list_try_from_Inr unique_list_from_str_def result_bind_Inr_iff)
qed

definition sample_rule :: "u16 list_rule" where
  "sample_rule = \<lparr>lr_noun = ''port'', lr_refuse = \<lambda>p. if p = 0 then Some ''is reserved'' else None\<rparr>"

lemma unique_list_accepts_witness:
  "unique_list_try_from sample_rule [9, 7] = Inr [9, 7]
   \<and> map Some [9, 7 :: u16] = map ((\<lambda>t. map_option of_nat (parse_uint 10 65535 t)) \<circ> trim_str)
        (split_by (\<lambda>b. b = 44) (bstr ''9, 7''))"
proof
  show "unique_list_try_from sample_rule [9, 7] = Inr [9, 7]"
    by (rule unique_list_accepts [THEN conjunct1, THEN iffD2]) (simp add: sample_rule_def)
  have "unique_list_from_str sample_rule (\<lambda>t. map_option of_nat (parse_uint 10 65535 t)) (bstr ''9, 7'') = Inr [9, 7]"
    by code_simp
  then show "map Some [9, 7 :: u16] = map ((\<lambda>t. map_option of_nat (parse_uint 10 65535 t)) \<circ> trim_str)
        (split_by (\<lambda>b. b = 44) (bstr ''9, 7''))"
    using unique_list_accepts [THEN conjunct2, THEN mp] by blast
qed

end
