(* ===== verification/Addresses.thy ===== *)
theory Addresses
  imports Unique_List
begin

text \<open>
  \<^verbatim>\<open>src/src/net.rs\<close> and \<^verbatim>\<open>src/src/net/mac.rs\<close>: the sizes of the wire layer, the link types, the
  address predicates of \<^verbatim>\<open>std::net\<close> the program calls, and MAC addresses with their text form.
  An IPv4 address is a 32-bit word and an IPv6 address a 128-bit word, their octets the big-endian
  bytes. A MAC address carries its six octets by name, as the code's \<^verbatim>\<open>[u8; 6]\<close> does by type.
\<close>

section \<open>Constants and link types\<close>

text \<open>The union of the platforms: \<open>DltNull\<close> on the BSDs and macOS, \<open>RawIp\<close> on Linux.\<close>

datatype link_type = Ethernet | DltNull | RawIp

definition IP_PROTO_UDP :: u8 where "IP_PROTO_UDP = 17"
definition IPV6_NEXT_FRAGMENT :: u8 where "IPV6_NEXT_FRAGMENT = 44"
definition ETHERNET_HEADER_SIZE :: nat where "ETHERNET_HEADER_SIZE = 14"
definition DLT_NULL_HEADER_SIZE :: nat where "DLT_NULL_HEADER_SIZE = 4"
definition IPV4_HEADER_SIZE :: nat where "IPV4_HEADER_SIZE = 20"
definition IPV4_MAX_HEADER_SIZE :: nat where "IPV4_MAX_HEADER_SIZE = 60"
definition IPV6_HEADER_SIZE :: nat where "IPV6_HEADER_SIZE = 40"
definition IPV6_FRAGMENT_HEADER_SIZE :: nat where "IPV6_FRAGMENT_HEADER_SIZE = 8"
definition UDP_HEADER_SIZE :: nat where "UDP_HEADER_SIZE = 8"
definition FRAGMENT_UNIT :: nat where "FRAGMENT_UNIT = 8"
definition MAX_DATAGRAM_LEN :: nat where "MAX_DATAGRAM_LEN = 9000"
definition MAX_FRAME_LEN :: nat where
  "MAX_FRAME_LEN = ETHERNET_HEADER_SIZE + IPV4_MAX_HEADER_SIZE + MAX_DATAGRAM_LEN"
definition MAX_MTU :: nat where "MAX_MTU = MAX_FRAME_LEN - ETHERNET_HEADER_SIZE"

lemmas net_sizes = IPV4_HEADER_SIZE_def IPV6_HEADER_SIZE_def IPV4_MAX_HEADER_SIZE_def
  UDP_HEADER_SIZE_def ETHERNET_HEADER_SIZE_def DLT_NULL_HEADER_SIZE_def
  IPV6_FRAGMENT_HEADER_SIZE_def FRAGMENT_UNIT_def MAX_DATAGRAM_LEN_def

section \<open>IP addresses\<close>

type_synonym ipv4 = "32 word"
type_synonym ipv6 = "128 word"

datatype ipaddr = V4 ipv4 | V6 ipv6

definition octets4 :: "ipv4 \<Rightarrow> bytes" where "octets4 a = be_bytes 4 a"
definition octets6 :: "ipv6 \<Rightarrow> bytes" where "octets6 a = be_bytes 16 a"

definition is_ipv4 :: "ipaddr \<Rightarrow> bool" where
  "is_ipv4 ip = (case ip of V4 _ \<Rightarrow> True | V6 _ \<Rightarrow> False)"

abbreviation "is_ipv6 ip \<equiv> \<not> is_ipv4 ip"

text \<open>The address predicates of \<^verbatim>\<open>std::net\<close>.\<close>

definition v4_is_loopback :: "ipv4 \<Rightarrow> bool" where "v4_is_loopback a \<longleftrightarrow> drop_bit 24 a = 127"
definition v4_is_unspecified :: "ipv4 \<Rightarrow> bool" where "v4_is_unspecified a \<longleftrightarrow> a = 0"
definition v4_is_multicast :: "ipv4 \<Rightarrow> bool" where
  "v4_is_multicast a \<longleftrightarrow> 224 \<le> drop_bit 24 a \<and> drop_bit 24 a \<le> 239"
definition v4_is_broadcast :: "ipv4 \<Rightarrow> bool" where "v4_is_broadcast a \<longleftrightarrow> a = 0xffffffff"
definition v4_is_link_local :: "ipv4 \<Rightarrow> bool" where "v4_is_link_local a \<longleftrightarrow> drop_bit 16 a = 0xa9fe"

definition to_ipv4_mapped :: "ipv6 \<Rightarrow> ipv4 option" where
  "to_ipv4_mapped a = (if drop_bit 32 a = 0xffff then Some (ucast a) else None)"
definition v6_is_loopback :: "ipv6 \<Rightarrow> bool" where "v6_is_loopback a \<longleftrightarrow> a = 1"
definition v6_is_unspecified :: "ipv6 \<Rightarrow> bool" where "v6_is_unspecified a \<longleftrightarrow> a = 0"
definition v6_is_multicast :: "ipv6 \<Rightarrow> bool" where "v6_is_multicast a \<longleftrightarrow> drop_bit 120 a = 0xff"
definition v6_is_unicast_link_local :: "ipv6 \<Rightarrow> bool" where
  "v6_is_unicast_link_local a \<longleftrightarrow> drop_bit 112 a AND 0xffc0 = 0xfe80"

definition ip_is_multicast :: "ipaddr \<Rightarrow> bool" where
  "ip_is_multicast ip = (case ip of V4 a \<Rightarrow> v4_is_multicast a | V6 a \<Rightarrow> v6_is_multicast a)"
definition ip_is_unspecified :: "ipaddr \<Rightarrow> bool" where
  "ip_is_unspecified ip = (case ip of V4 a \<Rightarrow> v4_is_unspecified a | V6 a \<Rightarrow> v6_is_unspecified a)"

text \<open>The program's own predicates.\<close>

definition is_link_local :: "ipaddr \<Rightarrow> bool" where
  "is_link_local ip =
     (case ip of
        V4 v4 \<Rightarrow> v4_is_link_local v4
      | V6 v6 \<Rightarrow> (case to_ipv4_mapped v6 of
            Some v4 \<Rightarrow> v4_is_link_local v4
          | None \<Rightarrow> v6_is_unicast_link_local v6))"

definition v4_is_never_a_peer :: "ipv4 \<Rightarrow> bool" where
  "v4_is_never_a_peer v4 \<longleftrightarrow>
     v4_is_loopback v4 \<or> v4_is_unspecified v4 \<or> v4_is_multicast v4 \<or> v4_is_broadcast v4"

definition is_never_a_peer :: "ipaddr \<Rightarrow> bool" where
  "is_never_a_peer ip =
     (case ip of
        V4 v4 \<Rightarrow> v4_is_never_a_peer v4
      | V6 v6 \<Rightarrow> (case to_ipv4_mapped v6 of
            Some v4 \<Rightarrow> v4_is_never_a_peer v4
          | None \<Rightarrow> v6_is_loopback v6 \<or> v6_is_unspecified v6 \<or> v6_is_multicast v6))"

lemma length_octets [simp]: "length (octets4 a) = 4" "length (octets6 b) = 16"
  by (simp_all add: octets4_def octets6_def)

lemma of_octets [simp]: "of_be_bytes (octets4 a) = a" "of_be_bytes (octets6 b) = b"
  by (simp_all add: octets4_def octets6_def)

lemma octets_of: "length bs = 4 \<Longrightarrow> octets4 (of_be_bytes bs) = bs" "length cs = 16 \<Longrightarrow> octets6 (of_be_bytes cs) = cs"
  using be_bytes_of_be_bytes [of bs, where ?'a = 32] be_bytes_of_be_bytes [of cs, where ?'a = 128]
  by (simp_all add: octets4_def octets6_def)

lemma octets4_inject [simp]: "octets4 a = octets4 b \<longleftrightarrow> a = b"
  by (metis of_octets(1))

lemma octets6_inject [simp]: "octets6 a = octets6 b \<longleftrightarrow> a = b"
  by (metis of_octets(2))

section \<open>MAC addresses\<close>

datatype mac_addr = MacAddr u8 u8 u8 u8 u8 u8

fun mac_octets :: "mac_addr \<Rightarrow> bytes" where
  "mac_octets (MacAddr a b c d e f) = [a, b, c, d, e, f]"

fun mac_from :: "bytes \<Rightarrow> mac_addr option" where
  "mac_from [a, b, c, d, e, f] = Some (MacAddr a b c d e f)"
| "mac_from _ = None"

definition mac_broadcast :: mac_addr where
  "mac_broadcast = MacAddr 0xff 0xff 0xff 0xff 0xff 0xff"

definition mac_is_unspecified :: "mac_addr \<Rightarrow> bool" where
  "mac_is_unspecified m \<longleftrightarrow> m = MacAddr 0 0 0 0 0 0"

text \<open>The debug assertion of \<^verbatim>\<open>multicast_for\<close> is the caller's obligation; a release build computes on.\<close>

definition multicast_for :: "ipaddr \<Rightarrow> mac_addr" where
  "multicast_for addr =
     (case addr of
        V4 v4 \<Rightarrow> (let oc = octets4 v4 in MacAddr 0x01 0x00 0x5e (oc ! 1 AND 0x7f) (oc ! 2) (oc ! 3))
      | V6 v6 \<Rightarrow> (let oc = octets6 v6 in MacAddr 0x33 0x33 (oc ! 12) (oc ! 13) (oc ! 14) (oc ! 15)))"

text \<open>\<^verbatim>\<open>Display\<close>: lowercase hexadecimal pairs joined by colons.\<close>

definition hex_digit :: "nat \<Rightarrow> u8" where
  "hex_digit n = (if n < 10 then of_nat (48 + n) else of_nat (87 + n))"

definition hex_byte :: "u8 \<Rightarrow> bytes" where
  "hex_byte b = [hex_digit (unat b div 16), hex_digit (unat b mod 16)]"

fun mac_display :: "mac_addr \<Rightarrow> bytes" where
  "mac_display (MacAddr a b c d e f) =
     hex_byte a @ [58] @ hex_byte b @ [58] @ hex_byte c @ [58] @ hex_byte d @ [58] @ hex_byte e @ [58] @ hex_byte f"

text \<open>
  \<^verbatim>\<open>from_str\<close>: the inner loop over one chunk's octets, then the outer loop over the chunks, which
  draws a group per chunk and answers the octets so far with the groups left.
\<close>

fun mac_group_octets :: "bytes \<Rightarrow> nat \<Rightarrow> nat \<Rightarrow> bytes option" where
  "mac_group_octets grp i 0 = Some []"
| "mac_group_octets grp i (Suc n) =
     (case get_slice (2 * i) (2 * i + 2) grp of
        None \<Rightarrow> None
      | Some octet \<Rightarrow>
          (case parse_uint 16 255 octet of
             None \<Rightarrow> None
           | Some v \<Rightarrow> map_option (\<lambda>rest. of_nat v # rest) (mac_group_octets grp (Suc i) n)))"

fun mac_groups :: "nat \<Rightarrow> nat \<Rightarrow> bytes list \<Rightarrow> (bytes \<times> bytes list) option" where
  "mac_groups group_len 0 groups = Some ([], groups)"
| "mac_groups group_len (Suc chunks) [] = None"
| "mac_groups group_len (Suc chunks) (grp # groups) =
     (if length grp \<noteq> group_len \<or> \<not> list_all is_ascii_hexdigit grp then None
      else case mac_group_octets grp 0 (group_len div 2) of
          None \<Rightarrow> None
        | Some os \<Rightarrow> map_option (\<lambda>(rest, left). (os @ rest, left)) (mac_groups group_len chunks groups))"

lemma mac_groups_code [code]:
  "mac_groups group_len n groups =
     (if n = 0 then Some ([], groups)
      else case groups of
          [] \<Rightarrow> None
        | grp # groups \<Rightarrow>
            if length grp \<noteq> group_len \<or> \<not> list_all is_ascii_hexdigit grp then None
            else case mac_group_octets grp 0 (group_len div 2) of
                None \<Rightarrow> None
              | Some os \<Rightarrow> map_option (\<lambda>(rest, left). (os @ rest, left)) (mac_groups group_len (n - 1) groups))"
  by (cases n; cases groups) (simp_all split: option.split)

definition mac_from_str :: "bytes \<Rightarrow> mac_addr option" where
  "mac_from_str s =
     (let (separator, group_len) =
        (if (46 :: u8) \<in> set s then (46, 4) else if 45 \<in> set s then (45, 2) else (58, 2 :: nat)) in
      case mac_groups group_len (6 div (group_len div 2)) (split_by (\<lambda>b. b = separator) s) of
        None \<Rightarrow> None
      | Some (octets, left) \<Rightarrow> if left \<noteq> [] then None else mac_from octets)"

text \<open>The rule of a device filter admits any address.\<close>

definition macs_rule :: "mac_addr list_rule" where
  "macs_rule = \<lparr>lr_noun = ''MAC'', lr_refuse = \<lambda>_. None\<rparr>"

lemma mac_octets_length [simp]: "length (mac_octets m) = 6"
  by (cases m) simp

lemma mac_from_octets [simp]: "mac_from (mac_octets m) = Some m"
  by (cases m) simp

lemma mac_octets_inject [simp]: "mac_octets m = mac_octets n \<longleftrightarrow> m = n"
  by (metis mac_from_octets option.inject)

lemma mac_from_Some: "mac_from bs = Some m \<longleftrightarrow> bs = mac_octets m"
  by (cases m) (auto elim: mac_from.elims)

lemma mac_from_length: "length bs = 6 \<Longrightarrow> mac_from bs \<noteq> None"
  by (auto simp: numeral_eq_Suc length_Suc_conv)

subsection \<open>The text form\<close>

lemma hex_digit_facts:
  assumes "n < 16"
  shows "is_ascii_hexdigit (hex_digit n) \<and> digit_value (hex_digit n) = n \<and> hex_digit n \<notin> {43, 45, 46, 58}"
proof -
  have "list_all (\<lambda>n. is_ascii_hexdigit (hex_digit n) \<and> digit_value (hex_digit n) = n
      \<and> hex_digit n \<notin> {43, 45, 46, 58}) [0..<16]"
    by code_simp
  with assms show ?thesis by (simp add: list_all_iff)
qed

lemma hex_pair:
  "list_all is_ascii_hexdigit (hex_byte b) \<and> parse_uint 16 255 (hex_byte b) = Some (unat b)
   \<and> list_all (\<lambda>c. c \<noteq> 46 \<and> c \<noteq> 45 \<and> c \<noteq> 58) (hex_byte b)"
proof -
  have "unat b div 16 < 16" "unat b mod 16 < 16" using unat_u8_lt [of b] by linarith simp
  note hi = hex_digit_facts [OF this(1)] and lo = hex_digit_facts [OF this(2)]
  have "digits_value 16 (hex_byte b) = unat b"
    using hi lo by (simp add: digits_value_def hex_byte_def)
  moreover have "unat b \<le> 255" using unat_u8_lt [of b] by linarith
  ultimately show ?thesis
    using hi lo by (simp add: parse_uint_def hex_byte_def)
qed

lemma split_by_hex: "list_all (\<lambda>c. \<not> p c) xs \<Longrightarrow> p d \<Longrightarrow> split_by p (xs @ d # ys) = xs # split_by p ys"
  by (induction xs) auto

lemma split_by_last: "list_all (\<lambda>c. \<not> p c) xs \<Longrightarrow> split_by p xs = [xs]"
  by (induction xs) auto

lemma mac_groups_hex:
  "mac_groups 2 (Suc n) (hex_byte b # gs) = map_option (\<lambda>(rest, left). (b # rest, left)) (mac_groups 2 n gs)"
proof -
  have "length (hex_byte b) = 2" by (simp add: hex_byte_def)
  moreover from this have "get_slice 0 2 (hex_byte b) = Some (hex_byte b)" by (simp add: get_slice_def)
  moreover have "mac_group_octets (hex_byte b) 0 1 = Some [b]"
    using calculation hex_pair [of b] by (simp add: numeral_2_eq_2)
  ultimately show ?thesis using hex_pair [of b] by simp
qed

text \<open>A MAC address survives printing and parsing, so the filters the program prints back into a
  configuration name the same device.\<close>

theorem mac_display_roundtrip: "mac_from_str (mac_display m) = Some m"
proof (cases m)
  case (MacAddr a b c d e f)
  have hex: "list_all (\<lambda>x. x \<noteq> 58) (hex_byte x)" "46 \<notin> set (hex_byte x)" "45 \<notin> set (hex_byte x)" for x
    using hex_pair [of x] by (auto simp: list_all_iff)
  have "split_by (\<lambda>x. x = 58) (mac_display m)
      = [hex_byte a, hex_byte b, hex_byte c, hex_byte d, hex_byte e, hex_byte f]"
    using hex by (simp add: MacAddr split_by_hex split_by_last)
  moreover have "46 \<notin> set (mac_display m)" "45 \<notin> set (mac_display m)"
    using hex by (simp_all add: MacAddr)
  moreover have "mac_groups 2 (Suc (Suc (Suc (Suc (Suc (Suc 0))))))
        [hex_byte a, hex_byte b, hex_byte c, hex_byte d, hex_byte e, hex_byte f]
      = Some ([a, b, c, d, e, f], [])"
    by (simp only: mac_groups_hex mac_groups.simps(1) option.map prod.case)
  moreover have "Suc (Suc (Suc (Suc (Suc (Suc 0))))) = 6" by simp
  ultimately show ?thesis
    by (simp add: mac_from_str_def MacAddr del: mac_display.simps)
qed

end
