(* ===== verification/Checksum.thy ===== *)
theory Checksum
  imports Addresses
begin

text \<open>
  \<^verbatim>\<open>src/src/net/checksum.rs\<close>: the RFC 1071 Internet checksum over a \<^verbatim>\<open>u32\<close> accumulator. The
  accumulator is a 32-bit word that wraps; \<open>sum_words_exact\<close> shows that it never does for a
  datagram a UDP length field can state. \<open>None\<close> is a panic of an \<^verbatim>\<open>expect\<close>.
\<close>

fun sum_words :: "bytes \<Rightarrow> u32 \<Rightarrow> u32" where
  "sum_words (a # b # rest) seed = sum_words rest (seed + ucast (u16_of a b))"
| "sum_words [tail] seed = seed + push_bit 8 (ucast tail)"
| "sum_words [] seed = seed"

definition fold_once :: "u32 \<Rightarrow> u32" where
  "fold_once s = (s AND 0xffff) + drop_bit 16 s"

definition fold_sum :: "u32 \<Rightarrow> u16 option" where
  "fold_sum s =
     (let s = fold_once s; s = fold_once s in
      if s < 65536 then Some (NOT (ucast s)) else None)"

definition ipv4_header :: "bytes \<Rightarrow> u16 option" where
  "ipv4_header header =
     (if length header < 12 then None
      else fold_sum (sum_words (drop 12 header) (sum_words (take 10 header) 0)))"

definition udp_length :: "bytes \<Rightarrow> u16 option" where
  "udp_length payload = u16_try_from (UDP_HEADER_SIZE + length payload)"

definition udp_checksum :: "bytes \<Rightarrow> bytes \<Rightarrow> bytes \<Rightarrow> u16 option" where
  "udp_checksum pseudo header payload =
     map_option (\<lambda>c. if c = 0 then 0xffff else c)
       (fold_sum (sum_words payload (sum_words (take 6 header) (sum_words pseudo 0))))"

definition pseudo_v4 :: "ipv4 \<Rightarrow> ipv4 \<Rightarrow> u16 \<Rightarrow> bytes" where
  "pseudo_v4 src dst len = octets4 src @ octets4 dst @ [0, IP_PROTO_UDP] @ u16_be len"

definition udp_v4 :: "ipv4 \<Rightarrow> ipv4 \<Rightarrow> bytes \<Rightarrow> bytes \<Rightarrow> u16 option" where
  "udp_v4 src dst header payload =
     (case udp_length payload of
        None \<Rightarrow> None
      | Some len \<Rightarrow> udp_checksum (pseudo_v4 src dst len) header payload)"

definition pseudo_v6 :: "ipv6 \<Rightarrow> ipv6 \<Rightarrow> u16 \<Rightarrow> bytes" where
  "pseudo_v6 src dst len = octets6 src @ octets6 dst @ u32_be (ucast len) @ [0, 0, 0, IP_PROTO_UDP]"

definition udp_v6 :: "ipv6 \<Rightarrow> ipv6 \<Rightarrow> bytes \<Rightarrow> bytes \<Rightarrow> u16 option" where
  "udp_v6 src dst header payload =
     (case udp_length payload of
        None \<Rightarrow> None
      | Some len \<Rightarrow> udp_checksum (pseudo_v6 src dst len) header payload)"

section \<open>The accumulator is exact\<close>

text \<open>The same sum over the naturals, as RFC 1071 states it.\<close>

fun word_sum :: "bytes \<Rightarrow> nat" where
  "word_sum (a # b # rest) = 256 * unat a + unat b + word_sum rest"
| "word_sum [tail] = 256 * unat tail"
| "word_sum [] = 0"

lemma word_sum_bound: "word_sum bs \<le> 32768 * (length bs + 1)"
proof (induction bs rule: word_sum.induct)
  case (1 a b rest)
  have "256 * unat a + unat b \<le> 65535" using unat_u8_lt [of a] unat_u8_lt [of b] by linarith
  with 1 show ?case by simp
next
  case (2 tail)
  have "256 * unat tail \<le> 65536" using unat_u8_lt [of tail] by linarith
  then show ?case by simp
qed simp

lemma word_sum_append: "even (length xs) \<Longrightarrow> word_sum (xs @ ys) = word_sum xs + word_sum ys"
  by (induction xs rule: word_sum.induct) auto

lemma sum_words_exact:
  "unat seed + word_sum bs < 4294967296 \<Longrightarrow> unat (sum_words bs seed) = unat seed + word_sum bs"
proof (induction bs seed rule: sum_words.induct)
  case (1 a b rest seed)
  have up: "unat (ucast (u16_of a b) :: u32) = 256 * unat a + unat b"
    by (simp add: unat_ucast_up unat_u16_of)
  with 1 show ?case by (simp add: unat_word_ariths(1))
next
  case (2 tail seed)
  then show ?case by (simp add: unat_word_ariths(1) unat_push_bit_8 unat_ucast_up)
qed simp

section \<open>Folding\<close>

lemma unat_fold_once: "unat (fold_once s) = unat s mod 65536 + unat s div 65536"
proof -
  have "s AND 0xffff = take_bit 16 s" by (simp add: take_bit_eq_mask mask_eq_exp_minus_1)
  then have "unat (s AND 0xffff) = take_bit 16 (unat s)" by (simp only: unsigned_take_bit_eq)
  then have lo: "unat (s AND 0xffff) = unat s mod 65536" by (simp add: take_bit_eq_mod)
  have "unat (drop_bit 16 s) = drop_bit 16 (unat s)" 
    using unsigned_less [of s, where ?'a = nat] by (simp add: unsigned_drop_bit_eq take_bit_nat_eq_self)
  then have hi: "unat (drop_bit 16 s) = unat s div 65536" by (simp add: drop_bit_eq_div)
  have "unat s < 4294967296" using unsigned_less [of s, where ?'a = nat] by simp
  then have "unat s mod 65536 + unat s div 65536 < 4294967296"
    using mod_less_divisor [of 65536 "unat s"] by linarith
  then show ?thesis by (simp add: fold_once_def unat_word_ariths(1) lo hi)
qed

definition folded :: "nat \<Rightarrow> nat" where
  "folded n = (let m = n mod 65536 + n div 65536 in m mod 65536 + m div 65536)"

lemma folded_bound: "n < 4294967296 \<Longrightarrow> folded n < 65536"
proof -
  assume n: "n < 4294967296"
  define m where "m = n mod 65536 + n div 65536"
  have "n div 65536 < 65536" using n by linarith
  then have "m \<le> 65535 + 65535" unfolding m_def by (intro add_mono) simp_all
  then have "m mod 65536 + m div 65536 < 65536"
  proof (cases "m < 65536")
    case False
    then obtain r where "m = 65536 + r" by (metis le_add_diff_inverse not_less)
    with \<open>m \<le> 65535 + 65535\<close> show ?thesis by simp
  qed simp
  then show ?thesis by (simp add: folded_def m_def Let_def)
qed

lemma folded_mod: "folded n mod 65535 = n mod 65535"
proof -
  have once: "(m mod 65536 + m div 65536) mod 65535 = m mod 65535" for m :: nat
  proof -
    have "m = (m mod 65536 + m div 65536) + 65535 * (m div 65536)"
      using div_mult_mod_eq [of m 65536] by linarith
    then show ?thesis by (metis mod_mult_self2)
  qed
  show ?thesis unfolding folded_def Let_def by (simp only: once)
qed

lemma unat_NOT_u16: "unat (NOT w) = 65535 - unat (w :: u16)"
proof -
  have "NOT w = - 1 - w" by (simp add: not_eq_complement)
  moreover have "w \<le> - 1" by simp
  moreover have "unat (- 1 :: u16) = 65535" by code_simp
  ultimately show ?thesis by (simp only: unat_sub)
qed

lemma fold_sum_value:
  "\<exists>c. fold_sum s = Some c \<and> unat c = 65535 - folded (unat s)"
proof -
  let ?t = "fold_once (fold_once s)"
  have s: "unat s < 4294967296" using unsigned_less [of s, where ?'a = nat] by simp
  have t: "unat ?t = folded (unat s)" by (simp add: unat_fold_once folded_def Let_def)
  have lt: "unat ?t < 65536" using folded_bound [OF s] t by simp
  then have "?t < 65536" by (simp add: word_less_nat_alt)
  moreover have "unat (ucast ?t :: u16) = unat ?t"
    using lt by (simp add: unsigned_ucast_eq take_bit_nat_eq_self_iff)
  then have "unat (NOT (ucast ?t :: u16)) = 65535 - folded (unat s)"
    by (simp add: unat_NOT_u16 t)
  ultimately show ?thesis by (simp add: fold_sum_def Let_def)
qed

section \<open>Properties\<close>

lemma folded_cancels: "n < 4294967296 \<Longrightarrow> (n + (65535 - folded n)) mod 65535 = 0"
proof -
  assume "n < 4294967296"
  then have le: "folded n \<le> 65535" using folded_bound [of n] by simp
  have "(n + (65535 - folded n)) mod 65535 = (n mod 65535 + (65535 - folded n)) mod 65535" by (simp add: mod_simps)
  also have "\<dots> = (folded n mod 65535 + (65535 - folded n)) mod 65535" by (simp add: folded_mod)
  also have "\<dots> = (folded n + (65535 - folded n)) mod 65535" by (simp add: mod_simps)
  finally show ?thesis using le by simp
qed

lemma word_sum_u16_be: "word_sum (u16_be c @ bs) = unat c + word_sum bs"
proof -
  have "u16_be c = [ucast (drop_bit 8 c), ucast c]" by (simp add: u16_be_def)
  then have "word_sum (u16_be c @ bs) = unat (u16_of (ucast (drop_bit 8 c)) (ucast c)) + word_sum bs"
    by (simp only: append_Cons append_Nil word_sum.simps unat_u16_of)
  then show ?thesis by simp
qed

lemma udp_checksum_verifies:
  assumes c: "udp_checksum pseudo header payload = Some c"
    and even: "even (length pseudo)" "length header = 8" "length pseudo \<le> 40" "length payload \<le> 65535"
  shows "c \<noteq> 0 \<and> word_sum (pseudo @ take 6 header @ u16_be c @ payload) mod 65535 = 0"
proof -
  let ?n = "word_sum pseudo + word_sum (take 6 header) + word_sum payload"
  let ?s = "sum_words payload (sum_words (take 6 header) (sum_words pseudo 0))"
  have "word_sum pseudo \<le> 32768 * 41" using word_sum_bound [of pseudo] even(3) by simp
  moreover have "word_sum (take 6 header) \<le> 32768 * 7"
    using word_sum_bound [of "take 6 header"] even(2) by simp
  moreover have "word_sum payload \<le> 32768 * 65536" using word_sum_bound [of payload] even(4) by simp
  ultimately have n: "?n < 4294967296" by linarith
  then have s: "unat ?s = ?n" by (simp add: sum_words_exact)
  obtain d where d: "fold_sum ?s = Some d" "unat d = 65535 - folded ?n" using fold_sum_value [of ?s] s by auto
  have total: "word_sum (pseudo @ take 6 header @ u16_be c @ payload) = ?n + unat c"
    using even by (simp add: word_sum_append word_sum_u16_be)
  show ?thesis
  proof (cases "d = 0")
    case True
    then have "c = 0xffff" using c d(1) by (simp add: udp_checksum_def)
    moreover have "?n mod 65535 = 0" using folded_cancels [OF n] d(2) True by simp
    ultimately show ?thesis using total by (simp add: mod_simps)
  next
    case False
    then have "c = d" using c d(1) by (simp add: udp_checksum_def)
    then show ?thesis using total folded_cancels [OF n] d(2) False by simp
  qed
qed

text \<open>The checksum of an IPv4 header is defined for every header of legal size, does not depend
  on what the checksum field held, and once written there makes the header verify: its 16-bit
  words sum to zero in one's complement arithmetic.\<close>

theorem ipv4_header_checksum_verifies:
  assumes len: "20 \<le> length header" "length header \<le> 60" "even (length header)"
  shows "\<exists>c. ipv4_header header = Some c \<and> ipv4_header (write_at 10 [x, y] header) = Some c
    \<and> word_sum (write_at 10 (u16_be c) header) mod 65535 = 0"
proof -
  let ?n = "word_sum (take 10 header) + word_sum (drop 12 header)"
  let ?s = "sum_words (drop 12 header) (sum_words (take 10 header) 0)"
  have "word_sum (take 10 header) \<le> 32768 * 61" "word_sum (drop 12 header) \<le> 32768 * 61"
    using word_sum_bound [of "take 10 header"] word_sum_bound [of "drop 12 header"] len by auto
  then have n: "?n < 4294967296" by linarith
  then have s: "unat ?s = ?n" by (simp add: sum_words_exact)
  obtain c where c: "fold_sum ?s = Some c" "unat c = 65535 - folded ?n" using fold_sum_value [of ?s] s by auto
  have "ipv4_header header = Some c" using c(1) len by (simp add: ipv4_header_def)
  moreover have "ipv4_header (write_at 10 [x, y] header) = Some c"
    using c(1) len by (simp add: ipv4_header_def write_at_def)
  moreover have "word_sum (write_at 10 (u16_be c) header) = ?n + unat c"
    using len by (simp add: write_at_def word_sum_append word_sum_u16_be)
  ultimately show ?thesis using folded_cancels [OF n] c(2) by simp
qed

lemma ipv4_header_checksum_verifies_witness:
  "\<exists>c. ipv4_header (replicate 20 7) = Some c \<and> ipv4_header (write_at 10 [1, 2] (replicate 20 7)) = Some c
    \<and> word_sum (write_at 10 (u16_be c) (replicate 20 7)) mod 65535 = 0"
  by (rule ipv4_header_checksum_verifies) simp_all

lemma udp_checksum_ignores_field:
  assumes "take 6 header = take 6 header'"
  shows "udp_v4 src dst header payload = udp_v4 src dst header' payload"
    and "udp_v6 src' dst' header payload = udp_v6 src' dst' header' payload"
proof -
  have "udp_checksum pseudo header payload = udp_checksum pseudo header' payload" for pseudo
    using assms by (simp add: udp_checksum_def)
  then show "udp_v4 src dst header payload = udp_v4 src dst header' payload"
    and "udp_v6 src' dst' header payload = udp_v6 src' dst' header' payload"
    by (simp_all add: udp_v4_def udp_v6_def split: option.split)
qed

lemma udp_checksum_defined:
  assumes "length header = 8" and "length payload \<le> 65527"
  shows "\<exists>c. udp_v4 src dst header payload = Some c \<and> c \<noteq> 0"
    and "\<exists>c. udp_v6 src' dst' header payload = Some c \<and> c \<noteq> 0"
proof -
  have "\<exists>len. udp_length payload = Some len"
    using assms by (simp add: udp_length_def u16_try_from_def UDP_HEADER_SIZE_def)
  moreover have "\<exists>c. udp_checksum pseudo header payload = Some c \<and> c \<noteq> 0" for pseudo
  proof -
    obtain c where "fold_sum (sum_words payload (sum_words (take 6 header) (sum_words pseudo 0))) = Some c"
      using fold_sum_value by blast
    then show ?thesis by (cases "c = 0") (simp_all add: udp_checksum_def)
  qed
  ultimately show "\<exists>c. udp_v4 src dst header payload = Some c \<and> c \<noteq> 0"
    and "\<exists>c. udp_v6 src' dst' header payload = Some c \<and> c \<noteq> 0"
    by (auto simp: udp_v4_def udp_v6_def)
qed

text \<open>C19. The UDP checksum of any datagram whose length a UDP header can state is defined, is never
  the reserved zero, and makes pseudo-header, header and payload verify, for both families.\<close>

theorem udp_checksum_sound:
  assumes header: "length header = 8" and payload: "length payload \<le> 65527"
  shows "(\<exists>c. udp_v4 src dst header payload = Some c \<and> c \<noteq> 0
      \<and> word_sum (pseudo_v4 src dst (of_nat (8 + length payload)) @ take 6 header @ u16_be c @ payload) mod 65535 = 0)
    \<and> (\<exists>c. udp_v6 src' dst' header payload = Some c \<and> c \<noteq> 0
      \<and> word_sum (pseudo_v6 src' dst' (of_nat (8 + length payload)) @ take 6 header @ u16_be c @ payload) mod 65535 = 0)"
proof -
  have len: "udp_length payload = Some (of_nat (8 + length payload))"
    using payload by (simp add: udp_length_def u16_try_from_def UDP_HEADER_SIZE_def)
  have defined: "\<exists>c. udp_checksum pseudo header payload = Some c" for pseudo
    using fold_sum_value by (auto simp: udp_checksum_def)
  have *: "\<exists>c. udp_checksum pseudo header payload = Some c \<and> c \<noteq> 0
      \<and> word_sum (pseudo @ take 6 header @ u16_be c @ payload) mod 65535 = 0"
    if "even (length pseudo)" "length pseudo \<le> 40" for pseudo
    using defined [of pseudo] udp_checksum_verifies [OF _ that(1) header that(2)] payload by fastforce
  show ?thesis
  proof
    show "\<exists>c. udp_v4 src dst header payload = Some c \<and> c \<noteq> 0
      \<and> word_sum (pseudo_v4 src dst (of_nat (8 + length payload)) @ take 6 header @ u16_be c @ payload) mod 65535 = 0"
      using * [of "pseudo_v4 src dst (of_nat (8 + length payload))"] len by (simp add: udp_v4_def pseudo_v4_def)
    show "\<exists>c. udp_v6 src' dst' header payload = Some c \<and> c \<noteq> 0
      \<and> word_sum (pseudo_v6 src' dst' (of_nat (8 + length payload)) @ take 6 header @ u16_be c @ payload) mod 65535 = 0"
      using * [of "pseudo_v6 src' dst' (of_nat (8 + length payload))"] len by (simp add: udp_v6_def pseudo_v6_def)
  qed
qed

lemma udp_checksum_sound_witness:
  "\<exists>c. udp_v4 0xc0a80001 0xe00000fb [0x14, 0xe9, 0x14, 0xe9, 0, 11, 0, 0] [1, 2, 3] = Some c \<and> c \<noteq> 0
      \<and> word_sum (pseudo_v4 0xc0a80001 0xe00000fb (of_nat (8 + length [1, 2, 3 :: u8]))
          @ take 6 [0x14, 0xe9, 0x14, 0xe9, 0, 11, 0, 0] @ u16_be c @ [1, 2, 3]) mod 65535 = 0"
  by (rule udp_checksum_sound [THEN conjunct1]) simp_all

end
