(* ===== verification/Frame.thy ===== *)
theory Frame
  imports Checksum
begin

text \<open>
  \<^verbatim>\<open>src/src/net/frame.rs\<close>: the frames injected on the egress path. A datagram is laid out for one
  link as a single frame or as IP fragments. The writers fill a buffer in place, as the code does;
  the frame layout lemmas then give the bytes as a concatenation. A panic of the code (an
  \<^verbatim>\<open>expect\<close>, the index assertion, a slice out of range) is \<open>Inl Panic\<close>, and \<open>frames_write_ok\<close> shows
  that none is reached for an index below the count. The address family words of a \<^verbatim>\<open>DLT_NULL\<close>
  header are \<^verbatim>\<open>libc\<close> constants and come in as the argument \<open>af\<close>, by family, as the word whose
  bytes, first to last, are the ones the host stores.
\<close>

definition IPV4_ETHERTYPE :: u16 where "IPV4_ETHERTYPE = 0x0800"
definition IPV6_ETHERTYPE :: u16 where "IPV6_ETHERTYPE = 0x86dd"
definition IPV4_FLAG_MF :: u16 where "IPV4_FLAG_MF = 0x2000"

datatype frame_error =
    BufferTooSmall nat nat
  | PayloadTooLarge nat
  | MtuTooSmall nat

datatype link_header =
    LhEthernet (lh_dst: mac_addr) (lh_src: mac_addr)
  | LhDltNull
  | LhRawIp

fun link_size :: "link_header \<Rightarrow> nat" where
  "link_size (LhEthernet _ _) = ETHERNET_HEADER_SIZE"
| "link_size LhDltNull = DLT_NULL_HEADER_SIZE"
| "link_size LhRawIp = 0"

fun link_write :: "(bool \<Rightarrow> u32) \<Rightarrow> link_header \<Rightarrow> bytes \<Rightarrow> bool \<Rightarrow> bytes" where
  "link_write af (LhEthernet dst src) out ipv6 =
     (let ethertype = (if ipv6 then IPV6_ETHERTYPE else IPV4_ETHERTYPE);
          out = write_at 0 (mac_octets dst) out;
          out = write_at 6 (mac_octets src) out
      in write_at 12 (u16_be ethertype) out)"
| "link_write af LhDltNull out ipv6 = write_at 0 (be_bytes 4 (af ipv6)) out"
| "link_write af LhRawIp out ipv6 = out"

record placement =
  pl_offset :: nat
  pl_more :: bool

definition placement_units :: "placement \<Rightarrow> u16 option" where
  "placement_units p = u16_try_from (pl_offset p div FRAGMENT_UNIT)"

datatype ip_header =
    HeaderV4 ipv4 ipv4 u8 u16
  | HeaderV6 ipv6 ipv6 u8 u32

fun header_is_v6 :: "ip_header \<Rightarrow> bool" where
  "header_is_v6 (HeaderV6 _ _ _ _) = True"
| "header_is_v6 (HeaderV4 _ _ _ _) = False"

fun header_size :: "ip_header \<Rightarrow> bool \<Rightarrow> nat" where
  "header_size (HeaderV4 _ _ _ _) fragmented = IPV4_HEADER_SIZE"
| "header_size (HeaderV6 _ _ _ _) fragmented =
     (if fragmented then IPV6_HEADER_SIZE + IPV6_FRAGMENT_HEADER_SIZE else IPV6_HEADER_SIZE)"

text \<open>The flags and offset word of each family; \<open>None\<close> when the offset overflows its word.\<close>

definition v4_flags_offset :: "placement option \<Rightarrow> u16 option" where
  "v4_flags_offset placement =
     (case placement of
        None \<Rightarrow> Some 0
      | Some p \<Rightarrow> map_option (\<lambda>u. u OR (if pl_more p then IPV4_FLAG_MF else 0)) (placement_units p))"

definition v6_offset_more :: "placement \<Rightarrow> u16 option" where
  "v6_offset_more p = map_option (\<lambda>u. push_bit 3 u OR (if pl_more p then 1 else 0)) (placement_units p)"

fun header_write :: "ip_header \<Rightarrow> bytes \<Rightarrow> nat \<Rightarrow> placement option \<Rightarrow> (frame_error fault, bytes) result" where
  "header_write (HeaderV4 src dst ttl ident) out data_len placement =
     (let out = map (\<lambda>_. 0) out in
      result_bind (ok_or Panic (u16_try_from (IPV4_HEADER_SIZE + data_len))) (\<lambda>total_length.
      result_bind (ok_or Panic (v4_flags_offset placement)) (\<lambda>flags_offset.
      let out = out[0 := 0x45];
          out = write_at 2 (u16_be total_length) out;
          out = write_at 4 (u16_be ident) out;
          out = write_at 6 (u16_be flags_offset) out;
          out = out[8 := ttl];
          out = out[9 := IP_PROTO_UDP];
          out = write_at 12 (octets4 src) out;
          out = write_at 16 (octets4 dst) out
      in result_bind (ok_or Panic (ipv4_header out)) (\<lambda>checksum.
         Inr (write_at 10 (u16_be checksum) out)))))"
| "header_write (HeaderV6 src dst hop_limit ident) out data_len placement =
     (let out = map (\<lambda>_. 0) out in
      result_bind (ok_or Panic (u16_try_from (length out - IPV6_HEADER_SIZE + data_len))) (\<lambda>payload_length.
      let out = out[0 := 0x60];
          out = write_at 4 (u16_be payload_length) out;
          out = out[6 := IP_PROTO_UDP];
          out = out[7 := hop_limit];
          out = write_at 8 (octets6 src) out;
          out = write_at 24 (octets6 dst) out
      in case placement of
           None \<Rightarrow> Inr out
         | Some p \<Rightarrow>
             let out = out[6 := IPV6_NEXT_FRAGMENT];
                 out = out[IPV6_HEADER_SIZE := IP_PROTO_UDP]
             in result_bind (ok_or Panic (v6_offset_more p)) (\<lambda>offset_more.
                let out = write_at (IPV6_HEADER_SIZE + 2) (u16_be offset_more) out
                in Inr (write_at (IPV6_HEADER_SIZE + 4) (u32_be ident) out))))"

record udp_frames =
  uf_link :: link_header
  uf_ip :: ip_header
  uf_udp :: bytes
  uf_payload :: bytes
  uf_chunk :: nat
  uf_fragmented :: bool

definition udp_header :: "u16 \<Rightarrow> u16 \<Rightarrow> bytes \<Rightarrow> nat \<Rightarrow> (frame_error fault, bytes) result" where
  "udp_header src_port dst_port payload ipv4_size =
     (let len = UDP_HEADER_SIZE + length payload in
      if u16_try_from (ipv4_size + len) = None then Inl (Err (PayloadTooLarge (length payload)))
      else result_bind (ok_or Panic (u16_try_from len)) (\<lambda>len.
        let udp = replicate UDP_HEADER_SIZE 0;
            udp = write_at 0 (u16_be src_port) udp;
            udp = write_at 2 (u16_be dst_port) udp
        in Inr (write_at 4 (u16_be len) udp)))"

definition frames_new ::
  "link_header \<Rightarrow> ip_header \<Rightarrow> bytes \<Rightarrow> bytes \<Rightarrow> nat \<Rightarrow> (frame_error fault, udp_frames) result" where
  "frames_new link ip udp payload mtu =
     (let datagram = UDP_HEADER_SIZE + length payload;
          built = (\<lambda>chunk fragmented. \<lparr>uf_link = link, uf_ip = ip, uf_udp = udp, uf_payload = payload,
                                        uf_chunk = chunk, uf_fragmented = fragmented\<rparr>)
      in if header_size ip False + datagram \<le> mtu then Inr (built datagram False)
         else let room = mtu - header_size ip True; chunk = room - room mod FRAGMENT_UNIT
              in if chunk = 0 then Inl (Err (MtuTooSmall mtu)) else Inr (built chunk True))"

definition frames_ipv4 ::
  "link_header \<Rightarrow> ipv4 \<times> u16 \<Rightarrow> ipv4 \<times> u16 \<Rightarrow> u8 \<Rightarrow> u16 \<Rightarrow> bytes \<Rightarrow> nat \<Rightarrow> (frame_error fault, udp_frames) result" where
  "frames_ipv4 link src dst ttl ident payload mtu =
     result_bind (udp_header (snd src) (snd dst) payload IPV4_HEADER_SIZE) (\<lambda>udp.
     result_bind (ok_or Panic (udp_v4 (fst src) (fst dst) udp payload)) (\<lambda>checksum.
     let udp = write_at 6 (u16_be checksum) udp;
         ip = HeaderV4 (fst src) (fst dst) ttl ident
     in frames_new link ip udp payload mtu))"

definition frames_ipv6 ::
  "link_header \<Rightarrow> ipv6 \<times> u16 \<Rightarrow> ipv6 \<times> u16 \<Rightarrow> u8 \<Rightarrow> u32 \<Rightarrow> bytes \<Rightarrow> nat \<Rightarrow> (frame_error fault, udp_frames) result" where
  "frames_ipv6 link src dst hop_limit ident payload mtu =
     result_bind (udp_header (snd src) (snd dst) payload 0) (\<lambda>udp.
     result_bind (ok_or Panic (udp_v6 (fst src) (fst dst) udp payload)) (\<lambda>checksum.
     let udp = write_at 6 (u16_be checksum) udp;
         ip = HeaderV6 (fst src) (fst dst) hop_limit ident
     in frames_new link ip udp payload mtu))"

definition datagram_len :: "udp_frames \<Rightarrow> nat" where
  "datagram_len u = UDP_HEADER_SIZE + length (uf_payload u)"

definition frames_count :: "udp_frames \<Rightarrow> nat" where
  "frames_count u = div_ceil (datagram_len u) (uf_chunk u)"

text \<open>The body of a frame: the part of UDP header and payload from \<open>start\<close>, \<open>n\<close> bytes of it.\<close>

definition frame_body :: "udp_frames \<Rightarrow> nat \<Rightarrow> nat \<Rightarrow> (frame_error fault, bytes) result" where
  "frame_body u start n =
     (if start = 0 then
        if n < UDP_HEADER_SIZE then Inl Panic
        else result_bind (ok_or Panic (get_slice 0 (n - UDP_HEADER_SIZE) (uf_payload u))) (\<lambda>rest.
             Inr (uf_udp u @ rest))
      else if start < UDP_HEADER_SIZE then Inl Panic
      else let from = start - UDP_HEADER_SIZE in
           ok_or Panic (get_slice from (from + n) (uf_payload u)))"

definition frames_write ::
  "(bool \<Rightarrow> u32) \<Rightarrow> udp_frames \<Rightarrow> nat \<Rightarrow> bytes \<Rightarrow> (frame_error fault, nat \<times> bytes) result" where
  "frames_write af u index out =
     (let start = index * uf_chunk u in
      if \<not> start < datagram_len u then Inl Panic
      else
        let stop = min (start + uf_chunk u) (datagram_len u);
            link_len = link_size (uf_link u);
            ip_len = header_size (uf_ip u) (uf_fragmented u);
            frame_len = link_len + ip_len + (stop - start)
        in if length out < frame_len then Inl (Err (BufferTooSmall frame_len (length out)))
           else
             let link = link_write af (uf_link u) (sub_slice 0 link_len out) (header_is_v6 (uf_ip u));
                 placement = (if uf_fragmented u
                   then Some \<lparr>pl_offset = start, pl_more = stop < datagram_len u\<rparr> else None)
             in result_bind (header_write (uf_ip u) (sub_slice link_len (link_len + ip_len) out) (stop - start) placement)
                  (\<lambda>header. result_bind (frame_body u start (stop - start)) (\<lambda>body.
                   Inr (frame_len, link @ header @ body @ drop frame_len out))))"

section \<open>The layout of a frame\<close>

lemma zeros20: "length out = 20 \<Longrightarrow> map (\<lambda>_. 0 :: u8) out = [0, 0, 0, 0, 0, 0, 0, 0, 0, 0, 0, 0, 0, 0, 0, 0, 0, 0, 0, 0]"
proof -
  assume "length out = 20"
  then have "map (\<lambda>_. 0 :: u8) out = replicate 20 0" by (simp add: map_replicate_const)
  also have "\<dots> = [0, 0, 0, 0, 0, 0, 0, 0, 0, 0, 0, 0, 0, 0, 0, 0, 0, 0, 0, 0]" by code_simp
  finally show ?thesis .
qed

text \<open>Writing into a list laid out as a literal, one position at a time.\<close>

lemma write_at_0: "write_at 0 ys xs = ys @ drop (length ys) xs"
  by (simp add: write_at_def)

lemma write_at_numeral: "write_at (numeral n) ys (x # xs) = x # write_at (pred_numeral n) ys xs"
  by (simp add: write_at_def numeral_eq_Suc)

lemma write_at_Suc: "write_at (Suc n) ys (x # xs) = x # write_at n ys xs"
  by (simp add: write_at_def)

lemma write_at_skip: "length xs \<le> i \<Longrightarrow> write_at i ys (xs @ zs) = xs @ write_at (i - length xs) ys zs"
  by (simp add: write_at_def)

lemma update_numeral: "(x # xs)[numeral n := y] = x # xs[pred_numeral n := y]"
  by (simp add: numeral_eq_Suc)

lemma update_skip: "length xs \<le> i \<Longrightarrow> (xs @ zs)[i := y] = xs @ zs[i - length xs := y]"
  by (simp add: list_update_append)

lemmas literal_write = write_at_0 write_at_numeral write_at_Suc update_numeral

definition v4_header_bytes :: "ipv4 \<Rightarrow> ipv4 \<Rightarrow> u8 \<Rightarrow> u16 \<Rightarrow> u16 \<Rightarrow> u16 \<Rightarrow> u16 \<Rightarrow> bytes" where
  "v4_header_bytes src dst ttl ident tlen flags checksum =
     [0x45, 0] @ u16_be tlen @ u16_be ident @ u16_be flags @ [ttl, IP_PROTO_UDP] @ u16_be checksum
     @ octets4 src @ octets4 dst"

lemma header_write_v4:
  assumes out: "length out = 20" and tlen: "u16_try_from (20 + n) = Some tlen"
    and flags: "v4_flags_offset pl = Some flags"
  shows "\<exists>c. header_write (HeaderV4 src dst ttl ident) out n pl
    = Inr (v4_header_bytes src dst ttl ident tlen flags c)"
proof -
  obtain a b c d where src: "octets4 src = [a, b, c, d]" using length4 [of "octets4 src"] by auto
  obtain e f g h where dst: "octets4 dst = [e, f, g, h]" using length4 [of "octets4 dst"] by auto
  let ?raw = "[0x45, 0] @ u16_be tlen @ u16_be ident @ u16_be flags @ [ttl, IP_PROTO_UDP, 0, 0]
     @ octets4 src @ octets4 dst"
  have "length ?raw = 20" by simp
  then obtain k where k: "ipv4_header ?raw = Some k"
    using fold_sum_value by (auto simp: ipv4_header_def)
  have "header_write (HeaderV4 src dst ttl ident) out n pl
      = Inr (v4_header_bytes src dst ttl ident tlen flags k)"
    using tlen flags k
    by (simp add: zeros20 [OF out] IPV4_HEADER_SIZE_def Let_def literal_write u16_be_def v4_header_bytes_def src dst)
  then show ?thesis by blast
qed

definition v6_header_bytes :: "ipv6 \<Rightarrow> ipv6 \<Rightarrow> u8 \<Rightarrow> u16 \<Rightarrow> u8 \<Rightarrow> bytes" where
  "v6_header_bytes src dst hop plen next_header =
     [0x60, 0, 0, 0] @ u16_be plen @ [next_header, hop] @ octets6 src @ octets6 dst"

definition v6_fragment_bytes :: "u32 \<Rightarrow> u16 \<Rightarrow> bytes" where
  "v6_fragment_bytes ident offset_more = [IP_PROTO_UDP, 0] @ u16_be offset_more @ u32_be ident"

lemma header_write_v6_base:
  assumes out: "length out = 40" and plen: "u16_try_from n = Some plen"
  shows "header_write (HeaderV6 src dst hop ident) out n None
    = Inr (v6_header_bytes src dst hop plen IP_PROTO_UDP)"
proof -
  have "map (\<lambda>_. 0 :: u8) out = [0, 0, 0, 0, 0, 0, 0, 0] @ replicate 16 0 @ replicate 16 0"
    by (subst map_replicate_const) (simp add: out, code_simp)
  then show ?thesis using plen out
    by (simp add: IPV6_HEADER_SIZE_def Let_def v6_header_bytes_def u16_be_def literal_write write_at_skip)
qed

lemma header_write_v6_fragment:
  assumes out: "length out = 48" and plen: "u16_try_from (8 + n) = Some plen"
    and om: "v6_offset_more p = Some om"
  shows "header_write (HeaderV6 src dst hop ident) out n (Some p)
    = Inr (v6_header_bytes src dst hop plen IPV6_NEXT_FRAGMENT @ v6_fragment_bytes ident om)"
proof -
  have "map (\<lambda>_. 0 :: u8) out = [0, 0, 0, 0, 0, 0, 0, 0] @ replicate 16 0 @ replicate 16 0 @ [0, 0, 0, 0, 0, 0, 0, 0]"
    by (subst map_replicate_const) (simp add: out, code_simp)
  then show ?thesis using plen out om
    by (simp add: IPV6_HEADER_SIZE_def Let_def v6_header_bytes_def v6_fragment_bytes_def u16_be_def u32_be_def
        literal_write write_at_skip update_skip)
qed

section \<open>Well-formed layouts\<close>

definition frames_inv :: "udp_frames \<Rightarrow> bool" where
  "frames_inv u \<longleftrightarrow> length (uf_udp u) = 8 \<and> 8 \<le> uf_chunk u
     \<and> (if uf_fragmented u then uf_chunk u mod 8 = 0 \<and> uf_chunk u < datagram_len u
          \<and> (header_is_v6 (uf_ip u) \<longrightarrow> uf_chunk u + 8 \<le> datagram_len u)
        else uf_chunk u = datagram_len u)
     \<and> datagram_len u + (if header_is_v6 (uf_ip u) then 0 else 20) \<le> 65535"

definition datagram_bytes :: "udp_frames \<Rightarrow> bytes" where
  "datagram_bytes u = uf_udp u @ uf_payload u"

definition frame_start :: "udp_frames \<Rightarrow> nat \<Rightarrow> nat" where
  "frame_start u i = i * uf_chunk u"

definition frame_stop :: "udp_frames \<Rightarrow> nat \<Rightarrow> nat" where
  "frame_stop u i = min (frame_start u i + uf_chunk u) (datagram_len u)"

definition frame_data :: "udp_frames \<Rightarrow> nat \<Rightarrow> bytes" where
  "frame_data u i = sub_slice (frame_start u i) (frame_stop u i) (datagram_bytes u)"

definition frame_length :: "udp_frames \<Rightarrow> nat \<Rightarrow> nat" where
  "frame_length u i = link_size (uf_link u) + header_size (uf_ip u) (uf_fragmented u) + (frame_stop u i - frame_start u i)"

definition frame_more :: "udp_frames \<Rightarrow> nat \<Rightarrow> bool" where
  "frame_more u i \<longleftrightarrow> frame_stop u i < datagram_len u"

lemma frames_count_iff: "frames_inv u \<Longrightarrow> i < frames_count u \<longleftrightarrow> frame_start u i < datagram_len u"
  by (simp add: frames_inv_def frames_count_def frame_start_def less_div_ceil_iff)

lemma length_datagram_bytes [simp]: "frames_inv u \<Longrightarrow> length (datagram_bytes u) = datagram_len u"
  by (simp add: frames_inv_def datagram_bytes_def datagram_len_def UDP_HEADER_SIZE_def)

lemma length_frame_data: "frames_inv u \<Longrightarrow> length (frame_data u i) = frame_stop u i - frame_start u i"
  by (auto simp: frame_data_def frame_stop_def)

lemma frame_start_positive: "frames_inv u \<Longrightarrow> i \<noteq> 0 \<Longrightarrow> 8 \<le> frame_start u i"
  by (cases i) (auto simp: frame_start_def frames_inv_def)

lemma frames_new_inv:
  assumes "frames_new link ip udp payload mtu = Inr u" and "length udp = 8"
    and "8 + length payload + (if header_is_v6 ip then 0 else 20) \<le> 65535"
  shows "frames_inv u" and "uf_link u = link" and "uf_ip u = ip" and "datagram_bytes u = udp @ payload"
    and "header_size ip (uf_fragmented u) + uf_chunk u \<le> mtu" and "uf_payload u = payload"
    and "uf_fragmented u \<longleftrightarrow> mtu < header_size ip False + (8 + length payload)"
proof -
  let ?room = "mtu - header_size ip True"
  have "?room - ?room mod 8 = 8 * (?room div 8)" by (metis minus_mod_eq_mult_div)
  then obtain q where q: "?room - ?room mod 8 = 8 * q" "8 * q \<le> ?room" by (metis diff_le_self)
  have "frames_inv u \<and> uf_link u = link \<and> uf_ip u = ip \<and> datagram_bytes u = udp @ payload
    \<and> header_size ip (uf_fragmented u) + uf_chunk u \<le> mtu \<and> uf_payload u = payload
    \<and> (uf_fragmented u \<longleftrightarrow> mtu < header_size ip False + (8 + length payload))"
  proof (cases "header_size ip False + (8 + length payload) \<le> mtu")
    case True
    with assms show ?thesis
      by (auto simp: frames_new_def Let_def net_sizes frames_inv_def datagram_len_def datagram_bytes_def)
  next
    case False
    with assms(1) q(1) have u: "u = \<lparr>uf_link = link, uf_ip = ip, uf_udp = udp, uf_payload = payload,
        uf_chunk = 8 * q, uf_fragmented = True\<rparr>" and "q \<noteq> 0"
      by (auto simp: frames_new_def Let_def net_sizes split: if_splits)
    from False q(2) \<open>q \<noteq> 0\<close> have "8 * q + header_size ip True \<le> mtu" "8 * q < 8 + length payload"
      "header_is_v6 ip \<Longrightarrow> 8 * q + 8 \<le> 8 + length payload"
      by (cases ip; auto simp: net_sizes)+
    with u assms(2,3) False \<open>q \<noteq> 0\<close> show ?thesis
      by (auto simp: frames_inv_def datagram_len_def datagram_bytes_def net_sizes)
  qed
  then show "frames_inv u" and "uf_link u = link" and "uf_ip u = ip" and "datagram_bytes u = udp @ payload"
    and "header_size ip (uf_fragmented u) + uf_chunk u \<le> mtu" and "uf_payload u = payload"
    and "uf_fragmented u \<longleftrightarrow> mtu < header_size ip False + (8 + length payload)"
    by blast+
qed

section \<open>What a frame holds\<close>

lemma frame_body_data:
  assumes inv: "frames_inv u" and i: "frame_start u i < datagram_len u"
  shows "frame_body u (frame_start u i) (frame_stop u i - frame_start u i) = Inr (frame_data u i)"
proof (cases i)
  case 0
  then have start: "frame_start u i = 0" by (simp add: frame_start_def)
  have stop: "8 \<le> frame_stop u i" "frame_stop u i \<le> datagram_len u"
    using inv start by (auto simp: frame_stop_def frames_inv_def datagram_len_def UDP_HEADER_SIZE_def)
  then have "get_slice 0 (frame_stop u i - 8) (uf_payload u) = Some (take (frame_stop u i - 8) (uf_payload u))"
    by (simp add: get_slice_def sub_slice_def datagram_len_def UDP_HEADER_SIZE_def)
  then show ?thesis using stop start inv
    by (simp add: frame_body_def frame_data_def sub_slice_def datagram_bytes_def UDP_HEADER_SIZE_def frames_inv_def)
next
  case (Suc k)
  then have start: "8 \<le> frame_start u i" using inv frame_start_positive by blast
  have le: "frame_start u i \<le> frame_stop u i" "frame_stop u i \<le> datagram_len u"
    using i by (auto simp: frame_stop_def)
  let ?from = "frame_start u i - 8" let ?n = "frame_stop u i - frame_start u i"
  have "get_slice ?from (?from + ?n) (uf_payload u) = Some (take ?n (drop ?from (uf_payload u)))"
    using le start by (auto simp: get_slice_def sub_slice_def datagram_len_def UDP_HEADER_SIZE_def)
  then show ?thesis using start inv le
    by (simp add: frame_body_def frame_data_def sub_slice_def datagram_bytes_def UDP_HEADER_SIZE_def frames_inv_def Let_def)
qed

text \<open>The header bytes of frame \<open>i\<close>, for the IPv4 checksum \<open>c\<close>.\<close>

definition frame_flags :: "udp_frames \<Rightarrow> nat \<Rightarrow> u16" where
  "frame_flags u i = of_nat (frame_start u i div 8) OR (if frame_more u i then IPV4_FLAG_MF else 0)"

definition frame_offset_more :: "udp_frames \<Rightarrow> nat \<Rightarrow> u16" where
  "frame_offset_more u i = push_bit 3 (of_nat (frame_start u i div 8)) OR (if frame_more u i then 1 else 0)"

fun frame_ip_bytes :: "udp_frames \<Rightarrow> nat \<Rightarrow> u16 \<Rightarrow> ip_header \<Rightarrow> bytes" where
  "frame_ip_bytes u i c (HeaderV4 src dst ttl ident) =
     v4_header_bytes src dst ttl ident (of_nat (20 + length (frame_data u i)))
       (if uf_fragmented u then frame_flags u i else 0) c"
| "frame_ip_bytes u i c (HeaderV6 src dst hop ident) =
     (if uf_fragmented u
      then v6_header_bytes src dst hop (of_nat (8 + length (frame_data u i))) IPV6_NEXT_FRAGMENT
             @ v6_fragment_bytes ident (frame_offset_more u i)
      else v6_header_bytes src dst hop (of_nat (length (frame_data u i))) IP_PROTO_UDP)"

lemma link_write_length: "length out = link_size link \<Longrightarrow> length (link_write af link out v6) = link_size link"
  by (cases link) (auto simp: net_sizes Let_def)

definition link_bytes :: "(bool \<Rightarrow> u32) \<Rightarrow> link_header \<Rightarrow> bool \<Rightarrow> bytes" where
  "link_bytes af link v6 =
     (case link of
        LhEthernet dst src \<Rightarrow> mac_octets dst @ mac_octets src @ u16_be (if v6 then IPV6_ETHERTYPE else IPV4_ETHERTYPE)
      | LhDltNull \<Rightarrow> be_bytes 4 (af v6)
      | LhRawIp \<Rightarrow> [])"

lemma link_write_bytes: "length out = link_size link \<Longrightarrow> link_write af link out v6 = link_bytes af link v6"
proof (cases link)
  case (LhEthernet dst src)
  assume "length out = link_size link"
  then have "length out = 14" by (simp add: LhEthernet net_sizes)
  then show ?thesis by (simp add: LhEthernet link_bytes_def Let_def write_at_def)
qed (auto simp: link_bytes_def write_at_def net_sizes)

lemma frame_units: "frames_inv u \<Longrightarrow> frame_start u i < datagram_len u \<Longrightarrow> frame_start u i div 8 < 8192"
  by (auto simp: frames_inv_def)

lemma frames_header_ok:
  assumes inv: "frames_inv u" and i: "frame_start u i < datagram_len u"
    and out: "length out = header_size (uf_ip u) (uf_fragmented u)"
  shows "\<exists>c. header_write (uf_ip u) out (frame_stop u i - frame_start u i)
      (if uf_fragmented u then Some \<lparr>pl_offset = frame_start u i, pl_more = frame_stop u i < datagram_len u\<rparr> else None)
    = Inr (frame_ip_bytes u i c (uf_ip u))"
proof -
  let ?n = "frame_stop u i - frame_start u i"
  let ?p = "\<lparr>pl_offset = frame_start u i, pl_more = frame_stop u i < datagram_len u\<rparr>"
  have len: "length (frame_data u i) = ?n" using inv by (rule length_frame_data)
  have n: "?n \<le> uf_chunk u" "?n \<le> datagram_len u" by (auto simp: frame_stop_def)
  have units: "placement_units ?p = Some (of_nat (frame_start u i div 8))"
    using frame_units [OF inv i] by (simp add: placement_units_def u16_try_from_def FRAGMENT_UNIT_def)
  show ?thesis
  proof (cases "uf_ip u")
    case (HeaderV4 src dst ttl ident)
    have "length out = 20" using out HeaderV4 by (simp add: IPV4_HEADER_SIZE_def)
    moreover have "u16_try_from (20 + ?n) = Some (of_nat (20 + ?n))"
      using inv n HeaderV4 by (simp add: u16_try_from_def frames_inv_def)
    moreover have "v4_flags_offset (if uf_fragmented u then Some ?p else None)
        = Some (if uf_fragmented u then frame_flags u i else 0)"
      using units by (simp add: v4_flags_offset_def frame_flags_def frame_more_def)
    ultimately show ?thesis
      using header_write_v4 HeaderV4 len by (metis frame_ip_bytes.simps(1))
  next
    case (HeaderV6 src dst hop ident)
    show ?thesis
    proof (cases "uf_fragmented u")
      case True
      have "length out = 48" using out HeaderV6 True by (simp add: net_sizes)
      moreover have "u16_try_from (8 + ?n) = Some (of_nat (8 + ?n))"
        using inv n HeaderV6 True by (auto simp: u16_try_from_def frames_inv_def)
      moreover have "v6_offset_more ?p = Some (frame_offset_more u i)"
        using units by (simp add: v6_offset_more_def frame_offset_more_def frame_more_def)
      ultimately show ?thesis
        using header_write_v6_fragment HeaderV6 len True by (simp del: header_write.simps)
    next
      case False
      have "length out = 40" using out HeaderV6 False by (simp add: net_sizes)
      moreover have "u16_try_from ?n = Some (of_nat ?n)"
        using inv n HeaderV6 False by (auto simp: u16_try_from_def frames_inv_def)
      ultimately show ?thesis
        using header_write_v6_base HeaderV6 len False by (simp del: header_write.simps)
    qed
  qed
qed

lemma frames_write_unfold:
  "frames_write af u i out =
     (if \<not> frame_start u i < datagram_len u then Inl Panic
      else if length out < frame_length u i then Inl (Err (BufferTooSmall (frame_length u i) (length out)))
      else result_bind (header_write (uf_ip u)
             (sub_slice (link_size (uf_link u)) (link_size (uf_link u) + header_size (uf_ip u) (uf_fragmented u)) out)
             (frame_stop u i - frame_start u i)
             (if uf_fragmented u then Some \<lparr>pl_offset = frame_start u i, pl_more = frame_stop u i < datagram_len u\<rparr> else None))
           (\<lambda>header. result_bind (frame_body u (frame_start u i) (frame_stop u i - frame_start u i)) (\<lambda>body.
             Inr (frame_length u i,
                  link_write af (uf_link u) (sub_slice 0 (link_size (uf_link u)) out) (header_is_v6 (uf_ip u))
                    @ header @ body @ drop (frame_length u i) out))))"
  unfolding frames_write_def frame_length_def frame_start_def frame_stop_def Let_def by (rule refl)

lemma frames_write_layout:
  assumes inv: "frames_inv u" and i: "i < frames_count u" and out: "frame_length u i \<le> length out"
  shows "\<exists>c. frames_write af u i out = Inr (frame_length u i,
    link_bytes af (uf_link u) (header_is_v6 (uf_ip u)) @ frame_ip_bytes u i c (uf_ip u) @ frame_data u i
      @ drop (frame_length u i) out)"
proof -
  have start: "frame_start u i < datagram_len u" using frames_count_iff [OF inv] i by simp
  let ?link = "link_size (uf_link u)" let ?ip = "header_size (uf_ip u) (uf_fragmented u)"
  have le: "?link + ?ip \<le> length out" using out by (simp add: frame_length_def)
  obtain c where "header_write (uf_ip u) (sub_slice ?link (?link + ?ip) out) (frame_stop u i - frame_start u i)
      (if uf_fragmented u then Some \<lparr>pl_offset = frame_start u i, pl_more = frame_stop u i < datagram_len u\<rparr> else None)
    = Inr (frame_ip_bytes u i c (uf_ip u))"
    using frames_header_ok [OF inv start, of "sub_slice ?link (?link + ?ip) out"] le by auto
  moreover have "link_write af (uf_link u) (sub_slice 0 ?link out) (header_is_v6 (uf_ip u))
      = link_bytes af (uf_link u) (header_is_v6 (uf_ip u))"
    using le by (intro link_write_bytes) simp
  ultimately show ?thesis
    using start out frame_body_data [OF inv start]
    by (intro exI [of _ c]) (simp add: frames_write_unfold)
qed

section \<open>Building\<close>

definition udp_bytes :: "u16 \<Rightarrow> u16 \<Rightarrow> bytes \<Rightarrow> u16 \<Rightarrow> bytes" where
  "udp_bytes sport dport payload checksum =
     u16_be sport @ u16_be dport @ u16_be (of_nat (8 + length payload)) @ u16_be checksum"

lemma length_udp_bytes [simp]: "length (udp_bytes sport dport payload c) = 8"
  by (simp add: udp_bytes_def)

lemma udp_header_ok:
  assumes "k + (8 + length payload) \<le> 65535"
  shows "udp_header sport dport payload k = Inr (udp_bytes sport dport payload 0)"
proof -
  have zeros: "replicate UDP_HEADER_SIZE (0 :: u8) = [0, 0, 0, 0, 0, 0, 0, 0]" by code_simp
  have "u16_try_from (8 + length payload) = Some (of_nat (8 + length payload))"
    "u16_try_from (k + (8 + length payload)) \<noteq> None"
    using assms by (auto simp: u16_try_from_def)
  then show ?thesis
    unfolding udp_header_def udp_bytes_def Let_def zeros
    by (simp add: UDP_HEADER_SIZE_def literal_write u16_be_def)
qed

lemma udp_bytes_checksum: "write_at 6 (u16_be c) (udp_bytes sport dport payload 0) = udp_bytes sport dport payload c"
  by (simp add: udp_bytes_def u16_be_def literal_write)

lemma udp_header_too_large:
  "65535 < k + (8 + length payload) \<Longrightarrow> udp_header sport dport payload k = Inl (Err (PayloadTooLarge (length payload)))"
  by (simp add: udp_header_def u16_try_from_def UDP_HEADER_SIZE_def Let_def)

lemma frames_new_error:
  "frames_new link ip udp payload mtu = Inl e \<longleftrightarrow> e = Err (MtuTooSmall mtu)
     \<and> mtu < header_size ip False + (8 + length payload) \<and> mtu < header_size ip True + 8"
proof -
  let ?room = "mtu - header_size ip True"
  have "?room - ?room mod 8 = 8 * (?room div 8)" by (metis minus_mod_eq_mult_div)
  then have "?room - ?room mod 8 = 0 \<longleftrightarrow> ?room < 8" by auto
  then show ?thesis by (auto simp: frames_new_def Let_def net_sizes)
qed

text \<open>The UDP checksum a datagram carries, for either family.\<close>

lemma frames_ipv4_eq:
  assumes "28 + length payload \<le> 65535"
  shows "\<exists>c. udp_v4 (fst src) (fst dst) (udp_bytes (snd src) (snd dst) payload c) payload = Some c \<and> c \<noteq> 0
    \<and> frames_ipv4 link src dst ttl ident payload mtu
      = frames_new link (HeaderV4 (fst src) (fst dst) ttl ident) (udp_bytes (snd src) (snd dst) payload c) payload mtu"
proof -
  obtain c where c: "udp_v4 (fst src) (fst dst) (udp_bytes (snd src) (snd dst) payload 0) payload = Some c" "c \<noteq> 0"
    using udp_checksum_defined(1) [of "udp_bytes (snd src) (snd dst) payload 0" payload] assms by fastforce
  have "take 6 (udp_bytes (snd src) (snd dst) payload c) = take 6 (udp_bytes (snd src) (snd dst) payload 0)"
    by (simp add: udp_bytes_def)
  then have "udp_v4 (fst src) (fst dst) (udp_bytes (snd src) (snd dst) payload c) payload = Some c"
    using c udp_checksum_ignores_field(1) by metis
  with c assms show ?thesis
    by (intro exI [of _ c]) (simp add: frames_ipv4_def udp_header_ok IPV4_HEADER_SIZE_def udp_bytes_checksum)
qed

lemma frames_ipv6_eq:
  assumes "8 + length payload \<le> 65535"
  shows "\<exists>c. udp_v6 (fst src) (fst dst) (udp_bytes (snd src) (snd dst) payload c) payload = Some c \<and> c \<noteq> 0
    \<and> frames_ipv6 link src dst hop ident payload mtu
      = frames_new link (HeaderV6 (fst src) (fst dst) hop ident) (udp_bytes (snd src) (snd dst) payload c) payload mtu"
proof -
  obtain c where c: "udp_v6 (fst src) (fst dst) (udp_bytes (snd src) (snd dst) payload 0) payload = Some c" "c \<noteq> 0"
    using udp_checksum_defined(2) [of "udp_bytes (snd src) (snd dst) payload 0" payload] assms by fastforce
  have "take 6 (udp_bytes (snd src) (snd dst) payload c) = take 6 (udp_bytes (snd src) (snd dst) payload 0)"
    by (simp add: udp_bytes_def)
  then have "udp_v6 (fst src) (fst dst) (udp_bytes (snd src) (snd dst) payload c) payload = Some c"
    using c udp_checksum_ignores_field(2) by metis
  with c assms show ?thesis
    by (intro exI [of _ c]) (simp add: frames_ipv6_def udp_header_ok udp_bytes_checksum)
qed

end
