(* ===== verification/Packet.thy ===== *)
theory Packet
  imports Frame
begin

text \<open>
  \<^verbatim>\<open>src/src/net/packet.rs\<close>: a captured frame parsed into a datagram or an IP fragment of one. The
  byte reads stand behind the same length guards as in the code; \<open>parse_frame\<close> is total, so no
  captured bytes can make the parser panic. The checksum of a reassembled datagram can panic on a
  length past its 16-bit field, which is kept as \<open>Inl Panic\<close>; \<open>reassembled_no_panic\<close> rules it out.
\<close>

section \<open>Types\<close>

type_synonym socket_addr = "ipaddr \<times> u16"

record packet =
  p_source :: socket_addr
  p_dest :: socket_addr
  p_ttl :: u8
  p_dst_mac :: "mac_addr option"
  p_src_mac :: "mac_addr option"
  p_payload :: bytes

record fragment_header =
  fh_source :: ipaddr
  fh_dest :: ipaddr
  fh_id :: u32
  fh_offset :: nat
  fh_more :: bool
  fh_ttl :: u8
  fh_dst_mac :: "mac_addr option"
  fh_src_mac :: "mac_addr option"

record fragment =
  fr_header :: fragment_header
  fr_data :: bytes

datatype parsed = Datagram packet | Fragment fragment

datatype parse_error =
    Truncated
  | BadIpVersion u8
  | NotUdp u8
  | BadLength
  | BadChecksum
  | VlanTagged u16

record parsed_link =
  pk_dst_mac :: "mac_addr option"
  pk_src_mac :: "mac_addr option"
  pk_l3 :: bytes

section \<open>Parsing\<close>

definition ETHERTYPE_VLAN :: u16 where "ETHERTYPE_VLAN = 0x8100"
definition VLAN_ID_MASK :: u16 where "VLAN_ID_MASK = 0x0fff"

definition ipv4_addr :: "bytes \<Rightarrow> (parse_error, ipv4) result" where
  "ipv4_addr bs = (if length bs = 4 then Inr (of_be_bytes bs) else Inl Truncated)"

definition ipv6_addr :: "bytes \<Rightarrow> (parse_error, ipv6) result" where
  "ipv6_addr bs = (if length bs = 16 then Inr (of_be_bytes bs) else Inl Truncated)"

definition read_mac :: "bytes \<Rightarrow> (parse_error, mac_addr) result" where
  "read_mac bs = ok_or Truncated (mac_from bs)"

definition ethernet_l3 :: "bytes \<Rightarrow> (parse_error, bytes) result" where
  "ethernet_l3 frame =
     (if length frame < ETHERNET_HEADER_SIZE then Inl Truncated
      else
        let header = take ETHERNET_HEADER_SIZE frame; rest = drop ETHERNET_HEADER_SIZE frame in
        if drop 12 header \<noteq> u16_be ETHERTYPE_VLAN then Inr rest
        else (case rest of
            tci_hi # tci_lo # _ # _ # l3 \<Rightarrow>
              (let vid = u16_of tci_hi tci_lo AND VLAN_ID_MASK in
               if vid = 0 then Inr l3 else Inl (VlanTagged vid))
          | _ \<Rightarrow> Inl Truncated))"

definition parse_link_header :: "link_type \<Rightarrow> bytes \<Rightarrow> (parse_error, parsed_link) result" where
  "parse_link_header link_type frame =
     (case link_type of
        Ethernet \<Rightarrow>
          result_bind (ethernet_l3 frame) (\<lambda>l3.
          result_bind (read_mac (sub_slice 0 6 frame)) (\<lambda>dst.
          result_bind (read_mac (sub_slice 6 12 frame)) (\<lambda>src.
          Inr \<lparr>pk_dst_mac = Some dst, pk_src_mac = Some src, pk_l3 = l3\<rparr>)))
      | DltNull \<Rightarrow>
          if length frame < DLT_NULL_HEADER_SIZE then Inl Truncated
          else Inr \<lparr>pk_dst_mac = None, pk_src_mac = None, pk_l3 = drop DLT_NULL_HEADER_SIZE frame\<rparr>
      | RawIp \<Rightarrow> Inr \<lparr>pk_dst_mac = None, pk_src_mac = None, pk_l3 = frame\<rparr>)"

definition parse_udp :: "bytes \<Rightarrow> (parse_error, u16 \<times> u16 \<times> bytes) result" where
  "parse_udp l4 =
     (if length l4 < UDP_HEADER_SIZE then Inl Truncated
      else
        let src_port = u16_of (l4 ! 0) (l4 ! 1);
            dst_port = u16_of (l4 ! 2) (l4 ! 3);
            udp_len = unat (u16_of (l4 ! 4) (l4 ! 5))
        in if udp_len < UDP_HEADER_SIZE \<or> udp_len > length l4 then Inl BadLength
           else Inr (src_port, dst_port, sub_slice UDP_HEADER_SIZE udp_len l4))"

definition parse_datagram :: "parsed_link \<Rightarrow> ipaddr \<Rightarrow> ipaddr \<Rightarrow> u8 \<Rightarrow> bytes \<Rightarrow> (parse_error, parsed) result" where
  "parse_datagram link source dest ttl l4 =
     result_bind (parse_udp l4) (\<lambda>(src_port, dst_port, payload).
       Inr (Datagram \<lparr>p_source = (source, src_port), p_dest = (dest, dst_port), p_ttl = ttl,
              p_dst_mac = pk_dst_mac link, p_src_mac = pk_src_mac link, p_payload = payload\<rparr>))"

definition parse_ipv4 :: "parsed_link \<Rightarrow> (parse_error, parsed) result" where
  "parse_ipv4 link =
     (let l3 = pk_l3 link in
      if length l3 < IPV4_HEADER_SIZE then Inl Truncated
      else let header_len = unat (l3 ! 0 AND 0x0f) * 4 in
      if header_len < IPV4_HEADER_SIZE \<or> header_len > length l3 then Inl BadLength
      else if l3 ! 9 \<noteq> IP_PROTO_UDP then Inl (NotUdp (l3 ! 9))
      else let total_len = unat (u16_of (l3 ! 2) (l3 ! 3)) in
      if total_len < header_len \<or> total_len > length l3 then Inl BadLength
      else
        result_bind (ipv4_addr (sub_slice 12 16 l3)) (\<lambda>source.
        result_bind (ipv4_addr (sub_slice 16 20 l3)) (\<lambda>dest.
        let ttl = l3 ! 8;
            body = sub_slice header_len total_len l3;
            flags_offset = u16_of (l3 ! 6) (l3 ! 7);
            offset = unat (flags_offset AND 0x1fff) * FRAGMENT_UNIT;
            more = (flags_offset AND 0x2000 \<noteq> 0)
        in if offset = 0 \<and> \<not> more then parse_datagram link (V4 source) (V4 dest) ttl body
           else Inr (Fragment \<lparr>fr_header = \<lparr>fh_source = V4 source, fh_dest = V4 dest,
                  fh_id = ucast (u16_of (l3 ! 4) (l3 ! 5)), fh_offset = offset, fh_more = more, fh_ttl = ttl,
                  fh_dst_mac = pk_dst_mac link, fh_src_mac = pk_src_mac link\<rparr>, fr_data = body\<rparr>))))"

definition parse_ipv6 :: "parsed_link \<Rightarrow> (parse_error, parsed) result" where
  "parse_ipv6 link =
     (let l3 = pk_l3 link in
      if length l3 < IPV6_HEADER_SIZE then Inl Truncated
      else let payload_len = unat (u16_of (l3 ! 4) (l3 ! 5));
               total_len = IPV6_HEADER_SIZE + payload_len in
      if total_len > length l3 then Inl BadLength
      else
        result_bind (ipv6_addr (sub_slice 8 24 l3)) (\<lambda>source.
        result_bind (ipv6_addr (sub_slice 24 40 l3)) (\<lambda>dest.
        let hop_limit = l3 ! 7;
            body = sub_slice IPV6_HEADER_SIZE total_len l3;
            next_header = l3 ! 6
        in if next_header = IP_PROTO_UDP then parse_datagram link (V6 source) (V6 dest) hop_limit body
           else if next_header = IPV6_NEXT_FRAGMENT then
             if length body < IPV6_FRAGMENT_HEADER_SIZE then Inl Truncated
             else
               let data = drop IPV6_FRAGMENT_HEADER_SIZE body in
               if body ! 0 \<noteq> IP_PROTO_UDP then Inl (NotUdp (body ! 0))
               else
                 let offset_more = u16_of (body ! 2) (body ! 3);
                     offset = unat (drop_bit 3 offset_more) * FRAGMENT_UNIT;
                     more = (offset_more AND 1 \<noteq> 0)
                 in if offset = 0 \<and> \<not> more then parse_datagram link (V6 source) (V6 dest) hop_limit data
                    else Inr (Fragment \<lparr>fr_header = \<lparr>fh_source = V6 source, fh_dest = V6 dest,
                           fh_id = u32_of (body ! 4) (body ! 5) (body ! 6) (body ! 7),
                           fh_offset = offset, fh_more = more, fh_ttl = hop_limit,
                           fh_dst_mac = pk_dst_mac link, fh_src_mac = pk_src_mac link\<rparr>, fr_data = data\<rparr>)
           else Inl (NotUdp next_header))))"

definition parse_frame :: "link_type \<Rightarrow> bytes \<Rightarrow> (parse_error, parsed) result" where
  "parse_frame link_type frame =
     result_bind (parse_link_header link_type frame) (\<lambda>link.
       case pk_l3 link of
         [] \<Rightarrow> Inl Truncated
       | first # _ \<Rightarrow>
           let version = drop_bit 4 first in
           if version = 4 then parse_ipv4 link
           else if version = 6 then parse_ipv6 link
           else Inl (BadIpVersion version))"

definition fragment_headers :: "fragment \<Rightarrow> packet option" where
  "fragment_headers f =
     (if fh_offset (fr_header f) \<noteq> 0 then None
      else if length (fr_data f) < UDP_HEADER_SIZE then None
      else Some \<lparr>p_source = (fh_source (fr_header f), u16_of (fr_data f ! 0) (fr_data f ! 1)),
                 p_dest = (fh_dest (fr_header f), u16_of (fr_data f ! 2) (fr_data f ! 3)),
                 p_ttl = fh_ttl (fr_header f), p_dst_mac = fh_dst_mac (fr_header f),
                 p_src_mac = fh_src_mac (fr_header f), p_payload = []\<rparr>)"

definition checksum_valid :: "ipaddr \<Rightarrow> ipaddr \<Rightarrow> bytes \<Rightarrow> bytes \<Rightarrow> u16 \<Rightarrow> bool option" where
  "checksum_valid source dest header payload stored =
     (case (source, dest) of
        (V4 src, V4 dst) \<Rightarrow>
          if stored = 0 then Some True
          else map_option (\<lambda>c. c = stored) (udp_v4 src dst header payload)
      | (V6 src, V6 dst) \<Rightarrow> map_option (\<lambda>c. c = stored) (udp_v6 src dst header payload)
      | _ \<Rightarrow> Some False)"

definition packet_reassembled :: "fragment_header \<Rightarrow> bytes \<Rightarrow> (parse_error fault, packet) result" where
  "packet_reassembled first datagram =
     (case parse_udp datagram of
        Inl e \<Rightarrow> Inl (Err e)
      | Inr (src_port, dst_port, payload) \<Rightarrow>
          if length datagram < UDP_HEADER_SIZE then Inl (Err Truncated)
          else
            let header = take UDP_HEADER_SIZE datagram in
            if UDP_HEADER_SIZE + length payload \<noteq> length datagram then Inl (Err BadLength)
            else
              let stored = u16_of (header ! 6) (header ! 7) in
              (case checksum_valid (fh_source first) (fh_dest first) header payload stored of
                 None \<Rightarrow> Inl Panic
               | Some valid \<Rightarrow>
                   if \<not> valid then Inl (Err BadChecksum)
                   else Inr \<lparr>p_source = (fh_source first, src_port), p_dest = (fh_dest first, dst_port),
                             p_ttl = fh_ttl first, p_dst_mac = fh_dst_mac first, p_src_mac = fh_src_mac first,
                             p_payload = payload\<rparr>))"

definition is_broadcast :: "packet \<Rightarrow> ipv4 option \<Rightarrow> bool" where
  "is_broadcast p directed_broadcast =
     (case (fst (p_dest p), p_dst_mac p) of
        (V4 v4, Some mac) \<Rightarrow> \<not> v4_is_multicast v4 \<and> mac = mac_broadcast
      | (V4 v4, None) \<Rightarrow> v4_is_broadcast v4 \<or> Some v4 = directed_broadcast
      | (V6 _, _) \<Rightarrow> False)"

lemma parse_udp_payload:
  assumes "parse_udp l4 = Inr (sport, dport, payload)"
  shows "length payload \<le> 65527"
proof -
  have "length payload \<le> unat (u16_of (l4 ! 4) (l4 ! 5)) - 8"
    using assms by (auto simp: parse_udp_def Let_def sub_slice_def UDP_HEADER_SIZE_def split: if_splits)
  with unat_u16_lt [of "u16_of (l4 ! 4) (l4 ! 5)"] show ?thesis by linarith
qed

text \<open>A length the header's own 16-bit field states is one the checksum can sum.\<close>

lemma reassembled_no_panic: "packet_reassembled first datagram \<noteq> Inl Panic"
proof (cases "parse_udp datagram")
  case (Inr ports)
  then obtain sport dport payload where ok: "parse_udp datagram = Inr (sport, dport, payload)" by (cases ports) auto
  have "\<exists>v. checksum_valid src dst (take 8 datagram) payload stored = Some v" if "8 \<le> length datagram" for src dst stored
    using udp_checksum_defined [of "take 8 datagram", OF _ parse_udp_payload [OF ok]] that
    by (fastforce simp: checksum_valid_def split: ipaddr.splits)
  from this [of "fh_source first" "fh_dest first" "u16_of (datagram ! 6) (datagram ! 7)"] show ?thesis
    by (auto simp: packet_reassembled_def ok Let_def UDP_HEADER_SIZE_def split: if_splits)
qed (simp add: packet_reassembled_def)

section \<open>Parsing what was written\<close>

definition link_type_of :: "link_header \<Rightarrow> link_type" where
  "link_type_of l = (case l of LhEthernet _ _ \<Rightarrow> Ethernet | LhDltNull \<Rightarrow> DltNull | LhRawIp \<Rightarrow> RawIp)"

definition link_dst :: "link_header \<Rightarrow> mac_addr option" where
  "link_dst l = (case l of LhEthernet dst _ \<Rightarrow> Some dst | _ \<Rightarrow> None)"

definition link_src :: "link_header \<Rightarrow> mac_addr option" where
  "link_src l = (case l of LhEthernet _ src \<Rightarrow> Some src | _ \<Rightarrow> None)"

lemma parse_link_bytes:
  "parse_link_header (link_type_of l) (link_bytes af l v6 @ l3)
     = Inr \<lparr>pk_dst_mac = link_dst l, pk_src_mac = link_src l, pk_l3 = l3\<rparr>"
proof (cases l)
  case (LhEthernet dst src)
  have "sub_slice 6 12 (mac_octets dst @ mac_octets src @ rest) = mac_octets src" for rest
    by (simp add: sub_slice_def)
  moreover have "sub_slice 0 6 (mac_octets dst @ rest) = mac_octets dst" for rest
    by (simp add: sub_slice_def)
  moreover have "u16_be IPV6_ETHERTYPE \<noteq> u16_be ETHERTYPE_VLAN" "u16_be IPV4_ETHERTYPE \<noteq> u16_be ETHERTYPE_VLAN"
    by code_simp+
  then have "ethernet_l3 (link_bytes af l v6 @ l3) = Inr l3"
    by (simp add: LhEthernet link_bytes_def ethernet_l3_def ETHERNET_HEADER_SIZE_def Let_def)
  ultimately show ?thesis
    by (simp add: LhEthernet link_bytes_def parse_link_header_def link_type_of_def link_dst_def link_src_def read_mac_def)
qed (simp_all add: link_bytes_def parse_link_header_def link_type_of_def link_dst_def link_src_def net_sizes)

lemma parse_v4_bytes:
  assumes tlen: "unat tlen = 20 + length body"
    and l3: "pk_l3 link = v4_header_bytes src dst ttl ident tlen flags c @ body @ pad"
  shows "parse_ipv4 link =
    (if flags AND 0x1fff = 0 \<and> flags AND 0x2000 = 0 then parse_datagram link (V4 src) (V4 dst) ttl body
     else Inr (Fragment \<lparr>fr_header = \<lparr>fh_source = V4 src, fh_dest = V4 dst, fh_id = ucast ident,
        fh_offset = unat (flags AND 0x1fff) * 8, fh_more = (flags AND 0x2000 \<noteq> 0), fh_ttl = ttl,
        fh_dst_mac = pk_dst_mac link, fh_src_mac = pk_src_mac link\<rparr>, fr_data = body\<rparr>))"
proof -
  let ?l3 = "pk_l3 link"
  have lit: "?l3 = [0x45, 0, ucast (drop_bit 8 tlen), ucast tlen, ucast (drop_bit 8 ident), ucast ident,
      ucast (drop_bit 8 flags), ucast flags, ttl, IP_PROTO_UDP, ucast (drop_bit 8 c), ucast c]
      @ octets4 src @ octets4 dst @ body @ pad"
    by (simp add: l3 v4_header_bytes_def u16_be_def)
  have len: "length ?l3 = 20 + length body + length pad" by (simp add: lit)
  have nths: "?l3 ! 0 = 0x45" "?l3 ! 2 = ucast (drop_bit 8 tlen)" "?l3 ! 3 = ucast tlen"
    "?l3 ! 4 = ucast (drop_bit 8 ident)" "?l3 ! 5 = ucast ident" "?l3 ! 6 = ucast (drop_bit 8 flags)"
    "?l3 ! 7 = ucast flags" "?l3 ! 8 = ttl" "?l3 ! 9 = IP_PROTO_UDP"
    by (simp_all add: lit)
  have slices: "sub_slice 12 16 ?l3 = octets4 src" "sub_slice 16 20 ?l3 = octets4 dst"
    "sub_slice 20 (20 + length body) ?l3 = body"
    by (simp_all add: lit sub_slice_def)
  have ihl: "unat ((0x45 :: u8) AND 0x0f) * 4 = 20" by code_simp
  show ?thesis
    by (simp only: parse_ipv4_def Let_def nths ihl slices u16_of_be tlen len IPV4_HEADER_SIZE_def FRAGMENT_UNIT_def)
       (auto simp: ipv4_addr_def unat_eq_0_iff)
qed

lemma parse_v6_bytes:
  assumes plen: "unat plen = length body"
    and l3: "pk_l3 link = v6_header_bytes src dst hop plen IP_PROTO_UDP @ body @ pad"
  shows "parse_ipv6 link = parse_datagram link (V6 src) (V6 dst) hop body"
proof -
  let ?l3 = "pk_l3 link"
  have lit: "?l3 = [0x60, 0, 0, 0, ucast (drop_bit 8 plen), ucast plen, IP_PROTO_UDP, hop]
      @ octets6 src @ octets6 dst @ body @ pad"
    by (simp add: l3 v6_header_bytes_def u16_be_def)
  have len: "length ?l3 = 40 + length body + length pad" by (simp add: lit)
  have nths: "?l3 ! 4 = ucast (drop_bit 8 plen)" "?l3 ! 5 = ucast plen" "?l3 ! 6 = IP_PROTO_UDP" "?l3 ! 7 = hop"
    by (simp_all add: lit)
  have slices: "sub_slice 8 24 ?l3 = octets6 src" "sub_slice 24 40 ?l3 = octets6 dst"
    "sub_slice 40 (40 + length body) ?l3 = body"
    by (simp_all add: lit sub_slice_def)
  show ?thesis
    by (simp only: parse_ipv6_def Let_def nths slices u16_of_be plen len IPV6_HEADER_SIZE_def)
       (simp add: ipv6_addr_def)
qed

lemma parse_v6_fragment_bytes:
  assumes plen: "unat plen = 8 + length body"
    and l3: "pk_l3 link = v6_header_bytes src dst hop plen IPV6_NEXT_FRAGMENT @ v6_fragment_bytes ident om @ body @ pad"
  shows "parse_ipv6 link =
    (if drop_bit 3 om = 0 \<and> om AND 1 = 0 then parse_datagram link (V6 src) (V6 dst) hop body
     else Inr (Fragment \<lparr>fr_header = \<lparr>fh_source = V6 src, fh_dest = V6 dst, fh_id = ident,
        fh_offset = unat (drop_bit 3 om) * 8, fh_more = (om AND 1 \<noteq> 0), fh_ttl = hop,
        fh_dst_mac = pk_dst_mac link, fh_src_mac = pk_src_mac link\<rparr>, fr_data = body\<rparr>))"
proof -
  let ?l3 = "pk_l3 link"
  let ?frag = "[IP_PROTO_UDP, 0, ucast (drop_bit 8 om), ucast om, ucast (drop_bit 24 ident), ucast (drop_bit 16 ident),
      ucast (drop_bit 8 ident), ucast ident] :: bytes"
  have lit: "?l3 = [0x60, 0, 0, 0, ucast (drop_bit 8 plen), ucast plen, IPV6_NEXT_FRAGMENT, hop]
      @ octets6 src @ octets6 dst @ ?frag @ body @ pad"
    by (simp add: l3 v6_header_bytes_def v6_fragment_bytes_def u16_be_def u32_be_def)
  have len: "length ?l3 = 40 + (8 + length body) + length pad" by (simp add: lit)
  have nths: "?l3 ! 4 = ucast (drop_bit 8 plen)" "?l3 ! 5 = ucast plen" "?l3 ! 6 = IPV6_NEXT_FRAGMENT" "?l3 ! 7 = hop"
    by (simp_all add: lit)
  have slices: "sub_slice 8 24 ?l3 = octets6 src" "sub_slice 24 40 ?l3 = octets6 dst"
    by (simp_all add: lit sub_slice_def)
  have "drop 40 ?l3 = (?frag @ body) @ pad" by (simp add: lit)
  then have rest: "sub_slice 40 (40 + (8 + length body)) ?l3 = ?frag @ body"
    by (rule sub_slice_dropped) simp
  have frag: "length (?frag @ body) = 8 + length body" "drop 8 (?frag @ body) = body"
    "(?frag @ body) ! 0 = IP_PROTO_UDP" "(?frag @ body) ! 2 = ucast (drop_bit 8 om)" "(?frag @ body) ! 3 = ucast om"
    "(?frag @ body) ! 4 = ucast (drop_bit 24 ident)" "(?frag @ body) ! 5 = ucast (drop_bit 16 ident)"
    "(?frag @ body) ! 6 = ucast (drop_bit 8 ident)" "(?frag @ body) ! 7 = ucast ident"
    by simp_all
  have distinct: "IPV6_NEXT_FRAGMENT \<noteq> IP_PROTO_UDP" by code_simp
  show ?thesis
    by (simp only: parse_ipv6_def Let_def nths slices rest u16_of_be u32_of_be plen len frag IPV6_HEADER_SIZE_def
          IPV6_FRAGMENT_HEADER_SIZE_def FRAGMENT_UNIT_def)
       (auto simp: ipv6_addr_def distinct unat_eq_0_iff)
qed

lemma parse_udp_bytes:
  assumes "8 + length payload \<le> 65535"
  shows "parse_udp (udp_bytes sport dport payload c @ payload) = Inr (sport, dport, payload)"
proof -
  let ?l4 = "udp_bytes sport dport payload c @ payload"
  let ?len = "of_nat (8 + length payload) :: u16"
  have lit: "?l4 = [ucast (drop_bit 8 sport), ucast sport, ucast (drop_bit 8 dport), ucast dport,
      ucast (drop_bit 8 ?len), ucast ?len, ucast (drop_bit 8 c), ucast c] @ payload"
    by (simp add: udp_bytes_def u16_be_def)
  have nths: "?l4 ! 0 = ucast (drop_bit 8 sport)" "?l4 ! 1 = ucast sport" "?l4 ! 2 = ucast (drop_bit 8 dport)"
    "?l4 ! 3 = ucast dport" "?l4 ! 4 = ucast (drop_bit 8 ?len)" "?l4 ! 5 = ucast ?len"
    unfolding lit by simp_all
  have ulen: "unat ?len = 8 + length payload" using assms by (intro unat_of_nat_u16) simp
  have slice: "sub_slice 8 (8 + length payload) ?l4 = payload" by (rule sub_slice_dropped [of _ _ _ "[]"]) simp_all
  show ?thesis
    by (simp only: parse_udp_def Let_def nths u16_of_be ulen slice UDP_HEADER_SIZE_def) simp
qed

lemma high_bits_of_nat: "k < 8192 \<Longrightarrow> 13 \<le> n \<Longrightarrow> \<not> bit (of_nat k :: u16) n"
proof -
  assume k: "k < 8192" and n: "13 \<le> n"
  have "take_bit 13 k = k" using k by (simp add: take_bit_nat_eq_self_iff)
  then have "(of_nat k :: u16) = take_bit 13 (of_nat k)" by (metis of_nat_take_bit)
  with n show ?thesis by (metis bit_take_bit_iff not_less)
qed

lemma v4_flags_roundtrip:
  assumes "k < 8192"
  shows "((of_nat k :: u16) OR (if m then IPV4_FLAG_MF else 0)) AND 0x1fff = of_nat k"
    and "((of_nat k :: u16) OR (if m then IPV4_FLAG_MF else 0)) AND 0x2000 \<noteq> 0 \<longleftrightarrow> m"
proof -
  let ?w = "(of_nat k :: u16) OR (if m then IPV4_FLAG_MF else 0)"
  have mask: "(0x1fff :: u16) = mask 13" and mf: "(0x2000 :: u16) = push_bit 13 1" by code_simp+
  note hi = high_bits_of_nat [OF assms]
  show "?w AND 0x1fff = of_nat k"
  proof (rule bit_word_eqI)
    fix n assume "n < LENGTH(16)"
    show "bit (?w AND 0x1fff) n = bit (of_nat k :: u16) n"
      using hi [of n] by (cases "n < 13") (auto simp: IPV4_FLAG_MF_def mask mf bit_simps simp del: push_bit_of_1)
  qed
  have bit: "bit (?w AND 0x2000) n \<longleftrightarrow> n = 13 \<and> m" for n
    using hi [of 13] by (auto simp: IPV4_FLAG_MF_def mf bit_simps simp del: push_bit_of_1)
  show "?w AND 0x2000 \<noteq> 0 \<longleftrightarrow> m"
    using bit by (metis bit_0_eq bot_apply bot_bool_def bit_word_eqI)
qed

lemma v6_offset_roundtrip:
  assumes "k < 8192"
  shows "drop_bit 3 (push_bit 3 (of_nat k :: u16) OR (if m then 1 else 0)) = of_nat k"
    and "(push_bit 3 (of_nat k :: u16) OR (if m then 1 else 0)) AND 1 \<noteq> 0 \<longleftrightarrow> m"
proof -
  let ?w = "push_bit 3 (of_nat k :: u16) OR (if m then 1 else 0)"
  show "drop_bit 3 ?w = of_nat k"
  proof (rule bit_word_eqI)
    fix n assume "n < LENGTH(16)"
    then show "bit (drop_bit 3 ?w) n = bit (of_nat k :: u16) n"
      using high_bits_of_nat [OF assms, of n] by (cases "n < 13") (auto simp: bit_simps bit_1_iff)
  qed
  have bit: "bit (?w AND 1) n \<longleftrightarrow> n = 0 \<and> m" for n
    by (cases m) (simp_all only: if_True if_False bit_and_iff bit_or_iff bit_1_iff bit_push_bit_iff, auto)
  show "?w AND 1 \<noteq> 0 \<longleftrightarrow> m"
    using bit by (metis bit_0_eq bot_apply bot_bool_def bit_word_eqI)
qed

text \<open>What frame \<open>i\<close> of a layout carries: the whole datagram, or the fragment at its offset.\<close>

fun header_source :: "ip_header \<Rightarrow> ipaddr" where
  "header_source (HeaderV4 src _ _ _) = V4 src"
| "header_source (HeaderV6 src _ _ _) = V6 src"

fun header_dest :: "ip_header \<Rightarrow> ipaddr" where
  "header_dest (HeaderV4 _ dst _ _) = V4 dst"
| "header_dest (HeaderV6 _ dst _ _) = V6 dst"

fun header_ttl :: "ip_header \<Rightarrow> u8" where
  "header_ttl (HeaderV4 _ _ ttl _) = ttl"
| "header_ttl (HeaderV6 _ _ hop _) = hop"

fun header_ident :: "ip_header \<Rightarrow> u32" where
  "header_ident (HeaderV4 _ _ _ ident) = ucast ident"
| "header_ident (HeaderV6 _ _ _ ident) = ident"

definition frame_fragment :: "udp_frames \<Rightarrow> nat \<Rightarrow> fragment" where
  "frame_fragment u i = \<lparr>fr_header = \<lparr>fh_source = header_source (uf_ip u), fh_dest = header_dest (uf_ip u),
      fh_id = header_ident (uf_ip u), fh_offset = frame_start u i, fh_more = frame_more u i,
      fh_ttl = header_ttl (uf_ip u), fh_dst_mac = link_dst (uf_link u), fh_src_mac = link_src (uf_link u)\<rparr>,
    fr_data = frame_data u i\<rparr>"

definition frames_packet :: "link_header \<Rightarrow> ip_header \<Rightarrow> u16 \<Rightarrow> u16 \<Rightarrow> bytes \<Rightarrow> packet" where
  "frames_packet link ip sport dport payload =
     \<lparr>p_source = (header_source ip, sport), p_dest = (header_dest ip, dport), p_ttl = header_ttl ip,
      p_dst_mac = link_dst link, p_src_mac = link_src link, p_payload = payload\<rparr>"

lemma frame_start_units: "frames_inv u \<Longrightarrow> uf_fragmented u \<Longrightarrow> frame_start u i div 8 * 8 = frame_start u i"
proof -
  assume "frames_inv u" "uf_fragmented u"
  then have "8 dvd uf_chunk u" by (auto simp: frames_inv_def)
  then show ?thesis by (simp add: frame_start_def)
qed

lemma frame_not_whole: "frames_inv u \<Longrightarrow> uf_fragmented u \<Longrightarrow> \<not> (frame_start u i = 0 \<and> \<not> frame_more u i)"
  by (cases i) (auto simp: frames_inv_def frame_more_def frame_stop_def frame_start_def)

lemma frame_data_whole:
  assumes "frames_inv u" "\<not> uf_fragmented u" "frame_start u i < datagram_len u"
  shows "frame_data u i = datagram_bytes u"
proof -
  have "uf_chunk u = datagram_len u" using assms by (simp add: frames_inv_def)
  with assms(3) have "i = 0" by (cases i) (simp_all add: frame_start_def)
  then show ?thesis using assms \<open>uf_chunk u = datagram_len u\<close> by (simp add: frame_data_def frame_start_def frame_stop_def)
qed

lemma parse_frame_bytes:
  assumes inv: "frames_inv u" and i: "frame_start u i < datagram_len u"
  shows "parse_frame (link_type_of (uf_link u))
      (link_bytes af (uf_link u) (header_is_v6 (uf_ip u)) @ frame_ip_bytes u i c (uf_ip u) @ frame_data u i @ pad)
    = (if uf_fragmented u then Inr (Fragment (frame_fragment u i))
       else parse_datagram \<lparr>pk_dst_mac = link_dst (uf_link u), pk_src_mac = link_src (uf_link u),
              pk_l3 = frame_ip_bytes u i c (uf_ip u) @ frame_data u i @ pad\<rparr>
            (header_source (uf_ip u)) (header_dest (uf_ip u)) (header_ttl (uf_ip u)) (frame_data u i))"
    (is "?lhs = ?rhs")
proof -
  let ?link = "\<lparr>pk_dst_mac = link_dst (uf_link u), pk_src_mac = link_src (uf_link u),
      pk_l3 = frame_ip_bytes u i c (uf_ip u) @ frame_data u i @ pad\<rparr>"
  let ?k = "frame_start u i div 8"
  have k: "?k < 8192" using inv i by (rule frame_units)
  have uk: "unat (of_nat ?k :: u16) = ?k" using k by (intro unat_of_nat_u16) simp
  have k0: "(of_nat ?k :: u16) = 0 \<longleftrightarrow> ?k = 0" using uk unat_eq_0_iff [of "of_nat ?k :: u16"] by simp
  have n: "length (frame_data u i) \<le> uf_chunk u" "length (frame_data u i) \<le> datagram_len u"
    using length_frame_data [OF inv] by (auto simp: frame_stop_def)
  note units = frame_start_units [OF inv] and whole = frame_not_whole [OF inv, of i]
  have nz: "\<not> ((of_nat ?k :: u16) = 0 \<and> \<not> frame_more u i)" if "uf_fragmented u"
    using k0 whole [OF that] units [OF that, of i] by auto
  show ?thesis
  proof (cases "uf_ip u")
    case (HeaderV4 src dst ttl ident)
    let ?flags = "if uf_fragmented u then frame_flags u i else 0"
    have "?lhs = parse_ipv4 ?link"
      unfolding parse_frame_def parse_link_bytes by (simp add: HeaderV4 v4_header_bytes_def)
    also have "\<dots> = ?rhs"
    proof -
      let ?tlen = "of_nat (20 + length (frame_data u i)) :: u16"
      have tlen: "unat ?tlen = 20 + length (frame_data u i)"
        using inv n HeaderV4 by (intro unat_of_nat_u16) (simp add: frames_inv_def)
      have l3: "pk_l3 ?link = v4_header_bytes src dst ttl ident ?tlen ?flags c @ frame_data u i @ pad"
        by (simp add: HeaderV4)
      show ?thesis
      proof (cases "uf_fragmented u")
        case True
        have "frame_flags u i AND 0x1fff = of_nat ?k" "frame_flags u i AND 0x2000 \<noteq> 0 \<longleftrightarrow> frame_more u i"
          unfolding frame_flags_def using v4_flags_roundtrip [OF k] by blast+
        with True nz [OF True] show ?thesis
          unfolding parse_v4_bytes [OF tlen l3] by (auto simp: frame_fragment_def HeaderV4 uk units)
      next
        case False
        then show ?thesis unfolding parse_v4_bytes [OF tlen l3] by (simp add: HeaderV4)
      qed
    qed
    finally show ?thesis .
  next
    case (HeaderV6 src dst hop ident)
    have "?lhs = parse_ipv6 ?link"
      unfolding parse_frame_def parse_link_bytes by (simp add: HeaderV6 v6_header_bytes_def)
    also have "\<dots> = ?rhs"
    proof (cases "uf_fragmented u")
      case True
      let ?plen = "of_nat (8 + length (frame_data u i)) :: u16"
      have plen: "unat ?plen = 8 + length (frame_data u i)"
        using inv n HeaderV6 True by (intro unat_of_nat_u16) (auto simp: frames_inv_def)
      have l3: "pk_l3 ?link = v6_header_bytes src dst hop ?plen IPV6_NEXT_FRAGMENT
          @ v6_fragment_bytes ident (frame_offset_more u i) @ frame_data u i @ pad"
        by (simp add: HeaderV6 True)
      have "drop_bit 3 (frame_offset_more u i) = of_nat ?k" "frame_offset_more u i AND 1 \<noteq> 0 \<longleftrightarrow> frame_more u i"
        unfolding frame_offset_more_def using v6_offset_roundtrip [OF k] by blast+
      with True nz [OF True] show ?thesis
        unfolding parse_v6_fragment_bytes [OF plen l3] by (auto simp: frame_fragment_def HeaderV6 uk units)
    next
      case False
      then show ?thesis
        by (subst parse_v6_bytes [of "of_nat (length (frame_data u i))" "frame_data u i" _ src dst hop pad])
           (use inv n HeaderV6 in \<open>auto simp: frames_inv_def unat_of_nat_u16\<close>)
    qed
    finally show ?thesis .
  qed
qed

section \<open>Properties\<close>

lemma frames_write_take:
  assumes inv: "frames_inv u" and w: "frames_write af u i out = Inr (n, out')"
  shows "frame_start u i < datagram_len u \<and> n = frame_length u i \<and> (\<exists>c. take n out'
    = link_bytes af (uf_link u) (header_is_v6 (uf_ip u)) @ frame_ip_bytes u i c (uf_ip u) @ frame_data u i)"
proof -
  from w have start: "frame_start u i < datagram_len u" and out: "frame_length u i \<le> length out"
    by (auto simp: frames_write_unfold split: if_splits)
  obtain c where "out' = (link_bytes af (uf_link u) (header_is_v6 (uf_ip u)) @ frame_ip_bytes u i c (uf_ip u)
      @ frame_data u i) @ drop (frame_length u i) out" and n: "n = frame_length u i"
    using frames_write_layout [OF inv _ out, of af] frames_count_iff [OF inv, of i] start w by auto
  moreover have "length (link_bytes af (uf_link u) (header_is_v6 (uf_ip u)) @ frame_ip_bytes u i c (uf_ip u)
      @ frame_data u i) = frame_length u i"
  proof -
    have "length (link_bytes af l v) = link_size l" for l v
      by (cases l) (simp_all add: link_bytes_def net_sizes)
    moreover have "length (frame_ip_bytes u i c (uf_ip u)) = header_size (uf_ip u) (uf_fragmented u)"
      by (cases "uf_ip u") (simp_all add: v4_header_bytes_def v6_header_bytes_def v6_fragment_bytes_def net_sizes)
    ultimately show ?thesis by (simp add: frame_length_def length_frame_data [OF inv])
  qed
  ultimately show ?thesis using start by (auto intro!: exI [of _ c])
qed

lemma parse_written:
  assumes inv: "frames_inv u" and w: "frames_write af u i out = Inr (n, out')"
    and bytes: "datagram_bytes u = udp_bytes sport dport payload c @ payload" and len: "8 + length payload \<le> 65535"
  shows "parse_frame (link_type_of (uf_link u)) (take n out' @ pad)
    = Inr (if uf_fragmented u then Fragment (frame_fragment u i)
           else Datagram (frames_packet (uf_link u) (uf_ip u) sport dport payload))"
proof -
  obtain d where start: "frame_start u i < datagram_len u" and out: "take n out'
      = link_bytes af (uf_link u) (header_is_v6 (uf_ip u)) @ frame_ip_bytes u i d (uf_ip u) @ frame_data u i"
    using frames_write_take [OF inv w] by auto
  show ?thesis
  proof (cases "uf_fragmented u")
    case True
    then show ?thesis using parse_frame_bytes [OF inv start, of af d pad] by (simp add: out)
  next
    case False
    have "parse_udp (frame_data u i) = Inr (sport, dport, payload)"
      using frame_data_whole [OF inv False start] parse_udp_bytes [OF len] bytes by simp
    then show ?thesis using parse_frame_bytes [OF inv start, of af d pad] False
      by (simp add: out parse_datagram_def frames_packet_def)
  qed
qed

lemma frames_ipv4_inv:
  assumes "frames_ipv4 link src dst ttl ident payload mtu = Inr u"
  obtains c where "28 + length payload \<le> 65535" "frames_inv u" "uf_link u = link"
    "uf_ip u = HeaderV4 (fst src) (fst dst) ttl ident"
    "datagram_bytes u = udp_bytes (snd src) (snd dst) payload c @ payload"
    "udp_v4 (fst src) (fst dst) (udp_bytes (snd src) (snd dst) payload c) payload = Some c"
    "uf_fragmented u \<longleftrightarrow> mtu < 28 + length payload" "20 + uf_chunk u \<le> mtu" "uf_payload u = payload"
proof -
  have len: "28 + length payload \<le> 65535"
    using assms udp_header_too_large [of 20 payload] by (force simp: frames_ipv4_def IPV4_HEADER_SIZE_def)
  obtain c where v: "udp_v4 (fst src) (fst dst) (udp_bytes (snd src) (snd dst) payload c) payload = Some c"
    and new: "frames_new link (HeaderV4 (fst src) (fst dst) ttl ident) (udp_bytes (snd src) (snd dst) payload c) payload mtu
      = Inr u"
    using frames_ipv4_eq [OF len] assms by metis
  note facts = frames_new_inv [OF new length_udp_bytes]
  show thesis by (rule that [of c]) (use len v facts in \<open>simp_all add: net_sizes\<close>)
qed

lemma frames_ipv6_inv:
  assumes "frames_ipv6 link src dst hop ident payload mtu = Inr u"
  obtains c where "8 + length payload \<le> 65535" "frames_inv u" "uf_link u = link"
    "uf_ip u = HeaderV6 (fst src) (fst dst) hop ident"
    "datagram_bytes u = udp_bytes (snd src) (snd dst) payload c @ payload"
    "udp_v6 (fst src) (fst dst) (udp_bytes (snd src) (snd dst) payload c) payload = Some c"
    "uf_fragmented u \<longleftrightarrow> mtu < 48 + length payload" "40 + uf_chunk u \<le> mtu" "uf_payload u = payload"
    "header_size (uf_ip u) (uf_fragmented u) + uf_chunk u \<le> mtu"
proof -
  have len: "8 + length payload \<le> 65535"
    using assms udp_header_too_large [of 0 payload] by (force simp: frames_ipv6_def)
  obtain c where v: "udp_v6 (fst src) (fst dst) (udp_bytes (snd src) (snd dst) payload c) payload = Some c"
    and new: "frames_new link (HeaderV6 (fst src) (fst dst) hop ident) (udp_bytes (snd src) (snd dst) payload c) payload mtu
      = Inr u"
    using frames_ipv6_eq [OF len] assms by metis
  note facts = frames_new_inv [OF new length_udp_bytes]
  show thesis by (rule that [of c]) (use len v facts in \<open>auto simp: net_sizes split: if_splits\<close>)
qed

text \<open>C15. Every frame written for an IPv4 datagram parses back, whatever padding the link appends: a
  datagram that fits the MTU to the very addresses, ports, TTL, MACs and payload that went in, a
  larger one to the fragment at that frame's place, with the datagram's identification.\<close>

theorem ipv4_frame_roundtrip:
  assumes built: "frames_ipv4 link src dst ttl ident payload mtu = Inr u"
    and written: "frames_write af u i out = Inr (n, out')"
  shows "parse_frame (link_type_of link) (take n out' @ pad) =
    Inr (if 28 + length payload \<le> mtu
         then Datagram (frames_packet link (HeaderV4 (fst src) (fst dst) ttl ident) (snd src) (snd dst) payload)
         else Fragment (frame_fragment u i))"
  using built
proof (cases rule: frames_ipv4_inv)
  case (1 c)
  then show ?thesis using parse_written [OF 1(2) written 1(5)] by (auto simp: not_le)
qed

text \<open>Likewise for IPv6, where a fragmented datagram carries a Fragment header per frame.\<close>

theorem ipv6_frame_roundtrip:
  assumes built: "frames_ipv6 link src dst hop ident payload mtu = Inr u"
    and written: "frames_write af u i out = Inr (n, out')"
  shows "parse_frame (link_type_of link) (take n out' @ pad) =
    Inr (if 48 + length payload \<le> mtu
         then Datagram (frames_packet link (HeaderV6 (fst src) (fst dst) hop ident) (snd src) (snd dst) payload)
         else Fragment (frame_fragment u i))"
  using built
proof (cases rule: frames_ipv6_inv)
  case (1 c)
  then show ?thesis using parse_written [OF 1(2) written 1(5)] by (auto simp: not_le)
qed

lemma frame_data_concat:
  assumes inv: "frames_inv u"
  shows "concat (map (frame_data u) [0..<frames_count u]) = datagram_bytes u"
proof -
  have chunk: "0 < uf_chunk u" using inv by (auto simp: frames_inv_def)
  have "concat (map (frame_data u) [0..<k]) = take (k * uf_chunk u) (datagram_bytes u)" for k
  proof (induction k)
    case (Suc k)
    have "frame_data u k = take (uf_chunk u) (drop (k * uf_chunk u) (datagram_bytes u))"
      using inv by (auto simp: frame_data_def sub_slice_def frame_start_def frame_stop_def min_def)
    with Suc show ?case by (simp add: take_add add.commute [of "uf_chunk u"])
  qed simp
  moreover have "datagram_len u \<le> frames_count u * uf_chunk u"
    unfolding frames_count_def using div_ceil_le_iff [OF chunk] by blast
  ultimately show ?thesis using inv by simp
qed

lemma frames_write_total:
  assumes inv: "frames_inv u" and i: "i < frames_count u"
    and mtu: "header_size (uf_ip u) (uf_fragmented u) + uf_chunk u \<le> mtu"
  shows "frame_length u i \<le> link_size (uf_link u) + mtu
    \<and> (case frames_write af u i out of
         Inr (n, out') \<Rightarrow> n = frame_length u i \<and> length out' = length out \<and> drop n out' = drop n out
       | Inl e \<Rightarrow> length out < frame_length u i \<and> e = Err (BufferTooSmall (frame_length u i) (length out)))"
proof (cases "frame_length u i \<le> length out")
  case True
  have short: "frame_length u i \<le> link_size (uf_link u) + mtu"
    using mtu by (auto simp: frame_length_def frame_stop_def)
  obtain n out' where w: "frames_write af u i out = Inr (n, out')"
    using frames_write_layout [OF inv i True] by blast
  obtain c where out': "out' = (link_bytes af (uf_link u) (header_is_v6 (uf_ip u)) @ frame_ip_bytes u i c (uf_ip u)
      @ frame_data u i) @ drop (frame_length u i) out" and n: "n = frame_length u i"
    using frames_write_layout [OF inv i True, of af] w by auto
  let ?front = "link_bytes af (uf_link u) (header_is_v6 (uf_ip u)) @ frame_ip_bytes u i c (uf_ip u) @ frame_data u i"
  have "length (link_bytes af l v) = link_size l" for l v
    by (cases l) (simp_all add: link_bytes_def net_sizes)
  moreover have "length (frame_ip_bytes u i c (uf_ip u)) = header_size (uf_ip u) (uf_fragmented u)"
    by (cases "uf_ip u") (simp_all add: v4_header_bytes_def v6_header_bytes_def v6_fragment_bytes_def net_sizes)
  ultimately have "length ?front = frame_length u i" by (simp add: frame_length_def length_frame_data [OF inv])
  with w out' n short True show ?thesis by simp
next
  case False
  have "frame_length u i \<le> link_size (uf_link u) + mtu"
    using mtu by (auto simp: frame_length_def frame_stop_def)
  with False show ?thesis using frames_count_iff [OF inv, of i] i by (simp add: frames_write_unfold)
qed

lemma frames_ipv4_builds:
  "28 + length payload \<le> 65535 \<Longrightarrow> 28 \<le> mtu \<Longrightarrow> \<exists>u. frames_ipv4 link src dst ttl ident payload mtu = Inr u"
proof -
  assume len: "28 + length payload \<le> 65535" and mtu: "28 \<le> mtu"
  obtain udp where "frames_ipv4 link src dst ttl ident payload mtu
      = frames_new link (HeaderV4 (fst src) (fst dst) ttl ident) udp payload mtu"
    using frames_ipv4_eq [OF len] by metis
  then show ?thesis using mtu frames_new_error [of link "HeaderV4 (fst src) (fst dst) ttl ident" udp payload mtu]
    by (cases "frames_new link (HeaderV4 (fst src) (fst dst) ttl ident) udp payload mtu") (auto simp: net_sizes)
qed

lemma frames_ipv6_builds:
  "8 + length payload \<le> 65535 \<Longrightarrow> 56 \<le> mtu \<Longrightarrow> \<exists>u. frames_ipv6 link src dst hop ident payload mtu = Inr u"
proof -
  assume len: "8 + length payload \<le> 65535" and mtu: "56 \<le> mtu"
  obtain udp where "frames_ipv6 link src dst hop ident payload mtu
      = frames_new link (HeaderV6 (fst src) (fst dst) hop ident) udp payload mtu"
    using frames_ipv6_eq [OF len] by metis
  then show ?thesis using mtu frames_new_error [of link "HeaderV6 (fst src) (fst dst) hop ident" udp payload mtu]
    by (cases "frames_new link (HeaderV6 (fst src) (fst dst) hop ident) udp payload mtu") (auto simp: net_sizes)
qed

definition sample_link :: link_header where
  "sample_link = LhEthernet (MacAddr 1 0 0x5e 0 0 0xfb) (MacAddr 2 0 0 0 0 1)"

lemma ipv4_frame_roundtrip_witness:
  "\<exists>u n out'. frames_ipv4 sample_link (0xc0a80102, 5353) (0xe00000fb, 5353) 255 7 (replicate 30 9) 40 = Inr u
     \<and> frames_write (\<lambda>_. 0) u 1 (replicate 60 0) = Inr (n, out')
     \<and> parse_frame Ethernet (take n out' @ [0, 0]) = Inr (Fragment (frame_fragment u 1))"
proof -
  have "\<exists>u. frames_ipv4 sample_link (0xc0a80102, 5353) (0xe00000fb, 5353) 255 7 (replicate 30 9) 40 = Inr u"
    by (rule frames_ipv4_builds) simp_all
  then obtain u where built: "frames_ipv4 sample_link (0xc0a80102, 5353) (0xe00000fb, 5353) 255 7 (replicate 30 9) 40 = Inr u" ..
  then obtain n out' where written: "frames_write (\<lambda>_. 0) u 1 (replicate 60 0) = Inr (n, out')"
  proof (cases rule: frames_ipv4_inv)
    case (1 c)
    then have "1 < frames_count u" by (simp add: frames_count_iff frame_start_def frames_inv_def)
    moreover have "frame_length u 1 \<le> 60"
      using 1 by (auto simp: frame_length_def frame_stop_def sample_link_def net_sizes)
    ultimately show thesis using that frames_write_layout [OF 1(2)] by (metis length_replicate)
  qed
  show ?thesis using ipv4_frame_roundtrip [OF built written, of "[0, 0]"] built written
    by (auto simp: sample_link_def link_type_of_def)
qed

lemma ipv6_frame_roundtrip_witness:
  "\<exists>u n out'. frames_ipv6 sample_link (1, 5353) (2, 5353) 255 7 (replicate 30 9) 100 = Inr u
     \<and> frames_write (\<lambda>_. 0) u 0 (replicate 114 0) = Inr (n, out')
     \<and> parse_frame Ethernet (take n out' @ [])
       = Inr (Datagram (frames_packet sample_link (HeaderV6 1 2 255 7) 5353 5353 (replicate 30 9)))"
proof -
  have "\<exists>u. frames_ipv6 sample_link (1, 5353) (2, 5353) 255 7 (replicate 30 9) 100 = Inr u"
    by (rule frames_ipv6_builds) simp_all
  then obtain u where built: "frames_ipv6 sample_link (1, 5353) (2, 5353) 255 7 (replicate 30 9) 100 = Inr u" ..
  then obtain n out' where written: "frames_write (\<lambda>_. 0) u 0 (replicate 114 0) = Inr (n, out')"
  proof (cases rule: frames_ipv6_inv)
    case (1 c)
    then have "0 < frames_count u" by (simp add: frames_count_iff frame_start_def datagram_len_def)
    moreover have "frame_length u 0 \<le> 114"
      using 1 by (auto simp: frame_length_def frame_stop_def frame_start_def sample_link_def net_sizes)
    ultimately show thesis using that frames_write_layout [OF 1(2)] by (metis length_replicate)
  qed
  show ?thesis using ipv6_frame_roundtrip [OF built written, of "[]"] built written
    by (auto simp: sample_link_def link_type_of_def)
qed

text \<open>C18. Building and writing IPv4 frames never panics. The builder refuses exactly the payloads a
  datagram cannot hold and the MTUs no fragment fits; for every index below the count the writer
  fills a frame within the MTU, leaves the rest of the buffer alone, and reports a buffer too small
  for the frame; and the frames together carry the UDP header and payload, in order.\<close>

theorem ipv4_frames_total:
  "case frames_ipv4 link src dst ttl ident payload mtu of
     Inl e \<Rightarrow> e = Err (PayloadTooLarge (length payload)) \<and> 65535 < 28 + length payload
       \<or> e = Err (MtuTooSmall mtu) \<and> 28 + length payload \<le> 65535 \<and> mtu < 28
   | Inr u \<Rightarrow> 28 + length payload \<le> 65535 \<and> 28 \<le> mtu
       \<and> concat (map (frame_data u) [0..<frames_count u]) = uf_udp u @ payload
       \<and> list_all (\<lambda>i. frame_length u i \<le> link_size link + mtu
           \<and> (case frames_write af u i out of
                Inr (n, out') \<Rightarrow> n = frame_length u i \<and> length out' = length out \<and> drop n out' = drop n out
              | Inl e \<Rightarrow> length out < frame_length u i \<and> e = Err (BufferTooSmall (frame_length u i) (length out))))
           [0..<frames_count u]"
proof (cases "frames_ipv4 link src dst ttl ident payload mtu")
  case (Inl e)
  show ?thesis
  proof (cases "28 + length payload \<le> 65535")
    case True
    obtain udp where "frames_new link (HeaderV4 (fst src) (fst dst) ttl ident) udp payload mtu = Inl e"
      using frames_ipv4_eq [OF True] Inl by metis
    with Inl True show ?thesis by (auto simp: frames_new_error net_sizes)
  next
    case False
    with Inl udp_header_too_large [of 20 payload] show ?thesis by (auto simp: frames_ipv4_def IPV4_HEADER_SIZE_def)
  qed
next
  case (Inr u)
  then show ?thesis
  proof (cases rule: frames_ipv4_inv)
    case (1 c)
    then have mtu: "header_size (uf_ip u) (uf_fragmented u) + uf_chunk u \<le> mtu" by (simp add: net_sizes)
    have "8 \<le> uf_chunk u" using 1(2) by (simp add: frames_inv_def)
    with 1 Inr frame_data_concat [OF 1(2)] frames_write_total [OF 1(2) _ mtu] show ?thesis
      by (simp add: list_all_iff datagram_bytes_def)
  qed
qed

text \<open>Likewise for IPv6, whose smallest MTU for a fragment also pays for the Fragment header.\<close>

theorem ipv6_frames_total:
  "case frames_ipv6 link src dst hop ident payload mtu of
     Inl e \<Rightarrow> e = Err (PayloadTooLarge (length payload)) \<and> 65535 < 8 + length payload
       \<or> e = Err (MtuTooSmall mtu) \<and> mtu < 48 + length payload \<and> mtu < 56
   | Inr u \<Rightarrow> 8 + length payload \<le> 65535
       \<and> concat (map (frame_data u) [0..<frames_count u]) = uf_udp u @ payload
       \<and> list_all (\<lambda>i. frame_length u i \<le> link_size link + mtu
           \<and> (case frames_write af u i out of
                Inr (n, out') \<Rightarrow> n = frame_length u i \<and> length out' = length out \<and> drop n out' = drop n out
              | Inl e \<Rightarrow> length out < frame_length u i \<and> e = Err (BufferTooSmall (frame_length u i) (length out))))
           [0..<frames_count u]"
proof (cases "frames_ipv6 link src dst hop ident payload mtu")
  case (Inl e)
  show ?thesis
  proof (cases "8 + length payload \<le> 65535")
    case True
    obtain udp where "frames_new link (HeaderV6 (fst src) (fst dst) hop ident) udp payload mtu = Inl e"
      using frames_ipv6_eq [OF True] Inl by metis
    with Inl True show ?thesis by (auto simp: frames_new_error net_sizes)
  next
    case False
    with Inl udp_header_too_large [of 0 payload] show ?thesis by (auto simp: frames_ipv6_def)
  qed
next
  case (Inr u)
  then show ?thesis
  proof (cases rule: frames_ipv6_inv)
    case (1 c)
    with Inr 1 frame_data_concat [OF 1(2)] frames_write_total [OF 1(2) _ 1(10)] show ?thesis
      by (simp add: list_all_iff datagram_bytes_def)
  qed
qed

section \<open>What a parsed frame is\<close>

lemma parse_datagram_typed:
  assumes "parse_datagram link source dest ttl l4 = Inr x"
  obtains p where "x = Datagram p" "fst (p_source p) = source" "fst (p_dest p) = dest" "p_src_mac p = pk_src_mac link"
    "p_dst_mac p = pk_dst_mac link" "length (p_payload p) + 8 \<le> length l4"
  using assms by (auto simp: parse_datagram_def parse_udp_def result_bind_def Let_def UDP_HEADER_SIZE_def
      split: sum.split_asm if_split_asm)

lemma parse_link_typed:
  assumes "parse_link_header link frame = Inr l"
  shows "length (pk_l3 l) \<le> length frame" "pk_src_mac l \<noteq> None \<longleftrightarrow> link = Ethernet" "pk_dst_mac l \<noteq> None \<longleftrightarrow> link = Ethernet"
proof -
  have "length l3 \<le> length frame" if "ethernet_l3 frame = Inr l3" for l3
  proof (cases "drop ETHERNET_HEADER_SIZE frame")
    case (Cons a as)
    then have "length frame - ETHERNET_HEADER_SIZE = Suc (length as)" by (metis length_Cons length_drop)
    with Cons that show ?thesis by (auto simp: ethernet_l3_def Let_def split: if_split_asm list.split_asm)
  qed (use that in \<open>auto simp: ethernet_l3_def Let_def split: if_split_asm\<close>)
  then show "length (pk_l3 l) \<le> length frame"
    using assms by (auto simp: parse_link_header_def result_bind_Inr_iff split: link_type.split_asm if_split_asm)
  show "pk_src_mac l \<noteq> None \<longleftrightarrow> link = Ethernet" "pk_dst_mac l \<noteq> None \<longleftrightarrow> link = Ethernet"
    using assms by (auto simp: parse_link_header_def result_bind_Inr_iff split: link_type.split_asm if_split_asm)
qed

fun parsed_typed :: "parsed_link \<Rightarrow> nat \<Rightarrow> parsed \<Rightarrow> bool" where
  "parsed_typed l n (Datagram p) \<longleftrightarrow> is_ipv4 (fst (p_source p)) = is_ipv4 (fst (p_dest p))
     \<and> p_src_mac p = pk_src_mac l \<and> p_dst_mac p = pk_dst_mac l \<and> length (p_payload p) + 28 \<le> n"
| "parsed_typed l n (Fragment f) \<longleftrightarrow> is_ipv4 (fh_source (fr_header f)) = is_ipv4 (fh_dest (fr_header f))
     \<and> fh_src_mac (fr_header f) = pk_src_mac l \<and> fh_dst_mac (fr_header f) = pk_dst_mac l \<and> length (fr_data f) + 20 \<le> n
     \<and> fh_offset (fr_header f) mod 8 = 0 \<and> fh_offset (fr_header f) < 65536 \<and> (fh_offset (fr_header f) = 0 \<longrightarrow> fh_more (fr_header f))"

lemma parse_ipv4_typed:
  assumes "parse_ipv4 l = Inr x"
  shows "parsed_typed l (length (pk_l3 l)) x"
proof -
  have small: "unat (w AND 0x1fff :: u16) < 8192" for w
    using word_and_le1 [of w "0x1fff"] by (simp add: word_le_nat_alt)
  show ?thesis
    using assms small [of "u16_of (pk_l3 l ! 6) (pk_l3 l ! 7)"]
    by (auto simp: parse_ipv4_def result_bind_def Let_def IPV4_HEADER_SIZE_def FRAGMENT_UNIT_def is_ipv4_def
        elim!: parse_datagram_typed split: sum.split_asm if_split_asm)
qed

lemma parse_ipv6_typed:
  assumes "parse_ipv6 l = Inr x"
  shows "parsed_typed l (length (pk_l3 l)) x"
proof -
  have small: "unat (drop_bit 3 w :: u16) < 8192" for w
    using unat_u16_lt [of w] by (simp add: drop_bit_eq_div unat_div_distrib less_mult_imp_div_less)
  show ?thesis
    using assms small
    by (auto simp: parse_ipv6_def result_bind_def Let_def IPV6_HEADER_SIZE_def FRAGMENT_UNIT_def IPV6_FRAGMENT_HEADER_SIZE_def is_ipv4_def
        elim!: parse_datagram_typed split: sum.split_asm if_split_asm)
qed

text \<open>C8. What a frame parses to is well formed, whatever its bytes. Source and destination are of one family; the
  link addresses are there exactly on Ethernet; the payload is no longer than the frame less its
  headers. A fragment begins on an eight-byte unit within the 64 KiB of a datagram, and is never the
  whole of it.\<close>

theorem parsed_frames_well_formed:
  assumes "parse_frame link frame = Inr x"
  shows "case x of
      Datagram p \<Rightarrow> is_ipv4 (fst (p_source p)) = is_ipv4 (fst (p_dest p))
        \<and> (p_src_mac p \<noteq> None \<longleftrightarrow> link = Ethernet) \<and> (p_dst_mac p \<noteq> None \<longleftrightarrow> link = Ethernet)
        \<and> length (p_payload p) + 28 \<le> length frame
    | Fragment f \<Rightarrow> is_ipv4 (fh_source (fr_header f)) = is_ipv4 (fh_dest (fr_header f))
        \<and> (fh_src_mac (fr_header f) \<noteq> None \<longleftrightarrow> link = Ethernet) \<and> (fh_dst_mac (fr_header f) \<noteq> None \<longleftrightarrow> link = Ethernet)
        \<and> length (fr_data f) + 20 \<le> length frame
        \<and> fh_offset (fr_header f) mod 8 = 0 \<and> fh_offset (fr_header f) < 65536
        \<and> (fh_offset (fr_header f) = 0 \<longrightarrow> fh_more (fr_header f))"
proof -
  obtain l where l: "parse_link_header link frame = Inr l" using assms by (auto simp: parse_frame_def result_bind_Inr_iff)
  have x: "parse_ipv4 l = Inr x \<or> parse_ipv6 l = Inr x"
    using assms l by (cases "pk_l3 l") (auto simp: parse_frame_def Let_def split: if_split_asm)
  have "parsed_typed l (length (pk_l3 l)) x" using x parse_ipv4_typed parse_ipv6_typed by blast
  with parse_link_typed [OF l] show ?thesis by (cases x) auto
qed

definition sample_frame :: bytes where
  "sample_frame = [0xff, 0xff, 0xff, 0xff, 0xff, 0xff, 2, 0, 0, 0, 0, 9, 8, 0] @
     [0x45, 0, 0, 30, 0, 0, 0, 0, 64, 17, 0, 0, 192, 168, 1, 2, 255, 255, 255, 255] @ [0x10, 0, 0, 9, 0, 10, 0, 0, 1, 2]"

lemma parsed_frames_well_formed_witness:
  "\<exists>p. parse_frame Ethernet sample_frame = Inr (Datagram p) \<and> length (p_payload p) = 2 \<and> length (p_payload p) + 28 \<le> length sample_frame
     \<and> p_src_mac p \<noteq> None"
proof -
  have "case parse_frame Ethernet sample_frame of Inr (Datagram p) \<Rightarrow> length (p_payload p) = 2 | _ \<Rightarrow> False" by code_simp
  then obtain p where p: "parse_frame Ethernet sample_frame = Inr (Datagram p)" "length (p_payload p) = 2"
    by (auto split: sum.split_asm parsed.split_asm)
  with parsed_frames_well_formed [OF p(1)] show ?thesis by simp
qed

end
