(* ===== verification/Linear_Map.thy ===== *)
theory Linear_Map
  imports Prelude
begin

text \<open>
  \<^verbatim>\<open>src/src/linear_map.rs\<close>: a map over a vector of pairs, scanned linearly; the reassembler, the
  search sessions and the DIAL registry keep their entries in one. The operations are translated
  onto the list of pairs, \<^verbatim>\<open>swap_remove\<close> included, so the iteration order the callers see is the
  code's. The locale \<open>keyed_store\<close> states what the clients rely on, and its interpretation
  \<open>lm\<close> discharges that contract for the list implementation with distinct keys.
\<close>

section \<open>The operations\<close>

type_synonym ('k, 'v) linear_map = "('k \<times> 'v) list"

definition lm_new :: "('k, 'v) linear_map" where
  "lm_new = []"

definition lm_get :: "('k, 'v) linear_map \<Rightarrow> 'k \<Rightarrow> 'v option" where
  "lm_get m key = map_option snd (find (\<lambda>(k, _). k = key) m)"

text \<open>\<^verbatim>\<open>get_mut\<close> lends the first matching slot for an edit \<open>f\<close>.\<close>

fun lm_get_mut :: "('k, 'v) linear_map \<Rightarrow> 'k \<Rightarrow> ('v \<Rightarrow> 'v) \<Rightarrow> ('k, 'v) linear_map" where
  "lm_get_mut [] key f = []"
| "lm_get_mut ((k, v) # m) key f = (if k = key then (k, f v) # m else (k, v) # lm_get_mut m key f)"

definition lm_insert :: "('k, 'v) linear_map \<Rightarrow> 'k \<Rightarrow> 'v \<Rightarrow> ('k, 'v) linear_map \<times> 'v option" where
  "lm_insert m key value =
     (case lm_get m key of
        Some old \<Rightarrow> (lm_get_mut m key (\<lambda>_. value), Some old)
      | None \<Rightarrow> (m @ [(key, value)], None))"

definition lm_is_empty :: "('k, 'v) linear_map \<Rightarrow> bool" where
  "lm_is_empty m = (m = [])"

definition lm_len :: "('k, 'v) linear_map \<Rightarrow> nat" where
  "lm_len m = length m"

definition lm_iter :: "('k, 'v) linear_map \<Rightarrow> ('k \<times> 'v) list" where
  "lm_iter m = m"

definition swap_remove :: "'a list \<Rightarrow> nat \<Rightarrow> 'a list" where
  "swap_remove xs i = (if Suc i = length xs then butlast xs else (butlast xs)[i := last xs])"

definition lm_remove :: "('k, 'v) linear_map \<Rightarrow> 'k \<Rightarrow> ('k, 'v) linear_map \<times> 'v option" where
  "lm_remove m key =
     (case position (\<lambda>(k, _). k = key) m of
        None \<Rightarrow> (m, None)
      | Some pos \<Rightarrow> (swap_remove m pos, Some (snd (m ! pos))))"

text \<open>\<open>keep\<close> may edit the value it looks at; it answers whether to keep it.\<close>

fun lm_retain :: "('k \<Rightarrow> 'v \<Rightarrow> bool \<times> 'v) \<Rightarrow> ('k, 'v) linear_map \<Rightarrow> ('k, 'v) linear_map" where
  "lm_retain keep [] = []"
| "lm_retain keep ((k, v) # m) =
     (case keep k v of (True, v') \<Rightarrow> (k, v') # lm_retain keep m | (False, _) \<Rightarrow> lm_retain keep m)"

definition lm_clear :: "('k, 'v) linear_map \<Rightarrow> ('k, 'v) linear_map" where
  "lm_clear m = []"

definition lm_inv :: "('k, 'v) linear_map \<Rightarrow> bool" where
  "lm_inv m \<longleftrightarrow> distinct (map fst m)"

section \<open>What the list does\<close>

lemma lm_get_map_of: "lm_get m k = map_of m k"
  by (induction m) (auto simp: lm_get_def)

lemma lm_get_mut_keys [simp]: "map fst (lm_get_mut m k f) = map fst m"
  by (induction m k f rule: lm_get_mut.induct) auto

lemma lm_get_mut_length [simp]: "length (lm_get_mut m k f) = length m"
  by (metis length_map lm_get_mut_keys)

lemma map_of_lm_get_mut: "map_of (lm_get_mut m k f) k' = (if k' = k then map_option f (map_of m k) else map_of m k')"
  by (induction m k f rule: lm_get_mut.induct) auto

lemma lm_retain_filter:
  "(\<And>k v. snd (keep k v) = v) \<Longrightarrow> lm_retain keep m = filter (\<lambda>(k, v). fst (keep k v)) m"
proof (induction m)
  case (Cons kv m)
  obtain k v where "kv = (k, v)" by (cases kv)
  moreover have "keep k v = (fst (keep k v), v)" using Cons.prems by (metis prod.collapse)
  ultimately show ?case using Cons by (cases "fst (keep k v)") simp_all
qed simp

lemma swap_remove_cases:
  assumes "i < length xs"
  obtains (last) ys where "xs = ys @ [xs ! i]" and "swap_remove xs i = ys"
  | (mid) ys zs l where "xs = ys @ xs ! i # zs @ [l]" and "swap_remove xs i = ys @ l # zs"
proof -
  have split: "xs = take i xs @ xs ! i # drop (Suc i) xs" using assms by (rule id_take_nth_drop)
  show thesis
  proof (cases "drop (Suc i) xs" rule: rev_cases)
    case Nil
    with split have xs: "xs = take i xs @ [xs ! i]" by simp
    moreover have "Suc i = length xs" using Nil assms by simp
    moreover from xs have "butlast xs = take i xs" by (metis butlast_snoc)
    ultimately show thesis by (intro last) (auto simp: swap_remove_def)
  next
    case (snoc zs l)
    with split have xs: "xs = take i xs @ xs ! i # zs @ [l]" by simp
    let ?ys = "take i xs"
    from xs have bl: "butlast xs = ?ys @ xs ! i # zs" and la: "List.last xs = l"
      by (metis append.assoc append_Cons butlast_snoc, metis append.assoc append_Cons last_snoc)
    have "length ?ys = i" using assms by simp
    then have "(butlast xs)[i := List.last xs] = ?ys @ l # zs"
      by (simp add: bl la list_update_append)
    moreover have "Suc i \<noteq> length xs" using snoc by auto
    ultimately show thesis using xs by (intro mid [of ?ys zs l]) (auto simp: swap_remove_def)
  qed
qed

lemma length_swap_remove [simp]: "i < length xs \<Longrightarrow> length (swap_remove xs i) = length xs - 1"
  by (auto simp: swap_remove_def)

lemma lm_remove_absent: "map_of m k = None \<Longrightarrow> lm_remove m k = (m, None)"
  by (auto simp: lm_remove_def position_None_iff map_of_eq_None_iff image_iff split: option.splits)

lemma lm_remove_present:
  assumes inv: "lm_inv m" and present: "map_of m k = Some v"
  obtains pos where "pos < length m" and "m ! pos = (k, v)" and "lm_remove m k = (swap_remove m pos, Some v)"
proof -
  have "position (\<lambda>(k', _). k' = k) m \<noteq> None"
    using present by (auto simp: position_None_iff dest: map_of_SomeD)
  then obtain pos where pos: "position (\<lambda>(k', _). k' = k) m = Some pos" by blast
  then have "pos < length m" and "fst (m ! pos) = k" by (auto simp: position_Some_iff)
  moreover from this inv present have "m ! pos = (k, v)"
    unfolding lm_inv_def by (metis map_of_eq_Some_iff nth_mem option.inject prod.collapse)
  ultimately show thesis using pos by (intro that) (auto simp: lm_remove_def)
qed

lemma lm_remove_map_of:
  assumes inv: "lm_inv m"
  shows "map_of (fst (lm_remove m k)) = (map_of m)(k := None)"
    and "snd (lm_remove m k) = map_of m k"
    and "lm_inv (fst (lm_remove m k))"
    and "set (fst (lm_remove m k)) \<subseteq> set m"
    and "length (fst (lm_remove m k)) = length m - (if map_of m k = None then 0 else 1)"
proof -
  have "map_of (fst (lm_remove m k)) = (map_of m)(k := None)
      \<and> snd (lm_remove m k) = map_of m k \<and> lm_inv (fst (lm_remove m k))
      \<and> set (fst (lm_remove m k)) \<subseteq> set m
      \<and> length (fst (lm_remove m k)) = length m - (if map_of m k = None then 0 else 1)"
  proof (cases "map_of m k")
    case None
    then show ?thesis using inv by (auto simp: lm_remove_absent)
  next
    case (Some v)
    then obtain pos where pos: "pos < length m" "m ! pos = (k, v)"
      and rem: "lm_remove m k = (swap_remove m pos, Some v)"
      using inv by (elim lm_remove_present)
    have "map_of (swap_remove m pos) = (map_of m)(k := None) \<and> lm_inv (swap_remove m pos)
        \<and> set (swap_remove m pos) \<subseteq> set m"
      using pos(1)
    proof (cases rule: swap_remove_cases)
      case (last ys)
      with pos(2) have m: "m = ys @ [(k, v)]" by simp
      moreover from m inv have "map_of ys k = None" by (auto simp: lm_inv_def map_of_eq_None_iff)
      ultimately show ?thesis using last(2) inv
        by (auto simp: lm_inv_def fun_eq_iff map_add_def split: option.splits)
    next
      case (mid ys zs l)
      obtain a b where l: "l = (a, b)" by (cases l)
      from mid(1) pos(2) l have m: "m = ys @ (k, v) # zs @ [(a, b)]" by simp
      from m inv have "map_of ys k = None" "map_of zs k = None" "a \<noteq> k" "map_of ys a = None" "map_of zs a = None"
        by (auto simp: lm_inv_def map_of_eq_None_iff)
      with m mid(2) l inv show ?thesis
        by (auto simp: lm_inv_def fun_eq_iff map_add_def split: option.splits)
    qed
    with rem Some pos(1) show ?thesis by simp
  qed
  then show "map_of (fst (lm_remove m k)) = (map_of m)(k := None)"
    and "snd (lm_remove m k) = map_of m k"
    and "lm_inv (fst (lm_remove m k))"
    and "set (fst (lm_remove m k)) \<subseteq> set m"
    and "length (fst (lm_remove m k)) = length m - (if map_of m k = None then 0 else 1)"
    by blast+
qed

lemma lm_insert_map_of:
  "map_of (fst (lm_insert m k v)) = (map_of m)(k \<mapsto> v)" "snd (lm_insert m k v) = map_of m k"
  by (auto simp: lm_insert_def lm_get_map_of map_of_lm_get_mut fun_eq_iff map_add_def
      split: option.splits)

lemma lm_insert_inv: "lm_inv m \<Longrightarrow> lm_inv (fst (lm_insert m k v))"
  by (auto simp: lm_inv_def lm_insert_def lm_get_map_of map_of_eq_None_iff split: option.splits)

lemma lm_insert_length:
  "length (fst (lm_insert m k v)) = length m + (if map_of m k = None then 1 else 0)"
  by (simp add: lm_insert_def lm_get_map_of split: option.splits)

lemma lm_filter_map_of:
  "lm_inv m \<Longrightarrow> map_of (filter (\<lambda>(k, v). P k v) m) k
     = (case map_of m k of Some v \<Rightarrow> if P k v then Some v else None | None \<Rightarrow> None)"
  by (induction m) (auto simp: lm_inv_def map_of_eq_None_iff image_iff split: option.splits)

lemma lm_filter_inv: "lm_inv m \<Longrightarrow> lm_inv (filter P m)"
  by (auto simp: lm_inv_def intro: distinct_map_filter)

section \<open>The contract\<close>

text \<open>
  What a client of the map relies on: a lookup after an insertion or a removal, the size each
  leaves, and that the invariant survives. The facts inside the locale are proved once from the
  contract.
\<close>

locale keyed_store =
  fixes empty :: 'm
    and lookup :: "'m \<Rightarrow> 'k \<Rightarrow> 'v option"
    and put :: "'m \<Rightarrow> 'k \<Rightarrow> 'v \<Rightarrow> 'm \<times> 'v option"
    and del :: "'m \<Rightarrow> 'k \<Rightarrow> 'm \<times> 'v option"
    and edit :: "'m \<Rightarrow> 'k \<Rightarrow> ('v \<Rightarrow> 'v) \<Rightarrow> 'm"
    and count :: "'m \<Rightarrow> nat"
    and invar :: "'m \<Rightarrow> bool"
  assumes invar_empty: "invar empty"
    and lookup_empty: "lookup empty k = None"
    and count_empty: "count empty = 0"
    and lookup_put: "lookup (fst (put m k v)) k' = (if k' = k then Some v else lookup m k')"
    and put_old: "snd (put m k v) = lookup m k"
    and invar_put: "invar m \<Longrightarrow> invar (fst (put m k v))"
    and count_put: "count (fst (put m k v)) = count m + (if lookup m k = None then 1 else 0)"
    and lookup_del: "invar m \<Longrightarrow> lookup (fst (del m k)) k' = (if k' = k then None else lookup m k')"
    and del_old: "invar m \<Longrightarrow> snd (del m k) = lookup m k"
    and invar_del: "invar m \<Longrightarrow> invar (fst (del m k))"
    and count_del: "invar m \<Longrightarrow> count (fst (del m k)) = count m - (if lookup m k = None then 0 else 1)"
    and lookup_edit: "lookup (edit m k f) k' = (if k' = k then map_option f (lookup m k) else lookup m k')"
    and invar_edit: "invar m \<Longrightarrow> invar (edit m k f)"
    and count_edit: "count (edit m k f) = count m"
    and count_positive: "lookup m k = Some v \<Longrightarrow> 0 < count m"
begin

lemma lookup_put_same: "lookup (fst (put m k v)) k = Some v"
  by (simp add: lookup_put)

lemma lookup_del_same: "invar m \<Longrightarrow> lookup (fst (del m k)) k = None"
  by (simp add: lookup_del)

lemma count_del_present: "invar m \<Longrightarrow> lookup m k = Some v \<Longrightarrow> Suc (count (fst (del m k))) = count m"
  using count_positive [of m k v] by (simp add: count_del)

lemma count_del_le: "invar m \<Longrightarrow> count (fst (del m k)) \<le> count m"
  by (simp add: count_del)

lemma put_after_del: "invar m \<Longrightarrow> lookup (fst (put (fst (del m k)) k v)) = (lookup m)(k \<mapsto> v)"
  by (simp add: fun_eq_iff lookup_put lookup_del)

text \<open>A store below its capacity stays within it: evict one entry, then insert.\<close>

lemma evict_then_put_bounded:
  "invar m \<Longrightarrow> count m \<le> cap \<Longrightarrow> 0 < cap \<Longrightarrow> (count m = cap \<Longrightarrow> lookup m victim \<noteq> None) \<Longrightarrow>
     count (fst (put (if count m = cap then fst (del m victim) else m) k v)) \<le> cap"
  using count_del_present [of m victim] by (auto simp: count_put)

end

interpretation lm: keyed_store lm_new lm_get lm_insert lm_remove lm_get_mut lm_len lm_inv
proof
  show "\<And>m (k :: 'a) (v :: 'b). lm_get m k = Some v \<Longrightarrow> 0 < lm_len m"
    by (auto simp: lm_get_map_of lm_len_def)
qed (simp_all add: lm_get_map_of lm_insert_map_of lm_remove_map_of lm_insert_inv lm_insert_length
    map_of_lm_get_mut lm_len_def, simp_all add: lm_inv_def lm_new_def)

lemma lm_get_retain:
  "lm_inv m \<Longrightarrow> lm_get (lm_retain (\<lambda>k v. (P k v, v)) m) k
     = (case lm_get m k of Some v \<Rightarrow> if P k v then Some v else None | None \<Rightarrow> None)"
  by (simp add: lm_retain_filter lm_get_map_of lm_filter_map_of)

lemma lm_retain_inv [inv_intros]: "lm_inv m \<Longrightarrow> lm_inv (lm_retain (\<lambda>k v. (P k v, v)) m)"
  by (simp add: lm_retain_filter lm_filter_inv)

lemma lm_retain_len: "lm_len (lm_retain (\<lambda>k v. (P k v, v)) m) \<le> lm_len m"
  by (simp add: lm_retain_filter lm_len_def)

lemmas lm_inv_intros [inv_intros] = lm.invar_put lm.invar_del lm.invar_edit lm.invar_empty

end
