(* ===== verification/Reassembly.thy ===== *)
theory Reassembly
  imports Packet Linear_Map
begin

text \<open>
  \<^verbatim>\<open>src/src/dispatch/reassembly.rs\<close>: the reassembly of fragmented datagrams ahead of routing. An
  \<^verbatim>\<open>Instant\<close> is a natural number of nanoseconds (\<^verbatim>\<open>duration_since\<close> saturates at zero, as subtraction
  here does); a capture key is the index the code wraps. The buffers keep their fixed sizes. The
  loop of \<^verbatim>\<open>expire\<close> is a recursion on the number of datagrams being collected.
\<close>

section \<open>State\<close>

type_synonym instant = nat
type_synonym capture_key = u32

definition SLOTS :: nat where "SLOTS = 16"
definition DISCARDS :: nat where "DISCARDS = 64"
definition EXPIRY :: nat where "EXPIRY = 2000000000"
definition BLOCKS :: nat where "BLOCKS = div_ceil MAX_DATAGRAM_LEN FRAGMENT_UNIT"

record datagram_key =
  dk_ingress :: capture_key
  dk_source :: ipaddr
  dk_dest :: ipaddr
  dk_id :: u32

datatype loss = TooLarge nat | Inconsistent | Malformed | Expired | Evicted

record lost =
  lo_ingress :: capture_key
  lo_source :: ipaddr
  lo_dest :: ipaddr
  lo_loss :: loss

definition lost_new :: "datagram_key \<Rightarrow> loss \<Rightarrow> lost" where
  "lost_new key l = \<lparr>lo_ingress = dk_ingress key, lo_source = dk_source key, lo_dest = dk_dest key, lo_loss = l\<rparr>"

record buffer =
  bf_bytes :: bytes
  bf_received :: "bool list"

definition buffer_new :: buffer where
  "buffer_new = \<lparr>bf_bytes = replicate MAX_DATAGRAM_LEN 0, bf_received = replicate BLOCKS False\<rparr>"

record reassembled =
  re_first :: fragment_header
  re_buf :: buffer
  re_len :: nat

definition reassembled_packet :: "reassembled \<Rightarrow> (parse_error fault, packet) result" where
  "reassembled_packet r = packet_reassembled (re_first r) (take (re_len r) (bf_bytes (re_buf r)))"

record collecting =
  co_buf :: buffer
  co_started :: instant
  co_len :: "nat option"
  co_first :: "fragment_header option"

definition collecting_new :: "buffer \<Rightarrow> instant \<Rightarrow> collecting" where
  "collecting_new buf started =
     \<lparr>co_buf = buf\<lparr>bf_received := map (\<lambda>_. False) (bf_received buf)\<rparr>, co_started = started, co_len = None, co_first = None\<rparr>"

section \<open>Collecting one datagram\<close>

definition collecting_add :: "collecting \<Rightarrow> fragment \<Rightarrow> (loss, collecting) result" where
  "collecting_add c fragment =
     (let offset = fh_offset (fr_header fragment);
          more = fh_more (fr_header fragment);
          data = fr_data fragment;
          stop = offset + length data
      in if (more \<and> length data mod FRAGMENT_UNIT \<noteq> 0) \<or> (offset = 0 \<and> fragment_headers fragment = None)
         then Inl Malformed
         else if stop > MAX_DATAGRAM_LEN then Inl (TooLarge stop)
         else
           let received = bf_received (co_buf c);
               first_block = offset div FRAGMENT_UNIT;
               end_block = div_ceil stop FRAGMENT_UNIT;
               ends_elsewhere =
                 (case co_len c of
                    Some len \<Rightarrow> if more then stop > len else stop \<noteq> len
                  | None \<Rightarrow> \<not> more \<and> True \<in> set (drop end_block received))
           in if ends_elsewhere \<or> True \<in> set (sub_slice first_block end_block received) then Inl Inconsistent
              else
                Inr (c\<lparr>co_buf := \<lparr>bf_bytes = write_at offset data (bf_bytes (co_buf c)),
                                   bf_received = write_at first_block (replicate (end_block - first_block) True) received\<rparr>,
                       co_len := (if \<not> more then Some stop else co_len c),
                       co_first := (if offset = 0 then Some (fr_header fragment) else co_first c)\<rparr>))"

definition is_complete :: "collecting \<Rightarrow> bool" where
  "is_complete c \<longleftrightarrow> co_first c \<noteq> None
     \<and> (case co_len c of
          None \<Rightarrow> False
        | Some len \<Rightarrow> list_all (\<lambda>got. got) (take (div_ceil len FRAGMENT_UNIT) (bf_received (co_buf c))))"

definition collecting_finish :: "collecting \<Rightarrow> reassembled option" where
  "collecting_finish c =
     (if \<not> is_complete c then None
      else (case (co_first c, co_len c) of
          (Some first, Some len) \<Rightarrow> Some \<lparr>re_first = first, re_buf = co_buf c, re_len = len\<rparr>
        | _ \<Rightarrow> None))"

section \<open>The reassembler\<close>

record reassembler =
  ra_collecting :: "(datagram_key, collecting) linear_map"
  ra_discarding :: "(datagram_key, instant) linear_map"
  ra_spare :: "buffer list"
  ra_lost :: "lost list"

definition reassembler_new :: reassembler where
  "reassembler_new = \<lparr>ra_collecting = lm_new, ra_discarding = lm_new, ra_spare = [], ra_lost = []\<rparr>"

definition discard :: "reassembler \<Rightarrow> datagram_key \<Rightarrow> instant \<Rightarrow> reassembler" where
  "discard r key now =
     (let discarding =
        (if lm_len (ra_discarding r) \<ge> DISCARDS
         then (case min_by_key snd (lm_iter (ra_discarding r)) of
             Some (oldest, _) \<Rightarrow> fst (lm_remove (ra_discarding r) oldest)
           | None \<Rightarrow> ra_discarding r)
         else ra_discarding r)
      in r\<lparr>ra_discarding := fst (lm_insert discarding key now)\<rparr>)"

definition give_up :: "reassembler \<Rightarrow> datagram_key \<Rightarrow> loss \<Rightarrow> instant \<Rightarrow> reassembler" where
  "give_up r key l now =
     (let r = (case lm_remove (ra_collecting r) key of
          (rest, Some c) \<Rightarrow> r\<lparr>ra_collecting := rest, ra_spare := ra_spare r @ [co_buf c],
                               ra_lost := ra_lost r @ [lost_new key l]\<rparr>
        | (_, None) \<Rightarrow> r)
      in discard r key now)"

definition first_expired :: "reassembler \<Rightarrow> instant \<Rightarrow> datagram_key option" where
  "first_expired r now =
     map_option fst (find (\<lambda>(_, c). now - co_started c \<ge> EXPIRY) (lm_iter (ra_collecting r)))"

lemma give_up_collecting:
  "ra_collecting (give_up r key l now) = fst (lm_remove (ra_collecting r) key)"
  by (auto simp: give_up_def discard_def Let_def lm_remove_def split: prod.splits option.splits)

lemma give_up_discarding: "ra_discarding (give_up r key l now) = ra_discarding (discard r key now)"
  by (auto simp: give_up_def discard_def Let_def split: prod.splits option.splits)

lemma lm_remove_shrinks: "(k, v) \<in> set m \<Longrightarrow> length (fst (lm_remove m k)) < length m"
proof -
  assume kv: "(k, v) \<in> set m"
  then obtain pos where pos: "position (\<lambda>(k', _). k' = k) m = Some pos"
    using position_None_iff [of "\<lambda>(k', _). k' = k" m] by (cases "position (\<lambda>(k', _). k' = k) m") auto
  then show ?thesis using kv position_less [OF pos] by (cases m) (auto simp: lm_remove_def)
qed

function expire_collecting :: "reassembler \<Rightarrow> instant \<Rightarrow> reassembler" where
  "expire_collecting r now =
     (case first_expired r now of
        None \<Rightarrow> r
      | Some key \<Rightarrow> expire_collecting (give_up r key Expired now) now)"
  by pat_completeness auto
termination
proof (relation "measure (\<lambda>(r, now). length (ra_collecting r))")
  fix r now key
  assume "first_expired r now = Some key"
  then obtain c where "(key, c) \<in> set (ra_collecting r)"
    by (auto simp: first_expired_def lm_iter_def find_Some_iff) (metis nth_mem)
  then show "((give_up r key Expired now, now), r, now) \<in> measure (\<lambda>(r, now). length (ra_collecting r))"
    by (simp add: give_up_collecting lm_remove_shrinks)
qed simp

declare expire_collecting.simps [simp del]

definition expire :: "reassembler \<Rightarrow> instant \<Rightarrow> reassembler" where
  "expire r now =
     expire_collecting
       (r\<lparr>ra_discarding := lm_retain (\<lambda>_ since. (now - since < EXPIRY, since)) (ra_discarding r)\<rparr>) now"

definition make_room :: "reassembler \<Rightarrow> instant \<Rightarrow> reassembler" where
  "make_room r now =
     (if lm_len (ra_collecting r) \<ge> SLOTS
      then (case min_by_key (\<lambda>(_, c). co_started c) (lm_iter (ra_collecting r)) of
          Some (oldest, _) \<Rightarrow> give_up r oldest Evicted now
        | None \<Rightarrow> r)
      else r)"

definition fragment_key :: "capture_key \<Rightarrow> fragment \<Rightarrow> datagram_key" where
  "fragment_key ingress fragment =
     \<lparr>dk_ingress = ingress, dk_source = fh_source (fr_header fragment), dk_dest = fh_dest (fr_header fragment),
      dk_id = fh_id (fr_header fragment)\<rparr>"

text \<open>The buffer a new datagram collects into: a spare one, last in first out, or a fresh one.\<close>

definition start_collecting :: "reassembler \<Rightarrow> datagram_key \<Rightarrow> instant \<Rightarrow> reassembler" where
  "start_collecting r key now =
     (let r = make_room r now;
          buf = (if ra_spare r = [] then buffer_new else last (ra_spare r))
      in r\<lparr>ra_spare := butlast (ra_spare r),
           ra_collecting := fst (lm_insert (ra_collecting r) key (collecting_new buf now))\<rparr>)"

text \<open>The second half of \<^verbatim>\<open>offer\<close>, once the fragment's datagram has a slot, then the whole.\<close>

definition offer_slot ::
  "reassembler \<Rightarrow> datagram_key \<Rightarrow> fragment \<Rightarrow> instant \<Rightarrow> reassembler \<times> reassembled option" where
  "offer_slot r key fragment now =
     (case lm_get (ra_collecting r) key of
        None \<Rightarrow> (r, None)
      | Some c \<Rightarrow>
          (case collecting_add c fragment of
             Inl l \<Rightarrow> (give_up r key l now, None)
           | Inr c' \<Rightarrow>
               let r = r\<lparr>ra_collecting := lm_get_mut (ra_collecting r) key (\<lambda>_. c')\<rparr> in
               if \<not> is_complete c' then (r, None)
               else (case lm_remove (ra_collecting r) key of
                   (rest, Some whole) \<Rightarrow> (r\<lparr>ra_collecting := rest\<rparr>, collecting_finish whole)
                 | (rest, None) \<Rightarrow> (r\<lparr>ra_collecting := rest\<rparr>, None))))"

definition offer ::
  "reassembler \<Rightarrow> capture_key \<Rightarrow> fragment \<Rightarrow> bool \<Rightarrow> instant \<Rightarrow> reassembler \<times> reassembled option" where
  "offer r ingress fragment wanted now =
     (let r = expire r now; key = fragment_key ingress fragment in
      if lm_get (ra_discarding r) key \<noteq> None then (r, None)
      else if \<not> wanted then
        (let r = (case lm_remove (ra_collecting r) key of
             (rest, Some c) \<Rightarrow> r\<lparr>ra_collecting := rest, ra_spare := ra_spare r @ [co_buf c]\<rparr>
           | (_, None) \<Rightarrow> r)
         in (discard r key now, None))
      else
        let r = (if lm_get (ra_collecting r) key = None then start_collecting r key now else r)
        in offer_slot r key fragment now)"

definition recycle :: "reassembler \<Rightarrow> reassembled \<Rightarrow> reassembler" where
  "recycle r d = r\<lparr>ra_spare := ra_spare r @ [re_buf d]\<rparr>"

definition drain_lost :: "reassembler \<Rightarrow> reassembler \<times> lost list" where
  "drain_lost r = (r\<lparr>ra_lost := []\<rparr>, ra_lost r)"

section \<open>The invariant\<close>

definition buffer_ok :: "buffer \<Rightarrow> bool" where
  "buffer_ok b \<longleftrightarrow> length (bf_bytes b) = MAX_DATAGRAM_LEN \<and> length (bf_received b) = BLOCKS"

text \<open>
  Distinct keys in both maps, no datagram in both, every map within its capacity, every buffer of
  its size, and no more buffers than slots.
\<close>

definition ra_inv :: "reassembler \<Rightarrow> bool" where
  "ra_inv r \<longleftrightarrow> lm_inv (ra_collecting r) \<and> lm_inv (ra_discarding r)
     \<and> fst ` set (ra_collecting r) \<inter> fst ` set (ra_discarding r) = {}
     \<and> length (ra_collecting r) + length (ra_spare r) \<le> SLOTS
     \<and> length (ra_discarding r) \<le> DISCARDS
     \<and> (\<forall>kc \<in> set (ra_collecting r). buffer_ok (co_buf (snd kc))) \<and> (\<forall>b \<in> set (ra_spare r). buffer_ok b)"

lemma ra_inv_new: "ra_inv reassembler_new"
  by (simp add: ra_inv_def reassembler_new_def lm_new_def lm_inv_def)

lemma buffer_new_ok [simp]: "buffer_ok buffer_new"
  by (simp add: buffer_ok_def buffer_new_def)

lemma collecting_new_ok: "buffer_ok buf \<Longrightarrow> buffer_ok (co_buf (collecting_new buf now))"
  by (simp add: buffer_ok_def collecting_new_def)

lemma lm_keys_get: "k \<in> fst ` set m \<longleftrightarrow> lm_get m k \<noteq> None"
  by (auto simp: lm_get_map_of map_of_eq_None_iff)

text \<open>Discarding: at most the capacity, the new key in, and otherwise only keys that were there.\<close>

lemma discard_facts:
  assumes "lm_inv (ra_discarding r)" and "length (ra_discarding r) \<le> DISCARDS"
  shows "lm_inv (ra_discarding (discard r key now))" and "length (ra_discarding (discard r key now)) \<le> DISCARDS"
    and "lm_get (ra_discarding (discard r key now)) key = Some now"
    and "lm_get (ra_discarding (discard r key now)) k = Some t \<Longrightarrow> k = key \<or> lm_get (ra_discarding r) k = Some t"
proof -
  let ?m = "ra_discarding r"
  define m' where "m' = (if lm_len ?m \<ge> DISCARDS then (case min_by_key snd (lm_iter ?m) of
      Some (oldest, _) \<Rightarrow> fst (lm_remove ?m oldest) | None \<Rightarrow> ?m) else ?m)"
  have d: "ra_discarding (discard r key now) = fst (lm_insert m' key now)"
    by (simp add: discard_def m'_def Let_def)
  have m': "lm_inv m' \<and> length m' < DISCARDS \<and> (\<forall>k t. lm_get m' k = Some t \<longrightarrow> lm_get ?m k = Some t)"
  proof (cases "lm_len ?m \<ge> DISCARDS")
    case False
    with assms show ?thesis by (simp add: m'_def lm_len_def)
  next
    case True
    then have "?m \<noteq> []" by (auto simp: lm_len_def DISCARDS_def)
    then obtain oldest t where o: "min_by_key snd ?m = Some (oldest, t)"
      by (cases "min_by_key snd ?m") auto
    then have "(oldest, t) \<in> set ?m" by (rule min_by_key_in)
    then have "length (fst (lm_remove ?m oldest)) < length ?m" by (rule lm_remove_shrinks)
    with True o assms show ?thesis
      by (auto simp: m'_def lm_iter_def lm.invar_del lm.lookup_del split: if_splits)
  qed
  show "lm_inv (ra_discarding (discard r key now))" using m' by (simp add: d lm.invar_put)
  show "length (ra_discarding (discard r key now)) \<le> DISCARDS"
    using m' by (simp add: d lm_insert_length)
  show "lm_get (ra_discarding (discard r key now)) key = Some now" by (simp add: d lm.lookup_put)
  show "lm_get (ra_discarding (discard r key now)) k = Some t \<Longrightarrow> k = key \<or> lm_get ?m k = Some t"
    using m' by (auto simp: d lm.lookup_put split: if_splits)
qed

lemma discard_other [simp]:
  "ra_collecting (discard r key now) = ra_collecting r" "ra_spare (discard r key now) = ra_spare r"
  "ra_lost (discard r key now) = ra_lost r"
  by (simp_all add: discard_def Let_def)

lemma discard_inv [inv_intros]:
  assumes inv: "ra_inv r" and absent: "lm_get (ra_collecting r) key = None"
  shows "ra_inv (discard r key now)"
proof -
  note facts = discard_facts [of r key now] and i = inv [unfolded ra_inv_def]
  have "fst ` set (ra_collecting r) \<inter> fst ` set (ra_discarding (discard r key now)) = {}"
  proof -
    have "k \<notin> fst ` set (ra_discarding (discard r key now))" if "k \<in> fst ` set (ra_collecting r)" for k
      using that absent facts(4) [of k] i unfolding lm_keys_get by (fastforce simp: lm_keys_get disjoint_iff)
    then show ?thesis by blast
  qed
  with facts i show ?thesis by (simp add: ra_inv_def)
qed

lemma lm_remove_pair: "lm_inv m \<Longrightarrow> lm_remove m k = (fst (lm_remove m k), lm_get m k)"
  by (metis lm.del_old prod.collapse)

lemma release_inv:
  assumes inv: "ra_inv r" and c: "lm_get (ra_collecting r) key = Some c"
  shows "ra_inv (r\<lparr>ra_collecting := fst (lm_remove (ra_collecting r) key), ra_spare := ra_spare r @ [co_buf c]\<rparr>)"
proof -
  let ?m = "ra_collecting r"
  have m: "lm_inv ?m" using inv by (simp add: ra_inv_def)
  have sub: "set (fst (lm_remove ?m key)) \<subseteq> set ?m" using lm_remove_map_of(4) [OF m] .
  have "Suc (length (fst (lm_remove ?m key))) = length ?m"
    using lm.count_del_present [OF m c] by (simp add: lm_len_def)
  moreover have "buffer_ok (co_buf c)"
    using inv c by (force simp: ra_inv_def lm_get_map_of dest: map_of_SomeD)
  ultimately show ?thesis
    using inv sub lm.invar_del [OF m, of key] by (auto simp: ra_inv_def disjoint_iff image_iff)
qed

lemma ra_inv_lost [simp]: "ra_inv (r\<lparr>ra_lost := l\<rparr>) = ra_inv r"
  by (simp add: ra_inv_def)

lemma give_up_unfold:
  assumes "lm_inv (ra_collecting r)"
  shows "give_up r key l now = (case lm_get (ra_collecting r) key of
      None \<Rightarrow> discard r key now
    | Some c \<Rightarrow> discard (r\<lparr>ra_collecting := fst (lm_remove (ra_collecting r) key),
        ra_spare := ra_spare r @ [co_buf c], ra_lost := ra_lost r @ [lost_new key l]\<rparr>) key now)"
  unfolding give_up_def by (subst lm_remove_pair [OF assms]) (simp add: Let_def split: option.split)

lemma give_up_inv [inv_intros]:
  assumes inv: "ra_inv r"
  shows "ra_inv (give_up r key l now)"
proof -
  have m: "lm_inv (ra_collecting r)" using inv by (simp add: ra_inv_def)
  show ?thesis
  proof (cases "lm_get (ra_collecting r) key")
    case None
    then show ?thesis using discard_inv [OF inv] by (simp add: give_up_unfold [OF m])
  next
    case (Some c)
    have "ra_inv (r\<lparr>ra_collecting := fst (lm_remove (ra_collecting r) key),
        ra_spare := ra_spare r @ [co_buf c], ra_lost := ra_lost r @ [lost_new key l]\<rparr>)"
      using release_inv [OF inv Some] by (simp add: ra_inv_def)
    then show ?thesis
      unfolding give_up_unfold [OF m] Some by (simp add: discard_inv lm.lookup_del_same [OF m])
  qed
qed

lemma give_up_spare:
  assumes "ra_inv r"
  shows "length (ra_collecting (give_up r key l now)) + length (ra_spare (give_up r key l now))
    = length (ra_collecting r) + length (ra_spare r)"
proof -
  have m: "lm_inv (ra_collecting r)" using assms by (simp add: ra_inv_def)
  show ?thesis
    using lm.count_del_present [OF m, of key]
    by (auto simp: give_up_unfold [OF m] lm_len_def split: option.split)
qed

lemma expire_collecting_inv: "ra_inv r \<Longrightarrow> ra_inv (expire_collecting r now)"
proof (induction r now rule: expire_collecting.induct)
  case (1 r now)
  then show ?case by (subst expire_collecting.simps) (auto intro: give_up_inv split: option.split)
qed

lemma retain_discarding_inv:
  "ra_inv r \<Longrightarrow> ra_inv (r\<lparr>ra_discarding := lm_retain (\<lambda>_ since. (P since, since)) (ra_discarding r)\<rparr>)"
proof -
  assume inv: "ra_inv r"
  have sub: "set (lm_retain (\<lambda>_ since. (P since, since)) (ra_discarding r)) \<subseteq> set (ra_discarding r)"
    by (subst lm_retain_filter) auto
  have "length (lm_retain (\<lambda>_ since. (P since, since)) (ra_discarding r)) \<le> length (ra_discarding r)"
    using lm_retain_len [of "\<lambda>_. P" "ra_discarding r"] by (simp add: lm_len_def)
  with inv sub lm_retain_inv [of "ra_discarding r" "\<lambda>_. P"] show ?thesis
    by (auto simp: ra_inv_def)
qed

lemma expire_inv [inv_intros]: "ra_inv r \<Longrightarrow> ra_inv (expire r now)"
  unfolding expire_def by (intro expire_collecting_inv retain_discarding_inv)

lemma make_room_inv [inv_intros]: "ra_inv r \<Longrightarrow> ra_inv (make_room r now)"
  by (auto simp: make_room_def intro: give_up_inv split: option.split)

lemma make_room_free:
  assumes inv: "ra_inv r"
  shows "length (ra_collecting (make_room r now)) < SLOTS"
proof (cases "lm_len (ra_collecting r) \<ge> SLOTS")
  case False
  then show ?thesis by (simp add: make_room_def lm_len_def)
next
  case True
  let ?f = "\<lambda>(_ :: datagram_key, c). co_started c"
  have "ra_collecting r \<noteq> []" using True by (auto simp: lm_len_def SLOTS_def)
  then obtain k c where k: "min_by_key ?f (ra_collecting r) = Some (k, c)"
    by (cases "min_by_key ?f (ra_collecting r)") auto
  then have "(k, c) \<in> set (ra_collecting r)" by (rule min_by_key_in)
  then have "length (fst (lm_remove (ra_collecting r) k)) < length (ra_collecting r)" by (rule lm_remove_shrinks)
  with True k inv show ?thesis
    by (auto simp: make_room_def lm_iter_def give_up_collecting ra_inv_def)
qed

text \<open>Giving up on one datagram says nothing of another.\<close>

lemma give_up_keeps:
  assumes inv: "ra_inv r" and "k \<noteq> key"
  shows "lm_get (ra_collecting (give_up r k l now)) key = lm_get (ra_collecting r) key"
    and "lm_get (ra_discarding r) key = None \<Longrightarrow> lm_get (ra_discarding (give_up r k l now)) key = None"
proof -
  have m: "lm_inv (ra_collecting r)" using inv by (simp add: ra_inv_def)
  show "lm_get (ra_collecting (give_up r k l now)) key = lm_get (ra_collecting r) key"
    using assms(2) by (simp add: give_up_collecting lm.lookup_del [OF m])
  assume d: "lm_get (ra_discarding r) key = None"
  show "lm_get (ra_discarding (give_up r k l now)) key = None"
  proof (rule ccontr)
    assume "lm_get (ra_discarding (give_up r k l now)) key \<noteq> None"
    then obtain t where "lm_get (ra_discarding (discard r k now)) key = Some t" by (auto simp: give_up_discarding)
    with inv assms(2) d discard_facts(4) [of r k now key t] show False by (auto simp: ra_inv_def)
  qed
qed

lemma make_room_subset:
  assumes inv: "ra_inv r" and c: "lm_get (ra_collecting r) key = None" and d: "lm_get (ra_discarding r) key = None"
  shows "lm_get (ra_collecting (make_room r now)) key = None" and "lm_get (ra_discarding (make_room r now)) key = None"
proof -
  have "k \<noteq> key" if "(k, v) \<in> set (ra_collecting r)" for k v
    using that c lm_keys_get [of key "ra_collecting r"] by force
  note keep = give_up_keeps [OF inv this] and pick = min_by_key_in [of "\<lambda>(_, c). co_started c" "ra_collecting r"]
  show "lm_get (ra_collecting (make_room r now)) key = None"
    using c keep(1) pick by (auto simp: make_room_def lm_iter_def split: option.split)
  show "lm_get (ra_discarding (make_room r now)) key = None"
    using d keep(2) pick by (auto simp: make_room_def lm_iter_def split: option.split)
qed

lemma start_collecting_facts:
  assumes inv: "ra_inv r" and c: "lm_get (ra_collecting r) key = None" and d: "lm_get (ra_discarding r) key = None"
  shows "ra_inv (start_collecting r key now)"
    and "\<exists>buf. buffer_ok buf \<and> lm_get (ra_collecting (start_collecting r key now)) key = Some (collecting_new buf now)"
    and "lm_get (ra_discarding (start_collecting r key now)) key = None"
proof -
  let ?r = "make_room r now"
  let ?buf = "if ra_spare ?r = [] then buffer_new else last (ra_spare ?r)"
  have i: "ra_inv ?r" using inv by (rule make_room_inv)
  note free = make_room_free [OF inv, of now] and gone = make_room_subset [OF assms, of now]
  have buf: "buffer_ok ?buf" using i by (auto simp: ra_inv_def)
  let ?m = "fst (lm_insert (ra_collecting ?r) key (collecting_new ?buf now))"
  have m: "?m = ra_collecting ?r @ [(key, collecting_new ?buf now)]"
    using gone(1) by (simp add: lm_insert_def)
  have r: "start_collecting r key now = ?r\<lparr>ra_spare := butlast (ra_spare ?r), ra_collecting := ?m\<rparr>"
    by (simp add: start_collecting_def Let_def)
  have "lm_inv ?m" using i by (simp add: ra_inv_def lm.invar_put)
  moreover have "fst ` set ?m \<inter> fst ` set (ra_discarding ?r) = {}"
    using i gone(2) lm_keys_get [of key "ra_discarding ?r"] by (auto simp: m ra_inv_def)
  moreover have "length ?m + length (butlast (ra_spare ?r)) \<le> SLOTS"
    using i free by (auto simp: m ra_inv_def)
  moreover have "\<forall>b \<in> set (butlast (ra_spare ?r)). buffer_ok b" using i by (auto simp: ra_inv_def dest: in_set_butlastD)
  ultimately show "ra_inv (start_collecting r key now)"
    using i collecting_new_ok [OF buf] by (auto simp: r ra_inv_def m)
  show "\<exists>buf. buffer_ok buf \<and> lm_get (ra_collecting (start_collecting r key now)) key = Some (collecting_new buf now)"
    using buf by (auto simp: r lm.lookup_put)
  show "lm_get (ra_discarding (start_collecting r key now)) key = None" using gone by (simp add: r)
qed

lemma collecting_add_ok:
  assumes "buffer_ok (co_buf c)" and "collecting_add c f = Inr c'"
  shows "buffer_ok (co_buf c')"
proof -
  let ?stop = "fh_offset (fr_header f) + length (fr_data f)"
  have "?stop \<le> MAX_DATAGRAM_LEN" using assms(2) by (auto simp: collecting_add_def Let_def split: if_splits)
  moreover have "div_ceil ?stop FRAGMENT_UNIT \<le> BLOCKS"
    using calculation div_ceil_le_iff [of 8 ?stop 1125] div_ceil_le_iff [of 8 9000 1125]
    by (simp add: BLOCKS_def net_sizes div_ceil_def)
  moreover have "fh_offset (fr_header f) div FRAGMENT_UNIT \<le> div_ceil ?stop FRAGMENT_UNIT"
    by (auto simp: div_ceil_def net_sizes intro: div_le_mono le_SucI)
  ultimately show ?thesis
    using assms by (auto simp: collecting_add_def Let_def buffer_ok_def split: if_splits)
qed

lemma lm_get_mut_set: "set (lm_get_mut m k (\<lambda>_. v)) \<subseteq> insert (k, v) (set m)"
proof (induction m)
  case (Cons x m)
  then show ?case by (cases x) auto
qed simp

lemma edit_inv:
  assumes inv: "ra_inv r" and c': "buffer_ok (co_buf c')"
  shows "ra_inv (r\<lparr>ra_collecting := lm_get_mut (ra_collecting r) key (\<lambda>_. c')\<rparr>)"
proof -
  let ?m = "lm_get_mut (ra_collecting r) key (\<lambda>_. c')"
  have "fst ` set ?m = fst ` set (ra_collecting r)" by (metis list.set_map lm_get_mut_keys)
  moreover have "\<forall>kc \<in> set ?m. buffer_ok (co_buf (snd kc))"
    using inv c' lm_get_mut_set [of "ra_collecting r" key c'] by (auto simp: ra_inv_def)
  ultimately show ?thesis
    using inv lm.invar_edit [of "ra_collecting r"] by (simp add: ra_inv_def)
qed

lemma offer_slot_Some:
  assumes inv: "ra_inv r" and c: "lm_get (ra_collecting r) key = Some c"
  shows "offer_slot r key f now =
    (case collecting_add c f of
       Inl l \<Rightarrow> (give_up r key l now, None)
     | Inr c' \<Rightarrow>
         if \<not> is_complete c' then (r\<lparr>ra_collecting := lm_get_mut (ra_collecting r) key (\<lambda>_. c')\<rparr>, None)
         else (r\<lparr>ra_collecting := fst (lm_remove (lm_get_mut (ra_collecting r) key (\<lambda>_. c')) key)\<rparr>,
               collecting_finish c'))"
proof -
  have "snd (lm_remove (lm_get_mut (ra_collecting r) key (\<lambda>_. c')) key) = Some c'" for c'
    using inv c by (simp add: ra_inv_def lm.del_old lm.invar_edit lm.lookup_edit)
  then show ?thesis
    unfolding offer_slot_def c by (simp add: Let_def case_prod_beta split: sum.split option.split)
qed

lemma collecting_finish_Some: "is_complete c \<Longrightarrow> \<exists>first len. co_first c = Some first \<and> co_len c = Some len
    \<and> collecting_finish c = Some \<lparr>re_first = first, re_buf = co_buf c, re_len = len\<rparr>"
  by (auto simp: collecting_finish_def is_complete_def split: option.splits)

lemma offer_slot_inv:
  assumes inv: "ra_inv r" and o: "offer_slot r key f now = (r', res)"
  shows "ra_inv r' \<and> (case res of None \<Rightarrow> True | Some d \<Rightarrow> ra_inv (recycle r' d))"
proof (cases "lm_get (ra_collecting r) key")
  case None
  with o inv show ?thesis by (auto simp: offer_slot_def)
next
  case (Some c)
  have ok: "buffer_ok (co_buf c)" using inv Some by (force simp: ra_inv_def lm_get_map_of dest: map_of_SomeD)
  show ?thesis
  proof (cases "collecting_add c f")
    case (Inl l)
    with o give_up_inv [OF inv, of key l now] show ?thesis by (auto simp: offer_slot_Some [OF inv Some])
  next
    case (Inr c')
    let ?r = "r\<lparr>ra_collecting := lm_get_mut (ra_collecting r) key (\<lambda>_. c')\<rparr>"
    have i: "ra_inv ?r" using edit_inv [OF inv collecting_add_ok [OF ok Inr]] .
    have c': "lm_get (ra_collecting ?r) key = Some c'" using Some by (simp add: lm.lookup_edit)
    show ?thesis
    proof (cases "is_complete c'")
      case False
      with o Inr i show ?thesis by (auto simp: offer_slot_Some [OF inv Some])
    next
      case True
      then obtain first len where "collecting_finish c' = Some \<lparr>re_first = first, re_buf = co_buf c', re_len = len\<rparr>"
        using collecting_finish_Some by blast
      with o Inr True have "r' = ?r\<lparr>ra_collecting := fst (lm_remove (ra_collecting ?r) key)\<rparr>"
        and "res = Some \<lparr>re_first = first, re_buf = co_buf c', re_len = len\<rparr>"
        by (auto simp: offer_slot_Some [OF inv Some])
      moreover note release_inv [OF i c']
      ultimately show ?thesis by (auto simp: recycle_def ra_inv_def)
    qed
  qed
qed

text \<open>C17. The reassembler's invariant holds initially and survives every offer of a fragment, and the
  return of the buffer an offer lends out: at most 16 datagrams being collected and 64 remembered
  as dropped, none in both, never more than 16 buffers, each of its full size.\<close>

theorem offer_keeps_invariant:
  assumes inv: "ra_inv r" and o: "offer r ingress f wanted now = (r', res)"
  shows "ra_inv reassembler_new \<and> ra_inv r' \<and> (case res of None \<Rightarrow> True | Some d \<Rightarrow> ra_inv (recycle r' d))"
proof -
  let ?r = "expire r now" let ?key = "fragment_key ingress f"
  have i: "ra_inv ?r" using inv by (rule expire_inv)
  then have m: "lm_inv (ra_collecting ?r)" by (simp add: ra_inv_def)
  consider "lm_get (ra_discarding ?r) ?key \<noteq> None" | (unwanted) "lm_get (ra_discarding ?r) ?key = None" "\<not> wanted"
    | (wanted) "lm_get (ra_discarding ?r) ?key = None" "wanted" by blast
  then show ?thesis
  proof cases
    case 1
    with o i ra_inv_new show ?thesis by (auto simp: offer_def Let_def)
  next
    case unwanted
    let ?q = "case lm_remove (ra_collecting ?r) ?key of
        (rest, Some c) \<Rightarrow> ?r\<lparr>ra_collecting := rest, ra_spare := ra_spare ?r @ [co_buf c]\<rparr> | (_, None) \<Rightarrow> ?r"
    have "ra_inv ?q \<and> lm_get (ra_collecting ?q) ?key = None"
      by (subst lm_remove_pair [OF m], subst (2) lm_remove_pair [OF m])
         (use i release_inv [OF i] lm.lookup_del_same [OF m] in \<open>auto split: option.split\<close>)
    with discard_inv have "ra_inv (discard ?q ?key now)" by blast
    with o unwanted ra_inv_new show ?thesis by (auto simp: offer_def Let_def)
  next
    case wanted
    let ?q = "if lm_get (ra_collecting ?r) ?key = None then start_collecting ?r ?key now else ?r"
    have "ra_inv ?q" using i start_collecting_facts(1) [OF i _ wanted(1)] by simp
    moreover have "offer_slot ?q ?key f now = (r', res)" using o wanted by (simp add: offer_def Let_def)
    ultimately show ?thesis using offer_slot_inv ra_inv_new by blast
  qed
qed

lemma offer_keeps_invariant_witness:
  "ra_inv (fst (offer reassembler_new 0 \<lparr>fr_header = \<lparr>fh_source = V4 1, fh_dest = V4 2, fh_id = 7, fh_offset = 8,
      fh_more = True, fh_ttl = 255, fh_dst_mac = None, fh_src_mac = None\<rparr>, fr_data = replicate 8 0\<rparr> True 5))"
  using offer_keeps_invariant [OF ra_inv_new prod.collapse [symmetric]] by blast

section \<open>Pieces of a datagram\<close>

abbreviation frag_off :: "fragment \<Rightarrow> nat" where "frag_off f \<equiv> fh_offset (fr_header f)"
abbreviation frag_more :: "fragment \<Rightarrow> bool" where "frag_more f \<equiv> fh_more (fr_header f)"

definition frag_stop :: "fragment \<Rightarrow> nat" where
  "frag_stop f = frag_off f + length (fr_data f)"

text \<open>A fragment a sender may cut from the datagram \<open>d\<close>.\<close>

definition piece_of :: "bytes \<Rightarrow> fragment \<Rightarrow> bool" where
  "piece_of d f \<longleftrightarrow> frag_off f mod 8 = 0 \<and> frag_stop f \<le> length d \<and> fr_data f = sub_slice (frag_off f) (frag_stop f) d
     \<and> fr_data f \<noteq> [] \<and> (frag_more f \<longleftrightarrow> frag_stop f < length d) \<and> (frag_more f \<longrightarrow> length (fr_data f) mod 8 = 0)
     \<and> (frag_off f = 0 \<longrightarrow> 8 \<le> length (fr_data f))"

definition apart :: "fragment \<Rightarrow> fragment \<Rightarrow> bool" where
  "apart f g \<longleftrightarrow> frag_stop f \<le> frag_off g \<or> frag_stop g \<le> frag_off f"

definition covers :: "fragment set \<Rightarrow> bytes \<Rightarrow> bool" where
  "covers F d \<longleftrightarrow> (\<forall>j < length d. \<exists>f \<in> F. frag_off f \<le> j \<and> j < frag_stop f)"

definition blocks_of :: "fragment \<Rightarrow> nat set" where
  "blocks_of f = {frag_off f div 8 ..< div_ceil (frag_stop f) 8}"

text \<open>What a slot holds after the pieces \<open>F\<close> of \<open>d\<close> have arrived.\<close>

definition progress :: "bytes \<Rightarrow> fragment set \<Rightarrow> collecting \<Rightarrow> bool" where
  "progress d F c \<longleftrightarrow> buffer_ok (co_buf c)
     \<and> (\<forall>b < BLOCKS. bf_received (co_buf c) ! b \<longleftrightarrow> (\<exists>f \<in> F. b \<in> blocks_of f))
     \<and> (\<forall>f \<in> F. sub_slice (frag_off f) (frag_stop f) (bf_bytes (co_buf c)) = fr_data f)
     \<and> co_len c = (if \<exists>f \<in> F. \<not> frag_more f then Some (length d) else None)
     \<and> (co_first c = None \<longleftrightarrow> (\<forall>f \<in> F. frag_off f \<noteq> 0))
     \<and> (\<forall>h. co_first c = Some h \<longrightarrow> (\<exists>f \<in> F. frag_off f = 0 \<and> fr_header f = h))"

lemma BLOCKS_eq: "BLOCKS = 1125"
  by (simp add: BLOCKS_def net_sizes div_ceil_def)

lemma progress_new: "buffer_ok buf \<Longrightarrow> progress d {} (collecting_new buf now)"
  by (simp add: progress_def collecting_new_def buffer_ok_def)

lemma piece_block_bound: "piece_of d f \<Longrightarrow> length d \<le> 9000 \<Longrightarrow> div_ceil (frag_stop f) 8 \<le> BLOCKS"
  by (auto simp: BLOCKS_eq div_ceil_le_iff piece_of_def)

lemma in_blocks_iff: "frag_off f mod 8 = 0 \<Longrightarrow> b \<in> blocks_of f \<longleftrightarrow> frag_off f \<le> b * 8 \<and> b * 8 < frag_stop f"
  by (auto simp: blocks_of_def less_div_ceil_iff)

lemma apart_blocks:
  assumes "piece_of d f" "piece_of d g" "apart f g"
  shows "blocks_of f \<inter> blocks_of g = {}"
  using assms by (fastforce simp: piece_of_def apart_def in_blocks_iff)

lemma fragment_headers_piece: "piece_of d f \<Longrightarrow> frag_off f = 0 \<Longrightarrow> fragment_headers f \<noteq> None"
proof -
  assume "piece_of d f" "frag_off f = 0"
  then have "8 \<le> length (fr_data f)" unfolding piece_of_def by blast
  with \<open>frag_off f = 0\<close> show ?thesis by (simp add: fragment_headers_def UDP_HEADER_SIZE_def)
qed

lemma in_sub_slice: "b \<le> length xs \<Longrightarrow> x \<in> set (sub_slice a b xs) \<longleftrightarrow> (\<exists>i. a \<le> i \<and> i < b \<and> xs ! i = x)"
proof -
  assume b: "b \<le> length xs"
  have "x \<in> set (sub_slice a b xs) \<longleftrightarrow> (\<exists>k < b - a. sub_slice a b xs ! k = x)"
    using b by (auto simp: in_set_conv_nth)
  also have "\<dots> \<longleftrightarrow> (\<exists>k < b - a. xs ! (a + k) = x)" using b by (auto simp: nth_sub_slice)
  also have "\<dots> \<longleftrightarrow> (\<exists>i. a \<le> i \<and> i < b \<and> xs ! i = x)"
  proof
    assume "\<exists>k < b - a. xs ! (a + k) = x"
    then obtain k where "k < b - a" "xs ! (a + k) = x" by blast
    then show "\<exists>i. a \<le> i \<and> i < b \<and> xs ! i = x" by (intro exI [of _ "a + k"]) auto
  next
    assume "\<exists>i. a \<le> i \<and> i < b \<and> xs ! i = x"
    then obtain i where "a \<le> i" "i < b" "xs ! i = x" by blast
    then show "\<exists>k < b - a. xs ! (a + k) = x" by (intro exI [of _ "i - a"]) auto
  qed
  finally show ?thesis .
qed

text \<open>A piece apart from those already in is accepted, and the slot then holds it too.\<close>

lemma collecting_add_piece:
  assumes prog: "progress d F c" and f: "piece_of d f" and F: "\<forall>g \<in> F. piece_of d g \<and> apart f g"
    and d: "length d \<le> 9000"
  shows "\<exists>c'. collecting_add c f = Inr c' \<and> progress d (insert f F) c' \<and> co_started c' = co_started c"
proof -
  let ?off = "frag_off f" let ?stop = "frag_stop f" let ?rec = "bf_received (co_buf c)"
  let ?b = "?off div 8" let ?e = "div_ceil ?stop 8"
  have buf: "length (bf_bytes (co_buf c)) = 9000" "length ?rec = 1125"
    using prog by (simp_all add: progress_def buffer_ok_def net_sizes BLOCKS_eq)
  have e: "?e \<le> 1125" using piece_block_bound [OF f d] by (simp add: BLOCKS_eq)
  have be: "?b \<le> ?e" by (auto simp: div_ceil_def frag_stop_def intro: div_le_mono le_SucI)
  have rec: "?rec ! b \<longleftrightarrow> (\<exists>g \<in> F. b \<in> blocks_of g)" if "b < 1125" for b
    using prog that by (simp add: progress_def BLOCKS_eq)
  have free: "True \<notin> set (sub_slice ?b ?e ?rec)"
  proof
    assume "True \<in> set (sub_slice ?b ?e ?rec)"
    then obtain i where "?b \<le> i" "i < ?e" "?rec ! i" using e buf by (auto simp: in_sub_slice)
    with rec e obtain g where "g \<in> F" "i \<in> blocks_of g" by auto
    moreover have "i \<in> blocks_of f" using \<open>?b \<le> i\<close> \<open>i < ?e\<close> by (simp add: blocks_of_def)
    ultimately show False using apart_blocks [OF f] F by blast
  qed
  have tail: "True \<notin> set (drop ?e ?rec)" if "\<not> frag_more f"
  proof
    assume "True \<in> set (drop ?e ?rec)"
    then obtain i where i: "?e \<le> i" "i < 1125" "?rec ! i"
      using buf e by (auto simp: in_set_conv_nth) (metis add.commute le_add1 less_diff_conv)
    then obtain g where "g \<in> F" "i \<in> blocks_of g" using rec by auto
    then have "i * 8 < length d" using F by (fastforce simp: in_blocks_iff piece_of_def)
    moreover have "length d \<le> i * 8" using i(1) f that by (simp add: div_ceil_le_iff piece_of_def)
    ultimately show False by simp
  qed
  have len: "co_len c = Some n \<Longrightarrow> n = length d" for n
    using prog by (auto simp: progress_def split: if_splits)
  let ?c = "c\<lparr>co_buf := \<lparr>bf_bytes = write_at ?off (fr_data f) (bf_bytes (co_buf c)),
        bf_received = write_at ?b (replicate (?e - ?b) True) ?rec\<rparr>,
      co_len := (if \<not> frag_more f then Some ?stop else co_len c),
      co_first := (if ?off = 0 then Some (fr_header f) else co_first c)\<rparr>"
  have "collecting_add c f = Inr ?c"
    using f d free tail len fragment_headers_piece [OF f]
    unfolding collecting_add_def Let_def net_sizes frag_stop_def [symmetric]
    by (auto simp: piece_of_def split: option.splits)
  moreover have "progress d (insert f F) ?c"
    unfolding progress_def
  proof (intro conjI allI ballI impI)
    have fits: "?off + length (fr_data f) \<le> 9000" using f d by (simp add: piece_of_def frag_stop_def)
    show "buffer_ok (co_buf ?c)"
      using buf fits e be by (simp add: buffer_ok_def net_sizes BLOCKS_eq)
    show "bf_received (co_buf ?c) ! b \<longleftrightarrow> (\<exists>g \<in> insert f F. b \<in> blocks_of g)" if "b < BLOCKS" for b
    proof -
      have "bf_received (co_buf ?c) ! b \<longleftrightarrow> ?b \<le> b \<and> b < ?e \<or> ?rec ! b"
        using that e be buf by (auto simp: nth_write_at BLOCKS_eq)
      then show ?thesis using rec [of b] that by (auto simp: blocks_of_def BLOCKS_eq)
    qed
    show "sub_slice (frag_off g) (frag_stop g) (bf_bytes (co_buf ?c)) = fr_data g" if "g \<in> insert f F" for g
    proof (cases "g = f")
      case True
      then show ?thesis using buf fits slice_write_at_same [of ?off "fr_data f"] by (simp add: frag_stop_def)
    next
      case False
      with that F d have g: "g \<in> F" "apart f g" "frag_stop g \<le> 9000" by (auto simp: piece_of_def)
      then have "frag_stop g \<le> ?off \<or> ?off + length (fr_data f) \<le> frag_off g" by (auto simp: apart_def frag_stop_def)
      then have "sub_slice (frag_off g) (frag_stop g) (bf_bytes (co_buf ?c))
          = sub_slice (frag_off g) (frag_stop g) (bf_bytes (co_buf c))"
        using g fits buf by (simp add: slice_write_at_other)
      with g(1) prog show ?thesis by (simp add: progress_def)
    qed
    show "co_len ?c = (if \<exists>g \<in> insert f F. \<not> frag_more g then Some (length d) else None)"
      using f prog by (auto simp: piece_of_def progress_def)
    show "co_first ?c = None \<longleftrightarrow> (\<forall>g \<in> insert f F. frag_off g \<noteq> 0)"
      using prog by (auto simp: progress_def)
    show "\<exists>g \<in> insert f F. frag_off g = 0 \<and> fr_header g = h" if "co_first ?c = Some h" for h
      using prog that by (auto simp: progress_def split: if_splits)
  qed
  ultimately show ?thesis by auto
qed

lemma piece_reaches: "piece_of d f \<Longrightarrow> j < length d \<Longrightarrow> j div 8 * 8 < frag_stop f \<Longrightarrow> j < frag_stop f"
proof (cases "frag_more f")
  case True
  assume "piece_of d f" "j div 8 * 8 < frag_stop f"
  then have "8 dvd frag_stop f" using True unfolding piece_of_def frag_stop_def by (metis dvd_add mod_0_imp_dvd)
  then obtain k where "frag_stop f = 8 * k" by (elim dvdE)
  with \<open>j div 8 * 8 < frag_stop f\<close> show "j < frag_stop f" by simp
next
  case False
  assume "piece_of d f" "j < length d"
  with False show "j < frag_stop f" unfolding piece_of_def by linarith
qed

lemma progress_complete:
  assumes prog: "progress d F c" and F: "\<forall>g \<in> F. piece_of d g" and d: "8 \<le> length d" "length d \<le> 9000"
  shows "is_complete c \<longleftrightarrow> covers F d"
proof
  have rec: "bf_received (co_buf c) ! b \<longleftrightarrow> (\<exists>g \<in> F. b \<in> blocks_of g)" if "b < 1125" for b
    using prog that by (simp add: progress_def BLOCKS_eq)
  have blocks: "div_ceil (length d) 8 \<le> 1125" using d by (simp add: div_ceil_le_iff)
  have size: "length (bf_received (co_buf c)) = 1125" using prog by (simp add: progress_def buffer_ok_def BLOCKS_eq)
  {
    assume "is_complete c"
    then have len: "co_len c = Some (length d)"
      and all: "list_all (\<lambda>got. got) (take (div_ceil (length d) 8) (bf_received (co_buf c)))"
      using prog by (auto simp: is_complete_def progress_def FRAGMENT_UNIT_def split: option.splits if_splits)
    show "covers F d" unfolding covers_def
    proof (intro allI impI)
      fix j assume j: "j < length d"
      then have b: "j div 8 < div_ceil (length d) 8" by (simp add: less_div_ceil_iff)
      then have "bf_received (co_buf c) ! (j div 8)"
        using all blocks size by (auto simp: list_all_length)
      then obtain g where g: "g \<in> F" "j div 8 \<in> blocks_of g" using rec b blocks by force
      then have "frag_off g \<le> j div 8 * 8" "j div 8 * 8 < frag_stop g"
        using F by (auto simp: in_blocks_iff piece_of_def)
      with g(1) F j piece_reaches [of d g j] show "\<exists>f \<in> F. frag_off f \<le> j \<and> j < frag_stop f"
        by (intro bexI [of _ g]) (auto intro: order_trans)
    qed
  next
    assume cov: "covers F d"
    obtain f where "f \<in> F" "frag_off f = 0" using cov d(1) by (force simp: covers_def)
    then have first: "co_first c \<noteq> None" using prog by (auto simp: progress_def)
    obtain g where "g \<in> F" "length d - 1 < frag_stop g" using cov d(1) unfolding covers_def by (metis diff_less less_le_trans zero_less_numeral zero_less_one)
    then have "\<not> frag_more g" using F d(1) unfolding piece_of_def by force
    then have len: "co_len c = Some (length d)" using prog \<open>g \<in> F\<close> by (auto simp: progress_def)
    have "bf_received (co_buf c) ! b" if b: "b < div_ceil (length d) 8" for b
    proof -
      have "b * 8 < length d" using b by (simp add: less_div_ceil_iff)
      then obtain h where "h \<in> F" "frag_off h \<le> b * 8" "b * 8 < frag_stop h" using cov by (auto simp: covers_def)
      then have "b \<in> blocks_of h" using F by (auto simp: in_blocks_iff piece_of_def)
      then show ?thesis using rec [of b] b blocks \<open>h \<in> F\<close> by auto
    qed
    with first len blocks size show "is_complete c"
      by (auto simp: is_complete_def FRAGMENT_UNIT_def list_all_length)
  }
qed

lemma progress_bytes:
  assumes prog: "progress d F c" and F: "\<forall>g \<in> F. piece_of d g" and d: "length d \<le> 9000" and cov: "covers F d"
  shows "take (length d) (bf_bytes (co_buf c)) = d"
proof (rule nth_equalityI)
  have size: "length (bf_bytes (co_buf c)) = 9000" using prog by (simp add: progress_def buffer_ok_def net_sizes)
  then show "length (take (length d) (bf_bytes (co_buf c))) = length d" using d by simp
  fix j assume "j < length (take (length d) (bf_bytes (co_buf c)))"
  then have j: "j < length d" using d size by simp
  then obtain f where f: "f \<in> F" "frag_off f \<le> j" "j < frag_stop f" using cov by (auto simp: covers_def)
  have stop: "frag_stop f \<le> length d" using F f(1) by (auto simp: piece_of_def)
  have "sub_slice (frag_off f) (frag_stop f) (bf_bytes (co_buf c)) = sub_slice (frag_off f) (frag_stop f) d"
  proof (rule trans)
    show "sub_slice (frag_off f) (frag_stop f) (bf_bytes (co_buf c)) = fr_data f"
      using prog f(1) unfolding progress_def by blast
    show "fr_data f = sub_slice (frag_off f) (frag_stop f) d"
      using F f(1) unfolding piece_of_def by blast
  qed
  then have "sub_slice (frag_off f) (frag_stop f) (bf_bytes (co_buf c)) ! (j - frag_off f)
      = sub_slice (frag_off f) (frag_stop f) d ! (j - frag_off f)" by simp
  with f stop d size j show "take (length d) (bf_bytes (co_buf c)) ! j = d ! j"
    by (simp add: nth_sub_slice)
qed

section \<open>A flow of fragments\<close>

lemma first_expired_entry:
  "first_expired r now = Some k \<Longrightarrow> lm_inv (ra_collecting r) \<Longrightarrow>
     \<exists>c. lm_get (ra_collecting r) k = Some c \<and> EXPIRY \<le> now - co_started c"
  by (auto simp: first_expired_def lm_iter_def find_Some_iff lm_get_map_of lm_inv_def map_of_eq_Some_iff)
     (metis nth_mem)

lemma expire_collecting_keeps:
  assumes "ra_inv r" and "\<And>c. lm_get (ra_collecting r) key = Some c \<Longrightarrow> now - co_started c < EXPIRY"
    and "lm_get (ra_discarding r) key = None"
  shows "lm_get (ra_collecting (expire_collecting r now)) key = lm_get (ra_collecting r) key
    \<and> lm_get (ra_discarding (expire_collecting r now)) key = None"
  using assms
proof (induction r now rule: expire_collecting.induct)
  case (1 r now)
  show ?case
  proof (cases "first_expired r now")
    case None
    then show ?thesis using 1 by (simp add: expire_collecting.simps)
  next
    case (Some k)
    have "k \<noteq> key" using first_expired_entry [OF Some] 1 by (force simp: ra_inv_def)
    note keep = give_up_keeps [OF 1(2) this, of Expired now]
    have "lm_get (ra_collecting (expire_collecting (give_up r k Expired now) now)) key
        = lm_get (ra_collecting (give_up r k Expired now)) key
      \<and> lm_get (ra_discarding (expire_collecting (give_up r k Expired now) now)) key = None"
      using 1 keep by (intro 1(1) [OF Some]) (auto intro: give_up_inv)
    with Some keep(1) show ?thesis by (subst (1 2) expire_collecting.simps) simp
  qed
qed

lemma expire_keeps:
  assumes inv: "ra_inv r" and fresh: "\<And>c. lm_get (ra_collecting r) key = Some c \<Longrightarrow> now - co_started c < EXPIRY"
    and d: "lm_get (ra_discarding r) key = None"
  shows "lm_get (ra_collecting (expire r now)) key = lm_get (ra_collecting r) key"
    and "lm_get (ra_discarding (expire r now)) key = None"
proof -
  have m: "lm_inv (ra_discarding r)" using inv by (simp add: ra_inv_def)
  note expire_collecting_keeps [OF retain_discarding_inv [OF inv, of "\<lambda>since. now - since < EXPIRY"], of key now]
  with assms show "lm_get (ra_collecting (expire r now)) key = lm_get (ra_collecting r) key"
    and "lm_get (ra_discarding (expire r now)) key = None"
    by (auto simp: expire_def lm_get_retain [OF m])
qed

definition flow :: "reassembler \<Rightarrow> datagram_key \<Rightarrow> instant \<Rightarrow> bytes \<Rightarrow> fragment set \<Rightarrow> bool" where
  "flow r key t d F \<longleftrightarrow> ra_inv r \<and> lm_get (ra_discarding r) key = None
     \<and> (if F = {} then lm_get (ra_collecting r) key = None
        else \<exists>c. lm_get (ra_collecting r) key = Some c \<and> co_started c = t \<and> progress d F c)"

text \<open>The slot a fragment of the flow lands in: the one it has, or a fresh one.\<close>

lemma flow_slot:
  assumes flow: "flow r key t d F" and now: "now - t < EXPIRY" "F = {} \<Longrightarrow> now = t"
  defines "q \<equiv> if lm_get (ra_collecting (expire r now)) key = None then start_collecting (expire r now) key now else expire r now"
  shows "ra_inv q" and "lm_get (ra_discarding (expire r now)) key = None" and "lm_get (ra_discarding q) key = None"
    and "\<exists>c. lm_get (ra_collecting q) key = Some c \<and> co_started c = t \<and> progress d F c"
proof -
  have inv: "ra_inv r" and d: "lm_get (ra_discarding r) key = None" using flow by (simp_all add: flow_def)
  have fresh: "\<And>c. lm_get (ra_collecting r) key = Some c \<Longrightarrow> now - co_started c < EXPIRY"
    using flow now(1) by (auto simp: flow_def split: if_splits)
  note keep = expire_keeps [OF inv fresh d] and i = expire_inv [OF inv, of now]
  show "lm_get (ra_discarding (expire r now)) key = None" using keep(2) .
  have "ra_inv q \<and> lm_get (ra_discarding q) key = None
      \<and> (\<exists>c. lm_get (ra_collecting q) key = Some c \<and> co_started c = t \<and> progress d F c)"
  proof (cases "F = {}")
    case True
    then have "lm_get (ra_collecting (expire r now)) key = None" using flow keep(1) by (simp add: flow_def)
    note start = start_collecting_facts [OF i this keep(2), of now]
    from start(2) obtain buf where "buffer_ok buf"
      "lm_get (ra_collecting (start_collecting (expire r now) key now)) key = Some (collecting_new buf now)" by blast
    moreover have "co_started (collecting_new buf now) = t" using True now(2) by (simp add: collecting_new_def)
    ultimately show ?thesis
      using True start(1,3) \<open>lm_get (ra_collecting (expire r now)) key = None\<close> progress_new [of buf d now]
      by (simp add: q_def)
  next
    case False
    then show ?thesis using flow keep i by (auto simp: q_def flow_def)
  qed
  then show "ra_inv q" and "lm_get (ra_discarding q) key = None"
    and "\<exists>c. lm_get (ra_collecting q) key = Some c \<and> co_started c = t \<and> progress d F c" by blast+
qed

lemma offer_flow:
  assumes flow: "flow r (fragment_key ingress f) t d F" and f: "piece_of d f" and F: "\<forall>g \<in> F. piece_of d g \<and> apart f g"
    and now: "now - t < EXPIRY" "F = {} \<Longrightarrow> now = t" and d: "8 \<le> length d" "length d \<le> 9000"
  shows "\<exists>r' res. offer r ingress f True now = (r', res) \<and>
    (if covers (insert f F) d
     then ra_inv r' \<and> (\<exists>whole. res = Some whole \<and> take (re_len whole) (bf_bytes (re_buf whole)) = d
       \<and> re_len whole = length d \<and> (\<exists>g \<in> insert f F. frag_off g = 0 \<and> re_first whole = fr_header g))
     else res = None \<and> flow r' (fragment_key ingress f) t d (insert f F))"
proof -
  let ?key = "fragment_key ingress f"
  let ?q = "if lm_get (ra_collecting (expire r now)) ?key = None then start_collecting (expire r now) ?key now else expire r now"
  note slot = flow_slot [OF flow now]
  obtain c where c: "lm_get (ra_collecting ?q) ?key = Some c" "co_started c = t" "progress d F c" using slot(4) by blast
  obtain c' where c': "collecting_add c f = Inr c'" "progress d (insert f F) c'" "co_started c' = t"
    using collecting_add_piece [OF c(3) f F d(2)] c(2) by auto
  have pieces: "\<forall>g \<in> insert f F. piece_of d g" using f F by blast
  have complete: "is_complete c' \<longleftrightarrow> covers (insert f F) d" using progress_complete [OF c'(2) pieces d] .
  obtain r' res where o: "offer r ingress f True now = (r', res)" by fastforce
  then have oslot: "offer_slot ?q ?key f now = (r', res)" using slot(2) by (simp add: offer_def Let_def)
  show ?thesis
  proof (cases "covers (insert f F) d")
    case True
    then obtain first len where first: "co_first c' = Some first" "co_len c' = Some len"
      "collecting_finish c' = Some \<lparr>re_first = first, re_buf = co_buf c', re_len = len\<rparr>"
      using collecting_finish_Some complete by blast
    have res: "res = Some \<lparr>re_first = first, re_buf = co_buf c', re_len = len\<rparr>"
      using oslot True c'(1) first(3) complete by (simp add: offer_slot_Some [OF slot(1) c(1)])
    have len: "len = length d" using first(2) c'(2) by (auto simp: progress_def split: if_splits)
    have "\<exists>g \<in> insert f F. frag_off g = 0 \<and> first = fr_header g"
      using first(1) c'(2) unfolding progress_def by metis
    moreover have "take (length d) (bf_bytes (co_buf c')) = d"
      using progress_bytes [OF c'(2) pieces d(2) True] .
    ultimately show ?thesis
      using o True res len offer_slot_inv [OF slot(1) oslot] by auto
  next
    case False
    have r': "r' = ?q\<lparr>ra_collecting := lm_get_mut (ra_collecting ?q) ?key (\<lambda>_. c')\<rparr> \<and> res = None"
      using oslot False c'(1) complete by (simp add: offer_slot_Some [OF slot(1) c(1)])
    have "ra_inv r'" using offer_slot_inv [OF slot(1) oslot] by blast
    with r' have "flow r' ?key t d (insert f F)"
      using slot(3) c(1) c'(2,3) by (auto simp: flow_def lm.lookup_edit)
    with o False r' show ?thesis by auto
  qed
qed

text \<open>A run of offers on one capture, all wanted.\<close>

fun offer_all :: "reassembler \<Rightarrow> capture_key \<Rightarrow> (fragment \<times> instant) list \<Rightarrow> reassembler \<times> reassembled option list" where
  "offer_all r ingress [] = (r, [])"
| "offer_all r ingress ((f, now) # rest) =
     (let (r, res) = offer r ingress f True now; (r, more) = offer_all r ingress rest in (r, res # more))"

lemma last_piece_uncovered:
  assumes "piece_of d f" and "\<forall>g \<in> F. apart f g"
  shows "\<not> covers F d"
proof
  assume "covers F d"
  moreover have "frag_off f < length d"
    using assms(1) by (cases "fr_data f") (auto simp: piece_of_def frag_stop_def)
  ultimately obtain g where "g \<in> F" "frag_off g \<le> frag_off f" "frag_off f < frag_stop g"
    unfolding covers_def by blast
  moreover have "frag_off f < frag_stop f" using assms(1) by (auto simp: piece_of_def frag_stop_def)
  ultimately show False using assms(2) by (force simp: apart_def)
qed

lemma offer_all_flow:
  assumes "flow r key t d F" and "\<forall>g \<in> F. piece_of d g"
    and "\<forall>(f, now) \<in> set fs. piece_of d f \<and> fragment_key ingress f = key \<and> now - t < EXPIRY"
    and "\<forall>(f, _) \<in> set fs. \<forall>g \<in> F. apart f g" and "sorted_wrt (\<lambda>x y. apart (fst x) (fst y)) fs"
    and "fs \<noteq> []" and "F = {} \<Longrightarrow> snd (hd fs) = t"
    and "covers (F \<union> fst ` set fs) d" and "8 \<le> length d" "length d \<le> 9000"
  shows "\<exists>r' whole. offer_all r ingress fs = (r', replicate (length fs - 1) None @ [Some whole]) \<and> ra_inv r'
    \<and> take (re_len whole) (bf_bytes (re_buf whole)) = d
    \<and> (\<exists>g \<in> F \<union> fst ` set fs. frag_off g = 0 \<and> re_first whole = fr_header g)"
  using assms
proof (induction fs arbitrary: r F)
  case (Cons x rest)
  obtain f now where x: "x = (f, now)" by (cases x)
  have sym: "apart g h \<longleftrightarrow> apart h g" for g h by (auto simp: apart_def)
  have f: "piece_of d f" "fragment_key ingress f = key" "now - t < EXPIRY" "\<forall>g \<in> F. piece_of d g \<and> apart f g"
    using Cons.prems x by auto
  obtain r' res where o: "offer r ingress f True now = (r', res)" and step:
    "if covers (insert f F) d
     then ra_inv r' \<and> (\<exists>whole. res = Some whole \<and> take (re_len whole) (bf_bytes (re_buf whole)) = d
       \<and> re_len whole = length d \<and> (\<exists>g \<in> insert f F. frag_off g = 0 \<and> re_first whole = fr_header g))
     else res = None \<and> flow r' key t d (insert f F)"
    using offer_flow [of r ingress f t d F now] Cons.prems(1,7,9,10) f x by auto
  show ?case
  proof (cases rest)
    case Nil
    then have "covers (insert f F) d" using Cons.prems(8) x by simp
    with step o Nil x show ?thesis by auto
  next
    case (Cons y ys)
    then have y: "piece_of d (fst y)" "\<forall>g \<in> insert f F. apart (fst y) g"
      using Cons.prems(3,4,5) x sym by (cases y; auto)+
    then have "\<not> covers (insert f F) d" by (rule last_piece_uncovered)
    with step have none: "res = None" and flow: "flow r' key t d (insert f F)" by auto
    have "\<exists>r'' whole. offer_all r' ingress rest = (r'', replicate (length rest - 1) None @ [Some whole]) \<and> ra_inv r''
      \<and> take (re_len whole) (bf_bytes (re_buf whole)) = d
      \<and> (\<exists>g \<in> insert f F \<union> fst ` set rest. frag_off g = 0 \<and> re_first whole = fr_header g)"
    proof (rule Cons.IH [OF flow])
      show "\<forall>g \<in> insert f F. piece_of d g" using f by blast
      show "\<forall>(h, _) \<in> set rest. \<forall>g \<in> insert f F. apart h g" using Cons.prems(4,5) x sym by fastforce
      show "covers (insert f F \<union> fst ` set rest) d" using Cons.prems(8) x by simp
    qed (use Cons.prems x Cons in auto)
    then obtain r'' whole where "offer_all r' ingress rest = (r'', replicate (length rest - 1) None @ [Some whole])"
      and "ra_inv r''" "take (re_len whole) (bf_bytes (re_buf whole)) = d"
      and "\<exists>g \<in> insert f F \<union> fst ` set rest. frag_off g = 0 \<and> re_first whole = fr_header g" by blast
    with o none x Cons show ?thesis by (auto simp: replicate_append_same [symmetric])
  qed
qed simp

lemma flow_start:
  "ra_inv r \<Longrightarrow> lm_get (ra_collecting r) key = None \<Longrightarrow> lm_get (ra_discarding r) key = None \<Longrightarrow> flow r key t d {}"
  by (simp add: flow_def)

lemma offer_all_pieces:
  assumes "ra_inv r" and "lm_get (ra_collecting r) key = None" and "lm_get (ra_discarding r) key = None"
    and "8 \<le> length d" and "length d \<le> MAX_DATAGRAM_LEN"
    and "\<forall>(f, now) \<in> set fs. piece_of d f \<and> fragment_key ingress f = key \<and> now - snd (hd fs) < EXPIRY"
    and "sorted_wrt (\<lambda>x y. apart (fst x) (fst y)) fs" and "covers (fst ` set fs) d"
  shows "\<exists>r' whole. offer_all r ingress fs = (r', replicate (length fs - 1) None @ [Some whole]) \<and> ra_inv r'
    \<and> take (re_len whole) (bf_bytes (re_buf whole)) = d
    \<and> (\<exists>g \<in> fst ` set fs. frag_off g = 0 \<and> re_first whole = fr_header g)"
proof -
  have "fs \<noteq> []"
  proof
    assume "fs = []"
    moreover have "0 < length d" using assms(4) by linarith
    ultimately show False using assms(8) by (auto simp: covers_def)
  qed
  with offer_all_flow [OF flow_start [OF assms(1-3)], of d fs ingress "snd (hd fs)"] assms(4-8) show ?thesis
    by (simp add: MAX_DATAGRAM_LEN_def)
qed

text \<open>C16. The pieces of a datagram of at most 9000 bytes, pairwise disjoint and covering it, offered in any order
  within the expiry of the first, come out whole:
  every offer before the last answers nothing, and the last one answers the datagram's bytes, in
  place, with the header of its first fragment.\<close>

theorem reassembly_any_order:
  assumes "ra_inv r" and "lm_get (ra_collecting r) key = None" and "lm_get (ra_discarding r) key = None"
    and "8 \<le> length d" and "length d \<le> MAX_DATAGRAM_LEN"
    and "\<forall>(f, now) \<in> set fs. piece_of d f \<and> fragment_key ingress f = key \<and> now - snd (hd fs) < EXPIRY"
    and "sorted_wrt (\<lambda>x y. apart (fst x) (fst y)) fs" and "covers (fst ` set fs) d"
  shows "\<exists>r' whole. offer_all r ingress fs = (r', replicate (length fs - 1) None @ [Some whole]) \<and> ra_inv r'
    \<and> take (re_len whole) (bf_bytes (re_buf whole)) = d
    \<and> (\<exists>g \<in> fst ` set fs. frag_off g = 0 \<and> re_first whole = fr_header g)"
  using assms by (rule offer_all_pieces)

definition sample_fragment :: "nat \<Rightarrow> bytes \<Rightarrow> bool \<Rightarrow> fragment" where
  "sample_fragment offset data mf = \<lparr>fr_header = \<lparr>fh_source = V4 0xc0a80102, fh_dest = V4 0xe00000fb, fh_id = 7,
     fh_offset = offset, fh_more = mf, fh_ttl = 255, fh_dst_mac = None, fh_src_mac = None\<rparr>, fr_data = data\<rparr>"

definition sample_datagram :: bytes where
  "sample_datagram = [0x14, 0xe9, 0x14, 0xe9, 0, 10, 0, 0, 5, 6]"

lemma reassembly_any_order_witness:
  "\<exists>r' whole. offer_all reassembler_new 0
      [(sample_fragment 8 [5, 6] False, 4), (sample_fragment 0 (take 8 sample_datagram) True, 9)]
      = (r', [None, Some whole])
    \<and> take (re_len whole) (bf_bytes (re_buf whole)) = sample_datagram"
proof -
  let ?fs = "[(sample_fragment 8 [5, 6] False, 4 :: nat), (sample_fragment 0 (take 8 sample_datagram) True, 9)]"
  let ?key = "\<lparr>dk_ingress = 0, dk_source = V4 0xc0a80102, dk_dest = V4 0xe00000fb, dk_id = 7\<rparr>"
  have new: "lm_get (ra_collecting reassembler_new) ?key = None" "lm_get (ra_discarding reassembler_new) ?key = None"
    by code_simp+
  have len: "8 \<le> length sample_datagram" "length sample_datagram \<le> MAX_DATAGRAM_LEN" by code_simp+
  have pieces: "\<forall>(f, now) \<in> set ?fs. piece_of sample_datagram f \<and> fragment_key 0 f = ?key \<and> now - snd (hd ?fs) < EXPIRY"
    by code_simp
  have apart: "sorted_wrt (\<lambda>x y. apart (fst x) (fst y)) ?fs" by code_simp
  have cov: "covers (fst ` set ?fs) sample_datagram" unfolding covers_def by code_simp
  from reassembly_any_order [OF ra_inv_new new len pieces apart cov] show ?thesis by auto
qed

section \<open>From a sender's frames\<close>

lemma frame_fragment_fields [simp]:
  "frag_off (frame_fragment u i) = frame_start u i" "frag_more (frame_fragment u i) \<longleftrightarrow> frame_more u i"
  "fr_data (frame_fragment u i) = frame_data u i"
  by (simp_all add: frame_fragment_def)

lemma frame_fragment_stop:
  "frames_inv u \<Longrightarrow> i < frames_count u \<Longrightarrow> frag_stop (frame_fragment u i) = frame_stop u i"
  using frames_count_iff [of u i] by (auto simp: frag_stop_def length_frame_data frame_stop_def)

lemma frame_fragment_piece:
  assumes inv: "frames_inv u" and frag: "uf_fragmented u" and i: "i < frames_count u"
  shows "piece_of (datagram_bytes u) (frame_fragment u i)"
proof -
  have start: "frame_start u i < datagram_len u" using frames_count_iff [OF inv] i by simp
  have chunk: "uf_chunk u mod 8 = 0" "8 \<le> uf_chunk u" using inv frag by (auto simp: frames_inv_def)
  have off: "frame_start u i mod 8 = 0" using chunk(1) by (simp add: frame_start_def mod_mult_eq [symmetric])
  have more: "frame_more u i \<Longrightarrow> length (frame_data u i) = uf_chunk u"
    using length_frame_data [OF inv, of i] by (auto simp: frame_more_def frame_stop_def min_def split: if_splits)
  have first: "frame_start u i = 0 \<Longrightarrow> 8 \<le> length (frame_data u i)"
    using length_frame_data [OF inv, of i] chunk(2) inv
    by (auto simp: frame_stop_def frames_inv_def datagram_len_def UDP_HEADER_SIZE_def)
  have "frame_data u i \<noteq> []"
    using length_frame_data [OF inv, of i] start chunk(2) by (auto simp: frame_stop_def)
  with off more first chunk(1) inv start show ?thesis
    unfolding piece_of_def frame_fragment_stop [OF inv i] frame_fragment_fields
    by (auto simp: frame_data_def frame_more_def frame_stop_def)
qed

lemma frame_fragments_apart:
  assumes inv: "frames_inv u" and "i < frames_count u" "j < frames_count u" "i \<noteq> j"
  shows "apart (frame_fragment u i) (frame_fragment u j)"
proof -
  have step: "frame_stop u k \<le> frame_start u l" if "k < l" for k l
  proof -
    have "Suc k * uf_chunk u \<le> l * uf_chunk u" using that by (intro mult_le_mono1) simp
    then show ?thesis by (auto simp: frame_stop_def frame_start_def)
  qed
  then show ?thesis using assms by (cases "i < j") (auto simp: apart_def frame_fragment_stop)
qed

lemma frame_fragments_cover:
  assumes inv: "frames_inv u"
  shows "covers (frame_fragment u ` {0..<frames_count u}) (datagram_bytes u)"
  unfolding covers_def
proof (intro allI impI)
  fix j assume j: "j < length (datagram_bytes u)"
  let ?i = "j div uf_chunk u"
  have chunk: "0 < uf_chunk u" using inv by (auto simp: frames_inv_def)
  have "?i * uf_chunk u \<le> j" by simp
  then have "?i * uf_chunk u < datagram_len u" using j inv by (metis length_datagram_bytes le_less_trans)
  then have i: "?i < frames_count u" using inv by (simp add: frames_count_iff frame_start_def)
  have "j < ?i * uf_chunk u + uf_chunk u" using chunk by (metis div_mult_mod_eq mod_less_divisor nat_add_left_cancel_less)
  then show "\<exists>f \<in> frame_fragment u ` {0..<frames_count u}. frag_off f \<le> j \<and> j < frag_stop f"
    using i j inv frame_fragment_stop [OF inv i]
    by (intro bexI [of _ "frame_fragment u ?i"]) (auto simp: frame_start_def frame_stop_def)
qed

lemma reassembled_v4:
  assumes v: "udp_v4 src dst (udp_bytes sport dport payload c) payload = Some c" and len: "8 + length payload \<le> 65535"
    and h: "fh_source h = V4 src" "fh_dest h = V4 dst"
  shows "packet_reassembled h (udp_bytes sport dport payload c @ payload)
    = Inr \<lparr>p_source = (V4 src, sport), p_dest = (V4 dst, dport), p_ttl = fh_ttl h, p_dst_mac = fh_dst_mac h,
           p_src_mac = fh_src_mac h, p_payload = payload\<rparr>"
proof -
  have "udp_bytes sport dport payload c ! 6 = ucast (drop_bit 8 c)" "udp_bytes sport dport payload c ! 7 = ucast c"
    by (simp_all add: udp_bytes_def u16_be_def)
  with v h show ?thesis
    by (simp add: packet_reassembled_def parse_udp_bytes [OF len] UDP_HEADER_SIZE_def checksum_valid_def)
qed

lemma reassembled_v6:
  assumes v: "udp_v6 src dst (udp_bytes sport dport payload c) payload = Some c" and len: "8 + length payload \<le> 65535"
    and h: "fh_source h = V6 src" "fh_dest h = V6 dst"
  shows "packet_reassembled h (udp_bytes sport dport payload c @ payload)
    = Inr \<lparr>p_source = (V6 src, sport), p_dest = (V6 dst, dport), p_ttl = fh_ttl h, p_dst_mac = fh_dst_mac h,
           p_src_mac = fh_src_mac h, p_payload = payload\<rparr>"
proof -
  have "udp_bytes sport dport payload c ! 6 = ucast (drop_bit 8 c)" "udp_bytes sport dport payload c ! 7 = ucast c"
    by (simp_all add: udp_bytes_def u16_be_def)
  with v h show ?thesis
    by (simp add: packet_reassembled_def parse_udp_bytes [OF len] UDP_HEADER_SIZE_def checksum_valid_def)
qed

end
