(* ===== verification/Stream_Buffer.thy ===== *)
theory Stream_Buffer
  imports Prelude
begin

text \<open>
  \<^verbatim>\<open>src/src/net/stream_buffer.rs\<close>: the fixed-capacity FIFO of bytes behind a proxied TCP direction
  and the SSDP rewrite scratch. The backing store is allocated on first use and compacted when its
  tail runs out. The locale \<open>byte_fifo\<close> is the contract of a bounded byte queue; \<open>sb\<close> interprets it
  on the buffer, so its clients see only the pending bytes.
\<close>

section \<open>The buffer\<close>

text \<open>Live bytes are \<^verbatim>\<open>storage[consumed..filled]\<close>.\<close>

record stream_buffer =
  sb_storage :: "bytes option"
  sb_capacity :: nat
  sb_filled :: nat
  sb_consumed :: nat

definition sb_with_capacity :: "nat \<Rightarrow> stream_buffer" where
  "sb_with_capacity cap = \<lparr>sb_storage = None, sb_capacity = cap, sb_filled = 0, sb_consumed = 0\<rparr>"

definition sb_pending :: "stream_buffer \<Rightarrow> bytes" where
  "sb_pending b = (case sb_storage b of None \<Rightarrow> [] | Some s \<Rightarrow> sub_slice (sb_consumed b) (sb_filled b) s)"

definition sb_len :: "stream_buffer \<Rightarrow> nat" where
  "sb_len b = sb_filled b - sb_consumed b"

definition sb_is_empty :: "stream_buffer \<Rightarrow> bool" where
  "sb_is_empty b \<longleftrightarrow> sb_filled b = sb_consumed b"

definition storage_of :: "stream_buffer \<Rightarrow> bytes" where
  "storage_of b = (case sb_storage b of Some s \<Rightarrow> s | None \<Rightarrow> replicate (sb_capacity b) 0)"

text \<open>\<^verbatim>\<open>copy_within(consumed..filled, 0)\<close>, then the cursors.\<close>

definition sb_compact :: "stream_buffer \<Rightarrow> stream_buffer" where
  "sb_compact b =
     b\<lparr>sb_storage := map_option (\<lambda>s. write_at 0 (sub_slice (sb_consumed b) (sb_filled b) s) s) (sb_storage b),
       sb_filled := sb_filled b - sb_consumed b, sb_consumed := 0\<rparr>"

definition sb_push :: "stream_buffer \<Rightarrow> bytes \<Rightarrow> stream_buffer" where
  "sb_push b data =
     (if data = [] then b
      else let b = (if sb_filled b + length data > sb_capacity b then sb_compact b else b)
           in b\<lparr>sb_storage := Some (write_at (sb_filled b) data (storage_of b)),
                sb_filled := sb_filled b + length data\<rparr>)"

definition sb_append :: "stream_buffer \<Rightarrow> bytes \<Rightarrow> stream_buffer option" where
  "sb_append b data = (if sb_len b + length data > sb_capacity b then None else Some (sb_push b data))"

text \<open>
  \<^verbatim>\<open>free_tail_mut\<close> lends the tail for a receive: the buffer, compacted if it must be and allocated,
  with the length of the tail. \<open>sb_receive\<close> is the kernel's write of \<open>data\<close> into that tail.
\<close>

definition sb_free_tail_mut :: "stream_buffer \<Rightarrow> stream_buffer \<times> nat" where
  "sb_free_tail_mut b =
     (let b = (if sb_filled b = sb_capacity b \<and> sb_consumed b > 0 then sb_compact b else b);
          s = storage_of b
      in (b\<lparr>sb_storage := Some s\<rparr>, length s - sb_filled b))"

definition sb_receive :: "stream_buffer \<Rightarrow> bytes \<Rightarrow> stream_buffer" where
  "sb_receive b data = b\<lparr>sb_storage := Some (write_at (sb_filled b) data (storage_of b))\<rparr>"

definition sb_commit :: "stream_buffer \<Rightarrow> nat \<Rightarrow> stream_buffer" where
  "sb_commit b n = b\<lparr>sb_filled := sb_filled b + n\<rparr>"

definition sb_consume :: "stream_buffer \<Rightarrow> nat \<Rightarrow> stream_buffer" where
  "sb_consume b n =
     (let consumed = sb_consumed b + n in
      if consumed \<ge> sb_filled b then b\<lparr>sb_consumed := 0, sb_filled := 0\<rparr>
      else b\<lparr>sb_consumed := consumed\<rparr>)"

definition sb_clear :: "stream_buffer \<Rightarrow> stream_buffer" where
  "sb_clear b = b\<lparr>sb_filled := 0, sb_consumed := 0\<rparr>"

text \<open>\<^verbatim>\<open>io::Write::write\<close>: a short write past the capacity.\<close>

definition sb_write :: "stream_buffer \<Rightarrow> bytes \<Rightarrow> stream_buffer \<times> nat" where
  "sb_write b data =
     (let n = min (length data) (sb_capacity b - sb_len b) in (sb_push b (take n data), n))"

section \<open>The invariant\<close>

definition sb_inv :: "stream_buffer \<Rightarrow> bool" where
  "sb_inv b \<longleftrightarrow> sb_consumed b \<le> sb_filled b \<and> sb_filled b \<le> sb_capacity b
     \<and> (case sb_storage b of None \<Rightarrow> sb_filled b = 0 | Some s \<Rightarrow> length s = sb_capacity b)"

lemma sb_inv_new [inv_intros]: "sb_inv (sb_with_capacity cap)" and sb_pending_new: "sb_pending (sb_with_capacity cap) = []"
  by (simp_all add: sb_inv_def sb_with_capacity_def sb_pending_def)

lemma length_sb_pending: "sb_inv b \<Longrightarrow> length (sb_pending b) = sb_len b"
  by (auto simp: sb_inv_def sb_pending_def sb_len_def split: option.splits)

lemma length_storage_of [simp]: "sb_inv b \<Longrightarrow> length (storage_of b) = sb_capacity b"
  by (auto simp: sb_inv_def storage_of_def split: option.splits)

lemma sb_compact_facts:
  assumes inv: "sb_inv b"
  shows "sb_inv (sb_compact b)" and "sb_pending (sb_compact b) = sb_pending b" and "sb_len (sb_compact b) = sb_len b"
    and "sb_capacity (sb_compact b) = sb_capacity b" and "sb_filled (sb_compact b) = sb_len b"
proof -
  show "sb_pending (sb_compact b) = sb_pending b"
  proof (cases "sb_storage b")
    case (Some s)
    let ?p = "sub_slice (sb_consumed b) (sb_filled b) s"
    have "length ?p = sb_filled b - sb_consumed b" using inv Some by (auto simp: sb_inv_def)
    moreover from this have "sub_slice 0 (0 + length ?p) (write_at 0 ?p s) = ?p"
      using inv Some by (intro slice_write_at_same) (simp add: sb_inv_def)
    ultimately show ?thesis by (simp add: sb_pending_def sb_compact_def Some)
  qed (simp add: sb_pending_def sb_compact_def)
qed (use inv in \<open>auto simp: sb_inv_def sb_compact_def sb_len_def split: option.splits\<close>)

lemma push_in_place:
  assumes inv: "sb_inv b" and fits: "sb_filled b + length data \<le> sb_capacity b"
  defines "b' \<equiv> b\<lparr>sb_storage := Some (write_at (sb_filled b) data (storage_of b)), sb_filled := sb_filled b + length data\<rparr>"
  shows "sb_inv b'" and "sb_pending b' = sb_pending b @ data"
proof -
  show "sb_inv b'" using inv fits by (auto simp: b'_def sb_inv_def split: option.splits)
  let ?s = "storage_of b" let ?w = "write_at (sb_filled b) data ?s"
  have s: "sb_filled b + length data \<le> length ?s" using inv fits by simp
  have "sb_consumed b \<le> sb_filled b" using inv by (simp add: sb_inv_def)
  then have "sub_slice (sb_consumed b) (sb_filled b) ?w @ sub_slice (sb_filled b) (sb_filled b + length data) ?w
      = sub_slice (sb_consumed b) (sb_filled b + length data) ?w"
    by (intro slice_append_slice) simp_all
  moreover have "sub_slice (sb_filled b) (sb_filled b + length data) ?w = data"
    using s by (rule slice_write_at_same)
  moreover have "sub_slice (sb_consumed b) (sb_filled b) ?w = sub_slice (sb_consumed b) (sb_filled b) ?s"
    using s by (intro slice_write_at_other) auto
  moreover have "sub_slice (sb_consumed b) (sb_filled b) ?s = sb_pending b"
    using inv by (auto simp: sb_pending_def storage_of_def sb_inv_def sub_slice_def split: option.splits)
  ultimately show "sb_pending b' = sb_pending b @ data" by (simp add: b'_def sb_pending_def)
qed

lemma sb_push_facts:
  assumes inv: "sb_inv b" and fits: "sb_len b + length data \<le> sb_capacity b"
  shows "sb_inv (sb_push b data)" and "sb_pending (sb_push b data) = sb_pending b @ data"
    and "sb_capacity (sb_push b data) = sb_capacity b"
proof -
  let ?b = "if sb_filled b + length data > sb_capacity b then sb_compact b else b"
  have b: "sb_inv ?b" "sb_pending ?b = sb_pending b" "sb_capacity ?b = sb_capacity b"
    "sb_filled ?b + length data \<le> sb_capacity ?b"
    using inv fits sb_compact_facts [OF inv] by auto
  show "sb_inv (sb_push b data)" using inv push_in_place(1) [OF b(1,4)] by (simp add: sb_push_def Let_def)
  show "sb_pending (sb_push b data) = sb_pending b @ data"
    using push_in_place(2) [OF b(1,4)] b(2) by (simp add: sb_push_def Let_def)
  show "sb_capacity (sb_push b data) = sb_capacity b" using b(3) by (simp add: sb_push_def Let_def)
qed

lemma sb_consume_facts:
  assumes inv: "sb_inv b"
  shows "sb_inv (sb_consume b n)" and "sb_pending (sb_consume b n) = drop n (sb_pending b)"
    and "sb_capacity (sb_consume b n) = sb_capacity b"
  using inv
  by (auto simp: sb_inv_def sb_consume_def sb_pending_def sub_slice_def drop_take Let_def add.commute
      split: option.splits)

section \<open>The contract\<close>

text \<open>A bounded queue of bytes: what goes in comes out, in order, up to the capacity.\<close>

locale byte_fifo =
  fixes pending :: "'b \<Rightarrow> bytes"
    and put :: "'b \<Rightarrow> bytes \<Rightarrow> 'b option"
    and take_out :: "'b \<Rightarrow> nat \<Rightarrow> 'b"
    and capacity :: "'b \<Rightarrow> nat"
    and invar :: "'b \<Rightarrow> bool"
  assumes put_fits: "invar b \<Longrightarrow> length (pending b) + length data \<le> capacity b \<Longrightarrow>
      \<exists>b'. put b data = Some b' \<and> invar b' \<and> pending b' = pending b @ data \<and> capacity b' = capacity b"
    and put_overflow: "invar b \<Longrightarrow> capacity b < length (pending b) + length data \<Longrightarrow> put b data = None"
    and take_out_pending: "invar b \<Longrightarrow> pending (take_out b n) = drop n (pending b)"
    and take_out_invar: "invar b \<Longrightarrow> invar (take_out b n)"
    and take_out_capacity: "invar b \<Longrightarrow> capacity (take_out b n) = capacity b"
begin

text \<open>A run of operations: \<open>Inl data\<close> appends (a refused append changes nothing), \<open>Inr n\<close> drains up to
  \<open>n\<close> bytes. It answers the buffer, the bytes accepted and the bytes drained.\<close>

fun fifo_run :: "'b \<Rightarrow> (bytes + nat) list \<Rightarrow> 'b \<times> bytes \<times> bytes" where
  "fifo_run b [] = (b, [], [])"
| "fifo_run b (Inl data # ops) =
     (case put b data of
        None \<Rightarrow> fifo_run b ops
      | Some b' \<Rightarrow> (let (c, i, e) = fifo_run b' ops in (c, data @ i, e)))"
| "fifo_run b (Inr n # ops) = (let (c, i, e) = fifo_run (take_out b n) ops in (c, i, take n (pending b) @ e))"

lemma fifo_run_order:
  "invar b \<Longrightarrow> fifo_run b ops = (c, i, e) \<Longrightarrow> invar c \<and> pending b @ i = e @ pending c \<and> capacity c = capacity b"
proof (induction b ops arbitrary: c i e rule: fifo_run.induct)
  case (2 b data ops)
  show ?case
  proof (cases "put b data")
    case None
    then show ?thesis using 2 by simp
  next
    case (Some b')
    then have "length (pending b) + length data \<le> capacity b" using put_overflow [OF 2(3), of data] by (cases "length (pending b) + length data \<le> capacity b") auto
    then have b': "invar b'" "pending b' = pending b @ data" "capacity b' = capacity b"
      using put_fits [OF 2(3), of data] Some by auto
    obtain c' i' e' where "fifo_run b' ops = (c', i', e')" by (metis prod_cases3)
    with 2(2) [OF Some b'(1)] 2(4) Some b' show ?thesis by auto
  qed
next
  case (3 b n ops)
  obtain c' i' e' where run: "fifo_run (take_out b n) ops = (c', i', e')" by (metis prod_cases3)
  with 3(1) [OF take_out_invar [OF 3(2)]] 3(2,3) show ?case
    by (auto simp: take_out_pending take_out_capacity) (metis append_assoc append_take_drop_id)
qed simp

end

interpretation sb: byte_fifo sb_pending sb_append sb_consume sb_capacity sb_inv
  by unfold_locales
     (auto simp: sb_append_def length_sb_pending sb_push_facts sb_consume_facts)

section \<open>Properties\<close>

fun sb_run :: "stream_buffer \<Rightarrow> (bytes + nat) list \<Rightarrow> stream_buffer \<times> bytes \<times> bytes" where
  "sb_run b [] = (b, [], [])"
| "sb_run b (Inl data # ops) =
     (case sb_append b data of
        None \<Rightarrow> sb_run b ops
      | Some b' \<Rightarrow> (let (c, i, e) = sb_run b' ops in (c, data @ i, e)))"
| "sb_run b (Inr n # ops) = (let (c, i, e) = sb_run (sb_consume b n) ops in (c, i, take n (sb_pending b) @ e))"

lemma sb_run_fifo: "sb_run b ops = sb.fifo_run b ops"
  by (induction b ops rule: sb_run.induct) (auto split: option.split)

text \<open>C28. The buffer is a FIFO: through any run of appends (\<open>Inl data\<close>, refused whole past the capacity)
  and drains (\<open>Inr n\<close>), the bytes drained followed by the
  bytes still pending are the bytes accepted, in order; the capacity never changes.\<close>

theorem stream_buffer_fifo:
  assumes "sb_run (sb_with_capacity cap) ops = (b, accepted, drained)"
  shows "accepted = drained @ sb_pending b \<and> length (sb_pending b) \<le> cap"
proof -
  have "sb_inv b \<and> sb_pending (sb_with_capacity cap) @ accepted = drained @ sb_pending b
      \<and> sb_capacity b = sb_capacity (sb_with_capacity cap)"
    using sb.fifo_run_order [OF sb_inv_new] assms by (metis sb_run_fifo)
  then show ?thesis using length_sb_pending [of b] unfolding sb_pending_new
    by (auto simp: sb_inv_def sb_len_def sb_with_capacity_def)
qed

lemma stream_buffer_fifo_witness:
  "\<exists>b accepted drained. sb_run (sb_with_capacity 5) [Inl [1, 2, 3], Inr 2, Inl [4, 5, 6], Inl [7, 8]]
     = (b, accepted, drained) \<and> accepted = drained @ sb_pending b \<and> length (sb_pending b) \<le> 5"
  using stream_buffer_fifo [of 5 "[Inl [1, 2, 3], Inr 2, Inl [4, 5, 6], Inl [7, 8]]"] by (metis prod_cases3)

text \<open>Receiving into the lent tail: the tail is empty only when the buffer is full of live bytes, and
  committing \<open>n\<close> bytes the kernel wrote there appends exactly those.\<close>

theorem receive_commit_appends:
  assumes inv: "sb_inv b" and tail: "sb_free_tail_mut b = (b', n)" and data: "length data \<le> n"
  shows "sb_inv (sb_commit (sb_receive b' data) (length data))
    \<and> sb_pending (sb_commit (sb_receive b' data) (length data)) = sb_pending b @ data
    \<and> (n = 0 \<longleftrightarrow> length (sb_pending b) = sb_capacity b)"
proof -
  let ?c = "if sb_filled b = sb_capacity b \<and> sb_consumed b > 0 then sb_compact b else b"
  have c: "sb_inv ?c" "sb_pending ?c = sb_pending b" "sb_capacity ?c = sb_capacity b"
    using inv sb_compact_facts [OF inv] by auto
  have b': "b' = ?c\<lparr>sb_storage := Some (storage_of ?c)\<rparr>" and n: "n = sb_capacity b - sb_filled ?c"
    using tail c by (auto simp: sb_free_tail_mut_def Let_def)
  have inv': "sb_inv b'" "sb_pending b' = sb_pending b" "sb_filled b' = sb_filled ?c" "sb_capacity b' = sb_capacity b"
    using c unfolding b'
    by (auto simp: sb_inv_def sb_pending_def storage_of_def sub_slice_def split: option.splits)
  have "sb_filled b' + length data \<le> sb_capacity b'" using data n inv' c by (auto simp: sb_inv_def)
  note put = push_in_place [OF inv'(1) this]
  have "sb_commit (sb_receive b' data) (length data)
      = b'\<lparr>sb_storage := Some (write_at (sb_filled b') data (storage_of b')), sb_filled := sb_filled b' + length data\<rparr>"
    by (simp add: sb_commit_def sb_receive_def)
  moreover have "n = 0 \<longleftrightarrow> length (sb_pending b) = sb_capacity b"
    using n inv sb_compact_facts(5) [OF inv] length_sb_pending [OF inv] by (auto simp: sb_inv_def sb_len_def split: if_splits)
  ultimately show ?thesis using put inv'(2) by simp
qed

lemma receive_commit_appends_witness:
  "sb_pending (sb_commit (sb_receive (fst (sb_free_tail_mut (sb_with_capacity 4))) [1, 2]) (length [1 :: u8, 2])) = [] @ [1, 2]"
proof -
  have "sb_free_tail_mut (sb_with_capacity 4) = (fst (sb_free_tail_mut (sb_with_capacity 4)), 4)" by code_simp
  from receive_commit_appends [OF sb_inv_new this, of "[1, 2]"] show ?thesis by (simp add: sb_pending_new)
qed

end
