(* ===== verification/Http.thy ===== *)
theory Http
  imports Addresses
begin

text \<open>
  \<^verbatim>\<open>src/src/net/http.rs\<close>: the HTTP helpers the DIAL proxy and the SSDP rewrite share, on top of the
  textual IP address forms of \<^verbatim>\<open>std::net\<close> (its parser reads maximal digit runs, refuses leading
  zeros in an IPv4 octet and takes at most four hexadecimal digits per IPv6 group).
\<close>

section \<open>Addresses as text\<close>

text \<open>\<^verbatim>\<open>read_number\<close>: a maximal run of digits, at most \<open>max_digits\<close> of them.\<close>

definition read_number :: "nat \<Rightarrow> nat \<Rightarrow> bool \<Rightarrow> nat \<Rightarrow> bytes \<Rightarrow> (nat \<times> bytes) option" where
  "read_number radix max_digits zero_prefix max_value s =
     (let ds = takeWhile (if radix = 16 then is_ascii_hexdigit else is_ascii_digit) s;
          v = digits_value radix ds
      in if ds = [] \<or> length ds > max_digits \<or> v > max_value \<or> \<not> zero_prefix \<and> hd ds = 48 \<and> length ds > 1 then None
         else Some (v, drop (length ds) s))"

definition read_separator :: "u8 \<Rightarrow> bool \<Rightarrow> bytes \<Rightarrow> bytes option" where
  "read_separator c wanted s = (if wanted then (case s of x # rest \<Rightarrow> if x = c then Some rest else None | [] \<Rightarrow> None) else Some s)"

fun read_octets :: "nat \<Rightarrow> bool \<Rightarrow> bytes \<Rightarrow> (nat list \<times> bytes) option" where
  "read_octets 0 sep s = Some ([], s)"
| "read_octets (Suc n) sep s =
     (case read_separator 46 sep s of
        None \<Rightarrow> None
      | Some s \<Rightarrow>
          (case read_number 10 3 False 255 s of
             None \<Rightarrow> None
           | Some (v, s) \<Rightarrow> map_option (\<lambda>(vs, s). (v # vs, s)) (read_octets n True s)))"

definition ipv4_from_str :: "bytes \<Rightarrow> ipv4 option" where
  "ipv4_from_str s =
     (if length s > 15 then None
      else case read_octets 4 False s of
          Some (os, []) \<Rightarrow> Some (of_be_bytes (map of_nat os))
        | _ \<Rightarrow> None)"

text \<open>\<^verbatim>\<open>read_groups\<close> with \<open>n\<close> places left: the groups, whether they ended in an embedded IPv4 address, the rest.\<close>

fun read_groups :: "nat \<Rightarrow> bool \<Rightarrow> bytes \<Rightarrow> nat list \<times> bool \<times> bytes" where
  "read_groups 0 sep s = ([], False, s)"
| "read_groups (Suc n) sep s =
     (let t = read_separator 58 sep s;
          v4 = (if n \<ge> 1 then (case t of None \<Rightarrow> None | Some t \<Rightarrow> read_octets 4 False t) else None)
      in case v4 of
           Some ([a, b, c, d], rest) \<Rightarrow> ([a * 256 + b, c * 256 + d], True, rest)
         | _ \<Rightarrow>
             (case t of
                None \<Rightarrow> ([], False, s)
              | Some t \<Rightarrow>
                  (case read_number 16 4 True 65535 t of
                     None \<Rightarrow> ([], False, s)
                   | Some (g, rest) \<Rightarrow> (let (gs, v, r) = read_groups n True rest in (g # gs, v, r)))))"

definition ipv6_of_groups :: "nat list \<Rightarrow> ipv6" where
  "ipv6_of_groups gs = of_be_bytes (concat (map (\<lambda>g. u16_be (of_nat g)) gs))"

definition ipv6_from_str :: "bytes \<Rightarrow> ipv6 option" where
  "ipv6_from_str s =
     (let (head, head_v4, rest) = read_groups 8 False s in
      if length head = 8 then (if rest = [] then Some (ipv6_of_groups head) else None)
      else if head_v4 then None
      else (case rest of
          c # d # t \<Rightarrow>
            if c = 58 \<and> d = 58 then
              (let (tail, _, r) = read_groups (8 - (length head + 1)) False t in
               if r = [] then Some (ipv6_of_groups (head @ replicate (8 - length head - length tail) 0 @ tail)) else None)
            else None
        | _ \<Rightarrow> None))"

definition ipv4_display :: "ipv4 \<Rightarrow> bytes" where
  "ipv4_display a =
     (let oc = octets4 a in
      decimal (unat (oc ! 0)) @ [46] @ decimal (unat (oc ! 1)) @ [46] @ decimal (unat (oc ! 2)) @ [46] @ decimal (unat (oc ! 3)))"

type_synonym socket_v4 = "ipv4 \<times> u16"

definition socket_v4_display :: "socket_v4 \<Rightarrow> bytes" where
  "socket_v4_display sa = ipv4_display (fst sa) @ [58] @ decimal (unat (snd sa))"

section \<open>The helpers\<close>

record authority =
  au_endpoint :: socket_v4
  au_offset :: nat
  au_len :: nat

definition strip_prefix_ignore_ascii_case :: "bytes \<Rightarrow> bytes \<Rightarrow> bytes option" where
  "strip_prefix_ignore_ascii_case line pre =
     (if length pre \<le> length line \<and> eq_ignore_ascii_case (take (length pre) line) pre
      then Some (drop (length pre) line) else None)"

definition authority_stop :: "u8 \<Rightarrow> bool" where
  "authority_stop b \<longleftrightarrow> b \<in> {47, 63, 35, 32, 9, 13}"

definition parse_authority :: "bytes \<Rightarrow> bool \<Rightarrow> authority option" where
  "parse_authority value bare =
     (case (if bare then Some (value, 0)
            else map_option (\<lambda>rest. (rest, length value - length rest))
                   (strip_prefix_ignore_ascii_case value (bstr ''http://''))) of
        None \<Rightarrow> None
      | Some (rest, auth_offset) \<Rightarrow>
          let len = (case position authority_stop rest of Some i \<Rightarrow> i | None \<Rightarrow> length rest);
              authority = take len rest
          in case (case rposition (\<lambda>b. b = 58) authority of
                 Some colon \<Rightarrow>
                   (case parse_uint 10 65535 (drop (colon + 1) authority) of
                      None \<Rightarrow> None
                    | Some port \<Rightarrow> if port = 0 then None else Some (take colon authority, of_nat port))
               | None \<Rightarrow> Some (authority, 80)) of
               None \<Rightarrow> None
             | Some (host, port) \<Rightarrow>
                 (case ipv4_from_str host of
                    None \<Rightarrow> None
                  | Some addr \<Rightarrow> Some \<lparr>au_endpoint = (addr, port), au_offset = auth_offset, au_len = len\<rparr>))"

definition url_host_ip :: "bytes \<Rightarrow> ipaddr option" where
  "url_host_ip url =
     (case (case strip_prefix_ignore_ascii_case url (bstr ''http://'') of
              Some rest \<Rightarrow> Some rest
            | None \<Rightarrow> strip_prefix_ignore_ascii_case url (bstr ''https://'')) of
        None \<Rightarrow> None
      | Some rest \<Rightarrow>
          (case strip_prefix [91] rest of
             Some v6 \<Rightarrow>
               (case position (\<lambda>b. b = 93) v6 of
                  None \<Rightarrow> None
                | Some close \<Rightarrow>
                    let host = take close v6;
                        host = (case position (\<lambda>b. b = 37) host of Some i \<Rightarrow> take i host | None \<Rightarrow> host)
                    in map_option V6 (ipv6_from_str host))
           | None \<Rightarrow>
               let host = (case position (\<lambda>b. b = 58 \<or> authority_stop b) rest of Some i \<Rightarrow> take i rest | None \<Rightarrow> rest)
               in map_option V4 (ipv4_from_str host)))"

fun find_map :: "('a \<Rightarrow> 'b option) \<Rightarrow> 'a list \<Rightarrow> 'b option" where
  "find_map f [] = None"
| "find_map f (x # xs) = (case f x of Some y \<Rightarrow> Some y | None \<Rightarrow> find_map f xs)"

definition header_value :: "bytes \<Rightarrow> bytes \<Rightarrow> bytes option" where
  "header_value message name =
     map_option trim_ascii_start
       (find_map (\<lambda>line.
          let line = (case strip_suffix [13] line of Some l \<Rightarrow> l | None \<Rightarrow> line) in
          case strip_prefix_ignore_ascii_case line name of
            None \<Rightarrow> None
          | Some rest \<Rightarrow> strip_prefix [58] rest)
        (split_by (\<lambda>b. b = 10) message))"

section \<open>Printed addresses parse back\<close>

lemma digit_byte:
  assumes "n < 10"
  shows "is_ascii_digit (of_nat (48 + n)) \<and> digit_value (of_nat (48 + n)) = n
    \<and> of_nat (48 + n) \<notin> {9, 13, 32, 35, 43, 46, 47, 58, 63 :: u8} \<and> ((of_nat (48 + n) :: u8) = 48 \<longleftrightarrow> n = 0)"
proof -
  have "list_all (\<lambda>n. is_ascii_digit (of_nat (48 + n)) \<and> digit_value (of_nat (48 + n)) = n
    \<and> of_nat (48 + n) \<notin> {9, 13, 32, 35, 43, 46, 47, 58, 63 :: u8} \<and> ((of_nat (48 + n) :: u8) = 48 \<longleftrightarrow> n = 0)) [0..<10]"
    by code_simp
  with assms show ?thesis by (simp add: list_all_iff)
qed

definition plain_digit :: "u8 \<Rightarrow> bool" where
  "plain_digit b \<longleftrightarrow> is_ascii_digit b \<and> b \<notin> {9, 13, 32, 35, 43, 46, 47, 58, 63}"

lemma decimal_facts:
  "list_all plain_digit (decimal n) \<and> decimal n \<noteq> [] \<and> digits_value 10 (decimal n) = n
   \<and> (hd (decimal n) = 48 \<longleftrightarrow> n = 0) \<and> (n = 0 \<longrightarrow> length (decimal n) = 1)
   \<and> (0 < k \<longrightarrow> n < 10 ^ k \<longrightarrow> length (decimal n) \<le> k)"
proof (induction n arbitrary: k rule: decimal.induct)
  case (1 n)
  show ?case
  proof (cases "n < 10")
    case True
    then show ?thesis using digit_byte [OF True] by (subst (1 2 3 4 5 6) decimal.simps) (simp add: plain_digit_def digits_value_def)
  next
    case False
    then have "n div 10 \<noteq> 0" by (simp add: div_eq_0_iff)
    note IH = 1 [OF False]
    have last: "n mod 10 < 10" by simp
    have "length (decimal n) \<le> k" if "0 < k" "n < 10 ^ k" for k
    proof -
      obtain j where k: "k = Suc j" using \<open>0 < k\<close> by (cases k) auto
      have "n div 10 < 10 ^ j" using that(2) k by (simp add: div_less_iff_less_mult mult.commute)
      moreover have "0 < j" using False that(2) k by (cases j) auto
      ultimately have "length (decimal (n div 10)) \<le> j" using IH by blast
      then show ?thesis using False k by (subst decimal.simps) simp
    qed
    moreover have "decimal n = decimal (n div 10) @ [of_nat (48 + n mod 10)]" using False by (subst decimal.simps) simp
    moreover have "digits_value 10 (xs @ [b]) = digits_value 10 xs * 10 + digit_value b" for xs b
      by (simp add: digits_value_def)
    ultimately show ?thesis
      using IH digit_byte [OF last] False \<open>n div 10 \<noteq> 0\<close> by (simp add: plain_digit_def)
  qed
qed

lemma decimal_digits [simp]: "list_all is_ascii_digit (decimal n)" "decimal n \<noteq> []" "digits_value 10 (decimal n) = n"
  using decimal_facts [of n 0] by (auto simp: list_all_iff plain_digit_def)

lemma decimal_avoids: "b \<in> {9, 13, 32, 35, 43, 46, 47, 58, 63} \<Longrightarrow> b \<notin> set (decimal n)"
  using decimal_facts [of n 0] by (auto simp: list_all_iff plain_digit_def)

lemma read_number_decimal:
  assumes "n < 256" and rest: "rest = [] \<or> \<not> is_ascii_digit (hd rest)"
  shows "read_number 10 3 False 255 (decimal n @ rest) = Some (n, rest)"
proof -
  have tw: "takeWhile is_ascii_digit (decimal n @ rest) = decimal n"
  proof -
    have "\<And>x. x \<in> set (decimal n) \<Longrightarrow> is_ascii_digit x"
      using decimal_facts [of n 0] by (simp add: list_all_iff plain_digit_def)
    then have "takeWhile is_ascii_digit (decimal n @ rest) = decimal n @ takeWhile is_ascii_digit rest"
      by (rule takeWhile_append2)
    then show ?thesis using rest by (cases rest) auto
  qed
  have "length (decimal n) \<le> 3" using assms(1) decimal_facts [of n 3] by simp
  moreover have "\<not> (hd (decimal n) = 48 \<and> length (decimal n) > 1)" using decimal_facts [of n 0] by auto
  ultimately show ?thesis using assms(1) tw by (simp add: read_number_def Let_def)
qed

lemma parse_uint_decimal: "n \<le> m \<Longrightarrow> parse_uint 10 m (decimal n) = Some n"
proof -
  assume "n \<le> m"
  have "(case decimal n of b # rest \<Rightarrow> (if b = 43 then rest else decimal n) | [] \<Rightarrow> []) = decimal n"
    using decimal_avoids [of 43 n] by (cases "decimal n") auto
  with \<open>n \<le> m\<close> show ?thesis by (simp add: parse_uint_def)
qed

lemma ipv4_display_roundtrip: "ipv4_from_str (ipv4_display a) = Some a"
proof -
  obtain b0 b1 b2 b3 where oc: "octets4 a = [b0, b1, b2, b3]"
    using length4 [of "octets4 a"] by auto
  have dot: "\<not> is_ascii_digit 46" by code_simp
  have len: "length (decimal (unat b)) \<le> 3" for b :: u8
  proof -
    have "unat b < 10 ^ 3" by (rule less_trans [OF unat_u8_lt]) simp
    then show ?thesis using decimal_facts [of "unat b" 3] by simp
  qed
  note read = read_number_decimal [OF unat_u8_lt]
  have "read_octets (Suc (Suc (Suc (Suc 0)))) False (ipv4_display a) = Some ([unat b0, unat b1, unat b2, unat b3], [])"
    using read [of "[]" b3] by (simp add: ipv4_display_def oc Let_def read_separator_def read dot)
  moreover have "Suc (Suc (Suc (Suc 0))) = 4" by simp
  moreover have "length (ipv4_display a) \<le> 15"
    using len [of b0] len [of b1] len [of b2] len [of b3] by (simp add: ipv4_display_def oc Let_def)
  moreover have "of_be_bytes [b0, b1, b2, b3] = a" using of_octets(1) [of a] by (simp add: oc)
  ultimately show ?thesis by (simp add: ipv4_from_str_def)
qed

lemma ipv4_display_avoids: "b \<in> {9, 13, 32, 35, 47, 58, 63} \<Longrightarrow> b \<notin> set (ipv4_display a)"
  using decimal_avoids by (auto simp: ipv4_display_def Let_def)

lemma socket_display_span:
  "list_all (\<lambda>b. \<not> authority_stop b) (socket_v4_display sa)"
  using ipv4_display_avoids decimal_avoids
  by (auto simp: socket_v4_display_def list_all_iff authority_stop_def)

lemma position_append_stop:
  "list_all (\<lambda>b. \<not> p b) xs \<Longrightarrow> ys = [] \<or> p (hd ys) \<Longrightarrow>
     (case position p (xs @ ys) of Some i \<Rightarrow> i | None \<Rightarrow> length (xs @ ys)) = length xs"
proof -
  assume xs: "list_all (\<lambda>b. \<not> p b) xs" and ys: "ys = [] \<or> p (hd ys)"
  have "position p (xs @ ys) = (case ys of [] \<Rightarrow> None | _ \<Rightarrow> Some (length xs))"
    using xs ys by (induction xs) (auto split: list.splits)
  then show ?thesis by (auto split: list.splits)
qed

lemma rposition_last: "x \<notin> set ys \<Longrightarrow> rposition (\<lambda>b. b = x) (xs @ x # ys) = Some (length xs)"
proof -
  assume "x \<notin> set ys"
  then have "position (\<lambda>b. b = x) (rev ys @ [x] @ rev xs) = Some (length ys)"
  proof -
    have "position (\<lambda>b. b = x) (zs @ [x] @ ws) = Some (length zs)" if "x \<notin> set zs" for zs ws
      using that by (induction zs) auto
    from this [of "rev ys" "rev xs"] \<open>x \<notin> set ys\<close> show ?thesis by simp
  qed
  then show ?thesis by (simp add: rposition_def)
qed

lemma parse_bare_socket:
  assumes port: "snd sa \<noteq> 0" and tail: "tail = [] \<or> authority_stop (hd tail)"
  shows "parse_authority (socket_v4_display sa @ tail) True
    = Some \<lparr>au_endpoint = sa, au_offset = 0, au_len = length (socket_v4_display sa)\<rparr>"
proof -
  let ?v = "socket_v4_display sa"
  have len: "(case position authority_stop (?v @ tail) of Some i \<Rightarrow> i | None \<Rightarrow> length (?v @ tail)) = length ?v"
    by (rule position_append_stop [OF socket_display_span tail])
  have colon: "rposition (\<lambda>b. b = 58) ?v = Some (length (ipv4_display (fst sa)))"
    using decimal_avoids [of 58] by (simp add: socket_v4_display_def rposition_last)
  have "parse_uint 10 65535 (drop (length (ipv4_display (fst sa)) + 1) ?v) = Some (unat (snd sa))"
    using parse_uint_decimal [of "unat (snd sa)" 65535] unat_u16_lt [of "snd sa"] by (simp add: socket_v4_display_def)
  moreover have "take (length (ipv4_display (fst sa))) ?v = ipv4_display (fst sa)" by (simp add: socket_v4_display_def)
  moreover have "unat (snd sa) \<noteq> 0" using port by (simp add: unat_eq_0_iff)
  ultimately show ?thesis
    by (simp add: parse_authority_def Let_def len colon ipv4_display_roundtrip)
qed

lemma parse_url_socket:
  assumes "snd sa \<noteq> 0" and "tail = [] \<or> authority_stop (hd tail)"
    and "length pre = 7" and "eq_ignore_ascii_case pre (bstr ''http://'')"
  shows "parse_authority (pre @ socket_v4_display sa @ tail) False
    = Some \<lparr>au_endpoint = sa, au_offset = 7, au_len = length (socket_v4_display sa)\<rparr>"
proof -
  have len: "length (bstr ''http://'') = 7" by code_simp
  have "strip_prefix_ignore_ascii_case (pre @ socket_v4_display sa @ tail) (bstr ''http://'')
      = Some (socket_v4_display sa @ tail)"
    using assms(3,4) by (simp add: strip_prefix_ignore_ascii_case_def len)
  then show ?thesis
    using parse_bare_socket [OF assms(1,2)] assms(3)
    by (auto simp: parse_authority_def Let_def split: option.splits if_splits)
qed

end
