(* ===== verification/Http_Framing.thy ===== *)
theory Http_Framing
  imports Http
begin

text \<open>
  \<^verbatim>\<open>src/src/net/http/framing.rs\<close>: the per-direction HTTP/1.1 framer of the DIAL proxy. \<open>feed\<close> takes the
  framer and the buffered bytes and answers the framer after the call with what it framed; every
  error of the code closes the connection, so an error carries no framer. The body loop is a
  recursion on the bytes left. \<^verbatim>\<open>usize\<close> is 64 bits wide where it bounds a parsed length.
\<close>

section \<open>State\<close>

definition CRLF :: bytes where "CRLF = [13, 10]"
definition HEADER_TERMINATOR :: bytes where "HEADER_TERMINATOR = [13, 10, 13, 10]"
definition MAX_HEADER :: nat where "MAX_HEADER = 2 * 1024"
definition MAX_CHUNK_LINE :: nat where "MAX_CHUNK_LINE = 256"
definition MAX_TRAILER_LINE :: nat where "MAX_TRAILER_LINE = 1024"

datatype kind = Request | Response

datatype phase = Header | BodyContentLength | BodyChunked | BodyChunkedTrailers | BodyCloseDelimited

datatype framing_error =
    UnsupportedMethod
  | HeaderTooLong
  | MalformedContentLength
  | ConflictingContentLength
  | ContentLengthWithChunked
  | MalformedChunkSize
  | ChunkSizeTooLarge
  | ChunkLineTooLong
  | TrailerLineTooLong

datatype authority_header = Host socket_v4 | ApplicationUrl socket_v4 | Location socket_v4

record rewrite_policy =
  rp_host :: "socket_v4 option"
  rp_application_url :: "socket_v4 option"
  rp_location :: "socket_v4 option"

definition policy_target :: "rewrite_policy \<Rightarrow> authority_header \<Rightarrow> socket_v4 option" where
  "policy_target p h =
     (case h of
        Host _ \<Rightarrow> rp_host p
      | ApplicationUrl _ \<Rightarrow> rp_application_url p
      | Location _ \<Rightarrow> rp_location p)"

record framed =
  fd_header :: bytes
  fd_body :: bytes
  fd_consumed :: nat
  fd_application_url :: "socket_v4 option"

record http_framing =
  hf_kind :: kind
  hf_rewrite :: rewrite_policy
  hf_phase :: phase
  hf_header :: bytes
  hf_body_remaining :: nat
  hf_chunk_remaining :: nat

definition framing_new :: "kind \<Rightarrow> rewrite_policy \<Rightarrow> http_framing" where
  "framing_new knd rewrite = \<lparr>hf_kind = knd, hf_rewrite = rewrite, hf_phase = Header, hf_header = [],
     hf_body_remaining = 0, hf_chunk_remaining = 0\<rparr>"

section \<open>Scanning\<close>

definition find_crlf :: "bytes \<Rightarrow> nat option" where
  "find_crlf s = find_window CRLF s"

definition find_header_end :: "bytes \<Rightarrow> nat option" where
  "find_header_end input = map_option (\<lambda>i. i + length HEADER_TERMINATOR) (find_window HEADER_TERMINATOR input)"

definition parse_chunk_size :: "bytes \<Rightarrow> (framing_error, nat) result" where
  "parse_chunk_size line =
     (let hex = (case position (\<lambda>b. b = 59) line of Some semi \<Rightarrow> take semi line | None \<Rightarrow> line);
          hex = trim_ascii hex
      in if hex = [] \<or> \<not> is_ascii_hexdigit (hd hex) then Inl MalformedChunkSize
         else ok_or MalformedChunkSize (parse_uint 16 USIZE_MAX hex))"

definition parse_status_code :: "bytes \<Rightarrow> nat" where
  "parse_status_code line =
     (case nth_opt (split_by (\<lambda>b. b = 32) line) 1 of
        None \<Rightarrow> 0
      | Some field \<Rightarrow> (case parse_uint 10 65535 field of Some n \<Rightarrow> n | None \<Rightarrow> 0))"

definition parse_content_length :: "bytes \<Rightarrow> (framing_error, nat) result" where
  "parse_content_length value =
     (let digits = trim_ascii value in
      if digits = [] \<or> \<not> is_ascii_digit (hd digits) then Inl MalformedContentLength
      else ok_or MalformedContentLength (parse_uint 10 USIZE_MAX digits))"

definition value_has_chunked :: "bytes \<Rightarrow> bool" where
  "value_has_chunked value =
     list_ex (\<lambda>coding. eq_ignore_ascii_case (trim_ascii coding) (bstr ''chunked'')) (split_by (\<lambda>b. b = 44) value)"

definition rewritable_authority :: "bytes \<Rightarrow> kind \<Rightarrow> (nat \<times> authority \<times> authority_header) option" where
  "rewritable_authority line knd =
     (case (case knd of
              Request \<Rightarrow> map_option (\<lambda>v. (v, True, Host)) (strip_prefix_ignore_ascii_case line (bstr ''Host:''))
            | Response \<Rightarrow>
                (case strip_prefix_ignore_ascii_case line (bstr ''Application-URL:'') of
                   Some rest \<Rightarrow> Some (rest, False, ApplicationUrl)
                 | None \<Rightarrow> map_option (\<lambda>rest. (rest, False, Location))
                             (strip_prefix_ignore_ascii_case line (bstr ''Location:'')))) of
        None \<Rightarrow> None
      | Some (value, bare, wrap) \<Rightarrow>
          let trimmed = trim_ascii_start value;
              value_off = length line - length trimmed
          in case parse_authority trimmed bare of
               None \<Rightarrow> None
             | Some found \<Rightarrow> Some (value_off, found, wrap (au_endpoint found)))"

definition copy_line :: "http_framing \<Rightarrow> bytes \<Rightarrow> http_framing" where
  "copy_line f line = f\<lparr>hf_header := hf_header f @ line @ CRLF\<rparr>"

section \<open>The header\<close>

text \<open>The loop variables of \<^verbatim>\<open>scan_and_rewrite_header\<close> that a line may change.\<close>

record scan =
  sc_framing :: http_framing
  sc_content_length :: "nat option"
  sc_chunked :: bool
  sc_application_url :: "socket_v4 option"
  sc_status :: nat

definition inspect_and_emit :: "scan \<Rightarrow> bytes \<Rightarrow> (framing_error, scan \<times> authority_header option) result" where
  "inspect_and_emit s line =
     (let f = sc_framing s in
      case strip_prefix_ignore_ascii_case line (bstr ''Content-Length:'') of
        Some value \<Rightarrow>
          result_bind (parse_content_length value) (\<lambda>n.
            if (case sc_content_length s of Some prev \<Rightarrow> prev \<noteq> n | None \<Rightarrow> False) then Inl ConflictingContentLength
            else Inr (s\<lparr>sc_content_length := Some n, sc_framing := copy_line f line\<rparr>, None))
      | None \<Rightarrow>
          (case strip_prefix_ignore_ascii_case line (bstr ''Transfer-Encoding:'') of
             Some value \<Rightarrow>
               Inr (s\<lparr>sc_chunked := (sc_chunked s \<or> value_has_chunked value), sc_framing := copy_line f line\<rparr>, None)
           | None \<Rightarrow>
               (case rewritable_authority line (hf_kind f) of
                  Some (value_off, found, header) \<Rightarrow>
                    (case policy_target (hf_rewrite f) header of
                       Some repl \<Rightarrow>
                         let auth_start = value_off + au_offset found in
                         Inr (s\<lparr>sc_framing := f\<lparr>hf_header := hf_header f @ take auth_start line @ socket_v4_display repl
                                 @ drop (auth_start + au_len found) line @ CRLF\<rparr>\<rparr>, Some header)
                     | None \<Rightarrow> Inr (s\<lparr>sc_framing := copy_line f line\<rparr>, Some header))
                | None \<Rightarrow> Inr (s\<lparr>sc_framing := copy_line f line\<rparr>, None))))"

definition scan_first_line :: "scan \<Rightarrow> bytes \<Rightarrow> (framing_error, scan) result" where
  "scan_first_line s line =
     (let f = sc_framing s in
      case hf_kind f of
        Response \<Rightarrow> Inr (s\<lparr>sc_status := parse_status_code line, sc_framing := copy_line f line\<rparr>)
      | Request \<Rightarrow>
          if starts_with line (bstr ''HEAD '') then Inl UnsupportedMethod
          else Inr (s\<lparr>sc_framing := copy_line f line\<rparr>))"

definition scan_line :: "scan \<Rightarrow> bytes \<Rightarrow> (framing_error, scan) result" where
  "scan_line s line =
     result_bind (inspect_and_emit s line) (\<lambda>(s, header).
       Inr (case header of
          Some (ApplicationUrl ep) \<Rightarrow>
            (if sc_application_url s = None then s\<lparr>sc_application_url := Some ep\<rparr> else s)
        | _ \<Rightarrow> s))"

function scan_lines :: "scan \<Rightarrow> bytes \<Rightarrow> nat \<Rightarrow> bool \<Rightarrow> (framing_error, scan) result" where
  "scan_lines s block pos first =
     (if \<not> pos < length block then Inr s
      else
        let line_end = (case find_crlf (drop pos block) of Some i \<Rightarrow> pos + i | None \<Rightarrow> length block);
            line = sub_slice pos line_end block
        in result_bind (if first then scan_first_line s line else scan_line s line)
             (\<lambda>s. scan_lines s block (line_end + length CRLF) False))"
  by pat_completeness auto
termination
  by (relation "measure (\<lambda>(s, block, pos, first). length block - pos)")
     (auto simp: CRLF_def split: option.splits)

declare scan_lines.simps [simp del]

definition bodyless_status :: "kind \<Rightarrow> nat \<Rightarrow> bool" where
  "bodyless_status knd status \<longleftrightarrow> knd = Response \<and> (100 \<le> status \<and> status \<le> 199 \<or> status = 204 \<or> status = 304)"

definition set_body_phase :: "http_framing \<Rightarrow> nat \<Rightarrow> nat option \<Rightarrow> bool \<Rightarrow> http_framing" where
  "set_body_phase f status content_length chunked =
     (let f = f\<lparr>hf_body_remaining := 0, hf_chunk_remaining := 0\<rparr> in
      if bodyless_status (hf_kind f) status then f\<lparr>hf_phase := Header\<rparr>
      else if chunked then f\<lparr>hf_phase := BodyChunked\<rparr>
      else case content_length of
          Some n \<Rightarrow> if n = 0 then f\<lparr>hf_phase := Header\<rparr>
                    else f\<lparr>hf_body_remaining := n, hf_phase := BodyContentLength\<rparr>
        | None \<Rightarrow> (case hf_kind f of
              Request \<Rightarrow> f\<lparr>hf_phase := Header\<rparr>
            | Response \<Rightarrow> f\<lparr>hf_phase := BodyCloseDelimited\<rparr>))"

definition scan_start :: "http_framing \<Rightarrow> scan" where
  "scan_start f = \<lparr>sc_framing = f\<lparr>hf_header := []\<rparr>, sc_content_length = None, sc_chunked = False,
     sc_application_url = None, sc_status = 0\<rparr>"

definition scan_and_rewrite_header ::
  "http_framing \<Rightarrow> bytes \<Rightarrow> (framing_error, http_framing \<times> socket_v4 option) result" where
  "scan_and_rewrite_header f block =
     result_bind (scan_lines (scan_start f) block 0 True) (\<lambda>s.
       if sc_content_length s \<noteq> None \<and> sc_chunked s then Inl ContentLengthWithChunked
       else Inr (set_body_phase (sc_framing s) (sc_status s) (sc_content_length s) (sc_chunked s),
                 sc_application_url s))"

section \<open>The body\<close>

text \<open>One turn of the loop with bytes left: the state and position, and whether to go round again.\<close>

definition body_step :: "http_framing \<Rightarrow> bytes \<Rightarrow> nat \<Rightarrow> (framing_error, http_framing \<times> nat \<times> bool) result" where
  "body_step f input pos =
     (case hf_phase f of
        Header \<Rightarrow> Inr (f, pos, False)
      | BodyContentLength \<Rightarrow>
          let took = min (hf_body_remaining f) (length input - pos);
              f = f\<lparr>hf_body_remaining := hf_body_remaining f - took\<rparr>
          in Inr (if hf_body_remaining f = 0 then f\<lparr>hf_phase := Header\<rparr> else f, pos + took, False)
      | BodyCloseDelimited \<Rightarrow> Inr (f, length input, False)
      | BodyChunked \<Rightarrow>
          if hf_chunk_remaining f > 0 then
            let took = min (hf_chunk_remaining f) (length input - pos);
                f = f\<lparr>hf_chunk_remaining := hf_chunk_remaining f - took\<rparr>
            in Inr (f, pos + took, \<not> hf_chunk_remaining f > 0)
          else
            (case find_crlf (drop pos input) of
               None \<Rightarrow> if length input - pos > MAX_CHUNK_LINE then Inl ChunkLineTooLong else Inr (f, pos, False)
             | Some rel \<Rightarrow>
                 result_bind (parse_chunk_size (sub_slice pos (pos + rel) input)) (\<lambda>size.
                   let pos = pos + rel + length CRLF in
                   if size = 0 then Inr (f\<lparr>hf_phase := BodyChunkedTrailers\<rparr>, pos, True)
                   else if size + length CRLF > USIZE_MAX then Inl ChunkSizeTooLarge
                   else Inr (f\<lparr>hf_chunk_remaining := size + length CRLF\<rparr>, pos, True)))
      | BodyChunkedTrailers \<Rightarrow>
          (case find_crlf (drop pos input) of
             None \<Rightarrow> if length input - pos > MAX_TRAILER_LINE then Inl TrailerLineTooLong else Inr (f, pos, False)
           | Some rel \<Rightarrow>
               Inr (if rel = 0 then f\<lparr>hf_phase := Header\<rparr> else f, pos + rel + length CRLF, True)))"

lemma body_step_advances:
  "body_step f input pos = Inr (f', pos', True) \<Longrightarrow> pos < length input \<Longrightarrow> pos < pos'"
  by (auto simp: body_step_def CRLF_def Let_def result_bind_Inr_iff split: phase.splits if_splits option.splits)

function body_loop :: "http_framing \<Rightarrow> bytes \<Rightarrow> nat \<Rightarrow> (framing_error, http_framing \<times> nat) result" where
  "body_loop f input pos =
     (if pos \<ge> length input then Inr (f, pos)
      else case body_step f input pos of
          Inl e \<Rightarrow> Inl e
        | Inr (f, pos, again) \<Rightarrow> if again then body_loop f input pos else Inr (f, pos))"
  by pat_completeness auto
termination
  by (relation "measure (\<lambda>(f, input, pos). length input - pos)") (auto dest: body_step_advances)

declare body_loop.simps [simp del]

section \<open>Feeding\<close>

fun skip_crlf :: "bytes \<Rightarrow> nat" where
  "skip_crlf (a # b # rest) = (if [a, b] = CRLF then 2 + skip_crlf rest else 0)"
| "skip_crlf _ = 0"

definition feed_body :: "http_framing \<Rightarrow> bytes \<Rightarrow> nat \<Rightarrow> bool \<Rightarrow> socket_v4 option \<Rightarrow> (framing_error, http_framing \<times> framed) result" where
  "feed_body f input body_start header_complete application_url =
     result_bind (body_loop f input body_start) (\<lambda>(f, pos).
       Inr (f, \<lparr>fd_header = (if header_complete then hf_header f else []), fd_body = sub_slice body_start pos input,
                 fd_consumed = pos, fd_application_url = application_url\<rparr>))"

definition feed :: "http_framing \<Rightarrow> bytes \<Rightarrow> (framing_error, http_framing \<times> framed) result" where
  "feed f input =
     (if hf_phase f = Header then
        let pos = skip_crlf input; rest = drop pos input in
        case find_header_end rest of
          None \<Rightarrow>
            if length rest > MAX_HEADER then Inl HeaderTooLong
            else Inr (f, \<lparr>fd_header = [], fd_body = [], fd_consumed = 0, fd_application_url = None\<rparr>)
        | Some stop \<Rightarrow>
            if stop > MAX_HEADER then Inl HeaderTooLong
            else result_bind (scan_and_rewrite_header f (take stop rest)) (\<lambda>(f, application_url).
                   feed_body f input (pos + stop) True application_url)
      else feed_body f input 0 False None)"

section \<open>The loop stays in its input\<close>

lemma find_crlf_bound: "find_crlf xs = Some i \<Longrightarrow> i + 2 \<le> length xs"
  using find_window_bound [of CRLF xs i] by (simp add: find_crlf_def CRLF_def)

lemma body_step_bounds:
  assumes "body_step f input pos = Inr (f', pos', again)" and "pos < length input"
  shows "pos \<le> pos' \<and> pos' \<le> length input \<and> hf_header f' = hf_header f \<and> hf_kind f' = hf_kind f \<and> hf_rewrite f' = hf_rewrite f"
  using assms find_crlf_bound [of "drop pos input"]
  by (fastforce simp: body_step_def CRLF_def Let_def result_bind_Inr_iff split: phase.splits if_splits option.splits)

lemma body_loop_bounds:
  "body_loop f input pos = Inr (f', pos') \<Longrightarrow> pos \<le> length input \<Longrightarrow>
     pos \<le> pos' \<and> pos' \<le> length input \<and> hf_header f' = hf_header f \<and> hf_kind f' = hf_kind f \<and> hf_rewrite f' = hf_rewrite f"
proof (induction f input pos rule: body_loop.induct)
  case (1 f input pos)
  show ?case
  proof (cases "pos \<ge> length input")
    case True
    then show ?thesis using 1 by (simp add: body_loop.simps)
  next
    case False
    with 1(2) obtain g p again where st: "body_step f input pos = Inr (g, p, again)"
      by (cases "body_step f input pos") (auto simp: body_loop.simps)
    note bounds = body_step_bounds [OF st]
    show ?thesis
    proof (cases again)
      case True
      then have "body_loop g input p = Inr (f', pos')" using 1(2) st False by (simp add: body_loop.simps)
      with 1(1) [OF False st refl refl True] bounds False show ?thesis by auto
    next
      case False': False
      then show ?thesis using 1(2) st False bounds by (simp add: body_loop.simps)
    qed
  qed
qed

lemma find_header_end_bound: "find_header_end xs = Some i \<Longrightarrow> 4 \<le> i \<and> i \<le> length xs"
  using find_window_bound [of HEADER_TERMINATOR xs] by (auto simp: find_header_end_def HEADER_TERMINATOR_def)

lemma skip_crlf_bound: "skip_crlf xs \<le> length xs"
  by (induction xs rule: skip_crlf.induct) auto

text \<open>What \<open>feed\<close> forwards comes from its input: it never consumes more than it was given, the body
  is the very slice of the input that ends where it stopped consuming, and a header is only ever
  reported together with the consumption of a whole header block within the cap.\<close>

theorem feed_within_input:
  assumes "feed f input = Inr (f', out)"
  shows "fd_consumed out \<le> length input
    \<and> fd_body out = sub_slice (fd_consumed out - length (fd_body out)) (fd_consumed out) input
    \<and> (fd_header out \<noteq> [] \<longrightarrow> hf_phase f = Header \<and> 4 \<le> fd_consumed out - length (fd_body out))
    \<and> (hf_phase f = Header \<longrightarrow> 0 < fd_consumed out \<longrightarrow> (\<exists>stop \<le> MAX_HEADER.
        find_header_end (drop (skip_crlf input) input) = Some stop
        \<and> fd_consumed out = skip_crlf input + stop + length (fd_body out)))"
proof -
  have body: "fd_consumed out \<le> length input \<and> fd_body out = sub_slice (fd_consumed out - length (fd_body out)) (fd_consumed out) input
      \<and> fd_consumed out = start + length (fd_body out) \<and> (fd_header out \<noteq> [] \<longrightarrow> hc)"
    if b: "feed_body g input start hc url = Inr (f', out)" and start: "start \<le> length input" for g start hc url
  proof -
    obtain p where p: "body_loop g input start = Inr (f', p)"
      and out: "fd_body out = sub_slice start p input" "fd_consumed out = p" "fd_header out \<noteq> [] \<longrightarrow> hc"
      using b by (auto simp: feed_body_def result_bind_Inr_iff split: if_splits)
    have "start \<le> p" "p \<le> length input" using body_loop_bounds [OF p start] by auto
    then have "length (fd_body out) = p - start" by (simp add: out)
    with out \<open>start \<le> p\<close> \<open>p \<le> length input\<close> show ?thesis by simp
  qed
  show ?thesis
  proof (cases "hf_phase f = Header")
    case False
    then have "feed_body f input 0 False None = Inr (f', out)" using assms by (simp add: feed_def)
    from body [OF this] False show ?thesis by auto
  next
    case True
    let ?rest = "drop (skip_crlf input) input"
    show ?thesis
    proof (cases "find_header_end ?rest")
      case None
      then show ?thesis using assms True by (auto simp: feed_def Let_def sub_slice_def split: if_splits)
    next
      case (Some stop)
      have stop: "4 \<le> stop" "skip_crlf input + stop \<le> length input"
        using find_header_end_bound [OF Some] skip_crlf_bound [of input] by auto
      obtain g url where "feed_body g input (skip_crlf input + stop) True url = Inr (f', out)" "stop \<le> MAX_HEADER"
        using assms True Some by (auto simp: feed_def Let_def result_bind_Inr_iff split: if_splits)
      from body [OF this(1) stop(2)] this(2) Some stop True show ?thesis by auto
    qed
  qed
qed

section \<open>Segmentation\<close>

text \<open>Where the loop stops in the middle of a body, more input takes it up from there.\<close>

lemma find_crlf_append: "find_crlf xs = Some i \<Longrightarrow> find_crlf (xs @ ys) = Some i"
  unfolding find_crlf_def by (rule find_window_append)

lemma body_step_again_append:
  assumes st: "body_step f a pos = Inr (g, p, True)" and pos: "pos < length a"
  shows "body_step f (a @ b) pos = Inr (g, p, True)"
proof -
  have crlf: "find_crlf (drop pos a) = Some i \<Longrightarrow> find_crlf (drop pos (a @ b)) = Some i" for i
    using pos find_crlf_append [of "drop pos a" i b] by simp
  have slice: "sub_slice pos (pos + i) (a @ b) = sub_slice pos (pos + i) a" if "find_crlf (drop pos a) = Some i" for i
    using find_crlf_bound [OF that] pos by (simp add: sub_slice_def)
  show ?thesis
  proof (cases "hf_phase f")
    case BodyChunked
    show ?thesis
    proof (cases "hf_chunk_remaining f > 0")
      case True
      with st BodyChunked have "hf_chunk_remaining f \<le> length a - pos" by (auto simp: body_step_def Let_def)
      with st BodyChunked True show ?thesis by (auto simp: body_step_def Let_def min_def)
    next
      case False
      with st BodyChunked crlf slice show ?thesis
        by (auto simp: body_step_def split: option.splits if_splits)
    qed
  next
    case BodyChunkedTrailers
    with st crlf show ?thesis by (auto simp: body_step_def split: option.splits if_splits)
  qed (use st in \<open>auto simp: body_step_def Let_def\<close>)
qed

lemma body_loop_Header: "hf_phase f = Header \<Longrightarrow> body_loop f input pos = Inr (f, pos)"
  by (simp add: body_loop.simps [of f] body_step_def)

lemma body_loop_close:
  "hf_phase f = BodyCloseDelimited \<Longrightarrow> pos \<le> length input \<Longrightarrow> body_loop f input pos = Inr (f, length input)"
  by (auto simp: body_loop.simps [of f] body_step_def)

lemma body_loop_same_step:
  "body_step f input p = body_step g input q \<Longrightarrow> p < length input \<Longrightarrow> q < length input \<Longrightarrow>
     body_loop f input p = body_loop g input q"
  by (simp add: body_loop.simps [of f] body_loop.simps [of g])

lemma body_step_stop_append:
  assumes st: "body_step f a pos = Inr (g, p, False)" and pos: "pos < length a"
  shows "body_loop f (a @ b) pos = body_loop g (a @ b) p"
proof (cases "hf_phase f")
  case Header
  then show ?thesis using st by (simp add: body_step_def)
next
  case BodyContentLength
  let ?n = "hf_body_remaining f" let ?took = "min ?n (length a - pos)"
  show ?thesis
  proof (cases "?n \<le> length a - pos")
    case True
    with st BodyContentLength have "g = f\<lparr>hf_body_remaining := 0, hf_phase := Header\<rparr>" "p = pos + ?n"
      by (auto simp: body_step_def Let_def)
    with True pos BodyContentLength body_loop_Header [of g "a @ b" p] show ?thesis
      by (auto simp: body_loop.simps [of f] body_step_def Let_def min_def)
  next
    case False
    with st BodyContentLength have "g = f\<lparr>hf_body_remaining := ?n - (length a - pos)\<rparr>" "p = length a"
      using pos by (auto simp: body_step_def Let_def)
    note g = this
    show ?thesis
    proof (cases "b = []")
      case True
      then show ?thesis using st pos g by (simp add: body_loop.simps)
    next
      case more: False
      then have "body_step f (a @ b) pos = body_step g (a @ b) p"
        using False g BodyContentLength pos by (auto simp: body_step_def Let_def min_def)
      then show ?thesis using more pos g(2) by (intro body_loop_same_step) auto
    qed
  qed
next
  case BodyCloseDelimited
  with st have "g = f" "p = length a" by (simp_all add: body_step_def)
  with BodyCloseDelimited pos show ?thesis by (simp add: body_loop_close)
next
  case BodyChunked
  show ?thesis
  proof (cases "hf_chunk_remaining f > 0")
    case True
    with st BodyChunked have lt: "length a - pos < hf_chunk_remaining f"
      and g: "g = f\<lparr>hf_chunk_remaining := hf_chunk_remaining f - (length a - pos)\<rparr>" "p = length a"
      using pos by (auto simp: body_step_def Let_def min_def split: if_splits)
    show ?thesis
    proof (cases "b = []")
      case True
      then show ?thesis using st pos g by (simp add: body_loop.simps)
    next
      case False
      then have "body_step f (a @ b) pos = body_step g (a @ b) p"
        using lt g BodyChunked pos by (auto simp: body_step_def Let_def min_def)
      then show ?thesis using False pos g(2) by (intro body_loop_same_step) auto
    qed
  next
    case False
    with st BodyChunked show ?thesis
      by (auto simp: body_step_def Let_def result_bind_Inr_iff split: option.splits if_splits)
  qed
next
  case BodyChunkedTrailers
  with st show ?thesis by (auto simp: body_step_def split: option.splits if_splits)
qed

lemma body_loop_append:
  "body_loop f a pos = Inr (g, p) \<Longrightarrow> pos \<le> length a \<Longrightarrow> body_loop f (a @ b) pos = body_loop g (a @ b) p"
proof (induction f a pos rule: body_loop.induct)
  case (1 f a pos)
  show ?case
  proof (cases "pos \<ge> length a")
    case True
    then show ?thesis using 1(2) by (simp add: body_loop.simps [of f a])
  next
    case False
    with 1(2) obtain g' p' again where st: "body_step f a pos = Inr (g', p', again)"
      by (cases "body_step f a pos") (auto simp: body_loop.simps [of f a])
    show ?thesis
    proof (cases again)
      case True
      then have "body_loop g' a p' = Inr (g, p)" using 1(2) st False by (simp add: body_loop.simps [of f a])
      then have "body_loop g' (a @ b) p' = body_loop g (a @ b) p"
        using 1(1) [OF False st refl refl True] body_step_bounds [OF st] False by auto
      moreover have "body_loop f (a @ b) pos = body_loop g' (a @ b) p'"
        using body_step_again_append [of f a pos g' p' b] st True False by (simp add: body_loop.simps [of f "a @ b"])
      ultimately show ?thesis by simp
    next
      case stop: False
      then have "g' = g" "p' = p" using 1(2) st False by (auto simp: body_loop.simps [of f a])
      then show ?thesis using body_step_stop_append [of f a pos g p b] st stop False by simp
    qed
  qed
qed

text \<open>The loop reads its input only from its position on.\<close>

lemma body_step_shift:
  "body_step f (xs @ input) (length xs + pos) =
     (case body_step f input pos of Inl e \<Rightarrow> Inl e | Inr (g, p, again) \<Rightarrow> Inr (g, length xs + p, again))"
  by (auto simp: body_step_def Let_def sub_slice_def result_bind_def split: phase.split option.split sum.split)

lemma body_loop_shift:
  "body_loop f (xs @ input) (length xs + pos) =
     (case body_loop f input pos of Inl e \<Rightarrow> Inl e | Inr (g, p) \<Rightarrow> Inr (g, length xs + p))"
proof (induction f input pos rule: body_loop.induct)
  case (1 f input pos)
  show ?case
  proof (cases "pos \<ge> length input")
    case True
    then show ?thesis by (simp add: body_loop.simps)
  next
    case False
    show ?thesis
    proof (cases "body_step f input pos")
      case (Inl e)
      then show ?thesis using False by (simp add: body_loop.simps [of f] body_step_shift)
    next
      case (Inr r)
      then obtain g p again where st: "body_step f input pos = Inr (g, p, again)" by (metis prod_cases3)
      show ?thesis
      proof (cases again)
        case True
        then show ?thesis using 1 [OF False st refl refl True] st False
          by (simp add: body_loop.simps [of f] body_step_shift)
      next
        case stop: False
        then show ?thesis using st False by (simp add: body_loop.simps [of f] body_step_shift)
      qed
    qed
  qed
qed

text \<open>C24. Segmentation does not matter to a body: with a body in progress, feeding \<open>a\<close> and then, with
  what was consumed dropped, the rest followed by \<open>b\<close>, frames exactly what feeding \<open>a @ b\<close> at once
  does, down to the state of the framer and the error, if any.\<close>

theorem feed_segmentation:
  assumes mid: "hf_phase f \<noteq> Header" and first: "feed f a = Inr (g, out)" and more: "hf_phase g \<noteq> Header"
  shows "feed f (a @ b) =
    (case feed g (drop (fd_consumed out) a @ b) of
       Inl e \<Rightarrow> Inl e
     | Inr (h, out') \<Rightarrow> Inr (h, \<lparr>fd_header = [], fd_body = fd_body out @ fd_body out',
         fd_consumed = fd_consumed out + fd_consumed out', fd_application_url = None\<rparr>))"
proof -
  from mid first obtain p where p: "body_loop f a 0 = Inr (g, p)"
    and out: "fd_consumed out = p" "fd_body out = take p a"
    by (auto simp: feed_def feed_body_def result_bind_Inr_iff sub_slice_def)
  have "p \<le> length a" using body_loop_bounds [OF p] by simp
  have "body_loop f (a @ b) 0 = body_loop g (take p a @ drop p a @ b) (length (take p a) + 0)"
    using body_loop_append [OF p, of b] \<open>p \<le> length a\<close> by (simp flip: append_assoc)
  also have "\<dots> = (case body_loop g (drop p a @ b) 0 of Inl e \<Rightarrow> Inl e | Inr (h, q) \<Rightarrow> Inr (h, p + q))"
  proof -
    have "length (take p a) = p" using \<open>p \<le> length a\<close> by simp
    then show ?thesis unfolding body_loop_shift by (simp only:)
  qed
  finally have loop: "body_loop f (a @ b) 0 = (case body_loop g (drop p a @ b) 0 of Inl e \<Rightarrow> Inl e | Inr (h, q) \<Rightarrow> Inr (h, p + q))" .
  show ?thesis
  proof (cases "body_loop g (drop p a @ b) 0")
    case (Inl e)
    then show ?thesis using loop mid more out by (simp add: feed_def feed_body_def)
  next
    case (Inr r)
    then obtain h q where r: "body_loop g (drop p a @ b) 0 = Inr (h, q)" by (metis surj_pair)
    have "take (p + q) (a @ b) = take p a @ take q (drop p a @ b)"
      using \<open>p \<le> length a\<close> by (simp add: take_add add.commute [of q p])
    with r loop mid more out \<open>p \<le> length a\<close> show ?thesis
      by (simp add: feed_def feed_body_def sub_slice_def)
  qed
qed

definition sample_policy :: rewrite_policy where
  "sample_policy = \<lparr>rp_host = Some (0x0a000001, 8080), rp_application_url = None, rp_location = None\<rparr>"

definition sample_body :: http_framing where
  "sample_body = (framing_new Request sample_policy)\<lparr>hf_phase := BodyContentLength, hf_body_remaining := 5\<rparr>"

lemma feed_segmentation_witness:
  "feed sample_body ([1, 2] @ [3, 4, 5, 6]) =
    (case feed (sample_body\<lparr>hf_body_remaining := 3\<rparr>) (drop 2 [1, 2] @ [3, 4, 5, 6]) of
       Inl e \<Rightarrow> Inl e
     | Inr (h, out') \<Rightarrow> Inr (h, \<lparr>fd_header = [], fd_body = [1, 2] @ fd_body out',
         fd_consumed = 2 + fd_consumed out', fd_application_url = None\<rparr>))"
proof -
  let ?out = "\<lparr>fd_header = [], fd_body = [1, 2], fd_consumed = 2, fd_application_url = None\<rparr>"
  have first: "feed sample_body [1, 2] = Inr (sample_body\<lparr>hf_body_remaining := 3\<rparr>, ?out)" by code_simp
  have mid: "hf_phase sample_body \<noteq> Header" and more: "hf_phase (sample_body\<lparr>hf_body_remaining := 3\<rparr>) \<noteq> Header"
    by code_simp+
  show ?thesis using feed_segmentation [OF mid first more, of "[3, 4, 5, 6]"] by (simp only: framed.select_convs)
qed

lemma feed_within_input_witness:
  "fd_consumed (snd (projr (feed sample_body [1, 2, 3]))) \<le> length [1 :: u8, 2, 3]"
proof -
  have "feed sample_body [1, 2, 3] = Inr (fst (projr (feed sample_body [1, 2, 3])), snd (projr (feed sample_body [1, 2, 3])))"
    by code_simp
  from feed_within_input [OF this] show ?thesis by blast
qed

section \<open>Header lines\<close>

text \<open>A block as the lines it holds, and the scan as a pass over them.\<close>

definition block_of :: "bytes list \<Rightarrow> bytes" where
  "block_of ls = concat (map (\<lambda>l. l @ CRLF) ls)"

fun scan_all :: "scan \<Rightarrow> bytes list \<Rightarrow> (framing_error, scan) result" where
  "scan_all s [] = Inr s"
| "scan_all s (l # ls) = result_bind (scan_line s l) (\<lambda>s. scan_all s ls)"

lemma find_crlf_line: "find_crlf l = None \<Longrightarrow> find_crlf (l @ CRLF @ rest) = Some (length l)"
proof (induction l)
  case (Cons x l)
  from Cons.prems have no: "\<not> take 2 (x # l) = [13, 10]" and none: "find_crlf l = None"
    by (auto simp: find_crlf_def CRLF_def split: if_splits)
  have "take 2 (x # l @ CRLF @ rest) \<noteq> [13, 10]"
    using no by (cases l) (auto simp: CRLF_def)
  with Cons.IH [OF none] show ?case by (simp add: find_crlf_def CRLF_def)
qed (simp add: find_crlf_def CRLF_def)

lemma scan_lines_block:
  assumes "list_all (\<lambda>l. find_crlf l = None) ls"
  shows "scan_lines s (pre @ block_of ls) (length pre) False = scan_all s ls"
  using assms
proof (induction ls arbitrary: s pre)
  case Nil
  then show ?case by (simp add: scan_lines.simps block_of_def)
next
  case (Cons l ls)
  have line: "find_crlf (block_of (l # ls)) = Some (length l)"
    using find_crlf_line [of l "block_of ls"] Cons.prems by (simp add: block_of_def)
  have IH: "scan_lines s' (pre @ block_of (l # ls)) (length pre + length l + length CRLF) False = scan_all s' ls" for s'
    using Cons.IH [of s' "pre @ l @ CRLF"] Cons.prems by (simp add: block_of_def add.assoc)
  have "sub_slice (length pre) (length pre + length l) (pre @ block_of (l # ls)) = l"
    by (simp add: sub_slice_def block_of_def)
  moreover have "length pre < length (pre @ block_of (l # ls))" by (simp add: block_of_def CRLF_def)
  ultimately show ?case
    by (subst scan_lines.simps) (simp add: line IH)
qed

lemma scan_lines_header:
  assumes "list_all (\<lambda>l. find_crlf l = None) (l # ls)"
  shows "scan_lines s (block_of (l # ls)) 0 True = result_bind (scan_first_line s l) (\<lambda>s. scan_all s ls)"
proof -
  have line: "find_crlf (block_of (l # ls)) = Some (length l)"
    using find_crlf_line [of l "block_of ls"] assms by (simp add: block_of_def)
  have rest: "scan_lines s' (block_of (l # ls)) (length l + length CRLF) False = scan_all s' ls" for s'
    using scan_lines_block [of ls s' "l @ CRLF"] assms by (simp add: block_of_def)
  have "sub_slice 0 (length l) (block_of (l # ls)) = l" by (simp add: sub_slice_def block_of_def)
  moreover have "0 < length (block_of (l # ls))" by (simp add: block_of_def CRLF_def)
  ultimately show ?thesis by (subst scan_lines.simps) (simp add: line rest)
qed

text \<open>What the scan makes of a line past the first.\<close>

definition rewrite_line :: "kind \<Rightarrow> rewrite_policy \<Rightarrow> bytes \<Rightarrow> bytes" where
  "rewrite_line knd policy line =
     (if strip_prefix_ignore_ascii_case line (bstr ''Content-Length:'') \<noteq> None
       \<or> strip_prefix_ignore_ascii_case line (bstr ''Transfer-Encoding:'') \<noteq> None then line
      else case rewritable_authority line knd of
          None \<Rightarrow> line
        | Some (off, found, header) \<Rightarrow>
            (case policy_target policy header of
               None \<Rightarrow> line
             | Some repl \<Rightarrow> take (off + au_offset found) line @ socket_v4_display repl
                 @ drop (off + au_offset found + au_len found) line))"

text \<open>Each line extends the scratch by its rewrite and keeps the framer's configuration.\<close>

definition extends_by :: "scan \<Rightarrow> bytes \<Rightarrow> scan \<Rightarrow> bool" where
  "extends_by s bs s' \<longleftrightarrow> hf_header (sc_framing s') = hf_header (sc_framing s) @ bs
     \<and> hf_kind (sc_framing s') = hf_kind (sc_framing s) \<and> hf_rewrite (sc_framing s') = hf_rewrite (sc_framing s)
     \<and> sc_status s' = sc_status s"

lemma inspect_and_emit_extends:
  assumes "inspect_and_emit s line = Inr (s', h)"
  shows "extends_by s (rewrite_line (hf_kind (sc_framing s)) (hf_rewrite (sc_framing s)) line @ CRLF) s'"
proof (cases "strip_prefix_ignore_ascii_case line (bstr ''Content-Length:'')")
  case (Some v)
  then show ?thesis using assms
    by (auto simp: inspect_and_emit_def rewrite_line_def extends_by_def copy_line_def Let_def result_bind_Inr_iff
        split: if_splits)
next
  case cl: None
  show ?thesis
  proof (cases "strip_prefix_ignore_ascii_case line (bstr ''Transfer-Encoding:'')")
    case (Some v)
    then show ?thesis using assms cl
      by (auto simp: inspect_and_emit_def rewrite_line_def extends_by_def copy_line_def Let_def)
  next
    case te: None
    show ?thesis
    proof (cases "rewritable_authority line (hf_kind (sc_framing s))")
      case None
      then show ?thesis using assms cl te
        by (auto simp: inspect_and_emit_def rewrite_line_def extends_by_def copy_line_def Let_def)
    next
      case (Some r)
      then obtain off found hd where r: "rewritable_authority line (hf_kind (sc_framing s)) = Some (off, found, hd)"
        by (cases r) auto
      show ?thesis using assms cl te r
        by (cases "policy_target (hf_rewrite (sc_framing s)) hd")
           (auto simp: inspect_and_emit_def rewrite_line_def extends_by_def copy_line_def Let_def)
    qed
  qed
qed

lemma scan_line_extends:
  assumes "scan_line s line = Inr s'"
  shows "extends_by s (rewrite_line (hf_kind (sc_framing s)) (hf_rewrite (sc_framing s)) line @ CRLF) s'"
proof -
  obtain t h where t: "inspect_and_emit s line = Inr (t, h)" and s'_eq: "s' = (case h of
      Some (ApplicationUrl ep) \<Rightarrow> (if sc_application_url t = None then t\<lparr>sc_application_url := Some ep\<rparr> else t) | _ \<Rightarrow> t)"
    using assms by (cases "inspect_and_emit s line") (auto simp: scan_line_def)
  have s': "sc_framing s' = sc_framing t" "sc_status s' = sc_status t"
    unfolding s'_eq by (simp_all split: option.split authority_header.split)
  from inspect_and_emit_extends [OF t] s' show ?thesis by (simp add: extends_by_def)
qed

lemma scan_all_header:
  "scan_all s ls = Inr s' \<Longrightarrow> hf_header (sc_framing s') = hf_header (sc_framing s)
      @ block_of (map (rewrite_line (hf_kind (sc_framing s)) (hf_rewrite (sc_framing s))) ls)
    \<and> hf_kind (sc_framing s') = hf_kind (sc_framing s) \<and> hf_rewrite (sc_framing s') = hf_rewrite (sc_framing s)
    \<and> sc_status s' = sc_status s"
proof (induction s ls rule: scan_all.induct)
  case (2 s l ls)
  then obtain t where t: "scan_line s l = Inr t" "scan_all t ls = Inr s'" by (auto simp: result_bind_Inr_iff)
  from 2(1) [OF t] scan_line_extends [OF t(1)] show ?case by (simp add: block_of_def extends_by_def)
qed (simp add: block_of_def)

lemma set_body_phase_header [simp]: "hf_header (set_body_phase f status cl ch) = hf_header f"
  by (simp add: set_body_phase_def Let_def split: option.split kind.split)

text \<open>C25. The header goes out line for line: the first line unchanged, every other line rewritten on its
  own, in order, none added and none dropped; with no rewrite configured the block is forwarded
  byte for byte.\<close>

theorem header_rewritten_linewise:
  assumes lines: "list_all (\<lambda>l. find_crlf l = None) (l # ls)"
    and scanned: "scan_and_rewrite_header f (block_of (l # ls)) = Inr (g, url)"
  shows "hf_header g = block_of (l # map (rewrite_line (hf_kind f) (hf_rewrite f)) ls)
    \<and> (hf_rewrite f = \<lparr>rp_host = None, rp_application_url = None, rp_location = None\<rparr> \<longrightarrow>
        hf_header g = block_of (l # ls))"
proof -
  obtain s t where first: "scan_first_line (scan_start f) l = Inr s" and all: "scan_all s ls = Inr t"
    and g: "hf_header g = hf_header (sc_framing t)"
    using scanned by (auto simp: scan_and_rewrite_header_def scan_lines_header [OF lines] result_bind_Inr_iff split: if_splits)
  have s: "hf_header (sc_framing s) = l @ CRLF" "hf_kind (sc_framing s) = hf_kind f" "hf_rewrite (sc_framing s) = hf_rewrite f"
    using first by (auto simp: scan_first_line_def scan_start_def copy_line_def Let_def split: kind.splits if_splits)
  have "hf_header g = block_of (l # map (rewrite_line (hf_kind f) (hf_rewrite f)) ls)"
    using scan_all_header [OF all] s g by (simp add: block_of_def)
  moreover have "rewrite_line k \<lparr>rp_host = None, rp_application_url = None, rp_location = None\<rparr> x = x" for k x
    by (auto simp: rewrite_line_def policy_target_def split: option.split authority_header.split)
  ultimately show ?thesis by (simp add: map_idI)
qed

lemma header_rewritten_linewise_witness:
  "hf_header (fst (projr (scan_and_rewrite_header (framing_new Request sample_policy)
      (block_of [bstr ''GET / HTTP/1.1'', bstr ''Host: 192.168.1.7:80'', []]))))
    = block_of (bstr ''GET / HTTP/1.1'' # map (rewrite_line Request sample_policy) [bstr ''Host: 192.168.1.7:80'', []])"
proof -
  let ?ls = "[bstr ''Host: 192.168.1.7:80'', []]" let ?f = "framing_new Request sample_policy"
  have lines: "list_all (\<lambda>l. find_crlf l = None) (bstr ''GET / HTTP/1.1'' # ?ls)" by code_simp
  have scanned: "scan_and_rewrite_header ?f (block_of (bstr ''GET / HTTP/1.1'' # ?ls))
      = Inr (fst (projr (scan_and_rewrite_header ?f (block_of (bstr ''GET / HTTP/1.1'' # ?ls)))), None)"
    by code_simp
  from header_rewritten_linewise [OF lines scanned] show ?thesis by (simp add: framing_new_def)
qed

section \<open>The rewritten authority\<close>

lemma position_rest_stop:
  "(case position p xs of Some i \<Rightarrow> i | None \<Rightarrow> length xs) = n \<Longrightarrow> n \<le> length xs \<and> (drop n xs = [] \<or> p (hd (drop n xs)))"
  by (auto simp: position_Some_iff hd_drop_conv_nth split: option.splits)

lemma parse_authority_shape:
  assumes "parse_authority v bare = Some a"
  obtains pre tail where "v = pre @ take (au_len a) (drop (au_offset a) v) @ tail" and "length pre = au_offset a"
    and "au_offset a + au_len a \<le> length v" and "tail = drop (au_offset a + au_len a) v"
    and "tail = [] \<or> authority_stop (hd tail)"
    and "if bare then pre = [] else length pre = 7 \<and> eq_ignore_ascii_case pre (bstr ''http://'')"
proof -
  have http: "length (bstr ''http://'') = 7" by code_simp
  obtain rest off where rest: "(if bare then Some (v, 0) else map_option (\<lambda>rest. (rest, length v - length rest))
      (strip_prefix_ignore_ascii_case v (bstr ''http://''))) = Some (rest, off)"
    and off: "au_offset a = off" and len: "au_len a = (case position authority_stop rest of Some i \<Rightarrow> i | None \<Rightarrow> length rest)"
    using assms by (auto simp: parse_authority_def Let_def split: option.splits prod.splits if_splits)
  have r: "rest = drop off v" "off \<le> length v"
    "if bare then off = 0 else off = 7 \<and> eq_ignore_ascii_case (take off v) (bstr ''http://'')"
    using rest by (auto simp: strip_prefix_ignore_ascii_case_def http split: if_splits)
  note stop = position_rest_stop [OF len [symmetric]]
  show thesis
  proof (rule that [of "take off v" "drop (au_offset a + au_len a) v"])
    show "v = take off v @ take (au_len a) (drop (au_offset a) v) @ drop (au_offset a + au_len a) v"
      by (metis append_take_drop_id drop_drop off add.commute)
    show "drop (au_offset a + au_len a) v = [] \<or> authority_stop (hd (drop (au_offset a + au_len a) v))"
      using stop r off by (simp add: add.commute)
  qed (use stop r off in \<open>auto split: if_splits\<close>)
qed

lemma trim_ascii_start_split:
  "\<exists>ws. v = ws @ trim_ascii_start v \<and> list_all is_ascii_whitespace ws \<and>
     (trim_ascii_start v = [] \<or> \<not> is_ascii_whitespace (hd (trim_ascii_start v)))"
proof (intro exI [of _ "takeWhile is_ascii_whitespace v"] conjI)
  show "v = takeWhile is_ascii_whitespace v @ trim_ascii_start v" by (simp add: trim_ascii_start_def)
  show "list_all is_ascii_whitespace (takeWhile is_ascii_whitespace v)" by (auto simp: list_all_iff dest: set_takeWhileD)
  show "trim_ascii_start v = [] \<or> \<not> is_ascii_whitespace (hd (trim_ascii_start v))"
    unfolding trim_ascii_start_def using hd_dropWhile by blast
qed

lemma trim_ascii_start_ws:
  "list_all is_ascii_whitespace ws \<Longrightarrow> x \<noteq> [] \<Longrightarrow> \<not> is_ascii_whitespace (hd x) \<Longrightarrow> trim_ascii_start (ws @ x) = x"
  by (induction ws) (cases x, auto simp: trim_ascii_start_def)

lemma display_starts_plain: "socket_v4_display sa \<noteq> [] \<and> \<not> is_ascii_whitespace (hd (socket_v4_display sa))"
proof -
  have "\<not> is_ascii_whitespace b" if "is_ascii_digit b" for b
    using that unfolding is_ascii_digit_def is_ascii_whitespace_def by (auto simp: word_le_nat_alt)
  moreover have "is_ascii_digit (hd (decimal n @ x))" for n x
    using decimal_facts [of n 0] by (cases "decimal n") (auto simp: plain_digit_def)
  ultimately show ?thesis by (simp add: socket_v4_display_def ipv4_display_def Let_def)
qed

text \<open>The value of an authority header, with the replacement spliced over its authority.\<close>

lemma spliced_value:
  assumes found: "parse_authority (trim_ascii_start v) bare = Some a" and port: "snd repl \<noteq> 0"
  defines "k \<equiv> length v - length (trim_ascii_start v) + au_offset a"
  shows "\<exists>a'. parse_authority (trim_ascii_start (take k v @ socket_v4_display repl @ drop (k + au_len a) v)) bare = Some a'
    \<and> au_endpoint a' = repl \<and> k \<le> length v
    \<and> length (take k v @ socket_v4_display repl @ drop (k + au_len a) v)
        - length (trim_ascii_start (take k v @ socket_v4_display repl @ drop (k + au_len a) v)) = length v - length (trim_ascii_start v)"
proof -
  let ?t = "trim_ascii_start v"
  obtain ws where ws: "v = ws @ ?t" "list_all is_ascii_whitespace ws" using trim_ascii_start_split by blast
  obtain pre tail where t: "?t = pre @ take (au_len a) (drop (au_offset a) ?t) @ tail" "length pre = au_offset a"
    "au_offset a + au_len a \<le> length ?t" "tail = drop (au_offset a + au_len a) ?t" "tail = [] \<or> authority_stop (hd tail)"
    "if bare then pre = [] else length pre = 7 \<and> eq_ignore_ascii_case pre (bstr ''http://'')"
    using found by (rule parse_authority_shape)
  have "length v = length ws + length ?t" using ws(1) by (metis length_append)
  then have k: "k = length ws + length pre" by (simp add: k_def t(2))
  have pre: "take k v = ws @ pre"
  proof -
    have "v = (ws @ pre) @ take (au_len a) (drop (au_offset a) ?t) @ tail" using ws(1) t(1) by simp
    then show ?thesis unfolding k by (metis append_eq_conv_conj length_append)
  qed
  have "drop (k + au_len a) v = drop (length pre + au_len a) ?t"
    by (subst ws(1)) (simp add: k)
  then have tail: "drop (k + au_len a) v = tail" by (simp add: t(2,4))
  have new: "take k v @ socket_v4_display repl @ drop (k + au_len a) v = ws @ pre @ socket_v4_display repl @ tail"
    by (simp add: pre tail)
  have hd: "pre @ socket_v4_display repl @ tail \<noteq> [] \<and> \<not> is_ascii_whitespace (hd (pre @ socket_v4_display repl @ tail))"
  proof (cases pre)
    case Nil
    then show ?thesis using display_starts_plain [of repl] by (cases "socket_v4_display repl") auto
  next
    case (Cons x xs)
    then have "hd ?t = x" "?t \<noteq> []" using t(1) by (metis append_Cons list.sel(1), metis append_Cons list.distinct(1))
    then have "\<not> is_ascii_whitespace x" using trim_ascii_start_split [of v] by metis
    then show ?thesis by (simp add: Cons)
  qed
  have "trim_ascii_start (ws @ pre @ socket_v4_display repl @ tail) = pre @ socket_v4_display repl @ tail"
    using trim_ascii_start_ws [OF ws(2)] hd by blast
  moreover have "\<exists>a'. parse_authority (pre @ socket_v4_display repl @ tail) bare = Some a' \<and> au_endpoint a' = repl"
    using parse_bare_socket [OF port t(5)] parse_url_socket [OF port t(5), of pre] t(6) by (cases bare) auto
  moreover have "k \<le> length v" using k \<open>length v = length ws + length ?t\<close> t(2,3) by linarith
  ultimately show ?thesis unfolding new using \<open>length v = length ws + length ?t\<close> by simp
qed

definition header_names :: "kind \<Rightarrow> (bytes \<times> bool \<times> (socket_v4 \<Rightarrow> authority_header)) list" where
  "header_names knd =
     (case knd of
        Request \<Rightarrow> [(bstr ''Host:'', True, Host)]
      | Response \<Rightarrow> [(bstr ''Application-URL:'', False, ApplicationUrl), (bstr ''Location:'', False, Location)])"

lemma strip_prefix_first:
  assumes "strip_prefix_ignore_ascii_case line (c # cs) = Some v" and "ascii_lower c \<noteq> ascii_lower d"
  shows "strip_prefix_ignore_ascii_case line (d # ds) = None"
  using assms by (cases line) (auto simp: strip_prefix_ignore_ascii_case_def eq_ignore_ascii_case_def split: if_splits)

lemma rewritable_authority_iff:
  "rewritable_authority line knd = Some (off, found, h) \<longleftrightarrow>
     (\<exists>(name, bare, wrap) \<in> set (header_names knd). \<exists>v. strip_prefix_ignore_ascii_case line name = Some v
       \<and> parse_authority (trim_ascii_start v) bare = Some found
       \<and> off = length line - length (trim_ascii_start v) \<and> h = wrap (au_endpoint found))"
proof -
  have "strip_prefix_ignore_ascii_case line (bstr ''Application-URL:'') = Some v \<Longrightarrow>
      strip_prefix_ignore_ascii_case line (bstr ''Location:'') = None" for v
  proof -
    have "bstr ''Application-URL:'' = 65 # bstr ''pplication-URL:''" "bstr ''Location:'' = 76 # bstr ''ocation:''"
      "ascii_lower 65 \<noteq> ascii_lower (76 :: u8)" by code_simp+
    then show "strip_prefix_ignore_ascii_case line (bstr ''Application-URL:'') = Some v \<Longrightarrow> ?thesis"
      using strip_prefix_first by metis
  qed
  then show ?thesis
    by (cases knd) (auto simp: rewritable_authority_def header_names_def Let_def split: option.splits)
qed

lemma strip_prefix_name:
  "strip_prefix_ignore_ascii_case line name = Some v \<longleftrightarrow>
     (\<exists>p. line = p @ v \<and> length p = length name \<and> eq_ignore_ascii_case p name)"
  by (auto simp: strip_prefix_ignore_ascii_case_def intro: exI [of _ "take (length name) line"] split: if_splits)

lemma authority_not_framing:
  assumes "rewritable_authority line knd = Some r"
  shows "strip_prefix_ignore_ascii_case line (bstr ''Content-Length:'') = None"
    and "strip_prefix_ignore_ascii_case line (bstr ''Transfer-Encoding:'') = None"
proof -
  obtain off found h where "r = (off, found, h)" by (metis prod_cases3)
  then obtain name where name: "name \<in> {bstr ''Host:'', bstr ''Application-URL:'', bstr ''Location:''}"
    and v: "\<exists>v. strip_prefix_ignore_ascii_case line name = Some v"
    using assms by (cases knd) (auto simp: rewritable_authority_iff header_names_def)
  have cl: "bstr ''Content-Length:'' = 67 # bstr ''ontent-Length:''" and te: "bstr ''Transfer-Encoding:'' = 84 # bstr ''ransfer-Encoding:''"
    by code_simp+
  have "list_all (\<lambda>n. n \<noteq> [] \<and> ascii_lower (hd n) \<noteq> ascii_lower 67 \<and> ascii_lower (hd n) \<noteq> ascii_lower 84)
      [bstr ''Host:'', bstr ''Application-URL:'', bstr ''Location:'']" by code_simp
  with name have "name \<noteq> [] \<and> ascii_lower (hd name) \<noteq> ascii_lower 67 \<and> ascii_lower (hd name) \<noteq> ascii_lower 84" by auto
  then obtain c cs where "name = c # cs" "ascii_lower c \<noteq> ascii_lower 67" "ascii_lower c \<noteq> ascii_lower 84"
    by (cases name) auto
  with v show "strip_prefix_ignore_ascii_case line (bstr ''Content-Length:'') = None"
    and "strip_prefix_ignore_ascii_case line (bstr ''Transfer-Encoding:'') = None"
    unfolding cl te using strip_prefix_first by metis+
qed

text \<open>A rewritten authority header names the configured endpoint and nothing else about the line
  changes: it is still the same header, its authority parses to the replacement, and the bytes
  before and after the authority are kept.\<close>

theorem rewrite_names_replacement:
  assumes found: "rewritable_authority line knd = Some (off, found, h)"
    and target: "policy_target policy h = Some repl" and port: "snd repl \<noteq> 0"
  shows "rewrite_line knd policy line = take (off + au_offset found) line @ socket_v4_display repl
      @ drop (off + au_offset found + au_len found) line
    \<and> (\<exists>off' found' h'. rewritable_authority (rewrite_line knd policy line) knd = Some (off', found', h')
        \<and> au_endpoint found' = repl \<and> policy_target policy h' = Some repl)"
proof
  let ?k = "off + au_offset found"
  show line': "rewrite_line knd policy line = take ?k line @ socket_v4_display repl @ drop (?k + au_len found) line"
    using found target authority_not_framing [OF found] by (simp add: rewrite_line_def)
  obtain name bare wrap v where n: "(name, bare, wrap) \<in> set (header_names knd)"
    "strip_prefix_ignore_ascii_case line name = Some v" "parse_authority (trim_ascii_start v) bare = Some found"
    "off = length line - length (trim_ascii_start v)" "h = wrap (au_endpoint found)"
    using found by (auto simp: rewritable_authority_iff)
  obtain p where p: "line = p @ v" "length p = length name" "eq_ignore_ascii_case p name"
    using n(2) by (auto simp: strip_prefix_name)
  let ?j = "length v - length (trim_ascii_start v) + au_offset found"
  have "length (trim_ascii_start v) \<le> length v" by (simp add: trim_ascii_start_def length_dropWhile_le)
  then have k: "?k = length p + ?j" using n(4) p(1) by simp
  obtain a' where a': "parse_authority (trim_ascii_start (take ?j v @ socket_v4_display repl @ drop (?j + au_len found) v)) bare = Some a'"
    "au_endpoint a' = repl"
    using spliced_value [OF n(3) port] by blast
  have "rewrite_line knd policy line = p @ take ?j v @ socket_v4_display repl @ drop (?j + au_len found) v"
    unfolding line' by (simp add: k p(1) add.assoc)
  then have "strip_prefix_ignore_ascii_case (rewrite_line knd policy line) name
      = Some (take ?j v @ socket_v4_display repl @ drop (?j + au_len found) v)"
    using p by (auto simp: strip_prefix_name)
  with n(1) a' have "rewritable_authority (rewrite_line knd policy line) knd
      = Some (length (rewrite_line knd policy line)
          - length (trim_ascii_start (take ?j v @ socket_v4_display repl @ drop (?j + au_len found) v)), a', wrap repl)"
    by (force simp: rewritable_authority_iff)
  moreover have "policy_target policy (wrap x) = policy_target policy (wrap y)" for x y
    using n(1) by (cases knd) (auto simp: header_names_def policy_target_def)
  ultimately show "\<exists>off' found' h'. rewritable_authority (rewrite_line knd policy line) knd = Some (off', found', h')
        \<and> au_endpoint found' = repl \<and> policy_target policy h' = Some repl"
    using a'(2) target n(5) by metis
qed

lemma rewrite_names_replacement_witness:
  "\<exists>off' found' h'. rewritable_authority (rewrite_line Request sample_policy (bstr ''Host: 192.168.1.7:80'')) Request
      = Some (off', found', h') \<and> au_endpoint found' = (0x0a000001, 8080)"
proof -
  have "rewritable_authority (bstr ''Host: 192.168.1.7:80'') Request
      = Some (6, \<lparr>au_endpoint = (0xc0a80107, 80), au_offset = 0, au_len = 14\<rparr>, Host (0xc0a80107, 80))" by code_simp
  moreover have "policy_target sample_policy (Host (0xc0a80107, 80)) = Some (0x0a000001, 8080)" by code_simp
  moreover have "snd (0x0a000001 :: ipv4, 8080 :: u16) \<noteq> 0" by simp
  ultimately show ?thesis using rewrite_names_replacement by blast
qed

section \<open>Unambiguous framing\<close>

definition content_lengths :: "bytes list \<Rightarrow> (framing_error, nat) result list" where
  "content_lengths ls = List.map_filter (\<lambda>l. map_option parse_content_length
     (strip_prefix_ignore_ascii_case l (bstr ''Content-Length:''))) ls"

definition says_chunked :: "bytes \<Rightarrow> bool" where
  "says_chunked l \<longleftrightarrow> (case strip_prefix_ignore_ascii_case l (bstr ''Transfer-Encoding:'') of
     Some v \<Rightarrow> value_has_chunked v | None \<Rightarrow> False)"

lemma content_lengths_Cons:
  "content_lengths (l # ls) = (case strip_prefix_ignore_ascii_case l (bstr ''Content-Length:'') of
     Some v \<Rightarrow> parse_content_length v # content_lengths ls | None \<Rightarrow> content_lengths ls)"
  by (simp add: content_lengths_def map_filter_simps split: option.split)

lemma content_length_not_chunked:
  "strip_prefix_ignore_ascii_case l (bstr ''Content-Length:'') = Some v \<Longrightarrow> \<not> says_chunked l"
proof -
  have "bstr ''Content-Length:'' = 67 # bstr ''ontent-Length:''" "bstr ''Transfer-Encoding:'' = 84 # bstr ''ransfer-Encoding:''"
    "ascii_lower 67 \<noteq> ascii_lower (84 :: u8)" by code_simp+
  then show "strip_prefix_ignore_ascii_case l (bstr ''Content-Length:'') = Some v \<Longrightarrow> ?thesis"
    using strip_prefix_first [of l 67 "bstr ''ontent-Length:''" v 84] by (simp add: says_chunked_def)
qed

text \<open>One line's effect on the framing variables.\<close>

lemma scan_line_framing:
  assumes "scan_line s l = Inr s'"
  shows "sc_chunked s' \<longleftrightarrow> sc_chunked s \<or> says_chunked l"
    and "case strip_prefix_ignore_ascii_case l (bstr ''Content-Length:'') of
        None \<Rightarrow> sc_content_length s' = sc_content_length s
      | Some v \<Rightarrow> \<exists>n. parse_content_length v = Inr n \<and> sc_content_length s' = Some n
          \<and> (sc_content_length s = None \<or> sc_content_length s = Some n)"
proof -
  obtain t h where t: "inspect_and_emit s l = Inr (t, h)" and s'_eq: "s' = (case h of
      Some (ApplicationUrl ep) \<Rightarrow> (if sc_application_url t = None then t\<lparr>sc_application_url := Some ep\<rparr> else t) | _ \<Rightarrow> t)"
    using assms by (cases "inspect_and_emit s l") (auto simp: scan_line_def)
  have s': "sc_chunked s' = sc_chunked t" "sc_content_length s' = sc_content_length t"
    unfolding s'_eq by (simp_all split: option.split authority_header.split)
  have "(sc_chunked t \<longleftrightarrow> sc_chunked s \<or> says_chunked l) \<and>
    (case strip_prefix_ignore_ascii_case l (bstr ''Content-Length:'') of
        None \<Rightarrow> sc_content_length t = sc_content_length s
      | Some v \<Rightarrow> \<exists>n. parse_content_length v = Inr n \<and> sc_content_length t = Some n
          \<and> (sc_content_length s = None \<or> sc_content_length s = Some n))"
  proof (cases "strip_prefix_ignore_ascii_case l (bstr ''Content-Length:'')")
    case (Some v)
    with t content_length_not_chunked [OF Some] show ?thesis
      by (cases "sc_content_length s")
         (auto simp: inspect_and_emit_def Let_def result_bind_Inr_iff split: if_splits)
  next
    case cl: None
    show ?thesis
    proof (cases "strip_prefix_ignore_ascii_case l (bstr ''Transfer-Encoding:'')")
      case (Some v)
      with t cl show ?thesis by (auto simp: inspect_and_emit_def Let_def says_chunked_def)
    next
      case None
      with t cl show ?thesis
        by (auto simp: inspect_and_emit_def Let_def says_chunked_def split: option.splits)
    qed
  qed
  then show "sc_chunked s' \<longleftrightarrow> sc_chunked s \<or> says_chunked l"
    and "case strip_prefix_ignore_ascii_case l (bstr ''Content-Length:'') of
        None \<Rightarrow> sc_content_length s' = sc_content_length s
      | Some v \<Rightarrow> \<exists>n. parse_content_length v = Inr n \<and> sc_content_length s' = Some n
          \<and> (sc_content_length s = None \<or> sc_content_length s = Some n)"
    unfolding s' by blast+
qed

lemma scan_all_framing:
  assumes "scan_all s ls = Inr s'"
  shows "(sc_chunked s' \<longleftrightarrow> sc_chunked s \<or> list_ex says_chunked ls)
    \<and> (sc_content_length s' = None \<longleftrightarrow> sc_content_length s = None \<and> content_lengths ls = [])
    \<and> (\<forall>n. sc_content_length s' = Some n \<longrightarrow> set (content_lengths ls) \<subseteq> {Inr n}
         \<and> (sc_content_length s = None \<or> sc_content_length s = Some n))"
  using assms
proof (induction s ls rule: scan_all.induct)
  case (1 s)
  then show ?case by (simp add: content_lengths_def map_filter_simps)
next
  case (2 s l ls)
  then obtain t where t: "scan_line s l = Inr t" "scan_all t ls = Inr s'" by (auto simp: result_bind_Inr_iff)
  note IH = 2(1) [OF t] and line = scan_line_framing [OF t(1)]
  show ?case
  proof (cases "strip_prefix_ignore_ascii_case l (bstr ''Content-Length:'')")
    case None
    then show ?thesis using IH line by (simp add: content_lengths_Cons disj_assoc)
  next
    case (Some v)
    then obtain n where "parse_content_length v = Inr n" "sc_content_length t = Some n"
      "sc_content_length s = None \<or> sc_content_length s = Some n" using line(2) by auto
    then show ?thesis using IH line(1) Some by (auto simp: content_lengths_Cons)
  qed
qed

text \<open>C26. No request smuggling: a header block that passes frames its body in exactly one way. Every
  \<^verbatim>\<open>Content-Length\<close> line is well formed and states the same length, none stands beside a chunked
  transfer coding, and the body phase is the one RFC 9112 assigns: none for a bodyless status, then
  chunked, then that length, else none for a request and until close for a response.\<close>

theorem framing_unambiguous:
  assumes lines: "list_all (\<lambda>l. find_crlf l = None) (l # ls)"
    and scanned: "scan_and_rewrite_header f (block_of (l # ls)) = Inr (g, url)"
  shows "\<not> (content_lengths ls \<noteq> [] \<and> list_ex says_chunked ls)
    \<and> (\<exists>n. set (content_lengths ls) \<subseteq> {Inr n}
        \<and> (hf_phase g, hf_body_remaining g, hf_chunk_remaining g) =
            (if bodyless_status (hf_kind f) (parse_status_code l) then (Header, 0, 0)
             else if list_ex says_chunked ls then (BodyChunked, 0, 0)
             else if content_lengths ls \<noteq> [] then (if n = 0 then (Header, 0, 0) else (BodyContentLength, n, 0))
             else if hf_kind f = Request then (Header, 0, 0) else (BodyCloseDelimited, 0, 0)))"
proof -
  obtain s t where first: "scan_first_line (scan_start f) l = Inr s" and all: "scan_all s ls = Inr t"
    and ok: "\<not> (sc_content_length t \<noteq> None \<and> sc_chunked t)"
    and g: "g = set_body_phase (sc_framing t) (sc_status t) (sc_content_length t) (sc_chunked t)"
    using scanned by (auto simp: scan_and_rewrite_header_def scan_lines_header [OF lines] result_bind_Inr_iff split: if_splits)
  have s: "sc_content_length s = None" "\<not> sc_chunked s" "hf_kind (sc_framing s) = hf_kind f"
    "bodyless_status (hf_kind f) (sc_status s) \<longleftrightarrow> bodyless_status (hf_kind f) (parse_status_code l)"
    using first by (auto simp: scan_first_line_def scan_start_def copy_line_def Let_def bodyless_status_def
        split: kind.splits if_splits)
  have t: "sc_chunked t \<longleftrightarrow> list_ex says_chunked ls" "sc_content_length t = None \<longleftrightarrow> content_lengths ls = []"
    "\<And>n. sc_content_length t = Some n \<Longrightarrow> set (content_lengths ls) \<subseteq> {Inr n}"
    "hf_kind (sc_framing t) = hf_kind f" "sc_status t = sc_status s"
    using scan_all_framing [OF all] scan_all_header [OF all] s by auto
  show ?thesis
  proof (cases "sc_content_length t")
    case None
    with ok t s g show ?thesis
      by (auto simp: set_body_phase_def Let_def split: kind.splits)
  next
    case (Some n)
    with ok t s g show ?thesis
      by (auto simp: set_body_phase_def Let_def intro!: exI [of _ n])
  qed
qed

lemma framing_unambiguous_witness:
  "\<not> (content_lengths [bstr ''Content-Length: 5'', []] \<noteq> [] \<and> list_ex says_chunked [bstr ''Content-Length: 5'', []])"
proof -
  let ?ls = "[bstr ''Content-Length: 5'', []]" let ?f = "framing_new Request sample_policy"
  have lines: "list_all (\<lambda>l. find_crlf l = None) (bstr ''POST /apps HTTP/1.1'' # ?ls)" by code_simp
  have scanned: "scan_and_rewrite_header ?f (block_of (bstr ''POST /apps HTTP/1.1'' # ?ls))
      = Inr (fst (projr (scan_and_rewrite_header ?f (block_of (bstr ''POST /apps HTTP/1.1'' # ?ls)))), None)"
    by code_simp
  from framing_unambiguous [OF lines scanned] show ?thesis by blast
qed

end
