(* ===== verification/Discovery.thy ===== *)
theory Discovery
  imports Http_Framing
begin

text \<open>
  \<^verbatim>\<open>src/src/net/ssdp.rs\<close>, \<^verbatim>\<open>src/src/net/ssdp/dial.rs\<close> and \<^verbatim>\<open>src/src/net/wsd.rs\<close>: the SSDP and WS-Discovery
  classifiers that gate a reflector's direction, the header fields they read, and the \<^verbatim>\<open>LOCATION\<close> of a DIAL
  advertisement with its span in the datagram, over which the proxy's address is spliced.
\<close>

section \<open>SSDP\<close>

definition SSDP_PORT :: u16 where "SSDP_PORT = 1900"
definition SSDP_TTL :: u8 where "SSDP_TTL = 2"
definition SSDP_GROUP_V4 :: ipv4 where "SSDP_GROUP_V4 = 0xeffffffa"
definition SSDP_GROUP_V6_LINK_LOCAL :: ipv6 where "SSDP_GROUP_V6_LINK_LOCAL = 0xff02000000000000000000000000000c"
definition SSDP_GROUP_V6_SITE_LOCAL :: ipv6 where "SSDP_GROUP_V6_SITE_LOCAL = 0xff05000000000000000000000000000c"
definition MSEARCH_MX_DEFAULT :: u8 where "MSEARCH_MX_DEFAULT = 3"

datatype ssdp_kind = SsdpSearch | SsdpAdvertisement

definition MSEARCH_PREFIX :: bytes where "MSEARCH_PREFIX = bstr ''M-SEARCH ''"
definition NOTIFY_PREFIX :: bytes where "NOTIFY_PREFIX = bstr ''NOTIFY ''"

definition ssdp_classify :: "bytes \<Rightarrow> ssdp_kind option" where
  "ssdp_classify payload =
     (if starts_with payload MSEARCH_PREFIX then Some SsdpSearch
      else if starts_with payload NOTIFY_PREFIX then Some SsdpAdvertisement
      else None)"

definition MX_MIN :: nat where "MX_MIN = 1"
definition MX_MAX :: nat where "MX_MAX = 5"

definition parse_msearch_mx :: "bytes \<Rightarrow> nat option" where
  "parse_msearch_mx payload =
     (case header_value payload (bstr ''MX'') of
        None \<Rightarrow> None
      | Some v \<Rightarrow>
          let stop = (case position (\<lambda>b. \<not> is_ascii_digit b) v of Some i \<Rightarrow> i | None \<Rightarrow> length v) in
          (case parse_uint 10 4294967295 (take stop v) of
             None \<Rightarrow> None
           | Some mx \<Rightarrow> Some (min (max mx MX_MIN) MX_MAX)))"

section \<open>DIAL\<close>

definition DIAL_SERVICE_TYPE :: bytes where "DIAL_SERVICE_TYPE = bstr ''urn:dial-multiscreen-org:service:dial''"

fun contains_ignore_ascii_case :: "bytes \<Rightarrow> bytes \<Rightarrow> bool" where
  "contains_ignore_ascii_case [] needle \<longleftrightarrow> needle = []"
| "contains_ignore_ascii_case (b # bs) needle \<longleftrightarrow>
     needle = [] \<or>
     length needle \<le> length (b # bs) \<and> eq_ignore_ascii_case (take (length needle) (b # bs)) needle \<or>
     contains_ignore_ascii_case bs needle"

definition is_dial_service_message :: "bytes \<Rightarrow> bool" where
  "is_dial_service_message payload \<longleftrightarrow> contains_ignore_ascii_case payload DIAL_SERVICE_TYPE"

definition dial_location_value :: "bytes \<Rightarrow> bytes option" where
  "dial_location_value payload =
     (case header_value payload (bstr ''LOCATION'') of
        None \<Rightarrow> None
      | Some url \<Rightarrow> if url = [] then None else Some url)"

text \<open>\<^verbatim>\<open>header_value\<close> with the offset of the value it returns, which the code reads off the slice's address: \<open>at\<close> is
  where the first of the lines left starts.\<close>

definition line_value :: "bytes \<Rightarrow> bytes \<Rightarrow> bytes option" where
  "line_value name line =
     (case strip_prefix_ignore_ascii_case line name of None \<Rightarrow> None | Some rest \<Rightarrow> strip_prefix [58] rest)"

abbreviation strip_cr :: "bytes \<Rightarrow> bytes" where
  "strip_cr line \<equiv> (case strip_suffix [13] line of Some l \<Rightarrow> l | None \<Rightarrow> line)"

fun header_value_from :: "nat \<Rightarrow> bytes \<Rightarrow> bytes list \<Rightarrow> (nat \<times> bytes) option" where
  "header_value_from at name [] = None"
| "header_value_from at name (line # ls) =
     (case line_value name (strip_cr line) of
        Some v \<Rightarrow> Some (at + (length (strip_cr line) - length (trim_ascii_start v)), trim_ascii_start v)
      | None \<Rightarrow> header_value_from (at + length line + 1) name ls)"

definition header_value_at :: "bytes \<Rightarrow> bytes \<Rightarrow> (nat \<times> bytes) option" where
  "header_value_at message name = header_value_from 0 name (split_by (\<lambda>b. b = 10) message)"

definition parse_dial_location_authority :: "bytes \<Rightarrow> authority option" where
  "parse_dial_location_authority payload =
     (case header_value_at payload (bstr ''LOCATION'') of
        None \<Rightarrow> None
      | Some (url_offset, url) \<Rightarrow>
          if url = [] then None
          else (case parse_authority url False of
                  None \<Rightarrow> None
                | Some found \<Rightarrow>
                    Some \<lparr>au_endpoint = au_endpoint found, au_offset = url_offset + au_offset found, au_len = au_len found\<rparr>))"

fun max_age_in :: "bytes list \<Rightarrow> nat option" where
  "max_age_in [] = None"
| "max_age_in (directive # ds) =
     (case position (\<lambda>b. b = 61) directive of
        None \<Rightarrow> max_age_in ds
      | Some eq \<Rightarrow>
          if eq_ignore_ascii_case (trim_ascii (take eq directive)) (bstr ''max-age'')
          then parse_uint 10 4294967295 (trim_ascii (drop (eq + 1) directive))
          else max_age_in ds)"

definition max_age_seconds :: "bytes \<Rightarrow> nat option" where
  "max_age_seconds v = max_age_in (split_by (\<lambda>b. b = 44) v)"

definition parse_cache_control_max_age :: "bytes \<Rightarrow> nat option" where
  "parse_cache_control_max_age payload =
     (case header_value payload (bstr ''CACHE-CONTROL'') of None \<Rightarrow> None | Some v \<Rightarrow> max_age_seconds v)"

abbreviation unreachable_literal :: "ipaddr \<Rightarrow> bool" where
  "unreachable_literal ip \<equiv> is_link_local ip \<or> is_never_a_peer ip"

definition ssdp_advertises_only_unreachable :: "bytes \<Rightarrow> bool" where
  "ssdp_advertises_only_unreachable payload \<longleftrightarrow>
     (case dial_location_value payload of
        None \<Rightarrow> False
      | Some url \<Rightarrow> (case url_host_ip url of None \<Rightarrow> False | Some ip \<Rightarrow> unreachable_literal ip))"

section \<open>WS-Discovery\<close>

definition WSD_PORT :: u16 where "WSD_PORT = 3702"
definition WSD_TTL :: u8 where "WSD_TTL = 1"
definition WSD_GROUP_V4 :: ipv4 where "WSD_GROUP_V4 = 0xeffffffa"
definition WSD_GROUP_V6 :: ipv6 where "WSD_GROUP_V6 = 0xff02000000000000000000000000000c"

datatype wsd_kind = WsdAnnouncement | WsdSearch

function element_text :: "bytes \<Rightarrow> bytes \<Rightarrow> (bytes \<times> bytes) option" where
  "element_text payload local_name =
     (case position (\<lambda>b. b = 60) payload of
        None \<Rightarrow> None
      | Some open_at \<Rightarrow>
          let rest = drop (open_at + 1) payload in
          (case position (\<lambda>b. b = 62) rest of
             None \<Rightarrow> None
           | Some close_at \<Rightarrow>
               let tag = take close_at rest; rest = drop (close_at + 1) rest in
               if tag \<noteq> [] \<and> hd tag \<in> {47, 63, 33} then element_text rest local_name
               else if tag \<noteq> [] \<and> last tag = 47 then element_text rest local_name
               else
                 let name = hd (split_by (\<lambda>b. is_ascii_whitespace b \<or> b = 47) tag);
                     local = last (split_by (\<lambda>b. b = 58) name)
                 in if eq_ignore_ascii_case local local_name then
                      let stop = (case position (\<lambda>b. b = 60) rest of Some i \<Rightarrow> i | None \<Rightarrow> length rest)
                      in Some (trim_ascii (take stop rest), drop stop rest)
                    else element_text rest local_name))"
  by pat_completeness auto
termination
  by (relation "measure (\<lambda>(payload, _). length payload)") (auto dest: position_less)

declare element_text.simps [simp del]

definition action_segment :: "bytes \<Rightarrow> bytes option" where
  "action_segment payload =
     (case element_text payload (bstr ''Action'') of
        None \<Rightarrow> None
      | Some (uri, _) \<Rightarrow> let s = last (split_by (\<lambda>b. b = 47) uri) in if s = [] then None else Some s)"

definition wsd_classify :: "bytes \<Rightarrow> wsd_kind option" where
  "wsd_classify payload =
     (case action_segment payload of
        None \<Rightarrow> None
      | Some s \<Rightarrow>
          if s = bstr ''Hello'' \<or> s = bstr ''Bye'' then Some WsdAnnouncement
          else if s = bstr ''Probe'' \<or> s = bstr ''Resolve'' then Some WsdSearch
          else None)"

text \<open>The loop over one element's URIs: \<open>None\<close> is the early \<^verbatim>\<open>return false\<close>.\<close>

fun uris_unreachable :: "bytes list \<Rightarrow> bool \<Rightarrow> bool option" where
  "uris_unreachable [] saw_ip = Some saw_ip"
| "uris_unreachable (uri # uris) saw_ip =
     (if uri = [] then uris_unreachable uris saw_ip
      else (case url_host_ip uri of
              Some ip \<Rightarrow> if unreachable_literal ip then uris_unreachable uris True else None
            | None \<Rightarrow> None))"

lemma element_text_shorter: "element_text p n = Some (t, after) \<Longrightarrow> length after < length p"
proof (induction p rule: length_induct)
  case (1 p)
  from "1.prems" obtain i where i: "position (\<lambda>b. b = 60) p = Some i"
    by (subst (asm) element_text.simps) (auto split: option.splits)
  let ?r = "drop (i + 1) p"
  from "1.prems" i obtain j where j: "position (\<lambda>b. b = 62) ?r = Some j"
    by (subst (asm) element_text.simps) (auto simp: Let_def split: option.splits)
  have len: "length (drop (j + 1) ?r) < length p" using position_less[OF i] by simp
  show ?case
  proof (cases "element_text (drop (j + 1) ?r) n = Some (t, after)")
    case True
    with "1.IH" len show ?thesis by (meson less_trans)
  next
    case False
    with "1.prems" i j have "\<exists>stop. after = drop stop (drop (j + 1) ?r)"
      unfolding element_text.simps[of p n] by (auto simp: Let_def split: if_splits)
    then show ?thesis using len by auto
  qed
qed

function xaddrs_unreachable :: "bytes \<Rightarrow> bool \<Rightarrow> bool" where
  "xaddrs_unreachable rest saw_ip =
     (case element_text rest (bstr ''XAddrs'') of
        None \<Rightarrow> saw_ip
      | Some (text, after) \<Rightarrow>
          (case uris_unreachable (split_by is_ascii_whitespace text) saw_ip of
             None \<Rightarrow> False
           | Some saw_ip \<Rightarrow> xaddrs_unreachable after saw_ip))"
  by pat_completeness auto
termination
  by (relation "measure (\<lambda>(rest, _). length rest)") (auto dest: element_text_shorter)

declare xaddrs_unreachable.simps [simp del]

definition wsd_advertises_only_unreachable :: "bytes \<Rightarrow> bool" where
  "wsd_advertises_only_unreachable payload \<longleftrightarrow> xaddrs_unreachable payload False"

section \<open>Every advertised endpoint is judged\<close>

text \<open>The URIs of all \<^verbatim>\<open>XAddrs\<close> elements of a message, in order.\<close>

function xaddr_uris :: "bytes \<Rightarrow> bytes list" where
  "xaddr_uris rest =
     (case element_text rest (bstr ''XAddrs'') of
        None \<Rightarrow> []
      | Some (text, after) \<Rightarrow> filter (\<lambda>u. u \<noteq> []) (split_by is_ascii_whitespace text) @ xaddr_uris after)"
  by pat_completeness auto
termination
  by (relation "measure length") (auto dest: element_text_shorter)

declare xaddr_uris.simps [simp del]

definition uri_unreachable :: "bytes \<Rightarrow> bool" where
  "uri_unreachable u \<longleftrightarrow> (\<exists>ip. url_host_ip u = Some ip \<and> unreachable_literal ip)"

lemma uris_unreachable_eq:
  "uris_unreachable us b =
     (if \<forall>u \<in> set (filter (\<lambda>u. u \<noteq> []) us). uri_unreachable u then Some (b \<or> filter (\<lambda>u. u \<noteq> []) us \<noteq> []) else None)"
  by (induction us b rule: uris_unreachable.induct) (auto simp: uri_unreachable_def split: option.splits)

text \<open>C27. The WS-Discovery suppression drops a message exactly when it advertises at least one endpoint and every endpoint
  of every \<^verbatim>\<open>XAddrs\<close> element in it is an address literal no client on the other link can reach: a hostname or an
  unparseable URI anywhere keeps the message.\<close>

theorem wsd_suppresses_exactly:
  "wsd_advertises_only_unreachable payload \<longleftrightarrow>
     xaddr_uris payload \<noteq> [] \<and> list_all uri_unreachable (xaddr_uris payload)"
proof -
  have "xaddrs_unreachable rest saw \<longleftrightarrow> (saw \<or> xaddr_uris rest \<noteq> []) \<and> list_all uri_unreachable (xaddr_uris rest)" for rest saw
  proof (induction rest saw rule: xaddrs_unreachable.induct)
    case (1 rest saw)
    show ?case
    proof (cases "element_text rest (bstr ''XAddrs'')")
      case None
      then show ?thesis by (subst xaddrs_unreachable.simps, subst (1 2) xaddr_uris.simps) simp
    next
      case (Some r)
      obtain content after where r: "r = (content, after)" by (cases r)
      let ?us = "filter (\<lambda>u. u \<noteq> []) (split_by is_ascii_whitespace content)"
      have u: "xaddr_uris rest = ?us @ xaddr_uris after" by (subst xaddr_uris.simps) (simp add: Some r)
      show ?thesis
      proof (cases "\<forall>u \<in> set ?us. uri_unreachable u")
        case True
        then have e: "uris_unreachable (split_by is_ascii_whitespace content) saw = Some (saw \<or> ?us \<noteq> [])" by (simp add: uris_unreachable_eq)
        from 1[OF Some[unfolded r] refl e] True show ?thesis
          unfolding u by (subst xaddrs_unreachable.simps) (auto simp: Some r e list_all_iff)
      next
        case False
        then have e: "uris_unreachable (split_by is_ascii_whitespace content) saw = None" by (simp add: uris_unreachable_eq)
        with False show ?thesis unfolding u by (subst xaddrs_unreachable.simps) (auto simp: Some r list_all_iff)
      qed
    qed
  qed
  then show ?thesis by (simp add: wsd_advertises_only_unreachable_def)
qed

section \<open>The span of a DIAL location\<close>

lemma header_value_at_value: "header_value message name = map_option snd (header_value_at message name)"
proof -
  have "map_option trim_ascii_start (find_map (\<lambda>line. let line = strip_cr line in
      case strip_prefix_ignore_ascii_case line name of None \<Rightarrow> None | Some rest \<Rightarrow> strip_prefix [58] rest) ls) =
      map_option snd (header_value_from at name ls)" for ls at
    by (induction ls arbitrary: at) (auto simp: line_value_def Let_def split: option.splits)
  then show ?thesis by (simp add: header_value_def header_value_at_def)
qed

text \<open>A message as its lines.\<close>

fun join_lines :: "bytes list \<Rightarrow> bytes" where
  "join_lines [] = []"
| "join_lines [l] = l"
| "join_lines (l # ls) = l @ 10 # join_lines ls"

lemma join_split: "join_lines (split_by (\<lambda>b. b = 10) m) = m" "split_by (\<lambda>b. b = 10) m \<noteq> []"
proof (induction m)
  case (Cons b m)
  {
    case 1
    show ?case using Cons.IH
      by (cases "split_by (\<lambda>b. b = 10) m" rule: join_lines.cases) auto
  next
    case 2
    show ?case by (auto split: list.splits)
  }
qed simp_all

lemma split_no_newline: "l \<in> set (split_by (\<lambda>b. b = 10) m) \<Longrightarrow> 10 \<notin> set l"
proof (induction m arbitrary: l)
  case (Cons b m)
  then show ?case by (cases "split_by (\<lambda>b. b = 10) m") (auto split: if_splits)
qed simp

lemma split_join: "ls \<noteq> [] \<Longrightarrow> \<forall>l \<in> set ls. 10 \<notin> set l \<Longrightarrow> split_by (\<lambda>b. b = 10) (join_lines ls) = ls"
proof (induction ls rule: join_lines.induct)
  case (2 l)
  then show ?case using split_by_last[of "\<lambda>b. b = 10" l] by (auto simp: list_all_iff)
next
  case (3 l l' ls)
  then show ?case using split_by_hex[of "\<lambda>b. b = 10" l 10 "join_lines (l' # ls)"] by (auto simp: list_all_iff)
qed simp

lemma socket_display_no_newline: "10 \<notin> set (socket_v4_display sa)" "socket_v4_display sa \<noteq> []" "last (socket_v4_display sa) \<noteq> 13"
proof -
  have "plain_digit b \<Longrightarrow> b \<noteq> 10" for b by (auto simp: plain_digit_def is_ascii_digit_def word_le_nat_alt)
  then have "10 \<notin> set (decimal n)" for n using decimal_facts[of n 0] by (auto simp: list_all_iff)
  then show "10 \<notin> set (socket_v4_display sa)" by (auto simp: socket_v4_display_def ipv4_display_def Let_def)
  show "socket_v4_display sa \<noteq> []" by (simp add: socket_v4_display_def)
  have "last (decimal n) \<noteq> 13" for n using decimal_avoids[of 13 n] by (metis decimal_digits(2) last_in_set insertCI)
  then show "last (socket_v4_display sa) \<noteq> 13" by (simp add: socket_v4_display_def)
qed

lemma strip_cr_cases:
  obtains cr where "line = strip_cr line @ cr" "cr = [13] \<or> cr = [] \<and> (line = [] \<or> last line \<noteq> 13)"
proof (cases "strip_suffix [13] line")
  case None
  then have "line = [] \<or> last line \<noteq> 13"
    by (cases line rule: rev_cases) (auto simp: strip_suffix_def)
  with None that[of "[]"] show ?thesis by simp
next
  case (Some l)
  then have "line = l @ [13]" by (auto simp: strip_suffix_def split: if_splits) (metis append_take_drop_id)
  with Some that[of "[13]"] show ?thesis by simp
qed

lemma strip_cr_append: "strip_cr (xs @ [13]) = xs" "xs = [] \<or> last xs \<noteq> 13 \<Longrightarrow> strip_cr xs = xs"
  by (simp add: strip_suffix_def) (cases xs rule: rev_cases; auto simp: strip_suffix_def)

text \<open>One line: the value keeps its place, and its authority becomes the replacement.\<close>

lemma splice_line:
  assumes v: "line_value name (strip_cr line) = Some v" and f: "parse_authority (trim_ascii_start v) False = Some f" and port: "snd repl \<noteq> 0"
    and nl: "10 \<notin> set line"
  defines "k \<equiv> length (strip_cr line) - length (trim_ascii_start v) + au_offset f"
  defines "line' \<equiv> take k line @ socket_v4_display repl @ drop (k + au_len f) line"
  shows "\<exists>v' f'. line_value name (strip_cr line') = Some v' \<and> parse_authority (trim_ascii_start v') False = Some f' \<and>
    au_endpoint f' = repl \<and> 10 \<notin> set line' \<and> k + au_len f \<le> length line \<and>
    length (strip_cr line') - length (trim_ascii_start v') = length (strip_cr line) - length (trim_ascii_start v)"
proof -
  let ?l = "strip_cr line" and ?t = "trim_ascii_start v"
  obtain cr where cr: "line = ?l @ cr" "cr = [13] \<or> cr = [] \<and> (line = [] \<or> last line \<noteq> 13)" by (rule strip_cr_cases)
  from v obtain r where r: "strip_prefix_ignore_ascii_case ?l name = Some r" "strip_prefix [58] r = Some v"
    by (auto simp: line_value_def split: option.splits)
  obtain p where p: "?l = p @ 58 # v" "length p = length name" "eq_ignore_ascii_case p name"
    using r strip_prefix_Some[OF r(2)] by (auto simp: strip_prefix_name)
  let ?j = "length v - length ?t + au_offset f"
  let ?v = "take ?j v @ socket_v4_display repl @ drop (?j + au_len f) v"
  from spliced_value[OF f port] obtain f' where f': "parse_authority (trim_ascii_start ?v) False = Some f'" "au_endpoint f' = repl"
      "length ?v - length (trim_ascii_start ?v) = length v - length ?t" by blast
  have t: "length ?t \<le> length v" by (simp add: trim_ascii_start_def length_dropWhile_le)
  have "au_offset f + au_len f \<le> length ?t" using f by (rule parse_authority_shape)
  with t have jl: "?j + au_len f \<le> length v" by linarith
  have k: "k = length p + 1 + ?j" using t by (simp add: k_def p(1))
  have L: "line = p @ 58 # v @ cr" using cr(1) p(1) by simp
  have line': "line' = (p @ 58 # ?v) @ cr" using jl by (simp add: line'_def k L add.assoc)
  have "last (p @ 58 # ?v) \<noteq> 13" if "cr = []"
  proof (cases "drop (?j + au_len f) v = []")
    case True
    then show ?thesis using socket_display_no_newline(2,3) by simp
  next
    case False
    then have "v \<noteq> []" by auto
    then have "last (p @ 58 # ?v) = last line" using that False by (simp add: L last_append)
    then show ?thesis using cr(2) that L by auto
  qed
  note ends = this
  have sc: "strip_cr line' = p @ 58 # ?v"
  proof (cases "cr = []")
    case True
    show ?thesis unfolding line' True append_Nil2 using ends[OF True] by (intro strip_cr_append(2) disjI2)
  next
    case False
    with cr(2) have "cr = [13]" by blast
    then show ?thesis unfolding line' by (simp only: strip_cr_append(1))
  qed
  moreover have "length (trim_ascii_start ?v) \<le> length ?v" by (simp only: trim_ascii_start_def length_dropWhile_le)
  then have "length (p @ 58 # ?v) - length (trim_ascii_start ?v) = length (p @ 58 # v) - length ?t"
    using f'(3) t by (simp only: length_append list.size) linarith
  moreover have "strip_prefix_ignore_ascii_case (p @ 58 # ?v) name = Some (58 # ?v)"
    unfolding strip_prefix_name using p(2,3) by blast
  then have "line_value name (strip_cr line') = Some ?v"
    unfolding sc line_value_def by (simp add: strip_prefix_def starts_with_def)
  moreover have "10 \<notin> set line'" using nl socket_display_no_newline(1) unfolding line'_def by (auto dest: in_set_takeD in_set_dropD)
  moreover have "k + au_len f \<le> length line" using k jl L by simp
  ultimately show ?thesis using f'(1,2) p(1) by (intro exI[of _ ?v] exI[of _ f']) simp
qed

lemma join_lines_Cons: "ls \<noteq> [] \<Longrightarrow> join_lines (l # ls) = l @ 10 # join_lines ls"
  by (cases ls) simp_all

lemma header_value_from_ge: "header_value_from at name ls = Some (off, v) \<Longrightarrow> at \<le> off"
  by (induction ls arbitrary: at) (fastforce split: option.splits)+

text \<open>All lines: the first header of the name is the one that changes.\<close>

lemma splice_lines:
  assumes "header_value_from at name ls = Some (off, v)" "parse_authority v False = Some f" "snd repl \<noteq> 0" "\<forall>l \<in> set ls. 10 \<notin> set l"
  shows "\<exists>ls' v' f'. ls' \<noteq> [] \<and> (\<forall>l \<in> set ls'. 10 \<notin> set l) \<and>
    join_lines ls' = take (off - at + au_offset f) (join_lines ls) @ socket_v4_display repl @ drop (off - at + au_offset f + au_len f) (join_lines ls) \<and>
    off - at + au_offset f + au_len f \<le> length (join_lines ls) \<and>
    header_value_from at name ls' = Some (off, v') \<and> parse_authority v' False = Some f' \<and> au_endpoint f' = repl"
  using assms(1,4)
proof (induction ls arbitrary: at)
  case (Cons line ls)
  show ?case
  proof (cases "line_value name (strip_cr line)")
    case (Some w)
    let ?k = "length (strip_cr line) - length (trim_ascii_start w) + au_offset f"
    let ?line = "take ?k line @ socket_v4_display repl @ drop (?k + au_len f) line"
    have w: "v = trim_ascii_start w" "off = at + (length (strip_cr line) - length (trim_ascii_start w))" using Cons.prems(1) Some by auto
    have nl: "10 \<notin> set line" using Cons.prems(2) by simp
    from splice_line[OF Some _ assms(3) nl, of f] assms(2) w(1) obtain w' f' where w': "line_value name (strip_cr ?line) = Some w'"
      "parse_authority (trim_ascii_start w') False = Some f'" "au_endpoint f' = repl" "10 \<notin> set ?line" "?k + au_len f \<le> length line"
        "length (strip_cr ?line) - length (trim_ascii_start w') = length (strip_cr line) - length (trim_ascii_start w)" by blast
    have "header_value_from at name (?line # ls) = Some (off, trim_ascii_start w')" using w'(1,6) w(2) by simp
    moreover have "join_lines (?line # ls) = take ?k (join_lines (line # ls)) @ socket_v4_display repl @ drop (?k + au_len f) (join_lines (line # ls))"
      using w'(5) by (cases ls) simp_all
    moreover have "?k + au_len f \<le> length (join_lines (line # ls))" using w'(5) by (cases ls) simp_all
    moreover have "off - at + au_offset f = ?k" using w(2) by simp
    ultimately show ?thesis using w'(2-4) Cons.prems(2) by (intro exI[of _ "?line # ls"] exI[of _ "trim_ascii_start w'"] exI[of _ f']) auto
  next
    case None
    then have "header_value_from (at + length line + 1) name ls = Some (off, v)" using Cons.prems(1) by simp
    from Cons.IH[OF this] Cons.prems(2) obtain ls' v' f' where IH: "ls' \<noteq> []" "\<forall>l \<in> set ls'. 10 \<notin> set l"
      "join_lines ls' = take (off - (at + length line + 1) + au_offset f) (join_lines ls) @ socket_v4_display repl @
         drop (off - (at + length line + 1) + au_offset f + au_len f) (join_lines ls)"
      "off - (at + length line + 1) + au_offset f + au_len f \<le> length (join_lines ls)"
      "header_value_from (at + length line + 1) name ls' = Some (off, v')" "parse_authority v' False = Some f'" "au_endpoint f' = repl"
      by auto
    have "at + length line + 1 \<le> off" using header_value_from_ge[OF IH(5)] .
    then obtain d where d: "off = at + length line + 1 + d" using le_Suc_ex by blast
    have "ls \<noteq> []" using \<open>header_value_from (at + length line + 1) name ls = Some (off, v)\<close> by auto
    then show ?thesis using IH None Cons.prems(2)
      by (intro exI[of _ "line # ls'"] exI[of _ v'] exI[of _ f']) (auto simp: join_lines_Cons d add.assoc)
  qed
qed simp

text \<open>The \<^verbatim>\<open>LOCATION\<close> of a DIAL message can be spliced. Where \<^verbatim>\<open>parse_dial_location_authority\<close> finds an authority, its
  span lies within the datagram, and the datagram with any endpoint printed over that span, all other bytes kept,
  is one whose \<^verbatim>\<open>LOCATION\<close> authority starts at the same offset and is that endpoint.\<close>

theorem location_splice:
  assumes "parse_dial_location_authority payload = Some loc" "snd repl \<noteq> 0"
  shows "au_offset loc + au_len loc \<le> length payload \<and>
    (\<exists>loc'. parse_dial_location_authority
        (take (au_offset loc) payload @ socket_v4_display repl @ drop (au_offset loc + au_len loc) payload) = Some loc' \<and>
      au_endpoint loc' = repl \<and> au_offset loc' = au_offset loc)"
proof -
  let ?n = "bstr ''LOCATION''" and ?ls = "split_by (\<lambda>b. b = 10) payload"
  from assms(1) obtain off url f where u: "header_value_from 0 ?n ?ls = Some (off, url)" "parse_authority url False = Some f"
    and loc: "au_offset loc = off + au_offset f" "au_len loc = au_len f"
    by (auto simp: parse_dial_location_authority_def header_value_at_def split: option.splits if_splits)
  have nl: "\<forall>l \<in> set ?ls. 10 \<notin> set l" using split_no_newline by blast
  from splice_lines[OF u assms(2) nl] obtain ls' v' f' where s: "ls' \<noteq> []" "\<forall>l \<in> set ls'. 10 \<notin> set l"
    "join_lines ls' = take (au_offset loc) payload @ socket_v4_display repl @ drop (au_offset loc + au_len loc) payload"
    "au_offset loc + au_len loc \<le> length payload" "header_value_from 0 ?n ls' = Some (off, v')"
    "parse_authority v' False = Some f'" "au_endpoint f' = repl"
    by (auto simp: join_split loc)
  have "header_value_at (join_lines ls') ?n = Some (off, v')" using s(5) split_join[OF s(1,2)] by (simp add: header_value_at_def)
  moreover have off: "au_offset g = 7" if "parse_authority w False = Some g" for w g
    using parse_authority_shape[OF that] by metis
  moreover have "v' \<noteq> []" using s(6) by (auto simp: parse_authority_def strip_prefix_ignore_ascii_case_def bstr_def split: option.splits)
  ultimately have "\<exists>loc'. parse_dial_location_authority (join_lines ls') = Some loc' \<and> au_endpoint loc' = repl \<and> au_offset loc' = off + 7"
    using s(6,7) by (simp add: parse_dial_location_authority_def)
  then show ?thesis using s(3,4) off[OF u(2)] loc(1) by simp
qed

theorem location_splice_witness:
  "\<exists>loc loc'. parse_dial_location_authority (bstr ''NOTIFY * HTTP/1.1'' @ [13, 10] @ bstr ''LOCATION: http://192.168.1.7:8008/dd.xml'' @ [13, 10]) = Some loc \<and>
     parse_dial_location_authority (take (au_offset loc) (bstr ''NOTIFY * HTTP/1.1'' @ [13, 10] @ bstr ''LOCATION: http://192.168.1.7:8008/dd.xml'' @ [13, 10]) @
       socket_v4_display (0x0a000001, 80) @
       drop (au_offset loc + au_len loc) (bstr ''NOTIFY * HTTP/1.1'' @ [13, 10] @ bstr ''LOCATION: http://192.168.1.7:8008/dd.xml'' @ [13, 10])) = Some loc' \<and>
     au_endpoint loc' = (0x0a000001, 80)"
proof -
  let ?p = "bstr ''NOTIFY * HTTP/1.1'' @ [13, 10] @ bstr ''LOCATION: http://192.168.1.7:8008/dd.xml'' @ [13, 10]"
  have "parse_dial_location_authority ?p \<noteq> None" by code_simp
  then obtain loc where l: "parse_dial_location_authority ?p = Some loc" by blast
  have "snd (0x0a000001 :: ipv4, 80 :: u16) \<noteq> 0" by simp
  from location_splice[OF l this] l show ?thesis by blast
qed

text \<open>The wait a reflected M-SEARCH asks for is always between one and five seconds, whatever number of whatever
  length its \<^verbatim>\<open>MX\<close> header carries.\<close>

lemma msearch_mx_clamped: "\<forall>mx. parse_msearch_mx payload = Some mx \<longrightarrow> MX_MIN \<le> mx \<and> mx \<le> MX_MAX"
  by (auto simp: parse_msearch_mx_def Let_def MX_MIN_def MX_MAX_def split: option.splits)

end
