(* ===== verification/Counters.thy ===== *)
theory Counters
  imports Http
begin

text \<open>
  \<^verbatim>\<open>src/src/dispatch/counters.rs\<close>: what a handler did with a packet, how the outcomes of all handlers of one
  packet fold into the one that is recorded, and the counters per interface with their log line. A counter is a
  64-bit word and wraps as one.
\<close>

section \<open>Message types and outcomes\<close>

datatype message_type =
    MdnsQueryType | MdnsResponseType | SsdpAdvertisementType | SsdpSearchType | SsdpResponseType
  | WsdAnnouncementType | WsdSearchType | WsdResponseType | WakeOnLanType | UdpDatagramType

definition ALL_TYPES :: "message_type list" where
  "ALL_TYPES = [MdnsQueryType, MdnsResponseType, SsdpAdvertisementType, SsdpSearchType, SsdpResponseType,
     WsdAnnouncementType, WsdSearchType, WsdResponseType, WakeOnLanType, UdpDatagramType]"

definition MESSAGE_TYPE_COUNT :: nat where "MESSAGE_TYPE_COUNT = length ALL_TYPES"

fun type_index :: "message_type \<Rightarrow> nat" where
  "type_index MdnsQueryType = 0" | "type_index MdnsResponseType = 1" | "type_index SsdpAdvertisementType = 2"
| "type_index SsdpSearchType = 3" | "type_index SsdpResponseType = 4" | "type_index WsdAnnouncementType = 5"
| "type_index WsdSearchType = 6" | "type_index WsdResponseType = 7" | "type_index WakeOnLanType = 8" | "type_index UdpDatagramType = 9"

fun type_labels :: "message_type \<Rightarrow> bytes \<times> bytes" where
  "type_labels MdnsQueryType = (bstr ''mDNS'', bstr ''query'')"
| "type_labels MdnsResponseType = (bstr ''mDNS'', bstr ''response'')"
| "type_labels SsdpAdvertisementType = (bstr ''SSDP'', bstr ''advertisement'')"
| "type_labels SsdpSearchType = (bstr ''SSDP'', bstr ''search'')"
| "type_labels SsdpResponseType = (bstr ''SSDP'', bstr ''response'')"
| "type_labels WsdAnnouncementType = (bstr ''WSD'', bstr ''announcement'')"
| "type_labels WsdSearchType = (bstr ''WSD'', bstr ''search'')"
| "type_labels WsdResponseType = (bstr ''WSD'', bstr ''response'')"
| "type_labels WakeOnLanType = (bstr ''WoL'', [])"
| "type_labels UdpDatagramType = (bstr ''UDP relay'', [])"

definition type_display :: "message_type \<Rightarrow> bytes" where
  "type_display t = (case type_labels t of (protocol, direction) \<Rightarrow> if direction = [] then protocol else protocol @ [32] @ direction)"

definition is_specific :: "message_type \<Rightarrow> bool" where
  "is_specific t \<longleftrightarrow> t \<noteq> UdpDatagramType"

datatype disposition = DFiltered | DSkipped | DRefused | DStalled | DDropped | DReflected

text \<open>The derived order: declaration order, worst to best.\<close>

fun disposition_rank :: "disposition \<Rightarrow> nat" where
  "disposition_rank DFiltered = 0" | "disposition_rank DSkipped = 1" | "disposition_rank DRefused = 2"
| "disposition_rank DStalled = 3" | "disposition_rank DDropped = 4" | "disposition_rank DReflected = 5"

instantiation disposition :: linorder
begin

definition less_eq_disposition :: "disposition \<Rightarrow> disposition \<Rightarrow> bool" where
  "less_eq_disposition a b \<longleftrightarrow> disposition_rank a \<le> disposition_rank b"

definition less_disposition :: "disposition \<Rightarrow> disposition \<Rightarrow> bool" where
  "less_disposition a b \<longleftrightarrow> disposition_rank a < disposition_rank b"

instance
proof
  fix a b :: disposition
  assume "a \<le> b" "b \<le> a"
  then show "a = b" by (cases a; cases b; simp add: less_eq_disposition_def)
qed (auto simp: less_eq_disposition_def less_disposition_def)

end

record anomalies =
  type_mismatch :: bool

datatype outcome =
    Reflected message_type
  | Skipped message_type
  | Refused message_type
  | Dropped message_type
  | Stalled message_type
  | Filtered

fun disposition_of :: "outcome \<Rightarrow> disposition" where
  "disposition_of (Reflected _) = DReflected"
| "disposition_of (Dropped _) = DDropped"
| "disposition_of (Stalled _) = DStalled"
| "disposition_of (Refused _) = DRefused"
| "disposition_of (Skipped _) = DSkipped"
| "disposition_of Filtered = DFiltered"

fun message_type_of :: "outcome \<Rightarrow> message_type option" where
  "message_type_of (Reflected t) = Some t"
| "message_type_of (Skipped t) = Some t"
| "message_type_of (Refused t) = Some t"
| "message_type_of (Dropped t) = Some t"
| "message_type_of (Stalled t) = Some t"
| "message_type_of Filtered = None"

fun with_type :: "outcome \<Rightarrow> message_type \<Rightarrow> outcome" where
  "with_type (Reflected _) t = Reflected t"
| "with_type (Skipped _) t = Skipped t"
| "with_type (Refused _) t = Refused t"
| "with_type (Dropped _) t = Dropped t"
| "with_type (Stalled _) t = Stalled t"
| "with_type Filtered t = Filtered"

definition combine :: "outcome \<Rightarrow> outcome \<Rightarrow> outcome \<times> anomalies" where
  "combine self other =
     (let types = (message_type_of self, message_type_of other);
          anomalies = \<lparr>type_mismatch =
            (case types of (Some a, Some b) \<Rightarrow> a \<noteq> b \<and> is_specific a \<and> is_specific b | _ \<Rightarrow> False)\<rparr>;
          merged = (if disposition_of other > disposition_of self then other else self);
          merged =
            (case types of
               (Some a, Some b) \<Rightarrow>
                 if is_specific a \<noteq> is_specific b then with_type merged (if is_specific a then a else b) else merged
             | _ \<Rightarrow> merged)
      in (merged, anomalies))"

section \<open>Counters\<close>

record type_counters =
  tc_reflected :: u64
  tc_skipped :: u64
  tc_refused :: u64
  tc_dropped :: u64
  tc_stalled :: u64

definition type_counters_default :: type_counters where
  "type_counters_default = \<lparr>tc_reflected = 0, tc_skipped = 0, tc_refused = 0, tc_dropped = 0, tc_stalled = 0\<rparr>"

fun join_with :: "bytes \<Rightarrow> bytes list \<Rightarrow> bytes" where
  "join_with sep [] = []"
| "join_with sep [x] = x"
| "join_with sep (x # y # ys) = x @ sep @ join_with sep (y # ys)"

definition labelled :: "bytes \<Rightarrow> u64 \<Rightarrow> bytes" where
  "labelled label count = label @ [61] @ decimal (unat count)"

definition type_format_nonzero :: "type_counters \<Rightarrow> bytes option" where
  "type_format_nonzero c =
     (let parts = map (\<lambda>(label, count). labelled label count)
            (filter (\<lambda>(_, count). count > 0)
               [(bstr ''reflected'', tc_reflected c), (bstr ''skipped'', tc_skipped c), (bstr ''refused'', tc_refused c),
                (bstr ''dropped'', tc_dropped c), (bstr ''stalled'', tc_stalled c)])
      in if parts = [] then None else Some (join_with [32] parts))"

record capture_counters =
  cc_types :: "type_counters list"
  cc_filtered :: u64
  cc_echoed :: u64
  cc_recoveries :: u64
  cc_oversized :: u64
  cc_unreassembled :: u64

definition capture_counters_default :: capture_counters where
  "capture_counters_default =
     \<lparr>cc_types = replicate MESSAGE_TYPE_COUNT type_counters_default, cc_filtered = 0, cc_echoed = 0, cc_recoveries = 0,
      cc_oversized = 0, cc_unreassembled = 0\<rparr>"

definition bump :: "capture_counters \<Rightarrow> message_type \<Rightarrow> (type_counters \<Rightarrow> type_counters) \<Rightarrow> capture_counters" where
  "bump c t f = c\<lparr>cc_types := (cc_types c)[type_index t := f (cc_types c ! type_index t)]\<rparr>"

fun record_outcome :: "capture_counters \<Rightarrow> outcome \<Rightarrow> capture_counters" where
  "record_outcome c (Reflected t) = bump c t (\<lambda>r. r\<lparr>tc_reflected := tc_reflected r + 1\<rparr>)"
| "record_outcome c (Skipped t) = bump c t (\<lambda>r. r\<lparr>tc_skipped := tc_skipped r + 1\<rparr>)"
| "record_outcome c (Refused t) = bump c t (\<lambda>r. r\<lparr>tc_refused := tc_refused r + 1\<rparr>)"
| "record_outcome c (Dropped t) = bump c t (\<lambda>r. r\<lparr>tc_dropped := tc_dropped r + 1\<rparr>)"
| "record_outcome c (Stalled t) = bump c t (\<lambda>r. r\<lparr>tc_stalled := tc_stalled r + 1\<rparr>)"
| "record_outcome c Filtered = c\<lparr>cc_filtered := cc_filtered c + 1\<rparr>"

definition record_recovery :: "capture_counters \<Rightarrow> capture_counters" where
  "record_recovery c = c\<lparr>cc_recoveries := cc_recoveries c + 1\<rparr>"

definition record_oversized :: "capture_counters \<Rightarrow> u64 \<Rightarrow> capture_counters" where
  "record_oversized c n = c\<lparr>cc_oversized := cc_oversized c + n\<rparr>"

definition record_echo :: "capture_counters \<Rightarrow> capture_counters" where
  "record_echo c = c\<lparr>cc_echoed := cc_echoed c + 1\<rparr>"

definition record_unreassembled :: "capture_counters \<Rightarrow> capture_counters" where
  "record_unreassembled c = c\<lparr>cc_unreassembled := cc_unreassembled c + 1\<rparr>"

definition format_nonzero :: "capture_counters \<Rightarrow> bytes option" where
  "format_nonzero c =
     (let nonzero = (\<lambda>label n. if n > 0 then [labelled label n] else []);
          parts = nonzero (bstr ''recoveries'') (cc_recoveries c)
            @ List.map_filter (\<lambda>(ty, counts). map_option (\<lambda>fields. type_display ty @ [32] @ fields) (type_format_nonzero counts))
                (zip ALL_TYPES (cc_types c))
            @ nonzero (bstr ''filtered'') (cc_filtered c)
            @ nonzero (bstr ''echoed'') (cc_echoed c)
            @ nonzero (bstr ''oversized'') (cc_oversized c)
            @ nonzero (bstr ''unreassembled'') (cc_unreassembled c)
      in if parts = [] then None else Some (join_with (bstr ''; '') parts))"

section \<open>The fold over a packet's handlers\<close>

text \<open>The dispatcher's fold: the first outcome, then each further one combined in.\<close>

fun fold_outcomes :: "outcome \<Rightarrow> outcome list \<Rightarrow> outcome \<times> bool" where
  "fold_outcomes o1 [] = (o1, False)"
| "fold_outcomes o1 (o2 # os) =
     (let (merged, an) = combine o1 o2; (final, mismatch) = fold_outcomes merged os
      in (final, type_mismatch an \<or> mismatch))"

text \<open>What the fold should come to, whatever the order: the best disposition, under the one protocol type seen.\<close>

definition best :: "outcome list \<Rightarrow> disposition" where
  "best os = Max (set (map disposition_of os))"

definition types_within :: "message_type \<Rightarrow> outcome list \<Rightarrow> bool" where
  "types_within t os \<longleftrightarrow> (\<forall>x \<in> set os. message_type_of x \<in> {None, Some t, Some UdpDatagramType})"

definition folded_type :: "message_type \<Rightarrow> outcome list \<Rightarrow> message_type option" where
  "folded_type t os =
     (if \<forall>x \<in> set os. message_type_of x = None then None
      else Some (if \<exists>x \<in> set os. message_type_of x = Some t then t else UdpDatagramType))"

lemma outcome_eq: "x = y \<longleftrightarrow> disposition_of x = disposition_of y \<and> message_type_of x = message_type_of y"
  by (cases x; cases y) auto

lemma message_type_None: "message_type_of x = None \<longleftrightarrow> disposition_of x = DFiltered"
  by (cases x) auto

lemma DFiltered_least: "DFiltered \<le> d"
  by (simp add: less_eq_disposition_def)

lemma with_type_simps [simp]:
  "disposition_of (with_type x t) = disposition_of x"
  "message_type_of (with_type x t) = (if message_type_of x = None then None else Some t)"
  by (cases x; simp)+

lemma typed_above: "message_type_of x = Some a \<Longrightarrow> message_type_of y = None \<Longrightarrow> disposition_of y < disposition_of x"
  by (cases x; cases y) (auto simp: less_disposition_def)

lemma combine_disposition: "disposition_of (fst (combine x y)) = max (disposition_of x) (disposition_of y)"
  by (auto simp: combine_def Let_def max_def split: option.split)

lemma combine_type:
  assumes "types_within t [x, y]"
  shows "message_type_of (fst (combine x y)) = folded_type t [x, y]" "\<not> type_mismatch (snd (combine x y))"
proof -
  have t: "message_type_of x \<in> {None, Some t, Some UdpDatagramType}" "message_type_of y \<in> {None, Some t, Some UdpDatagramType}"
    using assms by (simp_all add: types_within_def)
  consider (nn) "message_type_of x = None" "message_type_of y = None"
    | (sn) a where "message_type_of x = Some a" "message_type_of y = None" "disposition_of y < disposition_of x"
    | (ns) b where "message_type_of x = None" "message_type_of y = Some b" "disposition_of x < disposition_of y"
    | (ss) a b where "message_type_of x = Some a" "message_type_of y = Some b"
    using typed_above by (metis option.exhaust)
  then have "message_type_of (fst (combine x y)) = folded_type t [x, y] \<and> \<not> type_mismatch (snd (combine x y))"
  proof cases
    case nn
    then show ?thesis by (simp add: combine_def folded_type_def)
  next
    case sn
    then show ?thesis using t by (auto simp: combine_def folded_type_def)
  next
    case ns
    then show ?thesis using t by (auto simp: combine_def folded_type_def)
  next
    case ss
    with t have "a = t \<or> a = UdpDatagramType" "b = t \<or> b = UdpDatagramType" by auto
    with ss show ?thesis by (elim disjE) (simp_all add: combine_def folded_type_def is_specific_def Let_def)
  qed
  then show "message_type_of (fst (combine x y)) = folded_type t [x, y]" "\<not> type_mismatch (snd (combine x y))" by blast+
qed

lemma folded_type_within: "types_within t os \<Longrightarrow> folded_type t os \<in> {None, Some t, Some UdpDatagramType}"
  by (auto simp: folded_type_def)

lemma folded_type_step:
  assumes "types_within t (x # y # os)" "message_type_of m = folded_type t [x, y]"
  shows "folded_type t (m # os) = folded_type t (x # y # os)"
proof -
  have "message_type_of x \<in> {None, Some t, Some UdpDatagramType}" "message_type_of y \<in> {None, Some t, Some UdpDatagramType}"
    using assms(1) by (simp_all add: types_within_def)
  then have "message_type_of m = None \<longleftrightarrow> message_type_of x = None \<and> message_type_of y = None"
    "message_type_of m = Some t \<longleftrightarrow> message_type_of x = Some t \<or> message_type_of y = Some t"
    using assms(2) by (auto simp: folded_type_def split: if_splits)
  then show ?thesis by (auto simp: folded_type_def)
qed

lemma best_step: "best (x # y # os) = best (m # os)" if "disposition_of m = max (disposition_of x) (disposition_of y)"
proof -
  have "Max (insert (disposition_of x) (insert (disposition_of y) S)) = Max (insert (disposition_of m) S)" if "finite S" for S
    using that \<open>disposition_of m = _\<close> by (cases "S = {}") (simp_all add: ac_simps)
  from this[of "disposition_of ` set os"] show ?thesis by (simp add: best_def)
qed

text \<open>The outcome a packet is counted under does not depend on the order its handlers ran in. When no two handlers
  classified it to different protocols (the relay's own type aside), folding their outcomes in any order
  records the best disposition among them, under the protocol's type if any handler reported one, and raises no
  type-mismatch anomaly.\<close>

theorem fold_outcomes_order_free:
  assumes "types_within t (x # os)"
  shows "disposition_of (fst (fold_outcomes x os)) = best (x # os) \<and>
    message_type_of (fst (fold_outcomes x os)) = folded_type t (x # os) \<and> \<not> snd (fold_outcomes x os) \<and>
    (\<forall>y ys. set (y # ys) = set (x # os) \<longrightarrow> fold_outcomes y ys = fold_outcomes x os)"
proof -
  have spec: "disposition_of (fst (fold_outcomes x os)) = best (x # os) \<and>
      message_type_of (fst (fold_outcomes x os)) = folded_type t (x # os) \<and> \<not> snd (fold_outcomes x os)"
    if "types_within t (x # os)" for x os
    using that
  proof (induction os arbitrary: x)
    case Nil
    then show ?case by (auto simp: best_def folded_type_def types_within_def)
  next
    case (Cons y os)
    let ?m = "fst (combine x y)"
    have xy: "types_within t [x, y]" using Cons.prems by (simp add: types_within_def)
    note m = combine_disposition[of x y] combine_type[OF xy]
    have "types_within t (?m # os)"
      using Cons.prems folded_type_within[OF xy] m(2) by (simp add: types_within_def)
    note IH = Cons.IH[OF this]
    have "fold_outcomes x (y # os) = fold_outcomes ?m os"
      using m(3) by (simp add: Let_def case_prod_beta prod_eq_iff)
    then show ?case using IH best_step[OF m(1), of os] folded_type_step[OF Cons.prems m(2)] by simp
  qed
  have "fold_outcomes y ys = fold_outcomes x os" if s: "set (y # ys) = set (x # os)" for y ys
  proof -
    have w: "types_within t (y # ys)" using assms s unfolding types_within_def by auto
    have "best (y # ys) = best (x # os)" unfolding best_def set_map s ..
    moreover have "folded_type t (y # ys) = folded_type t (x # os)" unfolding folded_type_def s ..
    ultimately show ?thesis using spec[OF w] spec[OF assms] by (auto simp: prod_eq_iff outcome_eq)
  qed
  with spec[OF assms] show ?thesis by blast
qed

theorem fold_outcomes_order_free_witness:
  "fold_outcomes (Reflected UdpDatagramType) [Filtered, Skipped MdnsQueryType] =
   fold_outcomes (Skipped MdnsQueryType) [Reflected UdpDatagramType, Filtered]"
proof -
  have "types_within MdnsQueryType (Skipped MdnsQueryType # [Reflected UdpDatagramType, Filtered])" by (simp add: types_within_def)
  moreover have "set (Reflected UdpDatagramType # [Filtered, Skipped MdnsQueryType]) =
      set (Skipped MdnsQueryType # [Reflected UdpDatagramType, Filtered])" by auto
  ultimately show ?thesis using fold_outcomes_order_free by blast
qed

text \<open>Two handlers that report one packet under two different protocols with the same disposition do not commute:
  the first one's type wins.\<close>

lemma combine_mismatch_ordered:
  "fst (combine (Reflected MdnsQueryType) (Reflected SsdpSearchType)) \<noteq> fst (combine (Reflected SsdpSearchType) (Reflected MdnsQueryType)) \<and>
   type_mismatch (snd (combine (Reflected MdnsQueryType) (Reflected SsdpSearchType)))"
  by code_simp

section \<open>The log line\<close>

definition counters_idle :: "capture_counters \<Rightarrow> bool" where
  "counters_idle c \<longleftrightarrow>
     (\<forall>r \<in> set (cc_types c). r = type_counters_default) \<and> cc_filtered c = 0 \<and> cc_echoed c = 0 \<and> cc_recoveries c = 0 \<and>
     cc_oversized c = 0 \<and> cc_unreassembled c = 0"

definition counters_inv :: "capture_counters \<Rightarrow> bool" where
  "counters_inv c \<longleftrightarrow> length (cc_types c) = MESSAGE_TYPE_COUNT"

lemma type_index_bound: "type_index t < MESSAGE_TYPE_COUNT"
  by (cases t) (simp_all add: MESSAGE_TYPE_COUNT_def ALL_TYPES_def)

lemma type_format_None: "type_format_nonzero r = None \<longleftrightarrow> r = type_counters_default"
  by (cases r) (auto simp: type_format_nonzero_def type_counters_default_def Let_def word_gt_0)

text \<open>Counting keeps one row per message type, so no outcome is ever counted out of range, and an interface has a
  log line exactly when some counter of it is not zero.\<close>

lemma counters_well_formed:
  assumes "counters_inv c"
  shows "counters_inv (record_outcome c out) \<and> counters_inv (record_recovery c) \<and> counters_inv (record_oversized c n) \<and>
    counters_inv (record_echo c) \<and> counters_inv (record_unreassembled c) \<and>
    (\<forall>t. message_type_of out = Some t \<longrightarrow> type_index t < length (cc_types c)) \<and>
    (format_nonzero c = None \<longleftrightarrow> counters_idle c)"
proof -
  have "counters_inv (record_outcome c out)" using assms by (cases out) (simp_all add: counters_inv_def bump_def)
  moreover have "counters_inv (record_recovery c)" "counters_inv (record_oversized c n)" "counters_inv (record_echo c)" "counters_inv (record_unreassembled c)"
    using assms by (simp_all add: counters_inv_def record_recovery_def record_oversized_def record_echo_def record_unreassembled_def)
  moreover have "type_index t < length (cc_types c)" for t using assms type_index_bound by (simp add: counters_inv_def)
  moreover have "format_nonzero c = None \<longleftrightarrow> counters_idle c"
  proof -
    have idle: "type_format_nonzero type_counters_default = None" by (simp add: type_format_None)
    have "List.map_filter (\<lambda>(ty, counts). map_option (\<lambda>fields. type_display ty @ [32] @ fields) (type_format_nonzero counts)) (zip tys rs) = [] \<longleftrightarrow>
        (\<forall>r \<in> set rs. r = type_counters_default)" if "length tys = length rs" for tys rs
      using that by (induction tys rs rule: list_induct2) (auto simp: List.map_filter_simps type_format_None idle split: option.splits)
    moreover have "length ALL_TYPES = length (cc_types c)" using assms by (simp add: counters_inv_def MESSAGE_TYPE_COUNT_def)
    ultimately show ?thesis by (auto simp: format_nonzero_def counters_idle_def Let_def word_gt_0)
  qed
  ultimately show ?thesis by blast
qed

lemma counters_well_formed_witness:
  "format_nonzero (record_outcome capture_counters_default (Reflected MdnsQueryType)) \<noteq> None"
proof -
  have "counters_inv capture_counters_default" by code_simp
  then have i: "counters_inv (record_outcome capture_counters_default (Reflected MdnsQueryType))" using counters_well_formed by blast
  have "\<not> counters_idle (record_outcome capture_counters_default (Reflected MdnsQueryType))" by code_simp
  with counters_well_formed[OF i] show ?thesis by blast
qed

end
