(* ===== verification/Dns_Message.thy ===== *)
theory Dns_Message
  imports Addresses
begin

text \<open>
  \<^verbatim>\<open>src/src/net/mdns/message.rs\<close> and \<^verbatim>\<open>src/src/net/mdns.rs\<close>: a DNS message's questions and records,
  walked within a step budget, and re-encoded without the entries a filter drops. \<open>None\<close> is the
  code's \<^verbatim>\<open>Malformed\<close>. The iterators \<^verbatim>\<open>Labels\<close> and \<^verbatim>\<open>Entries\<close> yield one error and end, and every user
  of them stops at it, so they are modelled as the list of what they yield or \<open>None\<close>; a budget is
  the steps left, and each loop that spends it is a recursion on it.
\<close>

section \<open>Constants and the classifier\<close>

definition MDNS_PORT :: u16 where "MDNS_PORT = 5353"
definition MDNS_TTL :: u8 where "MDNS_TTL = 255"
definition MDNS_GROUP_V4 :: ipv4 where "MDNS_GROUP_V4 = 0xe00000fb"
definition MDNS_GROUP_V6 :: ipv6 where "MDNS_GROUP_V6 = 0xff0200000000000000000000000000fb"

datatype mdns_kind = MdnsQuery | MdnsResponse

definition DNS_HEADER_LEN :: nat where "DNS_HEADER_LEN = 12"
definition FLAGS_HIGH :: nat where "FLAGS_HIGH = 2"
definition QR_BIT :: u8 where "QR_BIT = 0x80"

definition classify :: "bytes \<Rightarrow> mdns_kind option" where
  "classify payload =
     (if length payload < DNS_HEADER_LEN then None
      else Some (if payload ! FLAGS_HIGH AND QR_BIT \<noteq> 0 then MdnsResponse else MdnsQuery))"

definition QDCOUNT_AT :: nat where "QDCOUNT_AT = 4"
definition ANCOUNT_AT :: nat where "ANCOUNT_AT = 6"
definition NSCOUNT_AT :: nat where "NSCOUNT_AT = 8"
definition ARCOUNT_AT :: nat where "ARCOUNT_AT = 10"
definition MAX_NAME_LEN :: nat where "MAX_NAME_LEN = 255"
definition MAX_POINTER_HOPS :: nat where "MAX_POINTER_HOPS = MAX_NAME_LEN div 2"
definition STEPS_PER_BYTE :: nat where "STEPS_PER_BYTE = 4"
definition UNPLACED :: u16 where "UNPLACED = 0xffff"
definition MAX_POINTER_TARGET :: nat where "MAX_POINTER_TARGET = 0x3fff"

definition budget_for :: "bytes \<Rightarrow> nat" where
  "budget_for payload = min (length payload * STEPS_PER_BYTE) USIZE_MAX"

section \<open>Names\<close>

text \<open>Where a compression pointer's two octets point.\<close>

definition pointer_target :: "u8 \<Rightarrow> u8 \<Rightarrow> nat" where
  "pointer_target hi lo = unat (hi AND 0x3f) * 256 + unat lo"

fun labels_from :: "bytes \<Rightarrow> nat \<Rightarrow> nat \<Rightarrow> nat \<Rightarrow> nat \<Rightarrow> (bytes list \<times> nat) option" where
  "labels_from payload at hops len 0 = None"
| "labels_from payload at hops len (Suc budget) =
     (case nth_opt payload at of
        None \<Rightarrow> None
      | Some l \<Rightarrow>
          if l = 0 then Some ([], budget)
          else if l \<le> 0x3f then
            let start = at + 1 in
            (case get_slice start (start + unat l) payload of
               None \<Rightarrow> None
             | Some label \<Rightarrow>
                 let len = len + (1 + length label) in
                 if len \<ge> MAX_NAME_LEN then None
                 else map_option (\<lambda>(ls, b). (label # ls, b)) (labels_from payload (start + length label) hops len budget))
          else if 0xc0 \<le> l then
            (case nth_opt payload (at + 1) of
               None \<Rightarrow> None
             | Some low \<Rightarrow>
                 let hops = hops + 1 in
                 if hops > MAX_POINTER_HOPS then None
                 else labels_from payload (pointer_target l low) hops len budget)
          else None)"

definition labels :: "bytes \<Rightarrow> nat \<Rightarrow> nat \<Rightarrow> (bytes list \<times> nat) option" where
  "labels payload at budget = labels_from payload at 0 0 budget"

definition check_name :: "bytes \<Rightarrow> nat \<Rightarrow> nat \<Rightarrow> nat option" where
  "check_name payload at budget = map_option snd (labels payload at budget)"

function skip_name :: "bytes \<Rightarrow> nat \<Rightarrow> nat option" where
  "skip_name payload at =
     (case nth_opt payload at of
        None \<Rightarrow> None
      | Some l \<Rightarrow>
          if l = 0 then Some (at + 1)
          else if l \<le> 0x3f then skip_name payload (at + (1 + unat l))
          else if 0xc0 \<le> l then (if at + 1 < length payload then Some (at + 2) else None)
          else None)"
  by pat_completeness auto
termination
  by (relation "measure (\<lambda>(payload, at). length payload - at)") (auto simp: nth_opt_def split: if_splits)

declare skip_name.simps [simp del]

section \<open>Entries\<close>

datatype dns_section = Question | Answer | Authority | Additional

record rdata_names =
  rn_offset :: nat
  rn_count :: nat

record dns_entry =
  en_section :: dns_section
  en_name :: nat
  en_fixed :: nat
  en_rtype :: u16
  en_rdata :: nat
  en_end :: nat

definition TYPE_PTR :: u16 where "TYPE_PTR = 12"
definition TYPE_SRV :: u16 where "TYPE_SRV = 33"

text \<open>The record types whose rdata carries names: NS, MD, MF, CNAME, MB, MG, MR, PTR, DNAME, NSEC; SOA,
  MINFO, RP; MX, AFSDB, RT, KX; PX; SRV.\<close>

definition rdata_names_of :: "u16 \<Rightarrow> rdata_names option" where
  "rdata_names_of rtype =
     (if rtype \<in> {2, 3, 4, 5, 7, 8, 9, TYPE_PTR, 39, 47} then Some \<lparr>rn_offset = 0, rn_count = 1\<rparr>
      else if rtype \<in> {6, 14, 17} then Some \<lparr>rn_offset = 0, rn_count = 2\<rparr>
      else if rtype \<in> {15, 18, 21, 36} then Some \<lparr>rn_offset = 2, rn_count = 1\<rparr>
      else if rtype = 26 then Some \<lparr>rn_offset = 2, rn_count = 2\<rparr>
      else if rtype = TYPE_SRV then Some \<lparr>rn_offset = 6, rn_count = 1\<rparr>
      else None)"

definition entry_rdata_names :: "dns_entry \<Rightarrow> rdata_names option" where
  "entry_rdata_names e = (if en_rdata e < en_end e then rdata_names_of (en_rtype e) else None)"

fun check_rdata_names :: "bytes \<Rightarrow> nat \<Rightarrow> nat \<Rightarrow> nat \<Rightarrow> nat \<Rightarrow> nat option" where
  "check_rdata_names payload stop 0 at budget = Some budget"
| "check_rdata_names payload stop (Suc n) at budget =
     (case check_name payload at budget of
        None \<Rightarrow> None
      | Some budget \<Rightarrow>
          (case skip_name payload at of
             None \<Rightarrow> None
           | Some at \<Rightarrow> if at > stop then None else check_rdata_names payload stop n at budget))"

definition check_names :: "dns_entry \<Rightarrow> bytes \<Rightarrow> nat \<Rightarrow> nat option" where
  "check_names e payload budget =
     (case check_name payload (en_name e) budget of
        None \<Rightarrow> None
      | Some budget \<Rightarrow>
          (case entry_rdata_names e of
             None \<Rightarrow> Some budget
           | Some names \<Rightarrow> check_rdata_names payload (en_end e) (rn_count names) (en_rdata e + rn_offset names) budget))"

definition entry_step :: "bytes \<Rightarrow> dns_section \<Rightarrow> nat \<Rightarrow> dns_entry option" where
  "entry_step payload sect at =
     (case skip_name payload at of
        None \<Rightarrow> None
      | Some fixed \<Rightarrow>
          let built = (\<lambda>rdata stop. \<lparr>en_section = sect, en_name = at, en_fixed = fixed,
                 en_rtype = u16_of (payload ! fixed) (payload ! (fixed + 1)), en_rdata = rdata, en_end = stop\<rparr>)
          in if sect = Question then
               (case get_slice fixed (fixed + 4) payload of
                  None \<Rightarrow> None
                | Some _ \<Rightarrow> Some (built (fixed + 4) (fixed + 4)))
             else
               (case get_slice fixed (fixed + 10) payload of
                  None \<Rightarrow> None
                | Some head \<Rightarrow>
                    let rdata = fixed + 10;
                        stop = rdata + unat (u16_of (head ! 8) (head ! 9))
                    in if stop > length payload then None else Some (built rdata stop)))"

fun entries_of :: "bytes \<Rightarrow> dns_section \<Rightarrow> nat \<Rightarrow> nat \<Rightarrow> (dns_entry list \<times> nat) option" where
  "entries_of payload sect 0 at = Some ([], at)"
| "entries_of payload sect (Suc left) at =
     (case entry_step payload sect at of
        None \<Rightarrow> None
      | Some e \<Rightarrow> map_option (\<lambda>(es, at). (e # es, at)) (entries_of payload sect left (en_end e)))"

fun entries_in :: "bytes \<Rightarrow> (dns_section \<times> nat) list \<Rightarrow> nat \<Rightarrow> dns_entry list option" where
  "entries_in payload [] at = Some []"
| "entries_in payload ((sect, left) # remaining) at =
     (case entries_of payload sect left at of
        None \<Rightarrow> None
      | Some (es, at) \<Rightarrow> map_option (\<lambda>rest. es @ rest) (entries_in payload remaining at))"

definition section_count :: "bytes \<Rightarrow> nat \<Rightarrow> nat" where
  "section_count payload at =
     (case get_slice at (at + 2) payload of None \<Rightarrow> 0 | Some n \<Rightarrow> unat (u16_of (n ! 0) (n ! 1)))"

definition entries :: "bytes \<Rightarrow> dns_entry list option" where
  "entries payload =
     (if length payload < DNS_HEADER_LEN then Some []
      else entries_in payload
             [(Question, section_count payload QDCOUNT_AT), (Answer, section_count payload ANCOUNT_AT),
              (Authority, section_count payload NSCOUNT_AT), (Additional, section_count payload ARCOUNT_AT)]
             DNS_HEADER_LEN)"

section \<open>Re-encoding\<close>

record trimmer =
  tr_out :: bytes
  tr_placed :: "u16 list"

definition trimmer_default :: trimmer where
  "trimmer_default = \<lparr>tr_out = [], tr_placed = []\<rparr>"

text \<open>The loop of \<^verbatim>\<open>write_name\<close>, for a name that started at output offset \<open>start\<close>.\<close>

fun write_name_loop :: "bytes \<Rightarrow> nat \<Rightarrow> trimmer \<Rightarrow> nat \<Rightarrow> nat \<Rightarrow> nat \<Rightarrow> (trimmer \<times> nat) option" where
  "write_name_loop payload start t at hops 0 = None"
| "write_name_loop payload start t at hops (Suc budget) =
     (let placed = (case nth_opt (tr_placed t) at of Some p \<Rightarrow> p | None \<Rightarrow> UNPLACED) in
      if placed \<noteq> UNPLACED then
        if unat placed \<ge> start then None
        else Some (t\<lparr>tr_out := tr_out t @ u16_be (0xc000 OR placed)\<rparr>, budget)
      else
        (case nth_opt payload at of
           None \<Rightarrow> None
         | Some l \<Rightarrow>
             if l = 0 then Some (t\<lparr>tr_out := tr_out t @ [0]\<rparr>, budget)
             else if l \<le> 0x3f then
               (case get_slice at (at + (1 + unat l)) payload of
                  None \<Rightarrow> None
                | Some label \<Rightarrow>
                    let here = length (tr_out t);
                        t = (if here \<le> MAX_POINTER_TARGET then t\<lparr>tr_placed := (tr_placed t)[at := of_nat here]\<rparr> else t)
                    in write_name_loop payload start (t\<lparr>tr_out := tr_out t @ label\<rparr>) (at + length label) hops budget)
             else if 0xc0 \<le> l then
               (case nth_opt payload (at + 1) of
                  None \<Rightarrow> None
                | Some low \<Rightarrow>
                    let hops = hops + 1 in
                    if hops > MAX_POINTER_HOPS then None
                    else write_name_loop payload start t (pointer_target l low) hops budget)
             else None))"

definition write_name :: "trimmer \<Rightarrow> bytes \<Rightarrow> nat \<Rightarrow> nat \<Rightarrow> (trimmer \<times> nat) option" where
  "write_name t payload at budget = write_name_loop payload (length (tr_out t)) t at 0 budget"

fun write_rdata_names :: "bytes \<Rightarrow> nat \<Rightarrow> trimmer \<Rightarrow> nat \<Rightarrow> nat \<Rightarrow> (trimmer \<times> nat \<times> nat) option" where
  "write_rdata_names payload 0 t at budget = Some (t, at, budget)"
| "write_rdata_names payload (Suc n) t at budget =
     (case write_name t payload at budget of
        None \<Rightarrow> None
      | Some (t, budget) \<Rightarrow>
          (case skip_name payload at of
             None \<Rightarrow> None
           | Some at \<Rightarrow> write_rdata_names payload n t at budget))"

definition emit :: "trimmer \<Rightarrow> bytes \<Rightarrow> trimmer" where
  "emit t bs = t\<lparr>tr_out := tr_out t @ bs\<rparr>"

definition write_rdata :: "trimmer \<Rightarrow> bytes \<Rightarrow> dns_entry \<Rightarrow> nat \<Rightarrow> (trimmer \<times> nat) option" where
  "write_rdata t payload e budget =
     (case entry_rdata_names e of
        Some names \<Rightarrow>
          let at = en_rdata e + rn_offset names in
          (case get_slice (en_rdata e) at payload of
             None \<Rightarrow> None
           | Some head \<Rightarrow>
               (case write_rdata_names payload (rn_count names) (emit t head) at budget of
                  None \<Rightarrow> None
                | Some (t, at, budget) \<Rightarrow>
                    (case get_slice at (en_end e) payload of
                       None \<Rightarrow> None
                     | Some tail \<Rightarrow> Some (emit t tail, budget))))
      | None \<Rightarrow>
          (case get_slice (en_rdata e) (en_end e) payload of
             None \<Rightarrow> None
           | Some rdata \<Rightarrow> Some (emit t rdata, budget)))"

definition write_entry :: "trimmer \<Rightarrow> bytes \<Rightarrow> dns_entry \<Rightarrow> nat \<Rightarrow> (trimmer \<times> nat) option" where
  "write_entry t payload e budget =
     (case write_name t payload (en_name e) budget of
        None \<Rightarrow> None
      | Some (t, budget) \<Rightarrow>
          if en_section e = Question then
            (case get_slice (en_fixed e) (en_end e) payload of
               None \<Rightarrow> None
             | Some fixed \<Rightarrow> Some (emit t fixed, budget))
          else
            (case get_slice (en_fixed e) (en_fixed e + 8) payload of
               None \<Rightarrow> None
             | Some fixed \<Rightarrow>
                 let t = emit t fixed;
                     length_at = length (tr_out t);
                     t = emit t [0, 0]
                 in case write_rdata t payload e budget of
                      None \<Rightarrow> None
                    | Some (t, budget) \<Rightarrow>
                        (case u16_try_from (length (tr_out t) - length_at - 2) of
                           None \<Rightarrow> None
                         | Some len \<Rightarrow> Some (t\<lparr>tr_out := write_at length_at (u16_be len) (tr_out t)\<rparr>, budget))))"

text \<open>The counts of the four sections, in wire order.\<close>

fun section_index :: "dns_section \<Rightarrow> nat" where
  "section_index Question = 0"
| "section_index Answer = 1"
| "section_index Authority = 2"
| "section_index Additional = 3"

record trim_state =
  ts_trimmer :: trimmer
  ts_budget :: nat
  ts_counts :: "u16 list"
  ts_removed :: nat
  ts_answered :: bool
  ts_refilled :: bool

definition refills :: "(dns_entry \<Rightarrow> bool) \<Rightarrow> dns_entry \<Rightarrow> bool" where
  "refills refill e \<longleftrightarrow> (en_section e = Authority \<or> en_section e = Additional) \<and> refill e"

fun refill_answers :: "bytes \<Rightarrow> (dns_entry \<Rightarrow> bool) \<Rightarrow> dns_entry list \<Rightarrow> trim_state \<Rightarrow> trim_state option" where
  "refill_answers payload refill [] s = Some s"
| "refill_answers payload refill (e # es) s =
     (if refills refill e then
        (case write_entry (ts_trimmer s) payload e (ts_budget s) of
           None \<Rightarrow> None
         | Some (t, budget) \<Rightarrow>
             let n = ts_counts s ! section_index Answer in
             if n = 0xffff then None
             else refill_answers payload refill es
                    (s\<lparr>ts_trimmer := t, ts_budget := budget, ts_counts := (ts_counts s)[section_index Answer := n + 1]\<rparr>))
      else refill_answers payload refill es s)"

text \<open>Before the first authority or additional entry: an empty answer section takes what \<open>refill\<close> picks.\<close>

definition close_answers :: "bytes \<Rightarrow> (dns_entry \<Rightarrow> bool) \<Rightarrow> dns_entry list \<Rightarrow> dns_entry \<Rightarrow> trim_state \<Rightarrow> trim_state option" where
  "close_answers payload refill whole e s =
     (if \<not> ts_answered s \<and> (en_section e = Authority \<or> en_section e = Additional) then
        let s = s\<lparr>ts_answered := True, ts_refilled := (ts_counts s ! section_index Answer = 0)\<rparr> in
        if ts_refilled s then refill_answers payload refill whole s else Some s
      else Some s)"

fun trim_entries ::
  "bytes \<Rightarrow> (dns_entry \<Rightarrow> nat \<Rightarrow> (bool \<times> nat) option) \<Rightarrow> (dns_entry \<Rightarrow> bool) \<Rightarrow> dns_entry list \<Rightarrow> dns_entry list \<Rightarrow> trim_state \<Rightarrow> trim_state option" where
  "trim_entries payload keep refill whole [] s = Some s"
| "trim_entries payload keep refill whole (e # es) s =
     (case close_answers payload refill whole e s of
        None \<Rightarrow> None
      | Some s \<Rightarrow>
          if ts_refilled s \<and> refills refill e then trim_entries payload keep refill whole es s
          else
            (case keep e (ts_budget s) of
               None \<Rightarrow> None
             | Some (False, budget) \<Rightarrow>
                 trim_entries payload keep refill whole es (s\<lparr>ts_budget := budget, ts_removed := ts_removed s + 1\<rparr>)
             | Some (True, budget) \<Rightarrow>
                 (case write_entry (ts_trimmer s) payload e budget of
                    None \<Rightarrow> None
                  | Some (t, budget) \<Rightarrow>
                      let i = section_index (en_section e) in
                      trim_entries payload keep refill whole es
                        (s\<lparr>ts_trimmer := t, ts_budget := budget, ts_counts := (ts_counts s)[i := ts_counts s ! i + 1]\<rparr>))))"

definition patch_counts :: "u16 list \<Rightarrow> bytes \<Rightarrow> bytes" where
  "patch_counts counts out =
     (let out = write_at QDCOUNT_AT (u16_be (counts ! 0)) out;
          out = write_at ANCOUNT_AT (u16_be (counts ! 1)) out;
          out = write_at NSCOUNT_AT (u16_be (counts ! 2)) out
      in write_at ARCOUNT_AT (u16_be (counts ! 3)) out)"

definition trim ::
  "bytes \<Rightarrow> (dns_entry \<Rightarrow> nat \<Rightarrow> (bool \<times> nat) option) \<Rightarrow> (dns_entry \<Rightarrow> bool) \<Rightarrow> (bytes \<times> nat) option" where
  "trim payload keep refill =
     (case get_slice 0 DNS_HEADER_LEN payload of
        None \<Rightarrow> None
      | Some header \<Rightarrow>
          let t = \<lparr>tr_out = header, tr_placed = replicate (length payload) UNPLACED\<rparr>;
              s = \<lparr>ts_trimmer = t, ts_budget = budget_for payload, ts_counts = [0, 0, 0, 0], ts_removed = 0,
                   ts_answered = False, ts_refilled = False\<rparr>
          in case entries payload of
               None \<Rightarrow> None
             | Some es \<Rightarrow>
                 (case trim_entries payload keep refill es es s of
                    None \<Rightarrow> None
                  | Some s \<Rightarrow>
                      let out = tr_out (ts_trimmer s) in
                      if length out > length payload then None
                      else Some (patch_counts (ts_counts s) out, ts_removed s)))"

end
