(* ===== verification/Dns_Names.thy ===== *)
theory Dns_Names
  imports Dns_Message
begin

text \<open>
  What the name walkers of \<^verbatim>\<open>src/src/net/mdns/message.rs\<close> compute. \<open>name_at\<close> is the meaning of a name in
  a message (RFC 1035, the pointers followed); \<open>packed\<close> is the form the trimmer writes, restricted to
  a set of octets so that patching a length or a count elsewhere leaves it alone. \<open>labels\<close> reads
  exactly \<open>name_at\<close>, and \<open>write_name\<close> writes a packed name with the labels it was given, total
  whenever \<open>labels\<close> is.
\<close>

section \<open>The meaning of a name\<close>

abbreviation is_label_len :: "u8 \<Rightarrow> bool" where
  "is_label_len l \<equiv> l \<noteq> 0 \<and> l \<le> 0x3f"

inductive name_at :: "bytes \<Rightarrow> nat \<Rightarrow> bytes list \<Rightarrow> bool" for p where
  root: "at < length p \<Longrightarrow> p ! at = 0 \<Longrightarrow> name_at p at []"
| label: "Suc (at + unat (p ! at)) \<le> length p \<Longrightarrow> is_label_len (p ! at) \<Longrightarrow> name_at p (Suc (at + unat (p ! at))) ls \<Longrightarrow>
    name_at p at (sub_slice (Suc at) (Suc (at + unat (p ! at))) p # ls)"
| pointer: "Suc at < length p \<Longrightarrow> 0xc0 \<le> p ! at \<Longrightarrow> name_at p (pointer_target (p ! at) (p ! Suc at)) ls \<Longrightarrow>
    name_at p at ls"

inductive packed :: "bytes \<Rightarrow> nat set \<Rightarrow> nat \<Rightarrow> bytes list \<Rightarrow> bool" for q S where
  root: "at < length q \<Longrightarrow> at \<in> S \<Longrightarrow> q ! at = 0 \<Longrightarrow> packed q S at []"
| label: "Suc (at + unat (q ! at)) \<le> length q \<Longrightarrow> {at..<Suc (at + unat (q ! at))} \<subseteq> S \<Longrightarrow> is_label_len (q ! at) \<Longrightarrow>
    packed q S (Suc (at + unat (q ! at))) ls \<Longrightarrow>
    packed q S at (sub_slice (Suc at) (Suc (at + unat (q ! at))) q # ls)"
| pointer: "Suc at < length q \<Longrightarrow> {at, Suc at} \<subseteq> S \<Longrightarrow> 0xc0 \<le> q ! at \<Longrightarrow>
    is_label_len (q ! pointer_target (q ! at) (q ! Suc at)) \<Longrightarrow>
    packed q S (pointer_target (q ! at) (q ! Suc at)) ls \<Longrightarrow> packed q S at ls"

lemma label_len_not_pointer: "is_label_len l \<Longrightarrow> \<not> 0xc0 \<le> (l :: u8)"
  by (auto simp: word_le_nat_alt)

lemma pointer_not_label_len: "0xc0 \<le> (l :: u8) \<Longrightarrow> l \<noteq> 0 \<and> \<not> l \<le> 0x3f"
  by (auto simp: word_le_nat_alt)

lemma label_len_bounds: "is_label_len l \<Longrightarrow> 1 \<le> unat l \<and> unat l \<le> 63" for l :: u8
  using unat_eq_0_iff[of l] by (auto simp: word_le_nat_alt Suc_le_eq simp del: unat_eq_0_iff)

inductive_cases name_at_cases: "name_at p at ls"
inductive_cases packed_cases: "packed q S at ls"

lemma name_at_root_iff: "p ! at = 0 \<Longrightarrow> name_at p at ls \<longleftrightarrow> at < length p \<and> ls = []"
  by (auto elim: name_at_cases intro: name_at.root)

lemma name_at_labelE:
  assumes "name_at p at ls" and "is_label_len (p ! at)"
  obtains ls' where "ls = sub_slice (Suc at) (Suc (at + unat (p ! at))) p # ls'" "Suc (at + unat (p ! at)) \<le> length p"
    "name_at p (Suc (at + unat (p ! at))) ls'"
  using assms by (cases rule: name_at.cases) (auto dest: pointer_not_label_len)

lemma name_at_pointerE:
  assumes "name_at p at ls" and "0xc0 \<le> p ! at"
  shows "name_at p (pointer_target (p ! at) (p ! Suc at)) ls \<and> Suc at < length p"
  using assms by (cases rule: name_at.cases) (auto dest: pointer_not_label_len)

lemma name_at_unique: "name_at p at ls \<Longrightarrow> name_at p at ls' \<Longrightarrow> ls' = ls"
proof (induction arbitrary: ls' rule: name_at.induct)
  case (root at)
  then show ?case by (simp add: name_at_root_iff)
next
  case (label at ls)
  from label.prems label.hyps(2) show ?case by (rule name_at_labelE) (simp add: label.IH)
next
  case (pointer at ls)
  from name_at_pointerE[OF pointer.prems pointer.hyps(2)] show ?case by (simp add: pointer.IH)
qed

lemma packed_label_nonempty: "packed q S at ls \<Longrightarrow> is_label_len (q ! at) \<Longrightarrow> ls \<noteq> []"
  by (cases rule: packed.cases) (auto dest: pointer_not_label_len)

lemma packed_start_in: "packed q S at ls \<Longrightarrow> at \<in> S \<and> at < length q"
  by (erule packed_cases) auto

lemma packed_name_at: "packed q S at ls \<Longrightarrow> name_at q at ls"
  by (induction rule: packed.induct) (auto intro: name_at.intros)

text \<open>A packed name reads the same in any message that agrees with it on the octets it uses.\<close>

lemma packed_transfer:
  assumes "packed q S at ls" and agree: "\<And>i. i \<in> S \<Longrightarrow> i < length q \<Longrightarrow> i < length r \<and> r ! i = q ! i" and sub: "S \<subseteq> T"
  shows "packed r T at ls"
  using assms(1)
proof (induction rule: packed.induct)
  case (root at)
  with agree[of at] sub show ?case by (auto intro: packed.root)
next
  case (label at ls)
  let ?n = "unat (q ! at)"
  have at: "at < length r" "r ! at = q ! at" 
    using agree[of at] label.hyps(1,2) by (auto simp: subset_iff)
  have "at + ?n \<in> S" "at + ?n < length q" using label.hyps(1,2) by auto
  then have len: "Suc (at + ?n) \<le> length r" using agree[of "at + ?n"] by simp
  have "sub_slice (Suc at) (Suc (at + ?n)) r = sub_slice (Suc at) (Suc (at + ?n)) q"
  proof (rule nth_equalityI)
    fix k assume "k < length (sub_slice (Suc at) (Suc (at + ?n)) r)"
    then have k: "k < ?n" using len by simp
    then have "Suc (at + k) \<in> S" "Suc (at + k) < length q" using label.hyps(1,2) by auto
    then have "r ! (Suc (at + k)) = q ! (Suc (at + k))" using agree by blast
    then show "sub_slice (Suc at) (Suc (at + ?n)) r ! k = sub_slice (Suc at) (Suc (at + ?n)) q ! k"
      using k len label.hyps(1) by (simp add: nth_sub_slice)
  qed (use len label.hyps(1) in simp)
  moreover have "packed r T at (sub_slice (Suc at) (Suc (at + unat (r ! at))) r # ls)"
    using at len label.hyps label.IH sub by (intro packed.label) auto
  ultimately show ?case using at by simp
next
  case (pointer at ls)
  let ?t = "pointer_target (q ! at) (q ! Suc at)"
  have b: "Suc at < length r" "r ! at = q ! at" "r ! Suc at = q ! Suc at"
    using agree[of at] agree[of "Suc at"] pointer.hyps(1,2) by auto
  have "r ! ?t = q ! ?t" using packed_start_in[OF pointer.hyps(5)] agree by blast
  then show ?case
    using packed.pointer[of at r T ls, unfolded b, OF b(1) _ pointer.hyps(3) _ pointer.IH] pointer.hyps(2,4) sub by (simp add: subset_iff)
qed

section \<open>Reading\<close>

definition wire_len :: "bytes list \<Rightarrow> nat" where
  "wire_len ls = sum_list (map (\<lambda>l. 1 + length l) ls)"

lemma wire_len_simps [simp]: "wire_len [] = 0" "wire_len (l # ls) = 1 + length l + wire_len ls"
  by (simp_all add: wire_len_def)

text \<open>The three ways one step of the label walk can succeed.\<close>

lemma labels_from_stepE:
  assumes "labels_from p at h len b = Some (ls, b')"
  obtains (root) c where "b = Suc c" "at < length p" "p ! at = 0" "ls = []" "b' = c"
  | (label) c ls' where "b = Suc c" "is_label_len (p ! at)" "Suc (at + unat (p ! at)) \<le> length p"
      "len + (1 + unat (p ! at)) < MAX_NAME_LEN" "ls = sub_slice (Suc at) (Suc (at + unat (p ! at))) p # ls'"
      "labels_from p (Suc (at + unat (p ! at))) h (len + (1 + unat (p ! at))) c = Some (ls', b')"
  | (pointer) c where "b = Suc c" "0xc0 \<le> p ! at" "Suc at < length p" "Suc h \<le> MAX_POINTER_HOPS"
      "labels_from p (pointer_target (p ! at) (p ! Suc at)) (Suc h) len c = Some (ls, b')"
proof (cases b)
  case 0
  with assms show ?thesis by simp
next
  case (Suc c)
  have at: "at < length p" using assms Suc by (auto simp: nth_opt_def split: if_splits)
  consider "p ! at = 0" | "is_label_len (p ! at)" | "0xc0 \<le> p ! at" "p ! at \<noteq> 0" "\<not> p ! at \<le> 0x3f"
    using assms Suc at by (force simp: nth_opt_def split: if_splits)
  then show ?thesis
  proof cases
    case 1
    with assms Suc at show ?thesis by (intro root) (auto simp: nth_opt_def)
  next
    case 2
    then obtain ls' where "labels_from p (Suc (at + unat (p ! at))) h (len + (1 + unat (p ! at))) c = Some (ls', b')"
      "ls = sub_slice (Suc at) (Suc (at + unat (p ! at))) p # ls'"
      "Suc (at + unat (p ! at)) \<le> length p" "len + (1 + unat (p ! at)) < MAX_NAME_LEN"
      using assms Suc at by (auto simp: nth_opt_def get_slice_def Let_def split: if_splits)
    with Suc 2 show ?thesis by (intro label)
  next
    case 3
    with assms Suc at show ?thesis
      by (intro pointer) (auto simp: nth_opt_def Let_def split: if_splits)
  qed
qed

lemma labels_from_name_at:
  "labels_from p at h len b = Some (ls, b') \<Longrightarrow>
     name_at p at ls \<and> b' < b \<and> (ls \<noteq> [] \<longrightarrow> len + wire_len ls < MAX_NAME_LEN) \<and> (\<forall>l \<in> set ls. 1 \<le> length l \<and> length l \<le> 63)"
proof (induction b arbitrary: at h len ls)
  case (Suc b)
  from Suc.prems show ?case
  proof (cases rule: labels_from_stepE)
    case root
    then show ?thesis by (auto intro: name_at.root)
  next
    case (label c ls')
    then have "b = c" by simp
    with Suc.IH[OF label(6)[folded \<open>b = c\<close>]] have
      "name_at p (Suc (at + unat (p ! at))) ls'" "b' < b" "\<forall>l \<in> set ls'. 1 \<le> length l \<and> length l \<le> 63"
      "ls' \<noteq> [] \<longrightarrow> len + (1 + unat (p ! at)) + wire_len ls' < MAX_NAME_LEN" by blast+
    moreover have "ls' = [] \<Longrightarrow> wire_len ls' = 0" by simp
    ultimately show ?thesis
      using label label_len_bounds[of "p ! at"] name_at.label[of at p ls'] by fastforce
  next
    case (pointer c)
    with Suc.IH show ?thesis by (fastforce intro: name_at.pointer)
  qed
qed simp

lemma wire_len_ge: "\<forall>l \<in> set ls. 1 \<le> length l \<Longrightarrow> 2 * length ls \<le> wire_len ls"
  by (induction ls) fastforce+

lemma labels_bounds:
  assumes "labels p at b = Some (ls, b')"
  shows "name_at p at ls" "b' < b" "wire_len ls < MAX_NAME_LEN" "length ls \<le> MAX_POINTER_HOPS"
    "\<forall>l \<in> set ls. 1 \<le> length l \<and> length l \<le> 63"
proof -
  have *: "name_at p at ls \<and> b' < b \<and> (ls \<noteq> [] \<longrightarrow> wire_len ls < MAX_NAME_LEN) \<and> (\<forall>l \<in> set ls. 1 \<le> length l \<and> length l \<le> 63)"
    using labels_from_name_at assms by (fastforce simp: labels_def)
  then show "wire_len ls < MAX_NAME_LEN" by (cases ls) (auto simp: MAX_NAME_LEN_def)
  moreover have "2 * length ls \<le> wire_len ls" using * wire_len_ge by blast
  ultimately show "length ls \<le> MAX_POINTER_HOPS" by (simp add: MAX_NAME_LEN_def MAX_POINTER_HOPS_def)
qed (use labels_from_name_at assms in \<open>fastforce simp: labels_def\<close>)+

text \<open>A packed name is read back within two steps per label and two more, whatever else the message
  holds: each pointer leads to a label, so the hop limit is met whenever the name's length is.\<close>

lemma labels_from_packed:
  assumes "packed q S at ls" and "h + length ls \<le> MAX_POINTER_HOPS + (if 0xc0 \<le> q ! at then 0 else 1)"
    and "len + wire_len ls < MAX_NAME_LEN" and "2 * length ls + (if 0xc0 \<le> q ! at then 2 else 1) \<le> b"
  shows "\<exists>b'. labels_from q at h len b = Some (ls, b')"
  using assms
proof (induction arbitrary: h len b rule: packed.induct)
  case (root at)
  then obtain c where "b = Suc c" by (cases b) auto
  with root show ?case by (simp add: nth_opt_def)
next
  case (label at ls)
  let ?n = "unat (q ! at)"
  from label.hyps label.prems obtain c where c: "b = Suc c" by (cases b) auto
  have "\<not> 0xc0 \<le> q ! at" using label.hyps label_len_not_pointer by blast
  then have "\<exists>b'. labels_from q (Suc (at + ?n)) h (len + (1 + ?n)) c = Some (ls, b')"
    using label.prems label.hyps c by (intro label.IH) auto
  then show ?case using label.hyps label.prems c by (auto simp: nth_opt_def get_slice_def Let_def)
next
  case (pointer at ls)
  let ?t = "pointer_target (q ! at) (q ! Suc at)"
  from pointer.hyps pointer.prems obtain c where c: "b = Suc c" by (cases b) auto
  have t: "\<not> 0xc0 \<le> q ! ?t" using pointer.hyps label_len_not_pointer by blast
  have "\<exists>b'. labels_from q ?t (Suc h) len c = Some (ls, b')"
    using pointer.prems pointer.hyps c t by (intro pointer.IH) auto
  moreover have "ls \<noteq> []" using pointer.hyps(4,5) packed_label_nonempty by blast
  then have "Suc h \<le> MAX_POINTER_HOPS" using pointer.prems(1) pointer.hyps(3) by (cases ls) auto
  ultimately show ?case
    using pointer.hyps c pointer_not_label_len[of "q ! at"] by (auto simp: nth_opt_def Let_def)
qed

section \<open>Writing\<close>

text \<open>The trimmer's state for a message \<open>p\<close>: what it has placed is a packed name in the octets \<open>S\<close> of the
  output, with the labels the original offset has in \<open>p\<close>.\<close>

definition placed_ok :: "bytes \<Rightarrow> nat set \<Rightarrow> bytes \<Rightarrow> nat \<Rightarrow> u16 \<Rightarrow> bool" where
  "placed_ok p S out a w \<longleftrightarrow>
     is_label_len (out ! unat w) \<and> (\<exists>ls. name_at p a ls \<and> packed out S (unat w) ls)"

definition trimmer_inv :: "bytes \<Rightarrow> nat set \<Rightarrow> nat \<Rightarrow> trimmer \<Rightarrow> bool" where
  "trimmer_inv p S start t \<longleftrightarrow>
     length (tr_placed t) = length p \<and> start \<le> length (tr_out t) \<and> S \<subseteq> {..<start} \<and>
     (\<forall>a < length p. let w = tr_placed t ! a in
        w \<noteq> UNPLACED \<longrightarrow> unat w \<le> MAX_POINTER_TARGET \<and> unat w < length (tr_out t) \<and>
          (unat w < start \<longrightarrow> placed_ok p S (tr_out t) a w))"

text \<open>A name under way: every label placed since \<open>start\<close> belongs to a longer name than what is left.\<close>

definition pending_ok :: "bytes \<Rightarrow> nat \<Rightarrow> trimmer \<Rightarrow> nat \<Rightarrow> bool" where
  "pending_ok p start t n \<longleftrightarrow>
     (\<forall>a < length p. let w = tr_placed t ! a in
        w \<noteq> UNPLACED \<and> start \<le> unat w \<longrightarrow> (\<exists>ls. name_at p a ls \<and> n < length ls))"

lemma skip_name_transfer:
  "skip_name p at = Some e \<Longrightarrow> (\<And>i. at \<le> i \<Longrightarrow> i < e \<Longrightarrow> i < length q \<and> q ! i = p ! i) \<Longrightarrow>
     at < e \<and> e \<le> length p \<and> skip_name q at = Some e"
proof (induction p at arbitrary: e rule: skip_name.induct)
  case (1 p at)
  from "1.prems"(1) have at: "at < length p" by (subst (asm) skip_name.simps) (auto simp: nth_opt_def split: if_splits)
  show ?case
  proof (cases "is_label_len (p ! at)")
    case True
    then have s: "skip_name p (at + (1 + unat (p ! at))) = Some e"
      using "1.prems"(1) at by (subst (asm) skip_name.simps) (auto simp: nth_opt_def)
    have "at + (1 + unat (p ! at)) < e \<and> e \<le> length p \<and> skip_name q (at + (1 + unat (p ! at))) = Some e"
      using at True s "1.prems"(2) by (intro "1.IH") (auto simp: nth_opt_def)
    moreover from this have "at < length q \<and> q ! at = p ! at" by (intro "1.prems"(2)) auto
    ultimately show ?thesis using True by (subst skip_name.simps) (auto simp: nth_opt_def)
  next
    case False
    with "1.prems"(1) at have e: "p ! at = 0 \<and> e = Suc at \<or> p ! at \<noteq> 0 \<and> \<not> p ! at \<le> 0x3f \<and> 0xc0 \<le> p ! at \<and> e = Suc (Suc at) \<and> Suc at < length p"
      by (subst (asm) skip_name.simps) (auto simp: nth_opt_def split: if_splits)
    then have "at < length q \<and> q ! at = p ! at" "e = Suc (Suc at) \<Longrightarrow> Suc at < length q"
      using "1.prems"(2)[of at] "1.prems"(2)[of "Suc at"] by auto
    with e at show ?thesis by (subst skip_name.simps) (auto simp: nth_opt_def)
  qed
qed

lemma pointer_bits:
  fixes w :: u16
  assumes "unat w \<le> MAX_POINTER_TARGET"
  shows "u16_of (ucast (drop_bit 8 (0xc000 OR w)) AND 0x3f) (ucast (0xc000 OR w)) = w"
proof -
  have "take_bit 14 w = w"
  proof -
    have "unat (take_bit 14 w) = take_bit 14 (unat w)" by (simp only: unsigned_take_bit_eq)
    also have "\<dots> = unat w" using assms by (simp add: take_bit_nat_eq_self_iff MAX_POINTER_TARGET_def)
    finally show ?thesis by (simp only: unat_word_eq_iff)
  qed
  then have hi: "n < 14" if "bit w n" for n
    using that by (metis bit_take_bit_iff)
  have m: "(0x3f :: u8) = mask 6" "(0xc000 :: u16) = push_bit 14 (mask 2)" by (simp_all add: mask_eq_exp_minus_1 push_bit_eq_mult)
  show ?thesis unfolding m u16_of_def
    by (rule bit_word_eqI) (auto simp: bit_simps dest: hi)
qed

lemma pointer_hi: "(0xc0::u8) \<le> ucast (drop_bit 8 ((0xc000::u16) OR w))"
proof -
  have m: "(0xc0 :: u8) = push_bit 6 (mask 2)" "(0xc000 :: u16) = push_bit 14 (mask 2)" by (simp_all add: mask_eq_exp_minus_1 push_bit_eq_mult)
  have "ucast (drop_bit 8 ((0xc000::u16) OR w)) = (0xc0::u8) OR ucast (drop_bit 8 w)"
    unfolding m by (rule bit_word_eqI) (auto simp: bit_simps)
  then show ?thesis using le_word_or2[of "0xc0::u8" "ucast (drop_bit 8 w)"] by (simp only:)
qed

lemma pointer_target_of:
  assumes "unat w \<le> MAX_POINTER_TARGET"
  shows "pointer_target (u16_be (0xc000 OR w) ! 0) (u16_be (0xc000 OR w) ! Suc 0) = unat w"
    and "0xc0 \<le> u16_be (0xc000 OR w) ! 0"
proof -
  have "pointer_target (u16_be (0xc000 OR w) ! 0) (u16_be (0xc000 OR w) ! Suc 0) =
      unat (u16_of (ucast (drop_bit 8 (0xc000 OR w)) AND 0x3f) (ucast (0xc000 OR w)))"
    by (simp only: pointer_target_def u16_be_def unat_u16_of nth_Cons_0 nth_Cons_Suc mult.commute)
  then show "pointer_target (u16_be (0xc000 OR w) ! 0) (u16_be (0xc000 OR w) ! Suc 0) = unat w"
    by (simp only: pointer_bits[OF assms])
  show "0xc0 \<le> u16_be (0xc000 OR w) ! 0" using pointer_hi by (simp only: u16_be_def nth_Cons_0)
qed

text \<open>The output after one label: its offset noted while a pointer can still name it.\<close>

definition put_label :: "bytes \<Rightarrow> nat \<Rightarrow> trimmer \<Rightarrow> trimmer" where
  "put_label p at t =
     t\<lparr>tr_placed := (if length (tr_out t) \<le> MAX_POINTER_TARGET then (tr_placed t)[at := of_nat (length (tr_out t))]
                    else tr_placed t),
       tr_out := tr_out t @ sub_slice at (Suc (at + unat (p ! at))) p\<rparr>"

abbreviation placed_at :: "trimmer \<Rightarrow> nat \<Rightarrow> u16" where
  "placed_at t at \<equiv> (case nth_opt (tr_placed t) at of Some w \<Rightarrow> w | None \<Rightarrow> UNPLACED)"

lemma write_name_loop_simps:
  "placed_at t at \<noteq> UNPLACED \<Longrightarrow> write_name_loop p start t at h (Suc b) =
     (if start \<le> unat (placed_at t at) then None
      else Some (t\<lparr>tr_out := tr_out t @ u16_be (0xc000 OR placed_at t at)\<rparr>, b))"
  "placed_at t at = UNPLACED \<Longrightarrow> length p \<le> at \<Longrightarrow> write_name_loop p start t at h (Suc b) = None"
  "placed_at t at = UNPLACED \<Longrightarrow> at < length p \<Longrightarrow> p ! at = 0 \<Longrightarrow> write_name_loop p start t at h (Suc b) =
     Some (t\<lparr>tr_out := tr_out t @ [0]\<rparr>, b)"
  "placed_at t at = UNPLACED \<Longrightarrow> at < length p \<Longrightarrow> is_label_len (p ! at) \<Longrightarrow> write_name_loop p start t at h (Suc b) =
     (if Suc (at + unat (p ! at)) \<le> length p
      then write_name_loop p start (put_label p at t) (Suc (at + unat (p ! at))) h b else None)"
  "placed_at t at = UNPLACED \<Longrightarrow> at < length p \<Longrightarrow> 0xc0 \<le> p ! at \<Longrightarrow> write_name_loop p start t at h (Suc b) =
     (if Suc at < length p \<and> Suc h \<le> MAX_POINTER_HOPS
      then write_name_loop p start t (pointer_target (p ! at) (p ! Suc at)) (Suc h) b else None)"
  "placed_at t at = UNPLACED \<Longrightarrow> at < length p \<Longrightarrow> p ! at \<noteq> 0 \<Longrightarrow> \<not> p ! at \<le> 0x3f \<Longrightarrow> \<not> 0xc0 \<le> p ! at \<Longrightarrow>
     write_name_loop p start t at h (Suc b) = None"
  by (simp_all add: Let_def nth_opt_def get_slice_def put_label_def pointer_not_label_len)

lemma write_name_loop_stepE:
  assumes "write_name_loop p start t at h b = Some (t', b')"
  obtains (reuse) c w where "b = Suc c" "at < length (tr_placed t)" "w = tr_placed t ! at" "w \<noteq> UNPLACED" "unat w < start"
      "t' = t\<lparr>tr_out := tr_out t @ u16_be (0xc000 OR w)\<rparr>" "b' = c"
  | (root) c where "b = Suc c" "placed_at t at = UNPLACED" "at < length p" "p ! at = 0" "t' = t\<lparr>tr_out := tr_out t @ [0]\<rparr>" "b' = c"
  | (label) c where "b = Suc c" "placed_at t at = UNPLACED" "is_label_len (p ! at)" "Suc (at + unat (p ! at)) \<le> length p"
      "write_name_loop p start (put_label p at t) (Suc (at + unat (p ! at))) h c = Some (t', b')"
  | (pointer) c where "b = Suc c" "placed_at t at = UNPLACED" "0xc0 \<le> p ! at" "Suc at < length p"
      "write_name_loop p start t (pointer_target (p ! at) (p ! Suc at)) (Suc h) c = Some (t', b')"
proof (cases b)
  case 0
  with assms show ?thesis by simp
next
  case (Suc c)
  note simps = write_name_loop_simps
  show ?thesis
  proof (cases "placed_at t at = UNPLACED")
    case False
    with assms Suc show ?thesis
      by (intro reuse[of c "tr_placed t ! at"]) (auto simp: simps(1) nth_opt_def simp del: write_name_loop.simps split: if_splits)
  next
    case True
    consider "length p \<le> at" | "at < length p" "p ! at = 0" | "at < length p" "is_label_len (p ! at)"
      | "at < length p" "0xc0 \<le> p ! at" | "at < length p" "p ! at \<noteq> 0" "\<not> p ! at \<le> 0x3f" "\<not> 0xc0 \<le> p ! at"
      by (meson not_less)
    then show ?thesis
    proof cases
      case 2
      with assms Suc True show ?thesis by (intro root) (simp_all add: simps(3) del: write_name_loop.simps)
    next
      case 3
      with assms Suc True show ?thesis
        by (intro label) (simp_all add: simps(4) del: write_name_loop.simps split: if_splits)
    next
      case 4
      with assms Suc True show ?thesis
        by (intro pointer) (simp_all add: simps(5) del: write_name_loop.simps split: if_splits)
    qed (use assms Suc True in \<open>simp_all add: simps(2,6) del: write_name_loop.simps\<close>)
  qed
qed

lemma placed_ok_transfer:
  assumes "placed_ok p S out a w" and "\<And>i. i \<in> S \<Longrightarrow> i < length out \<Longrightarrow> i < length r \<and> r ! i = out ! i" and "S \<subseteq> T"
  shows "placed_ok p T r a w"
proof -
  from assms(1) obtain ls where ls: "name_at p a ls" "packed out S (unat w) ls" "is_label_len (out ! unat w)"
    by (auto simp: placed_ok_def)
  then have "packed r T (unat w) ls" using assms(2,3) by (blast intro: packed_transfer)
  moreover have "r ! unat w = out ! unat w" using packed_start_in[OF ls(2)] assms(2) by blast
  ultimately show ?thesis using ls by (auto simp: placed_ok_def)
qed

lemma unat_offset: "n \<le> MAX_POINTER_TARGET \<Longrightarrow> unat (of_nat n :: u16) = n"
  by (simp add: MAX_POINTER_TARGET_def unat_of_nat)

lemma unplaced_offset: "n \<le> MAX_POINTER_TARGET \<Longrightarrow> (of_nat n :: u16) \<noteq> UNPLACED"
  using unat_offset[of n] by (auto simp: MAX_POINTER_TARGET_def UNPLACED_def)

lemma put_label_out:
  assumes "Suc (at + unat (p ! at)) \<le> length p"
  shows "tr_out (put_label p at t) = tr_out t @ p ! at # sub_slice (Suc at) (Suc (at + unat (p ! at))) p"
proof -
  have "drop at p = p ! at # drop (Suc at) p" using assms by (simp add: Cons_nth_drop_Suc)
  then show ?thesis by (simp add: put_label_def sub_slice_def)
qed

lemma put_label_placed:
  assumes "at < length p" "length (tr_placed t) = length p" "a < length p"
  shows "tr_placed (put_label p at t) ! a =
    (if a = at \<and> length (tr_out t) \<le> MAX_POINTER_TARGET then of_nat (length (tr_out t)) else tr_placed t ! a)"
  using assms by (auto simp: put_label_def)

lemma trimmer_inv_put_label:
  assumes inv: "trimmer_inv p S start t" and at: "Suc (at + unat (p ! at)) \<le> length p"
  shows "trimmer_inv p S start (put_label p at t)"
proof -
  let ?t = "put_label p at t"
  have len: "length (tr_placed t) = length p" "start \<le> length (tr_out t)" "S \<subseteq> {..<start}"
    using inv by (simp_all add: trimmer_inv_def)
  have "let w = tr_placed ?t ! a in w \<noteq> UNPLACED \<longrightarrow> unat w \<le> MAX_POINTER_TARGET \<and> unat w < length (tr_out ?t) \<and>
      (unat w < start \<longrightarrow> placed_ok p S (tr_out ?t) a w)" if a: "a < length p" for a
  proof (cases "a = at \<and> length (tr_out t) \<le> MAX_POINTER_TARGET")
    case True
    then show ?thesis using len at a by (simp add: put_label_placed unat_offset put_label_out)
  next
    case False
    then have same: "tr_placed ?t ! a = tr_placed t ! a" using len at a by (auto simp: put_label_placed)
    have ext: "tr_out ?t = tr_out t @ drop (length (tr_out t)) (tr_out ?t)" using at by (simp add: put_label_out)
    have "tr_placed t ! a \<noteq> UNPLACED \<longrightarrow> unat (tr_placed t ! a) \<le> MAX_POINTER_TARGET \<and> unat (tr_placed t ! a) < length (tr_out t) \<and>
        (unat (tr_placed t ! a) < start \<longrightarrow> placed_ok p S (tr_out t) a (tr_placed t ! a))"
      using inv a by (simp add: trimmer_inv_def Let_def)
    moreover have "placed_ok p S (tr_out t) a w \<Longrightarrow> placed_ok p S (tr_out ?t) a w" for w
      using at by (erule_tac placed_ok_transfer) (auto simp: put_label_out nth_append)
    ultimately show ?thesis unfolding same Let_def using at by (auto simp: put_label_out)
  qed
  then show ?thesis using len at by (simp add: trimmer_inv_def put_label_out) (simp add: put_label_def)
qed

text \<open>What writing a name from the original offset \<open>at\<close> does to the trimmer.\<close>

definition name_written :: "bytes \<Rightarrow> nat set \<Rightarrow> nat \<Rightarrow> trimmer \<Rightarrow> trimmer \<Rightarrow> bytes list \<Rightarrow> bool" where
  "name_written p S at t t' ls \<longleftrightarrow>
     (let n = length (tr_out t); T = S \<union> {n..<length (tr_out t')} in
        name_at p at ls \<and> n < length (tr_out t') \<and> take n (tr_out t') = tr_out t \<and>
        packed (tr_out t') T n ls \<and> skip_name (tr_out t') n = Some (length (tr_out t')) \<and>
        length (tr_placed t') = length p \<and>
        (\<forall>a < length p. tr_placed t' ! a = tr_placed t ! a \<or>
           unat (tr_placed t' ! a) \<le> MAX_POINTER_TARGET \<and> n \<le> unat (tr_placed t' ! a) \<and>
           unat (tr_placed t' ! a) < length (tr_out t') \<and> placed_ok p T (tr_out t') a (tr_placed t' ! a)))"

lemma write_name_reuse:
  assumes inv: "trimmer_inv p S start t" and at: "at < length p" and w: "tr_placed t ! at \<noteq> UNPLACED"
    "unat (tr_placed t ! at) < start"
  shows "\<exists>ls. name_written p S at t (t\<lparr>tr_out := tr_out t @ u16_be (0xc000 OR tr_placed t ! at)\<rparr>) ls"
proof -
  let ?w = "tr_placed t ! at" and ?n = "length (tr_out t)"
  let ?out = "tr_out t @ u16_be (0xc000 OR ?w)"
  have S: "S \<subseteq> {..<?n}" and len: "length (tr_placed t) = length p" using inv by (auto simp: trimmer_inv_def)
  have ok: "placed_ok p S (tr_out t) at ?w" and small: "unat ?w \<le> MAX_POINTER_TARGET"
    using inv at w by (auto simp: trimmer_inv_def Let_def)
  have "placed_ok p (S \<union> {?n..<length ?out}) ?out at ?w"
    using ok by (rule placed_ok_transfer) (auto simp: nth_append)
  then obtain ls where ls: "name_at p at ls" "packed ?out (S \<union> {?n..<length ?out}) (unat ?w) ls" "is_label_len (?out ! unat ?w)"
    by (auto simp: placed_ok_def)
  have hi: "?out ! ?n = u16_be (0xc000 OR ?w) ! 0" and lo: "?out ! Suc ?n = u16_be (0xc000 OR ?w) ! Suc 0"
    by (simp_all add: nth_append del: u16_be_def)
  have t: "pointer_target (?out ! ?n) (?out ! Suc ?n) = unat ?w" "0xc0 \<le> ?out ! ?n"
    unfolding hi lo using pointer_target_of[OF small] by simp_all
  have "packed ?out (S \<union> {?n..<length ?out}) ?n ls"
    by (rule packed.pointer) (use ls t in auto)
  moreover have "skip_name ?out ?n = Some (length ?out)"
    using t(2) pointer_not_label_len[OF t(2)] by (subst skip_name.simps) (auto simp: nth_opt_def)
  ultimately show ?thesis using ls(1) len by (auto simp: name_written_def Let_def)
qed

lemma write_name_root:
  assumes "length (tr_placed t) = length p" "at < length p" "p ! at = 0"
  shows "name_written p S at t (t\<lparr>tr_out := tr_out t @ [0]\<rparr>) []"
  using assms
  by (subst name_written_def)
    (auto simp: Let_def nth_opt_def skip_name.simps[of "tr_out t @ [0]"] intro: name_at.root packed.root)

lemma write_name_label:
  assumes at: "Suc (at + unat (p ! at)) \<le> length p" "is_label_len (p ! at)" and len: "length (tr_placed t) = length p"
    and w: "name_written p S (Suc (at + unat (p ! at))) (put_label p at t) t' ls"
  shows "name_written p S at t t' (sub_slice (Suc at) (Suc (at + unat (p ! at))) p # ls)"
proof -
  let ?n = "length (tr_out t)" and ?l = "unat (p ! at)" and ?out = "tr_out t'"
  let ?T = "S \<union> {?n..<length ?out}" and ?lab = "sub_slice (Suc at) (Suc (at + unat (p ! at))) p"
  have n1: "length (tr_out (put_label p at t)) = Suc (?n + ?l)" using at by (simp add: put_label_out)
  note w' = w[unfolded name_written_def Let_def n1]
  have grows: "Suc (?n + ?l) < length ?out" and pre: "take (Suc (?n + ?l)) ?out = tr_out t @ p ! at # ?lab"
    using w' by (simp_all add: put_label_out at)
  then obtain rest where out: "?out = tr_out t @ p ! at # ?lab @ rest"
    by (metis append_take_drop_id append.assoc append_Cons)
  have here: "?out ! ?n = p ! at" and lab: "sub_slice (Suc ?n) (Suc (?n + ?l)) ?out = ?lab"
    using at by (simp_all add: out nth_append sub_slice_def)
  have sub: "S \<union> {Suc (?n + ?l)..<length ?out} \<subseteq> ?T" by auto
  have "packed ?out ?T (Suc (?n + ?l)) ls" using w' sub by (auto intro: packed_transfer)
  then have packed: "packed ?out ?T ?n (?lab # ls)"
    using packed.label[of ?n ?out ?T ls] grows at(2) here lab by (simp add: subset_iff)
  moreover have "skip_name ?out ?n = Some (length ?out)"
    using w' at(2) here grows by (subst skip_name.simps) (simp add: nth_opt_def)
  moreover have "name_at p at (?lab # ls)" using w' at by (auto intro: name_at.label)
  moreover have "tr_placed t' ! a = tr_placed t ! a \<or> unat (tr_placed t' ! a) \<le> MAX_POINTER_TARGET \<and>
      ?n \<le> unat (tr_placed t' ! a) \<and> unat (tr_placed t' ! a) < length ?out \<and> placed_ok p ?T ?out a (tr_placed t' ! a)"
    if a: "a < length p" for a
  proof (cases "tr_placed t' ! a = tr_placed (put_label p at t) ! a")
    case True
    then show ?thesis using at packed grows a len here \<open>name_at p at (?lab # ls)\<close>
      by (auto simp: put_label_placed unat_offset placed_ok_def)
  next
    case False
    then have "placed_ok p (S \<union> {Suc (?n + ?l)..<length ?out}) ?out a (tr_placed t' ! a)" using w' a by blast
    from placed_ok_transfer[OF this _ sub] have "placed_ok p ?T ?out a (tr_placed t' ! a)" by blast
    then show ?thesis using w' a False by auto
  qed
  ultimately show ?thesis using w' grows by (auto simp: name_written_def Let_def out)
qed

lemma write_name_pointer:
  "name_written p S (pointer_target (p ! at) (p ! Suc at)) t t' ls \<Longrightarrow> Suc at < length p \<Longrightarrow> 0xc0 \<le> p ! at \<Longrightarrow>
     name_written p S at t t' ls"
  by (auto simp: name_written_def Let_def intro: name_at.pointer)

lemma write_name_loop_written:
  assumes "trimmer_inv p S start t" "write_name_loop p start t at h b = Some (t', b')"
  shows "\<exists>ls. name_written p S at t t' ls"
  using assms
proof (induction b arbitrary: t at h)
  case (Suc b)
  have len: "length (tr_placed t) = length p" using Suc.prems(1) by (simp add: trimmer_inv_def)
  from Suc.prems(2) show ?case
  proof (cases rule: write_name_loop_stepE)
    case (reuse c w)
    with write_name_reuse[OF Suc.prems(1)] len show ?thesis by auto
  next
    case root
    with write_name_root len show ?thesis by blast
  next
    case (label c)
    then show ?thesis
      using Suc.IH[OF trimmer_inv_put_label[OF Suc.prems(1) label(4)]] write_name_label[OF label(4,3) len] by blast
  next
    case (pointer c)
    then show ?thesis using Suc.IH[OF Suc.prems(1)] write_name_pointer by blast
  qed
qed simp

text \<open>Once the name is complete the invariant holds again, for the octets it took as well.\<close>

lemma name_written_inv:
  assumes inv: "trimmer_inv p S (length (tr_out t)) t" and w: "name_written p S at t t' ls"
  shows "trimmer_inv p (S \<union> {length (tr_out t)..<length (tr_out t')}) (length (tr_out t')) t'"
proof -
  let ?n = "length (tr_out t)" and ?T = "S \<union> {length (tr_out t)..<length (tr_out t')}"
  note w' = w[unfolded name_written_def Let_def]
  have keep: "i < length (tr_out t') \<and> tr_out t' ! i = tr_out t ! i" if "i < ?n" for i
    using w' that by (metis nth_take less_trans)
  have "tr_placed t' ! a \<noteq> UNPLACED \<longrightarrow> unat (tr_placed t' ! a) \<le> MAX_POINTER_TARGET \<and>
      unat (tr_placed t' ! a) < length (tr_out t') \<and> placed_ok p ?T (tr_out t') a (tr_placed t' ! a)" if a: "a < length p" for a
  proof (cases "tr_placed t' ! a = tr_placed t ! a")
    case True
    have "tr_placed t ! a \<noteq> UNPLACED \<longrightarrow> unat (tr_placed t ! a) \<le> MAX_POINTER_TARGET \<and> unat (tr_placed t ! a) < ?n \<and>
        placed_ok p S (tr_out t) a (tr_placed t ! a)" using inv a by (auto simp: trimmer_inv_def Let_def)
    then show ?thesis unfolding True using keep by (auto intro: placed_ok_transfer)
  next
    case False
    then show ?thesis using w' a by blast
  qed
  then show ?thesis using inv w' by (auto simp: trimmer_inv_def Let_def)
qed

text \<open>Whatever \<open>labels\<close> reads, \<open>write_name\<close> writes, within the same steps.\<close>

lemma pending_put_label:
  assumes p: "pending_ok p start t (length ls)" and at: "name_at p at ls" "m < length ls" "at < length p"
    and len: "length (tr_placed t) = length p"
  shows "pending_ok p start (put_label p at t) m"
proof -
  have "\<exists>ls. name_at p a ls \<and> m < length ls"
    if a: "a < length p" "tr_placed (put_label p at t) ! a \<noteq> UNPLACED" "start \<le> unat (tr_placed (put_label p at t) ! a)" for a
  proof (cases "a = at")
    case False
    then have "tr_placed t ! a \<noteq> UNPLACED" "start \<le> unat (tr_placed t ! a)"
      using a at len by (auto simp: put_label_placed split: if_splits)
    with p a(1) obtain ls' where "name_at p a ls'" "length ls < length ls'" by (auto simp: pending_ok_def Let_def)
    with at show ?thesis by (auto intro: less_trans)
  qed (use at in auto)
  then show ?thesis by (simp add: pending_ok_def Let_def)
qed

lemma write_name_loop_total:
  assumes "trimmer_inv p S start t" "pending_ok p start t (length ls)" "labels_from p at h len b = Some (ls, b')"
  shows "\<exists>t' c. write_name_loop p start t at h b = Some (t', c) \<and> b' \<le> c"
  using assms
proof (induction b arbitrary: t at h len ls)
  case (Suc b)
  have len: "length (tr_placed t) = length p" using Suc.prems(1) by (simp add: trimmer_inv_def)
  have here: "name_at p at ls" "b' \<le> b" using labels_from_name_at[OF Suc.prems(3)] by auto
  show ?case
  proof (cases "placed_at t at = UNPLACED")
    case False
    then have "at < length p" "tr_placed t ! at \<noteq> UNPLACED" using len by (auto simp: nth_opt_def split: if_splits)
    moreover have "\<not> length ls < length ls'" if "name_at p at ls'" for ls' using name_at_unique[OF here(1) that] by simp
    ultimately have "unat (tr_placed t ! at) < start"
      using Suc.prems(2) unfolding pending_ok_def Let_def by (meson not_less)
    then show ?thesis using False here(2) \<open>at < length p\<close> len
      by (simp add: write_name_loop_simps(1)[OF False] nth_opt_def del: write_name_loop.simps)
  next
    case True
    from Suc.prems(3) show ?thesis
    proof (cases rule: labels_from_stepE)
      case root
      with True here show ?thesis by (simp add: write_name_loop_simps(3) del: write_name_loop.simps)
    next
      case (label c ls')
      then have "pending_ok p start (put_label p at t) (length ls')"
        using Suc.prems(2) here(1) len by (intro pending_put_label) auto
      with label True show ?thesis
        using Suc.IH[OF trimmer_inv_put_label[OF Suc.prems(1)]] by (simp add: write_name_loop_simps(4) del: write_name_loop.simps)
    next
      case (pointer c)
      with True show ?thesis using Suc.IH[OF Suc.prems(1,2)] by (simp add: write_name_loop_simps(5) del: write_name_loop.simps)
    qed
  qed
qed simp

lemma write_name_total:
  assumes inv: "trimmer_inv p S (length (tr_out t)) t" and "labels p at b = Some (ls, b')"
  shows "\<exists>t' c. write_name t p at b = Some (t', c) \<and> b' \<le> c \<and> name_written p S at t t' ls"
proof -
  have "pending_ok p (length (tr_out t)) t (length ls)"
    using inv by (fastforce simp: pending_ok_def trimmer_inv_def Let_def)
  from write_name_loop_total[OF inv this assms(2)[unfolded labels_def]] obtain t' c where
    w: "write_name_loop p (length (tr_out t)) t at 0 b = Some (t', c)" "b' \<le> c" by blast
  from write_name_loop_written[OF inv w(1)] obtain ls' where "name_written p S at t t' ls'" by blast
  moreover from this have "ls' = ls"
    using labels_bounds(1)[OF assms(2)] name_at_unique by (auto simp: name_written_def Let_def)
  ultimately show ?thesis using w by (auto simp: write_name_def)
qed

text \<open>Trimming an mDNS message never changes a name. Take a name the label walk of \<^verbatim>\<open>Labels\<close> reads from a
  message within a budget, and a \<^verbatim>\<open>Trimmer\<close> whose placed offsets are names it has written: \<^verbatim>\<open>write_name\<close>
  writes that name within the same budget, appending to the output only; \<^verbatim>\<open>skip_name\<close> finds its inline
  part to be exactly what was appended; and \<^verbatim>\<open>Labels\<close> reads the same labels from the output, whatever is
  appended later, compression pointers into earlier names included. The trimmer is again one whose placed
  offsets are names it has written.\<close>

theorem write_name_preserves_labels:
  assumes "trimmer_inv p S (length (tr_out t)) t" and "labels p at b = Some (ls, b')"
  shows "\<exists>t' c enc. write_name t p at b = Some (t', c) \<and> b' \<le> c \<and> tr_out t' = tr_out t @ enc \<and>
    skip_name (tr_out t') (length (tr_out t)) = Some (length (tr_out t')) \<and>
    trimmer_inv p (S \<union> {length (tr_out t)..<length (tr_out t')}) (length (tr_out t')) t' \<and>
    (\<forall>later k. 2 * length ls + 2 \<le> k \<longrightarrow> (\<exists>k'. labels (tr_out t' @ later) (length (tr_out t)) k = Some (ls, k')))"
proof -
  let ?n = "length (tr_out t)"
  from write_name_total[OF assms] obtain t' c where w: "write_name t p at b = Some (t', c)" "b' \<le> c"
    "name_written p S at t t' ls" by blast
  let ?T = "S \<union> {?n..<length (tr_out t')}"
  note w' = w(3)[unfolded name_written_def Let_def]
  have "\<exists>k'. labels (tr_out t' @ later) ?n k = Some (ls, k')" if "2 * length ls + 2 \<le> k" for later k
  proof -
    have "packed (tr_out t' @ later) ?T ?n ls"
      using w' by (auto intro: packed_transfer simp: nth_append)
    then show ?thesis unfolding labels_def
      by (rule labels_from_packed) (use labels_bounds[OF assms(2)] that in auto)
  qed
  moreover have "tr_out t' = tr_out t @ drop ?n (tr_out t')" using w' by (metis append_take_drop_id)
  ultimately show ?thesis using w w' name_written_inv[OF assms(1) w(3)] by blast
qed

theorem write_name_preserves_labels_witness:
  "\<exists>t c. write_name \<lparr>tr_out = [9, 9], tr_placed = replicate 7 UNPLACED\<rparr> [1, 97, 0, 1, 98, 0xc0, 0] 3 10 = Some (t, c) \<and>
     skip_name (tr_out t) 2 = Some (length (tr_out t)) \<and> (\<exists>k. labels (tr_out t) 2 6 = Some ([[98], [97]], k))"
proof -
  define p :: bytes where "p = [1, 97, 0, 1, 98, 0xc0, 0]"
  define t0 where "t0 = \<lparr>tr_out = [9, 9 :: u8], tr_placed = replicate 7 UNPLACED\<rparr>"
  have inv: "trimmer_inv p {} (length (tr_out t0)) t0" by (simp add: trimmer_inv_def p_def t0_def Let_def)
  have l: "labels p 3 10 = Some ([[98], [97]], 6)" unfolding p_def by code_simp
  from write_name_preserves_labels[OF inv l] obtain t c where w: "write_name t0 p 3 10 = Some (t, c)"
    "skip_name (tr_out t) (length (tr_out t0)) = Some (length (tr_out t))"
    "\<forall>later k. 2 * length [[98 :: u8], [97]] + 2 \<le> k \<longrightarrow> (\<exists>k'. labels (tr_out t @ later) (length (tr_out t0)) k = Some ([[98], [97]], k'))"
    by blast
  from w(3)[rule_format, of 6 "[]"] w(1,2) show ?thesis by (auto simp: t0_def p_def numeral_2_eq_2)
qed

end
