(* ===== verification/Dns_Trim.thy ===== *)
theory Dns_Trim
  imports Dns_Names
begin

text \<open>
  The trimmer of \<^verbatim>\<open>src/src/net/mdns/message.rs\<close> as a whole: the entries a walk yields lie in the message
  one after another, and what \<open>trim\<close> writes is a message whose entries are, in order, the entries kept,
  each with its owner name, its type, class and TTL, and its rdata with the names in it.
\<close>

section \<open>Entries lie in the message\<close>

definition entry_wf :: "bytes \<Rightarrow> dns_entry \<Rightarrow> bool" where
  "entry_wf p e \<longleftrightarrow>
     skip_name p (en_name e) = Some (en_fixed e) \<and> en_name e < en_fixed e \<and>
     en_rtype e = u16_of (p ! en_fixed e) (p ! (en_fixed e + 1)) \<and>
     (if en_section e = Question then en_rdata e = en_fixed e + 4 \<and> en_end e = en_rdata e
      else en_rdata e = en_fixed e + 10 \<and>
           en_end e = en_rdata e + unat (u16_of (p ! (en_fixed e + 8)) (p ! (en_fixed e + 9)))) \<and>
     en_rdata e \<le> en_end e \<and> en_end e \<le> length p"

lemma skip_name_forward: "skip_name p at = Some e \<Longrightarrow> at < e \<and> e \<le> length p"
proof (induction p at rule: skip_name.induct)
  case (1 p at)
  show ?case
    using "1.prems" "1.IH"[of "p ! at"]
    by (subst (asm) skip_name.simps) (auto simp: nth_opt_def split: if_splits)
qed

lemma entry_step_wf:
  assumes "entry_step p s at = Some e"
  shows "entry_wf p e" "en_name e = at" "en_section e = s"
proof -
  from assms obtain fixed where f: "skip_name p at = Some fixed" by (auto simp: entry_step_def split: option.splits)
  note * = assms[unfolded entry_step_def f option.case(2) Let_def]
  show "en_name e = at" "en_section e = s"
    using * by (auto simp: get_slice_def split: if_splits option.splits)
  show "entry_wf p e"
    using * f skip_name_forward[OF f]
    by (auto simp: get_slice_def entry_wf_def nth_sub_slice split: if_splits option.splits)
qed

lemma entry_step_complete: "entry_wf p e \<Longrightarrow> entry_step p (en_section e) (en_name e) = Some e"
  by (cases e) (auto simp: entry_wf_def entry_step_def get_slice_def nth_sub_slice Let_def split: if_splits)

text \<open>The entries of one section, back to back from \<open>at\<close> to \<open>stop\<close>.\<close>

fun chained :: "bytes \<Rightarrow> dns_section \<Rightarrow> nat \<Rightarrow> dns_entry list \<Rightarrow> nat \<Rightarrow> bool" where
  "chained p s at [] stop \<longleftrightarrow> at = stop"
| "chained p s at (e # es) stop \<longleftrightarrow> entry_wf p e \<and> en_section e = s \<and> en_name e = at \<and> chained p s (en_end e) es stop"

lemma entries_of_iff: "entries_of p s n at = Some (es, stop) \<longleftrightarrow> chained p s at es stop \<and> length es = n"
proof (induction n arbitrary: at es)
  case 0
  then show ?case by (cases es) auto
next
  case (Suc n)
  show ?case
  proof (cases es)
    case Nil
    then show ?thesis by (auto split: option.splits)
  next
    case (Cons e es')
    have "entry_step p s at = Some e \<longleftrightarrow> entry_wf p e \<and> en_section e = s \<and> en_name e = at"
      using entry_step_wf[of p s at e] entry_step_complete[of p e] by auto
    then show ?thesis using Suc.IH[of "en_end e" es'] Cons by (auto split: option.splits)
  qed
qed

lemma chained_append: "chained p s at (xs @ ys) stop \<longleftrightarrow> (\<exists>mid. chained p s at xs mid \<and> chained p s mid ys stop)"
  by (induction xs arbitrary: at) auto

section \<open>What writing an entry copies\<close>

fun names_copied :: "bytes \<Rightarrow> nat \<Rightarrow> nat set \<Rightarrow> bytes \<Rightarrow> nat \<Rightarrow> nat \<Rightarrow> nat \<Rightarrow> nat \<Rightarrow> bool" where
  "names_copied p stop S q stop' 0 at at' \<longleftrightarrow>
     at \<le> stop \<and> at' \<le> stop' \<and> stop' \<le> length q \<and> sub_slice at' stop' q = sub_slice at stop p"
| "names_copied p stop S q stop' (Suc n) at at' \<longleftrightarrow>
     (\<exists>ls x y. name_at p at ls \<and> packed q S at' ls \<and> skip_name p at = Some x \<and> skip_name q at' = Some y \<and> y \<le> stop' \<and>
        names_copied p stop S q stop' n x y)"

lemma sub_slice_cong:
  assumes "\<And>i. a \<le> i \<Longrightarrow> i < b \<Longrightarrow> r ! i = q ! i" "b \<le> length q" "b \<le> length r"
  shows "sub_slice a b r = sub_slice a b q"
  by (rule nth_equalityI) (use assms in \<open>auto simp: nth_sub_slice\<close>)

lemma sub_slice_nth_eq:
  assumes "sub_slice a (a + k) q = sub_slice b (b + k) p" "i < k" "a + k \<le> length q" "b + k \<le> length p"
  shows "q ! (a + i) = p ! (b + i)"
  using arg_cong[OF assms(1), of "\<lambda>xs. xs ! i"] assms(2-4) by (simp add: nth_sub_slice)

lemma names_copied_transfer:
  assumes "names_copied p stop S q stop' n at at'" and S: "\<And>i. i \<in> S \<Longrightarrow> i < length q \<Longrightarrow> i < length r \<and> r ! i = q ! i" "S \<subseteq> T"
    and len: "stop' \<le> length r" and same: "\<And>i. at' \<le> i \<Longrightarrow> i < stop' \<Longrightarrow> r ! i = q ! i"
  shows "names_copied p stop T r stop' n at at'"
  using assms(1) same
proof (induction n arbitrary: at at')
  case 0
  then show ?case using len sub_slice_cong[of at' stop' r q] by simp
next
  case (Suc n)
  from Suc.prems(1) obtain ls x y where h: "name_at p at ls" "packed q S at' ls" "skip_name p at = Some x"
    "skip_name q at' = Some y" "y \<le> stop'" "names_copied p stop S q stop' n x y" by auto
  have y: "at' < y" using skip_name_forward[OF h(4)] by simp
  have "skip_name r at' = Some y"
    using skip_name_transfer[OF h(4), of r] Suc.prems(2) len h(5) by auto
  moreover have "packed r T at' ls" using packed_transfer[OF h(2) S] by blast
  moreover have "names_copied p stop T r stop' n x y" using Suc.IH[OF h(6)] Suc.prems(2) y by simp
  ultimately show ?case using h by auto
qed

definition rdata_copied :: "bytes \<Rightarrow> nat set \<Rightarrow> dns_entry \<Rightarrow> bytes \<Rightarrow> nat \<Rightarrow> nat \<Rightarrow> bool" where
  "rdata_copied p S e q at' stop' \<longleftrightarrow>
     (case entry_rdata_names e of
        None \<Rightarrow> names_copied p (en_end e) S q stop' 0 (en_rdata e) at'
      | Some ns \<Rightarrow>
          sub_slice at' (at' + rn_offset ns) q = sub_slice (en_rdata e) (en_rdata e + rn_offset ns) p \<and>
          at' + rn_offset ns < stop' \<and>
          names_copied p (en_end e) S q stop' (rn_count ns) (en_rdata e + rn_offset ns) (at' + rn_offset ns))"

text \<open>The entry at \<open>e'\<close> of \<open>q\<close> is the entry \<open>e\<close> of \<open>p\<close>, its names spelled by whatever octets.\<close>

definition same_entry :: "bytes \<Rightarrow> dns_entry \<Rightarrow> bytes \<Rightarrow> dns_entry \<Rightarrow> bool" where
  "same_entry p e q e' \<longleftrightarrow>
     (\<exists>ls. name_at p (en_name e) ls \<and> name_at q (en_name e') ls) \<and> en_rtype e' = en_rtype e \<and>
     (if en_section e = Question
      then en_section e' = Question \<and>
        sub_slice (en_fixed e') (en_fixed e' + 4) q = sub_slice (en_fixed e) (en_fixed e + 4) p
      else en_section e' \<noteq> Question \<and>
        sub_slice (en_fixed e') (en_fixed e' + 8) q = sub_slice (en_fixed e) (en_fixed e + 8) p \<and>
        rdata_copied p UNIV e q (en_rdata e') (en_end e'))"

lemma trimmer_inv_emit:
  assumes "trimmer_inv p S (length (tr_out t)) t"
  shows "trimmer_inv p S (length (tr_out (emit t bs))) (emit t bs)"
proof -
  have "placed_ok p S (tr_out t) a w \<Longrightarrow> placed_ok p S (tr_out t @ bs) a w" for a w
    by (erule placed_ok_transfer) (auto simp: nth_append)
  then show ?thesis using assms by (fastforce simp: trimmer_inv_def emit_def Let_def)
qed

lemma trimmer_inv_patch:
  assumes inv: "trimmer_inv p S n t" and i: "i + length bs \<le> length (tr_out t)" and "S \<inter> {i..<i + length bs} = {}"
  shows "trimmer_inv p S n (t\<lparr>tr_out := write_at i bs (tr_out t)\<rparr>)"
proof -
  have "placed_ok p S (tr_out t) a w \<Longrightarrow> placed_ok p S (write_at i bs (tr_out t)) a w" for a w
    by (erule placed_ok_transfer) (use i assms(3) in \<open>auto simp: nth_write_at\<close>)
  then show ?thesis using inv i by (auto simp: trimmer_inv_def Let_def)
qed

lemma trimmer_inv_widen:
  assumes inv: "trimmer_inv p S n t" and "S \<subseteq> T" "T \<subseteq> {..<n}"
  shows "trimmer_inv p T n t"
proof -
  have "placed_ok p S (tr_out t) a w \<Longrightarrow> placed_ok p T (tr_out t) a w" for a w
    by (erule placed_ok_transfer) (use assms(2) in auto)
  then show ?thesis using assms by (auto simp: trimmer_inv_def Let_def)
qed

lemma write_name_written:
  assumes "trimmer_inv p S (length (tr_out t)) t" "write_name t p at b = Some (t', b')"
  obtains ls where "name_written p S at t t' ls"
    "trimmer_inv p (S \<union> {length (tr_out t)..<length (tr_out t')}) (length (tr_out t')) t'"
  using write_name_loop_written[OF assms(1) assms(2)[unfolded write_name_def]] name_written_inv[OF assms(1)] by blast

lemma write_rdata_names_copied:
  assumes "trimmer_inv p S (length (tr_out t)) t" "write_rdata_names p n t at b = Some (t1, at1, b')"
    and "get_slice at1 stop p = Some rest"
  shows "\<exists>T. S \<subseteq> T \<and> T \<subseteq> S \<union> {length (tr_out t)..<length (tr_out t1)} \<and> trimmer_inv p T (length (tr_out t1)) t1 \<and>
    take (length (tr_out t)) (tr_out t1) = tr_out t \<and> (0 < n \<longrightarrow> length (tr_out t) < length (tr_out t1)) \<and>
    length (tr_out t) \<le> length (tr_out t1) \<and>
    names_copied p stop T (tr_out t1 @ rest) (length (tr_out t1 @ rest)) n at (length (tr_out t))"
  using assms(1,2)
proof (induction n arbitrary: t at b S)
  case 0
  then show ?case using assms(3) by (intro exI[of _ S]) (auto simp: get_slice_def sub_slice_def split: if_splits)
next
  case (Suc n)
  from Suc.prems(2) obtain t2 b2 at2 where w: "write_name t p at b = Some (t2, b2)" "skip_name p at = Some at2"
    "write_rdata_names p n t2 at2 b2 = Some (t1, at1, b')" by (auto split: option.splits prod.splits)
  let ?m = "length (tr_out t)" and ?k = "length (tr_out t2)"
  from write_name_written[OF Suc.prems(1) w(1)] obtain ls where ls: "name_written p S at t t2 ls"
    "trimmer_inv p (S \<union> {?m..<?k}) ?k t2" by blast
  note ls' = ls(1)[unfolded name_written_def Let_def]
  from Suc.IH[OF ls(2) w(3)] obtain T where T: "S \<union> {?m..<?k} \<subseteq> T" "T \<subseteq> S \<union> {?m..<?k} \<union> {?k..<length (tr_out t1)}"
    "trimmer_inv p T (length (tr_out t1)) t1" "take ?k (tr_out t1) = tr_out t2" "?k \<le> length (tr_out t1)"
    "names_copied p stop T (tr_out t1 @ rest) (length (tr_out t1 @ rest)) n at2 ?k" by blast
  have same: "i < length (tr_out t1 @ rest) \<and> (tr_out t1 @ rest) ! i = tr_out t2 ! i" if "i < ?k" for i
    using T(4,5) that nth_take[OF that, of "tr_out t1"] by (auto simp: nth_append)
  have "packed (tr_out t1 @ rest) T ?m ls" using ls' T(1) same by (blast intro: packed_transfer)
  moreover have "skip_name (tr_out t1 @ rest) ?m = Some ?k" using ls' skip_name_transfer[of "tr_out t2" ?m ?k] same by blast
  moreover have "take ?m (tr_out t1) = tr_out t"
    using ls' T(4) by (metis take_take min.absorb1 less_imp_le)
  ultimately show ?case using ls' T w(2) by (intro exI[of _ T]) auto
qed

lemma write_rdata_copied:
  assumes inv: "trimmer_inv p S (length (tr_out t)) t" and w: "write_rdata t p e b = Some (t', b')" and e: "entry_wf p e"
  shows "\<exists>T. S \<subseteq> T \<and> T \<subseteq> S \<union> {length (tr_out t)..<length (tr_out t')} \<and> trimmer_inv p T (length (tr_out t')) t' \<and>
    take (length (tr_out t)) (tr_out t') = tr_out t \<and> length (tr_out t) \<le> length (tr_out t') \<and>
    rdata_copied p T e (tr_out t') (length (tr_out t)) (length (tr_out t'))"
proof (cases "entry_rdata_names e")
  case None
  then obtain rdata where r: "get_slice (en_rdata e) (en_end e) p = Some rdata" "t' = emit t rdata"
    using w by (auto simp: write_rdata_def split: option.splits)
  then have "names_copied p (en_end e) S (tr_out t') (length (tr_out t')) 0 (en_rdata e) (length (tr_out t))"
    by (auto simp: get_slice_def emit_def sub_slice_def split: if_splits)
  then show ?thesis
    using r None trimmer_inv_emit[OF inv] by (intro exI[of _ S]) (auto simp: rdata_copied_def emit_def)
next
  case (Some ns)
  let ?at = "en_rdata e + rn_offset ns" and ?m = "length (tr_out t)"
  from w Some obtain head t1 at1 rest where h: "get_slice (en_rdata e) ?at p = Some head"
    "write_rdata_names p (rn_count ns) (emit t head) ?at b = Some (t1, at1, b')"
    "get_slice at1 (en_end e) p = Some rest" "t' = emit t1 rest"
    by (auto simp: write_rdata_def Let_def split: option.splits prod.splits)
  have count: "0 < rn_count ns" using Some by (auto simp: entry_rdata_names_def rdata_names_of_def split: if_splits)
  have head: "length head = rn_offset ns" "head = sub_slice (en_rdata e) ?at p" using h(1) by (auto simp: get_slice_def split: if_splits)
  let ?k = "length (tr_out (emit t head))"
  have k: "?k = ?m + rn_offset ns" by (simp add: emit_def head(1))
  from write_rdata_names_copied[OF trimmer_inv_emit[OF inv] h(2,3)] count obtain T where
    T: "S \<subseteq> T" "T \<subseteq> S \<union> {?k..<length (tr_out t1)}" "trimmer_inv p T (length (tr_out t1)) t1"
      "take ?k (tr_out t1) = tr_out (emit t head)" "?k < length (tr_out t1)"
      "names_copied p (en_end e) T (tr_out t1 @ rest) (length (tr_out t1 @ rest)) (rn_count ns) ?at ?k" by blast
  obtain later where out: "tr_out t1 = tr_out t @ head @ later"
    using T(4) by (metis append_take_drop_id append.assoc emit_def trimmer.simps(1,4) trimmer.surjective trimmer.update_convs(1))
  have "rdata_copied p T e (tr_out t') ?m (length (tr_out t'))"
    using Some T(5,6) h(4) k head by (simp add: rdata_copied_def emit_def) (simp add: out sub_slice_def)
  then show ?thesis
    using T(1-3,5) k trimmer_inv_emit[OF T(3)] h(4) by (intro exI[of _ T]) (auto simp: emit_def out)
qed

text \<open>What a written entry is in every message that goes on from it.\<close>

definition entry_written :: "bytes \<Rightarrow> dns_entry \<Rightarrow> nat \<Rightarrow> bytes \<Rightarrow> bool" where
  "entry_written p e n out \<longleftrightarrow>
     (\<forall>q s. length out \<le> length q \<and> (\<forall>i. DNS_HEADER_LEN \<le> i \<longrightarrow> i < length out \<longrightarrow> q ! i = out ! i) \<and>
        (s = Question \<longleftrightarrow> en_section e = Question) \<longrightarrow>
        (\<exists>e'. entry_wf q e' \<and> en_section e' = s \<and> en_name e' = n \<and> en_end e' = length out \<and> same_entry p e q e'))"

abbreviation after_entry :: "bytes \<Rightarrow> trimmer \<Rightarrow> bool" where
  "after_entry p t \<equiv> trimmer_inv p {DNS_HEADER_LEN..<length (tr_out t)} (length (tr_out t)) t \<and> DNS_HEADER_LEN \<le> length (tr_out t)"

lemma question_written:
  assumes n: "DNS_HEADER_LEN \<le> n" and out: "out = pre @ sub_slice (en_fixed e) (en_end e) p" and e: "entry_wf p e" "en_section e = Question"
    and name: "name_at p (en_name e) ls" "packed pre {DNS_HEADER_LEN..<length pre} n ls" "skip_name pre n = Some (length pre)"
  shows "entry_written p e n out"
  unfolding entry_written_def
proof (intro allI impI, elim conjE)
  fix q s assume len: "length out \<le> length q" and s: "(s = Question) = (en_section e = Question)"
    and same: "\<forall>i. DNS_HEADER_LEN \<le> i \<longrightarrow> i < length out \<longrightarrow> q ! i = out ! i"
  have rtype: "en_rtype e = u16_of (p ! en_fixed e) (p ! Suc (en_fixed e))" using e by (simp add: entry_wf_def)
  have stop: "en_end e = en_fixed e + 4" "length out = length pre + 4" using e by (auto simp: entry_wf_def out)
  have pre: "i < length q \<and> q ! i = pre ! i" if "DNS_HEADER_LEN \<le> i" "i < length pre" for i
    using same that len by (auto simp: out nth_append)
  let ?e = "\<lparr>en_section = Question, en_name = n, en_fixed = length pre, en_rtype = en_rtype e, en_rdata = length pre + 4, en_end = length pre + 4\<rparr>"
  have le: "n < length pre" using skip_name_forward[OF name(3)] by simp
  have "skip_name q n = Some (length pre)" using skip_name_transfer[OF name(3), of q] pre n by auto
  moreover have "packed q UNIV n ls" using name(2) by (rule packed_transfer) (use pre in auto)
  then have "name_at q n ls" by (rule packed_name_at)
  moreover have fx: "sub_slice (length pre) (length pre + 4) q = sub_slice (en_fixed e) (en_fixed e + 4) p"
    using same n le len stop sub_slice_cong[of "length pre" "length pre + 4" q out] by (auto simp: out sub_slice_def)
  moreover have "q ! length pre = p ! en_fixed e" "q ! Suc (length pre) = p ! Suc (en_fixed e)"
    using sub_slice_nth_eq[OF fx, of 0] sub_slice_nth_eq[OF fx, of 1] len stop e(1) by (simp_all add: entry_wf_def)
  ultimately have "entry_wf q ?e" "same_entry p e q ?e"
    using e(2) rtype name(1) le len stop(2) by (simp_all add: entry_wf_def same_entry_def) blast
  then show "\<exists>e'. entry_wf q e' \<and> en_section e' = s \<and> en_name e' = n \<and> en_end e' = length out \<and> same_entry p e q e'"
    using s e(2) stop by (intro exI[of _ ?e]) simp
qed

lemma record_written:
  assumes n: "DNS_HEADER_LEN \<le> n" and e: "entry_wf p e" "en_section e \<noteq> Question"
    and out: "out = pre @ sub_slice (en_fixed e) (en_fixed e + 8) p @ u16_be len @ rdata" and l: "unat len = length rdata"
    and name: "name_at p (en_name e) ls" "packed pre {DNS_HEADER_LEN..<length pre} n ls" "skip_name pre n = Some (length pre)"
    and rd: "rdata_copied p {DNS_HEADER_LEN..<length out} e out (length pre + 10) (length out)"
  shows "entry_written p e n out"
  unfolding entry_written_def
proof (intro allI impI, elim conjE)
  fix q s assume len: "length out \<le> length q" and s: "(s = Question) = (en_section e = Question)"
    and same: "\<forall>i. DNS_HEADER_LEN \<le> i \<longrightarrow> i < length out \<longrightarrow> q ! i = out ! i"
  let ?f = "length pre"
  have fe: "en_fixed e + 8 \<le> length p" using e by (auto simp: entry_wf_def)
  then have stop: "length out = ?f + 10 + length rdata" by (simp add: out)
  have pre: "i < length q \<and> q ! i = pre ! i" if "DNS_HEADER_LEN \<le> i" "i < ?f" for i
    using same that len by (auto simp: out nth_append)
  let ?e = "\<lparr>en_section = s, en_name = n, en_fixed = ?f, en_rtype = en_rtype e, en_rdata = ?f + 10, en_end = length out\<rparr>"
  have le: "n < ?f" using skip_name_forward[OF name(3)] by simp
  have "skip_name q n = Some ?f" using skip_name_transfer[OF name(3), of q] pre n by auto
  moreover have "packed q UNIV n ls" using name(2) by (rule packed_transfer) (use pre in auto)
  then have "name_at q n ls" by (rule packed_name_at)
  moreover have fx: "sub_slice ?f (?f + 8) q = sub_slice (en_fixed e) (en_fixed e + 8) p"
    using same n le len stop fe sub_slice_cong[of ?f "?f + 8" q out] by (auto simp: out sub_slice_def)
  moreover have "q ! ?f = p ! en_fixed e" "q ! Suc ?f = p ! Suc (en_fixed e)"
    using sub_slice_nth_eq[OF fx, of 0] sub_slice_nth_eq[OF fx, of 1] len stop fe by simp_all
  moreover have "u16_of (q ! (?f + 8)) (q ! (?f + 9)) = len"
    using same n le stop fe by (simp add: out nth_append u16_be_def)
  moreover have "rdata_copied p UNIV e q (?f + 10) (length out)"
  proof -
    have slice: "sub_slice a b q = sub_slice a b out" if "DNS_HEADER_LEN \<le> a" "b \<le> length out" for a b
      using same that len by (intro sub_slice_cong) auto
    have "names_copied p x UNIV q (length out) k y z"
      if "names_copied p x {DNS_HEADER_LEN..<length out} out (length out) k y z" "DNS_HEADER_LEN \<le> z" for x k y z
      using that(1) by (rule names_copied_transfer) (use same len that(2) in auto)
    with rd slice n le len show ?thesis by (auto simp: rdata_copied_def split: option.splits)
  qed
  ultimately have "entry_wf q ?e" "same_entry p e q ?e"
    using e name(1) le len stop l s by (auto simp: entry_wf_def same_entry_def)
  then show "\<exists>e'. entry_wf q e' \<and> en_section e' = s \<and> en_name e' = n \<and> en_end e' = length out \<and> same_entry p e q e'"
    by (intro exI[of _ ?e]) simp
qed

lemma header_union: "DNS_HEADER_LEN \<le> n \<Longrightarrow> n \<le> m \<Longrightarrow> {DNS_HEADER_LEN..<n} \<union> {n..<m} = {DNS_HEADER_LEN..<m}"
  by auto

lemma patched_record:
  assumes "out = pre @ fx @ [0, 0] @ rdata" "length fx = 8"
  shows "write_at (length pre + 8) (u16_be len) out = pre @ fx @ u16_be len @ rdata"
  using assms by (simp add: write_at_def)

text \<open>A record from just past its owner name: fixed fields, a length to be patched, the rdata.\<close>

lemma write_record_written:
  assumes inv1: "trimmer_inv p {DNS_HEADER_LEN..<length (tr_out t1)} (length (tr_out t1)) t1"
    and n: "DNS_HEADER_LEN \<le> n" "n < length (tr_out t1)" and e: "entry_wf p e" "en_section e \<noteq> Question"
    and name: "name_at p (en_name e) ls" "packed (tr_out t1) {DNS_HEADER_LEN..<length (tr_out t1)} n ls"
      "skip_name (tr_out t1) n = Some (length (tr_out t1))"
    and w3: "write_rdata (emit (emit t1 (sub_slice (en_fixed e) (en_fixed e + 8) p)) [0, 0]) p e b1 = Some (t3, b')"
    and u: "u16_try_from (length (tr_out t3) - (length (tr_out t1) + 8) - 2) = Some len"
    and t': "t' = t3\<lparr>tr_out := write_at (length (tr_out t1) + 8) (u16_be len) (tr_out t3)\<rparr>"
  shows "after_entry p t'" "take (length (tr_out t1)) (tr_out t') = tr_out t1" "entry_written p e n (tr_out t')"
proof -
  let ?n1 = "length (tr_out t1)" and ?fx = "sub_slice (en_fixed e) (en_fixed e + 8) p"
  have "en_fixed e + 8 \<le> length p" using e by (auto simp: entry_wf_def)
  then have fx: "length ?fx = 8" by simp
  have n2: "length (tr_out (emit (emit t1 ?fx) [0, 0])) = ?n1 + 10" using fx by (simp add: emit_def)
  from write_rdata_copied[OF trimmer_inv_emit[OF trimmer_inv_emit[OF inv1]] w3 e(1)] n2 obtain T where
    T: "T \<subseteq> {DNS_HEADER_LEN..<?n1} \<union> {?n1 + 10..<length (tr_out t3)}"
      "trimmer_inv p T (length (tr_out t3)) t3" "take (?n1 + 10) (tr_out t3) = tr_out (emit (emit t1 ?fx) [0, 0])"
      "?n1 + 10 \<le> length (tr_out t3)" "rdata_copied p T e (tr_out t3) (?n1 + 10) (length (tr_out t3))" by auto
  define rdata where "rdata = drop (?n1 + 10) (tr_out t3)"
  have out3: "tr_out t3 = tr_out t1 @ ?fx @ [0, 0] @ rdata"
    using T(3) append_take_drop_id[of "?n1 + 10" "tr_out t3"] by (simp add: rdata_def emit_def)
  have out': "tr_out t' = tr_out t1 @ ?fx @ u16_be len @ rdata" using patched_record[OF out3 fx] t' by simp
  have len': "length (tr_out t') = length (tr_out t3)" using out' out3 by simp
  have len: "unat len = length rdata" using u fx unfolding out3 by (auto simp: u16_try_from_def unat_of_nat split: if_splits)
  have same: "tr_out t' ! i = tr_out t3 ! i" if "i < ?n1 + 8 \<or> ?n1 + 10 \<le> i" for i
    using that fx by (auto simp: out' out3 nth_append u16_be_def nth_Cons')
  have "trimmer_inv p T (length (tr_out t')) t'"
    unfolding len' unfolding t' using T(2) by (rule trimmer_inv_patch) (use T(1,4) in auto)
  then have "trimmer_inv p {DNS_HEADER_LEN..<length (tr_out t')} (length (tr_out t')) t'"
    by (rule trimmer_inv_widen) (use T(1,4) len' n in auto)
  then show "after_entry p t'" using n out' by simp
  show "take ?n1 (tr_out t') = tr_out t1" by (simp add: out')
  have "names_copied p x {DNS_HEADER_LEN..<length (tr_out t')} (tr_out t') (length (tr_out t')) k y z"
    if "names_copied p x T (tr_out t3) (length (tr_out t3)) k y z" "?n1 + 10 \<le> z" for x k y z
    using that(1) unfolding len'
    by (rule names_copied_transfer) (use T(1,4) same len' that(2) n in \<open>auto simp: subset_iff\<close>)
  moreover have "sub_slice a b (tr_out t') = sub_slice a b (tr_out t3)" if "?n1 + 10 \<le> a" "b \<le> length (tr_out t3)" for a b
    using that same len' by (intro sub_slice_cong) auto
  ultimately have "rdata_copied p {DNS_HEADER_LEN..<length (tr_out t')} e (tr_out t') (?n1 + 10) (length (tr_out t'))"
    using T(5) len' by (auto simp: rdata_copied_def split: option.splits)
  then show "entry_written p e n (tr_out t')" by (rule record_written[OF n(1) e out' len name])
qed

lemma write_entry_written:
  assumes ok: "after_entry p t" and w: "write_entry t p e b = Some (t', b')" and e: "entry_wf p e"
  shows "after_entry p t' \<and> take (length (tr_out t)) (tr_out t') = tr_out t \<and> entry_written p e (length (tr_out t)) (tr_out t')"
proof -
  let ?n = "length (tr_out t)"
  from w obtain t1 b1 where w1: "write_name t p (en_name e) b = Some (t1, b1)"
    by (auto simp: write_entry_def split: option.splits)
  let ?n1 = "length (tr_out t1)"
  from write_name_written[OF _ w1] ok obtain ls where ls: "name_written p {DNS_HEADER_LEN..<?n} (en_name e) t t1 ls"
    "trimmer_inv p ({DNS_HEADER_LEN..<?n} \<union> {?n..<?n1}) ?n1 t1" by blast
  have n1: "?n < ?n1" "take ?n (tr_out t1) = tr_out t" using ls(1) by (auto simp: name_written_def Let_def)
  then have un: "{DNS_HEADER_LEN..<?n} \<union> {?n..<?n1} = {DNS_HEADER_LEN..<?n1}" using ok by (intro header_union) auto
  have name: "name_at p (en_name e) ls" "packed (tr_out t1) {DNS_HEADER_LEN..<?n1} ?n ls" "skip_name (tr_out t1) ?n = Some ?n1"
    using ls(1) un by (auto simp: name_written_def Let_def)
  have inv1: "trimmer_inv p {DNS_HEADER_LEN..<?n1} ?n1 t1" using ls(2) un by simp
  show ?thesis
  proof (cases "en_section e = Question")
    case True
    then have t': "t' = emit t1 (sub_slice (en_fixed e) (en_end e) p)"
      using w w1 by (auto simp: write_entry_def get_slice_def split: option.splits if_splits)
    have "trimmer_inv p {DNS_HEADER_LEN..<length (tr_out t')} (length (tr_out t')) t'"
      using trimmer_inv_emit[OF inv1] unfolding t' by (rule trimmer_inv_widen) (auto simp: emit_def)
    moreover have "entry_written p e ?n (tr_out t')"
      using question_written[OF _ _ e True name] ok t' by (simp add: emit_def)
    ultimately show ?thesis using n1 ok t' by (auto simp: emit_def)
  next
    case False
    have "en_fixed e + 8 \<le> length p" using e False by (auto simp: entry_wf_def)
    with w w1 False obtain t3 len where
      w3: "write_rdata (emit (emit t1 (sub_slice (en_fixed e) (en_fixed e + 8) p)) [0, 0]) p e b1 = Some (t3, b')"
        "u16_try_from (length (tr_out t3) - (?n1 + 8) - 2) = Some len"
        "t' = t3\<lparr>tr_out := write_at (?n1 + 8) (u16_be len) (tr_out t3)\<rparr>"
      by (auto simp: write_entry_def get_slice_def emit_def Let_def split: option.splits if_splits)
    note written = write_record_written[OF inv1 _ n1(1) e False name w3]
    have "take ?n (tr_out t') = tr_out t" using written(2) ok n1 by (metis take_take min.absorb1 less_imp_le)
    then show ?thesis using written(1,3) ok by blast
  qed
qed

section \<open>The whole message\<close>

text \<open>A log of entries written, each with the section it counts for, read back from \<open>q\<close>.\<close>

fun log_read :: "bytes \<Rightarrow> bytes \<Rightarrow> nat \<Rightarrow> (dns_section \<times> dns_entry) list \<Rightarrow> nat \<Rightarrow> bool" where
  "log_read p q at [] stop \<longleftrightarrow> at = stop"
| "log_read p q at ((s, e) # log) stop \<longleftrightarrow>
     (\<exists>e'. entry_wf q e' \<and> en_section e' = s \<and> en_name e' = at \<and> same_entry p e q e' \<and> log_read p q (en_end e') log stop)"

lemma log_read_append:
  "log_read p q at (xs @ ys) stop \<longleftrightarrow> (\<exists>mid. log_read p q at xs mid \<and> log_read p q mid ys stop)"
  by (induction p q at xs stop rule: log_read.induct) auto

definition log_ok :: "bytes \<Rightarrow> (dns_section \<times> dns_entry) list \<Rightarrow> bytes \<Rightarrow> bool" where
  "log_ok p log out \<longleftrightarrow>
     (\<forall>q. length out \<le> length q \<and> (\<forall>i. DNS_HEADER_LEN \<le> i \<longrightarrow> i < length out \<longrightarrow> q ! i = out ! i) \<longrightarrow>
        log_read p q DNS_HEADER_LEN log (length out))"

abbreviation in_section :: "dns_section \<Rightarrow> (dns_section \<times> dns_entry) list \<Rightarrow> dns_entry list" where
  "in_section s log \<equiv> map snd (filter (\<lambda>(s', e). s' = s) log)"

definition trim_inv :: "bytes \<Rightarrow> (dns_section \<times> dns_entry) list \<Rightarrow> trim_state \<Rightarrow> bool" where
  "trim_inv p log s \<longleftrightarrow>
     after_entry p (ts_trimmer s) \<and> log_ok p log (tr_out (ts_trimmer s)) \<and> length (ts_counts s) = 4 \<and>
     (\<forall>k. unat (ts_counts s ! section_index k) = length (in_section k log))"

lemma section_index_less [simp]: "section_index k < 4"
  by (cases k) simp_all

lemma section_index_eq_iff [simp]: "section_index j = section_index k \<longleftrightarrow> j = k"
  by (cases j; cases k) simp_all

lemma unat_u16_incr: "unat (w :: u16) < 65535 \<Longrightarrow> unat (w + 1) = Suc (unat w)"
  by (simp add: unat_word_ariths(1))

lemma trim_inv_write:
  assumes inv: "trim_inv p log s" and w: "write_entry (ts_trimmer s) p e b = Some (t', b')" and e: "entry_wf p e"
    and k: "k = Question \<longleftrightarrow> en_section e = Question" and room: "length (in_section k log) < 65535"
  shows "trim_inv p (log @ [(k, e)]) (s\<lparr>ts_trimmer := t', ts_budget := b',
    ts_counts := (ts_counts s)[section_index k := ts_counts s ! section_index k + 1]\<rparr>)"
proof -
  let ?out = "tr_out (ts_trimmer s)"
  have written: "after_entry p t'" "take (length ?out) (tr_out t') = ?out" "entry_written p e (length ?out) (tr_out t')"
    using write_entry_written[OF _ w e] inv by (auto simp: trim_inv_def)
  have len: "length ?out \<le> length (tr_out t')" using written(2) by (metis length_take min.cobounded2 min.commute)
  have "log_ok p (log @ [(k, e)]) (tr_out t')"
    unfolding log_ok_def
  proof (intro allI impI, elim conjE)
    fix q assume q: "length (tr_out t') \<le> length q" "\<forall>i. DNS_HEADER_LEN \<le> i \<longrightarrow> i < length (tr_out t') \<longrightarrow> q ! i = tr_out t' ! i"
    then have "\<forall>i. DNS_HEADER_LEN \<le> i \<longrightarrow> i < length ?out \<longrightarrow> q ! i = ?out ! i"
      using written(2) len by (metis nth_take less_le_trans)
    then have "log_read p q DNS_HEADER_LEN log (length ?out)"
      using inv q(1) len by (auto simp: trim_inv_def log_ok_def)
    moreover have "log_read p q (length ?out) [(k, e)] (length (tr_out t'))"
      using written(3) q k by (fastforce simp: entry_written_def)
    ultimately show "log_read p q DNS_HEADER_LEN (log @ [(k, e)]) (length (tr_out t'))" by (auto simp: log_read_append)
  qed
  moreover have "unat (ts_counts s ! section_index k + 1) = Suc (length (in_section k log))"
    using inv room by (simp add: trim_inv_def unat_u16_incr)
  ultimately show ?thesis using inv written(1) by (auto simp: trim_inv_def nth_list_update)
qed

lemma refill_answers_written:
  assumes "refill_answers p R es s = Some s'" "trim_inv p log s" "\<forall>e \<in> set es. entry_wf p e"
  shows "trim_inv p (log @ map (Pair Answer) (filter (refills R) es)) s' \<and>
    ts_removed s' = ts_removed s \<and> ts_answered s' = ts_answered s \<and> ts_refilled s' = ts_refilled s"
  using assms
proof (induction es arbitrary: s log)
  case (Cons e es)
  show ?case
  proof (cases "refills R e")
    case True
    from Cons.prems(1) True obtain t b where w: "write_entry (ts_trimmer s) p e (ts_budget s) = Some (t, b)"
      "ts_counts s ! section_index Answer \<noteq> 0xffff"
      "refill_answers p R es (s\<lparr>ts_trimmer := t, ts_budget := b,
         ts_counts := (ts_counts s)[section_index Answer := ts_counts s ! section_index Answer + 1]\<rparr>) = Some s'"
      by (auto simp: Let_def split: option.splits if_splits)
    have "unat (ts_counts s ! section_index Answer) \<noteq> unat (0xffff :: u16)" by (simp only: unat_word_eq_iff w(2) not_False_eq_True)
    then have "length (in_section Answer log) < 65535"
      using Cons.prems(2) unat_u16_lt[of "ts_counts s ! section_index Answer"]
      by (simp add: trim_inv_def del: section_index.simps unat_u16_lt)
    moreover have "en_section e \<noteq> Question" using True by (auto simp: refills_def)
    ultimately have "trim_inv p (log @ [(Answer, e)]) (s\<lparr>ts_trimmer := t, ts_budget := b,
         ts_counts := (ts_counts s)[section_index Answer := ts_counts s ! section_index Answer + 1]\<rparr>)"
      using trim_inv_write[OF Cons.prems(2) w(1), of Answer] Cons.prems(3) by simp
    from Cons.IH[OF w(3) this] Cons.prems(3) True show ?thesis by simp
  next
    case False
    with Cons show ?thesis by auto
  qed
qed simp

abbreviation is_back :: "dns_entry \<Rightarrow> bool" where
  "is_back e \<equiv> en_section e = Authority \<or> en_section e = Additional"

abbreviation tag :: "dns_entry \<Rightarrow> dns_section \<times> dns_entry" where
  "tag e \<equiv> (en_section e, e)"

text \<open>\<open>K\<close> is what the filter answers whenever it answers.\<close>

definition verdict :: "(dns_entry \<Rightarrow> nat \<Rightarrow> (bool \<times> nat) option) \<Rightarrow> (dns_entry \<Rightarrow> bool) \<Rightarrow> bool" where
  "verdict keep K \<longleftrightarrow> (\<forall>e b k b'. keep e b = Some (k, b') \<longrightarrow> k = K e)"

definition room :: "(dns_section \<times> dns_entry) list \<Rightarrow> dns_entry list \<Rightarrow> bool" where
  "room log es \<longleftrightarrow> (\<forall>e \<in> set es. length (in_section (en_section e) log) + length (filter (\<lambda>e'. en_section e' = en_section e) es) \<le> 65535)"

lemma room_drop: "room log (e # es) \<Longrightarrow> room log es"
  unfolding room_def
proof
  fix x assume h: "\<forall>x\<in>set (e # es). length (in_section (en_section x) log) + length (filter (\<lambda>e'. en_section e' = en_section x) (e # es)) \<le> 65535"
    and "x \<in> set es"
  then have "length (in_section (en_section x) log) + length (filter (\<lambda>e'. en_section e' = en_section x) (e # es)) \<le> 65535" by simp
  then show "length (in_section (en_section x) log) + length (filter (\<lambda>e'. en_section e' = en_section x) es) \<le> 65535"
    by (simp split: if_splits)
qed

lemma room_write: "room log (e # es) \<Longrightarrow> room (log @ [tag e]) es \<and> length (in_section (en_section e) log) < 65535"
  unfolding room_def
proof
  assume h: "\<forall>x\<in>set (e # es). length (in_section (en_section x) log) + length (filter (\<lambda>e'. en_section e' = en_section x) (e # es)) \<le> 65535"
  show "\<forall>x\<in>set es. length (in_section (en_section x) (log @ [tag e])) + length (filter (\<lambda>e'. en_section e' = en_section x) es) \<le> 65535"
  proof
    fix x assume "x \<in> set es"
    with h have "length (in_section (en_section x) log) + length (filter (\<lambda>e'. en_section e' = en_section x) (e # es)) \<le> 65535" by simp
    then show "length (in_section (en_section x) (log @ [tag e])) + length (filter (\<lambda>e'. en_section e' = en_section x) es) \<le> 65535"
      by (simp split: if_splits)
  qed
  from h have "length (in_section (en_section e) log) + length (filter (\<lambda>e'. en_section e' = en_section e) (e # es)) \<le> 65535" by simp
  then show "length (in_section (en_section e) log) < 65535" by simp
qed

lemma trim_entries_plain:
  assumes "trim_entries p keep R whole es s = Some s'" "trim_inv p log s" "verdict keep K" "\<forall>e \<in> set es. entry_wf p e"
    "ts_answered s \<or> (\<forall>e \<in> set es. \<not> is_back e)" "room log es"
  shows "trim_inv p (log @ map tag (filter (\<lambda>e. \<not> (ts_refilled s \<and> refills R e) \<and> K e) es)) s' \<and>
    ts_removed s' = ts_removed s + length (filter (\<lambda>e. \<not> (ts_refilled s \<and> refills R e) \<and> \<not> K e) es) \<and>
    ts_answered s' = ts_answered s \<and> ts_refilled s' = ts_refilled s"
  using assms
proof (induction es arbitrary: s log)
  case (Cons e es)
  have first: "close_answers p R whole e s = Some s" using Cons.prems(5) by (auto simp: close_answers_def)
  note step = Cons.prems(1)[unfolded trim_entries.simps first option.case(2)]
  have es: "\<forall>e \<in> set es. entry_wf p e" "ts_answered s \<or> (\<forall>e \<in> set es. \<not> is_back e)" using Cons.prems(4,5) by auto
  show ?case
  proof (cases "ts_refilled s \<and> refills R e")
    case True
    then show ?thesis using Cons.IH[of s log] step Cons.prems(2,3) es room_drop[OF Cons.prems(6)] by simp
  next
    case False
    then obtain k b where k: "keep e (ts_budget s) = Some (k, b)"
      using step by (cases "keep e (ts_budget s)") auto
    then have k2: "k = K e" using Cons.prems(3) unfolding verdict_def by blast
    show ?thesis
    proof (cases k)
      case True
      then obtain t b' where w: "write_entry (ts_trimmer s) p e b = Some (t, b')"
        "trim_entries p keep R whole es (s\<lparr>ts_trimmer := t, ts_budget := b',
           ts_counts := (ts_counts s)[section_index (en_section e) := ts_counts s ! section_index (en_section e) + 1]\<rparr>) = Some s'"
        using step k False by (auto simp: Let_def split: option.splits)
      have wf: "entry_wf p e" using Cons.prems(4) by simp
      from trim_inv_write[OF Cons.prems(2) w(1) wf, of "en_section e"] room_write[OF Cons.prems(6)]
      have "trim_inv p (log @ [tag e]) (s\<lparr>ts_trimmer := t, ts_budget := b',
           ts_counts := (ts_counts s)[section_index (en_section e) := ts_counts s ! section_index (en_section e) + 1]\<rparr>)" by simp
      from Cons.IH[OF w(2) this Cons.prems(3) es(1)] show ?thesis
        using True False k2 es(2) room_write[OF Cons.prems(6)] by simp
    next
      case False': False
      have "trim_inv p log (s\<lparr>ts_budget := b, ts_removed := ts_removed s + 1\<rparr>)" using Cons.prems(2) by (simp add: trim_inv_def)
      moreover have "trim_entries p keep R whole es (s\<lparr>ts_budget := b, ts_removed := ts_removed s + 1\<rparr>) = Some s'"
        using step k False False' by (auto split: option.splits)
      ultimately show ?thesis
        using Cons.IH[of "s\<lparr>ts_budget := b, ts_removed := ts_removed s + 1\<rparr>" log] Cons.prems(3) es room_drop[OF Cons.prems(6)] False False' k2
        by simp
    qed
  qed
qed simp

lemma trim_entries_append:
  "trim_entries p keep R whole (xs @ ys) s = Option.bind (trim_entries p keep R whole xs s) (trim_entries p keep R whole ys)"
proof (induction xs arbitrary: s)
  case (Cons e es)
  show ?case by (auto simp: Cons.IH Let_def split: option.split bool.split)
qed simp

text \<open>What a trim keeps, each entry with the section it ends up in: with an answer kept, the entries \<open>K\<close>
  keeps; without one, the back entries \<open>R\<close> picks move into the answer section.\<close>

definition trim_log :: "(dns_entry \<Rightarrow> bool) \<Rightarrow> (dns_entry \<Rightarrow> bool) \<Rightarrow> dns_entry list \<Rightarrow> (dns_section \<times> dns_entry) list" where
  "trim_log K R es =
     (if \<exists>e \<in> set es. en_section e = Answer \<and> K e then map tag (filter K es)
      else map tag (filter (\<lambda>e. \<not> is_back e \<and> K e) es) @ map (Pair Answer) (filter (refills R) es) @
           map tag (filter (\<lambda>e. is_back e \<and> \<not> refills R e \<and> K e) es))"

lemma trim_entries_answered:
  assumes "\<not> ts_answered s" "is_back e" "close_answers p R whole e s = Some s1"
  shows "ts_answered s1 \<and> trim_entries p keep R whole (e # es) s = trim_entries p keep R whole (e # es) s1"
proof -
  have "refill_answers p R xs t = Some t' \<Longrightarrow> ts_answered t' = ts_answered t" for xs t t'
  proof (induction xs arbitrary: t)
    case (Cons e xs)
    then show ?case by (fastforce simp: Let_def split: option.splits if_splits)
  qed simp
  then have a: "ts_answered s1" using assms by (auto simp: close_answers_def Let_def split: if_splits)
  then have "close_answers p R whole e s1 = Some s1" by (simp add: close_answers_def)
  with assms(3) a show ?thesis by simp
qed

lemma no_answer_count:
  assumes "trim_inv p (map tag xs) s"
  shows "ts_counts s ! section_index Answer = 0 \<longleftrightarrow> \<not> (\<exists>e \<in> set xs. en_section e = Answer)"
proof -
  have "unat (ts_counts s ! section_index Answer) = length (in_section Answer (map tag xs))" using assms unfolding trim_inv_def by blast
  then show ?thesis unfolding unat_eq_0_iff[symmetric] by (auto simp: filter_empty_conv)
qed

lemma room_tag_filter:
  assumes "\<forall>k. length (filter (\<lambda>e. en_section e = k) (xs @ ys)) \<le> 65535"
  shows "room (map tag (filter P xs)) ys"
proof -
  have "length (in_section k (map tag (filter P xs))) \<le> length (filter (\<lambda>e. en_section e = k) xs)" for k
    by (induction xs) auto
  with assms show ?thesis unfolding room_def filter_append length_append by (meson add_le_mono1 le_trans)
qed

lemma room_other:
  assumes "room log es" "\<forall>e \<in> set es. en_section e \<noteq> k"
  shows "room (log @ map (Pair k) xs) es"
proof -
  have "in_section (en_section e) (map (Pair k) xs) = []" if "e \<in> set es" for e
    using assms(2) that by (auto simp: filter_empty_conv)
  then show ?thesis using assms(1) by (simp add: room_def)
qed

text \<open>The walk over the whole message, from a trimmer that has written the header only.\<close>

lemma trim_entries_log:
  assumes t: "trim_entries p keep R (front @ rear) (front @ rear) s = Some s'" and inv: "trim_inv p [] s"
    and s: "\<not> ts_answered s" "\<not> ts_refilled s" and K: "verdict keep K" and wf: "\<forall>e \<in> set (front @ rear). entry_wf p e"
    and split: "\<forall>e \<in> set front. \<not> is_back e" "\<forall>e \<in> set rear. is_back e"
    and cnt: "\<forall>k. length (filter (\<lambda>e. en_section e = k) (front @ rear)) \<le> 65535"
  shows "trim_inv p (trim_log K R (front @ rear)) s'"
proof -
  from t obtain s1 where f: "trim_entries p keep R (front @ rear) front s = Some s1"
    and b: "trim_entries p keep R (front @ rear) rear s1 = Some s'"
    by (auto simp: trim_entries_append bind_eq_Some_conv)
  have "length (filter (\<lambda>e. en_section e = k) front) \<le> 65535" for k
    using cnt[rule_format, of k] by (simp only: filter_append length_append)
  then have room0: "room [] front" by (simp add: room_def)
  have "trim_inv p ([] @ map tag (filter (\<lambda>e. \<not> (ts_refilled s \<and> refills R e) \<and> K e) front)) s1 \<and>
      ts_answered s1 = ts_answered s \<and> ts_refilled s1 = ts_refilled s"
    using trim_entries_plain[OF f inv K _ _ room0] wf split(1) by simp
  then have s1: "trim_inv p (map tag (filter K front)) s1" "\<not> ts_answered s1" "\<not> ts_refilled s1" using s by simp_all
  have fr: "filter (refills R) front = []" "filter (refills R) rear = filter R rear"
    using split by (auto simp: refills_def filter_empty_conv intro: filter_cong)
  have nb: "filter (\<lambda>e. \<not> is_back e \<and> K e) (front @ rear) = filter K front"
    "filter (\<lambda>e. is_back e \<and> \<not> refills R e \<and> K e) (front @ rear) = filter (\<lambda>e. \<not> refills R e \<and> K e) rear"
    unfolding filter_append using split filter_cong[OF refl, of front "\<lambda>e. \<not> is_back e \<and> K e" K]
      filter_cong[OF refl, of rear "\<lambda>e. is_back e \<and> \<not> refills R e \<and> K e" "\<lambda>e. \<not> refills R e \<and> K e"]
      filter_False[of rear "\<lambda>e. \<not> is_back e \<and> K e"] filter_False[of front "\<lambda>e. is_back e \<and> \<not> refills R e \<and> K e"]
    by auto
  have ans: "ts_counts s1 ! section_index Answer = 0 \<longleftrightarrow> \<not> (\<exists>e \<in> set (front @ rear). en_section e = Answer \<and> K e)"
    using no_answer_count[OF s1(1)] split(2) by fastforce
  show ?thesis
  proof (cases rear)
    case Nil
    then show ?thesis using b s1(1) fr nb by (simp add: trim_log_def)
  next
    case (Cons e es)
    have "close_answers p R (front @ rear) e s1 \<noteq> None" using b Cons by (auto split: option.splits)
    then obtain s2 where s2: "close_answers p R (front @ rear) e s1 = Some s2" by blast
    have b2: "ts_answered s2" "trim_entries p keep R (front @ rear) rear s2 = Some s'"
      using trim_entries_answered[OF s1(2) _ s2] split(2) b Cons by auto
    have wfb: "\<forall>e \<in> set rear. entry_wf p e" using wf by simp
    have rm: "room (map tag (filter K front)) rear" using cnt by (rule room_tag_filter)
    show ?thesis
    proof (cases "ts_counts s1 ! section_index Answer = 0")
      case True
      let ?a = "s1\<lparr>ts_answered := True, ts_refilled := True\<rparr>"
      have r: "refill_answers p R (front @ rear) ?a = Some s2"
        using s2 True s1(2) split(2) Cons by (auto simp: close_answers_def Let_def)
      have "trim_inv p (map tag (filter K front)) ?a" using s1(1) by (simp add: trim_inv_def)
      from refill_answers_written[OF r this wf] have s2': "ts_refilled s2"
        "trim_inv p (map tag (filter K front) @ map (Pair Answer) (filter (refills R) (front @ rear))) s2" by simp_all
      have "room (map tag (filter K front) @ map (Pair Answer) (filter (refills R) (front @ rear))) rear"
        using rm split(2) by (intro room_other) auto
      from trim_entries_plain[OF b2(2) s2'(2) K wfb _ this] b2(1) s2'(1) have
        "trim_inv p ((map tag (filter K front) @ map (Pair Answer) (filter (refills R) (front @ rear))) @
           map tag (filter (\<lambda>e. \<not> refills R e \<and> K e) rear)) s'" by simp
      then show ?thesis using True ans by (simp only: trim_log_def nb if_False append.assoc)
    next
      case False
      then have s2': "s2 = s1\<lparr>ts_answered := True, ts_refilled := False\<rparr>"
        using s2 s1(2) split(2) Cons by (auto simp: close_answers_def Let_def)
      have "trim_inv p (map tag (filter K front)) s2" using s1(1) s2' by (simp add: trim_inv_def)
      from trim_entries_plain[OF b2(2) this K wfb _ rm] have "trim_inv p (map tag (filter K front) @ map tag (filter K rear)) s'"
        using s2' by simp
      then show ?thesis using False ans by (simp add: trim_log_def)
    qed
  qed
qed

lemma log_read_chained:
  "log_read p q at (map (Pair k) es) stop \<Longrightarrow>
     \<exists>es'. chained q k at es' stop \<and> list_all2 (\<lambda>(k, e) e'. en_section e' = k \<and> same_entry p e q e') (map (Pair k) es) es'"
proof (induction es arbitrary: at)
  case (Cons e es)
  from Cons.prems obtain e' where e': "entry_wf q e'" "en_section e' = k" "en_name e' = at" "same_entry p e q e'"
    "log_read p q (en_end e') (map (Pair k) es) stop" by auto
  from Cons.IH[OF e'(5)] obtain es' where "chained q k (en_end e') es' stop"
    "list_all2 (\<lambda>(k, e) e'. en_section e' = k \<and> same_entry p e q e') (map (Pair k) es) es'" by blast
  with e' show ?case by (intro exI[of _ "e' # es'"]) auto
qed simp

lemma entries_four:
  "entries p = Some es \<and> DNS_HEADER_LEN \<le> length p \<longleftrightarrow> DNS_HEADER_LEN \<le> length p \<and>
     (\<exists>qs as ns ds a b c d. es = qs @ as @ ns @ ds \<and>
        chained p Question DNS_HEADER_LEN qs a \<and> chained p Answer a as b \<and> chained p Authority b ns c \<and> chained p Additional c ds d \<and>
        length qs = section_count p QDCOUNT_AT \<and> length as = section_count p ANCOUNT_AT \<and>
        length ns = section_count p NSCOUNT_AT \<and> length ds = section_count p ARCOUNT_AT)"
  by (auto simp: entries_def entries_of_iff not_less split: option.splits) (metis entries_of_iff option.distinct(1) option.inject prod.inject)+

lemma chained_section: "chained p k at es stop \<Longrightarrow> \<forall>e \<in> set es. en_section e = k \<and> entry_wf p e"
  by (induction es arbitrary: at) auto

lemma map_tag: "\<forall>e \<in> set es. en_section e = k \<Longrightarrow> map tag (filter P es) = map (Pair k) (filter P es)"
  by auto

lemma trim_log_sections:
  assumes "\<forall>e \<in> set qs. en_section e = Question" "\<forall>e \<in> set as. en_section e = Answer"
    "\<forall>e \<in> set ns. en_section e = Authority" "\<forall>e \<in> set ds. en_section e = Additional"
  shows "\<exists>as' ns' ds'. trim_log K R (qs @ as @ ns @ ds) =
    map (Pair Question) (filter K qs) @ map (Pair Answer) as' @ map (Pair Authority) ns' @ map (Pair Additional) ds'"
proof (cases "\<exists>e \<in> set (qs @ as @ ns @ ds). en_section e = Answer \<and> K e")
  case True
  then have "trim_log K R (qs @ as @ ns @ ds) = map tag (filter K qs) @ map tag (filter K as) @ map tag (filter K ns) @ map tag (filter K ds)"
    by (simp only: trim_log_def if_True filter_append map_append)
  then show ?thesis using map_tag[OF assms(1)] map_tag[OF assms(2)] map_tag[OF assms(3)] map_tag[OF assms(4)] by (simp only:) blast
next
  case False
  let ?P = "\<lambda>e. is_back e \<and> \<not> refills R e \<and> K e" and ?F = "\<lambda>e. \<not> is_back e \<and> K e"
  have "filter ?F (qs @ as @ ns @ ds) = filter K qs"
    using assms False by (auto simp: filter_empty_conv intro!: filter_cong)
  moreover have "filter ?P (qs @ as @ ns @ ds) = filter ?P ns @ filter ?P ds"
    using assms by (auto simp: filter_empty_conv)
  ultimately have "trim_log K R (qs @ as @ ns @ ds) = map tag (filter K qs) @
      map (Pair Answer) (filter (refills R) (qs @ as @ ns @ ds)) @ map tag (filter ?P ns) @ map tag (filter ?P ds)"
    using False by (simp only: trim_log_def if_False map_append append.assoc)
  then show ?thesis using map_tag[OF assms(1)] map_tag[OF assms(3)] map_tag[OF assms(4)] by (simp only:) blast
qed

lemma patch_counts_eq:
  assumes "DNS_HEADER_LEN \<le> length out"
  shows "patch_counts cs out = take 4 out @ u16_be (cs ! 0) @ u16_be (cs ! 1) @ u16_be (cs ! 2) @ u16_be (cs ! 3) @ drop 12 out"
proof -
  obtain a b where ab: "out = a @ b" "length a = 12" using assms by (metis append_take_drop_id length_take min.absorb2 DNS_HEADER_LEN_def)
  show ?thesis using ab(2)
    by (simp add: patch_counts_def write_at_def QDCOUNT_AT_def ANCOUNT_AT_def NSCOUNT_AT_def ARCOUNT_AT_def ab(1) Let_def u16_be_def)
qed

lemma patch_counts_reads:
  assumes "DNS_HEADER_LEN \<le> length out"
  shows "length (patch_counts cs out) = length out" "DNS_HEADER_LEN \<le> i \<Longrightarrow> i < length out \<Longrightarrow> patch_counts cs out ! i = out ! i"
    "section_count (patch_counts cs out) QDCOUNT_AT = unat (cs ! 0)" "section_count (patch_counts cs out) ANCOUNT_AT = unat (cs ! 1)"
    "section_count (patch_counts cs out) NSCOUNT_AT = unat (cs ! 2)" "section_count (patch_counts cs out) ARCOUNT_AT = unat (cs ! 3)"
proof -
  have len: "length (take 4 out) = 4" using assms by (simp add: DNS_HEADER_LEN_def)
  have d: "patch_counts cs out = take 4 out @ u16_be (cs ! 0) @ u16_be (cs ! 1) @ u16_be (cs ! 2) @ u16_be (cs ! 3) @ drop 12 out"
    using assms by (rule patch_counts_eq)
  show "length (patch_counts cs out) = length out" unfolding d using assms by (simp add: DNS_HEADER_LEN_def)
  show "patch_counts cs out ! i = out ! i" if "DNS_HEADER_LEN \<le> i" "i < length out"
  proof -
    have "patch_counts cs out = (take 4 out @ u16_be (cs ! 0) @ u16_be (cs ! 1) @ u16_be (cs ! 2) @ u16_be (cs ! 3)) @ drop 12 out"
      by (simp add: d)
    then show ?thesis using assms that by (simp only: nth_append) (simp add: DNS_HEADER_LEN_def)
  qed
  show "section_count (patch_counts cs out) QDCOUNT_AT = unat (cs ! 0)" "section_count (patch_counts cs out) ANCOUNT_AT = unat (cs ! 1)"
    "section_count (patch_counts cs out) NSCOUNT_AT = unat (cs ! 2)" "section_count (patch_counts cs out) ARCOUNT_AT = unat (cs ! 3)"
    unfolding d section_count_def get_slice_def QDCOUNT_AT_def ANCOUNT_AT_def NSCOUNT_AT_def ARCOUNT_AT_def
    using len assms by (auto simp: sub_slice_def u16_be_def DNS_HEADER_LEN_def)
qed

text \<open>From the log to the entries of the finished message.\<close>

lemma log_entries:
  assumes q: "DNS_HEADER_LEN \<le> length q"
    and r: "log_read p q DNS_HEADER_LEN (map (Pair Question) qs @ map (Pair Answer) as @ map (Pair Authority) ns @ map (Pair Additional) ds) stop"
    and n: "section_count q QDCOUNT_AT = length qs" "section_count q ANCOUNT_AT = length as"
      "section_count q NSCOUNT_AT = length ns" "section_count q ARCOUNT_AT = length ds"
  shows "\<exists>es'. entries q = Some es' \<and> list_all2 (\<lambda>(k, e) e'. en_section e' = k \<and> same_entry p e q e')
    (map (Pair Question) qs @ map (Pair Answer) as @ map (Pair Authority) ns @ map (Pair Additional) ds) es'"
proof -
  let ?rel = "list_all2 (\<lambda>(k, e) e'. en_section e' = k \<and> same_entry p e q e')"
  from r obtain a b c where "log_read p q DNS_HEADER_LEN (map (Pair Question) qs) a" "log_read p q a (map (Pair Answer) as) b"
    "log_read p q b (map (Pair Authority) ns) c" "log_read p q c (map (Pair Additional) ds) stop"
    by (auto simp: log_read_append)
  note parts = this[THEN log_read_chained]
  then obtain qs' as' ns' ds' where c: "chained q Question DNS_HEADER_LEN qs' a" "chained q Answer a as' b"
      "chained q Authority b ns' c" "chained q Additional c ds' stop"
    and rel: "?rel (map (Pair Question) qs) qs'" "?rel (map (Pair Answer) as) as'"
      "?rel (map (Pair Authority) ns) ns'" "?rel (map (Pair Additional) ds) ds'" by blast
  have "entries q = Some (qs' @ as' @ ns' @ ds')"
    using entries_four[of q "qs' @ as' @ ns' @ ds'"] q c n rel[THEN list_all2_lengthD] by auto
  then show ?thesis using rel by (blast intro: list_all2_appendI)
qed

lemma trim_start:
  "trim_inv p [] \<lparr>ts_trimmer = \<lparr>tr_out = take DNS_HEADER_LEN p, tr_placed = replicate (length p) UNPLACED\<rparr>, ts_budget = b,
     ts_counts = [0, 0, 0, 0], ts_removed = 0, ts_answered = False, ts_refilled = False\<rparr> \<longleftrightarrow> DNS_HEADER_LEN \<le> length p"
proof -
  have "[0, 0, 0, 0] ! section_index k = (0 :: u16)" for k by (cases k) (simp_all add: numeral_eq_Suc)
  then show ?thesis by (auto simp: trim_inv_def trimmer_inv_def log_ok_def)
qed

lemma trim_keeps_log:
  assumes t: "trim p keep refill = Some (out, removed)" and K: "verdict keep K" and es: "entries p = Some es"
  shows "length out \<le> length p \<and>
    (\<exists>es'. entries out = Some es' \<and>
       list_all2 (\<lambda>(k, e) e'. en_section e' = k \<and> same_entry p e out e') (trim_log K refill es) es')"
proof -
  from t es obtain s where p: "DNS_HEADER_LEN \<le> length p"
    and tr: "trim_entries p keep refill es es \<lparr>ts_trimmer = \<lparr>tr_out = take DNS_HEADER_LEN p, tr_placed = replicate (length p) UNPLACED\<rparr>,
        ts_budget = budget_for p, ts_counts = [0, 0, 0, 0], ts_removed = 0, ts_answered = False, ts_refilled = False\<rparr> = Some s"
    and out: "out = patch_counts (ts_counts s) (tr_out (ts_trimmer s))" "length (tr_out (ts_trimmer s)) \<le> length p"
    by (auto simp: trim_def get_slice_def sub_slice_def Let_def split: option.splits if_splits)
  from es p entries_four[of p es] obtain qs as ns ds a b c d where four: "es = qs @ as @ ns @ ds"
    and ch: "chained p Question DNS_HEADER_LEN qs a" "chained p Answer a as b" "chained p Authority b ns c" "chained p Additional c ds d"
    and cnt: "length qs = section_count p QDCOUNT_AT" "length as = section_count p ANCOUNT_AT"
      "length ns = section_count p NSCOUNT_AT" "length ds = section_count p ARCOUNT_AT" by blast
  note sec = ch[THEN chained_section]
  have small: "section_count p k \<le> 65535" for k
    using unat_u16_lt less_Suc_eq_le by (fastforce simp: section_count_def split: option.splits)
  have fl: "\<forall>x \<in> set xs. en_section x = j \<Longrightarrow> filter (\<lambda>e. en_section e = k) xs = (if j = k then xs else [])" for xs j k
    by (auto simp: filter_id_conv filter_empty_conv)
  have "length (filter (\<lambda>e. en_section e = k) es) \<le> 65535" for k
    using cnt small sec by (cases k) (simp_all add: four fl)
  then have few: "\<forall>k. length (filter (\<lambda>e. en_section e = k) ((qs @ as) @ (ns @ ds))) \<le> 65535" by (simp add: four)
  have es2: "es = (qs @ as) @ (ns @ ds)" by (simp add: four)
  have inv: "trim_inv p (trim_log K refill es) s"
    unfolding es2 using tr[unfolded es2] trim_start[THEN iffD2, OF p]
    by (rule trim_entries_log[OF _ _ _ _ K _ _ _ few]) (use sec in auto)
  from trim_log_sections[of qs as ns ds K refill] sec obtain as' ns' ds' where
    log: "trim_log K refill es = map (Pair Question) (filter K qs) @ map (Pair Answer) as' @ map (Pair Authority) ns' @ map (Pair Additional) ds'"
    by (auto simp: four)
  have o: "DNS_HEADER_LEN \<le> length (tr_out (ts_trimmer s))" using inv by (simp add: trim_inv_def)
  note reads = patch_counts_reads[OF o, where cs = "ts_counts s", folded out(1)]
  have "log_read p out DNS_HEADER_LEN (trim_log K refill es) (length (tr_out (ts_trimmer s)))"
    using inv reads(1,2) by (auto simp: trim_inv_def log_ok_def)
  moreover have "unat (ts_counts s ! section_index k) = length (in_section k (trim_log K refill es))" for k
    using inv unfolding trim_inv_def by blast
  note this[of Question] this[of Answer] this[of Authority] this[of Additional]
  ultimately show ?thesis
    using log_entries[of out p "filter K qs" as' ns' ds'] reads o out by (simp add: log filter_map comp_def numeral_eq_Suc)
qed

text \<open>C23. Trimming an mDNS message drops what the filter drops and changes nothing else. When \<^verbatim>\<open>trim\<close> returns a
  message, that message is well formed and no longer than the original, and walking it with \<^verbatim>\<open>Entries\<close>
  yields, section by section and in order, exactly the entries the filter kept (with the back entries
  \<^verbatim>\<open>refill\<close> picks moved into an answer section that came out empty), each with the owner name, the type,
  class and TTL and the rdata it had, compressed names inside the rdata included.\<close>

theorem trim_keeps_exactly:
  assumes t: "trim p keep refill = Some (out, removed)" and K: "verdict keep K" and es: "entries p = Some es"
  shows "length out \<le> length p \<and>
    (\<exists>es'. entries out = Some es' \<and>
       list_all2 (\<lambda>(k, e) e'. en_section e' = k \<and> same_entry p e out e') (trim_log K refill es) es')"
  using assms by (rule trim_keeps_log)

text \<open>A response whose address record is dropped, so that the name of the other record, which pointed into it,
  is spelled out, and the pointer in its rdata follows.\<close>

theorem trim_keeps_exactly_witness:
  "let p = [0, 0, 0x84, 0, 0, 0, 0, 2, 0, 0, 0, 0, 1, 97, 0, 0, 1, 0, 1, 0, 0, 0, 9, 0, 1, 7,
            1, 98, 0xc0, 12, 0, 12, 0, 1, 0, 0, 0, 9, 0, 2, 0xc0, 26];
       out = [0, 0, 0x84, 0, 0, 0, 0, 1, 0, 0, 0, 0, 1, 98, 1, 97, 0, 0, 12, 0, 1, 0, 0, 0, 9, 0, 2, 0xc0, 12];
       keep = (\<lambda>e b. Some (en_rtype e \<noteq> 1, b))
   in trim p keep (\<lambda>_. False) = Some (out, 1) \<and>
     (\<exists>es es'. entries p = Some es \<and> entries out = Some es' \<and>
        list_all2 (\<lambda>(k, e) e'. en_section e' = k \<and> same_entry p e out e') (trim_log (\<lambda>e. en_rtype e \<noteq> 1) (\<lambda>_. False) es) es')"
proof -
  define p :: bytes where "p = [0, 0, 0x84, 0, 0, 0, 0, 2, 0, 0, 0, 0, 1, 97, 0, 0, 1, 0, 1, 0, 0, 0, 9, 0, 1, 7,
    1, 98, 0xc0, 12, 0, 12, 0, 1, 0, 0, 0, 9, 0, 2, 0xc0, 26]"
  define out :: bytes where "out = [0, 0, 0x84, 0, 0, 0, 0, 1, 0, 0, 0, 0, 1, 98, 1, 97, 0, 0, 12, 0, 1, 0, 0, 0, 9, 0, 2, 0xc0, 12]"
  have t: "trim p (\<lambda>e b. Some (en_rtype e \<noteq> 1, b)) (\<lambda>_. False) = Some (out, 1)" unfolding p_def out_def by code_simp
  have "entries p \<noteq> None" unfolding p_def by code_simp
  then obtain es where es: "entries p = Some es" by blast
  have K: "verdict (\<lambda>e b. Some (en_rtype e \<noteq> 1, b)) (\<lambda>e. en_rtype e \<noteq> 1)" by (simp add: verdict_def)
  from trim_keeps_exactly[OF t K es] show ?thesis using t es unfolding p_def out_def Let_def by blast
qed

end
