(* ===== verification/Mdns_Filters.thy ===== *)
theory Mdns_Filters
  imports Dns_Trim
begin

text \<open>
  \<^verbatim>\<open>src/src/net/mdns/services.rs\<close> and \<^verbatim>\<open>src/src/net/mdns/addresses.rs\<close>: the DNS-SD service types an mDNS
  entry may be limited to, what that allow-list makes of a message, and the stripping of addresses a client
  on the other link cannot reach. Both filters re-encode through the trimmer of \<open>Dns_Message\<close>, whose
  correctness gives theirs: what they relay names no refused service and offers no unreachable address.
\<close>

section \<open>Service types\<close>

definition MAX_SERVICE_LEN :: nat where "MAX_SERVICE_LEN = 62"

datatype proto = Tcp | Udp

definition proto_from_label :: "bytes \<Rightarrow> proto option" where
  "proto_from_label label =
     (if eq_ignore_ascii_case label (bstr ''_tcp'') then Some Tcp
      else if eq_ignore_ascii_case label (bstr ''_udp'') then Some Udp
      else None)"

fun proto_label :: "proto \<Rightarrow> bytes" where
  "proto_label Tcp = bstr ''_tcp''"
| "proto_label Udp = bstr ''_udp''"

definition LOCAL_SUFFIX :: bytes where "LOCAL_SUFFIX = bstr ''.local''"

record service_type =
  st_service :: bytes
  st_len :: u8
  st_proto :: proto

definition from_wire :: "bytes \<Rightarrow> proto \<Rightarrow> service_type option" where
  "from_wire service proto =
     (if \<not> (1 \<le> length service \<and> length service \<le> MAX_SERVICE_LEN) then None
      else Some \<lparr>st_service = map ascii_lower (write_at 0 service (replicate MAX_SERVICE_LEN 0)),
                 st_len = of_nat (length service), st_proto = proto\<rparr>)"

definition service_of_type :: "service_type \<Rightarrow> bytes" where
  "service_of_type st = take (unat (st_len st)) (st_service st)"

text \<open>\<^verbatim>\<open>[u8]::escape_ascii\<close> of the standard library.\<close>

definition escape_ascii :: "u8 \<Rightarrow> bytes" where
  "escape_ascii b =
     (if b = 9 then bstr [CHR 0x5C, CHR 0x74] else if b = 13 then bstr [CHR 0x5C, CHR 0x72]
      else if b = 10 then bstr [CHR 0x5C, CHR 0x6E]
      else if b \<in> {34, 39, 92} then [92, b]
      else if 32 \<le> b \<and> b \<le> 126 then [b]
      else bstr [CHR 0x5C, CHR 0x78] @ hex_byte b)"

definition service_display :: "service_type \<Rightarrow> bytes" where
  "service_display st = [95] @ concat (map escape_ascii (service_of_type st)) @ [46] @ proto_label (st_proto st)"

definition strip_local :: "bytes \<Rightarrow> bytes" where
  "strip_local s =
     (if length LOCAL_SUFFIX \<le> length s \<and>
         eq_ignore_ascii_case (drop (length s - length LOCAL_SUFFIX) s) LOCAL_SUFFIX
      then take (length s - length LOCAL_SUFFIX) s else s)"

definition service_char :: "u8 \<Rightarrow> bool" where
  "service_char b \<longleftrightarrow> is_ascii_alphanumeric b \<or> b = 45 \<or> b = 95"

definition service_from_str :: "bytes \<Rightarrow> service_type option" where
  "service_from_str s =
     (let s = (case strip_suffix [46] s of Some s' \<Rightarrow> s' | None \<Rightarrow> s);
          s = strip_local s
      in case position (\<lambda>b. b = 46) s of
           None \<Rightarrow> None
         | Some dot \<Rightarrow>
             (case proto_from_label (drop (dot + 1) s) of
                None \<Rightarrow> None
              | Some proto \<Rightarrow>
                  (case strip_prefix [95] (take dot s) of
                     None \<Rightarrow> None
                   | Some service \<Rightarrow> if list_all service_char service then from_wire service proto else None)))"

definition services_rule :: "service_type list_rule" where
  "services_rule =
     \<lparr>lr_noun = ''service type'',
      lr_refuse = \<lambda>item. if service_of_type item = bstr ''dns-sd''
                         then Some ''names DNS-SD's own records, not a service'' else None\<rparr>"

definition MAX_NAMED_REFUSALS :: nat where "MAX_NAMED_REFUSALS = 8"

section \<open>The allow-list\<close>

datatype decision =
    DecisionPass
  | DecisionRefuse "service_type list"
  | DecisionTrim bytes nat "service_type list"
  | DecisionMalformed

datatype scope = ScopePass | ScopeRefuse | ScopeTrim

text \<open>The filter of a leg. Its trimmer and its list of refusals are scratch that every \<^verbatim>\<open>decide\<close> clears before
  use, so nothing of one message reaches the next: the allow-list is its whole state.\<close>

record service_filter =
  sf_allowed :: "service_type list"

definition service_filter_new :: "service_type list \<Rightarrow> service_filter" where
  "service_filter_new allowed = \<lparr>sf_allowed = allowed\<rparr>"

text \<open>The loop of \<^verbatim>\<open>service_of\<close> over the labels: the pair nearest the domain wins.\<close>

fun service_scan :: "bytes option \<Rightarrow> (bytes \<times> proto) option \<Rightarrow> bytes list \<Rightarrow> (bytes \<times> proto) option" where
  "service_scan previous found [] = found"
| "service_scan previous found (label # ls) =
     service_scan (Some label)
       (case (previous, proto_from_label label) of
          (Some service, Some proto) \<Rightarrow>
            (case strip_prefix [95] service of
               Some service \<Rightarrow> if eq_ignore_ascii_case service (bstr ''dns-sd'') then found else Some (service, proto)
             | None \<Rightarrow> found)
        | _ \<Rightarrow> found) ls"

definition service_of :: "bytes \<Rightarrow> nat \<Rightarrow> nat \<Rightarrow> ((bytes \<times> proto) option \<times> nat) option" where
  "service_of payload at budget = map_option (\<lambda>(ls, b). (service_scan None None ls, b)) (labels payload at budget)"

definition entry_service :: "dns_entry \<Rightarrow> bytes \<Rightarrow> nat \<Rightarrow> ((bytes \<times> proto) option \<times> nat) option" where
  "entry_service e payload budget =
     (if en_rtype e = TYPE_PTR \<and> en_rdata e < en_end e then
        (case service_of payload (en_rdata e) budget of
           None \<Rightarrow> None
         | Some (Some service, budget) \<Rightarrow> Some (Some service, budget)
         | Some (None, budget) \<Rightarrow> service_of payload (en_name e) budget)
      else service_of payload (en_name e) budget)"

definition allows :: "service_type list \<Rightarrow> bytes \<times> proto \<Rightarrow> bool" where
  "allows allowed sp \<longleftrightarrow> (\<exists>a \<in> set allowed. st_proto a = snd sp \<and> eq_ignore_ascii_case (service_of_type a) (fst sp))"

record assessment =
  as_granted :: bool
  as_any_refused :: bool
  as_unscoped :: bool
  as_answer_scoped :: bool
  as_answer_granted :: bool
  as_answer_unscoped :: bool

abbreviation asked :: "mdns_kind \<Rightarrow> dns_entry \<Rightarrow> bool" where
  "asked kind e \<equiv> (case kind of MdnsQuery \<Rightarrow> en_section e = Question | MdnsResponse \<Rightarrow> en_section e \<noteq> Question)"

definition note_refused :: "service_type list \<Rightarrow> bytes \<times> proto \<Rightarrow> service_type list" where
  "note_refused refused sp =
     (case from_wire (fst sp) (snd sp) of
        Some service \<Rightarrow>
          if length refused < MAX_NAMED_REFUSALS \<and> service \<notin> set refused then refused @ [service] else refused
      | None \<Rightarrow> refused)"

definition judge :: "service_type list \<Rightarrow> dns_entry \<Rightarrow> (bytes \<times> proto) option \<Rightarrow> assessment \<times> service_type list \<Rightarrow> assessment \<times> service_type list" where
  "judge allowed e service st =
     (let (a, refused) = st; answer = (en_section e = Answer) in
      case service of
        None \<Rightarrow> (a\<lparr>as_unscoped := True, as_answer_unscoped := as_answer_unscoped a \<or> answer\<rparr>, refused)
      | Some service \<Rightarrow>
          if allows allowed service then
            (a\<lparr>as_granted := True, as_answer_scoped := as_answer_scoped a \<or> answer,
               as_answer_granted := as_answer_granted a \<or> answer\<rparr>, refused)
          else (a\<lparr>as_any_refused := True, as_answer_scoped := as_answer_scoped a \<or> answer\<rparr>, note_refused refused service))"

fun assess_entries ::
  "bytes \<Rightarrow> service_type list \<Rightarrow> mdns_kind \<Rightarrow> dns_entry list \<Rightarrow> nat \<Rightarrow> assessment \<times> service_type list \<Rightarrow> (assessment \<times> service_type list) option" where
  "assess_entries payload allowed kind [] budget st = Some st"
| "assess_entries payload allowed kind (e # es) budget st =
     (case check_names e payload budget of
        None \<Rightarrow> None
      | Some budget \<Rightarrow>
          if \<not> asked kind e then assess_entries payload allowed kind es budget st
          else (case entry_service e payload budget of
                  None \<Rightarrow> None
                | Some (service, budget) \<Rightarrow> assess_entries payload allowed kind es budget (judge allowed e service st)))"

definition scope_of :: "mdns_kind \<Rightarrow> assessment \<Rightarrow> scope" where
  "scope_of kind a =
     (if \<not> as_any_refused a then ScopePass
      else if kind = MdnsQuery \<and> (as_granted a \<or> as_unscoped a) then ScopePass
      else if kind = MdnsResponse \<and> (as_answer_granted a \<or> as_answer_unscoped a \<and> \<not> as_answer_scoped a) then ScopeTrim
      else ScopeRefuse)"

definition assess :: "bytes \<Rightarrow> service_type list \<Rightarrow> service_type list \<Rightarrow> (scope \<times> service_type list) option" where
  "assess payload allowed refused =
     (case classify payload of
        None \<Rightarrow> None
      | Some kind \<Rightarrow>
          (case entries payload of
             None \<Rightarrow> None
           | Some es \<Rightarrow>
               (case assess_entries payload allowed kind es (budget_for payload)
                       (\<lparr>as_granted = False, as_any_refused = False, as_unscoped = False, as_answer_scoped = False,
                         as_answer_granted = False, as_answer_unscoped = False\<rparr>, refused) of
                  None \<Rightarrow> None
                | Some (a, refused) \<Rightarrow> Some (scope_of kind a, refused))))"

definition service_keep :: "service_type list \<Rightarrow> bytes \<Rightarrow> dns_entry \<Rightarrow> nat \<Rightarrow> (bool \<times> nat) option" where
  "service_keep allowed payload e budget =
     (if en_section e = Question then Some (True, budget)
      else map_option (\<lambda>(service, b). (case service of None \<Rightarrow> True | Some sp \<Rightarrow> allows allowed sp, b))
             (entry_service e payload budget))"

definition decide :: "service_filter \<Rightarrow> bytes \<Rightarrow> decision" where
  "decide f payload =
     (case assess payload (sf_allowed f) [] of
        None \<Rightarrow> DecisionMalformed
      | Some (ScopePass, refused) \<Rightarrow> DecisionPass
      | Some (ScopeRefuse, refused) \<Rightarrow> DecisionRefuse refused
      | Some (ScopeTrim, refused) \<Rightarrow>
          (case trim payload (service_keep (sf_allowed f) payload) (\<lambda>_. False) of
             Some (out, removed) \<Rightarrow> DecisionTrim out removed refused
           | None \<Rightarrow> DecisionMalformed))"

section \<open>Advertised addresses\<close>

record advertised_flags =
  ad_usable :: bool
  ad_unreachable :: bool

definition is_unreachable :: "ipaddr \<Rightarrow> bool" where
  "is_unreachable ip \<longleftrightarrow> is_link_local ip \<or> is_never_a_peer ip"

definition TYPE_A :: u16 where "TYPE_A = 1"
definition TYPE_AAAA :: u16 where "TYPE_AAAA = 28"

definition address :: "bytes \<Rightarrow> dns_entry \<Rightarrow> ipaddr option" where
  "address payload e =
     (case get_slice (en_rdata e) (en_end e) payload of
        None \<Rightarrow> None
      | Some rdata \<Rightarrow>
          if en_rtype e = TYPE_A then (if length rdata = 4 then Some (V4 (of_be_bytes rdata)) else None)
          else if en_rtype e = TYPE_AAAA then (if length rdata = 16 then Some (V6 (of_be_bytes rdata)) else None)
          else None)"

definition advertise :: "bytes \<Rightarrow> dns_entry \<Rightarrow> advertised_flags \<Rightarrow> advertised_flags" where
  "advertise payload e a =
     (let ip = address payload e;
          unreachable = (case ip of Some ip \<Rightarrow> is_unreachable ip | None \<Rightarrow> False)
      in a\<lparr>ad_usable := ad_usable a \<or> (ip \<noteq> None \<and> \<not> unreachable), ad_unreachable := ad_unreachable a \<or> unreachable\<rparr>)"

definition advertised :: "bytes \<Rightarrow> advertised_flags option" where
  "advertised payload =
     map_option (\<lambda>es. fold (advertise payload) es \<lparr>ad_usable = False, ad_unreachable = False\<rparr>) (entries payload)"

definition advertises_only_unreachable :: "bytes \<Rightarrow> bool" where
  "advertises_only_unreachable payload \<longleftrightarrow>
     (case advertised payload of Some a \<Rightarrow> ad_unreachable a \<and> \<not> ad_usable a | None \<Rightarrow> False)"

definition strip_keep :: "bytes \<Rightarrow> dns_entry \<Rightarrow> nat \<Rightarrow> (bool \<times> nat) option" where
  "strip_keep payload e budget =
     Some (\<not> (case address payload e of Some ip \<Rightarrow> is_unreachable ip | None \<Rightarrow> False), budget)"

definition strip_refill :: "bytes \<Rightarrow> dns_entry \<Rightarrow> bool" where
  "strip_refill payload e \<longleftrightarrow> (case address payload e of Some ip \<Rightarrow> \<not> is_unreachable ip | None \<Rightarrow> False)"

definition strip :: "bytes \<Rightarrow> (bytes \<times> nat) option" where
  "strip payload =
     (case advertised payload of
        None \<Rightarrow> None
      | Some a \<Rightarrow>
          if \<not> (ad_usable a \<and> ad_unreachable a) then None
          else trim payload (strip_keep payload) (strip_refill payload))"

section \<open>What the filters relay\<close>

lemma service_of_name: "service_of p at b = Some (sv, b') \<Longrightarrow> \<exists>ls. name_at p at ls \<and> sv = service_scan None None ls"
  using labels_bounds(1) by (fastforce simp: service_of_def)

text \<open>The service of an entry, read off the names it carries.\<close>

definition service_spec :: "bytes \<Rightarrow> dns_entry \<Rightarrow> (bytes \<times> proto) option \<Rightarrow> bool" where
  "service_spec p e sv \<longleftrightarrow>
     (\<exists>ls. name_at p (en_name e) ls \<and> sv = service_scan None None ls) \<and> \<not> (en_rtype e = TYPE_PTR \<and> en_rdata e < en_end e) \<or>
     en_rtype e = TYPE_PTR \<and> en_rdata e < en_end e \<and>
       (\<exists>tg. name_at p (en_rdata e) tg \<and>
          (if service_scan None None tg = None then \<exists>ls. name_at p (en_name e) ls \<and> sv = service_scan None None ls
           else sv = service_scan None None tg))"

lemma entry_service_spec: "entry_service e p b = Some (sv, b') \<Longrightarrow> service_spec p e sv"
proof (cases "en_rtype e = TYPE_PTR \<and> en_rdata e < en_end e")
  case True
  assume a: "entry_service e p b = Some (sv, b')"
  then obtain s1 b1 where s1: "service_of p (en_rdata e) b = Some (s1, b1)"
    using True by (auto simp: entry_service_def split: option.splits)
  from service_of_name[OF s1] obtain tg where tg: "name_at p (en_rdata e) tg" "s1 = service_scan None None tg" by blast
  show ?thesis
  proof (cases s1)
    case None
    then have "service_of p (en_name e) b1 = Some (sv, b')" using a s1 True by (simp add: entry_service_def)
    from service_of_name[OF this] tg None True show ?thesis by (auto simp: service_spec_def)
  next
    case (Some x)
    then show ?thesis using a s1 True tg by (auto simp: service_spec_def entry_service_def)
  qed
next
  case False
  assume "entry_service e p b = Some (sv, b')"
  then show ?thesis using False service_of_name by (auto simp: service_spec_def entry_service_def)
qed

lemma service_spec_unique: "service_spec p e sv \<Longrightarrow> service_spec p e sv' \<Longrightarrow> sv' = sv"
  by (auto simp: service_spec_def split: if_splits dest: name_at_unique)

lemma same_entry_ptr:
  assumes "same_entry p e q e'" "entry_wf q e'" "en_rtype e = TYPE_PTR"
  shows "en_rdata e' < en_end e' \<longleftrightarrow> en_section e \<noteq> Question \<and> en_rdata e < en_end e"
    and "en_section e \<noteq> Question \<Longrightarrow> en_rdata e < en_end e \<Longrightarrow> \<exists>tg. name_at p (en_rdata e) tg \<and> name_at q (en_rdata e') tg"
proof -
  have n: "rdata_names_of TYPE_PTR = Some \<lparr>rn_offset = 0, rn_count = 1\<rparr>" by (simp add: rdata_names_of_def)
  show "en_rdata e' < en_end e' \<longleftrightarrow> en_section e \<noteq> Question \<and> en_rdata e < en_end e"
  proof (cases "en_section e = Question")
    case True
    then show ?thesis using assms by (auto simp: same_entry_def entry_wf_def)
  next
    case False
    then have "rdata_copied p UNIV e q (en_rdata e') (en_end e')" using assms by (simp add: same_entry_def)
    then show ?thesis using False assms(3) n
      by (auto simp: rdata_copied_def entry_rdata_names_def sub_slice_def split: if_splits)
  qed
  assume "en_section e \<noteq> Question" "en_rdata e < en_end e"
  then show "\<exists>tg. name_at p (en_rdata e) tg \<and> name_at q (en_rdata e') tg"
    using assms n by (auto simp: same_entry_def rdata_copied_def entry_rdata_names_def numeral_eq_Suc dest: packed_name_at)
qed

lemma same_entry_service:
  assumes same: "same_entry p e q e'" and wf: "entry_wf p e" "entry_wf q e'"
    and sv: "service_spec p e sv" "service_spec q e' sv'"
  shows "sv' = sv"
proof -
  from same obtain ls where ls: "name_at p (en_name e) ls" "name_at q (en_name e') ls" and ty: "en_rtype e' = en_rtype e"
    by (auto simp: same_entry_def)
  have uniq: "name_at p (en_name e) xs \<Longrightarrow> xs = ls" "name_at q (en_name e') xs \<Longrightarrow> xs = ls" for xs
    using ls name_at_unique by blast+
  have qu: "en_section e = Question \<Longrightarrow> \<not> en_rdata e < en_end e" using wf(1) by (simp add: entry_wf_def)
  show ?thesis
  proof (cases "en_rtype e = TYPE_PTR \<and> en_rdata e < en_end e")
    case True
    then have s: "en_section e \<noteq> Question" using qu by auto
    from same_entry_ptr[OF same wf(2)] True s obtain tg where tg: "name_at p (en_rdata e) tg" "name_at q (en_rdata e') tg"
      and lt: "en_rdata e' < en_end e'" by blast
    have "service_scan None None tg = None \<Longrightarrow> sv = service_scan None None ls \<and> sv' = service_scan None None ls"
      "service_scan None None tg \<noteq> None \<Longrightarrow> sv = service_scan None None tg \<and> sv' = service_scan None None tg"
      using sv True lt ty uniq name_at_unique[OF tg(1)] name_at_unique[OF tg(2)] by (auto simp: service_spec_def split: if_splits)
    then show ?thesis by metis
  next
    case False
    then have "\<not> (en_rtype e' = TYPE_PTR \<and> en_rdata e' < en_end e')" using same_entry_ptr(1)[OF same wf(2)] ty by auto
    then show ?thesis using sv False uniq by (auto simp: service_spec_def)
  qed
qed

subsection \<open>The allow-list\<close>

definition scoped :: "bytes \<Rightarrow> dns_entry \<Rightarrow> bool" where
  "scoped p e \<longleftrightarrow> (\<exists>sp. service_spec p e (Some sp))"

definition granted :: "service_type list \<Rightarrow> bytes \<Rightarrow> dns_entry \<Rightarrow> bool" where
  "granted allowed p e \<longleftrightarrow> (\<exists>sp. service_spec p e (Some sp) \<and> allows allowed sp)"

definition refused_by :: "service_type list \<Rightarrow> bytes \<Rightarrow> dns_entry \<Rightarrow> bool" where
  "refused_by allowed p e \<longleftrightarrow> (\<exists>sp. service_spec p e (Some sp) \<and> \<not> allows allowed sp)"

lemma service_cases:
  assumes "service_spec p e sv"
  shows "scoped p e \<longleftrightarrow> sv \<noteq> None" "granted allowed p e \<longleftrightarrow> (\<exists>sp. sv = Some sp \<and> allows allowed sp)"
    "refused_by allowed p e \<longleftrightarrow> (\<exists>sp. sv = Some sp \<and> \<not> allows allowed sp)"
  using assms service_spec_unique unfolding scoped_def granted_def refused_by_def by (blast, blast, blast)

lemma assess_entries_flags:
  assumes "assess_entries p allowed kind es b (a0, r0) = Some (a, r)"
  shows "(as_any_refused a \<longleftrightarrow> as_any_refused a0 \<or> (\<exists>e \<in> set es. asked kind e \<and> refused_by allowed p e)) \<and>
    (as_granted a \<longleftrightarrow> as_granted a0 \<or> (\<exists>e \<in> set es. asked kind e \<and> granted allowed p e)) \<and>
    (as_unscoped a \<longleftrightarrow> as_unscoped a0 \<or> (\<exists>e \<in> set es. asked kind e \<and> \<not> scoped p e)) \<and>
    (as_answer_scoped a \<longleftrightarrow> as_answer_scoped a0 \<or> (\<exists>e \<in> set es. asked kind e \<and> en_section e = Answer \<and> scoped p e)) \<and>
    (as_answer_granted a \<longleftrightarrow> as_answer_granted a0 \<or> (\<exists>e \<in> set es. asked kind e \<and> en_section e = Answer \<and> granted allowed p e)) \<and>
    (as_answer_unscoped a \<longleftrightarrow> as_answer_unscoped a0 \<or> (\<exists>e \<in> set es. asked kind e \<and> en_section e = Answer \<and> \<not> scoped p e)) \<and>
    (\<forall>e \<in> set es. asked kind e \<longrightarrow> (\<exists>sv. service_spec p e sv))"
  using assms
proof (induction es arbitrary: b a0 r0)
  case (Cons e es)
  from Cons.prems obtain b1 where b1: "check_names e p b = Some b1" by (auto split: option.splits)
  show ?case
  proof (cases "asked kind e")
    case False
    then have "assess_entries p allowed kind es b1 (a0, r0) = Some (a, r)" using Cons.prems b1 by simp
    from Cons.IH[OF this] show ?thesis using False by simp
  next
    case True
    then obtain sv b2 where sv: "entry_service e p b1 = Some (sv, b2)"
      and rest: "assess_entries p allowed kind es b2 (judge allowed e sv (a0, r0)) = Some (a, r)"
      using Cons.prems b1 by (auto split: option.splits)
    obtain a1 r1 where j: "judge allowed e sv (a0, r0) = (a1, r1)" by fastforce
    note spec = entry_service_spec[OF sv]
    note flags = service_cases(1)[OF spec] service_cases(2,3)[OF spec, of allowed]
    have "as_any_refused a1 \<longleftrightarrow> as_any_refused a0 \<or> refused_by allowed p e" "as_granted a1 \<longleftrightarrow> as_granted a0 \<or> granted allowed p e"
      "as_unscoped a1 \<longleftrightarrow> as_unscoped a0 \<or> \<not> scoped p e" "as_answer_scoped a1 \<longleftrightarrow> as_answer_scoped a0 \<or> en_section e = Answer \<and> scoped p e"
      "as_answer_granted a1 \<longleftrightarrow> as_answer_granted a0 \<or> en_section e = Answer \<and> granted allowed p e"
      "as_answer_unscoped a1 \<longleftrightarrow> as_answer_unscoped a0 \<or> en_section e = Answer \<and> \<not> scoped p e"
      using j unfolding flags by (cases sv; force simp: judge_def Let_def split: if_splits)+
    moreover have "\<exists>sv. service_spec p e sv" using spec by blast
    ultimately show ?thesis using Cons.IH[OF rest[unfolded j]] by (simp add: True disj_assoc)
  qed
qed simp

lemma assess_flags:
  assumes "assess_entries p allowed kind es b (\<lparr>as_granted = False, as_any_refused = False, as_unscoped = False,
    as_answer_scoped = False, as_answer_granted = False, as_answer_unscoped = False\<rparr>, r0) = Some (a, r)"
  shows "as_any_refused a \<longleftrightarrow> (\<exists>e \<in> set es. asked kind e \<and> refused_by allowed p e)"
    "as_granted a \<longleftrightarrow> (\<exists>e \<in> set es. asked kind e \<and> granted allowed p e)"
    "as_unscoped a \<longleftrightarrow> (\<exists>e \<in> set es. asked kind e \<and> \<not> scoped p e)"
    "as_answer_scoped a \<longleftrightarrow> (\<exists>e \<in> set es. asked kind e \<and> en_section e = Answer \<and> scoped p e)"
    "as_answer_granted a \<longleftrightarrow> (\<exists>e \<in> set es. asked kind e \<and> en_section e = Answer \<and> granted allowed p e)"
    "as_answer_unscoped a \<longleftrightarrow> (\<exists>e \<in> set es. asked kind e \<and> en_section e = Answer \<and> \<not> scoped p e)"
    "\<forall>e \<in> set es. asked kind e \<longrightarrow> (\<exists>sv. service_spec p e sv)"
  using assess_entries_flags[OF assms] by simp_all

text \<open>What a message comes to, whatever its kind: the flags of \<^verbatim>\<open>assess\<close> in terms of its entries.\<close>

lemma assess_scope:
  assumes "assess p allowed refused = Some (sc, r)"
  obtains kind es where "classify p = Some kind" "entries p = Some es"
    "\<forall>e \<in> set es. asked kind e \<longrightarrow> (\<exists>sv. service_spec p e sv)"
    "sc = ScopePass \<longleftrightarrow> \<not> (\<exists>e \<in> set es. asked kind e \<and> refused_by allowed p e) \<or>
       kind = MdnsQuery \<and> (\<exists>e \<in> set es. asked kind e \<and> \<not> refused_by allowed p e)"
    "sc = ScopeTrim \<longleftrightarrow> kind = MdnsResponse \<and> (\<exists>e \<in> set es. asked kind e \<and> refused_by allowed p e) \<and>
       ((\<exists>e \<in> set es. en_section e = Answer \<and> granted allowed p e) \<or>
        (\<exists>e \<in> set es. en_section e = Answer) \<and> (\<forall>e \<in> set es. en_section e = Answer \<longrightarrow> \<not> scoped p e))"
proof -
  let ?a0 = "\<lparr>as_granted = False, as_any_refused = False, as_unscoped = False, as_answer_scoped = False,
    as_answer_granted = False, as_answer_unscoped = False\<rparr>"
  from assms obtain kind es a where h: "classify p = Some kind" "entries p = Some es"
    "assess_entries p allowed kind es (budget_for p) (?a0, refused) = Some (a, r)" "sc = scope_of kind a"
    by (auto simp: assess_def split: option.splits)
  note flags = assess_flags[OF h(3)]
  have split: "granted allowed p e \<or> \<not> scoped p e \<longleftrightarrow> \<not> refused_by allowed p e" if "e \<in> set es" "asked kind e" for e
  proof -
    from flags(7) that obtain sv where "service_spec p e sv" by blast
    from service_cases(1)[OF this] service_cases(2,3)[OF this, of allowed] show ?thesis by (cases sv) auto
  qed
  have ans: "asked MdnsResponse e" if "en_section e = Answer" for e using that by simp
  show ?thesis
  proof (rule that[OF h(1,2)])
    show "\<forall>e \<in> set es. asked kind e \<longrightarrow> (\<exists>sv. service_spec p e sv)" by (rule flags(7))
    have "as_granted a \<or> as_unscoped a \<longleftrightarrow> (\<exists>e \<in> set es. asked kind e \<and> \<not> refused_by allowed p e)"
      unfolding flags(2,3) using split by blast
    moreover note flags(1)
    ultimately show "sc = ScopePass \<longleftrightarrow> \<not> (\<exists>e \<in> set es. asked kind e \<and> refused_by allowed p e) \<or>
       kind = MdnsQuery \<and> (\<exists>e \<in> set es. asked kind e \<and> \<not> refused_by allowed p e)"
      using h(4) by (auto simp: scope_of_def)
    show "sc = ScopeTrim \<longleftrightarrow> kind = MdnsResponse \<and> (\<exists>e \<in> set es. asked kind e \<and> refused_by allowed p e) \<and>
       ((\<exists>e \<in> set es. en_section e = Answer \<and> granted allowed p e) \<or>
        (\<exists>e \<in> set es. en_section e = Answer) \<and> (\<forall>e \<in> set es. en_section e = Answer \<longrightarrow> \<not> scoped p e))"
    proof (cases kind)
      case MdnsQuery
      then show ?thesis using h(4) by (auto simp: scope_of_def)
    next
      case MdnsResponse
      then have "as_answer_granted a \<longleftrightarrow> (\<exists>e \<in> set es. en_section e = Answer \<and> granted allowed p e)"
        "as_answer_unscoped a \<and> \<not> as_answer_scoped a \<longleftrightarrow>
           (\<exists>e \<in> set es. en_section e = Answer) \<and> (\<forall>e \<in> set es. en_section e = Answer \<longrightarrow> \<not> scoped p e)"
        unfolding flags(4-6) using ans by fastforce+
      then show ?thesis using MdnsResponse h(4) flags(1) by (auto simp: scope_of_def)
    qed
  qed
qed

definition service_kept :: "service_type list \<Rightarrow> bytes \<Rightarrow> dns_entry \<Rightarrow> bool" where
  "service_kept allowed p e \<longleftrightarrow> en_section e = Question \<or> (\<exists>sv. service_spec p e sv \<and> (\<forall>sp. sv = Some sp \<longrightarrow> allows allowed sp))"

lemma service_keep_verdict: "verdict (service_keep allowed p) (service_kept allowed p)"
  unfolding verdict_def
proof (intro allI impI)
  fix e b k b' assume h: "service_keep allowed p e b = Some (k, b')"
  show "k = service_kept allowed p e"
  proof (cases "en_section e = Question")
    case True
    then show ?thesis using h by (simp add: service_keep_def service_kept_def)
  next
    case False
    then obtain sv where sv: "entry_service e p b = Some (sv, b')" "k = (case sv of None \<Rightarrow> True | Some sp \<Rightarrow> allows allowed sp)"
      using h by (auto simp: service_keep_def)
    from entry_service_spec[OF sv(1)] have "service_kept allowed p e \<longleftrightarrow> (\<forall>sp. sv = Some sp \<longrightarrow> allows allowed sp)"
      using False service_spec_unique unfolding service_kept_def by blast
    then show ?thesis using sv(2) by (auto split: option.splits)
  qed
qed

lemma list_all2_in: "list_all2 P xs ys \<Longrightarrow> y \<in> set ys \<Longrightarrow> \<exists>x \<in> set xs. P x y"
  by (induction rule: list_all2_induct) auto

lemma list_all2_in': "list_all2 P xs ys \<Longrightarrow> x \<in> set xs \<Longrightarrow> \<exists>y \<in> set ys. P x y"
  by (induction rule: list_all2_induct) auto

lemma entries_wf:
  assumes "entries p = Some es" "e \<in> set es"
  shows "entry_wf p e"
proof (cases "DNS_HEADER_LEN \<le> length p")
  case True
  with assms entries_four[of p es] show ?thesis by (auto dest!: chained_section)
next
  case False
  with assms show ?thesis by (simp add: entries_def)
qed

text \<open>C21. A response relayed through an mDNS allow-list names no service the list refuses, and keeps everything else.
  When \<^verbatim>\<open>decide\<close> trims a response, the message it relays is well formed, no longer than the original, and
  holds exactly the questions and the records that fall under no refused service, each unchanged and in
  its section and order; at least one answer is among them; and no record of the relayed message, read
  by the same walk, falls under a service outside the list.\<close>

theorem decide_trim_exact:
  assumes "decide f p = DecisionTrim out removed refused"
  shows "length out \<le> length p \<and>
    (\<exists>es es'. entries p = Some es \<and> entries out = Some es' \<and>
       list_all2 (\<lambda>e e'. en_section e' = en_section e \<and> same_entry p e out e') (filter (service_kept (sf_allowed f) p) es) es' \<and>
       (\<exists>e' \<in> set es'. en_section e' = Answer) \<and>
       (\<forall>e' \<in> set es'. en_section e' \<noteq> Question \<longrightarrow>
          (\<forall>b sp b'. entry_service e' out b = Some (Some sp, b') \<longrightarrow> allows (sf_allowed f) sp)))"
proof -
  let ?K = "service_kept (sf_allowed f) p"
  from assms have a: "assess p (sf_allowed f) [] = Some (ScopeTrim, refused)"
    and t: "trim p (service_keep (sf_allowed f) p) (\<lambda>_. False) = Some (out, removed)"
    by (auto simp: decide_def split: option.splits scope.splits)
  obtain kind es where es0: "classify p = Some kind" and es: "entries p = Some es"
    "\<forall>e \<in> set es. asked kind e \<longrightarrow> (\<exists>sv. service_spec p e sv)"
    and "ScopeTrim = ScopePass \<longleftrightarrow> \<not> (\<exists>e \<in> set es. asked kind e \<and> refused_by (sf_allowed f) p e) \<or>
       kind = MdnsQuery \<and> (\<exists>e \<in> set es. asked kind e \<and> \<not> refused_by (sf_allowed f) p e)"
    and sc: "ScopeTrim = ScopeTrim \<longleftrightarrow> kind = MdnsResponse \<and> (\<exists>e \<in> set es. asked kind e \<and> refused_by (sf_allowed f) p e) \<and>
       ((\<exists>e \<in> set es. en_section e = Answer \<and> granted (sf_allowed f) p e) \<or>
        (\<exists>e \<in> set es. en_section e = Answer) \<and> (\<forall>e \<in> set es. en_section e = Answer \<longrightarrow> \<not> scoped p e))"
    by (rule assess_scope[OF a])
  have kept: "\<exists>e \<in> set es. en_section e = Answer \<and> ?K e"
  proof -
    from sc obtain e where e: "e \<in> set es" "en_section e = Answer" "granted (sf_allowed f) p e \<or> \<not> scoped p e" by blast
    moreover from sc have "kind = MdnsResponse" by blast
    ultimately obtain sv where "service_spec p e sv" using es(2) by force
    moreover from this have "\<forall>sp. sv = Some sp \<longrightarrow> allows (sf_allowed f) sp"
      using e(3) service_cases(1) service_cases(2)[of p e sv "sf_allowed f"] by auto
    ultimately show ?thesis using e by (auto simp: service_kept_def)
  qed
  then have "trim_log ?K (\<lambda>_. False) es = map tag (filter ?K es)" by (simp add: trim_log_def)
  from trim_keeps_log[OF t service_keep_verdict es(1)] this obtain es' where len: "length out \<le> length p" and es': "entries out = Some es'"
    and rel: "list_all2 (\<lambda>e e'. en_section e' = en_section e \<and> same_entry p e out e') (filter ?K es) es'"
    by (auto simp: list_all2_map1)
  have "\<exists>e' \<in> set es'. en_section e' = Answer" using kept list_all2_in'[OF rel] by fastforce
  moreover have "allows (sf_allowed f) sp"
    if e': "e' \<in> set es'" "en_section e' \<noteq> Question" "entry_service e' out b = Some (Some sp, b')" for e' b sp b'
  proof -
    from list_all2_in[OF rel e'(1)] obtain e where e: "e \<in> set es" "?K e" "en_section e' = en_section e" "same_entry p e out e'" by auto
    then obtain sv where sv: "service_spec p e sv" "\<forall>sp. sv = Some sp \<longrightarrow> allows (sf_allowed f) sp"
      using e'(2) by (auto simp: service_kept_def)
    have "Some sp = sv"
      using same_entry_service[OF e(4) entries_wf[OF es(1) e(1)] entries_wf[OF es' e'(1)] sv(1) entry_service_spec[OF e'(3)]] .
    with sv(2) show ?thesis by blast
  qed
  ultimately show ?thesis using len es(1) es' rel by blast
qed

text \<open>What the allow-list does with a message it can walk: it passes one in which nothing asked or answered is
  of a refused service, and a query with any question that is not; it refuses a query whose every question is
  of a refused service, and a response with a refused record unless an answer of an allowed service, or
  answers none of which names a service, would remain.\<close>

theorem decide_verdict:
  assumes "decide f p \<noteq> DecisionMalformed"
  shows "\<exists>kind es. classify p = Some kind \<and> entries p = Some es \<and>
    (let refusal = (\<exists>e \<in> set es. asked kind e \<and> refused_by (sf_allowed f) p e) in
     (decide f p = DecisionPass \<longleftrightarrow>
        \<not> refusal \<or> kind = MdnsQuery \<and> (\<exists>e \<in> set es. asked kind e \<and> \<not> refused_by (sf_allowed f) p e)) \<and>
     ((\<exists>r. decide f p = DecisionRefuse r) \<longleftrightarrow>
        refusal \<and>
        (case kind of
           MdnsQuery \<Rightarrow> \<forall>e \<in> set es. en_section e = Question \<longrightarrow> refused_by (sf_allowed f) p e
         | MdnsResponse \<Rightarrow> (\<forall>e \<in> set es. en_section e = Answer \<longrightarrow> \<not> granted (sf_allowed f) p e) \<and>
             ((\<exists>e \<in> set es. en_section e = Answer) \<longrightarrow> (\<exists>e \<in> set es. en_section e = Answer \<and> scoped p e)))))"
proof -
  from assms obtain sc r where a: "assess p (sf_allowed f) [] = Some (sc, r)"
    by (auto simp: decide_def split: option.splits)
  have "decide f p = DecisionPass \<longleftrightarrow> sc = ScopePass" "(\<exists>r. decide f p = DecisionRefuse r) \<longleftrightarrow> sc \<noteq> ScopePass \<and> sc \<noteq> ScopeTrim"
    using a by (auto simp: decide_def split: scope.splits option.splits)
  note d = this
  obtain kind es where h: "classify p = Some kind" "entries p = Some es"
    "\<forall>e \<in> set es. asked kind e \<longrightarrow> (\<exists>sv. service_spec p e sv)"
    "sc = ScopePass \<longleftrightarrow> \<not> (\<exists>e \<in> set es. asked kind e \<and> refused_by (sf_allowed f) p e) \<or>
       kind = MdnsQuery \<and> (\<exists>e \<in> set es. asked kind e \<and> \<not> refused_by (sf_allowed f) p e)"
    "sc = ScopeTrim \<longleftrightarrow> kind = MdnsResponse \<and> (\<exists>e \<in> set es. asked kind e \<and> refused_by (sf_allowed f) p e) \<and>
       ((\<exists>e \<in> set es. en_section e = Answer \<and> granted (sf_allowed f) p e) \<or>
        (\<exists>e \<in> set es. en_section e = Answer) \<and> (\<forall>e \<in> set es. en_section e = Answer \<longrightarrow> \<not> scoped p e))" by (rule assess_scope[OF a])
  have "(\<exists>r. decide f p = DecisionRefuse r) \<longleftrightarrow> (\<exists>e \<in> set es. asked kind e \<and> refused_by (sf_allowed f) p e) \<and>
      (case kind of
         MdnsQuery \<Rightarrow> \<forall>e \<in> set es. en_section e = Question \<longrightarrow> refused_by (sf_allowed f) p e
       | MdnsResponse \<Rightarrow> (\<forall>e \<in> set es. en_section e = Answer \<longrightarrow> \<not> granted (sf_allowed f) p e) \<and>
           ((\<exists>e \<in> set es. en_section e = Answer) \<longrightarrow> (\<exists>e \<in> set es. en_section e = Answer \<and> scoped p e)))"
    unfolding d(2) h(4,5) by (cases kind) auto
  moreover have "decide f p = DecisionPass \<longleftrightarrow> \<not> (\<exists>e \<in> set es. asked kind e \<and> refused_by (sf_allowed f) p e) \<or>
       kind = MdnsQuery \<and> (\<exists>e \<in> set es. asked kind e \<and> \<not> refused_by (sf_allowed f) p e)"
    unfolding d(1) h(4) ..
  ultimately show ?thesis using h(1,2) unfolding Let_def by blast
qed

subsection \<open>Addresses\<close>

lemma same_entry_address:
  assumes same: "same_entry p e q e'" and wf: "entry_wf p e" "entry_wf q e'"
  shows "address q e' = address p e"
proof (cases "en_rtype e = TYPE_A \<or> en_rtype e = TYPE_AAAA")
  case False
  moreover have "en_rtype e' = en_rtype e" using same by (simp add: same_entry_def)
  ultimately show ?thesis by (simp add: address_def split: option.splits)
next
  case True
  have ty: "en_rtype e' = en_rtype e" using same by (simp add: same_entry_def)
  have g: "get_slice (en_rdata e) (en_end e) p = Some (sub_slice (en_rdata e) (en_end e) p)"
    "get_slice (en_rdata e') (en_end e') q = Some (sub_slice (en_rdata e') (en_end e') q)"
    using wf by (simp_all add: entry_wf_def get_slice_def)
  have "sub_slice (en_rdata e') (en_end e') q = sub_slice (en_rdata e) (en_end e) p"
  proof (cases "en_section e = Question")
    case True
    then have "en_end e = en_rdata e" "en_end e' = en_rdata e'" using same wf by (auto simp: same_entry_def entry_wf_def)
    then show ?thesis by (simp add: sub_slice_def)
  next
    case False
    have "entry_rdata_names e = None"
      using True by (auto simp: entry_rdata_names_def rdata_names_of_def TYPE_A_def TYPE_AAAA_def TYPE_PTR_def TYPE_SRV_def)
    then show ?thesis using same False by (simp add: same_entry_def rdata_copied_def)
  qed
  then show ?thesis using g ty by (simp add: address_def)
qed

lemma trim_log_in:
  assumes "e \<in> set es" "K e"
  shows "\<exists>k. (k, e) \<in> set (trim_log K R es)"
proof (cases "\<exists>e \<in> set es. en_section e = Answer \<and> K e")
  case True
  then show ?thesis using assms by (auto simp: trim_log_def)
next
  case False
  then have "(if is_back e \<and> refills R e then Answer else en_section e, e) \<in> set (trim_log K R es)"
    using assms by (auto simp: trim_log_def)
  then show ?thesis by blast
qed

lemma trim_log_answer:
  assumes "(\<exists>e \<in> set es. en_section e = Answer \<and> K e) \<or> (\<exists>e \<in> set es. refills R e)"
  shows "\<exists>e. (Answer, e) \<in> set (trim_log K R es)"
proof (cases "\<exists>e \<in> set es. en_section e = Answer \<and> K e")
  case True
  then obtain e where e: "e \<in> set es" "en_section e = Answer" "K e" by blast
  have "tag e \<in> set (map tag (filter K es))" using e(1,3) by simp
  then have "tag e \<in> set (trim_log K R es)" using True by (simp add: trim_log_def)
  with e show ?thesis by auto
next
  case False
  with assms show ?thesis by (auto simp: trim_log_def)
qed

lemma advertised_flags:
  assumes "entries p = Some es"
  shows "advertised p = Some \<lparr>ad_usable = (\<exists>e \<in> set es. \<exists>ip. address p e = Some ip \<and> \<not> is_unreachable ip),
    ad_unreachable = (\<exists>e \<in> set es. \<exists>ip. address p e = Some ip \<and> is_unreachable ip)\<rparr>"
proof -
  have "fold (advertise p) es a = \<lparr>ad_usable = (ad_usable a \<or> (\<exists>e \<in> set es. \<exists>ip. address p e = Some ip \<and> \<not> is_unreachable ip)),
      ad_unreachable = (ad_unreachable a \<or> (\<exists>e \<in> set es. \<exists>ip. address p e = Some ip \<and> is_unreachable ip))\<rparr>" for a
    by (induction es arbitrary: a) (auto simp: advertise_def Let_def split: option.splits)
  then show ?thesis using assms by (simp add: advertised_def)
qed

text \<open>C22. Stripping a response leaves only addresses a client on the other link can reach. When \<^verbatim>\<open>strip\<close> returns a
  message, it is well formed and no longer than the original; none of its records is an unreachable address;
  every record that is not one is still there, with the same names and contents; and it has an answer, since the
  usable addresses of the other sections move into an answer section the strip emptied.\<close>

theorem strip_offers_reachable:
  assumes "strip p = Some (out, removed)"
  shows "length out \<le> length p \<and>
    (\<exists>es es'. entries p = Some es \<and> entries out = Some es' \<and>
       (\<forall>e' \<in> set es'. \<forall>ip. address out e' = Some ip \<longrightarrow> \<not> is_unreachable ip) \<and>
       (\<forall>e \<in> set es. (\<forall>ip. address p e = Some ip \<longrightarrow> \<not> is_unreachable ip) \<longrightarrow> (\<exists>e' \<in> set es'. same_entry p e out e')) \<and>
       (\<exists>e' \<in> set es'. en_section e' = Answer))"
proof -
  let ?K = "\<lambda>e. \<not> (case address p e of Some ip \<Rightarrow> is_unreachable ip | None \<Rightarrow> False)"
  from assms obtain a where a: "advertised p = Some a" "ad_usable a" and t: "trim p (strip_keep p) (strip_refill p) = Some (out, removed)"
    by (auto simp: strip_def split: option.splits if_splits)
  then obtain es where es: "entries p = Some es" by (auto simp: advertised_def)
  have K: "verdict (strip_keep p) ?K" by (simp add: verdict_def strip_keep_def)
  from trim_keeps_log[OF t K es] obtain es' where len: "length out \<le> length p" and es': "entries out = Some es'"
    and rel: "list_all2 (\<lambda>(k, e) e'. en_section e' = k \<and> same_entry p e out e') (trim_log ?K (strip_refill p) es) es'" by blast
  have sub: "e \<in> set es \<and> ?K e" if "(k, e) \<in> set (trim_log ?K (strip_refill p) es)" for k e
    using that by (auto simp: trim_log_def refills_def strip_refill_def split: if_splits option.splits)
  have sup: "\<exists>k. (k, e) \<in> set (trim_log ?K (strip_refill p) es)" if "e \<in> set es" "?K e" for e
    using that by (rule trim_log_in)
  have "\<not> is_unreachable ip" if e': "e' \<in> set es'" "address out e' = Some ip" for e' ip
  proof -
    from list_all2_in[OF rel e'(1)] obtain k e where ke: "(k, e) \<in> set (trim_log ?K (strip_refill p) es)" "same_entry p e out e'" by auto
    note e = sub[OF ke(1)]
    have "address out e' = address p e" using same_entry_address[OF ke(2)] entries_wf es es' e e'(1) by blast
    with e e'(2) show ?thesis by simp
  qed
  moreover have "\<exists>e' \<in> set es'. same_entry p e out e'" if e: "e \<in> set es" "\<forall>ip. address p e = Some ip \<longrightarrow> \<not> is_unreachable ip" for e
  proof -
    have "?K e" using e(2) by (auto split: option.splits)
    with sup e(1) obtain k where "(k, e) \<in> set (trim_log ?K (strip_refill p) es)" by blast
    from list_all2_in'[OF rel this] show ?thesis by auto
  qed
  moreover have "\<exists>e. (Answer, e) \<in> set (trim_log ?K (strip_refill p) es)"
  proof -
    from a advertised_flags[OF es] obtain e ip where e: "e \<in> set es" "address p e = Some ip" "\<not> is_unreachable ip" by auto
    have "en_section e \<noteq> Question"
    proof
      assume "en_section e = Question"
      then have "en_end e = en_rdata e" using entries_wf[OF es e(1)] by (simp add: entry_wf_def)
      then show False using e(2) by (auto simp: address_def get_slice_def sub_slice_def split: if_splits)
    qed
    then consider "en_section e = Answer" | "refills (strip_refill p) e"
      using e by (cases "en_section e") (auto simp: refills_def strip_refill_def)
    then have "(\<exists>e \<in> set es. en_section e = Answer \<and> ?K e) \<or> (\<exists>e \<in> set es. refills (strip_refill p) e)"
      using e by cases (auto intro!: bexI[of _ e])
    then show ?thesis by (rule trim_log_answer)
  qed
  then have "\<exists>e' \<in> set es'. en_section e' = Answer" using list_all2_in'[OF rel] by fastforce
  ultimately show ?thesis using len es es' by blast
qed

subsection \<open>The text form of a service type\<close>

lemma service_char_facts:
  assumes "service_char b"
  shows "escape_ascii b = [b]" "service_char (ascii_lower b)" "b \<noteq> 46"
proof -
  have n: "unat b \<in> {48..57} \<union> {65..90} \<union> {97..122} \<union> {45, 95}"
    using assms by (auto simp: service_char_def is_ascii_alphanumeric_def is_ascii_digit_def word_le_nat_alt)
  then show "b \<noteq> 46" by auto
  have "b \<notin> {9, 13, 10, 34, 39, 92}" using n by auto
  moreover have "32 \<le> b" "b \<le> 126" using n by (auto simp: word_le_nat_alt)
  ultimately show "escape_ascii b = [b]" by (simp add: escape_ascii_def)
  have "unat (b + 32) = unat b + 32" if "unat b \<le> 90" using that by (simp add: unat_word_ariths(1))
  moreover have "b = 45 \<longleftrightarrow> unat b = 45" "b = 95 \<longleftrightarrow> unat b = 95"
    using unat_word_eq_iff[of b 45] unat_word_eq_iff[of b 95] by simp_all
  ultimately show "service_char (ascii_lower b)"
    using n by (auto simp: service_char_def is_ascii_alphanumeric_def is_ascii_digit_def word_le_nat_alt ascii_lower_def)
qed

lemma from_wire_service:
  assumes "from_wire service proto = Some st"
  shows "service_of_type st = map ascii_lower service" "st_proto st = proto" "service \<noteq> []"
    "from_wire (map ascii_lower service) proto = Some st"
proof -
  have len: "1 \<le> length service" "length service \<le> MAX_SERVICE_LEN"
    and st: "st = \<lparr>st_service = map ascii_lower (write_at 0 service (replicate MAX_SERVICE_LEN 0)), st_len = of_nat (length service), st_proto = proto\<rparr>"
    using assms by (auto simp: from_wire_def split: if_splits)
  then show "service \<noteq> []" "st_proto st = proto" by auto
  have "unat (of_nat (length service) :: u8) = length service" using len by (simp add: MAX_SERVICE_LEN_def unat_of_nat)
  then show "service_of_type st = map ascii_lower service" by (simp add: st service_of_type_def write_at_def)
  show "from_wire (map ascii_lower service) proto = Some st" using len by (simp add: st from_wire_def write_at_def comp_def)
qed

lemma proto_label_facts:
  "proto_label pr = [95, 116, 99, 112] \<or> proto_label pr = [95, 117, 100, 112]"
  "proto_from_label (proto_label pr) = Some pr"
  by (cases pr; simp add: bstr_def of_char_of proto_from_label_def eq_ignore_ascii_case_def ascii_lower_def)+

lemma service_display_parses:
  assumes "list_all service_char svc"
  shows "service_from_str ([95] @ svc @ [46] @ proto_label pr) = from_wire svc pr"
proof -
  let ?s = "[95] @ svc @ [46] @ proto_label pr"
  have dot: "strip_suffix [46] ?s = None" using proto_label_facts(1)[of pr] by (auto simp: strip_suffix_def)
  have suf: "LOCAL_SUFFIX = [46, 108, 111, 99, 97, 108]" by code_simp
  have "\<not> eq_ignore_ascii_case (drop (length ?s - 6) ?s) LOCAL_SUFFIX"
  proof
    assume "eq_ignore_ascii_case (drop (length ?s - 6) ?s) LOCAL_SUFFIX"
    then have "drop 2 (map ascii_lower (drop (length ?s - 6) ?s)) = drop 2 (map ascii_lower LOCAL_SUFFIX)"
      by (simp add: eq_ignore_ascii_case_def)
    then have "map ascii_lower (drop (2 + (length ?s - 6)) ?s) = map ascii_lower [111, 99, 97, 108]"
      by (simp add: drop_map suf)
    moreover have "2 + (length ?s - 6) = length svc + 2" using proto_label_facts(1)[of pr] by auto
    ultimately have "map ascii_lower (proto_label pr) = map ascii_lower [111, 99, 97, 108]" by simp
    then show False using proto_label_facts(1)[of pr] by (auto simp: ascii_lower_def)
  qed
  moreover have six: "length LOCAL_SUFFIX = 6" by (simp add: suf)
  ultimately have local: "strip_local ?s = ?s" unfolding strip_local_def six by (simp only: simp_thms if_False)
  have "position (\<lambda>b. b = 46) (svc @ 46 # xs) = Some (length svc)" for xs
    using assms by (induction svc) (auto dest: service_char_facts(3))
  then have pos: "position (\<lambda>b. b = 46) ?s = Some (Suc (length svc))" by simp
  show ?thesis
    unfolding service_from_str_def dot option.case Let_def local pos
    using assms proto_label_facts(2)[of pr] by (simp add: strip_prefix_def starts_with_def)
qed

text \<open>A service type the configuration accepts prints as text that parses back to the same type, so what the log
  and the configuration say agree; and two spellings of a type that differ in case are the same type.\<close>

theorem service_text_roundtrip:
  assumes "service_from_str s = Some st"
  shows "service_from_str (service_display st) = Some st \<and>
    (\<exists>svc. from_wire svc (st_proto st) = Some st \<and> list_all service_char svc \<and>
       (\<forall>other st'. eq_ignore_ascii_case other svc \<longrightarrow> from_wire other (st_proto st) = Some st' \<longrightarrow> st' = st))"
proof -
  from assms obtain svc pr where w: "from_wire svc pr = Some st" "list_all service_char svc"
    by (auto simp: service_from_str_def Let_def split: option.splits if_splits)
  note f = from_wire_service[OF w(1)]
  have lower: "list_all service_char (map ascii_lower svc)" using w(2) by (auto simp: list_all_iff service_char_facts(2))
  then have "concat (map escape_ascii (map ascii_lower svc)) = map ascii_lower svc"
    by (induction svc) (auto simp: service_char_facts(1))
  then have "service_display st = [95] @ map ascii_lower svc @ [46] @ proto_label pr" using f by (simp add: service_display_def)
  then have "service_from_str (service_display st) = Some st" using service_display_parses[OF lower] f(4) by simp
  moreover have "st' = st" if "eq_ignore_ascii_case other svc" "from_wire other pr = Some st'" for other st'
    using from_wire_service(4)[OF that(2)] f(4) that(1) by (simp add: eq_ignore_ascii_case_def)
  ultimately show ?thesis using w f(2) by auto
qed

theorem service_text_roundtrip_witness:
  "\<exists>st. service_from_str (bstr ''_Google-Cast._TCP.local'') = Some st \<and> service_from_str (service_display st) = Some st"
proof -
  have "service_from_str (bstr ''_Google-Cast._TCP.local'') \<noteq> None" by code_simp
  then obtain st where st: "service_from_str (bstr ''_Google-Cast._TCP.local'') = Some st" by blast
  from service_text_roundtrip[OF st] st show ?thesis by blast
qed

section \<open>Witnesses\<close>

text \<open>A response with the answer PTR \<open>_a._tcp -> i._a._tcp\<close> and the additional PTR \<open>_b._tcp -> i._b._tcp\<close>, against a
  list that allows \<open>_a._tcp\<close> only.\<close>

definition sample_response :: bytes where
  "sample_response = [0, 0, 0x84, 0, 0, 0, 0, 1, 0, 0, 0, 1,
     2, 95, 97, 4, 95, 116, 99, 112, 0, 0, 12, 0, 1, 0, 0, 0, 9, 0, 4, 1, 105, 0xc0, 12,
     2, 95, 98, 0xc0, 15, 0, 12, 0, 1, 0, 0, 0, 9, 0, 4, 1, 105, 0xc0, 35]"

definition sample_filter :: service_filter where
  "sample_filter = service_filter_new (case service_from_str (bstr ''_A._tcp.local.'') of Some st \<Rightarrow> [st] | None \<Rightarrow> [])"

definition sample_trimmed :: bytes where
  "sample_trimmed = [0, 0, 0x84, 0, 0, 0, 0, 1, 0, 0, 0, 0,
     2, 95, 97, 4, 95, 116, 99, 112, 0, 0, 12, 0, 1, 0, 0, 0, 9, 0, 4, 1, 105, 0xc0, 12]"

lemma sample_decision: "\<exists>refused. decide sample_filter sample_response = DecisionTrim sample_trimmed 1 refused"
proof -
  have "(case decide sample_filter sample_response of DecisionTrim out n r \<Rightarrow> out = sample_trimmed \<and> n = 1 | _ \<Rightarrow> False)" by code_simp
  then show ?thesis by (auto split: decision.splits)
qed

theorem decide_trim_exact_witness:
  "\<exists>refused es'. decide sample_filter sample_response = DecisionTrim sample_trimmed 1 refused \<and> entries sample_trimmed = Some es' \<and>
     (\<exists>e' \<in> set es'. en_section e' = Answer)"
proof -
  obtain refused where d: "decide sample_filter sample_response = DecisionTrim sample_trimmed 1 refused"
    using sample_decision by blast
  from decide_trim_exact[OF d] d show ?thesis by blast
qed

theorem decide_verdict_witness:
  "\<exists>es. entries sample_response = Some es \<and> (\<exists>e \<in> set es. refused_by (sf_allowed sample_filter) sample_response e)"
proof -
  have m: "decide sample_filter sample_response \<noteq> DecisionMalformed" "decide sample_filter sample_response \<noteq> DecisionPass"
    using sample_decision by auto
  from decide_verdict[OF m(1)] m(2) show ?thesis unfolding Let_def by blast
qed

text \<open>A response offering \<open>169.254.1.1\<close> as its answer and \<open>10.0.0.1\<close> beside it.\<close>

theorem strip_offers_reachable_witness:
  "let p = [0, 0, 0x84, 0, 0, 0, 0, 1, 0, 0, 0, 1, 1, 104, 0, 0, 1, 0, 1, 0, 0, 0, 9, 0, 4, 169, 254, 1, 1,
            0xc0, 12, 0, 1, 0, 1, 0, 0, 0, 9, 0, 4, 10, 0, 0, 1];
       out = [0, 0, 0x84, 0, 0, 0, 0, 1, 0, 0, 0, 0, 1, 104, 0, 0, 1, 0, 1, 0, 0, 0, 9, 0, 4, 10, 0, 0, 1]
   in strip p = Some (out, 1) \<and> (\<exists>es'. entries out = Some es' \<and> (\<exists>e' \<in> set es'. en_section e' = Answer) \<and>
        (\<forall>e' \<in> set es'. \<forall>ip. address out e' = Some ip \<longrightarrow> \<not> is_unreachable ip))"
proof -
  define p :: bytes where "p = [0, 0, 0x84, 0, 0, 0, 0, 1, 0, 0, 0, 1, 1, 104, 0, 0, 1, 0, 1, 0, 0, 0, 9, 0, 4, 169, 254, 1, 1,
    0xc0, 12, 0, 1, 0, 1, 0, 0, 0, 9, 0, 4, 10, 0, 0, 1]"
  define out :: bytes where "out = [0, 0, 0x84, 0, 0, 0, 0, 1, 0, 0, 0, 0, 1, 104, 0, 0, 1, 0, 1, 0, 0, 0, 9, 0, 4, 10, 0, 0, 1]"
  have s: "strip p = Some (out, 1)" unfolding p_def out_def by code_simp
  from strip_offers_reachable[OF s] s show ?thesis unfolding Let_def p_def[symmetric] out_def[symmetric] by blast
qed

end
