(* ===== verification/Interface.thy ===== *)
theory Interface
  imports Addresses
begin

text \<open>
  \<^verbatim>\<open>src/src/interface.rs\<close> and \<^verbatim>\<open>src/src/interface/name.rs\<close>: the name of a kernel interface, the source
  addresses an interface has, the choice of the IPv6 sources among those a backend reads, and the
  record of a configured interface. What the kernel answers (a name lookup, a read of the
  interface) is an argument of the operations. The \<^verbatim>\<open>loopback\<close> flag exists on the BSDs only; on Linux
  nothing reads it.
\<close>

section \<open>Interface names\<close>

datatype parse_interface_name_error = NameBlank | NameTooLong | NameColon | NameNul

definition IF_NAMESIZE :: nat where "IF_NAMESIZE = 16"

type_synonym interface_name = bytes

text \<open>A whitespace character starts at \<open>s\<close>, or somewhere in it: \<^verbatim>\<open>s.chars().any(char::is_whitespace)\<close>
  on the UTF-8 encoding.\<close>

fun has_whitespace :: "bytes \<Rightarrow> bool" where
  "has_whitespace [] = False"
| "has_whitespace (b # bs) = ((\<exists>w \<in> set ws_chars. starts_with (b # bs) w) \<or> has_whitespace bs)"

definition interface_name_from_str :: "bytes \<Rightarrow> (parse_interface_name_error, interface_name) result" where
  "interface_name_from_str s =
     (if s = [] \<or> has_whitespace s then Inl NameBlank
      else if IF_NAMESIZE \<le> length s then Inl NameTooLong
      else if 58 \<in> set s then Inl NameColon
      else if 0 \<in> set s then Inl NameNul
      else Inr s)"

text \<open>The zip of the sixteen zeroes with the name.\<close>

definition to_c_array :: "interface_name \<Rightarrow> bytes" where
  "to_c_array name = take IF_NAMESIZE name @ replicate (IF_NAMESIZE - length name) 0"

section \<open>Source addresses\<close>

record interface_addresses =
  ia_mac :: "mac_addr option"
  ia_v4 :: "ipv4 option"
  ia_v4_prefix :: "u8 option"
  ia_v6 :: "ipv6 option"
  ia_v6_routable :: "ipv6 option"

definition addresses_default :: interface_addresses where
  "addresses_default = \<lparr>ia_mac = None, ia_v4 = None, ia_v4_prefix = None, ia_v6 = None, ia_v6_routable = None\<rparr>"

datatype ipv6_scope = LinkLocal | Routable

definition v6_is_unique_local :: "ipv6 \<Rightarrow> bool" where
  "v6_is_unique_local a \<longleftrightarrow> drop_bit 112 a AND 0xfe00 = 0xfc00"

definition is_multicast_link_local :: "ipv6 \<Rightarrow> bool" where
  "is_multicast_link_local addr \<longleftrightarrow> v6_is_multicast addr \<and> octets6 addr ! 1 AND 0x0f = 0x02"

definition scope_of_v6 :: "ipv6 \<Rightarrow> ipv6_scope" where
  "scope_of_v6 addr =
     (if is_multicast_link_local addr \<or> v6_is_unicast_link_local addr then LinkLocal else Routable)"

definition v4_directed_broadcast :: "interface_addresses \<Rightarrow> ipv4 option" where
  "v4_directed_broadcast a =
     (case (ia_v4 a, ia_v4_prefix a) of
        (Some addr, Some prefix) \<Rightarrow>
          if 30 < unat prefix then None else Some (addr OR drop_bit (unat prefix) (- 1))
      | _ \<Rightarrow> None)"

definition v6_for :: "interface_addresses \<Rightarrow> ipv6_scope \<Rightarrow> ipv6 option" where
  "v6_for a dest_scope =
     (case dest_scope of
        LinkLocal \<Rightarrow> ia_v6 a
      | Routable \<Rightarrow> (case ia_v6_routable a of Some x \<Rightarrow> Some x | None \<Rightarrow> ia_v6 a))"

definition has_addr :: "interface_addresses \<Rightarrow> ipaddr \<Rightarrow> bool" where
  "has_addr a ip =
     (case ip of
        V4 v4 \<Rightarrow> ia_v4 a = Some v4
      | V6 v6 \<Rightarrow> ia_v6 a = Some v6 \<or> ia_v6_routable a = Some v6)"

definition has_v4 :: "interface_addresses \<Rightarrow> bool" where "has_v4 a \<longleftrightarrow> ia_v4 a \<noteq> None"
definition has_v6 :: "interface_addresses \<Rightarrow> bool" where "has_v6 a \<longleftrightarrow> ia_v6 a \<noteq> None"

section \<open>Choosing the IPv6 sources\<close>

datatype v6_rank = NotASource | GlobalRank | UniqueLocalRank | LinkLocalRank

fun rank_index :: "v6_rank \<Rightarrow> nat" where
  "rank_index NotASource = 0" | "rank_index GlobalRank = 1"
| "rank_index UniqueLocalRank = 2" | "rank_index LinkLocalRank = 3"

text \<open>The derived \<^verbatim>\<open>Ord\<close>.\<close>

instantiation v6_rank :: linorder
begin

definition less_eq_v6_rank :: "v6_rank \<Rightarrow> v6_rank \<Rightarrow> bool" where
  "less_eq_v6_rank a b \<longleftrightarrow> rank_index a \<le> rank_index b"

definition less_v6_rank :: "v6_rank \<Rightarrow> v6_rank \<Rightarrow> bool" where
  "less_v6_rank a b \<longleftrightarrow> rank_index a < rank_index b"

instance
proof
  fix a b :: v6_rank
  assume "a \<le> b" "b \<le> a"
  then show "a = b" by (cases a; cases b; simp add: less_eq_v6_rank_def)
qed (auto simp: less_eq_v6_rank_def less_v6_rank_def)

end

lemma rank_least [simp]: "NotASource \<le> r" "NotASource < r \<longleftrightarrow> r \<noteq> NotASource"
  by (cases r; simp add: less_eq_v6_rank_def less_v6_rank_def)+

lemma rank_greatest [simp]: "r \<le> LinkLocalRank" "r < LinkLocalRank \<longleftrightarrow> r \<noteq> LinkLocalRank"
  by (cases r; simp add: less_eq_v6_rank_def less_v6_rank_def)+

definition rank_of :: "ipv6 \<Rightarrow> v6_rank" where
  "rank_of addr =
     (if v6_is_multicast addr \<or> v6_is_unspecified addr \<or> v6_is_loopback addr then NotASource
      else if v6_is_unicast_link_local addr then LinkLocalRank
      else if v6_is_unique_local addr then UniqueLocalRank
      else GlobalRank)"

record v6_pick =
  best_rank :: v6_rank
  best_routable_rank :: v6_rank

definition v6_pick_default :: v6_pick where
  "v6_pick_default = \<lparr>best_rank = NotASource, best_routable_rank = NotASource\<rparr>"

definition pick_consider :: "ipv6 \<Rightarrow> v6_pick \<times> interface_addresses \<Rightarrow> v6_pick \<times> interface_addresses" where
  "pick_consider addr s =
     (let (p, a) = s; rank = rank_of addr in
      if rank = NotASource then (p, a)
      else
        let (p, a) =
              (if ia_v6 a = None \<or> best_rank p < rank
               then (p\<lparr>best_rank := rank\<rparr>, a\<lparr>ia_v6 := Some addr\<rparr>) else (p, a))
        in if rank < LinkLocalRank \<and> (ia_v6_routable a = None \<or> best_routable_rank p < rank)
           then (p\<lparr>best_routable_rank := rank\<rparr>, a\<lparr>ia_v6_routable := Some addr\<rparr>) else (p, a))"

section \<open>A configured interface\<close>

record address_change =
  ac_mac :: bool
  ac_v4 :: bool
  ac_v6 :: bool

record reading =
  rd_addrs :: interface_addresses
  rd_mtu :: "u32 option"
  rd_loopback :: bool

record interface =
  if_name :: interface_name
  if_addrs :: interface_addresses
  if_mtu :: "u32 option"
  if_loopback :: bool

text \<open>\<^verbatim>\<open>log_field_change\<close> without its log lines: whether the field changed.\<close>

definition field_change :: "'a option \<Rightarrow> 'a option \<Rightarrow> bool" where
  "field_change old new =
     (case (old, new) of
        (None, Some _) \<Rightarrow> True
      | (Some _, None) \<Rightarrow> True
      | (Some was, Some now) \<Rightarrow> was \<noteq> now
      | (None, None) \<Rightarrow> False)"

definition replace_addrs :: "interface \<Rightarrow> interface_addresses \<Rightarrow> u32 option \<Rightarrow> address_change \<times> interface" where
  "replace_addrs i addrs mtu =
     (let v6 = field_change (ia_v6 (if_addrs i)) (ia_v6 addrs);
          v6_routable = field_change (ia_v6_routable (if_addrs i)) (ia_v6_routable addrs)
      in (\<lparr>ac_mac = field_change (ia_mac (if_addrs i)) (ia_mac addrs),
           ac_v4 = field_change (ia_v4 (if_addrs i)) (ia_v4 addrs),
           ac_v6 = v6 \<or> v6_routable\<rparr>,
          i\<lparr>if_mtu := mtu, if_addrs := addrs\<rparr>))"

definition take_link :: "interface \<Rightarrow> reading \<Rightarrow> interface" where
  "take_link i r = i\<lparr>if_loopback := rd_loopback r\<rparr>"

definition interface_adopt :: "interface \<Rightarrow> reading \<Rightarrow> address_change \<times> interface" where
  "interface_adopt i r = replace_addrs (take_link i r) (rd_addrs r) (rd_mtu r)"

definition interface_forget :: "interface \<Rightarrow> address_change \<times> interface" where
  "interface_forget i = replace_addrs i addresses_default None"

text \<open>\<^verbatim>\<open>refresh\<close> and \<^verbatim>\<open>open\<close> on what the read of the kernel answered.\<close>

definition interface_refresh :: "interface \<Rightarrow> ('e, reading) result \<Rightarrow> ('e, address_change) result \<times> interface" where
  "interface_refresh i r =
     (case r of Inl e \<Rightarrow> (Inl e, i) | Inr r \<Rightarrow> (let (c, i) = interface_adopt i r in (Inr c, i)))"

definition interface_open :: "interface_name \<Rightarrow> ('e, reading) result \<Rightarrow> ('e, interface) result" where
  "interface_open name r =
     (let (c, i) = interface_refresh \<lparr>if_name = name, if_addrs = addresses_default, if_mtu = None, if_loopback = False\<rparr> r
      in result_bind c (\<lambda>_. Inr i))"

section \<open>What a name and a broadcast are\<close>

text \<open>The field the kernel reads ends the name: what it takes up to the first NUL is the name itself.\<close>

lemma c_array_names_it:
  assumes "interface_name_from_str s = Inr name"
  shows "length (to_c_array name) = IF_NAMESIZE \<and> takeWhile (\<lambda>b. b \<noteq> 0) (to_c_array name) = s"
proof -
  have name: "name = s" "length s < IF_NAMESIZE" "0 \<notin> set s"
    using assms by (simp_all add: interface_name_from_str_def split: if_splits)
  have "takeWhile (\<lambda>b. b \<noteq> 0) (s @ replicate (IF_NAMESIZE - length s) (0 :: u8)) = s"
    using name by (subst takeWhile_append2) auto
  then show ?thesis using name by (simp add: to_c_array_def)
qed

lemma directed_broadcast_bits:
  assumes "v4_directed_broadcast a = Some b"
  obtains addr prefix where "ia_v4 a = Some addr" "ia_v4_prefix a = Some prefix" "unat prefix \<le> 30"
    "\<And>n. n < 32 \<Longrightarrow> bit b n \<longleftrightarrow> (if n < 32 - unat prefix then True else bit addr n)"
proof -
  from assms obtain addr prefix where a: "ia_v4 a = Some addr" "ia_v4_prefix a = Some prefix" "unat prefix \<le> 30"
    and b: "b = addr OR drop_bit (unat prefix) (- 1)"
    by (auto simp: v4_directed_broadcast_def split: option.splits if_splits)
  have "bit b n \<longleftrightarrow> (if n < 32 - unat prefix then True else bit addr n)" if "n < 32" for n
    using that a(3) by (auto simp: b bit_or_iff bit_drop_bit_eq bit_mask_iff)
  with a that show ?thesis by blast
qed

section \<open>The sources picked\<close>

text \<open>The first of the best: the specification the incremental pick meets.\<close>

definition first_best :: "('a \<Rightarrow> 'b::linorder) \<Rightarrow> 'a list \<Rightarrow> 'a option" where
  "first_best f xs = find (\<lambda>x. \<forall>y \<in> set xs. f y \<le> f x) xs"

lemma find_append: "find P (xs @ ys) = (case find P xs of None \<Rightarrow> find P ys | Some x \<Rightarrow> Some x)"
  by (induction xs) auto

lemma first_best_Some: "first_best f xs = Some x \<Longrightarrow> x \<in> set xs \<and> (\<forall>y \<in> set xs. f y \<le> f x)"
  by (auto simp: first_best_def find_Some_iff)

lemma first_best_None [simp]: "first_best f xs = None \<longleftrightarrow> xs = []"
proof -
  have "\<exists>x \<in> set xs. \<forall>y \<in> set xs. f y \<le> f x" if "xs \<noteq> []"
  proof -
    have "Max (f ` set xs) \<in> f ` set xs" using that by simp
    then show ?thesis using Max_ge [of "f ` set xs"] by fastforce
  qed
  then show ?thesis by (auto simp: first_best_def find_None_iff)
qed

lemma first_best_snoc:
  "first_best f (xs @ [y]) =
     (case first_best f xs of None \<Rightarrow> Some y | Some x \<Rightarrow> Some (if f x < f y then y else x))"
proof (cases "first_best f xs")
  case None
  then have "xs = []" by simp
  then show ?thesis by (simp add: first_best_def)
next
  case (Some x)
  note best = first_best_Some [OF Some]
  show ?thesis
  proof (cases "f x < f y")
    case True
    have "\<not> (\<forall>z \<in> set (xs @ [y]). f z \<le> f w)" if "w \<in> set xs" for w
    proof -
      have "f w \<le> f x" using best that by blast
      then show ?thesis using True by force
    qed
    then have "find (\<lambda>w. \<forall>z \<in> set (xs @ [y]). f z \<le> f w) xs = None" by (auto simp: find_None_iff)
    moreover have "\<forall>z \<in> set (xs @ [y]). f z \<le> f y" using best True by fastforce
    ultimately show ?thesis using True Some by (simp add: first_best_def find_append)
  next
    case False
    have "(\<forall>z \<in> set (xs @ [y]). f z \<le> f w) \<longleftrightarrow> (\<forall>z \<in> set xs. f z \<le> f w)" if "w \<in> set xs" for w
      using best False that by fastforce
    then have "find (\<lambda>w. \<forall>z \<in> set (xs @ [y]). f z \<le> f w) xs = first_best f xs"
      unfolding first_best_def by (intro find_cong) auto
    then show ?thesis using False Some by (simp add: first_best_def find_append)
  qed
qed

definition v6_sources :: "ipv6 list \<Rightarrow> ipv6 list" where
  "v6_sources = filter (\<lambda>x. rank_of x \<noteq> NotASource)"

definition v6_routable_sources :: "ipv6 list \<Rightarrow> ipv6 list" where
  "v6_routable_sources = filter (\<lambda>x. rank_of x \<noteq> NotASource \<and> rank_of x \<noteq> LinkLocalRank)"

definition rank_held :: "ipv6 option \<Rightarrow> v6_rank" where
  "rank_held x = (case x of None \<Rightarrow> NotASource | Some x \<Rightarrow> rank_of x)"

lemma pick_fold:
  assumes "ia_v6 a = None" "ia_v6_routable a = None"
  shows "fold pick_consider xs (v6_pick_default, a) =
    (let v6 = first_best rank_of (v6_sources xs); routable = first_best rank_of (v6_routable_sources xs)
     in (\<lparr>best_rank = rank_held v6, best_routable_rank = rank_held routable\<rparr>,
         a\<lparr>ia_v6 := v6, ia_v6_routable := routable\<rparr>))"
proof (induction xs rule: rev_induct)
  case Nil
  then show ?case using assms
    by (simp add: v6_sources_def v6_routable_sources_def rank_held_def v6_pick_default_def first_best_def)
next
  case (snoc x xs)
  have snocs: "v6_sources (xs @ [x]) = v6_sources xs @ (if rank_of x = NotASource then [] else [x])"
    "v6_routable_sources (xs @ [x])
      = v6_routable_sources xs @ (if rank_of x = NotASource \<or> rank_of x = LinkLocalRank then [] else [x])"
    by (auto simp: v6_sources_def v6_routable_sources_def)
  have "fold pick_consider (xs @ [x]) (v6_pick_default, a) = pick_consider x (fold pick_consider xs (v6_pick_default, a))"
    by simp
  also have "\<dots> = pick_consider x (let v6 = first_best rank_of (v6_sources xs); routable = first_best rank_of (v6_routable_sources xs)
     in (\<lparr>best_rank = rank_held v6, best_routable_rank = rank_held routable\<rparr>,
         a\<lparr>ia_v6 := v6, ia_v6_routable := routable\<rparr>))" by (simp only: snoc.IH)
  finally show ?case
    by (simp only:) (simp add: snocs Let_def pick_consider_def first_best_snoc rank_held_def del: first_best_None split: option.split)
qed

text \<open>The address an interface sends IPv6 from. Whatever the order a backend lists the addresses
  in, the pick ends with the first best-ranked usable one (link-local before unique-local before
  global) and, for destinations beyond the link, the first best one that is not link-local; the
  other fields are untouched. A link-local destination is sourced whenever any usable address
  exists, a routable one from a link-local address only when there is no other.\<close>

theorem v6_pick_best:
  assumes "ia_v6 a = None" "ia_v6_routable a = None"
    and "fold pick_consider xs (v6_pick_default, a) = (p, b)"
  shows "b = a\<lparr>ia_v6 := first_best rank_of (v6_sources xs),
      ia_v6_routable := first_best rank_of (v6_routable_sources xs)\<rparr>
    \<and> (has_v6 b \<longleftrightarrow> v6_sources xs \<noteq> [])
    \<and> (\<forall>x. v6_for b Routable = Some x \<longrightarrow> v6_is_unicast_link_local x \<longrightarrow> v6_routable_sources xs = [])"
proof (intro conjI allI impI)
  show b: "b = a\<lparr>ia_v6 := first_best rank_of (v6_sources xs),
      ia_v6_routable := first_best rank_of (v6_routable_sources xs)\<rparr>"
    using assms(3) by (simp add: pick_fold [OF assms(1,2)] Let_def)
  show "has_v6 b \<longleftrightarrow> v6_sources xs \<noteq> []" by (simp add: has_v6_def b)
  fix x assume x: "v6_for b Routable = Some x" "v6_is_unicast_link_local x"
  show "v6_routable_sources xs = []"
  proof (rule ccontr)
    assume "v6_routable_sources xs \<noteq> []"
    then obtain y where y: "first_best rank_of (v6_routable_sources xs) = Some y"
      by (metis first_best_None not_Some_eq)
    then have "x = y" using x(1) by (simp add: v6_for_def b)
    with first_best_Some [OF y] x(2) show False
      by (auto simp: v6_routable_sources_def rank_of_def split: if_splits)
  qed
qed

lemma v6_pick_best_witness:
  "let b = snd (fold pick_consider [1, 0x20010db8000000000000000000000001, 0xfe800000000000000000000000000001]
        (v6_pick_default, addresses_default))
   in ia_v6 b = Some 0xfe800000000000000000000000000001
    \<and> ia_v6_routable b = Some 0x20010db8000000000000000000000001
    \<and> b = addresses_default\<lparr>ia_v6 := first_best rank_of (v6_sources [1, 0x20010db8000000000000000000000001, 0xfe800000000000000000000000000001]),
        ia_v6_routable := first_best rank_of (v6_routable_sources [1, 0x20010db8000000000000000000000001, 0xfe800000000000000000000000000001])\<rparr>"
proof -
  let ?xs = "[1, 0x20010db8000000000000000000000001, 0xfe800000000000000000000000000001] :: ipv6 list"
  have "fold pick_consider ?xs (v6_pick_default, addresses_default)
      = (fst (fold pick_consider ?xs (v6_pick_default, addresses_default)),
         snd (fold pick_consider ?xs (v6_pick_default, addresses_default)))" by simp
  from v6_pick_best [OF _ _ this, THEN conjunct1] have
    "snd (fold pick_consider ?xs (v6_pick_default, addresses_default)) = addresses_default\<lparr>ia_v6 := first_best rank_of (v6_sources ?xs),
        ia_v6_routable := first_best rank_of (v6_routable_sources ?xs)\<rparr>"
    by (simp add: addresses_default_def)
  moreover have "ia_v6 (snd (fold pick_consider ?xs (v6_pick_default, addresses_default))) = Some 0xfe800000000000000000000000000001"
    by code_simp
  moreover have "ia_v6_routable (snd (fold pick_consider ?xs (v6_pick_default, addresses_default))) = Some 0x20010db8000000000000000000000001"
    by code_simp
  ultimately show ?thesis unfolding Let_def by blast
qed

end
