(* ===== verification/Config_Values.thy ===== *)
theory Config_Values
  imports Http Mdns_Filters Interface
begin

text \<open>
  \<^verbatim>\<open>src/src/config/value.rs\<close> and \<^verbatim>\<open>src/src/cli.rs\<close>: the typed values of a configuration with their one
  parser each, which the environment and the TOML path share, the rules of the port, group and
  peer lists, and the command line. A \<^verbatim>\<open>NonZeroU16\<close> port is a 16-bit word the parser never makes
  zero. An argument of the command line is its bytes; what \<^verbatim>\<open>to_string_lossy\<close> makes of bytes that are
  not UTF-8 only reaches the text of an error.
\<close>

section \<open>Values\<close>

definition to_ascii_lowercase :: "bytes \<Rightarrow> bytes" where
  "to_ascii_lowercase s = map ascii_lower s"

datatype log_level = LevelOff | LevelError | LevelWarn | LevelInfo | LevelDebug | LevelTrace

definition log_level_from_str :: "bytes \<Rightarrow> log_level option" where
  "log_level_from_str s =
     (let t = to_ascii_lowercase s in
      if t = bstr ''off'' then Some LevelOff
      else if t = bstr ''error'' then Some LevelError
      else if t = bstr ''warn'' then Some LevelWarn
      else if t = bstr ''info'' then Some LevelInfo
      else if t = bstr ''debug'' then Some LevelDebug
      else if t = bstr ''trace'' then Some LevelTrace
      else None)"

datatype log_target = TargetStderr | TargetSyslog

definition log_target_from_str :: "bytes \<Rightarrow> log_target option" where
  "log_target_from_str s =
     (let t = to_ascii_lowercase s in
      if t = bstr ''stderr'' then Some TargetStderr
      else if t = bstr ''syslog'' then Some TargetSyslog
      else None)"

datatype principal = PrincipalName bytes | PrincipalId u32

definition principal_parse :: "bytes \<Rightarrow> principal option" where
  "principal_parse s =
     (if s = [] \<or> 58 \<in> set s then None
      else Some (case parse_uint 10 4294967295 s of
          Some n \<Rightarrow> PrincipalId (of_nat n)
        | None \<Rightarrow> PrincipalName s))"

record run_as =
  ra_user :: principal
  ra_group :: "principal option"

text \<open>\<^verbatim>\<open>str::split_once\<close> on a one-byte separator.\<close>

definition split_once :: "u8 \<Rightarrow> bytes \<Rightarrow> (bytes \<times> bytes) option" where
  "split_once c s = map_option (\<lambda>i. (take i s, drop (Suc i) s)) (position (\<lambda>b. b = c) s)"

definition run_as_from_str :: "bytes \<Rightarrow> run_as option" where
  "run_as_from_str s =
     (let (user, grp) = (case split_once 58 s of Some (u, g) \<Rightarrow> (u, Some g) | None \<Rightarrow> (s, None)) in
      case principal_parse user of
        None \<Rightarrow> None
      | Some user \<Rightarrow>
          (case grp of
             None \<Rightarrow> Some \<lparr>ra_user = user, ra_group = None\<rparr>
           | Some g \<Rightarrow> map_option (\<lambda>g. \<lparr>ra_user = user, ra_group = Some g\<rparr>) (principal_parse g)))"

datatype address_family = FamilyDefault | FamilyDual | FamilyIpv4 | FamilyIpv6

definition uses_ipv4 :: "address_family \<Rightarrow> bool" where
  "uses_ipv4 f \<longleftrightarrow> f \<in> {FamilyDefault, FamilyDual, FamilyIpv4}"

definition uses_ipv6 :: "address_family \<Rightarrow> bool" where
  "uses_ipv6 f \<longleftrightarrow> f \<in> {FamilyDefault, FamilyDual, FamilyIpv6}"

definition family_uses :: "address_family \<Rightarrow> ipaddr \<Rightarrow> bool" where
  "family_uses f ip = (case ip of V4 _ \<Rightarrow> uses_ipv4 f | V6 _ \<Rightarrow> uses_ipv6 f)"

definition requires_ipv4 :: "address_family \<Rightarrow> bool" where
  "requires_ipv4 f \<longleftrightarrow> f \<in> {FamilyDefault, FamilyDual, FamilyIpv4}"

definition requires_ipv6 :: "address_family \<Rightarrow> bool" where
  "requires_ipv6 f \<longleftrightarrow> f \<in> {FamilyDual, FamilyIpv6}"

definition family_requires :: "address_family \<Rightarrow> ipaddr \<Rightarrow> bool" where
  "family_requires f ip = (case ip of V4 _ \<Rightarrow> requires_ipv4 f | V6 _ \<Rightarrow> requires_ipv6 f)"

definition address_family_from_str :: "bytes \<Rightarrow> address_family option" where
  "address_family_from_str s =
     (let t = to_ascii_lowercase s in
      if t = bstr ''default'' then Some FamilyDefault
      else if t = bstr ''dual'' then Some FamilyDual
      else if t = bstr ''ipv4'' then Some FamilyIpv4
      else if t = bstr ''ipv6'' then Some FamilyIpv6
      else None)"

type_synonym reflector_name = bytes

definition reflector_name_from_str :: "bytes \<Rightarrow> reflector_name option" where
  "reflector_name_from_str s =
     (let trimmed = trim_str s in if trimmed = [] then None else Some (to_ascii_lowercase trimmed))"

section \<open>Lists\<close>

definition ports_rule :: "u16 list_rule" where
  "ports_rule = \<lparr>lr_noun = ''port'', lr_refuse = \<lambda>_. None\<rparr>"

definition groups_rule :: "ipaddr list_rule" where
  "groups_rule = \<lparr>lr_noun = ''group'',
     lr_refuse = \<lambda>g. if \<not> ip_is_multicast g then Some ''is not a multicast address'' else None\<rparr>"

definition is_unicast_peer :: "ipaddr \<Rightarrow> bool" where
  "is_unicast_peer peer =
     (case peer of
        V4 v4 \<Rightarrow> \<not> v4_is_multicast v4 \<and> \<not> v4_is_broadcast v4 \<and> \<not> v4_is_unspecified v4
      | V6 v6 \<Rightarrow> \<not> v6_is_multicast v6 \<and> \<not> v6_is_unspecified v6)"

definition peers_rule :: "ipaddr list_rule" where
  "peers_rule = \<lparr>lr_noun = ''peer'',
     lr_refuse = \<lambda>p. if \<not> is_unicast_peer p then Some ''is not a unicast address'' else None\<rparr>"

text \<open>\<^verbatim>\<open>NonZeroU16::from_str\<close> and \<^verbatim>\<open>IpAddr::from_str\<close>.\<close>

definition port_from_str :: "bytes \<Rightarrow> u16 option" where
  "port_from_str s =
     (case parse_uint 10 65535 s of Some n \<Rightarrow> (if n = 0 then None else Some (of_nat n)) | None \<Rightarrow> None)"

definition ip_from_str :: "bytes \<Rightarrow> ipaddr option" where
  "ip_from_str s =
     (case ipv4_from_str s of Some a \<Rightarrow> Some (V4 a) | None \<Rightarrow> map_option V6 (ipv6_from_str s))"

definition port_list_from_str :: "bytes \<Rightarrow> (u16 list_error, u16 list) result" where
  "port_list_from_str = unique_list_from_str ports_rule port_from_str"

definition group_list_from_str :: "bytes \<Rightarrow> (ipaddr list_error, ipaddr list) result" where
  "group_list_from_str = unique_list_from_str groups_rule ip_from_str"

definition peer_list_from_str :: "bytes \<Rightarrow> (ipaddr list_error, ipaddr list) result" where
  "peer_list_from_str = unique_list_from_str peers_rule ip_from_str"

definition mac_set_from_str :: "bytes \<Rightarrow> (mac_addr list_error, mac_addr list) result" where
  "mac_set_from_str = unique_list_from_str macs_rule mac_from_str"

definition service_list_from_str :: "bytes \<Rightarrow> (service_type list_error, service_type list) result" where
  "service_list_from_str = unique_list_from_str services_rule service_from_str"

text \<open>What a list under a rule holds, wherever it came from.\<close>

definition valid_list :: "'a list_rule \<Rightarrow> 'a list \<Rightarrow> bool" where
  "valid_list r xs \<longleftrightarrow> unique_list_try_from r xs = Inr xs"

lemma valid_list_iff: "valid_list r xs \<longleftrightarrow> xs \<noteq> [] \<and> distinct xs \<and> (\<forall>x \<in> set xs. lr_refuse r x = None)"
  by (auto simp: valid_list_def unique_list_try_from_Inr)

lemma from_str_valid: "unique_list_from_str r parse s = Inr xs \<Longrightarrow> valid_list r xs"
  by (auto simp: unique_list_from_str_def result_bind_Inr_iff unique_list_try_from_Inr valid_list_iff)

lemma valid_list_filter: "valid_list r xs \<Longrightarrow> filter P xs \<noteq> [] \<Longrightarrow> valid_list r (filter P xs)"
  by (auto simp: valid_list_iff)

lemma valid_groups: "valid_list groups_rule xs \<Longrightarrow> g \<in> set xs \<Longrightarrow> ip_is_multicast g"
  by (auto simp: valid_list_iff groups_rule_def split: if_splits)

section \<open>The command line\<close>

datatype invocation =
    Run "bytes option" bool
  | CheckConfig "bytes option"
  | Help
  | Version

datatype usage_error = UnknownOption bytes | TooManyArgs bytes

record cli_state =
  cl_check :: bool
  cl_join_groups :: bool
  cl_path :: "bytes option"
  cl_options_done :: bool

definition cli_start :: cli_state where
  "cli_start = \<lparr>cl_check = False, cl_join_groups = True, cl_path = None, cl_options_done = False\<rparr>"

text \<open>The part of the loop body past the options: a positional.\<close>

definition cli_positional :: "cli_state \<Rightarrow> bytes \<Rightarrow> (usage_error, cli_state) result" where
  "cli_positional st arg =
     (if \<not> cl_options_done st \<and> starts_with arg (bstr ''-'') \<and> arg \<noteq> bstr ''-'' then Inl (UnknownOption arg)
      else if cl_path st \<noteq> None then Inl (TooManyArgs arg)
      else Inr (st\<lparr>cl_path := Some arg\<rparr>))"

fun cli_loop :: "cli_state \<Rightarrow> bytes list \<Rightarrow> (usage_error, invocation) result" where
  "cli_loop st [] =
     Inr (if cl_check st then CheckConfig (cl_path st) else Run (cl_path st) (cl_join_groups st))"
| "cli_loop st (arg # args) =
     (if \<not> cl_options_done st \<and> arg = bstr ''--'' then cli_loop (st\<lparr>cl_options_done := True\<rparr>) args
      else if \<not> cl_options_done st \<and> (arg = bstr ''-h'' \<or> arg = bstr ''--help'') then Inr Help
      else if \<not> cl_options_done st \<and> (arg = bstr ''-V'' \<or> arg = bstr ''--version'') then Inr Version
      else if \<not> cl_options_done st \<and> arg = bstr ''--check-config'' then cli_loop (st\<lparr>cl_check := True\<rparr>) args
      else if \<not> cl_options_done st \<and> arg = bstr ''--no-join'' then cli_loop (st\<lparr>cl_join_groups := False\<rparr>) args
      else result_bind (cli_positional st arg) (\<lambda>st. cli_loop st args))"

definition cli_parse :: "bytes list \<Rightarrow> (usage_error, invocation) result" where
  "cli_parse args = cli_loop cli_start args"

text \<open>Any path is reachable behind \<^verbatim>\<open>--\<close>, one that looks like an option too.\<close>

lemma cli_dash_path:
  "cli_parse [bstr ''--'', path] = Inr (Run (Some path) True)"
  "cli_parse [bstr ''--check-config'', bstr ''--'', path] = Inr (CheckConfig (Some path))"
  by (simp_all add: cli_parse_def cli_start_def cli_positional_def bstr_def starts_with_def)

text \<open>The path of an accepted command line is one of its arguments, and the only one that is no option.\<close>

lemma cli_loop_path:
  assumes "cli_loop st args = Inr (Run (Some p) j) \<or> cli_loop st args = Inr (CheckConfig (Some p))"
  shows "p \<in> set args \<or> cl_path st = Some p"
  using assms
proof (induction st args rule: cli_loop.induct)
  case (2 st arg args)
  then show ?case
    by (auto simp: result_bind_Inr_iff cli_positional_def split: if_splits)
qed (auto split: if_splits)

end
