(* ===== verification/Config.thy ===== *)
theory Config
  imports Config_Values Discovery Packet
begin

text \<open>
  \<^verbatim>\<open>src/src/config/conflict.rs\<close> with the validated entries of \<^verbatim>\<open>src/src/config.rs\<close>: a reflector, the
  classes of datagrams it relays (its flows), and the rule that no two entries may reflect the same
  packet. The development reads a flow as the set of packets it admits and shows the syntactic
  overlap test exact for it; \<open>no_duplicate_reflection\<close> then says what a checked configuration
  guarantees.
\<close>

section \<open>Entries\<close>

record wol_config =
  wol_ports :: "u16 list"

record udp_relay =
  ur_ports :: "u16 list"
  ur_groups :: "ipaddr list option"
  ur_broadcast :: bool

record mdns_config =
  md_services :: "service_type list option"

record ssdp_config =
  sd_dial :: bool

record reflector =
  rf_name :: reflector_name
  rf_source_if :: interface_name
  rf_target_if :: interface_name
  rf_source_peers :: "ipaddr list option"
  rf_target_peers :: "ipaddr list option"
  rf_macs :: "mac_addr list option"
  rf_family :: address_family
  rf_wol :: "wol_config option"
  rf_mdns :: "mdns_config option"
  rf_ssdp :: "ssdp_config option"
  rf_wsd :: bool
  rf_bidirectional :: bool
  rf_udp :: "udp_relay option"

definition reversed :: "reflector \<Rightarrow> reflector" where
  "reversed r = r\<lparr>rf_source_if := rf_target_if r, rf_target_if := rf_source_if r,
     rf_source_peers := rf_target_peers r, rf_target_peers := rf_source_peers r\<rparr>"

section \<open>Flows\<close>

datatype protocol = Wol | Mdns | Ssdp | Wsd | UdpRelay

datatype reach = ReachAny address_family | ReachGroup ipaddr | ReachBroadcast

definition families_overlap :: "address_family \<Rightarrow> address_family \<Rightarrow> bool" where
  "families_overlap a b \<longleftrightarrow> uses_ipv4 a \<and> uses_ipv4 b \<or> uses_ipv6 a \<and> uses_ipv6 b"

definition macs_overlap :: "mac_addr list option \<Rightarrow> mac_addr list option \<Rightarrow> bool" where
  "macs_overlap a b =
     (case (a, b) of (Some a, Some b) \<Rightarrow> (\<exists>mac \<in> set a. mac \<in> set b) | _ \<Rightarrow> True)"

fun reach_overlaps :: "reach \<Rightarrow> reach \<Rightarrow> bool" where
  "reach_overlaps (ReachAny a) (ReachAny b) = families_overlap a b"
| "reach_overlaps (ReachAny family) (ReachGroup grp) = family_uses family grp"
| "reach_overlaps (ReachGroup grp) (ReachAny family) = family_uses family grp"
| "reach_overlaps (ReachAny family) ReachBroadcast = uses_ipv4 family"
| "reach_overlaps ReachBroadcast (ReachAny family) = uses_ipv4 family"
| "reach_overlaps (ReachGroup a) (ReachGroup b) = (a = b)"
| "reach_overlaps ReachBroadcast ReachBroadcast = True"
| "reach_overlaps (ReachGroup _) ReachBroadcast = False"
| "reach_overlaps ReachBroadcast (ReachGroup _) = False"

type_synonym leg = "interface_name \<times> interface_name"

record flow =
  fl_protocol :: protocol
  fl_ingress :: interface_name
  fl_egress :: interface_name
  fl_port :: u16
  fl_reach :: reach

definition flow_overlaps :: "flow \<Rightarrow> flow \<Rightarrow> bool" where
  "flow_overlaps a b \<longleftrightarrow> fl_ingress a = fl_ingress b \<and> fl_egress a = fl_egress b
     \<and> fl_port a = fl_port b \<and> reach_overlaps (fl_reach a) (fl_reach b)"

definition destinations :: "udp_relay \<Rightarrow> (u16 \<times> reach) list" where
  "destinations u =
     (let groups = (case ur_groups u of Some g \<Rightarrow> g | None \<Rightarrow> []) in
      concat (map (\<lambda>port. map (\<lambda>g. (port, ReachGroup g)) groups
        @ (if ur_broadcast u then [(port, ReachBroadcast)] else [])) (ur_ports u)))"

definition directions :: "reflector \<Rightarrow> leg list" where
  "directions r =
     (rf_source_if r, rf_target_if r) # (if rf_bidirectional r then [(rf_target_if r, rf_source_if r)] else [])"

text \<open>The closure \<^verbatim>\<open>discovery\<close> of \<^verbatim>\<open>flows\<close>: both legs, whatever the direction of the entry.\<close>

definition discovery_flows :: "reflector \<Rightarrow> protocol \<Rightarrow> u16 \<Rightarrow> ipaddr list \<Rightarrow> flow list" where
  "discovery_flows r protocol port groups =
     concat (map (\<lambda>g.
        map (\<lambda>(ingress, egress). \<lparr>fl_protocol = protocol, fl_ingress = ingress, fl_egress = egress,
            fl_port = port, fl_reach = ReachGroup g\<rparr>)
          [(rf_source_if r, rf_target_if r), (rf_target_if r, rf_source_if r)])
       (filter (family_uses (rf_family r)) groups))"

definition mdns_groups :: "ipaddr list" where "mdns_groups = [V4 MDNS_GROUP_V4, V6 MDNS_GROUP_V6]"
definition ssdp_groups :: "ipaddr list" where
  "ssdp_groups = [V4 SSDP_GROUP_V4, V6 SSDP_GROUP_V6_LINK_LOCAL, V6 SSDP_GROUP_V6_SITE_LOCAL]"
definition wsd_groups :: "ipaddr list" where "wsd_groups = [V4 WSD_GROUP_V4, V6 WSD_GROUP_V6]"

definition direction_flows :: "reflector \<Rightarrow> leg \<Rightarrow> flow list" where
  "direction_flows r l =
     (case l of (ingress, egress) \<Rightarrow>
        (case rf_wol r of
           Some wol \<Rightarrow> map (\<lambda>port. \<lparr>fl_protocol = Wol, fl_ingress = ingress, fl_egress = egress,
                fl_port = port, fl_reach = ReachAny (rf_family r)\<rparr>) (wol_ports wol)
         | None \<Rightarrow> [])
      @ (case rf_udp r of
           Some udp \<Rightarrow> map (\<lambda>(port, reach). \<lparr>fl_protocol = UdpRelay, fl_ingress = ingress, fl_egress = egress,
                fl_port = port, fl_reach = reach\<rparr>) (destinations udp)
         | None \<Rightarrow> []))"

definition flows :: "reflector \<Rightarrow> flow list" where
  "flows r =
     (if rf_mdns r \<noteq> None then discovery_flows r Mdns MDNS_PORT mdns_groups else [])
   @ (if rf_ssdp r \<noteq> None then discovery_flows r Ssdp SSDP_PORT ssdp_groups else [])
   @ (if rf_wsd r then discovery_flows r Wsd WSD_PORT wsd_groups else [])
   @ concat (map (direction_flows r) (directions r))"

section \<open>Conflicts\<close>

definition shared_protocol :: "reflector \<Rightarrow> reflector \<Rightarrow> (protocol \<times> leg) option" where
  "shared_protocol r other =
     (case find (\<lambda>mine. mine \<in> set (directions other)) (directions r) of
        None \<Rightarrow> None
      | Some l \<Rightarrow>
          if \<not> macs_overlap (rf_macs r) (rf_macs other) \<or> \<not> families_overlap (rf_family r) (rf_family other) then None
          else if (case (rf_wol r, rf_wol other) of
              (Some a, Some b) \<Rightarrow> (\<exists>port \<in> set (wol_ports a). port \<in> set (wol_ports b)) | _ \<Rightarrow> False) then Some (Wol, l)
          else if rf_mdns r \<noteq> None \<and> rf_mdns other \<noteq> None then Some (Mdns, l)
          else if rf_ssdp r \<noteq> None \<and> rf_ssdp other \<noteq> None then Some (Ssdp, l)
          else if rf_wsd r \<and> rf_wsd other then Some (Wsd, l)
          else None)"

definition relay_overlap :: "reflector \<Rightarrow> flow list \<Rightarrow> flow option" where
  "relay_overlap r others =
     (let relay = filter (\<lambda>f. fl_protocol f = UdpRelay) (flows r) in
      find (\<lambda>other. \<exists>mine \<in> set relay. flow_overlaps mine other) others)"

definition relay_duplicates :: "reflector \<Rightarrow> (protocol \<times> u16) option" where
  "relay_duplicates r =
     map_option (\<lambda>f. (fl_protocol f, fl_port f))
       (relay_overlap r (filter (\<lambda>f. fl_protocol f \<noteq> UdpRelay) (flows r)))"

definition conflicts_with :: "reflector \<Rightarrow> reflector \<Rightarrow> (protocol \<times> leg) option" where
  "conflicts_with r other =
     (case shared_protocol r other of
        Some c \<Rightarrow> Some c
      | None \<Rightarrow>
          map_option (\<lambda>f. (fl_protocol f, fl_ingress f, fl_egress f))
            (case relay_overlap r (flows other) of
               Some f \<Rightarrow> Some f
             | None \<Rightarrow> relay_overlap other (flows r)))"

datatype conflict =
    DuplicateName reflector_name
  | Conflicting protocol reflector_name reflector_name interface_name interface_name

fun check_against :: "reflector \<Rightarrow> reflector list \<Rightarrow> conflict option" where
  "check_against a [] = None"
| "check_against a (b # bs) =
     (if rf_name a = rf_name b then Some (DuplicateName (rf_name a))
      else case conflicts_with a b of
          Some (protocol, ingress, egress) \<Rightarrow> Some (Conflicting protocol (rf_name a) (rf_name b) ingress egress)
        | None \<Rightarrow> check_against a bs)"

fun check_conflicts :: "reflector list \<Rightarrow> conflict option" where
  "check_conflicts [] = None"
| "check_conflicts (a # rest) =
     (case check_against a rest of Some e \<Rightarrow> Some e | None \<Rightarrow> check_conflicts rest)"

section \<open>What a flow admits\<close>

text \<open>The packets of a reach, on a link whose subnet has the directed broadcast \<open>bc\<close>.\<close>

fun reach_admits :: "ipv4 option \<Rightarrow> reach \<Rightarrow> packet \<Rightarrow> bool" where
  "reach_admits bc (ReachAny family) p = family_uses family (fst (p_dest p))"
| "reach_admits bc (ReachGroup g) p = (fst (p_dest p) = g)"
| "reach_admits bc ReachBroadcast p = is_broadcast p bc"

definition flow_admits :: "ipv4 option \<Rightarrow> flow \<Rightarrow> interface_name \<Rightarrow> interface_name \<Rightarrow> packet \<Rightarrow> bool" where
  "flow_admits bc f ingress egress p \<longleftrightarrow>
     fl_ingress f = ingress \<and> fl_egress f = egress \<and> fl_port f = snd (p_dest p) \<and> reach_admits bc (fl_reach f) p"

definition reach_valid :: "reach \<Rightarrow> bool" where
  "reach_valid r = (case r of ReachGroup g \<Rightarrow> ip_is_multicast g | _ \<Rightarrow> True)"

definition sane_broadcast :: "ipv4 option \<Rightarrow> bool" where
  "sane_broadcast bc = (case bc of Some b \<Rightarrow> \<not> v4_is_multicast b | None \<Rightarrow> True)"

definition packet_to :: "ipaddr \<Rightarrow> packet" where
  "packet_to ip = \<lparr>p_source = (V4 0, 0), p_dest = (ip, 0), p_ttl = 1, p_dst_mac = None, p_src_mac = None, p_payload = []\<rparr>"

lemma limited_broadcast [simp]: "\<not> v4_is_multicast 0xffffffff" "v4_is_broadcast 0xffffffff"
  by (simp_all add: v4_is_multicast_def v4_is_broadcast_def)

lemma broadcast_not_group:
  assumes "is_broadcast p bc" "sane_broadcast bc" "ip_is_multicast (fst (p_dest p))"
  shows False
  using assms by (auto simp: is_broadcast_def sane_broadcast_def ip_is_multicast_def v4_is_broadcast_def
      split: ipaddr.splits option.splits)

lemma broadcast_is_v4: "is_broadcast p bc \<Longrightarrow> \<exists>a. fst (p_dest p) = V4 a"
  by (auto simp: is_broadcast_def split: ipaddr.splits)

text \<open>The overlap test is exact: two reaches overlap when some packet is in both.\<close>

lemma reach_overlaps_exact:
  assumes valid: "reach_valid a" "reach_valid b" and bc: "sane_broadcast bc"
  shows "reach_overlaps a b \<longleftrightarrow> (\<exists>p. reach_admits bc a p \<and> reach_admits bc b p)"
proof
  assume "\<exists>p. reach_admits bc a p \<and> reach_admits bc b p"
  then obtain p where p: "reach_admits bc a p" "reach_admits bc b p" by blast
  show "reach_overlaps a b"
    by (cases a; cases b)
      (use p valid bc broadcast_not_group [OF _ bc, of p] broadcast_is_v4 [of p bc] in
        \<open>force simp: families_overlap_def family_uses_def reach_valid_def split: ipaddr.splits\<close>)+
next
  let ?bc = "packet_to (V4 0xffffffff)" and ?v6 = "packet_to (V6 0)"
  have br: "is_broadcast ?bc bc" by (simp add: is_broadcast_def packet_to_def)
  assume ov: "reach_overlaps a b"
  show "\<exists>p. reach_admits bc a p \<and> reach_admits bc b p"
  proof (cases "(\<exists>g. a = ReachGroup g) \<or> (\<exists>g. b = ReachGroup g)")
    case True
    then obtain g where "a = ReachGroup g \<or> b = ReachGroup g" by blast
    then have "reach_admits bc a (packet_to g) \<and> reach_admits bc b (packet_to g)"
      using ov by (cases a; cases b; auto simp: packet_to_def)
    then show ?thesis by blast
  next
    case False
    have "reach_admits bc a ?bc \<and> reach_admits bc b ?bc \<or> reach_admits bc a ?v6 \<and> reach_admits bc b ?v6"
      using ov False br by (cases a; cases b; auto simp: packet_to_def families_overlap_def family_uses_def)
    then show ?thesis by blast
  qed
qed

lemma flows_meet:
  assumes "flow_admits bc f i e p" "flow_admits bc g i e p"
    and "reach_valid (fl_reach f)" "reach_valid (fl_reach g)" "sane_broadcast bc"
  shows "flow_overlaps f g"
  using assms reach_overlaps_exact [of "fl_reach f" "fl_reach g" bc]
  by (auto simp: flow_admits_def flow_overlaps_def)

section \<open>A checked configuration\<close>

text \<open>What \<^verbatim>\<open>UniqueList\<close> guarantees of an entry's lists.\<close>

definition lists_valid :: "reflector \<Rightarrow> bool" where
  "lists_valid r \<longleftrightarrow>
     (\<forall>u gs. rf_udp r = Some u \<longrightarrow> ur_groups u = Some gs \<longrightarrow> valid_list groups_rule gs)"

lemma flows_reach_valid:
  assumes "lists_valid r" "f \<in> set (flows r)"
  shows "reach_valid (fl_reach f)"
proof -
  have groups: "\<forall>g \<in> set mdns_groups \<union> set ssdp_groups \<union> set wsd_groups. ip_is_multicast g"
    by code_simp
  then have disc: "reach_valid (fl_reach f)" if "f \<in> set (discovery_flows r q port gs)" "gs \<in> {mdns_groups, ssdp_groups, wsd_groups}"
    for q port gs
    using that by (auto simp: discovery_flows_def reach_valid_def)
  have relay: "reach_valid reach" if "rf_udp r = Some u" "(port, reach) \<in> set (destinations u)" for u port reach
    using that assms(1) valid_groups
    by (cases "ur_groups u") (auto simp: destinations_def reach_valid_def lists_valid_def split: if_splits)
  have udp: "reach_valid (fl_reach f)" if "f \<in> set (direction_flows r l)" for l
    using that relay by (cases l; cases "rf_udp r"; cases "rf_wol r") (auto simp: direction_flows_def reach_valid_def)
  show ?thesis using assms(2) disc udp by (auto simp: flows_def split: if_splits)
qed

definition macs_allow :: "mac_addr list option \<Rightarrow> mac_addr \<Rightarrow> bool" where
  "macs_allow macs mac = (case macs of None \<Rightarrow> True | Some ms \<Rightarrow> mac \<in> set ms)"

text \<open>Entry \<open>r\<close> reflects, as \<open>protocol\<close>, a packet about the device \<open>mac\<close> from \<open>ingress\<close> to \<open>egress\<close>: the
  magic packet that wakes it, the announcement or response it sent, or, for the relay, which applies
  no device filter, any datagram. A device announces on the target of a direction.\<close>

definition reflects_device :: "ipv4 option \<Rightarrow> reflector \<Rightarrow> protocol \<Rightarrow> interface_name \<Rightarrow> interface_name \<Rightarrow> packet \<Rightarrow> mac_addr \<Rightarrow> bool" where
  "reflects_device bc r protocol ingress egress p mac \<longleftrightarrow>
     (\<exists>f \<in> set (flows r). fl_protocol f = protocol \<and> flow_admits bc f ingress egress p)
   \<and> (protocol \<noteq> UdpRelay \<longrightarrow> macs_allow (rf_macs r) mac)
   \<and> (if protocol = Wol \<or> protocol = UdpRelay then (ingress, egress) else (egress, ingress)) \<in> set (directions r)"

lemma check_against_None:
  "check_against a bs = None \<Longrightarrow> b \<in> set bs \<Longrightarrow> rf_name a \<noteq> rf_name b \<and> conflicts_with a b = None"
  by (induction bs) (auto split: if_splits option.splits)

lemma check_conflicts_None:
  "check_conflicts rs = None \<Longrightarrow> i < j \<Longrightarrow> j < length rs
     \<Longrightarrow> rf_name (rs ! i) \<noteq> rf_name (rs ! j) \<and> conflicts_with (rs ! i) (rs ! j) = None"
proof (induction rs arbitrary: i j)
  case (Cons a rs)
  then have "check_against a rs = None" "check_conflicts rs = None" by (auto split: option.splits)
  with Cons show ?case
    by (cases i; cases j) (auto dest: check_against_None [OF _ nth_mem])
qed simp

lemma relay_overlap_None:
  "relay_overlap r others = None \<Longrightarrow> f \<in> set (flows r) \<Longrightarrow> fl_protocol f = UdpRelay \<Longrightarrow> g \<in> set others \<Longrightarrow> \<not> flow_overlaps f g"
  by (auto simp: relay_overlap_def Let_def find_None_iff)

lemma flow_overlaps_sym: "flow_overlaps f g = flow_overlaps g f"
proof -
  have "reach_overlaps a b = reach_overlaps b a" for a b by (cases a; cases b) (auto simp: families_overlap_def)
  then show ?thesis by (auto simp: flow_overlaps_def)
qed

text \<open>What a flow of a protocol says of its entry.\<close>

lemma flow_protocol_enabled:
  assumes "f \<in> set (flows r)" "flow_admits bc f i e p"
  shows "fl_protocol f = Wol \<Longrightarrow> \<exists>w. rf_wol r = Some w \<and> snd (p_dest p) \<in> set (wol_ports w)"
    and "fl_protocol f = Mdns \<Longrightarrow> rf_mdns r \<noteq> None" and "fl_protocol f = Ssdp \<Longrightarrow> rf_ssdp r \<noteq> None"
    and "fl_protocol f = Wsd \<Longrightarrow> rf_wsd r"
    and "fl_protocol f \<noteq> UdpRelay \<Longrightarrow> family_uses (rf_family r) (fst (p_dest p))"
  using assms
  by (cases "rf_wol r"; cases "rf_udp r";
      auto simp: flows_def discovery_flows_def direction_flows_def flow_admits_def split: if_splits)+

lemma shared_protocolI:
  assumes "l \<in> set (directions a)" "l \<in> set (directions b)" "macs_overlap (rf_macs a) (rf_macs b)"
    "families_overlap (rf_family a) (rf_family b)"
    "(\<exists>w v port. rf_wol a = Some w \<and> rf_wol b = Some v \<and> port \<in> set (wol_ports w) \<and> port \<in> set (wol_ports v))
      \<or> rf_mdns a \<noteq> None \<and> rf_mdns b \<noteq> None \<or> rf_ssdp a \<noteq> None \<and> rf_ssdp b \<noteq> None \<or> rf_wsd a \<and> rf_wsd b"
  shows "shared_protocol a b \<noteq> None"
proof -
  obtain l' where "find (\<lambda>mine. mine \<in> set (directions b)) (directions a) = Some l'"
    using assms(1,2) by (cases "find (\<lambda>mine. mine \<in> set (directions b)) (directions a)") (auto simp: find_None_iff simp del: split_paired_All split_paired_Ex)
  with assms(3-5) show ?thesis by (auto simp: shared_protocol_def split: option.splits)
qed

lemma no_duplicate_pair:
  assumes none: "conflicts_with a b = None" and valid: "lists_valid a" "lists_valid b" and bc: "sane_broadcast bc"
    and a: "reflects_device bc a q i e p mac" and b: "reflects_device bc b q' i e p mac"
    and same: "q = q' \<or> q = UdpRelay \<or> q' = UdpRelay"
  shows False
proof -
  from none have parts: "shared_protocol a b = None" "relay_overlap a (flows b) = None" "relay_overlap b (flows a) = None"
    by (auto simp: conflicts_with_def split: option.splits)
  from a obtain f where f: "f \<in> set (flows a)" "fl_protocol f = q" "flow_admits bc f i e p"
    by (auto simp: reflects_device_def)
  from b obtain g where g: "g \<in> set (flows b)" "fl_protocol g = q'" "flow_admits bc g i e p"
    by (auto simp: reflects_device_def)
  have meet: "flow_overlaps f g"
    by (rule flows_meet [OF f(3) g(3) _ _ bc]) (use flows_reach_valid valid f(1) g(1) in blast)+
  consider "q = UdpRelay" | "q' = UdpRelay" | "q = q'" "q \<noteq> UdpRelay" using same by blast
  then show False
  proof cases
    case 1
    with relay_overlap_None [OF parts(2) f(1) _ g(1)] f(2) meet show False by simp
  next
    case 2
    with relay_overlap_None [OF parts(3) g(1) _ f(1)] g(2) meet flow_overlaps_sym show False by blast
  next
    case 3
    then have macs: "macs_overlap (rf_macs a) (rf_macs b)"
      using a b by (auto simp: reflects_device_def macs_overlap_def macs_allow_def split: option.splits)
    have fam: "families_overlap (rf_family a) (rf_family b)"
      using flow_protocol_enabled(5) [OF f(1,3)] flow_protocol_enabled(5) [OF g(1,3)] 3 f(2) g(2)
      by (auto simp: family_uses_def families_overlap_def split: ipaddr.splits)
    let ?l = "if q = Wol \<or> q = UdpRelay then (i, e) else (e, i)"
    have leg: "?l \<in> set (directions a)" "?l \<in> set (directions b)"
      using a b 3(1) by (simp_all add: reflects_device_def)
    have enabled: "q = Wol \<Longrightarrow> \<exists>w v port. rf_wol a = Some w \<and> rf_wol b = Some v \<and> port \<in> set (wol_ports w) \<and> port \<in> set (wol_ports v)"
      "q = Mdns \<Longrightarrow> rf_mdns a \<noteq> None \<and> rf_mdns b \<noteq> None" "q = Ssdp \<Longrightarrow> rf_ssdp a \<noteq> None \<and> rf_ssdp b \<noteq> None"
      "q = Wsd \<Longrightarrow> rf_wsd a \<and> rf_wsd b" "q = Wol \<or> q = Mdns \<or> q = Ssdp \<or> q = Wsd"
      using flow_protocol_enabled(1-4) [OF f(1,3)] flow_protocol_enabled(1-4) [OF g(1,3)] f(2) g(2) 3
      by (fastforce, simp_all) (metis protocol.exhaust)
    have "shared_protocol a b \<noteq> None"
      by (rule shared_protocolI [OF leg macs fam])
        (use enabled in auto)
    with parts(1) show False by simp
  qed
qed

text \<open>C29. The rule the configuration check enforces. In a list of entries it accepts, names are
  distinct, and no packet about a device is reflected from one interface to another by two entries
  as the same protocol, nor by one entry's UDP relay and another entry's anything.\<close>

theorem no_duplicate_reflection:
  assumes "check_conflicts rs = None" and "\<forall>r \<in> set rs. lists_valid r" and "sane_broadcast bc"
    and "i < length rs" "j < length rs" "i \<noteq> j"
  shows "rf_name (rs ! i) \<noteq> rf_name (rs ! j)
    \<and> \<not> (reflects_device bc (rs ! i) q ingress egress p mac \<and> reflects_device bc (rs ! j) q' ingress egress p mac
        \<and> (q = q' \<or> q = UdpRelay \<or> q' = UdpRelay))"
proof -
  have valid: "lists_valid (rs ! i)" "lists_valid (rs ! j)" using assms by auto
  consider "i < j" | "j < i" using assms(6) by linarith
  then show ?thesis
  proof cases
    case 1
    note pair = check_conflicts_None [OF assms(1) 1 assms(5)]
    with no_duplicate_pair [OF conjunct2 [OF pair] valid assms(3)] show ?thesis by blast
  next
    case 2
    note pair = check_conflicts_None [OF assms(1) 2 assms(4)]
    with no_duplicate_pair [OF conjunct2 [OF pair] valid(2,1) assms(3)] show ?thesis by metis
  qed
qed

definition sample_entry :: "bytes \<Rightarrow> mac_addr list option \<Rightarrow> reflector" where
  "sample_entry name macs = \<lparr>rf_name = name, rf_source_if = bstr ''lan'', rf_target_if = bstr ''iot'',
     rf_source_peers = None, rf_target_peers = None, rf_macs = macs, rf_family = FamilyDefault,
     rf_wol = Some \<lparr>wol_ports = [7, 9]\<rparr>, rf_mdns = Some \<lparr>md_services = None\<rparr>, rf_ssdp = None, rf_wsd = False,
     rf_bidirectional = False, rf_udp = None\<rparr>"

lemma no_duplicate_reflection_witness:
  "let a = sample_entry (bstr ''tv'') (Some [MacAddr 2 0 0 0 0 1]); b = sample_entry (bstr ''nas'') (Some [MacAddr 2 0 0 0 0 2]);
       p = packet_to (V4 MDNS_GROUP_V4)\<lparr>p_dest := (V4 MDNS_GROUP_V4, MDNS_PORT)\<rparr>
   in reflects_device None a Mdns (bstr ''iot'') (bstr ''lan'') p (MacAddr 2 0 0 0 0 1)
    \<and> \<not> reflects_device None b Mdns (bstr ''iot'') (bstr ''lan'') p (MacAddr 2 0 0 0 0 1)"
proof -
  let ?a = "sample_entry (bstr ''tv'') (Some [MacAddr 2 0 0 0 0 1])"
  let ?b = "sample_entry (bstr ''nas'') (Some [MacAddr 2 0 0 0 0 2])"
  let ?p = "packet_to (V4 MDNS_GROUP_V4)\<lparr>p_dest := (V4 MDNS_GROUP_V4, MDNS_PORT)\<rparr>"
  have ok: "check_conflicts [?a, ?b] = None" by code_simp
  have a: "reflects_device None ?a Mdns (bstr ''iot'') (bstr ''lan'') ?p (MacAddr 2 0 0 0 0 1)" by code_simp
  have valid: "\<forall>r \<in> set [?a, ?b]. lists_valid r" by (simp add: lists_valid_def sample_entry_def)
  have "\<not> reflects_device None ?b Mdns (bstr ''iot'') (bstr ''lan'') ?p (MacAddr 2 0 0 0 0 1)"
    using no_duplicate_reflection [OF ok valid, of None 0 1 Mdns "bstr ''iot''" "bstr ''lan''" ?p "MacAddr 2 0 0 0 0 1" Mdns] a
    by (simp add: sane_broadcast_def)
  with a show ?thesis unfolding Let_def by blast
qed

end
