(* ===== verification/Config_Load.thy ===== *)
theory Config_Load
  imports Config "HOL-Library.List_Lexorder" "HOL-Library.Multiset"
begin

text \<open>
  \<^verbatim>\<open>src/src/config.rs\<close>, \<^verbatim>\<open>config/raw.rs\<close>, \<^verbatim>\<open>config/env.rs\<close> and \<^verbatim>\<open>config/error.rs\<close>: the raw configuration, the
  environment variables that fill one, their merge with the file's, and the validation of every
  entry. The TOML deserializer is a library; it enters as the function from the text of the file to
  a raw configuration. A \<^verbatim>\<open>BTreeMap\<close> is its association list in key order.
\<close>

section \<open>Ordered maps\<close>

type_synonym 'v btree_map = "(bytes \<times> 'v) list"

fun bt_insert :: "bytes \<Rightarrow> 'v \<Rightarrow> 'v btree_map \<Rightarrow> 'v btree_map" where
  "bt_insert k v [] = [(k, v)]"
| "bt_insert k v ((k', v') # m) =
     (if k = k' then (k, v) # m else if k < k' then (k, v) # (k', v') # m else (k', v') # bt_insert k v m)"

definition bt_inv :: "'v btree_map \<Rightarrow> bool" where
  "bt_inv m \<longleftrightarrow> sorted_wrt (<) (map fst m)"

lemma bt_insert_map_of: "map_of (bt_insert k v m) = (map_of m)(k \<mapsto> v)"
  by (induction k v m rule: bt_insert.induct) auto

lemma bt_insert_keys: "fst ` set (bt_insert k v m) = insert k (fst ` set m)"
  by (induction k v m rule: bt_insert.induct) auto

lemma bt_insert_inv: "bt_inv m \<Longrightarrow> bt_inv (bt_insert k v m)"
proof (induction k v m rule: bt_insert.induct)
  case (2 k v k' v' m)
  then have rest: "bt_inv m" and less: "\<forall>x \<in> fst ` set m. k' < x" by (auto simp: bt_inv_def)
  consider "k = k'" | "k < k'" | "k' < k" by fastforce
  then show ?case
  proof cases
    case 2
    then show ?thesis using \<open>bt_inv ((k', v') # m)\<close> by (auto simp: bt_inv_def)
  next
    case 3
    then have "bt_inv (bt_insert k v m)" using 2(1) rest by fastforce
    moreover have "\<forall>x \<in> fst ` set (bt_insert k v m). k' < x" using less 3 by (simp add: bt_insert_keys)
    ultimately show ?thesis using 3 by (auto simp: bt_inv_def)
  qed (use 2 in \<open>auto simp: bt_inv_def\<close>)
qed (simp add: bt_inv_def)

text \<open>Two ordered maps with the same entries are the same list.\<close>

lemma bt_map_of_inject:
  assumes "bt_inv m" "bt_inv n" "map_of m = map_of n"
  shows "m = n"
proof -
  have keys: "map fst m = map fst n"
  proof (rule sorted_distinct_set_unique)
    show "set (map fst m) = set (map fst n)" using assms(3) by (metis dom_map_of_conv_image_fst list.set_map)
  qed (use assms(1,2) in \<open>auto simp: bt_inv_def strict_sorted_iff\<close>)
  have "map (\<lambda>k. (k, the (map_of l k))) (map fst l) = l" if "bt_inv l" for l :: "'a btree_map"
    using that by (auto simp: bt_inv_def strict_sorted_iff intro!: map_idI)
  from this [OF assms(1)] this [OF assms(2)] keys assms(3) show ?thesis by metis
qed

section \<open>Errors\<close>

datatype required_field = FieldSourceIf | FieldTargetIf

datatype parse_value_error =
    PvLogLevel | PvLogTarget | PvAddressFamily | PvMacs "mac_addr list_error" | PvServices "service_type list_error"
  | PvInterface parse_interface_name_error | PvPorts "u16 list_error" | PvAddresses "ipaddr list_error"
  | PvReflectorName | PvRunAs | PvBool | PvInteger

datatype config_error =
    ConfigParse bytes
  | NoReflectors
  | EmptyReflectorName bytes
  | SameInterface reflector_name interface_name
  | NoProtocol reflector_name
  | UdpRelayWithoutPorts reflector_name
  | UdpRelayNoDestination reflector_name
  | UdpGroupFamily reflector_name ipaddr
  | PeerFamily reflector_name ipaddr
  | UdpBroadcastFamily reflector_name
  | Ipv6OnlyRelay reflector_name
  | Ipv6OnlyPeers reflector_name bytes
  | UdpRelayDuplicates reflector_name u16 protocol
  | WolPortsWithoutWol reflector_name
  | MdnsServicesWithoutMdns reflector_name
  | MacsUnused reflector_name
  | DialWithoutSsdp reflector_name
  | DialRequiresIpv4 reflector_name
  | DuplicateReflector bytes
  | ConflictError conflict
  | EnvMalformedVar bytes
  | EnvInvalidTag bytes bytes
  | EnvReservedTag bytes
  | EnvUnknownParam bytes bytes
  | EnvDuplicateParam bytes bytes
  | EnvBadValue bytes bytes parse_value_error
  | EnvMissingField bytes required_field
  | IntervalTooLarge bytes nat nat

section \<open>The raw configuration\<close>

record raw_reflector =
  rr_name :: "reflector_name option"
  rr_source_if :: interface_name
  rr_target_if :: interface_name
  rr_source_peers :: "ipaddr list option"
  rr_target_peers :: "ipaddr list option"
  rr_macs :: "mac_addr list option"
  rr_family :: address_family
  rr_wol :: bool
  rr_wol_ports :: "u16 list option"
  rr_mdns :: bool
  rr_mdns_services :: "service_type list option"
  rr_ssdp :: bool
  rr_dial :: bool
  rr_wsd :: bool
  rr_bidirectional :: bool
  rr_udp_ports :: "u16 list option"
  rr_udp_groups :: "ipaddr list option"
  rr_udp_broadcast :: bool

record raw_config =
  rc_log_level :: "log_level option"
  rc_log_target :: "log_target option"
  rc_user :: "run_as option"
  rc_debug_memory_interval_secs :: "nat option"
  rc_counters_interval_secs :: "nat option"
  rc_reflectors :: "raw_reflector btree_map"

definition raw_config_default :: raw_config where
  "raw_config_default = \<lparr>rc_log_level = None, rc_log_target = None, rc_user = None,
     rc_debug_memory_interval_secs = None, rc_counters_interval_secs = None, rc_reflectors = []\<rparr>"

definition or_else :: "'a option \<Rightarrow> 'a option \<Rightarrow> 'a option" where
  "or_else a b = (case a of Some x \<Rightarrow> Some x | None \<Rightarrow> b)"

fun merge_reflectors :: "raw_reflector btree_map \<Rightarrow> raw_reflector btree_map \<Rightarrow> (config_error, raw_reflector btree_map) result" where
  "merge_reflectors mine [] = Inr mine"
| "merge_reflectors mine ((name, r) # env) =
     (if \<exists>k \<in> fst ` set mine. eq_ignore_ascii_case (trim_str k) name then Inl (DuplicateReflector name)
      else merge_reflectors (bt_insert name r mine) env)"

definition merge_env :: "raw_config \<Rightarrow> raw_config \<Rightarrow> (config_error, raw_config) result" where
  "merge_env c env =
     result_bind (merge_reflectors (rc_reflectors c) (rc_reflectors env)) (\<lambda>rs.
       Inr (c\<lparr>rc_user := or_else (rc_user env) (rc_user c),
         rc_debug_memory_interval_secs := or_else (rc_debug_memory_interval_secs env) (rc_debug_memory_interval_secs c),
         rc_counters_interval_secs := or_else (rc_counters_interval_secs env) (rc_counters_interval_secs c),
         rc_reflectors := rs\<rparr>))"

section \<open>The environment\<close>

record partial_reflector =
  pr_name :: "reflector_name option"
  pr_source_if :: "interface_name option"
  pr_target_if :: "interface_name option"
  pr_source_peers :: "ipaddr list option"
  pr_target_peers :: "ipaddr list option"
  pr_macs :: "mac_addr list option"
  pr_wol :: "bool option"
  pr_mdns :: "bool option"
  pr_mdns_services :: "service_type list option"
  pr_ssdp :: "bool option"
  pr_dial :: "bool option"
  pr_wsd :: "bool option"
  pr_bidirectional :: "bool option"
  pr_wol_ports :: "u16 list option"
  pr_udp_ports :: "u16 list option"
  pr_udp_groups :: "ipaddr list option"
  pr_udp_broadcast :: "bool option"
  pr_family :: "address_family option"

definition partial_default :: partial_reflector where
  "partial_default = \<lparr>pr_name = None, pr_source_if = None, pr_target_if = None, pr_source_peers = None,
     pr_target_peers = None, pr_macs = None, pr_wol = None, pr_mdns = None, pr_mdns_services = None, pr_ssdp = None,
     pr_dial = None, pr_wsd = None, pr_bidirectional = None, pr_wol_ports = None, pr_udp_ports = None,
     pr_udp_groups = None, pr_udp_broadcast = None, pr_family = None\<rparr>"

text \<open>\<^verbatim>\<open>env_value\<close> on the parser of its type: a parse error is wrapped with the variable and its value.\<close>

definition map_err :: "('e \<Rightarrow> 'f) \<Rightarrow> ('e, 'a) result \<Rightarrow> ('f, 'a) result" where
  "map_err f r = (case r of Inl e \<Rightarrow> Inl (f e) | Inr a \<Rightarrow> Inr a)"

definition env_value :: "(bytes \<Rightarrow> (parse_value_error, 'a) result) \<Rightarrow> bytes \<Rightarrow> bytes \<Rightarrow> (config_error, 'a) result" where
  "env_value parse v var = map_err (EnvBadValue var v) (parse v)"

definition env_bool :: "bytes \<Rightarrow> bytes \<Rightarrow> (config_error, bool) result" where
  "env_bool v var =
     (let t = to_ascii_lowercase v in
      if t = bstr ''true'' \<or> t = bstr ''1'' then Inr True
      else if t = bstr ''false'' \<or> t = bstr ''0'' then Inr False
      else Inl (EnvBadValue var v PvBool))"

definition parse_u64 :: "bytes \<Rightarrow> (parse_value_error, nat) result" where
  "parse_u64 s = ok_or PvInteger (parse_uint 10 18446744073709551615 s)"

definition put :: "'a option \<Rightarrow> 'a \<Rightarrow> bytes \<Rightarrow> bytes \<Rightarrow> (config_error, 'a option) result" where
  "put slot v param var =
     (case slot of Some _ \<Rightarrow> Inl (EnvDuplicateParam var param) | None \<Rightarrow> Inr (Some v))"

text \<open>One arm of the match: parse, then write the slot once.\<close>

definition set_slot :: "(config_error, 'a) result \<Rightarrow> 'a option \<Rightarrow> ('a option \<Rightarrow> partial_reflector) \<Rightarrow> bytes \<Rightarrow> bytes
    \<Rightarrow> (config_error, partial_reflector) result" where
  "set_slot parsed slot store param var =
     result_bind parsed (\<lambda>v. result_bind (put slot v param var) (\<lambda>s. Inr (store s)))"

definition partial_set :: "partial_reflector \<Rightarrow> bytes \<Rightarrow> bytes \<Rightarrow> bytes \<Rightarrow> (config_error, partial_reflector) result" where
  "partial_set r param v var =
     (if param = bstr ''name'' then
        set_slot (env_value (\<lambda>v. ok_or PvReflectorName (reflector_name_from_str v)) v var) (pr_name r) (\<lambda>s. r\<lparr>pr_name := s\<rparr>) param var
      else if param = bstr ''source_if'' then
        set_slot (env_value (map_err PvInterface \<circ> interface_name_from_str) v var) (pr_source_if r) (\<lambda>s. r\<lparr>pr_source_if := s\<rparr>) param var
      else if param = bstr ''target_if'' then
        set_slot (env_value (map_err PvInterface \<circ> interface_name_from_str) v var) (pr_target_if r) (\<lambda>s. r\<lparr>pr_target_if := s\<rparr>) param var
      else if param = bstr ''source_peers'' then
        set_slot (env_value (map_err PvAddresses \<circ> peer_list_from_str) v var) (pr_source_peers r) (\<lambda>s. r\<lparr>pr_source_peers := s\<rparr>) param var
      else if param = bstr ''target_peers'' then
        set_slot (env_value (map_err PvAddresses \<circ> peer_list_from_str) v var) (pr_target_peers r) (\<lambda>s. r\<lparr>pr_target_peers := s\<rparr>) param var
      else if param = bstr ''macs'' then
        set_slot (env_value (map_err PvMacs \<circ> mac_set_from_str) v var) (pr_macs r) (\<lambda>s. r\<lparr>pr_macs := s\<rparr>) param var
      else if param = bstr ''wol_ports'' then
        set_slot (env_value (map_err PvPorts \<circ> port_list_from_str) v var) (pr_wol_ports r) (\<lambda>s. r\<lparr>pr_wol_ports := s\<rparr>) param var
      else if param = bstr ''address_family'' then
        set_slot (env_value (\<lambda>v. ok_or PvAddressFamily (address_family_from_str v)) v var) (pr_family r) (\<lambda>s. r\<lparr>pr_family := s\<rparr>) param var
      else if param = bstr ''wol'' then
        set_slot (env_bool v var) (pr_wol r) (\<lambda>s. r\<lparr>pr_wol := s\<rparr>) param var
      else if param = bstr ''mdns'' then
        set_slot (env_bool v var) (pr_mdns r) (\<lambda>s. r\<lparr>pr_mdns := s\<rparr>) param var
      else if param = bstr ''mdns_services'' then
        set_slot (env_value (map_err PvServices \<circ> service_list_from_str) v var) (pr_mdns_services r) (\<lambda>s. r\<lparr>pr_mdns_services := s\<rparr>) param var
      else if param = bstr ''ssdp'' then
        set_slot (env_bool v var) (pr_ssdp r) (\<lambda>s. r\<lparr>pr_ssdp := s\<rparr>) param var
      else if param = bstr ''dial'' then
        set_slot (env_bool v var) (pr_dial r) (\<lambda>s. r\<lparr>pr_dial := s\<rparr>) param var
      else if param = bstr ''wsd'' then
        set_slot (env_bool v var) (pr_wsd r) (\<lambda>s. r\<lparr>pr_wsd := s\<rparr>) param var
      else if param = bstr ''bidirectional'' then
        set_slot (env_bool v var) (pr_bidirectional r) (\<lambda>s. r\<lparr>pr_bidirectional := s\<rparr>) param var
      else if param = bstr ''udp_ports'' then
        set_slot (env_value (map_err PvPorts \<circ> port_list_from_str) v var) (pr_udp_ports r) (\<lambda>s. r\<lparr>pr_udp_ports := s\<rparr>) param var
      else if param = bstr ''udp_groups'' then
        set_slot (env_value (map_err PvAddresses \<circ> group_list_from_str) v var) (pr_udp_groups r) (\<lambda>s. r\<lparr>pr_udp_groups := s\<rparr>) param var
      else if param = bstr ''udp_broadcast'' then
        set_slot (env_bool v var) (pr_udp_broadcast r) (\<lambda>s. r\<lparr>pr_udp_broadcast := s\<rparr>) param var
      else Inl (EnvUnknownParam var param))"

definition into_raw :: "partial_reflector \<Rightarrow> bytes \<Rightarrow> (config_error, raw_reflector) result" where
  "into_raw p name =
     result_bind (ok_or (EnvMissingField name FieldSourceIf) (pr_source_if p)) (\<lambda>source_if.
     result_bind (ok_or (EnvMissingField name FieldTargetIf) (pr_target_if p)) (\<lambda>target_if.
     Inr \<lparr>rr_name = pr_name p, rr_source_if = source_if, rr_target_if = target_if,
          rr_source_peers = pr_source_peers p, rr_target_peers = pr_target_peers p, rr_macs = pr_macs p,
          rr_family = (case pr_family p of Some f \<Rightarrow> f | None \<Rightarrow> FamilyDefault),
          rr_wol = (pr_wol p = Some True), rr_wol_ports = pr_wol_ports p,
          rr_mdns = (pr_mdns p = Some True), rr_mdns_services = pr_mdns_services p,
          rr_ssdp = (pr_ssdp p = Some True), rr_dial = (pr_dial p = Some True), rr_wsd = (pr_wsd p = Some True),
          rr_bidirectional = (pr_bidirectional p = Some True), rr_udp_ports = pr_udp_ports p,
          rr_udp_groups = pr_udp_groups p, rr_udp_broadcast = (pr_udp_broadcast p = Some True)\<rparr>))"

record env_state =
  es_user :: "run_as option"
  es_debug_memory_interval_secs :: "nat option"
  es_counters_interval_secs :: "nat option"
  es_partials :: "partial_reflector btree_map"

definition env_start :: env_state where
  "env_start = \<lparr>es_user = None, es_debug_memory_interval_secs = None, es_counters_interval_secs = None, es_partials = []\<rparr>"

text \<open>The tag of a variable past its prefix, lowercased, and the parameter.\<close>

definition env_tag :: "bytes \<Rightarrow> bytes \<Rightarrow> (config_error, bytes \<times> bytes) result" where
  "env_tag key rest =
     result_bind (ok_or (EnvMalformedVar key) (split_once 95 rest)) (\<lambda>(tag, param).
       if tag = [] \<or> \<not> list_all is_ascii_alphanumeric tag then Inl (EnvInvalidTag key tag)
       else let tag = to_ascii_lowercase tag in
         if tag = bstr ''log'' \<or> tag = bstr ''debug'' \<or> tag = bstr ''counters'' then Inl (EnvReservedTag key)
         else Inr (tag, to_ascii_lowercase param))"

definition env_var :: "env_state \<Rightarrow> bytes \<times> bytes \<Rightarrow> (config_error, env_state) result" where
  "env_var st kv =
     (case kv of (key, v) \<Rightarrow>
        case strip_prefix (bstr ''NETFLECTOR_'') key of
          None \<Rightarrow> Inr st
        | Some rest \<Rightarrow>
            if rest = bstr ''LOG_LEVEL'' then
              result_bind (env_value (\<lambda>v. ok_or PvLogLevel (log_level_from_str v)) v key) (\<lambda>_. Inr st)
            else if rest = bstr ''LOG_TARGET'' then
              result_bind (env_value (\<lambda>v. ok_or PvLogTarget (log_target_from_str v)) v key) (\<lambda>_. Inr st)
            else if rest = bstr ''USER'' then
              result_bind (env_value (\<lambda>v. ok_or PvRunAs (run_as_from_str v)) v key) (\<lambda>u. Inr (st\<lparr>es_user := Some u\<rparr>))
            else if rest = bstr ''DEBUG_MEMORY_INTERVAL_SECS'' then
              result_bind (env_value parse_u64 v key) (\<lambda>n. Inr (st\<lparr>es_debug_memory_interval_secs := Some n\<rparr>))
            else if rest = bstr ''COUNTERS_INTERVAL_SECS'' then
              result_bind (env_value parse_u64 v key) (\<lambda>n. Inr (st\<lparr>es_counters_interval_secs := Some n\<rparr>))
            else
              result_bind (env_tag key rest) (\<lambda>(tag, param).
              let p = (case map_of (es_partials st) tag of Some p \<Rightarrow> p | None \<Rightarrow> partial_default) in
              result_bind (partial_set p param v key) (\<lambda>p.
              Inr (st\<lparr>es_partials := bt_insert tag p (es_partials st)\<rparr>))))"

fun env_loop :: "env_state \<Rightarrow> (bytes \<times> bytes) list \<Rightarrow> (config_error, env_state) result" where
  "env_loop st [] = Inr st"
| "env_loop st (kv # vars) = result_bind (env_var st kv) (\<lambda>st. env_loop st vars)"

fun into_raws :: "partial_reflector btree_map \<Rightarrow> raw_reflector btree_map \<Rightarrow> (config_error, raw_reflector btree_map) result" where
  "into_raws [] acc = Inr acc"
| "into_raws ((name, p) # ps) acc =
     result_bind (into_raw p name) (\<lambda>raw. into_raws ps (bt_insert name raw acc))"

definition parse_env :: "(bytes \<times> bytes) list \<Rightarrow> (config_error, raw_config) result" where
  "parse_env vars =
     result_bind (env_loop env_start vars) (\<lambda>st.
     result_bind (into_raws (es_partials st) []) (\<lambda>rs.
     Inr \<lparr>rc_log_level = None, rc_log_target = None, rc_user = es_user st,
          rc_debug_memory_interval_secs = es_debug_memory_interval_secs st,
          rc_counters_interval_secs = es_counters_interval_secs st, rc_reflectors = rs\<rparr>))"

definition env_find :: "(bytes \<times> bytes) list \<Rightarrow> bytes \<Rightarrow> (bytes \<Rightarrow> (parse_value_error, 'a) result) \<Rightarrow> (config_error, 'a option) result" where
  "env_find vars var parse =
     (case find (\<lambda>(key, _). key = var) vars of
        None \<Rightarrow> Inr None
      | Some (key, v) \<Rightarrow> result_bind (env_value parse v key) (\<lambda>x. Inr (Some x)))"

definition logging_from_env :: "(bytes \<times> bytes) list \<Rightarrow> (config_error, log_level option \<times> log_target option) result" where
  "logging_from_env vars =
     result_bind (env_find vars (bstr ''NETFLECTOR_LOG_LEVEL'') (\<lambda>v. ok_or PvLogLevel (log_level_from_str v))) (\<lambda>level.
     result_bind (env_find vars (bstr ''NETFLECTOR_LOG_TARGET'') (\<lambda>v. ok_or PvLogTarget (log_target_from_str v))) (\<lambda>tgt.
     Inr (level, tgt)))"

section \<open>Validation\<close>

definition WOL_DEFAULT_PORTS :: "u16 list" where "WOL_DEFAULT_PORTS = [7, 9]"

definition list_or_empty :: "'a list option \<Rightarrow> 'a list" where
  "list_or_empty l = (case l of Some xs \<Rightarrow> xs | None \<Rightarrow> [])"

definition peer_of_unused_family :: "raw_reflector \<Rightarrow> ipaddr option" where
  "peer_of_unused_family raw =
     find (\<lambda>peer. \<not> family_uses (rr_family raw) peer)
       (list_or_empty (rr_source_peers raw) @ list_or_empty (rr_target_peers raw))"

definition check_peers :: "raw_reflector \<Rightarrow> reflector_name \<Rightarrow> (config_error, unit) result" where
  "check_peers raw name =
     (case peer_of_unused_family raw of Some peer \<Rightarrow> Inl (PeerFamily name peer) | None \<Rightarrow> Inr ())"

definition relay_of :: "raw_reflector \<Rightarrow> reflector_name \<Rightarrow> (config_error, udp_relay option) result" where
  "relay_of raw name =
     (case (rr_udp_ports raw, rr_udp_groups raw, rr_udp_broadcast raw) of
        (None, None, False) \<Rightarrow> Inr None
      | (None, _, _) \<Rightarrow> Inl (UdpRelayWithoutPorts name)
      | (Some _, None, False) \<Rightarrow> Inl (UdpRelayNoDestination name)
      | (Some ports, groups, broadcast) \<Rightarrow>
          if broadcast \<and> \<not> uses_ipv4 (rr_family raw) then Inl (UdpBroadcastFamily name)
          else case find (\<lambda>g. \<not> family_uses (rr_family raw) g) (list_or_empty groups) of
              Some g \<Rightarrow> Inl (UdpGroupFamily name g)
            | None \<Rightarrow> Inr (Some \<lparr>ur_ports = ports, ur_groups = groups, ur_broadcast = broadcast\<rparr>))"

text \<open>The checks between the relay and the entry itself.\<close>

definition check_raw :: "raw_reflector \<Rightarrow> udp_relay option \<Rightarrow> reflector_name \<Rightarrow> (config_error, unit) result" where
  "check_raw raw udp name =
     (if \<not> rr_wol raw \<and> \<not> rr_mdns raw \<and> \<not> rr_ssdp raw \<and> \<not> rr_wsd raw \<and> udp = None then Inl (NoProtocol name)
      else if rr_wol_ports raw \<noteq> None \<and> \<not> rr_wol raw then Inl (WolPortsWithoutWol name)
      else if rr_mdns_services raw \<noteq> None \<and> \<not> rr_mdns raw then Inl (MdnsServicesWithoutMdns name)
      else if rr_macs raw \<noteq> None \<and> \<not> rr_wol raw \<and> \<not> rr_mdns raw \<and> \<not> rr_ssdp raw \<and> \<not> rr_wsd raw then Inl (MacsUnused name)
      else if rr_dial raw \<and> \<not> rr_ssdp raw then Inl (DialWithoutSsdp name)
      else if rr_ssdp raw \<and> rr_dial raw \<and> \<not> uses_ipv4 (rr_family raw) then Inl (DialRequiresIpv4 name)
      else Inr ())"

definition entry_of :: "raw_reflector \<Rightarrow> udp_relay option \<Rightarrow> reflector_name \<Rightarrow> reflector" where
  "entry_of raw udp name =
     \<lparr>rf_name = name, rf_source_if = rr_source_if raw, rf_target_if = rr_target_if raw,
      rf_source_peers = rr_source_peers raw, rf_target_peers = rr_target_peers raw, rf_macs = rr_macs raw,
      rf_family = rr_family raw,
      rf_wol = (if rr_wol raw then Some \<lparr>wol_ports = (case rr_wol_ports raw of Some ps \<Rightarrow> ps | None \<Rightarrow> WOL_DEFAULT_PORTS)\<rparr> else None),
      rf_mdns = (if rr_mdns raw then Some \<lparr>md_services = rr_mdns_services raw\<rparr> else None),
      rf_ssdp = (if rr_ssdp raw then Some \<lparr>sd_dial = rr_dial raw\<rparr> else None),
      rf_wsd = rr_wsd raw, rf_bidirectional = rr_bidirectional raw, rf_udp = udp\<rparr>"

definition reflector_try_from :: "bytes \<Rightarrow> raw_reflector \<Rightarrow> (config_error, reflector) result" where
  "reflector_try_from key raw =
     result_bind (case rr_name raw of Some name \<Rightarrow> Inr name
                  | None \<Rightarrow> ok_or (EmptyReflectorName key) (reflector_name_from_str key)) (\<lambda>name.
     result_bind (check_peers raw name) (\<lambda>_.
     if rr_source_if raw = rr_target_if raw then Inl (SameInterface name (rr_source_if raw))
     else
       result_bind (relay_of raw name) (\<lambda>udp.
       result_bind (check_raw raw udp name) (\<lambda>_.
       let r = entry_of raw udp name in
       case relay_duplicates r of
         Some (protocol, port) \<Rightarrow> Inl (UdpRelayDuplicates name port protocol)
       | None \<Rightarrow> Inr r))))"

record config =
  cf_user :: "run_as option"
  cf_debug_memory_interval :: "nat option"
  cf_counter_interval :: "nat option"
  cf_reflectors :: "reflector list"

definition MAX_INTERVAL_SECS :: nat where "MAX_INTERVAL_SECS = 60 * 60 * 24 * 365"

definition interval_from :: "nat option \<Rightarrow> bytes \<Rightarrow> (config_error, nat option) result" where
  "interval_from secs field =
     (case secs of
        Some s \<Rightarrow> if MAX_INTERVAL_SECS < s then Inl (IntervalTooLarge field s MAX_INTERVAL_SECS)
                  else if 0 < s then Inr (Some s) else Inr None
      | None \<Rightarrow> Inr None)"

fun reflectors_try_from :: "raw_reflector btree_map \<Rightarrow> (config_error, reflector list) result" where
  "reflectors_try_from [] = Inr []"
| "reflectors_try_from ((key, raw) # rest) =
     result_bind (reflector_try_from key raw) (\<lambda>r. result_bind (reflectors_try_from rest) (\<lambda>rs. Inr (r # rs)))"

definition config_try_from :: "raw_config \<Rightarrow> (config_error, config) result" where
  "config_try_from raw =
     result_bind (reflectors_try_from (rc_reflectors raw)) (\<lambda>rs.
     if rs = [] then Inl NoReflectors
     else case check_conflicts rs of
         Some c \<Rightarrow> Inl (ConflictError c)
       | None \<Rightarrow>
           result_bind (interval_from (rc_debug_memory_interval_secs raw) (bstr ''debug_memory_interval_secs'')) (\<lambda>mem.
           result_bind (interval_from (rc_counters_interval_secs raw) (bstr ''counters_interval_secs'')) (\<lambda>cnt.
           Inr \<lparr>cf_user = rc_user raw, cf_debug_memory_interval = mem, cf_counter_interval = cnt, cf_reflectors = rs\<rparr>)))"

definition from_sources :: "(bytes \<Rightarrow> (bytes, raw_config) result) \<Rightarrow> bytes option \<Rightarrow> (bytes \<times> bytes) list \<Rightarrow> (config_error, config) result" where
  "from_sources toml_from_str toml_text env =
     result_bind (case toml_text of Some t \<Rightarrow> map_err ConfigParse (toml_from_str t) | None \<Rightarrow> Inr raw_config_default) (\<lambda>raw.
     result_bind (parse_env env) (\<lambda>env_raw.
     result_bind (merge_env raw env_raw) config_try_from))"

section \<open>A host without IPv6\<close>

definition ipv4_part :: "ipaddr list \<Rightarrow> ipaddr list option" where
  "ipv4_part l = (let v4 = filter is_ipv4 l in if v4 = [] then None else Some v4)"

definition fall_back_udp :: "reflector \<Rightarrow> (config_error, udp_relay option) result" where
  "fall_back_udp r =
     (case rf_udp r of
        None \<Rightarrow> Inr None
      | Some udp \<Rightarrow>
          (case ur_groups udp of
             None \<Rightarrow> Inr (Some udp)
           | Some groups \<Rightarrow>
               let udp = udp\<lparr>ur_groups := ipv4_part groups\<rparr> in
               if ur_groups udp = None \<and> \<not> ur_broadcast udp then Inl (Ipv6OnlyRelay (rf_name r)) else Inr (Some udp)))"

definition fall_back_peers :: "reflector_name \<Rightarrow> bytes \<Rightarrow> ipaddr list option \<Rightarrow> (config_error, ipaddr list option) result" where
  "fall_back_peers name field peers =
     (case peers of
        None \<Rightarrow> Inr None
      | Some l \<Rightarrow> result_bind (ok_or (Ipv6OnlyPeers name field) (ipv4_part l)) (\<lambda>l. Inr (Some l)))"

definition fall_back_entry :: "reflector \<Rightarrow> (config_error, reflector) result" where
  "fall_back_entry r =
     (if rf_family r \<noteq> FamilyDefault then Inr r
      else
        result_bind (fall_back_udp r) (\<lambda>udp.
        result_bind (fall_back_peers (rf_name r) (bstr ''source_peers'') (rf_source_peers r)) (\<lambda>sp.
        result_bind (fall_back_peers (rf_name r) (bstr ''target_peers'') (rf_target_peers r)) (\<lambda>tp.
        Inr (r\<lparr>rf_family := FamilyIpv4, rf_udp := udp, rf_source_peers := sp, rf_target_peers := tp\<rparr>)))))"

fun fall_back_entries :: "reflector list \<Rightarrow> (config_error, reflector list) result" where
  "fall_back_entries [] = Inr []"
| "fall_back_entries (r # rs) =
     result_bind (fall_back_entry r) (\<lambda>r. result_bind (fall_back_entries rs) (\<lambda>rs. Inr (r # rs)))"

definition fall_back_to_ipv4 :: "config \<Rightarrow> (config_error, config) result" where
  "fall_back_to_ipv4 c =
     result_bind (fall_back_entries (cf_reflectors c)) (\<lambda>rs. Inr (c\<lparr>cf_reflectors := rs\<rparr>))"

section \<open>Logging, ahead of the rest\<close>

record logging =
  lg_level :: log_level
  lg_target :: log_target

definition resolve_logging :: "(bytes \<Rightarrow> (bytes, log_level option \<times> log_target option) result) \<Rightarrow> bytes option
    \<Rightarrow> (bytes \<times> bytes) list \<Rightarrow> (config_error, logging) result" where
  "resolve_logging toml_probe toml_text env =
     result_bind (logging_from_env env) (\<lambda>(env_level, env_target).
     result_bind (case toml_text of Some t \<Rightarrow> map_err ConfigParse (toml_probe t) | None \<Rightarrow> Inr (None, None)) (\<lambda>(level, tgt).
     Inr \<lparr>lg_level = (case or_else env_level level of Some l \<Rightarrow> l | None \<Rightarrow> LevelInfo),
          lg_target = (case or_else env_target tgt of Some t \<Rightarrow> t | None \<Rightarrow> TargetStderr)\<rparr>))"

section \<open>What validation guarantees\<close>

definition relay_wf :: "address_family \<Rightarrow> udp_relay \<Rightarrow> bool" where
  "relay_wf family u \<longleftrightarrow> (ur_groups u \<noteq> None \<or> ur_broadcast u) \<and> (ur_broadcast u \<longrightarrow> uses_ipv4 family)
     \<and> (\<forall>g \<in> set (list_or_empty (ur_groups u)). family_uses family g)"

definition entry_wf :: "reflector \<Rightarrow> bool" where
  "entry_wf r \<longleftrightarrow> rf_source_if r \<noteq> rf_target_if r
     \<and> (rf_wol r \<noteq> None \<or> rf_mdns r \<noteq> None \<or> rf_ssdp r \<noteq> None \<or> rf_wsd r \<or> rf_udp r \<noteq> None)
     \<and> (\<forall>peer \<in> set (list_or_empty (rf_source_peers r)) \<union> set (list_or_empty (rf_target_peers r)). family_uses (rf_family r) peer)
     \<and> (\<forall>u. rf_udp r = Some u \<longrightarrow> relay_wf (rf_family r) u)
     \<and> (\<forall>d. rf_ssdp r = Some d \<longrightarrow> sd_dial d \<longrightarrow> uses_ipv4 (rf_family r))
     \<and> relay_duplicates r = None"

definition config_wf :: "config \<Rightarrow> bool" where
  "config_wf c \<longleftrightarrow> cf_reflectors c \<noteq> [] \<and> (\<forall>r \<in> set (cf_reflectors c). entry_wf r) \<and> check_conflicts (cf_reflectors c) = None
     \<and> (\<forall>n. cf_debug_memory_interval c = Some n \<or> cf_counter_interval c = Some n \<longrightarrow> 0 < n \<and> n \<le> MAX_INTERVAL_SECS)"

lemma relay_of_wf: "relay_of raw name = Inr (Some u) \<Longrightarrow> relay_wf (rr_family raw) u"
  by (cases "rr_udp_ports raw"; cases "rr_udp_groups raw"; cases "rr_udp_broadcast raw")
    (auto simp: relay_of_def relay_wf_def find_None_iff split: if_splits option.splits)

lemma check_raw_ok:
  "check_raw raw udp name = Inr () \<Longrightarrow> (rr_wol raw \<or> rr_mdns raw \<or> rr_ssdp raw \<or> rr_wsd raw \<or> udp \<noteq> None)
     \<and> (rr_ssdp raw \<and> rr_dial raw \<longrightarrow> uses_ipv4 (rr_family raw))"
  by (auto simp: check_raw_def split: if_splits)

lemma check_peers_ok:
  "check_peers raw name = Inr () \<Longrightarrow>
     \<forall>peer \<in> set (list_or_empty (rr_source_peers raw)) \<union> set (list_or_empty (rr_target_peers raw)). family_uses (rr_family raw) peer"
  by (auto simp: check_peers_def peer_of_unused_family_def find_None_iff split: option.splits)

lemma not_Some_pair: "(\<forall>a b. x \<noteq> Some (a, b)) \<longleftrightarrow> x = None"
  by (cases x) auto

lemma reflector_try_from_wf:
  assumes "reflector_try_from key raw = Inr r"
  shows "entry_wf r"
proof -
  obtain name udp where parts: "check_peers raw name = Inr ()" "rr_source_if raw \<noteq> rr_target_if raw"
    "relay_of raw name = Inr udp" "check_raw raw udp name = Inr ()" "relay_duplicates (entry_of raw udp name) = None"
    "r = entry_of raw udp name"
    using assms by (auto simp: reflector_try_from_def result_bind_Inr_iff Let_def not_Some_pair split: if_splits option.splits)
  have "relay_wf (rr_family raw) u" if "udp = Some u" for u using relay_of_wf parts(3) that by simp
  with check_peers_ok [OF parts(1)] check_raw_ok [OF parts(4)] parts(2,5) show ?thesis
    unfolding entry_wf_def parts(6) by (simp add: entry_of_def) blast
qed

lemma reflectors_try_from_wf: "reflectors_try_from m = Inr rs \<Longrightarrow> r \<in> set rs \<Longrightarrow> entry_wf r"
  by (induction m arbitrary: rs rule: reflectors_try_from.induct)
    (auto simp: result_bind_Inr_iff dest: reflector_try_from_wf)

lemma interval_from_range: "interval_from s field = Inr (Some n) \<Longrightarrow> 0 < n \<and> n \<le> MAX_INTERVAL_SECS"
  by (auto simp: interval_from_def split: option.splits if_splits)

lemma config_try_from_wf: "config_try_from raw = Inr c \<Longrightarrow> config_wf c"
  by (auto simp: config_try_from_def config_wf_def result_bind_Inr_iff reflectors_try_from_wf
      split: if_splits option.splits dest!: interval_from_range)

section \<open>Falling back keeps a valid configuration\<close>

definition reach_within :: "reach \<Rightarrow> reach \<Rightarrow> bool" where
  "reach_within a b \<longleftrightarrow> a = b \<or> a = ReachAny FamilyIpv4 \<and> b = ReachAny FamilyDefault"

definition flow_within :: "flow \<Rightarrow> flow \<Rightarrow> bool" where
  "flow_within f g \<longleftrightarrow> fl_protocol f = fl_protocol g \<and> fl_ingress f = fl_ingress g \<and> fl_egress f = fl_egress g
     \<and> fl_port f = fl_port g \<and> reach_within (fl_reach f) (fl_reach g)"

lemma family_ipv4_narrower:
  "uses_ipv4 FamilyIpv4 = uses_ipv4 FamilyDefault" "uses_ipv6 FamilyIpv4 \<Longrightarrow> uses_ipv6 FamilyDefault"
  "family_uses FamilyIpv4 ip \<Longrightarrow> family_uses FamilyDefault ip"
  by (auto simp: uses_ipv4_def uses_ipv6_def family_uses_def split: ipaddr.splits)

lemma reach_overlaps_within:
  assumes "reach_within a a'" "reach_within b b'" "reach_overlaps a b"
  shows "reach_overlaps a' b'"
  using assms family_ipv4_narrower
  by (cases a; cases b) (auto simp: reach_within_def families_overlap_def)

lemma flow_overlaps_within: "flow_within f f' \<Longrightarrow> flow_within g g' \<Longrightarrow> flow_overlaps f g \<Longrightarrow> flow_overlaps f' g'"
  using reach_overlaps_within by (auto simp: flow_within_def flow_overlaps_def)

text \<open>What the fallback makes of an entry on the default family.\<close>

lemma fall_back_entry_cases:
  assumes "fall_back_entry r = Inr r'"
  obtains (kept) "r' = r" "rf_family r \<noteq> FamilyDefault"
  | (narrowed) udp sp tp where "rf_family r = FamilyDefault" "fall_back_udp r = Inr udp"
      "fall_back_peers (rf_name r) (bstr ''source_peers'') (rf_source_peers r) = Inr sp"
      "fall_back_peers (rf_name r) (bstr ''target_peers'') (rf_target_peers r) = Inr tp"
      "r' = r\<lparr>rf_family := FamilyIpv4, rf_udp := udp, rf_source_peers := sp, rf_target_peers := tp\<rparr>"
  using assms by (auto simp: fall_back_entry_def result_bind_Inr_iff split: if_splits)

lemma ipv4_part_Some: "ipv4_part l = Some l' \<Longrightarrow> l' = filter is_ipv4 l \<and> l' \<noteq> []"
  by (auto simp: ipv4_part_def Let_def split: if_splits)

lemma fall_back_udp_cases:
  assumes "fall_back_udp r = Inr udp"
  obtains (none) "rf_udp r = None" "udp = None"
  | (same) u where "rf_udp r = Some u" "ur_groups u = None" "udp = Some u"
  | (part) u gs where "rf_udp r = Some u" "ur_groups u = Some gs" "udp = Some (u\<lparr>ur_groups := ipv4_part gs\<rparr>)"
      "ipv4_part gs \<noteq> None \<or> ur_broadcast u"
  using assms by (auto simp: fall_back_udp_def Let_def split: option.splits if_splits)

lemma fall_back_peers_set:
  "fall_back_peers n field ps = Inr ps' \<Longrightarrow> set (list_or_empty ps') = set (filter is_ipv4 (list_or_empty ps))"
  by (cases ps; cases "ipv4_part (the ps)")
    (auto simp: fall_back_peers_def list_or_empty_def result_bind_def ok_or_def dest: ipv4_part_Some)

lemma destinations_part:
  "(port, reach) \<in> set (destinations (u\<lparr>ur_groups := ipv4_part gs\<rparr>)) \<Longrightarrow> ur_groups u = Some gs
     \<Longrightarrow> (port, reach) \<in> set (destinations u)"
  by (cases "ipv4_part gs") (auto simp: destinations_def Let_def dest!: ipv4_part_Some split: if_splits)

lemma direction_flows_within:
  assumes "fall_back_entry r = Inr r'" "f \<in> set (direction_flows r' l)"
  shows "\<exists>g \<in> set (direction_flows r l). flow_within f g"
  using assms(1)
proof (cases rule: fall_back_entry_cases)
  case kept
  then show ?thesis using assms(2) by (auto simp: flow_within_def reach_within_def)
next
  case (narrowed udp sp tp)
  obtain ingress egress where l: "l = (ingress, egress)" by (cases l)
  consider (wol) w port where "rf_wol r = Some w" "port \<in> set (wol_ports w)"
      "f = \<lparr>fl_protocol = Wol, fl_ingress = ingress, fl_egress = egress, fl_port = port, fl_reach = ReachAny FamilyIpv4\<rparr>"
    | (udp) u port reach where "udp = Some u" "(port, reach) \<in> set (destinations u)"
      "f = \<lparr>fl_protocol = UdpRelay, fl_ingress = ingress, fl_egress = egress, fl_port = port, fl_reach = reach\<rparr>"
    using assms(2) narrowed(5) l by (cases "rf_wol r"; cases udp) (auto simp: direction_flows_def)
  then show ?thesis
  proof cases
    case wol
    let ?g = "f\<lparr>fl_reach := ReachAny FamilyDefault\<rparr>"
    have "?g \<in> set (direction_flows r l)" using wol narrowed(1) by (auto simp: direction_flows_def l)
    moreover have "flow_within f ?g" using wol by (simp add: flow_within_def reach_within_def)
    ultimately show ?thesis by blast
  next
    case udp
    have "\<exists>v. rf_udp r = Some v \<and> (port, reach) \<in> set (destinations v)"
      using narrowed(2) by (cases rule: fall_back_udp_cases) (use udp in \<open>auto dest: destinations_part\<close>)
    then have "f \<in> set (direction_flows r l)" using udp by (auto simp: direction_flows_def l)
    then show ?thesis by (auto simp: flow_within_def reach_within_def)
  qed
qed

lemma fall_back_fields:
  assumes "fall_back_entry r = Inr r'"
  shows "rf_name r' = rf_name r" "rf_source_if r' = rf_source_if r" "rf_target_if r' = rf_target_if r"
    "rf_macs r' = rf_macs r" "rf_wol r' = rf_wol r" "rf_mdns r' = rf_mdns r" "rf_ssdp r' = rf_ssdp r"
    "rf_wsd r' = rf_wsd r" "rf_bidirectional r' = rf_bidirectional r" "directions r' = directions r"
    "rf_family r' = (if rf_family r = FamilyDefault then FamilyIpv4 else rf_family r)"
  using assms by (cases rule: fall_back_entry_cases; simp add: directions_def)+

lemma flows_within:
  assumes fb: "fall_back_entry r = Inr r'" and f: "f \<in> set (flows r')"
  shows "\<exists>g \<in> set (flows r). flow_within f g"
proof -
  note [simp] = fall_back_fields [OF fb]
  have disc: "\<exists>g \<in> set (discovery_flows r q port gs). flow_within f g" if "f \<in> set (discovery_flows r' q port gs)" for q port gs
  proof -
    have "f \<in> set (discovery_flows r q port gs)"
      using that family_ipv4_narrower(3) by (auto simp: discovery_flows_def split: if_splits)
    then show ?thesis by (auto simp: flow_within_def reach_within_def)
  qed
  consider "rf_mdns r \<noteq> None" "f \<in> set (discovery_flows r' Mdns MDNS_PORT mdns_groups)"
    | "rf_ssdp r \<noteq> None" "f \<in> set (discovery_flows r' Ssdp SSDP_PORT ssdp_groups)"
    | "rf_wsd r" "f \<in> set (discovery_flows r' Wsd WSD_PORT wsd_groups)"
    | l where "l \<in> set (directions r)" "f \<in> set (direction_flows r' l)"
    using f by (auto simp: flows_def simp del: not_None_eq split: if_splits)
  then show ?thesis
  proof cases
    case (4 l)
    then show ?thesis using direction_flows_within [OF fb] by (fastforce simp: flows_def)
  qed (use disc in \<open>fastforce simp: flows_def\<close>)+
qed

lemma relay_overlap_within:
  assumes fa: "fall_back_entry a = Inr a'" and others: "\<forall>f' \<in> set fs'. \<exists>f \<in> set fs. flow_within f' f"
    and none: "relay_overlap a fs = None"
  shows "relay_overlap a' fs' = None"
proof (rule ccontr)
  assume "relay_overlap a' fs' \<noteq> None"
  then obtain m' f' where m': "m' \<in> set (flows a')" "fl_protocol m' = UdpRelay" "f' \<in> set fs'" "flow_overlaps m' f'"
    by (auto simp: relay_overlap_def Let_def find_None_iff)
  from flows_within [OF fa m'(1)] obtain m where m: "m \<in> set (flows a)" "flow_within m' m" by blast
  from others m'(3) obtain f where f: "f \<in> set fs" "flow_within f' f" by blast
  have "fl_protocol m = UdpRelay" using m(2) m'(2) by (simp add: flow_within_def)
  with relay_overlap_None [OF none m(1) _ f(1)] flow_overlaps_within [OF m(2) f(2) m'(4)] show False by blast
qed

lemma shared_protocol_within:
  assumes fa: "fall_back_entry a = Inr a'" and fb: "fall_back_entry b = Inr b'" and none: "shared_protocol a b = None"
  shows "shared_protocol a' b' = None"
proof (rule ccontr)
  assume "shared_protocol a' b' \<noteq> None"
  then obtain l where l: "find (\<lambda>mine. mine \<in> set (directions b')) (directions a') = Some l"
    and macs: "macs_overlap (rf_macs a') (rf_macs b')" and fam: "families_overlap (rf_family a') (rf_family b')"
    and prot: "(\<exists>w v port. rf_wol a' = Some w \<and> rf_wol b' = Some v \<and> port \<in> set (wol_ports w) \<and> port \<in> set (wol_ports v))
      \<or> rf_mdns a' \<noteq> None \<and> rf_mdns b' \<noteq> None \<or> rf_ssdp a' \<noteq> None \<and> rf_ssdp b' \<noteq> None \<or> rf_wsd a' \<and> rf_wsd b'"
    by (cases "rf_wol a'"; cases "rf_wol b'") (auto simp: shared_protocol_def split: option.splits if_splits)
  from l have leg: "l \<in> set (directions a)" "l \<in> set (directions b)"
    by (auto simp: find_Some_iff fall_back_fields [OF fa] fall_back_fields [OF fb])
  have "families_overlap (rf_family a) (rf_family b)"
    using fam family_ipv4_narrower(1,2)
    by (auto simp: families_overlap_def fall_back_fields [OF fa] fall_back_fields [OF fb] split: if_splits)
  with shared_protocolI [OF leg] macs prot none show False
    by (simp add: fall_back_fields [OF fa] fall_back_fields [OF fb])
qed

lemma conflicts_within:
  assumes fa: "fall_back_entry a = Inr a'" and fb: "fall_back_entry b = Inr b'" and none: "conflicts_with a b = None"
  shows "conflicts_with a' b' = None"
proof -
  from none have parts: "shared_protocol a b = None" "relay_overlap a (flows b) = None" "relay_overlap b (flows a) = None"
    by (auto simp: conflicts_with_def split: option.splits)
  have "relay_overlap a' (flows b') = None"
    by (rule relay_overlap_within [OF fa _ parts(2)]) (use flows_within [OF fb] in blast)
  moreover have "relay_overlap b' (flows a') = None"
    by (rule relay_overlap_within [OF fb _ parts(3)]) (use flows_within [OF fa] in blast)
  ultimately show ?thesis using shared_protocol_within [OF fa fb parts(1)] by (simp add: conflicts_with_def)
qed

lemma fall_back_entries_list:
  "fall_back_entries rs = Inr rs' \<Longrightarrow> list_all2 (\<lambda>r r'. fall_back_entry r = Inr r') rs rs'"
  by (induction rs arbitrary: rs') (auto simp: result_bind_Inr_iff)

lemma check_against_within:
  "list_all2 (\<lambda>r r'. fall_back_entry r = Inr r') bs bs' \<Longrightarrow> fall_back_entry a = Inr a' \<Longrightarrow> check_against a bs = None
    \<Longrightarrow> check_against a' bs' = None"
proof (induction bs bs' rule: list_all2_induct)
  case (Cons b bs b' bs')
  then have "conflicts_with a b = None" "rf_name a \<noteq> rf_name b" "check_against a bs = None"
    by (auto split: if_splits option.splits)
  with conflicts_within [OF Cons.prems(1) Cons.hyps(1)] Cons show ?case
    by (simp add: fall_back_fields(1) [OF Cons.prems(1)] fall_back_fields(1) [OF Cons.hyps(1)])
qed simp

lemma check_conflicts_within:
  "list_all2 (\<lambda>r r'. fall_back_entry r = Inr r') rs rs' \<Longrightarrow> check_conflicts rs = None \<Longrightarrow> check_conflicts rs' = None"
proof (induction rs rs' rule: list_all2_induct)
  case (Cons r rs r' rs')
  then have "check_against r rs = None" "check_conflicts rs = None" by (auto split: option.splits)
  with check_against_within [OF Cons.hyps(2,1)] Cons show ?case by simp
qed simp

lemma relay_duplicates_within:
  assumes "fall_back_entry r = Inr r'" "relay_duplicates r = None"
  shows "relay_duplicates r' = None"
proof -
  have "relay_overlap r' (filter (\<lambda>f. fl_protocol f \<noteq> UdpRelay) (flows r')) = None"
  proof (rule relay_overlap_within [OF assms(1)])
    show "\<forall>f' \<in> set (filter (\<lambda>f. fl_protocol f \<noteq> UdpRelay) (flows r')).
        \<exists>f \<in> set (filter (\<lambda>f. fl_protocol f \<noteq> UdpRelay) (flows r)). flow_within f' f"
      using flows_within [OF assms(1)] by (fastforce simp: flow_within_def)
  qed (use assms(2) in \<open>simp add: relay_duplicates_def\<close>)
  then show ?thesis by (simp add: relay_duplicates_def)
qed

lemma fall_back_entry_wf:
  assumes fb: "fall_back_entry r = Inr r'" and wf: "entry_wf r"
  shows "entry_wf r' \<and> rf_family r' \<noteq> FamilyDefault"
  using fb
proof (cases rule: fall_back_entry_cases)
  case (narrowed udp sp tp)
  have v4: "is_ipv4 ip \<longleftrightarrow> family_uses FamilyIpv4 ip" for ip
    by (cases ip) (auto simp: is_ipv4_def family_uses_def uses_ipv4_def uses_ipv6_def)
  have peers: "\<forall>peer \<in> set (list_or_empty sp) \<union> set (list_or_empty tp). family_uses FamilyIpv4 peer"
    using fall_back_peers_set [OF narrowed(3)] fall_back_peers_set [OF narrowed(4)] by (auto simp: v4)
  have udp: "(udp = None \<longleftrightarrow> rf_udp r = None) \<and> (\<forall>u. udp = Some u \<longrightarrow> relay_wf FamilyIpv4 u)"
    using narrowed(2)
  proof (cases rule: fall_back_udp_cases)
    case (part u gs)
    have "family_uses FamilyIpv4 g" if "g \<in> set (list_or_empty (ipv4_part gs))" for g
      using that by (cases "ipv4_part gs") (auto simp: list_or_empty_def v4 dest!: ipv4_part_Some)
    with part show ?thesis by (auto simp: relay_wf_def uses_ipv4_def)
  qed (use wf in \<open>auto simp: entry_wf_def relay_wf_def list_or_empty_def uses_ipv4_def\<close>)
  show ?thesis
    using wf peers udp relay_duplicates_within [OF fb] fall_back_fields [OF fb]
    by (simp add: entry_wf_def narrowed(5)) (simp add: uses_ipv4_def)
qed (use wf in simp)

text \<open>A list of addresses that is there is not empty, which its type in the source ensures.\<close>

definition lists_filled :: "reflector \<Rightarrow> bool" where
  "lists_filled r \<longleftrightarrow> rf_source_peers r \<noteq> Some [] \<and> rf_target_peers r \<noteq> Some [] \<and> (\<forall>u. rf_udp r = Some u \<longrightarrow> ur_groups u \<noteq> Some [])"

lemma fall_back_peers_filled: "fall_back_peers n field ps = Inr ps' \<Longrightarrow> ps' \<noteq> Some [] \<and> (ps' = None \<longleftrightarrow> ps = None)"
  by (cases ps; cases "ipv4_part (the ps)") (auto simp: fall_back_peers_def result_bind_def ok_or_def dest: ipv4_part_Some)

lemma fall_back_filled:
  assumes fb: "fall_back_entry r = Inr r'"
  shows "(lists_filled r \<longrightarrow> lists_filled r') \<and> (rf_source_peers r' = None \<longleftrightarrow> rf_source_peers r = None) \<and> (rf_target_peers r' = None \<longleftrightarrow> rf_target_peers r = None)"
  using fb
proof (cases rule: fall_back_entry_cases)
  case (narrowed udp sp tp)
  have "\<forall>u. udp = Some u \<longrightarrow> ur_groups u \<noteq> Some []"
    using narrowed(2) by (cases rule: fall_back_udp_cases) (auto dest: ipv4_part_Some)
  with fall_back_peers_filled [OF narrowed(3)] fall_back_peers_filled [OF narrowed(4)] show ?thesis
    by (simp add: narrowed(5) lists_filled_def)
qed simp

text \<open>C30. On a host without IPv6, the fallback leaves a configuration the validation would have
  accepted: every entry still names two interfaces, a protocol and somewhere to send, the relay
  duplicates no protocol, no two entries conflict, and no entry is left on the default family. An
  entry keeps its name, interfaces and protocols, has peers on a side exactly where it had some, and where its lists
  of peers and groups were not empty they are not empty after the fallback.\<close>

theorem fall_back_stays_valid:
  assumes "config_try_from raw = Inr c" and "fall_back_to_ipv4 c = Inr c'"
  shows "config_wf c' \<and> (\<forall>r \<in> set (cf_reflectors c'). rf_family r \<noteq> FamilyDefault)
    \<and> map rf_name (cf_reflectors c') = map rf_name (cf_reflectors c)
    \<and> map directions (cf_reflectors c') = map directions (cf_reflectors c)
    \<and> list_all2 (\<lambda>r r'. (lists_filled r \<longrightarrow> lists_filled r') \<and> (rf_source_peers r' = None \<longleftrightarrow> rf_source_peers r = None)
        \<and> (rf_target_peers r' = None \<longleftrightarrow> rf_target_peers r = None)) (cf_reflectors c) (cf_reflectors c')"
proof -
  have wf: "config_wf c" by (rule config_try_from_wf [OF assms(1)])
  obtain rs where rs: "fall_back_entries (cf_reflectors c) = Inr rs" and c': "c' = c\<lparr>cf_reflectors := rs\<rparr>"
    using assms(2) by (auto simp: fall_back_to_ipv4_def result_bind_Inr_iff)
  note pairs = fall_back_entries_list [OF rs]
  have "\<forall>r \<in> set rs. entry_wf r \<and> rf_family r \<noteq> FamilyDefault"
  proof
    fix r' assume "r' \<in> set rs"
    then obtain k where k: "k < length rs" "r' = rs ! k" by (metis in_set_conv_nth)
    then have "cf_reflectors c ! k \<in> set (cf_reflectors c)" using list_all2_lengthD [OF pairs] by simp
    moreover have "fall_back_entry (cf_reflectors c ! k) = Inr r'" using list_all2_nthD2 [OF pairs k(1)] k(2) by simp
    ultimately show "entry_wf r' \<and> rf_family r' \<noteq> FamilyDefault" using fall_back_entry_wf wf by (auto simp: config_wf_def)
  qed
  moreover have "map rf_name rs = map rf_name (cf_reflectors c) \<and> map directions rs = map directions (cf_reflectors c)"
    using pairs by (induction rule: list_all2_induct) (simp_all add: fall_back_fields)
  moreover have "check_conflicts rs = None"
    using check_conflicts_within [OF pairs] wf by (simp add: config_wf_def)
  moreover have "rs \<noteq> []" using pairs wf by (auto simp: config_wf_def)
  moreover have "list_all2 (\<lambda>r r'. (lists_filled r \<longrightarrow> lists_filled r') \<and> (rf_source_peers r' = None \<longleftrightarrow> rf_source_peers r = None)
        \<and> (rf_target_peers r' = None \<longleftrightarrow> rf_target_peers r = None)) (cf_reflectors c) rs"
    using pairs by (rule list_all2_mono) (rule fall_back_filled)
  ultimately show ?thesis using wf unfolding c' config_wf_def by simp
qed

definition sample_raw :: raw_config where
  "sample_raw = raw_config_default\<lparr>rc_reflectors := [(bstr ''tv'',
     \<lparr>rr_name = None, rr_source_if = bstr ''lan'', rr_target_if = bstr ''iot'', rr_source_peers = None, rr_target_peers = None,
      rr_macs = None, rr_family = FamilyDefault, rr_wol = False, rr_wol_ports = None, rr_mdns = True, rr_mdns_services = None,
      rr_ssdp = False, rr_dial = False, rr_wsd = False, rr_bidirectional = False, rr_udp_ports = Some [4000],
      rr_udp_groups = Some [V4 0xefffff01, V6 0xff020000000000000000000000000001], rr_udp_broadcast = False\<rparr>)]\<rparr>"

lemma fall_back_stays_valid_witness:
  "\<exists>c c'. config_try_from sample_raw = Inr c \<and> fall_back_to_ipv4 c = Inr c' \<and> config_wf c'
     \<and> map (\<lambda>r. map_option ur_groups (rf_udp r)) (cf_reflectors c') = [Some (Some [V4 0xefffff01])]"
proof -
  define c where "c = \<lparr>cf_user = None, cf_debug_memory_interval = None, cf_counter_interval = None,
    cf_reflectors = [entry_of (snd (hd (rc_reflectors sample_raw))) (Some \<lparr>ur_ports = [4000],
      ur_groups = Some [V4 0xefffff01, V6 0xff020000000000000000000000000001], ur_broadcast = False\<rparr>) (bstr ''tv'')]\<rparr>"
  define c' where "c' = c\<lparr>cf_reflectors := map (\<lambda>r. r\<lparr>rf_family := FamilyIpv4, rf_udp := Some \<lparr>ur_ports = [4000],
      ur_groups = Some [V4 0xefffff01], ur_broadcast = False\<rparr>\<rparr>) (cf_reflectors c)\<rparr>"
  have c: "config_try_from sample_raw = Inr c" unfolding c_def by code_simp
  have c': "fall_back_to_ipv4 c = Inr c'" unfolding c'_def c_def by code_simp
  have "map (\<lambda>r. map_option ur_groups (rf_udp r)) (cf_reflectors c') = [Some (Some [V4 0xefffff01])]"
    by (simp add: c'_def c_def)
  moreover have "config_wf c'" using fall_back_stays_valid [OF c c'] by (rule conjunct1)
  ultimately show ?thesis using c c' by (intro exI [of _ c] exI [of _ c'] conjI)
qed

section \<open>The order of the environment\<close>

text \<open>A reflector as the parameters set so far, each with its value: two reflectors with the same
  view are the same, and \<^verbatim>\<open>set\<close> adds one parameter to the view or fails.\<close>

datatype slot_value =
    SvBytes bytes | SvAddrs "ipaddr list" | SvMacs "mac_addr list" | SvBool bool | SvServices "service_type list"
  | SvPorts "u16 list" | SvFamily address_family

definition view :: "partial_reflector \<Rightarrow> bytes \<Rightarrow> slot_value option" where
  "view r param =
     (if param = bstr ''name'' then map_option SvBytes (pr_name r)
      else if param = bstr ''source_if'' then map_option SvBytes (pr_source_if r)
      else if param = bstr ''target_if'' then map_option SvBytes (pr_target_if r)
      else if param = bstr ''source_peers'' then map_option SvAddrs (pr_source_peers r)
      else if param = bstr ''target_peers'' then map_option SvAddrs (pr_target_peers r)
      else if param = bstr ''macs'' then map_option SvMacs (pr_macs r)
      else if param = bstr ''wol_ports'' then map_option SvPorts (pr_wol_ports r)
      else if param = bstr ''address_family'' then map_option SvFamily (pr_family r)
      else if param = bstr ''wol'' then map_option SvBool (pr_wol r)
      else if param = bstr ''mdns'' then map_option SvBool (pr_mdns r)
      else if param = bstr ''mdns_services'' then map_option SvServices (pr_mdns_services r)
      else if param = bstr ''ssdp'' then map_option SvBool (pr_ssdp r)
      else if param = bstr ''dial'' then map_option SvBool (pr_dial r)
      else if param = bstr ''wsd'' then map_option SvBool (pr_wsd r)
      else if param = bstr ''bidirectional'' then map_option SvBool (pr_bidirectional r)
      else if param = bstr ''udp_ports'' then map_option SvPorts (pr_udp_ports r)
      else if param = bstr ''udp_groups'' then map_option SvAddrs (pr_udp_groups r)
      else if param = bstr ''udp_broadcast'' then map_option SvBool (pr_udp_broadcast r)
      else None)"

definition parse_param :: "bytes \<Rightarrow> bytes \<Rightarrow> slot_value option" where
  "parse_param param v =
     (if param = bstr ''name'' then map_option SvBytes (reflector_name_from_str v)
      else if param = bstr ''source_if'' \<or> param = bstr ''target_if'' then map_option SvBytes (result_ok (interface_name_from_str v))
      else if param = bstr ''source_peers'' \<or> param = bstr ''target_peers'' then map_option SvAddrs (result_ok (peer_list_from_str v))
      else if param = bstr ''macs'' then map_option SvMacs (result_ok (mac_set_from_str v))
      else if param = bstr ''wol_ports'' \<or> param = bstr ''udp_ports'' then map_option SvPorts (result_ok (port_list_from_str v))
      else if param = bstr ''address_family'' then map_option SvFamily (address_family_from_str v)
      else if param = bstr ''mdns_services'' then map_option SvServices (result_ok (service_list_from_str v))
      else if param = bstr ''udp_groups'' then map_option SvAddrs (result_ok (group_list_from_str v))
      else if param \<in> {bstr ''wol'', bstr ''mdns'', bstr ''ssdp'', bstr ''dial'', bstr ''wsd'', bstr ''bidirectional'', bstr ''udp_broadcast''}
        then map_option SvBool (result_ok (env_bool v []))
      else None)"

lemma set_slot_ok:
  "set_slot parsed slot store param var = Inr r' \<longleftrightarrow> (\<exists>v. parsed = Inr v \<and> slot = None \<and> r' = store (Some v))"
  by (auto simp: set_slot_def put_def result_bind_Inr_iff split: option.splits)

lemma env_value_ok: "env_value parse v var = Inr x \<longleftrightarrow> parse v = Inr x"
  by (auto simp: env_value_def map_err_def split: sum.splits)

lemma map_err_ok: "map_err f r = Inr x \<longleftrightarrow> r = Inr x"
  by (auto simp: map_err_def split: sum.splits)

lemma env_bool_ok: "env_bool v var = Inr x \<longleftrightarrow> env_bool v [] = Inr x"
  by (auto simp: env_bool_def Let_def split: if_splits)

lemma result_ok_iff: "r = Inr x \<longleftrightarrow> result_ok r = Some x"
  by (cases r) (auto simp: result_ok_def)

lemma ok_or_ok: "ok_or e x = Inr y \<longleftrightarrow> x = Some y"
  by (auto simp: ok_or_def split: option.splits)

lemmas slot_ok = set_slot_ok env_value_ok map_err_ok ok_or_ok o_apply

lemma bstr_inject: "bstr s = bstr t \<longleftrightarrow> s = t"
proof -
  have "unat (of_nat (of_char c) :: u8) = of_char c" for c
    by (simp add: unat_of_nat take_bit_eq_mod of_char_mod_256)
  then have "inj (\<lambda>c. of_nat (of_char c) :: u8)" by (metis injI of_char_eq_iff)
  then show ?thesis by (auto simp: bstr_def dest: map_injective)
qed

lemma view_at:
  "view r (bstr ''name'') = map_option SvBytes (pr_name r)" "view r (bstr ''source_if'') = map_option SvBytes (pr_source_if r)"
  "view r (bstr ''target_if'') = map_option SvBytes (pr_target_if r)" "view r (bstr ''source_peers'') = map_option SvAddrs (pr_source_peers r)"
  "view r (bstr ''target_peers'') = map_option SvAddrs (pr_target_peers r)" "view r (bstr ''macs'') = map_option SvMacs (pr_macs r)"
  "view r (bstr ''wol_ports'') = map_option SvPorts (pr_wol_ports r)" "view r (bstr ''address_family'') = map_option SvFamily (pr_family r)"
  "view r (bstr ''wol'') = map_option SvBool (pr_wol r)" "view r (bstr ''mdns'') = map_option SvBool (pr_mdns r)"
  "view r (bstr ''mdns_services'') = map_option SvServices (pr_mdns_services r)" "view r (bstr ''ssdp'') = map_option SvBool (pr_ssdp r)"
  "view r (bstr ''dial'') = map_option SvBool (pr_dial r)" "view r (bstr ''wsd'') = map_option SvBool (pr_wsd r)"
  "view r (bstr ''bidirectional'') = map_option SvBool (pr_bidirectional r)" "view r (bstr ''udp_ports'') = map_option SvPorts (pr_udp_ports r)"
  "view r (bstr ''udp_groups'') = map_option SvAddrs (pr_udp_groups r)" "view r (bstr ''udp_broadcast'') = map_option SvBool (pr_udp_broadcast r)"
  by (simp_all add: view_def bstr_def)

lemma view_update:
  "view (r\<lparr>pr_name := Some x0\<rparr>) = (view r)(bstr ''name'' \<mapsto> SvBytes x0)"
  "view (r\<lparr>pr_source_if := Some x1\<rparr>) = (view r)(bstr ''source_if'' \<mapsto> SvBytes x1)"
  "view (r\<lparr>pr_target_if := Some x2\<rparr>) = (view r)(bstr ''target_if'' \<mapsto> SvBytes x2)"
  "view (r\<lparr>pr_source_peers := Some x3\<rparr>) = (view r)(bstr ''source_peers'' \<mapsto> SvAddrs x3)"
  "view (r\<lparr>pr_target_peers := Some x4\<rparr>) = (view r)(bstr ''target_peers'' \<mapsto> SvAddrs x4)"
  "view (r\<lparr>pr_macs := Some x5\<rparr>) = (view r)(bstr ''macs'' \<mapsto> SvMacs x5)"
  "view (r\<lparr>pr_wol_ports := Some x6\<rparr>) = (view r)(bstr ''wol_ports'' \<mapsto> SvPorts x6)"
  "view (r\<lparr>pr_family := Some x7\<rparr>) = (view r)(bstr ''address_family'' \<mapsto> SvFamily x7)"
  "view (r\<lparr>pr_wol := Some x8\<rparr>) = (view r)(bstr ''wol'' \<mapsto> SvBool x8)"
  "view (r\<lparr>pr_mdns := Some x9\<rparr>) = (view r)(bstr ''mdns'' \<mapsto> SvBool x9)"
  "view (r\<lparr>pr_mdns_services := Some x10\<rparr>) = (view r)(bstr ''mdns_services'' \<mapsto> SvServices x10)"
  "view (r\<lparr>pr_ssdp := Some x11\<rparr>) = (view r)(bstr ''ssdp'' \<mapsto> SvBool x11)"
  "view (r\<lparr>pr_dial := Some x12\<rparr>) = (view r)(bstr ''dial'' \<mapsto> SvBool x12)"
  "view (r\<lparr>pr_wsd := Some x13\<rparr>) = (view r)(bstr ''wsd'' \<mapsto> SvBool x13)"
  "view (r\<lparr>pr_bidirectional := Some x14\<rparr>) = (view r)(bstr ''bidirectional'' \<mapsto> SvBool x14)"
  "view (r\<lparr>pr_udp_ports := Some x15\<rparr>) = (view r)(bstr ''udp_ports'' \<mapsto> SvPorts x15)"
  "view (r\<lparr>pr_udp_groups := Some x16\<rparr>) = (view r)(bstr ''udp_groups'' \<mapsto> SvAddrs x16)"
  "view (r\<lparr>pr_udp_broadcast := Some x17\<rparr>) = (view r)(bstr ''udp_broadcast'' \<mapsto> SvBool x17)"
  by (simp_all add: view_def bstr_inject fun_eq_iff)

lemma map_option_inject: "(\<And>a b. f a = f b \<Longrightarrow> a = b) \<Longrightarrow> map_option f x = map_option f y \<longleftrightarrow> x = y"
  by (cases x; cases y) auto

lemma slot_inject:
  "map_option SvBytes a = map_option SvBytes a' \<longleftrightarrow> a = a'" "map_option SvAddrs b = map_option SvAddrs b' \<longleftrightarrow> b = b'"
  "map_option SvMacs c = map_option SvMacs c' \<longleftrightarrow> c = c'" "map_option SvBool d = map_option SvBool d' \<longleftrightarrow> d = d'"
  "map_option SvServices e = map_option SvServices e' \<longleftrightarrow> e = e'" "map_option SvPorts f = map_option SvPorts f' \<longleftrightarrow> f = f'"
  "map_option SvFamily g = map_option SvFamily g' \<longleftrightarrow> g = g'"
  by (rule map_option_inject, simp)+

lemma view_inject:
  assumes "view r = view r'"
  shows "r = (r' :: partial_reflector)"
proof -
  have eq: "view r param = view r' param" for param using assms by simp
  show ?thesis
    using eq [of "bstr ''name''"]
      eq [of "bstr ''source_if''"]
      eq [of "bstr ''target_if''"]
      eq [of "bstr ''source_peers''"]
      eq [of "bstr ''target_peers''"]
      eq [of "bstr ''macs''"]
      eq [of "bstr ''wol_ports''"]
      eq [of "bstr ''address_family''"]
      eq [of "bstr ''wol''"]
      eq [of "bstr ''mdns''"]
      eq [of "bstr ''mdns_services''"]
      eq [of "bstr ''ssdp''"]
      eq [of "bstr ''dial''"]
      eq [of "bstr ''wsd''"]
      eq [of "bstr ''bidirectional''"]
      eq [of "bstr ''udp_ports''"]
      eq [of "bstr ''udp_groups''"]
      eq [of "bstr ''udp_broadcast''"]
    by (intro partial_reflector.equality) (simp_all only: view_at slot_inject, simp)
qed

lemma parse_param_at:
  "parse_param (bstr ''name'') v = map_option SvBytes (reflector_name_from_str v)"
  "parse_param (bstr ''source_if'') v = map_option SvBytes (result_ok (interface_name_from_str v))"
  "parse_param (bstr ''target_if'') v = map_option SvBytes (result_ok (interface_name_from_str v))"
  "parse_param (bstr ''source_peers'') v = map_option SvAddrs (result_ok (peer_list_from_str v))"
  "parse_param (bstr ''target_peers'') v = map_option SvAddrs (result_ok (peer_list_from_str v))"
  "parse_param (bstr ''macs'') v = map_option SvMacs (result_ok (mac_set_from_str v))"
  "parse_param (bstr ''wol_ports'') v = map_option SvPorts (result_ok (port_list_from_str v))"
  "parse_param (bstr ''address_family'') v = map_option SvFamily (address_family_from_str v)"
  "parse_param (bstr ''wol'') v = map_option SvBool (result_ok (env_bool v []))"
  "parse_param (bstr ''mdns'') v = map_option SvBool (result_ok (env_bool v []))"
  "parse_param (bstr ''mdns_services'') v = map_option SvServices (result_ok (service_list_from_str v))"
  "parse_param (bstr ''ssdp'') v = map_option SvBool (result_ok (env_bool v []))"
  "parse_param (bstr ''dial'') v = map_option SvBool (result_ok (env_bool v []))"
  "parse_param (bstr ''wsd'') v = map_option SvBool (result_ok (env_bool v []))"
  "parse_param (bstr ''bidirectional'') v = map_option SvBool (result_ok (env_bool v []))"
  "parse_param (bstr ''udp_ports'') v = map_option SvPorts (result_ok (port_list_from_str v))"
  "parse_param (bstr ''udp_groups'') v = map_option SvAddrs (result_ok (group_list_from_str v))"
  "parse_param (bstr ''udp_broadcast'') v = map_option SvBool (result_ok (env_bool v []))"
  by (simp_all add: parse_param_def bstr_def)

lemma env_bool_any: "(env_bool v var = Inr x) = (result_ok (env_bool v []) = Some x)"
  by (metis env_bool_ok result_ok_iff)

lemma partial_set_at:
  "partial_set r (bstr ''name'') v var = Inr r' \<longleftrightarrow> (\<exists>x. reflector_name_from_str v = Some x \<and> pr_name r = None \<and> r' = r\<lparr>pr_name := Some x\<rparr>)"
  "partial_set r (bstr ''source_if'') v var = Inr r' \<longleftrightarrow> (\<exists>x. result_ok (interface_name_from_str v) = Some x \<and> pr_source_if r = None \<and> r' = r\<lparr>pr_source_if := Some x\<rparr>)"
  "partial_set r (bstr ''target_if'') v var = Inr r' \<longleftrightarrow> (\<exists>x. result_ok (interface_name_from_str v) = Some x \<and> pr_target_if r = None \<and> r' = r\<lparr>pr_target_if := Some x\<rparr>)"
  "partial_set r (bstr ''source_peers'') v var = Inr r' \<longleftrightarrow> (\<exists>x. result_ok (peer_list_from_str v) = Some x \<and> pr_source_peers r = None \<and> r' = r\<lparr>pr_source_peers := Some x\<rparr>)"
  "partial_set r (bstr ''target_peers'') v var = Inr r' \<longleftrightarrow> (\<exists>x. result_ok (peer_list_from_str v) = Some x \<and> pr_target_peers r = None \<and> r' = r\<lparr>pr_target_peers := Some x\<rparr>)"
  "partial_set r (bstr ''macs'') v var = Inr r' \<longleftrightarrow> (\<exists>x. result_ok (mac_set_from_str v) = Some x \<and> pr_macs r = None \<and> r' = r\<lparr>pr_macs := Some x\<rparr>)"
  "partial_set r (bstr ''wol_ports'') v var = Inr r' \<longleftrightarrow> (\<exists>x. result_ok (port_list_from_str v) = Some x \<and> pr_wol_ports r = None \<and> r' = r\<lparr>pr_wol_ports := Some x\<rparr>)"
  "partial_set r (bstr ''address_family'') v var = Inr r' \<longleftrightarrow> (\<exists>x. address_family_from_str v = Some x \<and> pr_family r = None \<and> r' = r\<lparr>pr_family := Some x\<rparr>)"
  "partial_set r (bstr ''wol'') v var = Inr r' \<longleftrightarrow> (\<exists>x. result_ok (env_bool v []) = Some x \<and> pr_wol r = None \<and> r' = r\<lparr>pr_wol := Some x\<rparr>)"
  "partial_set r (bstr ''mdns'') v var = Inr r' \<longleftrightarrow> (\<exists>x. result_ok (env_bool v []) = Some x \<and> pr_mdns r = None \<and> r' = r\<lparr>pr_mdns := Some x\<rparr>)"
  "partial_set r (bstr ''mdns_services'') v var = Inr r' \<longleftrightarrow> (\<exists>x. result_ok (service_list_from_str v) = Some x \<and> pr_mdns_services r = None \<and> r' = r\<lparr>pr_mdns_services := Some x\<rparr>)"
  "partial_set r (bstr ''ssdp'') v var = Inr r' \<longleftrightarrow> (\<exists>x. result_ok (env_bool v []) = Some x \<and> pr_ssdp r = None \<and> r' = r\<lparr>pr_ssdp := Some x\<rparr>)"
  "partial_set r (bstr ''dial'') v var = Inr r' \<longleftrightarrow> (\<exists>x. result_ok (env_bool v []) = Some x \<and> pr_dial r = None \<and> r' = r\<lparr>pr_dial := Some x\<rparr>)"
  "partial_set r (bstr ''wsd'') v var = Inr r' \<longleftrightarrow> (\<exists>x. result_ok (env_bool v []) = Some x \<and> pr_wsd r = None \<and> r' = r\<lparr>pr_wsd := Some x\<rparr>)"
  "partial_set r (bstr ''bidirectional'') v var = Inr r' \<longleftrightarrow> (\<exists>x. result_ok (env_bool v []) = Some x \<and> pr_bidirectional r = None \<and> r' = r\<lparr>pr_bidirectional := Some x\<rparr>)"
  "partial_set r (bstr ''udp_ports'') v var = Inr r' \<longleftrightarrow> (\<exists>x. result_ok (port_list_from_str v) = Some x \<and> pr_udp_ports r = None \<and> r' = r\<lparr>pr_udp_ports := Some x\<rparr>)"
  "partial_set r (bstr ''udp_groups'') v var = Inr r' \<longleftrightarrow> (\<exists>x. result_ok (group_list_from_str v) = Some x \<and> pr_udp_groups r = None \<and> r' = r\<lparr>pr_udp_groups := Some x\<rparr>)"
  "partial_set r (bstr ''udp_broadcast'') v var = Inr r' \<longleftrightarrow> (\<exists>x. result_ok (env_bool v []) = Some x \<and> pr_udp_broadcast r = None \<and> r' = r\<lparr>pr_udp_broadcast := Some x\<rparr>)"
  by (simp_all add: partial_set_def bstr_def slot_ok env_bool_any) (simp_all add: result_ok_iff)

lemma slot_view:
  assumes "\<And>x. view (store x) = (view r)(k \<mapsto> c x)" and "view r k = map_option c slot" and "parse_param k v = map_option c parsed"
  shows "(\<exists>x. parsed = Some x \<and> slot = None \<and> r' = store x) \<longleftrightarrow>
    (\<exists>sv. parse_param k v = Some sv \<and> view r k = None \<and> view r' = (view r)(k \<mapsto> sv))"
proof -
  have "r' = store x \<longleftrightarrow> view r' = (view r)(k \<mapsto> c x)" for x using assms(1) view_inject by metis
  then show ?thesis using assms(2,3) by auto
qed

definition known_params :: "bytes list" where
  "known_params = [bstr ''name'', bstr ''source_if'', bstr ''target_if'', bstr ''source_peers'', bstr ''target_peers'',
     bstr ''macs'', bstr ''wol_ports'', bstr ''address_family'', bstr ''wol'', bstr ''mdns'', bstr
     ''mdns_services'', bstr ''ssdp'', bstr ''dial'', bstr ''wsd'', bstr ''bidirectional'', bstr
     ''udp_ports'', bstr ''udp_groups'', bstr ''udp_broadcast'']"

lemma unknown_param: "param \<notin> set known_params \<Longrightarrow> partial_set r param v var = Inl (EnvUnknownParam var param) \<and> parse_param param v = None"
  by (simp add: known_params_def partial_set_def parse_param_def)

lemma partial_set_known:
  "param \<in> set known_params \<Longrightarrow> partial_set r param v var = Inr r' \<longleftrightarrow>
     (\<exists>sv. parse_param param v = Some sv \<and> view r param = None \<and> view r' = (view r)(param \<mapsto> sv))"
  by (unfold known_params_def list.set insert_iff empty_iff, elim disjE FalseE; hypsubst; unfold partial_set_at;
      rule slot_view, rule view_update, rule view_at, rule parse_param_at)

lemma partial_set_view:
  "partial_set r param v var = Inr r' \<longleftrightarrow>
     (\<exists>sv. parse_param param v = Some sv \<and> view r param = None \<and> view r' = (view r)(param \<mapsto> sv))"
  by (cases "param \<in> set known_params") (simp_all add: partial_set_known unknown_param)

lemma partial_set_exists:
  "parse_param param v = Some sv \<Longrightarrow> view r param = None \<Longrightarrow> \<exists>r'. partial_set r param v var = Inr r'"
proof (cases "param \<in> set known_params")
  case True
  moreover assume "parse_param param v = Some sv" "view r param = None"
  ultimately show ?thesis
    unfolding known_params_def list.set insert_iff empty_iff
    by (elim disjE FalseE; hypsubst; unfold partial_set_at view_at parse_param_at; auto)
qed (simp add: unknown_param)

text \<open>What a variable asks for, whatever was read before it.\<close>

datatype env_effect = EffNone | EffUser run_as | EffDebug nat | EffCounters nat | EffParam bytes bytes bytes bytes

definition effect_of :: "bytes \<times> bytes \<Rightarrow> (config_error, env_effect) result" where
  "effect_of kv =
     (case kv of (key, v) \<Rightarrow>
        case strip_prefix (bstr ''NETFLECTOR_'') key of
          None \<Rightarrow> Inr EffNone
        | Some rest \<Rightarrow>
            if rest = bstr ''LOG_LEVEL'' then
              result_bind (env_value (\<lambda>v. ok_or PvLogLevel (log_level_from_str v)) v key) (\<lambda>_. Inr EffNone)
            else if rest = bstr ''LOG_TARGET'' then
              result_bind (env_value (\<lambda>v. ok_or PvLogTarget (log_target_from_str v)) v key) (\<lambda>_. Inr EffNone)
            else if rest = bstr ''USER'' then
              result_bind (env_value (\<lambda>v. ok_or PvRunAs (run_as_from_str v)) v key) (\<lambda>u. Inr (EffUser u))
            else if rest = bstr ''DEBUG_MEMORY_INTERVAL_SECS'' then
              result_bind (env_value parse_u64 v key) (\<lambda>n. Inr (EffDebug n))
            else if rest = bstr ''COUNTERS_INTERVAL_SECS'' then
              result_bind (env_value parse_u64 v key) (\<lambda>n. Inr (EffCounters n))
            else result_bind (env_tag key rest) (\<lambda>(tag, param). Inr (EffParam tag param v key)))"

fun apply_effect :: "env_state \<Rightarrow> env_effect \<Rightarrow> (config_error, env_state) result" where
  "apply_effect st EffNone = Inr st"
| "apply_effect st (EffUser u) = Inr (st\<lparr>es_user := Some u\<rparr>)"
| "apply_effect st (EffDebug n) = Inr (st\<lparr>es_debug_memory_interval_secs := Some n\<rparr>)"
| "apply_effect st (EffCounters n) = Inr (st\<lparr>es_counters_interval_secs := Some n\<rparr>)"
| "apply_effect st (EffParam tg param v key) =
     (let p = (case map_of (es_partials st) tg of Some p \<Rightarrow> p | None \<Rightarrow> partial_default) in
      result_bind (partial_set p param v key) (\<lambda>p. Inr (st\<lparr>es_partials := bt_insert tg p (es_partials st)\<rparr>)))"

lemma env_var_effect: "env_var st kv = result_bind (effect_of kv) (apply_effect st)"
  by (cases kv) (simp add: env_var_def effect_of_def result_bind_def split: option.splits sum.splits prod.splits)

text \<open>A global has one spelling, so two variables with different names set different globals.\<close>

lemma effect_key:
  assumes "effect_of (key, v) = Inr e"
  shows "e = EffUser u \<Longrightarrow> key = bstr ''NETFLECTOR_USER''"
    and "e = EffDebug n \<Longrightarrow> key = bstr ''NETFLECTOR_DEBUG_MEMORY_INTERVAL_SECS''"
    and "e = EffCounters n \<Longrightarrow> key = bstr ''NETFLECTOR_COUNTERS_INTERVAL_SECS''"
  using assms
  by (auto simp: effect_of_def result_bind_Inr_iff bstr_def split: option.splits if_splits dest!: strip_prefix_Some)

lemma param_effects_commute:
  assumes inv: "bt_inv (es_partials st)"
    and x: "apply_effect st (EffParam t p v k) = Inr s1" and y: "apply_effect s1 (EffParam t' p' v' k') = Inr s2"
  shows "\<exists>t1. apply_effect st (EffParam t' p' v' k') = Inr t1 \<and> apply_effect t1 (EffParam t p v k) = Inr s2"
proof -
  let ?at = "\<lambda>m t. case map_of m t of Some r \<Rightarrow> r | None \<Rightarrow> partial_default"
  let ?m = "es_partials st"
  from x obtain r1 where r1: "partial_set (?at ?m t) p v k = Inr r1" and s1: "s1 = st\<lparr>es_partials := bt_insert t r1 ?m\<rparr>"
    by (auto simp: result_bind_Inr_iff Let_def)
  from y obtain r2 where r2: "partial_set (?at (bt_insert t r1 ?m) t') p' v' k' = Inr r2"
    and s2: "s2 = st\<lparr>es_partials := bt_insert t' r2 (bt_insert t r1 ?m)\<rparr>"
    by (auto simp: result_bind_Inr_iff Let_def s1)
  show ?thesis
  proof (cases "t' = t")
    case False
    then have "partial_set (?at ?m t') p' v' k' = Inr r2" using r2 by (simp add: bt_insert_map_of)
    moreover have "partial_set (?at (bt_insert t' r2 ?m) t) p v k = Inr r1" using r1 False by (simp add: bt_insert_map_of)
    moreover have "bt_insert t r1 (bt_insert t' r2 ?m) = bt_insert t' r2 (bt_insert t r1 ?m)"
      using False by (intro bt_map_of_inject bt_insert_inv inv) (auto simp: bt_insert_map_of fun_eq_iff)
    ultimately show ?thesis by (simp add: result_bind_def s2)
  next
    case True
    have r2': "partial_set r1 p' v' k' = Inr r2" using r2 True by (simp add: bt_insert_map_of)
    from r1 obtain sv where sv: "parse_param p v = Some sv" "view (?at ?m t) p = None" "view r1 = (view (?at ?m t))(p \<mapsto> sv)"
      unfolding partial_set_view by blast
    from r2' obtain sv' where sv': "parse_param p' v' = Some sv'" "view r1 p' = None" "view r2 = (view r1)(p' \<mapsto> sv')"
      unfolding partial_set_view by blast
    have ne: "p \<noteq> p'" using sv(3) sv'(2) by auto
    then have "view (?at ?m t) p' = None" using sv(3) sv'(2) by simp
    then obtain q where q: "partial_set (?at ?m t) p' v' k' = Inr q" using partial_set_exists [OF sv'(1)] by blast
    then have vq: "view q = (view (?at ?m t))(p' \<mapsto> sv')" unfolding partial_set_view using sv'(1) by simp
    have "partial_set q p v k = Inr r2"
      unfolding partial_set_view using sv sv'(3) ne by (simp add: vq fun_upd_twist)
    moreover have "bt_insert t r2 (bt_insert t q ?m) = bt_insert t r2 (bt_insert t r1 ?m)"
      by (intro bt_map_of_inject bt_insert_inv inv) (simp add: bt_insert_map_of)
    ultimately show ?thesis using q by (simp add: True result_bind_def bt_insert_map_of s2)
  qed
qed

lemma env_vars_commute:
  assumes inv: "bt_inv (es_partials st)" and keys: "fst x \<noteq> fst y"
    and x: "env_var st x = Inr s1" and y: "env_var s1 y = Inr s2"
  shows "\<exists>t1. env_var st y = Inr t1 \<and> env_var t1 x = Inr s2"
proof -
  from x obtain e where e: "effect_of x = Inr e" "apply_effect st e = Inr s1" by (auto simp: env_var_effect result_bind_Inr_iff)
  from y obtain f where f: "effect_of y = Inr f" "apply_effect s1 f = Inr s2" by (auto simp: env_var_effect result_bind_Inr_iff)
  have "\<exists>t1. apply_effect st f = Inr t1 \<and> apply_effect t1 e = Inr s2"
  proof (cases "(\<exists>t p v k. e = EffParam t p v k) \<and> (\<exists>t p v k. f = EffParam t p v k)")
    case True
    then show ?thesis using param_effects_commute [OF inv] e(2) f(2) by auto
  next
    case False
    have "\<not> (\<exists>u u'. e = EffUser u \<and> f = EffUser u') \<and> \<not> (\<exists>n n'. e = EffDebug n \<and> f = EffDebug n')
      \<and> \<not> (\<exists>n n'. e = EffCounters n \<and> f = EffCounters n')"
      using keys effect_key [of "fst x" "snd x" e] effect_key [of "fst y" "snd y" f] e(1) f(1) by auto
    with False show ?thesis using e(2) f(2)
      by (cases e; cases f) (auto simp: result_bind_Inr_iff Let_def split: option.splits)
  qed
  then show ?thesis using e(1) f(1) by (auto simp: env_var_effect result_bind_def)
qed

lemma env_var_inv: "env_var st kv = Inr s \<Longrightarrow> bt_inv (es_partials st) \<Longrightarrow> bt_inv (es_partials s)"
proof -
  have "apply_effect st e = Inr s \<Longrightarrow> bt_inv (es_partials st) \<Longrightarrow> bt_inv (es_partials s)" for e
    by (cases e) (auto simp: result_bind_Inr_iff Let_def bt_insert_inv)
  then show "env_var st kv = Inr s \<Longrightarrow> bt_inv (es_partials st) \<Longrightarrow> bt_inv (es_partials s)"
    by (auto simp: env_var_effect result_bind_Inr_iff)
qed

lemma env_loop_front:
  "env_loop st (xs @ y # ys) = Inr s \<Longrightarrow> bt_inv (es_partials st) \<Longrightarrow> fst y \<notin> fst ` set xs \<Longrightarrow> env_loop st (y # xs @ ys) = Inr s"
proof (induction xs arbitrary: st)
  case (Cons x xs)
  then obtain s1 where s1: "env_var st x = Inr s1" "env_loop s1 (xs @ y # ys) = Inr s" by (auto simp: result_bind_Inr_iff)
  from Cons.IH [OF this(2)] env_var_inv [OF s1(1)] Cons.prems obtain s2 where s2: "env_var s1 y = Inr s2" "env_loop s2 (xs @ ys) = Inr s"
    by (auto simp: result_bind_Inr_iff)
  have "fst x \<noteq> fst y" using Cons.prems(3) by auto
  from env_vars_commute [OF Cons.prems(2) this s1(1) s2(1)] s2(2) show ?case by (auto simp: result_bind_def)
qed simp

lemma env_loop_permuted:
  "mset vs' = mset vs \<Longrightarrow> distinct (map fst vs) \<Longrightarrow> bt_inv (es_partials st) \<Longrightarrow> env_loop st vs = Inr s \<Longrightarrow> env_loop st vs' = Inr s"
proof (induction vs' arbitrary: vs st)
  case (Cons y ys)
  then have "y \<in> set vs" by (metis list.set_intros(1) mset_eq_setD)
  then obtain xs zs where vs: "vs = xs @ y # zs" by (metis split_list)
  with Cons.prems have "env_loop st (y # xs @ zs) = Inr s" by (intro env_loop_front) auto
  then obtain s1 where s1: "env_var st y = Inr s1" "env_loop s1 (xs @ zs) = Inr s" by (auto simp: result_bind_Inr_iff)
  have "mset ys = mset (xs @ zs)" using Cons.prems(1) by (simp add: vs)
  moreover have "distinct (map fst (xs @ zs))" using Cons.prems(2) by (simp add: vs)
  ultimately have "env_loop s1 ys = Inr s" using Cons.IH env_var_inv [OF s1(1) Cons.prems(3)] s1(2) by blast
  then show ?case using s1(1) by (simp add: result_bind_def)
qed simp

text \<open>C31. The order of the environment decides nothing: whatever order the variables come in, an
  environment that parses yields the same configuration, and one that is refused is refused in
  every order. Parameter names fold case, so two spellings of one parameter are an error rather
  than a race.\<close>

theorem environment_order_free:
  assumes "distinct (map fst vs)" and "mset vs' = mset vs"
  shows "parse_env vs = Inr raw \<longleftrightarrow> parse_env vs' = Inr raw"
proof -
  have start: "bt_inv (es_partials env_start)" by (simp add: env_start_def bt_inv_def)
  have "distinct (map fst vs')" using assms by (metis mset_eq_imp_distinct_iff mset_map)
  then have "env_loop env_start vs = Inr s \<longleftrightarrow> env_loop env_start vs' = Inr s" for s
    using env_loop_permuted [OF _ _ start] assms by metis
  then show ?thesis by (auto simp: parse_env_def result_bind_Inr_iff)
qed

definition sample_env :: "(bytes \<times> bytes) list" where
  "sample_env = [(bstr ''NETFLECTOR_TV_SOURCE_IF'', bstr ''lan''), (bstr ''NETFLECTOR_TV_target_if'', bstr ''iot''),
     (bstr ''NETFLECTOR_TV_MDNS'', bstr ''true''), (bstr ''NETFLECTOR_COUNTERS_INTERVAL_SECS'', bstr ''60'')]"

lemma environment_order_free_witness:
  "(case parse_env sample_env of Inr raw \<Rightarrow> parse_env (rev sample_env) = Inr raw
      \<and> rc_counters_interval_secs raw = Some 60 \<and> map fst (rc_reflectors raw) = [bstr ''tv''] | Inl _ \<Rightarrow> False)"
proof -
  have keys: "distinct (map fst sample_env)" by code_simp
  have ok: "case parse_env sample_env of Inr raw \<Rightarrow> rc_counters_interval_secs raw = Some 60
      \<and> map fst (rc_reflectors raw) = [bstr ''tv''] | Inl _ \<Rightarrow> False" by code_simp
  then obtain raw where "parse_env sample_env = Inr raw" by (cases "parse_env sample_env") auto
  moreover from this have "parse_env (rev sample_env) = Inr raw"
    using environment_order_free [OF keys, of "rev sample_env" raw] by simp
  ultimately show ?thesis using ok by simp
qed

end
