(* ===== verification/Multicast.thy ===== *)
theory Multicast
  imports Interface Reassembly
begin

text \<open>
  \<^verbatim>\<open>src/src/dispatch/multicast.rs\<close>: the groups each interface has to be a member of, the state of each
  membership and the two sockets that hold them. The kernel is an argument: what it answers to the
  one attempt a pass makes at a group (\<open>join_answer\<close>). The sockets carry, beside whether they are
  open, the memberships the kernel holds on them, which the program cannot read; the invariant
  relates them to the states. The log lines are dropped, the state they depend on (\<^verbatim>\<open>reported\<close>) is not.
\<close>

section \<open>The system's answers\<close>

datatype errno = EADDRINUSE | ENODEV | EADDRNOTAVAIL | EINVAL | EAFNOSUPPORT | ENOBUFS | EMFILE | ENFILE | ENOMEM | EMSGSIZE | OtherErrno nat

datatype platform = Linux | MacOs | FreeBsd

text \<open>\<^verbatim>\<open>if_index_checked\<close> on what \<^verbatim>\<open>if_nametoindex\<close> answered and the error number it left.\<close>

definition if_index_checked :: "u32 \<Rightarrow> errno \<Rightarrow> (errno, u32 option) result" where
  "if_index_checked index err =
     (if index \<noteq> 0 then Inr (Some index)
      else if err \<in> {EMFILE, ENFILE, ENOMEM, ENOBUFS} then Inl err
      else Inr None)"

record join_answer =
  ja_socket :: "errno option"
  ja_join :: "errno option"
  ja_live :: "(errno, bool) result"

section \<open>Memberships\<close>

datatype wait = NoAddress | NoFamily | NotMulticast

datatype level = LvError | LvWarn | LvInfo | LvDebug | LvTrace

fun level_index :: "level \<Rightarrow> nat" where
  "level_index LvError = 1" | "level_index LvWarn = 2" | "level_index LvInfo = 3"
| "level_index LvDebug = 4" | "level_index LvTrace = 5"

record wanted =
  wa_label :: string
  wa_required :: bool
  wa_wait_level :: level

datatype join_error = JoinGone | JoinNoFamily | JoinFailed errno bool

datatype membership_state = Pending | Joined | Waiting wait | Failed u32 instant

datatype problem = ProblemWait wait | ProblemFailed

datatype join_outcome = OutJoined | OutWaits wait | OutFailed errno bool

record membership =
  mb_group :: ipaddr
  mb_label :: string
  mb_wait_level :: level
  mb_state :: membership_state
  mb_reported :: "problem option"

text \<open>\<^verbatim>\<open>retry_delay\<close> of \<^verbatim>\<open>dispatch.rs\<close>, in nanoseconds: \<^verbatim>\<open>checked_shl\<close> refuses a shift past the width, and a
  second times a 32-bit factor fits a \<^verbatim>\<open>Duration\<close>.\<close>

definition RETRY_FLOOR :: nat where "RETRY_FLOOR = 1000000000"
definition RETRY_CEILING :: nat where "RETRY_CEILING = 30 * 1000000000"

definition retry_delay :: "u32 \<Rightarrow> nat" where
  "retry_delay attempts =
     (if unat attempts < 32 then min (RETRY_FLOOR * unat (push_bit (unat attempts) 1 :: u32)) RETRY_CEILING
      else RETRY_CEILING)"

definition saturating_inc :: "u32 \<Rightarrow> u32" where
  "saturating_inc n = (if n = - 1 then n else n + 1)"

text \<open>The part of \<^verbatim>\<open>report_wait\<close> that is not a log line.\<close>

definition report_wait :: "membership \<Rightarrow> wait \<Rightarrow> membership" where
  "report_wait m w = m\<lparr>mb_reported := Some (ProblemWait w)\<rparr>"

definition settle :: "membership \<Rightarrow> join_outcome \<Rightarrow> instant \<Rightarrow> membership" where
  "settle m outcome now =
     (case outcome of
        OutJoined \<Rightarrow> m\<lparr>mb_reported := None, mb_state := Joined\<rparr>
      | OutWaits w \<Rightarrow>
          if mb_state m = Waiting w then m else (report_wait m w)\<lparr>mb_state := Waiting w\<rparr>
      | OutFailed _ _ \<Rightarrow>
          let attempts = (case mb_state m of Failed attempts _ \<Rightarrow> saturating_inc attempts | _ \<Rightarrow> 0)
          in m\<lparr>mb_reported := Some ProblemFailed, mb_state := Failed attempts (now + retry_delay attempts)\<rparr>)"

section \<open>Sockets\<close>

record sockets =
  sk_v4 :: bool
  sk_v6 :: bool
  sk_held :: "ipaddr list"

definition sockets_default :: sockets where
  "sockets_default = \<lparr>sk_v4 = False, sk_v6 = False, sk_held = []\<rparr>"

definition sk_open :: "sockets \<Rightarrow> ipaddr \<Rightarrow> bool" where
  "sk_open s grp = (case grp of V4 _ \<Rightarrow> sk_v4 s | V6 _ \<Rightarrow> sk_v6 s)"

definition sk_opened :: "sockets \<Rightarrow> ipaddr \<Rightarrow> sockets" where
  "sk_opened s grp = (case grp of V4 _ \<Rightarrow> s\<lparr>sk_v4 := True\<rparr> | V6 _ \<Rightarrow> s\<lparr>sk_v6 := True\<rparr>)"

text \<open>\<^verbatim>\<open>classify\<close>: \<open>None\<close> is \<^verbatim>\<open>Gone\<close>.\<close>

definition join_classify :: "platform \<Rightarrow> errno \<Rightarrow> ipaddr \<Rightarrow> (errno, bool) result \<Rightarrow> join_outcome option" where
  "join_classify plat err grp live =
     (let v6 = is_ipv6 grp;
          if_live = (\<lambda>w. case live of
              Inr True \<Rightarrow> Some (OutWaits w) | Inr False \<Rightarrow> None | Inl _ \<Rightarrow> Some (OutFailed err False))
      in if err = EADDRINUSE then Some OutJoined
         else if err = ENODEV then if_live NoFamily
         else if err = EADDRNOTAVAIL \<and> plat \<noteq> Linux then if_live NotMulticast
         else if err = EINVAL \<and> v6 \<and> plat = Linux then Some (OutWaits NoFamily)
         else if err = EINVAL \<and> v6 \<and> plat = MacOs then Some (OutWaits NoAddress)
         else if err = EAFNOSUPPORT \<and> plat = MacOs then Some (OutWaits NoAddress)
         else Some (OutFailed err (plat = Linux \<and> \<not> v6 \<and> err = ENOBUFS)))"

definition sockets_join :: "platform \<Rightarrow> sockets \<Rightarrow> ipaddr \<Rightarrow> join_answer \<Rightarrow> join_outcome option \<times> sockets" where
  "sockets_join plat s grp ans =
     (case (if sk_open s grp then None else ja_socket ans) of
        Some source \<Rightarrow> (Some (OutFailed source False), s)
      | None \<Rightarrow>
          let s = sk_opened s grp in
          (case ja_join ans of
             None \<Rightarrow> (Some OutJoined, s\<lparr>sk_held := grp # sk_held s\<rparr>)
           | Some e \<Rightarrow> (join_classify plat e grp (ja_live ans), s)))"

section \<open>An interface's memberships\<close>

record memberships =
  ms_sockets :: sockets
  ms_groups :: "membership list"

definition memberships_new :: memberships where
  "memberships_new = \<lparr>ms_sockets = sockets_default, ms_groups = []\<rparr>"

definition ms_add :: "memberships \<Rightarrow> ipaddr \<Rightarrow> wanted \<Rightarrow> nat \<times> memberships" where
  "ms_add m grp w =
     (case position (\<lambda>known. mb_group known = grp) (ms_groups m) of
        Some index \<Rightarrow>
          let known = ms_groups m ! index;
              known = (if level_index (wa_wait_level w) < level_index (mb_wait_level known)
                 then known\<lparr>mb_wait_level := wa_wait_level w,
                        mb_reported := (case mb_state known of Waiting _ \<Rightarrow> None | _ \<Rightarrow> mb_reported known)\<rparr>
                 else known)
          in (index, m\<lparr>ms_groups := (ms_groups m)[index := known]\<rparr>)
      | None \<Rightarrow>
          let m = m\<lparr>ms_groups := ms_groups m @ [\<lparr>mb_group = grp, mb_label = wa_label w, mb_wait_level = wa_wait_level w,
                mb_state = Pending, mb_reported = None\<rparr>]\<rparr>
          in (length (ms_groups m) - 1, m))"

definition ms_join :: "platform \<Rightarrow> memberships \<Rightarrow> ipaddr \<Rightarrow> wanted \<Rightarrow> join_answer \<Rightarrow> instant \<Rightarrow> (join_error, unit) result \<times> memberships" where
  "ms_join plat m grp w ans now =
     (let (index, m) = ms_add m grp w; known = ms_groups m ! index in
      case mb_state known of
        Pending \<Rightarrow>
          (let (res, s) = sockets_join plat (ms_sockets m) grp ans; m = m\<lparr>ms_sockets := s\<rparr> in
           case res of
             None \<Rightarrow> (Inl JoinGone, m)
           | Some (OutFailed source capped) \<Rightarrow> (Inl (JoinFailed source capped), m)
           | Some outcome \<Rightarrow>
               if outcome = OutWaits NoFamily \<and> wa_required w then (Inl JoinNoFamily, m)
               else (Inr (), m\<lparr>ms_groups := (ms_groups m)[index := settle known outcome now]\<rparr>))
      | Waiting wt \<Rightarrow>
          if wt = NoFamily \<and> wa_required w then (Inl JoinNoFamily, m)
          else if mb_reported known = None
            then (Inr (), m\<lparr>ms_groups := (ms_groups m)[index := report_wait known wt]\<rparr>)
            else (Inr (), m)
      | _ \<Rightarrow> (Inr (), m))"

text \<open>The loop of \<^verbatim>\<open>converge\<close>: the groups settled so far are in front; \<open>False\<close> is \<^verbatim>\<open>Err(Gone)\<close>.\<close>

definition due :: "membership_state \<Rightarrow> instant \<Rightarrow> bool" where
  "due st now = (case st of Joined \<Rightarrow> False | Failed _ retry_at \<Rightarrow> \<not> now < retry_at | _ \<Rightarrow> True)"

fun converge_groups :: "platform \<Rightarrow> sockets \<Rightarrow> membership list \<Rightarrow> (ipaddr \<Rightarrow> join_answer) \<Rightarrow> instant \<Rightarrow> bool \<times> sockets \<times> membership list" where
  "converge_groups plat s [] answers now = (True, s, [])"
| "converge_groups plat s (m # ms) answers now =
     (if \<not> due (mb_state m) now then
        (let (ok, s, ms) = converge_groups plat s ms answers now in (ok, s, m # ms))
      else
        (case sockets_join plat s (mb_group m) (answers (mb_group m)) of
           (None, s) \<Rightarrow> (False, s, m\<lparr>mb_state := Pending\<rparr> # ms)
         | (Some outcome, s) \<Rightarrow>
             (let (ok, s, ms) = converge_groups plat s ms answers now in (ok, s, settle m outcome now # ms))))"

definition ms_converge :: "platform \<Rightarrow> memberships \<Rightarrow> (ipaddr \<Rightarrow> join_answer) \<Rightarrow> instant \<Rightarrow> bool \<times> memberships" where
  "ms_converge plat m answers now =
     (let (ok, s, groups) = converge_groups plat (ms_sockets m) (ms_groups m) answers now
      in (ok, m\<lparr>ms_sockets := s, ms_groups := groups\<rparr>))"

definition ms_rebase :: "memberships \<Rightarrow> memberships" where
  "ms_rebase m = m\<lparr>ms_sockets := sockets_default, ms_groups := map (\<lambda>b. b\<lparr>mb_state := Pending\<rparr>) (ms_groups m)\<rparr>"

definition ms_unjoined :: "memberships \<Rightarrow> membership list" where
  "ms_unjoined m = filter (\<lambda>b. mb_state b \<noteq> Joined) (ms_groups m)"

definition min_instant :: "instant list \<Rightarrow> instant option" where
  "min_instant ts = min_by_key (\<lambda>t. t) ts"

definition retry_at_of :: "membership_state \<Rightarrow> instant option" where
  "retry_at_of st = (case st of Failed _ t \<Rightarrow> Some t | _ \<Rightarrow> None)"

definition ms_next_retry :: "memberships \<Rightarrow> instant option" where
  "ms_next_retry m = min_instant (List.map_filter (\<lambda>b. retry_at_of (mb_state b)) (ms_groups m))"

section \<open>The back-off\<close>

text \<open>The wait before a retry doubles from one second and never passes thirty: it is
  \<open>min (2 ^ attempts) 30\<close> seconds for every count of attempts, the 32-bit shift notwithstanding.\<close>

theorem retry_delay_backoff:
  "retry_delay attempts = min (2 ^ unat attempts) 30 * 1000000000
   \<and> RETRY_FLOOR \<le> retry_delay attempts \<and> retry_delay attempts \<le> RETRY_CEILING
   \<and> retry_delay attempts \<le> retry_delay (saturating_inc attempts)"
proof -
  have secs: "retry_delay a = min (2 ^ unat a) 30 * 1000000000" for a :: u32
  proof (cases "unat a < 32")
    case True
    have "unat (push_bit (unat a) 1 :: u32) = take_bit 32 (push_bit (unat a) (unat (1 :: u32)))"
      by (simp only: unsigned_push_bit_eq) simp
    also have "\<dots> = 2 ^ unat a" using True by (simp add: push_bit_eq_mult take_bit_nat_eq_self)
    finally have "unat (push_bit (unat a) 1 :: u32) = 2 ^ unat a" .
    with True show ?thesis by (auto simp: retry_delay_def RETRY_FLOOR_def RETRY_CEILING_def min_def)
  next
    case False
    then have "(2 :: nat) ^ 5 \<le> 2 ^ unat a" by (intro power_increasing) auto
    with False show ?thesis by (simp add: retry_delay_def RETRY_CEILING_def min_def)
  qed
  have "unat attempts \<le> unat (saturating_inc attempts)"
    using unatSuc [of attempts] by (auto simp: saturating_inc_def eq_neg_iff_add_eq_0 add.commute)
  then have "(2 :: nat) ^ unat attempts \<le> 2 ^ unat (saturating_inc attempts)" by (rule power_increasing) simp
  then have "retry_delay attempts \<le> retry_delay (saturating_inc attempts)" unfolding secs
    by (intro mult_right_mono min.mono) simp_all
  moreover have "(1 :: nat) \<le> 2 ^ unat attempts" by simp
  ultimately show ?thesis by (simp add: secs RETRY_FLOOR_def RETRY_CEILING_def)
qed

section \<open>The life of a membership\<close>

text \<open>What the kernel documents of \<^verbatim>\<open>EADDRINUSE\<close>: the socket holds the membership already.\<close>

definition honest :: "sockets \<Rightarrow> ipaddr \<Rightarrow> join_answer \<Rightarrow> bool" where
  "honest s grp ans \<longleftrightarrow> (ja_join ans = Some EADDRINUSE \<longrightarrow> grp \<in> set (sk_held s))"

definition grants :: "join_answer \<Rightarrow> bool" where
  "grants ans \<longleftrightarrow> ja_socket ans = None \<and> ja_join ans = None"

text \<open>The memberships of one interface over time: every operation the interface table calls, in any
  order, with any honest answers, and the clock moving on.\<close>

inductive ms_run :: "platform \<Rightarrow> instant \<Rightarrow> memberships \<Rightarrow> bool" for plat where
  start: "ms_run plat now memberships_new"
| clock: "ms_run plat now m \<Longrightarrow> now \<le> later \<Longrightarrow> ms_run plat later m"
| add: "ms_run plat now m \<Longrightarrow> ms_run plat now (snd (ms_add m grp w))"
| join: "ms_run plat now m \<Longrightarrow> honest (ms_sockets m) grp ans \<Longrightarrow> ms_run plat now (snd (ms_join plat m grp w ans now))"
| converge: "ms_run plat now m \<Longrightarrow> (\<And>g. honest (ms_sockets m) g (answers g))
    \<Longrightarrow> ms_run plat now (snd (ms_converge plat m answers now))"
| rebase: "ms_run plat now m \<Longrightarrow> ms_run plat now (ms_rebase m)"

definition mb_ok :: "sockets \<Rightarrow> instant \<Rightarrow> membership \<Rightarrow> bool" where
  "mb_ok s now b \<longleftrightarrow> (mb_state b = Joined \<longrightarrow> mb_group b \<in> set (sk_held s))
     \<and> (\<forall>n t. mb_state b = Failed n t \<longrightarrow> t \<le> now + RETRY_CEILING)"

definition ms_inv :: "instant \<Rightarrow> memberships \<Rightarrow> bool" where
  "ms_inv now m \<longleftrightarrow> distinct (map mb_group (ms_groups m)) \<and> (\<forall>b \<in> set (ms_groups m). mb_ok (ms_sockets m) now b)"

lemma settle_group [simp]: "mb_group (settle b outcome now) = mb_group b"
  by (cases outcome) (auto simp: settle_def report_wait_def Let_def)

lemma retry_delay_le: "retry_delay a \<le> RETRY_CEILING"
  by (simp add: retry_delay_def)

lemma settle_ok:
  assumes "mb_ok s now b" "outcome = OutJoined \<Longrightarrow> mb_group b \<in> set (sk_held s)"
  shows "mb_ok s now (settle b outcome now)"
  using assms by (cases outcome) (auto simp: mb_ok_def settle_def report_wait_def Let_def retry_delay_le)

lemma sockets_join_held:
  assumes "sockets_join plat s grp ans = (res, s')"
  shows "set (sk_held s) \<subseteq> set (sk_held s')" and "g \<noteq> grp \<Longrightarrow> g \<in> set (sk_held s') \<longleftrightarrow> g \<in> set (sk_held s)"
    and "honest s grp ans \<Longrightarrow> res = Some OutJoined \<Longrightarrow> grp \<in> set (sk_held s')"
  using assms
  by (auto simp: sockets_join_def Let_def sk_opened_def honest_def join_classify_def split: option.splits ipaddr.splits if_splits sum.splits bool.splits)

lemma mb_ok_mono: "mb_ok s now b \<Longrightarrow> set (sk_held s) \<subseteq> set (sk_held s') \<Longrightarrow> now \<le> later \<Longrightarrow> mb_ok s' later b"
  by (force simp: mb_ok_def)

lemma converge_groups_ok:
  assumes "converge_groups plat s ms answers now = (ok, s', ms')" and "distinct (map mb_group ms)"
    and "\<forall>b \<in> set ms. mb_ok s now b" and "\<forall>b \<in> set ms. honest s (mb_group b) (answers (mb_group b))"
  shows "map mb_group ms' = map mb_group ms \<and> (\<forall>b \<in> set ms'. mb_ok s' now b) \<and> set (sk_held s) \<subseteq> set (sk_held s')"
  using assms
proof (induction ms arbitrary: s s' ms' ok)
  case (Cons m ms)
  show ?case
  proof (cases "due (mb_state m) now")
    case False
    then obtain ms'' where r: "converge_groups plat s ms answers now = (ok, s', ms'')" "ms' = m # ms''"
      using Cons.prems(1) by (auto split: prod.splits)
    with Cons.IH [OF r(1)] Cons.prems show ?thesis by (auto intro: mb_ok_mono)
  next
    case True
    obtain res s1 where j: "sockets_join plat s (mb_group m) (answers (mb_group m)) = (res, s1)" by fastforce
    note held = sockets_join_held [OF j]
    have ok1: "\<forall>b \<in> set (m # ms). mb_ok s1 now b" using Cons.prems(3) held(1) mb_ok_mono by blast
    show ?thesis
    proof (cases res)
      case None
      then have "ms' = m\<lparr>mb_state := Pending\<rparr> # ms" "s' = s1" using Cons.prems(1) True j by auto
      then show ?thesis using ok1 held(1) by (auto simp: mb_ok_def)
    next
      case (Some outcome)
      then obtain ms'' where r: "converge_groups plat s1 ms answers now = (ok, s', ms'')" "ms' = settle m outcome now # ms''"
        using Cons.prems(1) True j by (auto split: prod.splits)
      have "\<forall>b \<in> set ms. honest s1 (mb_group b) (answers (mb_group b))"
      proof
        fix b assume b: "b \<in> set ms"
        then have "mb_group b \<noteq> mb_group m" using Cons.prems(2) by (metis distinct.simps(2) image_eqI list.set_map list.simps(9))
        with held(2) Cons.prems(4) b show "honest s1 (mb_group b) (answers (mb_group b))" by (simp add: honest_def)
      qed
      with Cons.IH [OF r(1)] Cons.prems(2) ok1 have ih: "map mb_group ms'' = map mb_group ms" "\<forall>b \<in> set ms''. mb_ok s' now b"
        "set (sk_held s1) \<subseteq> set (sk_held s')" by auto
      have "mb_ok s1 now (settle m outcome now)"
        using ok1 held(3) Cons.prems(4) Some by (intro settle_ok) auto
      then have "mb_ok s' now (settle m outcome now)" using ih(3) mb_ok_mono by blast
      then show ?thesis using ih r(2) held(1) by auto
    qed
  qed
qed simp

lemma ms_inv_new: "ms_inv now memberships_new"
  by (simp add: ms_inv_def memberships_new_def)

lemma ms_inv_update:
  assumes "ms_inv now m" "index < length (ms_groups m)" "mb_group b = mb_group (ms_groups m ! index)" "mb_ok (ms_sockets m) now b"
  shows "ms_inv now (m\<lparr>ms_groups := (ms_groups m)[index := b]\<rparr>)"
proof -
  have "map mb_group ((ms_groups m)[index := b]) = map mb_group (ms_groups m)"
    using assms(2,3) by (metis list_update_id map_update nth_map)
  then show ?thesis using assms set_update_subset_insert by (fastforce simp: ms_inv_def)
qed

lemma ms_add_spec:
  assumes "ms_add m grp w = (index, m')" "ms_inv now m"
  shows "ms_inv now m' \<and> index < length (ms_groups m') \<and> mb_group (ms_groups m' ! index) = grp
    \<and> ms_sockets m' = ms_sockets m"
proof (cases "position (\<lambda>known. mb_group known = grp) (ms_groups m)")
  case None
  then have "grp \<notin> mb_group ` set (ms_groups m)" by (auto simp: position_None_iff)
  with None assms show ?thesis by (auto simp: ms_add_def Let_def ms_inv_def mb_ok_def)
next
  case (Some i)
  then have i: "i < length (ms_groups m)" "mb_group (ms_groups m ! i) = grp" by (auto simp: position_Some_iff)
  then have "mb_ok (ms_sockets m) now (ms_groups m ! i)" using assms(2) by (simp add: ms_inv_def)
  with Some i assms ms_inv_update [OF assms(2) i(1)] show ?thesis
    by (auto simp: ms_add_def Let_def mb_ok_def split: membership_state.splits)
qed

lemma ms_inv_sockets:
  assumes "ms_inv now m" "sockets_join plat (ms_sockets m) grp ans = (res, s)"
  shows "ms_inv now (m\<lparr>ms_sockets := s\<rparr>)"
  using assms(1) sockets_join_held(1) [OF assms(2)] by (auto simp: ms_inv_def intro: mb_ok_mono)

lemma ms_join_inv:
  assumes inv: "ms_inv now m" and honest: "honest (ms_sockets m) grp ans"
  shows "ms_inv now (snd (ms_join plat m grp w ans now))"
proof -
  obtain index m1 where add: "ms_add m grp w = (index, m1)" by fastforce
  note m1 = ms_add_spec [OF add inv]
  obtain res s where j: "sockets_join plat (ms_sockets m1) grp ans = (res, s)" by fastforce
  let ?m2 = "m1\<lparr>ms_sockets := s\<rparr>" and ?b = "ms_groups m1 ! index"
  have inv2: "ms_inv now ?m2" using ms_inv_sockets [OF _ j] m1 by simp
  have b2: "mb_ok s now ?b" using inv2 m1 by (simp add: ms_inv_def)
  have settled: "ms_inv now (?m2\<lparr>ms_groups := (ms_groups ?m2)[index := settle ?b outcome now]\<rparr>)"
    if "res = Some outcome" for outcome
    using sockets_join_held(3) [OF j] honest that m1 b2
    by (intro ms_inv_update [OF inv2]) (auto intro: settle_ok)
  have reported: "ms_inv now (m1\<lparr>ms_groups := (ms_groups m1)[index := report_wait ?b wt]\<rparr>)" for wt
  proof (rule ms_inv_update)
    have "mb_ok (ms_sockets m1) now ?b" using m1 nth_mem by (auto simp: ms_inv_def)
    then show "mb_ok (ms_sockets m1) now (report_wait ?b wt)" by (simp add: report_wait_def mb_ok_def)
  qed (use m1 in \<open>simp_all add: report_wait_def\<close>)
  have attempted: "ms_inv now (snd (case res of
      None \<Rightarrow> (Inl JoinGone, ?m2)
    | Some (OutFailed source capped) \<Rightarrow> (Inl (JoinFailed source capped), ?m2)
    | Some outcome \<Rightarrow>
        if outcome = OutWaits NoFamily \<and> wa_required w then (Inl JoinNoFamily, ?m2)
        else (Inr (), ?m2\<lparr>ms_groups := (ms_groups ?m2)[index := settle ?b outcome now]\<rparr>)))"
    using inv2 settled by (auto split: option.splits join_outcome.splits)
  have "ms_inv now m1" using m1 by blast
  then show ?thesis
    using attempted reported by (cases "mb_state ?b") (auto simp: ms_join_def add j Let_def)
qed

lemma ms_run_inv: "ms_run plat now m \<Longrightarrow> ms_inv now m"
proof (induction rule: ms_run.induct)
  case (clock now m later)
  then show ?case by (auto simp: ms_inv_def intro: mb_ok_mono)
next
  case (add now m grp w)
  then show ?case using ms_add_spec by (metis prod.collapse)
next
  case (converge now m answers)
  obtain ok s ms where c: "converge_groups plat (ms_sockets m) (ms_groups m) answers now = (ok, s, ms)" by (metis prod_cases3)
  from converge_groups_ok [OF c] converge show ?case by (simp add: ms_converge_def c ms_inv_def)
next
  case (rebase now m)
  then show ?case by (auto simp: ms_rebase_def ms_inv_def mb_ok_def comp_def)
qed (simp_all add: ms_inv_new ms_join_inv)

text \<open>C33. The membership states tell the truth: over any life of an interface, whatever the kernel
  answers, each wanted group is listed once, a group said to be joined is one the kernel holds on
  the sockets in use, and a failed one is due again within thirty seconds.\<close>

theorem memberships_truthful:
  assumes "ms_run plat now m"
  shows "distinct (map mb_group (ms_groups m))
    \<and> (\<forall>b \<in> set (ms_groups m). mb_state b = Joined \<longrightarrow> mb_group b \<in> set (sk_held (ms_sockets m)))
    \<and> (\<forall>t. ms_next_retry m = Some t \<longrightarrow> t \<le> now + RETRY_CEILING)"
proof -
  note inv = ms_run_inv [OF assms]
  have "t \<le> now + RETRY_CEILING" if "ms_next_retry m = Some t" for t
  proof -
    have "t \<in> set (List.map_filter (\<lambda>b. retry_at_of (mb_state b)) (ms_groups m))"
      using that min_by_key_in by (fastforce simp: ms_next_retry_def min_instant_def)
    then obtain b where "b \<in> set (ms_groups m)" "retry_at_of (mb_state b) = Some t"
      by (auto simp: List.map_filter_def)
    with inv show ?thesis by (auto simp: ms_inv_def mb_ok_def retry_at_of_def split: membership_state.splits)
  qed
  with inv show ?thesis by (auto simp: ms_inv_def mb_ok_def)
qed

lemma converge_granted:
  assumes "\<forall>b \<in> set ms. grants (answers (mb_group b)) \<and> (mb_state b = Joined \<or> due (mb_state b) now)"
  shows "\<exists>s' ms'. converge_groups plat s ms answers now = (True, s', ms') \<and> map mb_group ms' = map mb_group ms
    \<and> (\<forall>b \<in> set ms'. mb_state b = Joined)"
  using assms
proof (induction ms arbitrary: s)
  case (Cons m ms)
  show ?case
  proof (cases "due (mb_state m) now")
    case False
    then have "mb_state m = Joined" using Cons.prems by auto
    with Cons.IH [of s] Cons.prems False show ?thesis by auto
  next
    case True
    have "\<exists>s1. sockets_join plat s (mb_group m) (answers (mb_group m)) = (Some OutJoined, s1)"
      using Cons.prems by (auto simp: sockets_join_def grants_def Let_def)
    then obtain s1 where "sockets_join plat s (mb_group m) (answers (mb_group m)) = (Some OutJoined, s1)" ..
    with Cons.IH [of s1] Cons.prems True show ?thesis by (auto simp: settle_def)
  qed
qed simp

text \<open>C32. No group is given up on. Whatever happened to an interface so far, once the kernel grants
  its joins, a pass thirty seconds later (or any time after) leaves every wanted group joined and
  held.\<close>

theorem memberships_recover:
  assumes run: "ms_run plat now m" and later: "now + RETRY_CEILING \<le> later" and granted: "\<And>g. grants (answers g)"
  shows "\<exists>m'. ms_converge plat m answers later = (True, m') \<and> map mb_group (ms_groups m') = map mb_group (ms_groups m)
    \<and> ms_unjoined m' = [] \<and> (\<forall>b \<in> set (ms_groups m'). mb_group b \<in> set (sk_held (ms_sockets m')))"
proof -
  note inv = ms_run_inv [OF run]
  have "\<forall>b \<in> set (ms_groups m). grants (answers (mb_group b)) \<and> (mb_state b = Joined \<or> due (mb_state b) later)"
    using inv granted later by (fastforce simp: ms_inv_def mb_ok_def due_def split: membership_state.splits)
  then obtain s ms where c: "converge_groups plat (ms_sockets m) (ms_groups m) answers later = (True, s, ms)"
    and ms: "map mb_group ms = map mb_group (ms_groups m)" "\<forall>b \<in> set ms. mb_state b = Joined"
    using converge_granted by blast
  have honest: "\<And>g. honest (ms_sockets m) g (answers g)" using granted by (simp add: grants_def honest_def)
  have "ms_run plat later m" using run later by (auto intro: clock)
  from ms_run_inv [OF converge [OF this honest]] have "\<forall>b \<in> set ms. mb_group b \<in> set (sk_held s)"
    using ms(2) by (simp add: ms_converge_def c ms_inv_def mb_ok_def)
  then show ?thesis using ms by (simp add: ms_converge_def c ms_unjoined_def filter_empty_conv)
qed

text \<open>A join refused at first, retried and then granted.\<close>

definition granted_answer :: join_answer where
  "granted_answer = \<lparr>ja_socket = None, ja_join = None, ja_live = Inr True\<rparr>"

definition refused_answer :: join_answer where
  "refused_answer = \<lparr>ja_socket = None, ja_join = Some ENOBUFS, ja_live = Inr True\<rparr>"

definition sample_wanted :: wanted where
  "sample_wanted = \<lparr>wa_label = ''mDNS'', wa_required = True, wa_wait_level = LvInfo\<rparr>"

definition sample_memberships :: memberships where
  "sample_memberships =
     snd (ms_converge Linux (snd (ms_add memberships_new (V4 0xe00000fb) sample_wanted)) (\<lambda>_. refused_answer) 5)"

lemma sample_run: "ms_run Linux 5 sample_memberships"
  unfolding sample_memberships_def
  by (rule converge, rule add, rule start) (simp add: honest_def refused_answer_def)

lemma memberships_truthful_witness:
  "map mb_state (ms_groups sample_memberships) = [Failed 0 (5 + RETRY_FLOOR)]
   \<and> ms_next_retry sample_memberships = Some (5 + RETRY_FLOOR) \<and> 5 + RETRY_FLOOR \<le> 5 + RETRY_CEILING"
proof (intro conjI)
  show "map mb_state (ms_groups sample_memberships) = [Failed 0 (5 + RETRY_FLOOR)]" by code_simp
  show retry: "ms_next_retry sample_memberships = Some (5 + RETRY_FLOOR)" by code_simp
  show "5 + RETRY_FLOOR \<le> 5 + RETRY_CEILING"
    using memberships_truthful [OF sample_run] retry by blast
qed

lemma memberships_recover_witness:
  "\<exists>m'. ms_converge Linux sample_memberships (\<lambda>_. granted_answer) 30000000005 = (True, m')
    \<and> map mb_group (ms_groups m') = [V4 0xe00000fb] \<and> ms_unjoined m' = []"
proof -
  have "map mb_group (ms_groups sample_memberships) = [V4 0xe00000fb]" by code_simp
  moreover have "5 + RETRY_CEILING \<le> 30000000005" by (simp add: RETRY_CEILING_def)
  moreover have "grants granted_answer" by (simp add: grants_def granted_answer_def)
  ultimately show ?thesis
    using memberships_recover [OF sample_run, of 30000000005 "\<lambda>_. granted_answer"] by metis
qed

end
