(* ===== verification/Datagram.thy ===== *)
theory Datagram
  imports Multicast
begin

text \<open>
  \<^verbatim>\<open>src/src/dispatch/datagram.rs\<close>: the link destination of a datagram and the frame builder for the link
  of an egress. A panic of the frame builder stays a value of its own (\<open>Panic\<close>).
\<close>

datatype datagram_error =
    NoSourceAddress | NoSourceMac | UnicastDestination | SourceFamilyMismatch | FrameErr frame_error

datatype datagram_source = EgressSource u16 | Exact socket_addr

definition ethernet_dst :: "ipaddr \<Rightarrow> ipv4 option \<Rightarrow> (datagram_error, mac_addr) result" where
  "ethernet_dst dst directed =
     (case dst of
        V4 v4 \<Rightarrow>
          if v4_is_broadcast v4 \<or> Some v4 = directed then Inr mac_broadcast
          else if ip_is_multicast dst then Inr (multicast_for dst)
          else Inl UnicastDestination
      | V6 _ \<Rightarrow> if ip_is_multicast dst then Inr (multicast_for dst) else Inl UnicastDestination)"

definition link_header_for :: "interface_addresses \<Rightarrow> link_type \<Rightarrow> mac_addr \<Rightarrow> (datagram_error, link_header) result" where
  "link_header_for addrs link dst_mac =
     (case link of
        Ethernet \<Rightarrow> result_bind (ok_or NoSourceMac (ia_mac addrs)) (\<lambda>src. Inr (LhEthernet dst_mac src))
      | DltNull \<Rightarrow> Inr LhDltNull
      | RawIp \<Rightarrow> Inr LhRawIp)"

fun frame_fault :: "frame_error fault \<Rightarrow> datagram_error fault" where
  "frame_fault Panic = Panic"
| "frame_fault (Err e) = Err (FrameErr e)"

definition lift_frame :: "(frame_error fault, 'a) result \<Rightarrow> (datagram_error fault, 'a) result" where
  "lift_frame r = (case r of Inl e \<Rightarrow> Inl (frame_fault e) | Inr x \<Rightarrow> Inr x)"

definition lift_err :: "('e, 'a) result \<Rightarrow> ('e fault, 'a) result" where
  "lift_err r = (case r of Inl e \<Rightarrow> Inl (Err e) | Inr x \<Rightarrow> Inr x)"

definition v4_source :: "interface_addresses \<Rightarrow> datagram_source \<Rightarrow> (datagram_error, ipv4 \<times> u16) result" where
  "v4_source addrs source =
     (case source of
        EgressSource port \<Rightarrow> result_bind (ok_or NoSourceAddress (ia_v4 addrs)) (\<lambda>ip. Inr (ip, port))
      | Exact (V4 ip, port) \<Rightarrow> Inr (ip, port)
      | Exact (V6 _, _) \<Rightarrow> Inl SourceFamilyMismatch)"

definition v6_source :: "interface_addresses \<Rightarrow> ipv6 \<Rightarrow> datagram_source \<Rightarrow> (datagram_error, ipv6 \<times> u16) result" where
  "v6_source addrs dst source =
     (case source of
        EgressSource port \<Rightarrow> result_bind (ok_or NoSourceAddress (v6_for addrs (scope_of_v6 dst))) (\<lambda>ip. Inr (ip, port))
      | Exact (V6 ip, port) \<Rightarrow> Inr (ip, port)
      | Exact (V4 _, _) \<Rightarrow> Inl SourceFamilyMismatch)"

definition build_udp ::
  "interface_addresses \<Rightarrow> link_type \<Rightarrow> socket_addr \<Rightarrow> mac_addr \<Rightarrow> datagram_source \<Rightarrow> u8 \<Rightarrow> u32 \<Rightarrow> bytes \<Rightarrow> nat
   \<Rightarrow> (datagram_error fault, udp_frames) result" where
  "build_udp addrs link dst dst_mac source ttl ident payload mtu =
     (case dst of
        (V4 ip, port) \<Rightarrow>
          result_bind (lift_err (v4_source addrs source)) (\<lambda>src.
          result_bind (lift_err (link_header_for addrs link dst_mac)) (\<lambda>lh.
          lift_frame (frames_ipv4 lh src (ip, port) ttl (ucast ident) payload mtu)))
      | (V6 ip, port) \<Rightarrow>
          result_bind (lift_err (v6_source addrs ip source)) (\<lambda>src.
          result_bind (lift_err (link_header_for addrs link dst_mac)) (\<lambda>lh.
          lift_frame (frames_ipv6 lh src (ip, port) ttl ident payload mtu))))"

section \<open>What is built\<close>

text \<open>The source address a datagram leaves with, and the packet a peer reads.\<close>

definition source_addr :: "interface_addresses \<Rightarrow> ipaddr \<Rightarrow> datagram_source \<Rightarrow> socket_addr option" where
  "source_addr addrs dst source =
     (case source of
        Exact a \<Rightarrow> if is_ipv4 (fst a) = is_ipv4 dst then Some a else None
      | EgressSource port \<Rightarrow> map_option (\<lambda>ip. (ip, port))
          (case dst of V4 _ \<Rightarrow> map_option V4 (ia_v4 addrs) | V6 ip \<Rightarrow> map_option V6 (v6_for addrs (scope_of_v6 ip))))"

definition sent_packet :: "link_header \<Rightarrow> socket_addr \<Rightarrow> socket_addr \<Rightarrow> u8 \<Rightarrow> bytes \<Rightarrow> packet" where
  "sent_packet link src dst ttl payload =
     \<lparr>p_source = src, p_dest = dst, p_ttl = ttl, p_dst_mac = link_dst link, p_src_mac = link_src link,
      p_payload = payload\<rparr>"

lemma lift_err_Inr [simp]: "lift_err r = Inr x \<longleftrightarrow> r = Inr x"
  by (cases r) (simp_all add: lift_err_def)

lemma lift_frame_Inr [simp]: "lift_frame r = Inr x \<longleftrightarrow> r = Inr x"
  by (cases r) (simp_all add: lift_frame_def)

lemma v4_source_Inr: "v4_source addrs source = Inr src \<longleftrightarrow> source_addr addrs (V4 ip) source = Some (V4 (fst src), snd src)"
  by (cases src) (auto simp: v4_source_def source_addr_def ok_or_def is_ipv4_def result_bind_def
    split: datagram_source.splits option.splits ipaddr.splits)

lemma v6_source_Inr: "v6_source addrs ip source = Inr src \<longleftrightarrow> source_addr addrs (V6 ip) source = Some (V6 (fst src), snd src)"
  by (cases src) (auto simp: v6_source_def source_addr_def ok_or_def is_ipv4_def result_bind_def
    split: datagram_source.splits option.splits ipaddr.splits)

lemma link_header_for_Inr:
  "link_header_for addrs link dst_mac = Inr lh \<Longrightarrow> link_type_of lh = link
    \<and> (link = Ethernet \<longrightarrow> link_dst lh = Some dst_mac \<and> link_src lh = ia_mac addrs)"
  by (auto simp: link_header_for_def ok_or_def result_bind_def link_type_of_def link_dst_def link_src_def split: link_type.splits option.splits)

lemma link_header_size: "link_header_for addrs link dst_mac = Inr lh \<Longrightarrow> link_size lh \<le> ETHERNET_HEADER_SIZE"
  by (cases lh) (auto simp: net_sizes)

text \<open>Every frame of a datagram built parses to the packet meant, or to a fragment of it, and fits
  the link header and the MTU.\<close>

lemma build_udp_Inr:
  assumes "build_udp addrs link dst dst_mac source ttl ident payload mtu = Inr u"
  obtains lh src where "link_header_for addrs link dst_mac = Inr lh" "source_addr addrs (fst dst) source = Some src"
    "is_ipv4 (fst src) = is_ipv4 (fst dst)" "frames_inv u" "uf_link u = lh"
    "\<And>i. frame_length u i \<le> link_size lh + mtu"
    "\<And>af i n out out' pad. frames_write af u i out = Inr (n, out') \<Longrightarrow>
       parse_frame link (take n out' @ pad) = Inr (if uf_fragmented u then Fragment (frame_fragment u i)
         else Datagram (sent_packet lh src dst ttl payload))"
    "uf_fragmented u \<longleftrightarrow> mtu < (if is_ipv4 (fst dst) then 28 else 48) + length payload"
proof -
  obtain ip port where dst: "dst = (ip, port)" by fastforce
  show thesis
  proof (cases ip)
    case (V4 d)
    with assms dst obtain s lh where s: "v4_source addrs source = Inr s" and lh: "link_header_for addrs link dst_mac = Inr lh"
      and u: "frames_ipv4 lh s (d, port) ttl (ucast ident) payload mtu = Inr u"
      by (auto simp: build_udp_def result_bind_def split: sum.splits)
    from u show thesis
    proof (cases rule: frames_ipv4_inv)
      case (1 c)
      show thesis
      proof (rule that [OF lh, of "(V4 (fst s), snd s)"])
        show "source_addr addrs (fst dst) source = Some (V4 (fst s), snd s)" using s v4_source_Inr dst V4 by simp
        show "frame_length u i \<le> link_size lh + mtu" for i
          using 1 by (auto simp: frame_length_def frame_stop_def net_sizes)
        show "parse_frame link (take n out' @ pad) = Inr (if uf_fragmented u then Fragment (frame_fragment u i)
           else Datagram (sent_packet lh (V4 (fst s), snd s) dst ttl payload))"
          if "frames_write af u i out = Inr (n, out')" for af i n out out' pad
          using parse_written [OF 1(2) that 1(5), of pad] 1 link_header_for_Inr [OF lh] dst V4
          by (simp add: frames_packet_def sent_packet_def)
      qed (use 1 dst V4 in \<open>auto simp: is_ipv4_def\<close>)
    qed
  next
    case (V6 d)
    with assms dst obtain s lh where s: "v6_source addrs d source = Inr s" and lh: "link_header_for addrs link dst_mac = Inr lh"
      and u: "frames_ipv6 lh s (d, port) ttl ident payload mtu = Inr u"
      by (auto simp: build_udp_def result_bind_def split: sum.splits)
    from u show thesis
    proof (cases rule: frames_ipv6_inv)
      case (1 c)
      show thesis
      proof (rule that [OF lh, of "(V6 (fst s), snd s)"])
        show "source_addr addrs (fst dst) source = Some (V6 (fst s), snd s)" using s v6_source_Inr dst V6 by simp
        show "frame_length u i \<le> link_size lh + mtu" for i
          using 1 by (auto simp: frame_length_def frame_stop_def net_sizes)
        show "parse_frame link (take n out' @ pad) = Inr (if uf_fragmented u then Fragment (frame_fragment u i)
           else Datagram (sent_packet lh (V6 (fst s), snd s) dst ttl payload))"
          if "frames_write af u i out = Inr (n, out')" for af i n out out' pad
          using parse_written [OF 1(2) that 1(5), of pad] 1 link_header_for_Inr [OF lh] dst V6
          by (simp add: frames_packet_def sent_packet_def)
      qed (use 1 dst V6 in \<open>auto simp: is_ipv4_def\<close>)
    qed
  qed
qed

end
