(* ===== verification/Interface_Table.thy ===== *)
theory Interface_Table
  imports Datagram Counters
begin

text \<open>
  \<^verbatim>\<open>src/src/dispatch/interface_table.rs\<close>: every interface with what its captures are bound to and its
  group memberships, and every capture. The kernel is an argument of each operation that asks it
  something (\<open>kernel\<close>): what a name resolves to, what an interface reads as, whether a capture opens,
  re-binds and is still attached, and how a join is answered. An index out of range panics in the
  source and is \<open>None\<close> here. The log lines are dropped.
\<close>

section \<open>The system\<close>

datatype io_error =
    Os errno | NotFound | NotConnected | OtherDatagram datagram_error | ShortSend
  | OversizedFrame nat interface_name "u32 option"

text \<open>The parts of a capture that are not its read buffer.\<close>

record capture =
  cp_fd :: nat
  cp_link :: link_type
  cp_name :: interface_name

record kernel =
  kn_platform :: platform
  kn_nametoindex :: "interface_name \<Rightarrow> u32 \<times> errno"
  kn_read :: "interface_name \<Rightarrow> u32 \<Rightarrow> (io_error, reading) result"
  kn_open :: "interface \<Rightarrow> u32 \<Rightarrow> (io_error, capture) result"
  kn_attach :: "capture \<Rightarrow> interface \<Rightarrow> u32 \<Rightarrow> (io_error, link_type) result"
  kn_attached :: "capture \<Rightarrow> u32 \<Rightarrow> bool"
  kn_join :: "interface_name \<Rightarrow> u32 \<Rightarrow> ipaddr \<Rightarrow> join_answer"

definition kn_index :: "kernel \<Rightarrow> interface_name \<Rightarrow> (io_error, u32 option) result" where
  "kn_index kn name =
     (case if_index_checked (fst (kn_nametoindex kn name)) (snd (kn_nametoindex kn name)) of
        Inl e \<Rightarrow> Inl (Os e) | Inr ix \<Rightarrow> Inr ix)"

section \<open>Interfaces\<close>

type_synonym interface_key = u32
type_synonym capture_key = u32

record unbound =
  ub_ifindex :: u32
  ub_attempts :: u32
  ub_next_try :: instant

datatype presence = Present u32 | Parked | Unbound unbound

datatype step =
    Kept
  | LookupFailed io_error
  | SParked "u32 option"
  | Bound presence u32 bool
  | BindFailed presence u32 io_error nat bool

record capture_entry =
  ce_capture :: "capture option"
  ce_interface :: interface_key
  ce_counters :: capture_counters
  ce_sent_packet :: u64
  ce_sent :: "u64 list"

record interface_entry =
  ie_interface :: interface
  ie_presence :: presence
  ie_memberships :: "memberships option"

definition ie_ifindex :: "interface_entry \<Rightarrow> u32 option" where
  "ie_ifindex e = (case ie_presence e of Present ix \<Rightarrow> Some ix | _ \<Rightarrow> None)"

text \<open>\<open>False\<close> is \<^verbatim>\<open>Err(Gone)\<close>.\<close>

definition ie_converge :: "kernel \<Rightarrow> interface_entry \<Rightarrow> instant \<Rightarrow> bool \<times> interface_entry" where
  "ie_converge kn e now =
     (case (ie_presence e, ie_memberships e) of
        (Present ix, Some m) \<Rightarrow>
          (let (ok, m) = ms_converge (kn_platform kn) m (kn_join kn (if_name (ie_interface e)) ix) now
           in (ok, e\<lparr>ie_memberships := Some m\<rparr>))
      | _ \<Rightarrow> (True, e))"

definition ie_release :: "presence \<Rightarrow> interface_entry \<Rightarrow> interface_entry" where
  "ie_release p e = \<lparr>ie_interface = snd (interface_forget (ie_interface e)), ie_presence = p,
     ie_memberships = map_option ms_rebase (ie_memberships e)\<rparr>"

section \<open>The table\<close>

record interface_table =
  it_entries :: "interface_entry list"
  it_captures :: "capture_entry list"
  it_join_groups :: bool

definition table_new :: interface_table where
  "table_new = \<lparr>it_entries = [], it_captures = [], it_join_groups = True\<rparr>"

definition without_group_joins :: interface_table where
  "without_group_joins = table_new\<lparr>it_join_groups := False\<rparr>"

definition it_entry :: "interface_table \<Rightarrow> interface_key \<Rightarrow> interface_entry option" where
  "it_entry t k = nth_opt (it_entries t) (unat k)"

definition it_capture_entry :: "interface_table \<Rightarrow> capture_key \<Rightarrow> capture_entry option" where
  "it_capture_entry t k = nth_opt (it_captures t) (unat k)"

definition set_entry :: "interface_table \<Rightarrow> interface_key \<Rightarrow> interface_entry \<Rightarrow> interface_table" where
  "set_entry t k e = t\<lparr>it_entries := (it_entries t)[unat k := e]\<rparr>"

definition set_capture_entry :: "interface_table \<Rightarrow> capture_key \<Rightarrow> capture_entry \<Rightarrow> interface_table" where
  "set_capture_entry t k c = t\<lparr>it_captures := (it_captures t)[unat k := c]\<rparr>"

definition it_join_on ::
  "kernel \<Rightarrow> interface_table \<Rightarrow> interface_key \<Rightarrow> ipaddr \<Rightarrow> wanted \<Rightarrow> instant
   \<Rightarrow> ((join_error, unit) result \<times> interface_table) option" where
  "it_join_on kn t k grp w now =
     map_option (\<lambda>e.
       case ie_memberships e of
         None \<Rightarrow> (Inr (), t)
       | Some m \<Rightarrow>
           (case ie_presence e of
              Present ix \<Rightarrow>
                (let (r, m) = ms_join (kn_platform kn) m grp w (kn_join kn (if_name (ie_interface e)) ix grp) now
                 in (r, set_entry t k (e\<lparr>ie_memberships := Some m\<rparr>)))
            | _ \<Rightarrow> (Inr (), set_entry t k (e\<lparr>ie_memberships := Some (snd (ms_add m grp w))\<rparr>))))
     (it_entry t k)"

definition interface_index :: "interface_table \<Rightarrow> interface_key \<Rightarrow> u32 option" where
  "interface_index t k = Option.bind (it_entry t k) ie_ifindex"

definition it_probe :: "kernel \<Rightarrow> interface_table \<Rightarrow> interface_key \<Rightarrow> bool" where
  "it_probe kn t k =
     (case interface_index t k of
        None \<Rightarrow> True
      | Some ix \<Rightarrow> list_all (\<lambda>c. ce_interface c \<noteq> k \<or>
            (case ce_capture c of None \<Rightarrow> True | Some cap \<Rightarrow> kn_attached kn cap ix)) (it_captures t))"

definition it_converge :: "kernel \<Rightarrow> interface_table \<Rightarrow> interface_key \<Rightarrow> instant \<Rightarrow> bool \<times> interface_table" where
  "it_converge kn t k now =
     (if \<not> it_probe kn t k then (False, t)
      else case it_entry t k of
          None \<Rightarrow> (True, t)
        | Some e \<Rightarrow> (let (ok, e) = ie_converge kn e now in (ok, set_entry t k e)))"

definition interface_keys :: "interface_table \<Rightarrow> interface_key list" where
  "interface_keys t = map word_of_nat [0..<length (it_entries t)]"

fun converge_each :: "kernel \<Rightarrow> interface_table \<Rightarrow> instant \<Rightarrow> interface_key list \<Rightarrow> bool \<times> interface_table" where
  "converge_each kn t now [] = (True, t)"
| "converge_each kn t now (k # ks) =
     (let (ok, t) = it_converge kn t k now; (rest, t) = converge_each kn t now ks in (ok \<and> rest, t))"

definition converge_all :: "kernel \<Rightarrow> interface_table \<Rightarrow> instant \<Rightarrow> bool \<times> interface_table" where
  "converge_all kn t now = converge_each kn t now (interface_keys t)"

definition next_join_retry :: "interface_table \<Rightarrow> instant option" where
  "next_join_retry t = min_instant (List.map_filter (\<lambda>e. Option.bind (ie_memberships e) ms_next_retry) (it_entries t))"

definition find_or_add_interface ::
  "kernel \<Rightarrow> interface_table \<Rightarrow> interface_name \<Rightarrow> ((io_error, interface_key) result \<times> interface_table) option" where
  "find_or_add_interface kn t name =
     (case position (\<lambda>e. if_name (ie_interface e) = name) (it_entries t) of
        Some index \<Rightarrow> map_option (\<lambda>k. (Inr k, t)) (u32_try_from index)
      | None \<Rightarrow>
          (case kn_index kn name of
             Inl e \<Rightarrow> Some (Inl e, t)
           | Inr None \<Rightarrow> Some (Inl NotFound, t)
           | Inr (Some ix) \<Rightarrow>
               Option.bind (u32_try_from (length (it_entries t))) (\<lambda>k.
                 Some (case interface_open name (kn_read kn name ix) of
                    Inl e \<Rightarrow> (Inl e, t)
                  | Inr i \<Rightarrow> (Inr k, t\<lparr>it_entries := it_entries t @ [\<lparr>ie_interface = i, ie_presence = Present ix,
                       ie_memberships = (if it_join_groups t then Some memberships_new else None)\<rparr>]\<rparr>)))))"

definition was_sent :: "interface_table \<Rightarrow> capture_key \<Rightarrow> u64 \<Rightarrow> u64 \<Rightarrow> bool" where
  "was_sent t egress pkt digest =
     (case it_capture_entry t egress of
        None \<Rightarrow> False
      | Some c \<Rightarrow> ce_sent_packet c = pkt \<and> digest \<in> set (ce_sent c))"

definition record_sent :: "interface_table \<Rightarrow> capture_key \<Rightarrow> u64 \<Rightarrow> u64 \<Rightarrow> interface_table" where
  "record_sent t egress pkt digest =
     (case it_capture_entry t egress of
        None \<Rightarrow> t
      | Some c \<Rightarrow>
          let c = (if ce_sent_packet c \<noteq> pkt then c\<lparr>ce_sent_packet := pkt, ce_sent := []\<rparr> else c)
          in set_capture_entry t egress (c\<lparr>ce_sent := ce_sent c @ [digest]\<rparr>))"

definition it_open_capture ::
  "kernel \<Rightarrow> interface_table \<Rightarrow> interface_name \<Rightarrow> ((io_error, capture_key) result \<times> interface_table) option" where
  "it_open_capture kn t name =
     Option.bind (find_or_add_interface kn t name) (\<lambda>(r, t).
       case r of
         Inl e \<Rightarrow> Some (Inl e, t)
       | Inr k \<Rightarrow>
           Option.bind (it_entry t k) (\<lambda>e.
             case ie_ifindex e of
               None \<Rightarrow> Some (Inl NotFound, t)
             | Some ix \<Rightarrow>
                 (case kn_open kn (ie_interface e) ix of
                    Inl err \<Rightarrow> Some (Inl err, t)
                  | Inr cap \<Rightarrow>
                      map_option (\<lambda>key. (Inr key, t\<lparr>it_captures := it_captures t @ [\<lparr>ce_capture = Some cap, ce_interface = k,
                        ce_counters = capture_counters_default, ce_sent_packet = 0, ce_sent = []\<rparr>]\<rparr>))
                      (u32_try_from (length (it_captures t))))))"

definition interface_of :: "interface_table \<Rightarrow> capture_key \<Rightarrow> interface_key option" where
  "interface_of t c = map_option ce_interface (it_capture_entry t c)"

definition it_addrs :: "interface_table \<Rightarrow> interface_key \<Rightarrow> interface_addresses option" where
  "it_addrs t k = map_option (\<lambda>e. if_addrs (ie_interface e)) (it_entry t k)"

definition ifindex_of :: "interface_table \<Rightarrow> capture_key \<Rightarrow> u32 option" where
  "ifindex_of t c = Option.bind (interface_of t c) (interface_index t)"

definition interface_name_of :: "interface_table \<Rightarrow> interface_key \<Rightarrow> interface_name option" where
  "interface_name_of t k = map_option (\<lambda>e. if_name (ie_interface e)) (it_entry t k)"

definition egress_addrs :: "interface_table \<Rightarrow> capture_key \<Rightarrow> interface_addresses option" where
  "egress_addrs t c = Option.bind (interface_of t c) (it_addrs t)"

definition mtu_of :: "interface_table \<Rightarrow> capture_key \<Rightarrow> u32 option" where
  "mtu_of t c = Option.bind (interface_of t c) (\<lambda>k. Option.bind (it_entry t k) (\<lambda>e. if_mtu (ie_interface e)))"

definition it_capture :: "interface_table \<Rightarrow> capture_key \<Rightarrow> capture option" where
  "it_capture t c = Option.bind (it_capture_entry t c) ce_capture"

definition it_contains :: "interface_table \<Rightarrow> capture_key \<Rightarrow> bool" where
  "it_contains t c \<longleftrightarrow> unat c < length (it_captures t)"

definition it_take :: "interface_table \<Rightarrow> capture_key \<Rightarrow> capture option \<times> interface_table" where
  "it_take t c =
     (case it_capture_entry t c of
        None \<Rightarrow> (None, t)
      | Some e \<Rightarrow> (ce_capture e, set_capture_entry t c (e\<lparr>ce_capture := None\<rparr>)))"

definition it_restore :: "interface_table \<Rightarrow> capture_key \<Rightarrow> capture \<Rightarrow> bool \<times> interface_table" where
  "it_restore t c cap =
     (case it_capture_entry t c of
        None \<Rightarrow> (False, t)
      | Some e \<Rightarrow> (True, set_capture_entry t c (e\<lparr>ce_capture := Some cap\<rparr>)))"

definition it_count :: "interface_table \<Rightarrow> capture_key \<Rightarrow> (capture_counters \<Rightarrow> capture_counters) \<Rightarrow> interface_table option" where
  "it_count t c f = map_option (\<lambda>e. set_capture_entry t c (e\<lparr>ce_counters := f (ce_counters e)\<rparr>)) (it_capture_entry t c)"

definition it_record :: "interface_table \<Rightarrow> capture_key \<Rightarrow> outcome \<Rightarrow> interface_table option" where
  "it_record t c outcome = it_count t c (\<lambda>k. record_outcome k outcome)"

definition it_record_oversized :: "interface_table \<Rightarrow> capture_key \<Rightarrow> u64 \<Rightarrow> interface_table option" where
  "it_record_oversized t c n = it_count t c (\<lambda>k. record_oversized k n)"

definition it_record_echo :: "interface_table \<Rightarrow> capture_key \<Rightarrow> interface_table option" where
  "it_record_echo t c = it_count t c record_echo"

definition it_record_unreassembled :: "interface_table \<Rightarrow> capture_key \<Rightarrow> interface_table option" where
  "it_record_unreassembled t c = it_count t c record_unreassembled"

definition counter_rows :: "interface_table \<Rightarrow> (interface_name \<times> capture_counters) list" where
  "counter_rows t = List.map_filter (\<lambda>c. map_option (\<lambda>name. (name, ce_counters c)) (interface_name_of t (ce_interface c))) (it_captures t)"

definition key_by_ifindex :: "interface_table \<Rightarrow> u32 \<Rightarrow> interface_key option" where
  "key_by_ifindex t ix = map_option word_of_nat (position (\<lambda>e. ie_ifindex e = Some ix) (it_entries t))"

definition wake :: "(unbound \<Rightarrow> bool) \<Rightarrow> instant \<Rightarrow> interface_entry \<Rightarrow> interface_entry" where
  "wake due_for now e =
     (case ie_presence e of
        Unbound u \<Rightarrow> if due_for u then e\<lparr>ie_presence := Unbound (u\<lparr>ub_next_try := now\<rparr>)\<rparr> else e
      | _ \<Rightarrow> e)"

definition wake_unbound :: "interface_table \<Rightarrow> u32 \<Rightarrow> instant \<Rightarrow> bool \<times> interface_table" where
  "wake_unbound t ix now =
     (list_ex (\<lambda>e. case ie_presence e of Unbound u \<Rightarrow> ub_ifindex u = ix | _ \<Rightarrow> False) (it_entries t),
      t\<lparr>it_entries := map (wake (\<lambda>u. ub_ifindex u = ix) now) (it_entries t)\<rparr>)"

definition wake_all_unbound :: "interface_table \<Rightarrow> instant \<Rightarrow> interface_table" where
  "wake_all_unbound t now = t\<lparr>it_entries := map (wake (\<lambda>_. True) now) (it_entries t)\<rparr>"

definition no_change :: address_change where
  "no_change = \<lparr>ac_mac = False, ac_v4 = False, ac_v6 = False\<rparr>"

definition it_refresh ::
  "kernel \<Rightarrow> interface_table \<Rightarrow> interface_key \<Rightarrow> ((io_error, address_change) result \<times> interface_table) option" where
  "it_refresh kn t k =
     map_option (\<lambda>e.
       case ie_presence e of
         Present ix \<Rightarrow>
           (let (r, i) = interface_refresh (ie_interface e) (kn_read kn (if_name (ie_interface e)) ix)
            in (r, set_entry t k (e\<lparr>ie_interface := i\<rparr>)))
       | _ \<Rightarrow> (Inr no_change, t))
     (it_entry t k)"

definition refresh_entry :: "kernel \<Rightarrow> interface_entry \<Rightarrow> (io_error, address_change) result option \<times> interface_entry" where
  "refresh_entry kn e =
     (case ie_presence e of
        Present ix \<Rightarrow>
          (let (r, i) = interface_refresh (ie_interface e) (kn_read kn (if_name (ie_interface e)) ix)
           in (Some r, e\<lparr>ie_interface := i\<rparr>))
      | _ \<Rightarrow> (None, e))"

definition refresh_all ::
  "kernel \<Rightarrow> interface_table \<Rightarrow> (interface_key \<times> (io_error, address_change) result) list \<times> interface_table" where
  "refresh_all kn t =
     (let rs = map (refresh_entry kn) (it_entries t)
      in (List.map_filter (\<lambda>(i, r). map_option (\<lambda>r. (word_of_nat i, r)) r) (enumerate 0 (map fst rs)),
          t\<lparr>it_entries := map snd rs\<rparr>))"

definition any_parked :: "interface_table \<Rightarrow> bool" where
  "any_parked t = list_ex (\<lambda>e. ie_presence e = Parked) (it_entries t)"

definition next_bind_retry :: "interface_table \<Rightarrow> instant option" where
  "next_bind_retry t = min_instant (List.map_filter (\<lambda>e. case ie_presence e of Unbound u \<Rightarrow> Some (ub_next_try u) | _ \<Rightarrow> None) (it_entries t))"

text \<open>\<^verbatim>\<open>rebind_captures\<close>: the captures re-bound before one that fails stay re-bound.\<close>

fun rebind_captures ::
  "kernel \<Rightarrow> interface \<Rightarrow> interface_key \<Rightarrow> u32 \<Rightarrow> capture_entry list \<Rightarrow> (io_error, unit) result \<times> capture_entry list" where
  "rebind_captures kn rec k ix [] = (Inr (), [])"
| "rebind_captures kn rec k ix (c # cs) =
     (if ce_interface c \<noteq> k then (let (r, cs) = rebind_captures kn rec k ix cs in (r, c # cs))
      else case ce_capture c of
          None \<Rightarrow> (let (r, cs) = rebind_captures kn rec k ix cs in (r, c # cs))
        | Some cap \<Rightarrow>
            (case kn_attach kn cap rec ix of
               Inl e \<Rightarrow> (Inl e, c # cs)
             | Inr link \<Rightarrow>
                 (let (r, cs) = rebind_captures kn rec k ix cs
                  in (r, c\<lparr>ce_capture := Some (cap\<lparr>cp_link := link\<rparr>)\<rparr> # cs))))"

definition settle_bind ::
  "kernel \<Rightarrow> interface_table \<Rightarrow> interface_key \<Rightarrow> interface_entry \<Rightarrow> u32 \<Rightarrow> presence \<Rightarrow> (io_error, unit) result \<Rightarrow> instant
   \<Rightarrow> step \<times> interface_table" where
  "settle_bind kn t k e ix was bound now =
     (case bound of
        Inl err \<Rightarrow>
          (let attempts = (case was of
                 Unbound u \<Rightarrow> if ub_ifindex u = ix then saturating_inc (ub_attempts u) else 0
               | _ \<Rightarrow> 0);
               retry_in = retry_delay attempts
           in (BindFailed was ix err retry_in (attempts = 0),
               set_entry t k (ie_release (Unbound \<lparr>ub_ifindex = ix, ub_attempts = attempts, ub_next_try = now + retry_in\<rparr>) e)))
      | Inr _ \<Rightarrow>
          (let t = set_entry t k (e\<lparr>ie_presence := Present ix\<rparr>);
               t = t\<lparr>it_captures := map (\<lambda>c. if ce_interface c = k
                     then c\<lparr>ce_counters := record_recovery (ce_counters c)\<rparr> else c) (it_captures t)\<rparr>;
               (ok, t) = it_converge kn t k now
           in (Bound was ix (\<not> ok), t)))"

definition it_bind ::
  "kernel \<Rightarrow> interface_table \<Rightarrow> interface_key \<Rightarrow> interface_entry \<Rightarrow> u32 \<Rightarrow> instant \<Rightarrow> step \<times> interface_table" where
  "it_bind kn t k e ix now =
     (let was = ie_presence e;
          e = e\<lparr>ie_memberships := map_option ms_rebase (ie_memberships e)\<rparr>
      in case kn_read kn (if_name (ie_interface e)) ix of
           Inl err \<Rightarrow> settle_bind kn t k e ix was (Inl err) now
         | Inr rd \<Rightarrow>
             (let e = (if kn_platform kn = Linux then e else e\<lparr>ie_interface := take_link (ie_interface e) rd\<rparr>);
                  (r, cs) = rebind_captures kn (ie_interface e) k ix (it_captures t);
                  t = t\<lparr>it_captures := cs\<rparr>
              in case r of
                   Inl err \<Rightarrow> settle_bind kn t k e ix was (Inl err) now
                 | Inr _ \<Rightarrow>
                     settle_bind kn t k (e\<lparr>ie_interface := snd (interface_adopt (ie_interface e) rd)\<rparr>) ix was (Inr ()) now))"

definition it_step :: "kernel \<Rightarrow> interface_table \<Rightarrow> interface_key \<Rightarrow> instant \<Rightarrow> (step \<times> interface_table) option" where
  "it_step kn t k now =
     map_option (\<lambda>e.
       case kn_index kn (if_name (ie_interface e)) of
         Inl err \<Rightarrow> (LookupFailed err, t)
       | Inr None \<Rightarrow>
           (case ie_presence e of
              Parked \<Rightarrow> (Kept, t)
            | Present was \<Rightarrow> (SParked (Some was), set_entry t k (ie_release Parked e))
            | Unbound _ \<Rightarrow> (SParked None, set_entry t k (e\<lparr>ie_presence := Parked\<rparr>)))
       | Inr (Some cur) \<Rightarrow>
           if (case ie_presence e of
                 Present bound \<Rightarrow> cur = bound \<and> it_probe kn t k
               | Unbound u \<Rightarrow> cur = ub_ifindex u \<and> now < ub_next_try u
               | Parked \<Rightarrow> False)
           then (Kept, t)
           else it_bind kn t k e cur now)
     (it_entry t k)"

definition captures_of :: "interface_table \<Rightarrow> interface_key \<Rightarrow> capture_key list" where
  "captures_of t k = map (\<lambda>(i, _). word_of_nat i) (filter (\<lambda>(_, c). ce_interface c = k) (enumerate 0 (it_captures t)))"

definition capture_watches :: "interface_table \<Rightarrow> (nat \<times> u64) list" where
  "capture_watches t = List.map_filter (\<lambda>(i, c). map_option (\<lambda>cap. (cp_fd cap, ucast (word_of_nat i :: u32))) (ce_capture c))
     (enumerate 0 (it_captures t))"

section \<open>What the table keeps\<close>

text \<open>An interface that is not bound sources nothing and is a member of nothing.\<close>

definition idle :: "interface_entry \<Rightarrow> bool" where
  "idle e \<longleftrightarrow> if_addrs (ie_interface e) = addresses_default \<and> if_mtu (ie_interface e) = None
     \<and> (case ie_memberships e of None \<Rightarrow> True
        | Some m \<Rightarrow> ms_sockets m = sockets_default \<and> (\<forall>b \<in> set (ms_groups m). mb_state b = Pending))"

definition presence_ok :: "instant \<Rightarrow> interface_entry \<Rightarrow> bool" where
  "presence_ok now e =
     (case ie_presence e of
        Present ix \<Rightarrow> ix \<noteq> 0
      | Parked \<Rightarrow> idle e
      | Unbound u \<Rightarrow> idle e \<and> ub_ifindex u \<noteq> 0 \<and> ub_next_try u \<le> now + RETRY_CEILING)"

definition memberships_ok :: "bool \<Rightarrow> instant \<Rightarrow> interface_entry \<Rightarrow> bool" where
  "memberships_ok joins now e = (case ie_memberships e of None \<Rightarrow> \<not> joins | Some m \<Rightarrow> joins \<and> ms_inv now m)"

definition ie_inv :: "bool \<Rightarrow> instant \<Rightarrow> interface_entry \<Rightarrow> bool" where
  "ie_inv joins now e \<longleftrightarrow> presence_ok now e \<and> memberships_ok joins now e"

definition it_inv :: "instant \<Rightarrow> interface_table \<Rightarrow> bool" where
  "it_inv now t \<longleftrightarrow> distinct (map (if_name \<circ> ie_interface) (it_entries t))
     \<and> length (it_entries t) \<le> 2 ^ 32 \<and> length (it_captures t) \<le> 2 ^ 32
     \<and> (\<forall>e \<in> set (it_entries t). ie_inv (it_join_groups t) now e)
     \<and> (\<forall>c \<in> set (it_captures t). unat (ce_interface c) < length (it_entries t))"

text \<open>A kernel that never says a group is held by a socket that was not asked to join it: the table
  attempts no group twice on the same socket.\<close>

definition kn_honest :: "kernel \<Rightarrow> bool" where
  "kn_honest kn \<longleftrightarrow> (\<forall>name ix g. ja_join (kn_join kn name ix g) \<noteq> Some EADDRINUSE)"

lemma kn_honestD: "kn_honest kn \<Longrightarrow> honest s g (kn_join kn name ix g)"
  by (simp add: kn_honest_def honest_def)

lemma kn_index_nonzero: "kn_index kn name = Inr (Some ix) \<Longrightarrow> ix \<noteq> 0"
  by (auto simp: kn_index_def if_index_checked_def split: if_splits)

lemma nth_opt_Some: "nth_opt xs i = Some x \<longleftrightarrow> i < length xs \<and> xs ! i = x"
  by (auto simp: nth_opt_def)

lemma it_entry_Some: "it_entry t k = Some e \<longleftrightarrow> unat k < length (it_entries t) \<and> it_entries t ! unat k = e"
  by (simp add: it_entry_def nth_opt_Some)

lemma it_capture_entry_Some: "it_capture_entry t k = Some c \<longleftrightarrow> unat k < length (it_captures t) \<and> it_captures t ! unat k = c"
  by (simp add: it_capture_entry_def nth_opt_Some)

lemma it_entry_inv: "it_entry t k = Some e \<Longrightarrow> it_inv now t \<Longrightarrow> ie_inv (it_join_groups t) now e"
  by (auto simp: it_entry_Some it_inv_def)

lemma set_entry_fields [simp]:
  "it_captures (set_entry t k e) = it_captures t" "it_join_groups (set_entry t k e) = it_join_groups t"
  "length (it_entries (set_entry t k e)) = length (it_entries t)"
  by (simp_all add: set_entry_def)

lemma set_capture_entry_fields [simp]:
  "it_entries (set_capture_entry t k c) = it_entries t" "it_join_groups (set_capture_entry t k c) = it_join_groups t"
  "length (it_captures (set_capture_entry t k c)) = length (it_captures t)"
  by (simp_all add: set_capture_entry_def)

lemma it_entry_set: "unat k < length (it_entries t) \<Longrightarrow> it_entry (set_entry t k e) k' = (if k' = k then Some e else it_entry t k')"
  by (auto simp: it_entry_def nth_opt_def set_entry_def nth_list_update word_unat_eq_iff)

lemma set_entry_inv:
  assumes "it_inv now t" "it_entry t k = Some e0" "ie_inv (it_join_groups t) now e"
    "if_name (ie_interface e) = if_name (ie_interface e0)"
  shows "it_inv now (set_entry t k e)"
proof -
  have k: "unat k < length (it_entries t)" "it_entries t ! unat k = e0" using assms(2) by (simp_all add: it_entry_Some)
  then have "(map (if_name \<circ> ie_interface) (it_entries t))[unat k := (if_name \<circ> ie_interface) e]
      = map (if_name \<circ> ie_interface) (it_entries t)"
    using assms(4) by (metis comp_apply list_update_id nth_map length_map)
  then have "map (if_name \<circ> ie_interface) ((it_entries t)[unat k := e]) = map (if_name \<circ> ie_interface) (it_entries t)"
    by (simp add: map_update)
  then show ?thesis using assms(1,3) set_update_subset_insert [of "it_entries t" "unat k" e]
    by (auto simp: it_inv_def set_entry_def)
qed

lemma it_inv_captures:
  assumes "it_inv now t" "map ce_interface cs = map ce_interface (it_captures t)"
  shows "it_inv now (t\<lparr>it_captures := cs\<rparr>)"
proof -
  have "length cs = length (it_captures t)" using assms(2) map_eq_imp_length_eq by blast
  moreover have "ce_interface ` set cs = ce_interface ` set (it_captures t)" using assms(2) by (metis list.set_map)
  then have "\<forall>c \<in> set cs. unat (ce_interface c) < length (it_entries t)"
    using assms(1) by (force simp: it_inv_def)
  ultimately show ?thesis using assms(1) by (simp add: it_inv_def)
qed

lemma set_capture_entry_inv:
  assumes "it_inv now t" "it_capture_entry t k = Some c0" "ce_interface c = ce_interface c0"
  shows "it_inv now (set_capture_entry t k c)"
  unfolding set_capture_entry_def
proof (rule it_inv_captures [OF assms(1)])
  have "(map ce_interface (it_captures t))[unat k := ce_interface c] = map ce_interface (it_captures t)"
    using assms(2,3) by (auto simp: it_capture_entry_Some intro: list_update_same_conv [THEN iffD2])
  then show "map ce_interface ((it_captures t)[unat k := c]) = map ce_interface (it_captures t)" by (simp add: map_update)
qed

lemma ms_inv_later: "ms_inv now m \<Longrightarrow> now \<le> later \<Longrightarrow> ms_inv later m"
  by (auto simp: ms_inv_def intro: mb_ok_mono)

lemma ms_inv_rebase: "ms_inv now m \<Longrightarrow> ms_inv now (ms_rebase m)"
  by (auto simp: ms_rebase_def ms_inv_def mb_ok_def comp_def)

lemma ms_inv_converge:
  assumes "ms_inv now m" "\<And>g. honest (ms_sockets m) g (answers g)"
  shows "ms_inv now (snd (ms_converge plat m answers now))"
proof -
  obtain ok s ms where c: "converge_groups plat (ms_sockets m) (ms_groups m) answers now = (ok, s, ms)" by (metis prod_cases3)
  from converge_groups_ok [OF c] assms show ?thesis by (simp add: ms_converge_def c ms_inv_def)
qed

lemma it_inv_later:
  assumes "it_inv now t" "now \<le> later"
  shows "it_inv later t"
proof -
  have "ie_inv j later e" if "ie_inv j now e" for j e
    using that assms(2) by (auto simp: ie_inv_def presence_ok_def memberships_ok_def ms_inv_later split: presence.splits option.splits)
  with assms(1) show ?thesis by (simp add: it_inv_def)
qed

lemma forget_fields: "if_addrs (snd (interface_forget i)) = addresses_default" "if_mtu (snd (interface_forget i)) = None"
    "if_name (snd (interface_forget i)) = if_name i"
  by (simp_all add: interface_forget_def replace_addrs_def Let_def)

lemma release_idle: "idle (ie_release p e)"
  by (auto simp: idle_def ie_release_def forget_fields ms_rebase_def split: option.splits)

lemma ie_release_inv:
  assumes "memberships_ok j now e"
    "case p of Present ix \<Rightarrow> False | Parked \<Rightarrow> True | Unbound u \<Rightarrow> ub_ifindex u \<noteq> 0 \<and> ub_next_try u \<le> now + RETRY_CEILING"
  shows "ie_inv j now (ie_release p e) \<and> if_name (ie_interface (ie_release p e)) = if_name (ie_interface e)"
proof -
  have "memberships_ok j now (ie_release p e)"
    using assms(1) by (auto simp: memberships_ok_def ie_release_def ms_inv_rebase split: option.splits)
  moreover have "ie_presence (ie_release p e) = p" by (simp add: ie_release_def)
  ultimately show ?thesis using assms(2) release_idle [of p e]
    by (auto simp: ie_inv_def presence_ok_def forget_fields ie_release_def split: presence.splits)
qed

lemma ie_converge_facts:
  assumes "ie_inv j now e" "kn_honest kn" "ie_converge kn e now = (ok, e')"
  shows "ie_inv j now e' \<and> ie_interface e' = ie_interface e \<and> ie_presence e' = ie_presence e"
proof (cases "\<exists>ix m. ie_presence e = Present ix \<and> ie_memberships e = Some m")
  case True
  then obtain ix m where p: "ie_presence e = Present ix" and m: "ie_memberships e = Some m" by blast
  let ?ans = "kn_join kn (if_name (ie_interface e)) ix"
  have "ms_inv now (snd (ms_converge (kn_platform kn) m ?ans now))"
    using assms(1,2) m by (intro ms_inv_converge) (auto simp: ie_inv_def memberships_ok_def kn_honestD)
  moreover have "e' = e\<lparr>ie_memberships := Some (snd (ms_converge (kn_platform kn) m ?ans now))\<rparr>"
    using assms(3) p m by (auto simp: ie_converge_def split: prod.splits)
  ultimately show ?thesis using assms(1) p m by (auto simp: ie_inv_def presence_ok_def memberships_ok_def)
next
  case False
  then show ?thesis using assms(1,3) by (auto simp: ie_converge_def split: presence.splits option.splits)
qed

lemma it_converge_inv:
  assumes "it_inv now t" "kn_honest kn"
  shows "it_inv now (snd (it_converge kn t k now))"
proof (cases "it_entry t k")
  case (Some e)
  obtain ok e' where c: "ie_converge kn e now = (ok, e')" by fastforce
  from ie_converge_facts [OF it_entry_inv [OF Some assms(1)] assms(2) c] set_entry_inv [OF assms(1) Some, of e'] assms(1)
  show ?thesis by (simp add: it_converge_def Some c)
qed (use assms in \<open>simp add: it_converge_def\<close>)

lemma converge_each_inv: "it_inv now t \<Longrightarrow> kn_honest kn \<Longrightarrow> it_inv now (snd (converge_each kn t now ks))"
proof (induction ks arbitrary: t)
  case (Cons k ks)
  obtain ok t1 where c: "it_converge kn t k now = (ok, t1)" by fastforce
  with it_converge_inv [OF Cons.prems, of k] have "it_inv now t1" by simp
  from Cons.IH [OF this Cons.prems(2)] show ?case by (simp add: c split_beta)
qed simp

lemma ms_add_pending:
  "\<forall>b \<in> set (ms_groups m). mb_state b = Pending \<Longrightarrow> \<forall>b \<in> set (ms_groups (snd (ms_add m grp w))). mb_state b = Pending"
  using set_update_subset_insert by (fastforce simp: ms_add_def Let_def position_Some_iff split: option.splits)

lemma it_join_on_inv:
  assumes "it_join_on kn t k grp w now = Some (r, t')" "it_inv now t" "kn_honest kn"
  shows "it_inv now t'"
proof -
  from assms(1) obtain e where e: "it_entry t k = Some e" by (auto simp: it_join_on_def)
  note inv = it_entry_inv [OF e assms(2)]
  show ?thesis
  proof (cases "ie_memberships e")
    case (Some m)
    then have m: "ms_inv now m" "it_join_groups t" using inv by (auto simp: ie_inv_def memberships_ok_def)
    have add: "ms_inv now (snd (ms_add m grp w))" "ms_sockets (snd (ms_add m grp w)) = ms_sockets m"
      using ms_add_spec [of m grp w _ _ now] m by (metis prod.collapse)+
    show ?thesis
    proof (cases "ie_ifindex e")
      case (Some ix)
      let ?m = "snd (ms_join (kn_platform kn) m grp w (kn_join kn (if_name (ie_interface e)) ix grp) now)"
      have p: "ie_presence e = Present ix" using Some by (simp add: ie_ifindex_def split: presence.splits)
      then have "t' = set_entry t k (e\<lparr>ie_memberships := Some ?m\<rparr>)"
        using assms(1) e \<open>ie_memberships e = Some m\<close> by (auto simp: it_join_on_def split: prod.splits)
      moreover have "ms_inv now ?m" using m assms(3) by (intro ms_join_inv) (auto simp: kn_honestD)
      ultimately show ?thesis
        using set_entry_inv [OF assms(2) e] inv p m by (auto simp: ie_inv_def presence_ok_def memberships_ok_def)
    next
      case None
      then have "t' = set_entry t k (e\<lparr>ie_memberships := Some (snd (ms_add m grp w))\<rparr>)"
        using assms(1) e \<open>ie_memberships e = Some m\<close> by (auto simp: it_join_on_def ie_ifindex_def split: presence.splits)
      then show ?thesis
        using set_entry_inv [OF assms(2) e] inv None m add ms_add_pending [of m grp w] \<open>ie_memberships e = Some m\<close>
        by (auto simp: ie_inv_def presence_ok_def memberships_ok_def idle_def ie_ifindex_def split: presence.splits)
    qed
  qed (use assms e in \<open>auto simp: it_join_on_def\<close>)
qed

lemma adopt_name: "if_name (snd (interface_adopt i r)) = if_name i"
  by (simp add: interface_adopt_def replace_addrs_def take_link_def Let_def)

lemma refresh_name: "if_name (snd (interface_refresh i r)) = if_name i"
  by (cases r) (simp_all add: interface_refresh_def adopt_name split_beta)

lemma open_name: "interface_open name r = Inr i \<Longrightarrow> if_name i = name"
  using refresh_name [of "\<lparr>if_name = name, if_addrs = addresses_default, if_mtu = None, if_loopback = False\<rparr>" r]
  by (auto simp: interface_open_def result_bind_def split: prod.splits sum.splits)

lemma u32_try_from_Some: "u32_try_from n = Some k \<longleftrightarrow> n < 2 ^ 32 \<and> unat k = n"
  by (auto simp: u32_try_from_def unat_of_nat_u32)

lemma find_or_add_inv:
  assumes "find_or_add_interface kn t name = Some (r, t')" "it_inv now t"
  shows "it_inv now t' \<and> (\<forall>k. r = Inr k \<longrightarrow> (\<exists>e. it_entry t' k = Some e \<and> if_name (ie_interface e) = name))
    \<and> (\<forall>k e. it_entry t k = Some e \<longrightarrow> it_entry t' k = Some e) \<and> it_captures t' = it_captures t"
proof (cases "position (\<lambda>e. if_name (ie_interface e) = name) (it_entries t)")
  case (Some i)
  then have "i < length (it_entries t)" "if_name (ie_interface (it_entries t ! i)) = name" by (auto simp: position_Some_iff)
  with Some assms show ?thesis by (auto simp: find_or_add_interface_def u32_try_from_Some it_entry_Some)
next
  case None
  then have new: "name \<notin> (if_name \<circ> ie_interface) ` set (it_entries t)" by (auto simp: position_None_iff)
  show ?thesis
  proof (cases "\<exists>k. r = Inr k")
    case True
    then obtain ix where ix: "kn_index kn name = Inr (Some ix)"
      using assms(1) None by (auto simp: find_or_add_interface_def split: sum.split_asm option.split_asm)
    moreover obtain k where k: "u32_try_from (length (it_entries t)) = Some k"
      using assms(1) None ix by (auto simp: find_or_add_interface_def bind_eq_Some_conv)
    moreover obtain i where i: "interface_open name (kn_read kn name ix) = Inr i"
      using assms(1) None ix k True by (auto simp: find_or_add_interface_def split: sum.split_asm)
    ultimately have f: "kn_index kn name = Inr (Some ix)" "u32_try_from (length (it_entries t)) = Some k"
      "interface_open name (kn_read kn name ix) = Inr i" "r = Inr k"
      "t' = t\<lparr>it_entries := it_entries t @ [\<lparr>ie_interface = i, ie_presence = Present ix,
          ie_memberships = (if it_join_groups t then Some memberships_new else None)\<rparr>]\<rparr>"
      using assms(1) None by (simp_all add: find_or_add_interface_def)
    have "it_inv now t'"
      using assms(2) f(2) open_name [OF f(3)] new kn_index_nonzero [OF f(1)]
      by (auto simp: f(5) it_inv_def u32_try_from_Some ie_inv_def presence_ok_def memberships_ok_def ms_inv_new less_Suc_eq)
    with f(2,4,5) open_name [OF f(3)] show ?thesis
      by (auto simp: it_entry_Some u32_try_from_Some nth_append)
  next
    case False
    then have "t' = t"
      using assms(1) None
      by (auto simp: find_or_add_interface_def bind_eq_Some_conv split: sum.split_asm option.split_asm) (metis sum.exhaust)
    with False assms(2) show ?thesis by auto
  qed
qed

lemma open_capture_inv:
  assumes "it_open_capture kn t name = Some (r, t')" "it_inv now t"
  shows "it_inv now t'"
proof -
  obtain r1 t1 where f: "find_or_add_interface kn t name = Some (r1, t1)"
    using assms(1) by (cases "find_or_add_interface kn t name") (auto simp: it_open_capture_def)
  have inv: "it_inv now t1" using find_or_add_inv [OF f assms(2)] by blast
  consider "t' = t1" | k e cap where "it_entry t1 k = Some e" "length (it_captures t1) < 2 ^ 32"
      "t' = t1\<lparr>it_captures := it_captures t1 @ [\<lparr>ce_capture = Some cap, ce_interface = k,
                        ce_counters = capture_counters_default, ce_sent_packet = 0, ce_sent = []\<rparr>]\<rparr>"
  proof (cases r1)
    case (Inl e)
    with assms(1) f show thesis by (intro that(1)) (simp add: it_open_capture_def)
  next
    case (Inr k)
    obtain e where e: "it_entry t1 k = Some e" using assms(1) f Inr by (auto simp: it_open_capture_def bind_eq_Some_conv)
    show thesis
    proof (cases "\<exists>ix cap. ie_ifindex e = Some ix \<and> kn_open kn (ie_interface e) ix = Inr cap")
      case True
      then obtain ix cap where "ie_ifindex e = Some ix" "kn_open kn (ie_interface e) ix = Inr cap" by blast
      with assms(1) f Inr e show thesis by (intro that(2) [OF e, of cap]) (auto simp: it_open_capture_def u32_try_from_Some)
    next
      case False
      with assms(1) f Inr e show thesis by (intro that(1)) (auto simp: it_open_capture_def split: option.split_asm sum.split_asm)
    qed
  qed
  then show ?thesis by cases (use inv in \<open>auto simp: it_inv_def it_entry_Some\<close>)
qed

lemma refresh_entry_inv:
  assumes "ie_inv j now e"
  shows "ie_inv j now (snd (refresh_entry kn e)) \<and> if_name (ie_interface (snd (refresh_entry kn e))) = if_name (ie_interface e)"
  using assms refresh_name
  by (auto simp: refresh_entry_def ie_inv_def presence_ok_def memberships_ok_def split_beta split: presence.splits)

lemma it_refresh_entry: "it_refresh kn t k = map_option (\<lambda>e. case refresh_entry kn e of (Some r, e) \<Rightarrow> (r, set_entry t k e)
    | (None, _) \<Rightarrow> (Inr no_change, t)) (it_entry t k)"
  by (auto simp: it_refresh_def refresh_entry_def split: presence.splits prod.splits intro!: option.map_cong0)

lemma it_refresh_inv:
  assumes "it_refresh kn t k = Some (r, t')" "it_inv now t"
  shows "it_inv now t'"
proof -
  obtain e where e: "it_entry t k = Some e" using assms(1) by (auto simp: it_refresh_def)
  with set_entry_inv [OF assms(2) e] refresh_entry_inv [OF it_entry_inv [OF e assms(2)], of kn] assms
  show ?thesis by (auto simp: it_refresh_entry split: prod.splits option.splits)
qed

lemma it_inv_map:
  assumes "it_inv now t" "\<And>e. ie_inv (it_join_groups t) now e \<Longrightarrow>
     ie_inv (it_join_groups t) now (f e) \<and> if_name (ie_interface (f e)) = if_name (ie_interface e)"
  shows "it_inv now (t\<lparr>it_entries := map f (it_entries t)\<rparr>)"
proof -
  have "map (if_name \<circ> ie_interface) (map f (it_entries t)) = map (if_name \<circ> ie_interface) (it_entries t)"
    using assms by (auto simp: it_inv_def)
  then have "distinct (map (if_name \<circ> ie_interface) (map f (it_entries t)))" using assms(1) by (simp only: it_inv_def)
  with assms show ?thesis by (simp add: it_inv_def)
qed

lemma refresh_all_inv: "it_inv now t \<Longrightarrow> it_inv now (snd (refresh_all kn t))"
  using it_inv_map [of now t "snd \<circ> refresh_entry kn"] refresh_entry_inv by (simp add: refresh_all_def Let_def comp_def)

lemma wake_inv: "it_inv now t \<Longrightarrow> it_inv now (t\<lparr>it_entries := map (wake p now) (it_entries t)\<rparr>)"
  by (rule it_inv_map) (auto simp: wake_def ie_inv_def presence_ok_def memberships_ok_def idle_def split: presence.splits)

lemma rebind_interfaces: "map ce_interface (snd (rebind_captures kn rec k ix cs)) = map ce_interface cs"
  by (induction cs) (auto simp: split_beta split: option.splits sum.splits)

text \<open>The settlement of a bind, on the entry as the bind left it.\<close>

lemma settle_bind_inv:
  assumes "it_inv now t" "it_entry t k = Some e0" "memberships_ok (it_join_groups t) now e"
    "if_name (ie_interface e) = if_name (ie_interface e0)" "ix \<noteq> 0" "kn_honest kn"
  shows "it_inv now (snd (settle_bind kn t k e ix was bound now))"
proof (cases bound)
  case (Inl err)
  show ?thesis
    using ie_release_inv [OF assms(3), of "Unbound u" for u] assms(4,5) retry_delay_le
    by (auto simp: settle_bind_def Inl Let_def intro!: set_entry_inv [OF assms(1,2)])
next
  case (Inr x)
  have "ie_inv (it_join_groups t) now (e\<lparr>ie_presence := Present ix\<rparr>)"
    using assms(3,5) by (simp add: ie_inv_def presence_ok_def memberships_ok_def)
  then have "it_inv now (set_entry t k (e\<lparr>ie_presence := Present ix\<rparr>))"
    using assms(4) by (intro set_entry_inv [OF assms(1,2)]) simp_all
  then have "it_inv now ((set_entry t k (e\<lparr>ie_presence := Present ix\<rparr>))\<lparr>it_captures := map (\<lambda>c. if ce_interface c = k
      then c\<lparr>ce_counters := record_recovery (ce_counters c)\<rparr> else c) (it_captures t)\<rparr>)"
    by (rule it_inv_captures) auto
  from it_converge_inv [OF this assms(6), of k] show ?thesis by (simp add: settle_bind_def Inr Let_def split_beta)
qed

lemma it_bind_inv:
  assumes "it_inv now t" "it_entry t k = Some e" "ix \<noteq> 0" "kn_honest kn"
  shows "it_inv now (snd (it_bind kn t k e ix now))"
proof -
  let ?e = "e\<lparr>ie_memberships := map_option ms_rebase (ie_memberships e)\<rparr>"
  have ok: "memberships_ok (it_join_groups t) now ?e"
    using it_entry_inv [OF assms(2,1)] by (auto simp: ie_inv_def memberships_ok_def ms_inv_rebase split: option.splits)
  show ?thesis
  proof (cases "kn_read kn (if_name (ie_interface e)) ix")
    case (Inl err)
    then show ?thesis using settle_bind_inv [OF assms(1,2) ok _ assms(3,4)] by (simp add: it_bind_def)
  next
    case (Inr rd)
    let ?e1 = "if kn_platform kn = Linux then ?e else ?e\<lparr>ie_interface := take_link (ie_interface e) rd\<rparr>"
    obtain r cs where rb: "rebind_captures kn (ie_interface ?e1) k ix (it_captures t) = (r, cs)" by fastforce
    let ?t = "t\<lparr>it_captures := cs\<rparr>"
    have t: "it_inv now ?t" using it_inv_captures [OF assms(1)] rebind_interfaces [of kn "ie_interface ?e1" k ix "it_captures t"] rb by simp
    have e: "it_entry ?t k = Some e" using assms(2) by (simp add: it_entry_def)
    have n: "if_name (ie_interface ?e1) = if_name (ie_interface e)" by (simp add: take_link_def)
    have ok1: "memberships_ok (it_join_groups ?t) now (?e1\<lparr>ie_interface := i\<rparr>)" for i
      using ok by (simp add: memberships_ok_def)
    have ok2: "memberships_ok (it_join_groups ?t) now ?e1" using ok by (simp add: memberships_ok_def)
    show ?thesis
      using settle_bind_inv [OF t e ok2 n assms(3,4)]
        settle_bind_inv [OF t e ok1 [of "snd (interface_adopt (ie_interface ?e1) rd)"] _ assms(3,4)] n rb
      by (auto simp: it_bind_def Inr Let_def adopt_name split: sum.splits)
  qed
qed

lemma it_step_inv:
  assumes "it_step kn t k now = Some (st, t')" "it_inv now t" "kn_honest kn"
  shows "it_inv now t'"
proof -
  obtain e where e: "it_entry t k = Some e" using assms(1) by (auto simp: it_step_def)
  note inv = it_entry_inv [OF e assms(2)]
  have park: "it_inv now (set_entry t k (ie_release Parked e))"
    using ie_release_inv [of _ now e Parked] inv by (intro set_entry_inv [OF assms(2) e]) (auto simp: ie_inv_def)
  have unpark: "it_inv now (set_entry t k (e\<lparr>ie_presence := Parked\<rparr>))" if "ie_presence e = Unbound u" for u
    using inv that by (intro set_entry_inv [OF assms(2) e]) (auto simp: ie_inv_def presence_ok_def memberships_ok_def idle_def)
  have bind: "it_inv now (snd (it_bind kn t k e cur now))" if "kn_index kn (if_name (ie_interface e)) = Inr (Some cur)" for cur
    using it_bind_inv [OF assms(2) e kn_index_nonzero [OF that] assms(3)] .
  show ?thesis
  proof (cases "kn_index kn (if_name (ie_interface e))")
    case (Inr found)
    with assms(1,2) e park unpark bind show ?thesis
      by (cases found) (auto simp: it_step_def split: presence.split_asm if_split_asm dest: sym [of "it_bind kn t k e _ now"])
  qed (use assms e in \<open>auto simp: it_step_def\<close>)
qed

lemma it_take_inv: "it_inv now t \<Longrightarrow> it_inv now (snd (it_take t c))"
  by (auto simp: it_take_def set_capture_entry_inv split: option.splits)

lemma it_restore_inv: "it_inv now t \<Longrightarrow> it_inv now (snd (it_restore t c cap))"
  by (auto simp: it_restore_def set_capture_entry_inv split: option.splits)

lemma it_count_inv: "it_count t c f = Some t' \<Longrightarrow> it_inv now t \<Longrightarrow> it_inv now t'"
  by (auto simp: it_count_def set_capture_entry_inv)

lemma record_sent_inv: "it_inv now t \<Longrightarrow> it_inv now (record_sent t c pkt d)"
  by (auto simp: record_sent_def Let_def set_capture_entry_inv split: option.splits)

section \<open>The life of a table\<close>

inductive it_run :: "instant \<Rightarrow> interface_table \<Rightarrow> bool" where
  start: "it_run now table_new"
| start_unjoined: "it_run now without_group_joins"
| clock: "it_run now t \<Longrightarrow> now \<le> later \<Longrightarrow> it_run later t"
| open_capture: "it_run now t \<Longrightarrow> it_open_capture kn t name = Some (r, t') \<Longrightarrow> it_run now t'"
| join_on: "it_run now t \<Longrightarrow> kn_honest kn \<Longrightarrow> it_join_on kn t k grp w now = Some (j, t') \<Longrightarrow> it_run now t'"
| converge: "it_run now t \<Longrightarrow> kn_honest kn \<Longrightarrow> it_run now (snd (it_converge kn t k now))"
| refresh: "it_run now t \<Longrightarrow> it_refresh kn t k = Some (c, t') \<Longrightarrow> it_run now t'"
| refresh_all: "it_run now t \<Longrightarrow> it_run now (snd (refresh_all kn t))"
| step: "it_run now t \<Longrightarrow> kn_honest kn \<Longrightarrow> it_step kn t k now = Some (st, t') \<Longrightarrow> it_run now t'"
| wake: "it_run now t \<Longrightarrow> it_run now (snd (wake_unbound t ix now))"
| wake_all: "it_run now t \<Longrightarrow> it_run now (wake_all_unbound t now)"
| take: "it_run now t \<Longrightarrow> it_run now (snd (it_take t c))"
| restore: "it_run now t \<Longrightarrow> it_run now (snd (it_restore t c cap))"
| count: "it_run now t \<Longrightarrow> it_count t c f = Some t' \<Longrightarrow> it_run now t'"
| sent: "it_run now t \<Longrightarrow> it_run now (record_sent t c pkt d)"

lemma it_inv_empty: "it_inv now table_new" "it_inv now without_group_joins"
  by (simp_all add: it_inv_def table_new_def without_group_joins_def)

lemma it_run_inv: "it_run now t \<Longrightarrow> it_inv now t"
proof (induction rule: it_run.induct)
  case (wake now t ix)
  then show ?case using wake_inv by (simp add: wake_unbound_def)
next
  case (wake_all now t)
  then show ?case using wake_inv by (simp add: wake_all_unbound_def)
qed (auto simp: it_inv_empty
      intro: it_inv_later open_capture_inv it_join_on_inv it_converge_inv it_refresh_inv refresh_all_inv
        it_step_inv it_take_inv it_restore_inv it_count_inv record_sent_inv)

text \<open>C34. An interface whose name resolves to nothing, or whose bind failed, is out of use: over any life of
  the table, such an interface has no address to source a send from, no MTU, holds no group, and a
  failed bind is due again within thirty seconds. Every capture refers to an interface of the table,
  and each name is listed once.\<close>

theorem unbound_interfaces_idle:
  assumes "it_run now t"
  shows "distinct (map (if_name \<circ> ie_interface) (it_entries t))
    \<and> (\<forall>c \<in> set (it_captures t). unat (ce_interface c) < length (it_entries t))
    \<and> (\<forall>c. egress_addrs t c \<noteq> None \<and> ifindex_of t c = None \<longrightarrow> egress_addrs t c = Some addresses_default \<and> mtu_of t c = None)
    \<and> (\<forall>e m. e \<in> set (it_entries t) \<and> ie_ifindex e = None \<and> ie_memberships e = Some m \<longrightarrow> sk_held (ms_sockets m) = [])
    \<and> (\<forall>due. next_bind_retry t = Some due \<longrightarrow> due \<le> now + RETRY_CEILING)"
proof -
  note inv = it_run_inv [OF assms]
  have idle: "idle e" if "e \<in> set (it_entries t)" "ie_ifindex e = None" for e
    using inv that by (auto simp: it_inv_def ie_inv_def presence_ok_def ie_ifindex_def split: presence.splits)
  have "egress_addrs t c = Some addresses_default \<and> mtu_of t c = None"
    if "egress_addrs t c \<noteq> None" "ifindex_of t c = None" for c
  proof -
    from that obtain k e where k: "interface_of t c = Some k" "it_entry t k = Some e"
      by (auto simp: egress_addrs_def it_addrs_def bind_eq_Some_conv)
    with that(2) have "idle e" by (intro idle) (auto simp: ifindex_of_def interface_index_def it_entry_Some)
    with k show ?thesis by (simp add: egress_addrs_def it_addrs_def mtu_of_def idle_def)
  qed
  moreover have "due \<le> now + RETRY_CEILING" if "next_bind_retry t = Some due" for due
  proof -
    have "due \<in> set (List.map_filter (\<lambda>e. case ie_presence e of Unbound u \<Rightarrow> Some (ub_next_try u) | _ \<Rightarrow> None) (it_entries t))"
      using that min_by_key_in by (fastforce simp: next_bind_retry_def min_instant_def)
    then obtain e u where "e \<in> set (it_entries t)" "ie_presence e = Unbound u" "ub_next_try u = due"
      by (auto simp: List.map_filter_def split: presence.splits)
    with inv show ?thesis by (auto simp: it_inv_def ie_inv_def presence_ok_def)
  qed
  moreover have "sk_held (ms_sockets m) = []" if "e \<in> set (it_entries t)" "ie_ifindex e = None" "ie_memberships e = Some m" for e m
    using idle [OF that(1,2)] that(3) by (simp add: idle_def sockets_default_def)
  ultimately show ?thesis using inv by (auto simp: it_inv_def)
qed

section \<open>Recovery\<close>

text \<open>The interface is back: its name resolves to \<open>ix\<close>, it can be read, captures attach to it and stay
  attached, and its joins are granted.\<close>

definition kn_back :: "kernel \<Rightarrow> interface_name \<Rightarrow> u32 \<Rightarrow> reading \<Rightarrow> bool" where
  "kn_back kn name ix rd \<longleftrightarrow> kn_index kn name = Inr (Some ix) \<and> kn_read kn name ix = Inr rd
     \<and> (\<forall>cap i. \<exists>link. kn_attach kn cap i ix = Inr link) \<and> (\<forall>cap. kn_attached kn cap ix)
     \<and> (\<forall>g. grants (kn_join kn name ix g))"

lemma rebind_all:
  assumes "\<forall>cap i. \<exists>link. kn_attach kn cap i ix = Inr link"
  shows "fst (rebind_captures kn rec k ix cs) = Inr ()"
proof (induction cs)
  case (Cons c cs)
  show ?case
  proof (cases "ce_capture c")
    case (Some cap)
    moreover obtain link where "kn_attach kn cap rec ix = Inr link" using assms by blast
    ultimately show ?thesis using Cons.IH by (simp add: split_beta)
  qed (use Cons.IH in \<open>simp add: split_beta\<close>)
qed simp

definition joinable :: "instant \<Rightarrow> interface_entry \<Rightarrow> bool" where
  "joinable now e = (case ie_memberships e of None \<Rightarrow> True
     | Some m \<Rightarrow> \<forall>b \<in> set (ms_groups m). mb_state b = Joined \<or> due (mb_state b) now)"

definition all_joined :: "interface_entry \<Rightarrow> bool" where
  "all_joined e = (case ie_memberships e of None \<Rightarrow> True | Some m \<Rightarrow> ms_unjoined m = [])"

lemma all_joined_joinable: "all_joined e \<Longrightarrow> joinable now e"
  by (auto simp: all_joined_def joinable_def ms_unjoined_def filter_empty_conv split: option.splits)

lemma joinable_later: "ie_inv j now e \<Longrightarrow> now + RETRY_CEILING \<le> later \<Longrightarrow> joinable later e"
  by (fastforce simp: ie_inv_def memberships_ok_def joinable_def ms_inv_def mb_ok_def due_def split: option.splits membership_state.splits)

lemma it_converge_joins:
  assumes "it_entry t k = Some e" "ie_presence e = Present ix" "joinable now e"
    "\<forall>cap. kn_attached kn cap ix" "\<forall>g. grants (kn_join kn (if_name (ie_interface e)) ix g)"
  obtains e' t' where "it_converge kn t k now = (True, t')" "it_entry t' k = Some e'" "all_joined e'"
    "ie_presence e' = Present ix" "ie_interface e' = ie_interface e"
proof -
  have probe: "it_probe kn t k"
    using assms(1,2,4) by (simp add: it_probe_def interface_index_def ie_ifindex_def list_all_iff split: option.splits)
  have k: "unat k < length (it_entries t)" using assms(1) by (simp add: it_entry_Some)
  show thesis
  proof (cases "ie_memberships e")
    case None
    show thesis
      by (rule that [of "set_entry t k e" e])
         (use assms None probe k in \<open>simp_all add: it_converge_def ie_converge_def it_entry_set all_joined_def\<close>)
  next
    case (Some m)
    let ?ans = "kn_join kn (if_name (ie_interface e)) ix"
    have "\<forall>b \<in> set (ms_groups m). grants (?ans (mb_group b)) \<and> (mb_state b = Joined \<or> due (mb_state b) now)"
      using assms(3,5) Some by (simp add: joinable_def)
    from converge_granted [OF this] obtain s ms
      where c: "converge_groups (kn_platform kn) (ms_sockets m) (ms_groups m) ?ans now = (True, s, ms)"
        and ms: "\<forall>b \<in> set ms. mb_state b = Joined" by metis
    let ?e = "e\<lparr>ie_memberships := Some (m\<lparr>ms_sockets := s, ms_groups := ms\<rparr>)\<rparr>"
    show thesis
      by (rule that [of "set_entry t k ?e" ?e])
         (use assms Some probe k c ms in \<open>simp_all add: it_converge_def ie_converge_def it_entry_set all_joined_def
            ms_converge_def ms_unjoined_def filter_empty_conv\<close>)
  qed
qed

lemma bind_succeeds:
  assumes e: "it_entry t k = Some e" and ix: "kn_back kn (if_name (ie_interface e)) ix rd"
  obtains e' t' where "it_bind kn t k e ix now = (Bound (ie_presence e) ix False, t')" "it_entry t' k = Some e'" "all_joined e'"
    "ie_presence e' = Present ix" "if_name (ie_interface e') = if_name (ie_interface e)" "if_addrs (ie_interface e') = rd_addrs rd"
proof -
  let ?e0 = "e\<lparr>ie_memberships := map_option ms_rebase (ie_memberships e)\<rparr>"
  let ?e1 = "if kn_platform kn = Linux then ?e0 else ?e0\<lparr>ie_interface := take_link (ie_interface e) rd\<rparr>"
  let ?e2 = "?e1\<lparr>ie_interface := snd (interface_adopt (ie_interface ?e1) rd)\<rparr>"
  obtain cs where rb: "rebind_captures kn (ie_interface ?e1) k ix (it_captures t) = (Inr (), cs)"
    using rebind_all [of kn ix "ie_interface ?e1" k "it_captures t"] ix by (metis kn_back_def prod.collapse)
  let ?t = "(set_entry (t\<lparr>it_captures := cs\<rparr>) k (?e2\<lparr>ie_presence := Present ix\<rparr>))\<lparr>it_captures := map (\<lambda>c. if ce_interface c = k
      then c\<lparr>ce_counters := record_recovery (ce_counters c)\<rparr> else c) cs\<rparr>"
  have n: "if_name (ie_interface ?e2) = if_name (ie_interface e)" by (simp add: adopt_name take_link_def)
  have a: "if_addrs (ie_interface ?e2) = rd_addrs rd" by (simp add: interface_adopt_def replace_addrs_def Let_def)
  have k: "unat k < length (it_entries t)" using e by (simp add: it_entry_Some)
  let ?e3 = "?e2\<lparr>ie_presence := Present ix\<rparr>"
  have ent: "it_entry ?t k = Some ?e3"
    using k by (simp add: it_entry_def nth_opt_def set_entry_def)
  have due: "joinable now ?e3"
    by (auto simp: joinable_def ms_rebase_def due_def split: option.splits)
  have up: "\<forall>cap. kn_attached kn cap ix" "\<forall>g. grants (kn_join kn (if_name (ie_interface ?e3)) ix g)"
    using ix n by (simp_all add: kn_back_def)
  obtain e' t' where c: "it_converge kn ?t k now = (True, t')" "it_entry t' k = Some e'" "all_joined e'"
    "ie_presence e' = Present ix" "ie_interface e' = ie_interface ?e3"
    by (rule it_converge_joins [OF ent _ due up]) simp_all
  have "it_bind kn t k e ix now = settle_bind kn (t\<lparr>it_captures := cs\<rparr>) k ?e2 ix (ie_presence e) (Inr ()) now"
    using ix rb by (cases "kn_platform kn = Linux") (simp_all add: it_bind_def kn_back_def Let_def)
  also have "\<dots> = (Bound (ie_presence e) ix False, t')" using c(1) by (simp add: settle_bind_def Let_def)
  finally have bound: "it_bind kn t k e ix now = (Bound (ie_presence e) ix False, t')" .
  have "ie_interface e' = ie_interface ?e2" using c(5) by simp
  then show thesis using n a by (intro that [OF bound c(2,3,4)]) (simp_all only:)
qed

text \<open>An interface that goes away and comes back under another index.\<close>

definition sample_addresses :: interface_addresses where
  "sample_addresses = addresses_default\<lparr>ia_mac := Some (MacAddr 2 0 0 0 0 1), ia_v4 := Some 0xc0a80102, ia_v4_prefix := Some 24\<rparr>"

definition sample_reading :: reading where
  "sample_reading = \<lparr>rd_addrs = sample_addresses, rd_mtu = Some 1500, rd_loopback = False\<rparr>"

definition sample_kernel :: "u32 \<Rightarrow> kernel" where
  "sample_kernel ix = \<lparr>kn_platform = Linux, kn_nametoindex = (\<lambda>_. (ix, ENODEV)), kn_read = (\<lambda>_ _. Inr sample_reading),
     kn_open = (\<lambda>i _. Inr \<lparr>cp_fd = 7, cp_link = Ethernet, cp_name = if_name i\<rparr>), kn_attach = (\<lambda>_ _ _. Inr Ethernet),
     kn_attached = (\<lambda>_ bound. bound = ix), kn_join = (\<lambda>_ _ _. granted_answer)\<rparr>"

definition sample_opened :: interface_table where
  "sample_opened = snd (the (it_open_capture (sample_kernel 2) table_new (bstr ''eth0'')))"

definition sample_parked :: interface_table where
  "sample_parked = snd (the (it_step (sample_kernel 0) sample_opened 0 5))"

lemma sample_honest: "kn_honest (sample_kernel ix)"
  by (simp add: kn_honest_def sample_kernel_def granted_answer_def)

lemma sample_opened_run: "it_run 5 sample_opened"
proof -
  have "it_open_capture (sample_kernel 2) table_new (bstr ''eth0'') = Some (Inr 0, sample_opened)" by code_simp
  then show ?thesis by (rule it_run.open_capture [OF it_run.start])
qed

lemma sample_parked_run: "it_run 5 sample_parked"
proof -
  have "it_step (sample_kernel 0) sample_opened 0 5 = Some (SParked (Some 2), sample_parked)" by code_simp
  then show ?thesis by (rule it_run.step [OF sample_opened_run sample_honest])
qed

lemma unbound_interfaces_idle_witness:
  "ifindex_of sample_parked 0 = None \<and> egress_addrs sample_opened 0 = Some sample_addresses
   \<and> egress_addrs sample_parked 0 = Some addresses_default \<and> mtu_of sample_parked 0 = None"
proof (intro conjI)
  show gone: "ifindex_of sample_parked 0 = None" by code_simp
  show "egress_addrs sample_opened 0 = Some sample_addresses" by code_simp
  have "egress_addrs sample_parked 0 \<noteq> None" by code_simp
  with gone unbound_interfaces_idle [OF sample_parked_run]
  show "egress_addrs sample_parked 0 = Some addresses_default" "mtu_of sample_parked 0 = None" by blast+
qed

end
