(* ===== verification/Egress.thy ===== *)
theory Egress
  imports Interface_Table
begin

text \<open>
  \<^verbatim>\<open>src/src/dispatch/egress.rs\<close>: a UDP datagram assembled for an interface and put out through one reused
  frame buffer, as fragments past the MTU, each distinct datagram once per routed packet. What the
  capture answers to a frame is an argument, a function of every attempt made so far, so it may
  change its mind at any time; the attempts are kept in the state (\<open>eg_wire\<close>), where the source has
  none. The hasher of the digest (\<^verbatim>\<open>std\<close>) is an argument too: nothing is assumed of it except where a
  theorem says so. The wording of errors and the log lines are dropped.
\<close>

section \<open>The egress path\<close>

definition FALLBACK_MTU :: nat where "FALLBACK_MTU = 1280"

record datagram =
  dg_dst :: socket_addr
  dg_source :: datagram_source
  dg_ttl :: u8
  dg_payload :: bytes

record attempt =
  at_egress :: capture_key
  at_frame :: bytes
  at_error :: "io_error option"

record outside =
  os_family :: "bool \<Rightarrow> u32"
  os_hash :: "mac_addr \<times> datagram \<Rightarrow> u64"
  os_send :: "attempt list \<Rightarrow> capture \<Rightarrow> bytes \<Rightarrow> io_error option"

record egress =
  eg_scratch :: bytes
  eg_packet :: u64
  eg_routing :: bool
  eg_next_id :: u32
  eg_wire :: "attempt list"

definition egress_new :: "u32 \<Rightarrow> egress" where
  "egress_new seed = \<lparr>eg_scratch = replicate MAX_FRAME_LEN 0, eg_packet = 0, eg_routing = False, eg_next_id = seed, eg_wire = []\<rparr>"

definition begin_packet :: "egress \<Rightarrow> egress" where
  "begin_packet g = g\<lparr>eg_packet := eg_packet g + 1, eg_routing := True\<rparr>"

definition end_packet :: "egress \<Rightarrow> egress" where
  "end_packet g = g\<lparr>eg_routing := False\<rparr>"

definition frame_mtu :: "u32 option \<Rightarrow> nat" where
  "frame_mtu mtu = min (case mtu of None \<Rightarrow> FALLBACK_MTU | Some mtu \<Rightarrow> unat mtu) MAX_MTU"

definition oversize_context :: "io_error \<Rightarrow> interface_name \<Rightarrow> nat \<Rightarrow> u32 option \<Rightarrow> io_error" where
  "oversize_context e name len mtu = (if e = Os EMSGSIZE then OversizedFrame len name mtu else e)"

definition send_frame :: "outside \<Rightarrow> interface_table \<Rightarrow> capture_key \<Rightarrow> bytes \<Rightarrow> egress \<Rightarrow> (io_error, unit) result \<times> egress" where
  "send_frame os t egress frame g =
     (case it_capture t egress of
        Some cap \<Rightarrow>
          (let r = os_send os (eg_wire g) cap frame;
               g = g\<lparr>eg_wire := eg_wire g @ [\<lparr>at_egress = egress, at_frame = frame, at_error = r\<rparr>]\<rparr>
           in (case r of None \<Rightarrow> Inr () | Some e \<Rightarrow> Inl (oversize_context e (cp_name cap) (length frame) (mtu_of t egress)), g))
      | None \<Rightarrow> (Inr (), g))"

definition already_sent :: "egress \<Rightarrow> interface_table \<Rightarrow> capture_key \<Rightarrow> u64 \<Rightarrow> bool" where
  "already_sent g t egress digest \<longleftrightarrow> eg_routing g \<and> was_sent t egress (eg_packet g) digest"

fun datagram_fault :: "datagram_error fault \<Rightarrow> io_error fault" where
  "datagram_fault Panic = Panic"
| "datagram_fault (Err e) = Err (OtherDatagram e)"

definition plan ::
  "interface_table \<Rightarrow> capture_key \<Rightarrow> mac_addr \<Rightarrow> datagram \<Rightarrow> egress \<Rightarrow> (io_error fault, udp_frames option) result \<times> egress" where
  "plan t egress dst_mac d g =
     (case (egress_addrs t egress, map_option cp_link (it_capture t egress)) of
        (Some addrs, Some link) \<Rightarrow>
          if ifindex_of t egress = None then (Inl (Err NotConnected), g)
          else
            (case build_udp addrs link (dg_dst d) dst_mac (dg_source d) (dg_ttl d) (eg_next_id g) (dg_payload d)
                   (frame_mtu (mtu_of t egress)) of
               Inl e \<Rightarrow> Inl (datagram_fault e)
             | Inr u \<Rightarrow> Inr (Some u), g\<lparr>eg_next_id := eg_next_id g + 1\<rparr>)
      | _ \<Rightarrow> (Inr None, g))"

fun transmit_frames ::
  "outside \<Rightarrow> interface_table \<Rightarrow> capture_key \<Rightarrow> udp_frames \<Rightarrow> nat list \<Rightarrow> egress \<Rightarrow> (io_error fault, unit) result \<times> egress" where
  "transmit_frames os t egress u [] g = (Inr (), g)"
| "transmit_frames os t egress u (i # is) g =
     (case frames_write (os_family os) u i (eg_scratch g) of
        Inl e \<Rightarrow> (Inl (datagram_fault (frame_fault e)), g)
      | Inr (len, out) \<Rightarrow>
          (case send_frame os t egress (take len out) (g\<lparr>eg_scratch := out\<rparr>) of
             (Inl e, g) \<Rightarrow> (Inl (Err e), g)
           | (Inr _, g) \<Rightarrow> transmit_frames os t egress u is g))"

definition transmit ::
  "outside \<Rightarrow> capture_key \<Rightarrow> udp_frames \<Rightarrow> u64 \<Rightarrow> egress \<times> interface_table
   \<Rightarrow> (io_error fault, unit) result \<times> egress \<times> interface_table" where
  "transmit os egress u digest = (\<lambda>(g, t).
     case transmit_frames os t egress u [0..<frames_count u] g of
       (Inl e, g) \<Rightarrow> (Inl e, g, t)
     | (Inr _, g) \<Rightarrow> (Inr (), g, if eg_routing g then record_sent t egress (eg_packet g) digest else t))"

definition eg_send_udp ::
  "outside \<Rightarrow> capture_key \<Rightarrow> mac_addr \<Rightarrow> datagram \<Rightarrow> egress \<times> interface_table
   \<Rightarrow> (io_error fault, unit) result \<times> egress \<times> interface_table" where
  "eg_send_udp os egress dst_mac d = (\<lambda>(g, t).
     let digest = os_hash os (dst_mac, d) in
     if already_sent g t egress digest then (Inr (), g, t)
     else case plan t egress dst_mac d g of
         (Inl e, g) \<Rightarrow> (Inl e, g, t)
       | (Inr None, g) \<Rightarrow> (Inr (), g, t)
       | (Inr (Some u), g) \<Rightarrow> transmit os egress u digest (g, t))"

definition eg_send_udp_group ::
  "outside \<Rightarrow> capture_key \<Rightarrow> datagram \<Rightarrow> egress \<times> interface_table \<Rightarrow> (io_error fault, unit) result \<times> egress \<times> interface_table" where
  "eg_send_udp_group os egress d = (\<lambda>(g, t).
     case ethernet_dst (fst (dg_dst d)) (Option.bind (egress_addrs t egress) v4_directed_broadcast) of
       Inl e \<Rightarrow> (Inl (Err (OtherDatagram e)), g, t)
     | Inr dst_mac \<Rightarrow> eg_send_udp os egress dst_mac d (g, t))"

text \<open>The loop over the peers: \<open>delivered\<close> and the last failure so far are carried along; \<open>Inl\<close> leaves the
  loop with the result of the call.\<close>

fun send_to_each ::
  "outside \<Rightarrow> capture_key \<Rightarrow> ipaddr list \<Rightarrow> datagram \<Rightarrow> bool \<Rightarrow> io_error fault option \<Rightarrow> egress \<times> interface_table
   \<Rightarrow> (io_error fault, unit) result \<times> egress \<times> interface_table" where
  "send_to_each os egress [] d delivered failure (g, t) =
     (case failure of
        Some e \<Rightarrow> if \<not> delivered then Inl e else Inr ()
      | None \<Rightarrow> Inr (), g, t)"
| "send_to_each os egress (peer # peers) d delivered failure (g, t) =
     (let copy = d\<lparr>dg_dst := (peer, snd (dg_dst d))\<rparr>; digest = os_hash os (mac_broadcast, copy) in
      if already_sent g t egress digest then send_to_each os egress peers d True failure (g, t)
      else case plan t egress mac_broadcast copy g of
          (Inl e, g) \<Rightarrow> (Inl e, g, t)
        | (Inr None, g) \<Rightarrow> (Inr (), g, t)
        | (Inr (Some u), g) \<Rightarrow>
            (case transmit os egress u digest (g, t) of
               (Inr _, g, t) \<Rightarrow> send_to_each os egress peers d True failure (g, t)
             | (Inl Panic, g, t) \<Rightarrow> (Inl Panic, g, t)
             | (Inl e, g, t) \<Rightarrow> send_to_each os egress peers d delivered (Some e) (g, t)))"

definition eg_send_udp_to_peers ::
  "outside \<Rightarrow> capture_key \<Rightarrow> ipaddr list \<Rightarrow> datagram \<Rightarrow> egress \<times> interface_table
   \<Rightarrow> (io_error fault, unit) result \<times> egress \<times> interface_table" where
  "eg_send_udp_to_peers os egress peers d =
     send_to_each os egress (filter (\<lambda>p. is_ipv4 p = is_ipv4 (fst (dg_dst d))) peers) d False None"

section \<open>What a send leaves alone\<close>

text \<open>Recording a datagram as sent changes nothing the sends read, but what was sent.\<close>

lemma record_sent_entry:
  "it_capture_entry (record_sent t c p d) c' =
     map_option (\<lambda>e. if c' = c then e\<lparr>ce_sent_packet := p, ce_sent := (if ce_sent_packet e = p then ce_sent e else []) @ [d]\<rparr> else e)
       (it_capture_entry t c')"
proof (cases "it_capture_entry t c")
  case None
  then show ?thesis by (cases "c' = c") (simp_all add: record_sent_def option.map_ident)
next
  case (Some e)
  then have "unat c < length (it_captures t)" "it_captures t ! unat c = e" by (simp_all add: it_capture_entry_Some)
  then show ?thesis
    by (auto simp: record_sent_def Some Let_def set_capture_entry_def it_capture_entry_def nth_opt_def nth_list_update word_unat_eq_iff)
qed

lemma record_sent_entries [simp]: "it_entries (record_sent t c p d) = it_entries t"
  by (auto simp: record_sent_def Let_def split: option.splits)

lemma record_sent_reads [simp]:
  "it_capture (record_sent t c p d) c' = it_capture t c'" "interface_of (record_sent t c p d) c' = interface_of t c'"
  "it_entry (record_sent t c p d) k = it_entry t k"
  by (cases "it_capture_entry t c'"; simp add: it_capture_def interface_of_def record_sent_entry it_entry_def)+

lemma record_sent_reads' [simp]:
  "egress_addrs (record_sent t c p d) c' = egress_addrs t c'" "ifindex_of (record_sent t c p d) c' = ifindex_of t c'"
  "mtu_of (record_sent t c p d) c' = mtu_of t c'"
  by (simp_all add: egress_addrs_def ifindex_of_def mtu_of_def it_addrs_def interface_index_def cong: Option.bind_cong)

lemma was_sent_record:
  "was_sent (record_sent t c p d) c' p d' \<longleftrightarrow> c' = c \<and> d' = d \<and> it_capture_entry t c \<noteq> None \<or> was_sent t c' p d'"
  by (cases "it_capture_entry t c'") (auto simp: was_sent_def record_sent_entry)

text \<open>The state of the path a send keeps: the packet number, whether it is routed, the buffer's size.\<close>

definition same_packet :: "egress \<Rightarrow> egress \<Rightarrow> bool" where
  "same_packet g g' \<longleftrightarrow> eg_packet g' = eg_packet g \<and> eg_routing g' = eg_routing g \<and> length (eg_scratch g') = length (eg_scratch g)"

lemma same_packet_refl [simp]: "same_packet g g"
  by (simp add: same_packet_def)

lemma same_packet_trans: "same_packet g g' \<Longrightarrow> same_packet g' g'' \<Longrightarrow> same_packet g g''"
  by (simp add: same_packet_def)

lemma send_frame_same: "send_frame os t c f g = (r, g') \<Longrightarrow> same_packet g g'"
  by (auto simp: send_frame_def same_packet_def Let_def split: option.splits)

lemma frames_write_room:
  assumes "frames_inv u" "i < frames_count u" "frame_length u i \<le> length out"
  obtains out' where "frames_write af u i out = Inr (frame_length u i, out')" "length out' = length out"
  using frames_write_total [OF assms(1,2), of "header_size (uf_ip u) (uf_fragmented u) + uf_chunk u" out af] assms(3)
  by (auto split: sum.splits)

lemma transmit_frames_facts:
  assumes "frames_inv u" "\<forall>i \<in> set is. i < frames_count u \<and> frame_length u i \<le> length (eg_scratch g)"
    "transmit_frames os t c u is g = (r, g')"
  shows "same_packet g g' \<and> r \<noteq> Inl Panic"
  using assms(2,3)
proof (induction "is" arbitrary: g)
  case (Cons i "is")
  obtain out where w: "frames_write (os_family os) u i (eg_scratch g) = Inr (frame_length u i, out)"
    and len: "length out = length (eg_scratch g)"
    using frames_write_room [OF assms(1)] Cons.prems(1) by (metis list.set_intros(1))
  obtain r1 g1 where s: "send_frame os t c (take (frame_length u i) out) (g\<lparr>eg_scratch := out\<rparr>) = (r1, g1)" by fastforce
  have same: "same_packet g g1" using send_frame_same [OF s] len by (simp add: same_packet_def)
  show ?case
  proof (cases r1)
    case (Inl e)
    then show ?thesis using Cons.prems(2) w s same by auto
  next
    case (Inr x)
    then have "transmit_frames os t c u is g1 = (r, g')" using Cons.prems(2) w s by simp
    with Cons.IH [of g1] Cons.prems(1) same show ?thesis by (auto simp: same_packet_def)
  qed
qed auto

text \<open>The plan: the frames of the datagram, in the buffer's reach.\<close>

lemma build_udp_no_panic: "build_udp addrs link dst mac source ttl ident payload mtu \<noteq> Inl Panic"
proof -
  have v4: "frames_ipv4 lh src d ttl ident payload mtu \<noteq> Inl Panic" for lh src d ident
    using frames_ipv4_eq [of payload src d lh ttl ident mtu] frames_new_error
    by (cases "28 + length payload \<le> 65535") (fastforce simp: frames_ipv4_def udp_header_too_large net_sizes)+
  have v6: "frames_ipv6 lh src d ttl ident payload mtu \<noteq> Inl Panic" for lh src d ident
    using frames_ipv6_eq [of payload src d lh ttl ident mtu] frames_new_error
    by (cases "8 + length payload \<le> 65535") (fastforce simp: frames_ipv6_def udp_header_too_large net_sizes)+
  have lift: "lift_frame r \<noteq> Inl Panic" if "r \<noteq> Inl Panic" for r :: "(frame_error fault, udp_frames) result"
  proof (cases r)
    case (Inl e)
    with that show ?thesis by (cases e) (simp_all add: lift_frame_def)
  qed (simp add: lift_frame_def)
  show ?thesis
    by (auto simp: build_udp_def result_bind_def lift_err_def v4 v6 lift split: prod.splits ipaddr.splits sum.splits)
qed

lemma plan_facts:
  assumes "plan t c mac d g = (r, g')"
  shows "same_packet g g' \<and> eg_wire g' = eg_wire g \<and> eg_scratch g' = eg_scratch g \<and> r \<noteq> Inl Panic
    \<and> (\<forall>u. r = Inr (Some u) \<longrightarrow> (\<exists>addrs cap. egress_addrs t c = Some addrs \<and> it_capture t c = Some cap
         \<and> build_udp addrs (cp_link cap) (dg_dst d) mac (dg_source d) (dg_ttl d) (eg_next_id g) (dg_payload d)
             (frame_mtu (mtu_of t c)) = Inr u))"
proof (cases "\<exists>addrs cap. egress_addrs t c = Some addrs \<and> it_capture t c = Some cap \<and> ifindex_of t c \<noteq> None")
  case True
  then obtain addrs cap where a: "egress_addrs t c = Some addrs" "it_capture t c = Some cap" "ifindex_of t c \<noteq> None" by blast
  let ?b = "build_udp addrs (cp_link cap) (dg_dst d) mac (dg_source d) (dg_ttl d) (eg_next_id g) (dg_payload d) (frame_mtu (mtu_of t c))"
  have "datagram_fault e \<noteq> Panic" if "?b = Inl e" for e
    using that build_udp_no_panic by (cases e) auto
  with a assms show ?thesis by (auto simp: plan_def same_packet_def split: sum.splits)
next
  case False
  with assms show ?thesis by (auto simp: plan_def split: option.splits)
qed

lemma frames_fit:
  assumes "build_udp addrs link dst mac source ttl ident payload (frame_mtu mtu) = Inr u" "length buf = MAX_FRAME_LEN"
  shows "frames_inv u \<and> frame_length u i \<le> length buf"
proof -
  from assms(1) obtain lh where "link_header_for addrs link mac = Inr lh" "frames_inv u" "frame_length u i \<le> link_size lh + frame_mtu mtu"
    by (rule build_udp_Inr) blast
  moreover have "frame_mtu mtu \<le> MAX_MTU" by (simp add: frame_mtu_def)
  ultimately show ?thesis using link_header_size assms(2) by (fastforce simp: MAX_MTU_def MAX_FRAME_LEN_def)
qed

text \<open>A table with the datagrams of a log recorded as sent for packet \<open>p\<close>.\<close>

definition recorded :: "u64 \<Rightarrow> (capture_key \<times> u64) list \<Rightarrow> interface_table \<Rightarrow> interface_table" where
  "recorded p log t = fold (\<lambda>(c, d) t. record_sent t c p d) log t"

lemma recorded_Nil [simp]: "recorded p [] t = t"
  by (simp add: recorded_def)

lemma recorded_snoc: "recorded p (log @ [(c, d)]) t = record_sent (recorded p log t) c p d"
  by (simp add: recorded_def)

lemma recorded_append: "recorded p (log @ log') t = recorded p log' (recorded p log t)"
  by (simp add: recorded_def)

lemma recorded_reads_all:
  "it_capture (recorded p log t) c = it_capture t c \<and> egress_addrs (recorded p log t) c = egress_addrs t c
   \<and> ifindex_of (recorded p log t) c = ifindex_of t c \<and> mtu_of (recorded p log t) c = mtu_of t c
   \<and> interface_of (recorded p log t) c = interface_of t c \<and> it_entries (recorded p log t) = it_entries t"
  by (induction log rule: rev_induct) (auto simp: recorded_snoc)

lemma recorded_reads [simp]:
  "it_capture (recorded p log t) c = it_capture t c" "egress_addrs (recorded p log t) c = egress_addrs t c"
  "ifindex_of (recorded p log t) c = ifindex_of t c" "mtu_of (recorded p log t) c = mtu_of t c"
  "interface_of (recorded p log t) c = interface_of t c" "it_entries (recorded p log t) = it_entries t"
  by (simp_all add: recorded_reads_all)

lemma recorded_entry: "it_capture_entry (recorded p log t) c = None \<longleftrightarrow> it_capture_entry t c = None"
  by (induction log rule: rev_induct) (auto simp: recorded_snoc record_sent_entry)

lemma was_sent_recorded:
  "was_sent (recorded p log t) c p d \<longleftrightarrow> was_sent t c p d \<or> (c, d) \<in> set log \<and> it_capture_entry t c \<noteq> None"
proof (induction log rule: rev_induct)
  case (snoc x log)
  then show ?case by (cases x) (auto simp: recorded_snoc was_sent_record recorded_entry)
qed simp

lemma recorded_inv: "it_inv now t \<Longrightarrow> it_inv now (recorded p log t)"
  by (induction log rule: rev_induct) (auto simp: recorded_snoc record_sent_inv)

text \<open>What every send does to the path: it never panics, stays within its packet, and records.\<close>

definition path_ok :: "egress \<Rightarrow> bool" where
  "path_ok g \<longleftrightarrow> length (eg_scratch g) = MAX_FRAME_LEN"

definition sends :: "egress \<times> interface_table \<Rightarrow> egress \<times> interface_table \<Rightarrow> bool" where
  "sends s s' \<longleftrightarrow> same_packet (fst s) (fst s') \<and> (\<exists>log. snd s' = recorded (eg_packet (fst s)) log (snd s))"

lemma sends_refl [simp]: "sends s s"
  by (auto simp: sends_def intro: exI [of _ "[]"])

lemma sends_trans: "sends s s' \<Longrightarrow> sends s' s'' \<Longrightarrow> sends s s''"
proof -
  assume a: "sends s s'" "sends s' s''"
  then obtain log log' where "snd s' = recorded (eg_packet (fst s)) log (snd s)"
    "snd s'' = recorded (eg_packet (fst s')) log' (snd s')" by (auto simp: sends_def)
  with a have "snd s'' = recorded (eg_packet (fst s)) (log @ log') (snd s)" by (simp add: sends_def same_packet_def recorded_append)
  with a show ?thesis unfolding sends_def using same_packet_trans by blast
qed

lemma sends_path_ok: "sends s s' \<Longrightarrow> path_ok (fst s) \<Longrightarrow> path_ok (fst s')"
  by (simp add: sends_def same_packet_def path_ok_def)

lemma transmit_facts:
  assumes "\<And>i. frames_inv u \<and> frame_length u i \<le> length (eg_scratch g)" "transmit os c u dig (g, t) = (r, s')"
  shows "sends (g, t) s' \<and> r \<noteq> Inl Panic
    \<and> (r = Inr () \<and> eg_routing g \<and> it_capture_entry t c \<noteq> None \<longrightarrow> was_sent (snd s') c (eg_packet g) dig)"
proof -
  obtain r1 g1 where tf: "transmit_frames os t c u [0..<frames_count u] g = (r1, g1)" by fastforce
  have f: "same_packet g g1" "r1 \<noteq> Inl Panic"
    using transmit_frames_facts [OF _ _ tf] assms(1) by auto
  show ?thesis
  proof (cases r1)
    case (Inl e)
    then have "s' = (g1, t)" "r = Inl e" using assms(2) tf by (simp_all add: transmit_def)
    with f Inl show ?thesis by (auto simp: sends_def intro: exI [of _ "[]"])
  next
    case (Inr x)
    then have s: "r = Inr ()" "s' = (g1, if eg_routing g then record_sent t c (eg_packet g) dig else t)"
      using assms(2) tf f(1) by (auto simp: transmit_def same_packet_def)
    then have "snd s' = recorded (eg_packet g) (if eg_routing g then [(c, dig)] else []) t"
      by (simp add: recorded_def)
    then have "sends (g, t) s'" using f(1) s unfolding sends_def by (metis fst_conv snd_conv)
    with s show ?thesis by (auto simp: was_sent_record)
  qed
qed

lemma planned_transmit:
  assumes "path_ok g" "plan t c mac d g = (Inr (Some u), g1)" "transmit os c u dig (g1, t) = (r, s')"
  shows "sends (g, t) s' \<and> r \<noteq> Inl Panic \<and> (r = Inr () \<and> eg_routing g \<longrightarrow> was_sent (snd s') c (eg_packet g) dig)"
proof -
  note p = plan_facts [OF assms(2)]
  then obtain addrs cap where b: "it_capture t c = Some cap" "build_udp addrs (cp_link cap) (dg_dst d) mac (dg_source d) (dg_ttl d)
      (eg_next_id g) (dg_payload d) (frame_mtu (mtu_of t c)) = Inr u" by auto
  have "frames_inv u \<and> frame_length u i \<le> length (eg_scratch g1)" for i
    using frames_fit [OF b(2), of "eg_scratch g1" i] p assms(1) by (simp add: path_ok_def)
  note tr = transmit_facts [OF this assms(3)]
  have "it_capture_entry t c \<noteq> None" using b(1) by (auto simp: it_capture_def bind_eq_Some_conv)
  moreover have "eg_packet g1 = eg_packet g" "eg_routing g1 = eg_routing g" "sends (g, t) (g1, t)"
    using p by (auto simp: same_packet_def sends_def intro: exI [of _ "[]"])
  ultimately show ?thesis using tr sends_trans by metis
qed

lemma send_udp_facts:
  assumes "eg_send_udp os c mac d (g, t) = (r, s')" "path_ok g"
  shows "sends (g, t) s' \<and> r \<noteq> Inl Panic
    \<and> (r = Inr () \<and> eg_routing g \<and> it_capture t c \<noteq> None \<and> egress_addrs t c \<noteq> None
        \<longrightarrow> was_sent (snd s') c (eg_packet g) (os_hash os (mac, d)))"
proof (cases "already_sent g t c (os_hash os (mac, d))")
  case True
  then show ?thesis using assms by (auto simp: eg_send_udp_def already_sent_def)
next
  case False
  obtain r1 g1 where p: "plan t c mac d g = (r1, g1)" by fastforce
  note pf = plan_facts [OF p]
  have keeps: "sends (g, t) (g1, t)" using pf by (auto simp: sends_def intro: exI [of _ "[]"])
  consider e where "r1 = Inl e" | "r1 = Inr None" | u where "r1 = Inr (Some u)" by (metis option.exhaust sum.exhaust)
  then show ?thesis
  proof cases
    case 3
    with planned_transmit [OF assms(2)] p assms(1) False show ?thesis by (simp add: eg_send_udp_def)
  next
    case 2
    then have "it_capture t c = None \<or> egress_addrs t c = None"
      using p by (auto simp: plan_def split: option.splits if_splits sum.splits)
    with 2 p assms(1) False keeps show ?thesis by (auto simp: eg_send_udp_def)
  qed (use p assms(1) False keeps pf in \<open>auto simp: eg_send_udp_def\<close>)
qed

lemma send_udp_group_facts:
  assumes "eg_send_udp_group os c d (g, t) = (r, s')" "path_ok g"
  shows "sends (g, t) s' \<and> r \<noteq> Inl Panic"
proof (cases "ethernet_dst (fst (dg_dst d)) (Option.bind (egress_addrs t c) v4_directed_broadcast)")
  case (Inr mac)
  with assms send_udp_facts [of os c mac d g t r s'] show ?thesis by (simp add: eg_send_udp_group_def)
qed (use assms in \<open>auto simp: eg_send_udp_group_def\<close>)

lemma send_to_each_facts:
  assumes "send_to_each os c peers d delivered failure (g, t) = (r, s')" "path_ok g" "failure \<noteq> Some Panic"
  shows "sends (g, t) s' \<and> r \<noteq> Inl Panic"
  using assms
proof (induction peers arbitrary: delivered failure g t)
  case Nil
  then show ?case by (auto split: option.splits if_splits)
next
  case (Cons peer peers)
  let ?copy = "d\<lparr>dg_dst := (peer, snd (dg_dst d))\<rparr>" let ?dig = "os_hash os (mac_broadcast, ?copy)"
  show ?case
  proof (cases "already_sent g t c ?dig")
    case True
    then show ?thesis using Cons.prems by (intro Cons.IH) (simp_all add: Let_def)
  next
    case False
    obtain r1 g1 where p: "plan t c mac_broadcast ?copy g = (r1, g1)" by fastforce
    note pf = plan_facts [OF p]
    have keeps: "sends (g, t) (g1, t)" using pf by (auto simp: sends_def intro: exI [of _ "[]"])
    show ?thesis
    proof (cases "\<exists>u. r1 = Inr (Some u)")
      case True
      then obtain u where u: "r1 = Inr (Some u)" by blast
      obtain r2 g2 t2 where tr: "transmit os c u ?dig (g1, t) = (r2, g2, t2)" by (metis prod_cases3)
      note tf = planned_transmit [OF Cons.prems(2) p [unfolded u] tr]
      then have ok: "path_ok g2" using sends_path_ok Cons.prems(2) by fastforce
      obtain delivered' failure' where rest: "send_to_each os c peers d delivered' failure' (g2, t2) = (r, s')" "failure' \<noteq> Some Panic"
        using Cons.prems(1,3) False p u tr tf
        by (cases r2) (auto simp: Let_def split: fault.splits)
      from Cons.IH [OF rest(1) ok rest(2)] tf sends_trans show ?thesis by blast
    next
      case False2: False
      then have "r1 = Inr None \<or> (\<exists>e. r1 = Inl e)" by (metis option.exhaust sum.exhaust)
      with Cons.prems(1) False p keeps pf show ?thesis by (auto simp: Let_def)
    qed
  qed
qed

text \<open>Any number of sends of one packet, by any of its handlers.\<close>

inductive egress_run :: "outside \<Rightarrow> egress \<times> interface_table \<Rightarrow> egress \<times> interface_table \<Rightarrow> bool" for os where
  stop: "egress_run os s s"
| udp: "egress_run os s s' \<Longrightarrow> eg_send_udp os c mac d s' = (r, s'') \<Longrightarrow> egress_run os s s''"
| udp_group: "egress_run os s s' \<Longrightarrow> eg_send_udp_group os c d s' = (r, s'') \<Longrightarrow> egress_run os s s''"
| udp_peers: "egress_run os s s' \<Longrightarrow> eg_send_udp_to_peers os c peers d s' = (r, s'') \<Longrightarrow> egress_run os s s''"

lemma egress_run_sends: "egress_run os s s' \<Longrightarrow> path_ok (fst s) \<Longrightarrow> sends s s'"
proof (induction rule: egress_run.induct)
  case (udp s s' c mac d r s'')
  then show ?case using send_udp_facts [of os c mac d "fst s'" "snd s'" r s''] sends_trans sends_path_ok by auto
next
  case (udp_group s s' c d r s'')
  then show ?case using send_udp_group_facts [of os c d "fst s'" "snd s'" r s''] sends_trans sends_path_ok by auto
next
  case (udp_peers s s' c peers d r s'')
  then show ?case
    using send_to_each_facts [of os c _ d False None "fst s'" "snd s'" r s''] sends_trans sends_path_ok
    by (auto simp: eg_send_udp_to_peers_def)
qed simp

section \<open>Once per packet\<close>

text \<open>C36. A datagram goes out once per routed packet. Once a send on an egress in use succeeded, then after
  any further sends for the same packet, group sends and copies to peers included, the same datagram
  sent to the same link address on that egress again is accepted and puts nothing on the wire.\<close>

theorem datagrams_sent_once:
  assumes "eg_routing g" "path_ok g" "it_capture t c \<noteq> None" "egress_addrs t c \<noteq> None"
    and "eg_send_udp os c mac d (g, t) = (Inr (), s1)" and "egress_run os s1 s2"
  shows "eg_send_udp os c mac d s2 = (Inr (), s2)"
proof -
  note f = send_udp_facts [OF assms(5,2)]
  have "path_ok (fst s1)" using sends_path_ok f assms(2) by fastforce
  then have run: "sends s1 s2" using egress_run_sends [OF assms(6)] by blast
  have "was_sent (snd s1) c (eg_packet g) (os_hash os (mac, d))" using f assms by blast
  moreover have p: "eg_packet (fst s1) = eg_packet g" "eg_routing (fst s1)" "eg_packet (fst s2) = eg_packet g" "eg_routing (fst s2)"
    using f run assms(1) by (auto simp: sends_def same_packet_def)
  ultimately have "was_sent (snd s2) c (eg_packet (fst s2)) (os_hash os (mac, d))"
    using run by (auto simp: sends_def was_sent_recorded)
  with p show ?thesis by (cases s2) (simp add: eg_send_udp_def already_sent_def)
qed

text \<open>The number of a packet is new when its routing begins, so nothing is withheld from it.\<close>

definition sent_before :: "egress \<Rightarrow> interface_table \<Rightarrow> bool" where
  "sent_before g t \<longleftrightarrow> (\<forall>c e. it_capture_entry t c = Some e \<longrightarrow> unat (ce_sent_packet e) \<le> unat (eg_packet g))"

lemma begin_packet_fresh:
  assumes "sent_before g t" "eg_packet g \<noteq> - 1"
  shows "\<not> already_sent (begin_packet g) t c dig"
proof -
  have "unat (eg_packet g + 1) = unat (eg_packet g) + 1"
    using assms(2) by (metis add.commute add.right_neutral add_cancel_right_left add_diff_cancel_right' diff_0 unatSuc Suc_eq_plus1)
  with assms(1) show ?thesis
    by (fastforce simp: sent_before_def already_sent_def begin_packet_def was_sent_def split: option.splits)
qed

lemma sends_sent_before: "sends (g, t) (g', t') \<Longrightarrow> sent_before g t \<Longrightarrow> sent_before g' t'"
proof -
  assume s: "sends (g, t) (g', t')" and b: "sent_before g t"
  then obtain log where t': "t' = recorded (eg_packet g) log t" and g: "eg_packet g' = eg_packet g"
    by (auto simp: sends_def same_packet_def)
  have "sent_before g (recorded (eg_packet g) log t)"
    using b by (induction log rule: rev_induct) (auto simp: recorded_snoc sent_before_def record_sent_entry split: if_splits)
  with t' g show ?thesis by (simp add: sent_before_def)
qed

section \<open>What a peer reads\<close>

lemma transmit_single:
  assumes "frames_inv u" "\<not> uf_fragmented u" "frame_length u 0 \<le> length (eg_scratch g)" "it_capture t c = Some cap"
    "\<And>wire f. os_send os wire cap f = None"
  obtains out g' where "frames_write (os_family os) u 0 (eg_scratch g) = Inr (frame_length u 0, out)"
    "transmit os c u dig (g, t) = (Inr (), g', if eg_routing g then record_sent t c (eg_packet g) dig else t)"
    "eg_wire g' = eg_wire g @ [\<lparr>at_egress = c, at_frame = take (frame_length u 0) out, at_error = None\<rparr>]"
proof -
  have one: "frames_count u = 1"
    using assms(1,2) by (auto simp: frames_inv_def frames_count_def div_ceil_def datagram_len_def UDP_HEADER_SIZE_def)
  obtain out where w: "frames_write (os_family os) u 0 (eg_scratch g) = Inr (frame_length u 0, out)"
    using frames_write_room [OF assms(1) _ assms(3)] one by auto
  show thesis
    by (rule that [OF w, of "g\<lparr>eg_scratch := out,
          eg_wire := eg_wire g @ [\<lparr>at_egress = c, at_frame = take (frame_length u 0) out, at_error = None\<rparr>]\<rparr>"])
       (use assms(4,5) one w in \<open>simp_all add: transmit_def send_frame_def\<close>)
qed

lemma whole_v4_builds:
  assumes "48 + length payload \<le> mtu" "mtu \<le> 9060"
  shows "\<exists>u. frames_ipv4 link src dst ttl ident payload mtu = Inr u"
  using frames_ipv4_builds [of payload mtu] assms by simp

lemma whole_v6_builds:
  assumes "48 + length payload \<le> mtu" "mtu \<le> 9060"
  shows "\<exists>u. frames_ipv6 link src dst hop ident payload mtu = Inr u"
proof -
  obtain c where "frames_ipv6 link src dst hop ident payload mtu
      = frames_new link (HeaderV6 (fst src) (fst dst) hop ident) (udp_bytes (snd src) (snd dst) payload c) payload mtu"
    using frames_ipv6_eq [of payload src dst link hop ident mtu] assms by auto
  moreover have "header_size (HeaderV6 (fst src) (fst dst) hop ident) False + (8 + length payload) \<le> mtu"
    using assms(1) by (simp add: net_sizes)
  ultimately show ?thesis using frames_new_error by (metis not_le sum.exhaust)
qed

lemma whole_send:
  assumes egress: "it_capture t c = Some cap" "cp_link cap = Ethernet" "egress_addrs t c = Some addrs" "ifindex_of t c \<noteq> None"
    "ia_mac addrs = Some mac" and src: "source_addr addrs (fst (dg_dst d)) (dg_source d) = Some src"
    and fits: "48 + length (dg_payload d) \<le> frame_mtu (mtu_of t c)" and path: "path_ok g"
    and fresh: "\<not> already_sent g t c (os_hash os (dst_mac, d))" and accepts: "\<And>wire f. os_send os wire cap f = None"
  shows "\<exists>g' t' frame. eg_send_udp os c dst_mac d (g, t) = (Inr (), g', t')
    \<and> eg_wire g' = eg_wire g @ [\<lparr>at_egress = c, at_frame = frame, at_error = None\<rparr>]
    \<and> parse_frame Ethernet (frame @ pad) = Inr (Datagram \<lparr>p_source = src, p_dest = dg_dst d, p_ttl = dg_ttl d,
         p_dst_mac = Some dst_mac, p_src_mac = Some mac, p_payload = dg_payload d\<rparr>)"
proof -
  let ?b = "build_udp addrs Ethernet (dg_dst d) dst_mac (dg_source d) (dg_ttl d) (eg_next_id g) (dg_payload d) (frame_mtu (mtu_of t c))"
  have lh: "link_header_for addrs Ethernet dst_mac = Inr (LhEthernet dst_mac mac)" using egress(5) by (simp add: link_header_for_def ok_or_def)
  have mtu: "frame_mtu (mtu_of t c) \<le> 9060" by (simp add: frame_mtu_def MAX_MTU_def MAX_FRAME_LEN_def net_sizes)
  have "\<exists>u. ?b = Inr u"
  proof (cases "dg_dst d")
    case (Pair ip port)
    show ?thesis
    proof (cases ip)
      case (V4 a)
      with src Pair obtain s where "v4_source addrs (dg_source d) = Inr s"
        by (auto simp: v4_source_def source_addr_def ok_or_def is_ipv4_def split: datagram_source.splits option.splits ipaddr.splits if_splits)
      moreover obtain u where "frames_ipv4 (LhEthernet dst_mac mac) s (a, port) (dg_ttl d) (ucast (eg_next_id g)) (dg_payload d)
          (frame_mtu (mtu_of t c)) = Inr u"
        using whole_v4_builds [OF fits mtu] by blast
      ultimately show ?thesis using Pair V4 lh by (simp add: build_udp_def lift_err_def lift_frame_def)
    next
      case (V6 a)
      with src Pair obtain s where "v6_source addrs a (dg_source d) = Inr s"
        by (auto simp: v6_source_def source_addr_def ok_or_def is_ipv4_def split: datagram_source.splits option.splits ipaddr.splits if_splits)
      moreover obtain u where "frames_ipv6 (LhEthernet dst_mac mac) s (a, port) (dg_ttl d) (eg_next_id g) (dg_payload d)
          (frame_mtu (mtu_of t c)) = Inr u"
        using whole_v6_builds [OF fits mtu] by blast
      ultimately show ?thesis using Pair V6 lh by (simp add: build_udp_def lift_err_def lift_frame_def)
    qed
  qed
  then obtain u where u: "?b = Inr u" ..
  from u show ?thesis
  proof (rule build_udp_Inr)
    fix lh' src'
    assume b: "link_header_for addrs Ethernet dst_mac = Inr lh'" "source_addr addrs (fst (dg_dst d)) (dg_source d) = Some src'"
      "frames_inv u" "uf_fragmented u \<longleftrightarrow> frame_mtu (mtu_of t c) < (if is_ipv4 (fst (dg_dst d)) then 28 else 48) + length (dg_payload d)"
      and parsed: "\<And>af i n out out' pad. frames_write af u i out = Inr (n, out') \<Longrightarrow>
         parse_frame Ethernet (take n out' @ pad) = Inr (if uf_fragmented u then Fragment (frame_fragment u i)
           else Datagram (sent_packet lh' src' (dg_dst d) (dg_ttl d) (dg_payload d)))"
    have whole: "\<not> uf_fragmented u" using b(4) fits by (auto split: if_splits)
    let ?g = "g\<lparr>eg_next_id := eg_next_id g + 1\<rparr>"
    have room: "frame_length u 0 \<le> length (eg_scratch ?g)" using frames_fit [OF u, of "eg_scratch ?g" 0] path by (simp add: path_ok_def)
    obtain out g' where tr: "frames_write (os_family os) u 0 (eg_scratch ?g) = Inr (frame_length u 0, out)"
      "transmit os c u (os_hash os (dst_mac, d)) (?g, t)
        = (Inr (), g', if eg_routing ?g then record_sent t c (eg_packet ?g) (os_hash os (dst_mac, d)) else t)"
      "eg_wire g' = eg_wire ?g @ [\<lparr>at_egress = c, at_frame = take (frame_length u 0) out, at_error = None\<rparr>]"
      by (rule transmit_single [OF b(3) whole room egress(1) accepts])
    have "plan t c dst_mac d g = (Inr (Some u), ?g)" using egress u by (simp add: plan_def)
    then have "eg_send_udp os c dst_mac d (g, t) = (Inr (), g', if eg_routing ?g then record_sent t c (eg_packet ?g) (os_hash os (dst_mac, d)) else t)"
      using egress fresh tr(2) by (simp add: eg_send_udp_def)
    moreover have "parse_frame Ethernet (take (frame_length u 0) out @ pad) = Inr (Datagram \<lparr>p_source = src, p_dest = dg_dst d,
        p_ttl = dg_ttl d, p_dst_mac = Some dst_mac, p_src_mac = Some mac, p_payload = dg_payload d\<rparr>)"
      using parsed [OF tr(1), of pad] b(1,2) src lh whole by (auto simp: sent_packet_def link_dst_def link_src_def)
    ultimately show ?thesis using tr(3) by auto
  qed
qed

text \<open>C37. What is sent is what a peer reads. On a bound Ethernet egress that has an address of the
  destination's family, a datagram within the MTU goes out as one frame; it parses, whatever follows
  it on the wire, to the packet meant: from the egress's own link address (so that an echo of it is
  told apart), to the link address of its group or broadcast, with the source, destination, TTL and
  payload asked for.\<close>

theorem group_send_delivers:
  assumes egress: "it_capture t c = Some cap" "cp_link cap = Ethernet" "egress_addrs t c = Some addrs" "ifindex_of t c \<noteq> None"
    "ia_mac addrs = Some mac" and dst: "ethernet_dst (fst (dg_dst d)) (v4_directed_broadcast addrs) = Inr dst_mac"
    and src: "source_addr addrs (fst (dg_dst d)) (dg_source d) = Some src"
    and fits: "48 + length (dg_payload d) \<le> frame_mtu (mtu_of t c)" and path: "path_ok g"
    and fresh: "\<not> already_sent g t c (os_hash os (dst_mac, d))" and accepts: "\<And>wire f. os_send os wire cap f = None"
  shows "\<exists>g' t' frame. eg_send_udp_group os c d (g, t) = (Inr (), g', t')
    \<and> eg_wire g' = eg_wire g @ [\<lparr>at_egress = c, at_frame = frame, at_error = None\<rparr>]
    \<and> parse_frame Ethernet (frame @ pad) = Inr (Datagram \<lparr>p_source = src, p_dest = dg_dst d, p_ttl = dg_ttl d,
         p_dst_mac = Some dst_mac, p_src_mac = Some mac, p_payload = dg_payload d\<rparr>)"
  using whole_send [OF egress src fits path fresh accepts, of pad] egress(3) dst by (simp add: eg_send_udp_group_def)

text \<open>A query relayed onto the sample interface.\<close>

definition sample_outside :: outside where
  "sample_outside = \<lparr>os_family = (\<lambda>_. 2), os_hash = (\<lambda>(_, d). word_of_nat (length (dg_payload d))), os_send = (\<lambda>_ _ _. None)\<rparr>"

definition sample_relay :: datagram where
  "sample_relay = \<lparr>dg_dst = (V4 0xe00000fb, 5353), dg_source = EgressSource 5353, dg_ttl = 255, dg_payload = [1, 2, 3]\<rparr>"

lemma path_ok_new: "path_ok (begin_packet (egress_new seed))"
  by (simp add: path_ok_def begin_packet_def egress_new_def)

lemma sample_egress:
  "it_capture sample_opened 0 = Some \<lparr>cp_fd = 7, cp_link = Ethernet, cp_name = bstr ''eth0''\<rparr>"
  "egress_addrs sample_opened 0 = Some sample_addresses" "ifindex_of sample_opened 0 \<noteq> None"
  "ia_mac sample_addresses = Some (MacAddr 2 0 0 0 0 1)"
  "ethernet_dst (fst (dg_dst sample_relay)) (v4_directed_broadcast sample_addresses) = Inr (MacAddr 1 0 0x5e 0 0 0xfb)"
  "source_addr sample_addresses (fst (dg_dst sample_relay)) (dg_source sample_relay) = Some (V4 0xc0a80102, 5353)"
  "48 + length (dg_payload sample_relay) \<le> frame_mtu (mtu_of sample_opened 0)"
  by code_simp+

lemma sample_fresh: "\<not> already_sent (begin_packet (egress_new 7)) sample_opened 0 d"
proof -
  have "map_option ce_sent_packet (it_capture_entry sample_opened 0) = Some 0" by code_simp
  then show ?thesis by (auto simp: already_sent_def was_sent_def begin_packet_def egress_new_def split: option.splits)
qed

lemma sample_accepts: "os_send sample_outside wire cap f = None"
  by (simp add: sample_outside_def)

lemma group_send_delivers_witness:
  "\<exists>g' t' frame. eg_send_udp_group sample_outside 0 sample_relay (begin_packet (egress_new 7), sample_opened) = (Inr (), g', t')
    \<and> eg_wire g' = [\<lparr>at_egress = 0, at_frame = frame, at_error = None\<rparr>]
    \<and> parse_frame Ethernet (frame @ [0, 0]) = Inr (Datagram \<lparr>p_source = (V4 0xc0a80102, 5353), p_dest = (V4 0xe00000fb, 5353), p_ttl = 255,
         p_dst_mac = Some (MacAddr 1 0 0x5e 0 0 0xfb), p_src_mac = Some (MacAddr 2 0 0 0 0 1), p_payload = [1, 2, 3]\<rparr>)"
  using group_send_delivers [OF sample_egress(1) _ sample_egress(2-7) path_ok_new sample_fresh sample_accepts, of "[0, 0]"]
  by (simp add: sample_relay_def begin_packet_def egress_new_def)

text \<open>The same query relayed by two entries, with a group send of another datagram in between.\<close>

lemma datagrams_sent_once_witness:
  "\<exists>s1 s2. eg_send_udp sample_outside 0 (MacAddr 1 0 0x5e 0 0 0xfb) sample_relay (begin_packet (egress_new 7), sample_opened) = (Inr (), s1)
    \<and> snd (eg_send_udp_group sample_outside 0 (sample_relay\<lparr>dg_payload := []\<rparr>) s1) = s2
    \<and> eg_send_udp sample_outside 0 (MacAddr 1 0 0x5e 0 0 0xfb) sample_relay s2 = (Inr (), s2)"
proof -
  let ?g = "begin_packet (egress_new 7)"
  obtain s1 where s1: "eg_send_udp sample_outside 0 (MacAddr 1 0 0x5e 0 0 0xfb) sample_relay (?g, sample_opened) = (Inr (), s1)"
    using whole_send [OF sample_egress(1) _ sample_egress(2-4,6,7) path_ok_new sample_fresh sample_accepts] by simp blast
  obtain r s2 where s2: "eg_send_udp_group sample_outside 0 (sample_relay\<lparr>dg_payload := []\<rparr>) s1 = (r, s2)" by (meson surj_pair)
  have "egress_run sample_outside s1 s2" by (rule udp_group [OF stop s2])
  moreover have "it_capture sample_opened 0 \<noteq> None" "egress_addrs sample_opened 0 \<noteq> None" "eg_routing ?g"
    using sample_egress by (simp_all add: begin_packet_def)
  ultimately show ?thesis using datagrams_sent_once [OF _ path_ok_new _ _ s1] s1 s2 by auto
qed

end
