(* ===== verification/Reactor.thy ===== *)
theory Reactor
  imports Interface_Table Arena
begin

text \<open>
  \<^verbatim>\<open>src/src/reactor.rs\<close>: the handlers and the descriptors they watch, in two arenas, and the dispatch of
  readiness to them. A handler is of any type; its callbacks, each given the reactor with the handler
  itself taken out, are arguments. The poller (epoll, kqueue) is an argument too: what it answers to
  adding, changing and removing interest in a descriptor. A full arena panics in the source and is
  \<open>None\<close> here.
\<close>

section \<open>State\<close>

record readiness =
  rn_readable :: bool
  rn_writable :: bool

record ready_event =
  ev_fd :: nat
  ev_user_data :: u64

datatype watch_error = NoSuchHandler | AlreadyWatched | PollError io_error

record 'h handler_entry =
  he_handler :: "'h option"
  he_regs :: "key list"

record watched =
  wd_fd :: nat
  wd_handler :: key
  wd_read_interest :: bool
  wd_write_interest :: bool
  wd_user_data :: u64

record 'h reactor =
  rx_handlers :: "'h handler_entry arena"
  rx_registrations :: "watched arena"
  rx_shutdown :: bool
  rx_dump_pending :: bool

record poller =
  po_add :: "nat \<Rightarrow> key \<Rightarrow> io_error option"
  po_remove :: "nat \<Rightarrow> io_error option"
  po_set_interest :: "nat \<Rightarrow> key \<Rightarrow> bool \<Rightarrow> bool \<Rightarrow> io_error option"

definition reactor_new :: "'h reactor" where
  "reactor_new = \<lparr>rx_handlers = arena_new, rx_registrations = arena_new, rx_shutdown = False, rx_dump_pending = False\<rparr>"

section \<open>Handlers and watches\<close>

text \<open>\<open>adopt\<close> hands the handler its key.\<close>

definition rx_register :: "(key \<Rightarrow> 'h \<Rightarrow> 'h) \<Rightarrow> 'h reactor \<Rightarrow> 'h \<Rightarrow> (key \<times> 'h reactor) option" where
  "rx_register adopt rx h =
     map_option (\<lambda>(k, hs). (k, rx\<lparr>rx_handlers := hs\<rparr>))
       (arena_insert_from (rx_handlers rx) (\<lambda>k. \<lparr>he_handler = Some (adopt k h), he_regs = []\<rparr>))"

definition rx_watch :: "poller \<Rightarrow> 'h reactor \<Rightarrow> key \<Rightarrow> nat \<Rightarrow> u64 \<Rightarrow> ((watch_error, key) result \<times> 'h reactor) option" where
  "rx_watch po rx hk fd user_data =
     (case arena_get (rx_handlers rx) hk of
        None \<Rightarrow> Some (Inl NoSuchHandler, rx)
      | Some _ \<Rightarrow>
          if list_ex (\<lambda>(_, reg). wd_fd reg = fd) (arena_iter (rx_registrations rx)) then Some (Inl AlreadyWatched, rx)
          else map_option (\<lambda>(rk, regs).
              case po_add po fd rk of
                Some e \<Rightarrow> (Inl (PollError e), rx\<lparr>rx_registrations := fst (arena_remove regs rk)\<rparr>)
              | None \<Rightarrow> (Inr rk, rx\<lparr>rx_registrations := regs,
                  rx_handlers := arena_get_mut (rx_handlers rx) hk (\<lambda>e. e\<lparr>he_regs := he_regs e @ [rk]\<rparr>)\<rparr>))
            (arena_insert (rx_registrations rx)
              \<lparr>wd_fd = fd, wd_handler = hk, wd_read_interest = True, wd_write_interest = False, wd_user_data = user_data\<rparr>))"

text \<open>The loop of \<^verbatim>\<open>unregister\<close> over the handler's registrations: the first failure is kept.\<close>

fun remove_regs :: "poller \<Rightarrow> watched arena \<Rightarrow> key list \<Rightarrow> io_error option \<times> watched arena" where
  "remove_regs po regs [] = (None, regs)"
| "remove_regs po regs (rk # rks) =
     (case arena_remove regs rk of
        (regs, None) \<Rightarrow> remove_regs po regs rks
      | (regs, Some reg) \<Rightarrow>
          (let (err, regs) = remove_regs po regs rks
           in (case po_remove po (wd_fd reg) of Some e \<Rightarrow> Some e | None \<Rightarrow> err, regs)))"

definition rx_unregister :: "poller \<Rightarrow> 'h reactor \<Rightarrow> key \<Rightarrow> (io_error, bool) result \<times> 'h reactor" where
  "rx_unregister po rx hk =
     (case arena_remove (rx_handlers rx) hk of
        (_, None) \<Rightarrow> (Inr False, rx)
      | (hs, Some e) \<Rightarrow>
          (let (err, regs) = remove_regs po (rx_registrations rx) (he_regs e)
           in (case err of Some e \<Rightarrow> Inl e | None \<Rightarrow> Inr True, rx\<lparr>rx_handlers := hs, rx_registrations := regs\<rparr>)))"

fun watch_all :: "poller \<Rightarrow> 'h reactor \<Rightarrow> key \<Rightarrow> (nat \<times> u64) list \<Rightarrow> ((watch_error, unit) result \<times> 'h reactor) option" where
  "watch_all po rx hk [] = Some (Inr (), rx)"
| "watch_all po rx hk ((fd, user_data) # fds) =
     Option.bind (rx_watch po rx hk fd user_data) (\<lambda>(r, rx).
       case r of
         Inl e \<Rightarrow> Some (Inl e, snd (rx_unregister po rx hk))
       | Inr _ \<Rightarrow> watch_all po rx hk fds)"

definition rx_register_with_fds ::
  "poller \<Rightarrow> (key \<Rightarrow> 'h \<Rightarrow> 'h) \<Rightarrow> 'h reactor \<Rightarrow> 'h \<Rightarrow> (nat \<times> u64) list \<Rightarrow> ((watch_error, key) result \<times> 'h reactor) option" where
  "rx_register_with_fds po adopt rx h fds =
     Option.bind (rx_register adopt rx h) (\<lambda>(hk, rx).
       map_option (\<lambda>(r, rx). (case r of Inl e \<Rightarrow> Inl e | Inr _ \<Rightarrow> Inr hk, rx)) (watch_all po rx hk fds))"

definition rx_unwatch :: "poller \<Rightarrow> 'h reactor \<Rightarrow> key \<Rightarrow> (io_error, bool) result \<times> 'h reactor" where
  "rx_unwatch po rx rk =
     (case arena_remove (rx_registrations rx) rk of
        (_, None) \<Rightarrow> (Inr False, rx)
      | (regs, Some reg) \<Rightarrow>
          (case po_remove po (wd_fd reg) of Some e \<Rightarrow> Inl e | None \<Rightarrow> Inr True,
           rx\<lparr>rx_registrations := regs,
              rx_handlers := arena_get_mut (rx_handlers rx) (wd_handler reg) (\<lambda>e. e\<lparr>he_regs := filter (\<lambda>r. r \<noteq> rk) (he_regs e)\<rparr>)\<rparr>))"

definition rx_set_write_interest :: "poller \<Rightarrow> 'h reactor \<Rightarrow> key \<Rightarrow> bool \<Rightarrow> (io_error, bool) result \<times> 'h reactor" where
  "rx_set_write_interest po rx rk enabled =
     (case arena_get (rx_registrations rx) rk of
        None \<Rightarrow> (Inr False, rx)
      | Some reg \<Rightarrow>
          if wd_write_interest reg = enabled then (Inr True, rx)
          else case po_set_interest po (wd_fd reg) rk (wd_read_interest reg) enabled of
              Some e \<Rightarrow> (Inl e, rx)
            | None \<Rightarrow> (Inr True, rx\<lparr>rx_registrations := arena_get_mut (rx_registrations rx) rk (\<lambda>r. r\<lparr>wd_write_interest := enabled\<rparr>)\<rparr>))"

definition rx_set_read_interest :: "poller \<Rightarrow> 'h reactor \<Rightarrow> key \<Rightarrow> bool \<Rightarrow> (io_error, bool) result \<times> 'h reactor" where
  "rx_set_read_interest po rx rk enabled =
     (case arena_get (rx_registrations rx) rk of
        None \<Rightarrow> (Inr False, rx)
      | Some reg \<Rightarrow>
          (case po_set_interest po (wd_fd reg) rk enabled (wd_write_interest reg) of
             Some e \<Rightarrow> (Inl e, rx)
           | None \<Rightarrow> (Inr True, rx\<lparr>rx_registrations := arena_get_mut (rx_registrations rx) rk (\<lambda>r. r\<lparr>wd_read_interest := enabled\<rparr>)\<rparr>)))"

definition rx_is_registered :: "'h reactor \<Rightarrow> key \<Rightarrow> bool" where
  "rx_is_registered rx hk = arena_contains (rx_handlers rx) hk"

definition request_shutdown :: "'h reactor \<Rightarrow> 'h reactor" where
  "request_shutdown rx = rx\<lparr>rx_shutdown := True\<rparr>"

definition request_dump :: "'h reactor \<Rightarrow> 'h reactor" where
  "request_dump rx = rx\<lparr>rx_dump_pending := True\<rparr>"

section \<open>Dispatch\<close>

definition take_out :: "'h reactor \<Rightarrow> key \<Rightarrow> 'h reactor \<times> 'h option" where
  "take_out rx hk =
     (let (hs, h) = take_handler he_handler (\<lambda>h e. e\<lparr>he_handler := h\<rparr>) (rx_handlers rx) hk
      in (rx\<lparr>rx_handlers := hs\<rparr>, h))"

definition put_back :: "'h reactor \<Rightarrow> key \<Rightarrow> 'h \<Rightarrow> 'h reactor" where
  "put_back rx hk h = rx\<lparr>rx_handlers := restore_handler (\<lambda>h e. e\<lparr>he_handler := h\<rparr>) (rx_handlers rx) hk h\<rparr>"

text \<open>The callbacks of a handler, as one record; each returns the handler and the reactor it was lent.\<close>

record 'h callbacks =
  cb_readable :: "ready_event \<Rightarrow> 'h \<Rightarrow> 'h reactor \<Rightarrow> 'h \<times> 'h reactor"
  cb_writable :: "ready_event \<Rightarrow> 'h \<Rightarrow> 'h reactor \<Rightarrow> 'h \<times> 'h reactor"
  cb_next_deadline :: "'h \<Rightarrow> instant option"
  cb_deadline :: "instant \<Rightarrow> 'h \<Rightarrow> 'h reactor \<Rightarrow> 'h \<times> 'h reactor"
  cb_control :: "'h \<Rightarrow> 'h reactor \<Rightarrow> 'h \<times> 'h reactor"

definition rx_dispatch :: "'h callbacks \<Rightarrow> 'h reactor \<Rightarrow> key \<Rightarrow> readiness \<Rightarrow> 'h reactor" where
  "rx_dispatch cb rx rk ready =
     (case arena_get (rx_registrations rx) rk of
        None \<Rightarrow> rx
      | Some reg \<Rightarrow>
          let hk = wd_handler reg; event = \<lparr>ev_fd = wd_fd reg, ev_user_data = wd_user_data reg\<rparr> in
          (case take_out rx hk of
             (rx, None) \<Rightarrow> rx
           | (rx, Some h) \<Rightarrow>
               (let (h, rx) = (if rn_readable ready then cb_readable cb event h rx else (h, rx));
                    (h, rx) = (if rn_writable ready
                       \<and> (case arena_get (rx_registrations rx) rk of None \<Rightarrow> False | Some r \<Rightarrow> wd_write_interest r)
                     then cb_writable cb event h rx else (h, rx))
                in put_back rx hk h)))"

definition rx_next_deadline :: "'h callbacks \<Rightarrow> 'h reactor \<Rightarrow> instant option" where
  "rx_next_deadline cb rx = min_instant (List.map_filter (\<lambda>(_, h). cb_next_deadline cb h) (arena_handlers he_handler (rx_handlers rx)))"

text \<open>A sweep over keys taken beforehand: a handler gone or in flight is passed over.\<close>

fun sweep_handlers :: "('h \<Rightarrow> 'h reactor \<Rightarrow> 'h \<times> 'h reactor) \<Rightarrow> 'h reactor \<Rightarrow> key list \<Rightarrow> 'h reactor" where
  "sweep_handlers call rx [] = rx"
| "sweep_handlers call rx (k # ks) =
     (case take_out rx k of
        (rx, None) \<Rightarrow> sweep_handlers call rx ks
      | (rx, Some h) \<Rightarrow> (let (h, rx) = call h rx in sweep_handlers call (put_back rx k h) ks))"

definition dispatch_deadlines :: "'h callbacks \<Rightarrow> 'h reactor \<Rightarrow> instant \<Rightarrow> 'h reactor" where
  "dispatch_deadlines cb rx now =
     sweep_handlers (cb_deadline cb now) rx
       (map fst (filter (\<lambda>(_, h). case cb_next_deadline cb h of None \<Rightarrow> False | Some d \<Rightarrow> d \<le> now)
         (arena_handlers he_handler (rx_handlers rx))))"

definition dispatch_control :: "'h callbacks \<Rightarrow> 'h reactor \<Rightarrow> 'h reactor" where
  "dispatch_control cb rx = sweep_handlers (cb_control cb) rx (map fst (arena_iter (rx_handlers rx)))"

definition poll_once :: "'h callbacks \<Rightarrow> 'h reactor \<Rightarrow> (key \<times> readiness) list \<Rightarrow> 'h reactor" where
  "poll_once cb rx events = fold (\<lambda>(rk, ready) rx. rx_dispatch cb rx rk ready) events rx"

text \<open>One turn of \<^verbatim>\<open>run_loop\<close>, on the events the wait reported and the clock read after it.\<close>

definition run_turn :: "'h callbacks \<Rightarrow> 'h reactor \<Rightarrow> (key \<times> readiness) list \<Rightarrow> instant \<Rightarrow> 'h reactor" where
  "run_turn cb rx events now =
     (let deadline = rx_next_deadline cb rx;
          rx = poll_once cb rx events;
          rx = (if rx_dump_pending rx then dispatch_control cb (rx\<lparr>rx_dump_pending := False\<rparr>) else rx)
      in (case deadline of None \<Rightarrow> rx | Some d \<Rightarrow> if d \<le> now then dispatch_deadlines cb rx now else rx))"

section \<open>Who is watched by whom\<close>

lemma arena_get_mut_lookup: "arena_get (arena_get_mut a k f) = (arena_get a)(k := map_option f (arena_get a k))"
proof
  fix k'
  show "arena_get (arena_get_mut a k f) k' = ((arena_get a)(k := map_option f (arena_get a k))) k'"
  proof (cases "arena_slot a k")
    case None
    then show ?thesis by (simp add: arena_get_mut_def arena_get_def)
  next
    case (Some s)
    then have s: "unat (key_index k) < length (ar_slots a)" "ar_slots a ! unat (key_index k) = s" "sl_generation s = key_generation k"
      by (auto simp: arena_slot_Some)
    have "k' = k \<longleftrightarrow> unat (key_index k') = unat (key_index k) \<and> key_generation k' = key_generation k"
      by (auto simp: unat_word_eq_iff intro: key.equality)
    with Some s show ?thesis
      by (auto simp: arena_get_mut_def arena_get_def arena_slot_def nth_opt_def nth_list_update)
  qed
qed

lemma arena_get_mut_inv: "arena_inv a \<Longrightarrow> arena_inv (arena_get_mut a k f)"
  by (auto simp: arena_get_mut_def arena_inv_def arena_slot_Some nth_list_update split: option.splits)

definition rx_inv :: "'h reactor \<Rightarrow> bool" where
  "rx_inv rx \<longleftrightarrow> arena_inv (rx_handlers rx) \<and> arena_inv (rx_registrations rx)
     \<and> (\<forall>rk r. arena_get (rx_registrations rx) rk = Some r \<longrightarrow>
          (\<exists>e. arena_get (rx_handlers rx) (wd_handler r) = Some e \<and> rk \<in> set (he_regs e)))
     \<and> (\<forall>hk e rk. arena_get (rx_handlers rx) hk = Some e \<and> rk \<in> set (he_regs e) \<longrightarrow>
          (\<exists>r. arena_get (rx_registrations rx) rk = Some r \<and> wd_handler r = hk))
     \<and> (\<forall>rk r rk' r'. arena_get (rx_registrations rx) rk = Some r \<and> arena_get (rx_registrations rx) rk' = Some r'
          \<and> wd_fd r = wd_fd r' \<longrightarrow> rk = rk')"

lemma rx_invD:
  assumes "rx_inv rx"
  shows "arena_inv (rx_handlers rx)" "arena_inv (rx_registrations rx)"
    "\<And>rk r. arena_get (rx_registrations rx) rk = Some r \<Longrightarrow> \<exists>e. arena_get (rx_handlers rx) (wd_handler r) = Some e \<and> rk \<in> set (he_regs e)"
    "\<And>hk e rk. arena_get (rx_handlers rx) hk = Some e \<Longrightarrow> rk \<in> set (he_regs e) \<Longrightarrow> \<exists>r. arena_get (rx_registrations rx) rk = Some r \<and> wd_handler r = hk"
    "\<And>rk r rk' r'. arena_get (rx_registrations rx) rk = Some r \<Longrightarrow> arena_get (rx_registrations rx) rk' = Some r'
          \<Longrightarrow> wd_fd r = wd_fd r' \<Longrightarrow> rk = rk'"
  using assms by (auto simp: rx_inv_def)

lemma rx_inv_new: "rx_inv reactor_new"
  by (simp add: rx_inv_def reactor_new_def arena_inv_new) (simp add: arena_get_def arena_slot_def arena_new_def nth_opt_def)

lemma rx_register_inv:
  assumes "rx_inv rx" "rx_register adopt rx h = Some (k, rx')"
  shows "rx_inv rx'"
proof -
  from assms(2) obtain hs where ins: "arena_insert_from (rx_handlers rx) (\<lambda>k. \<lparr>he_handler = Some (adopt k h), he_regs = []\<rparr>) = Some (k, hs)"
    and rx': "rx' = rx\<lparr>rx_handlers := hs\<rparr>" by (auto simp: rx_register_def)
  note lookup = arena_insert_lookup [OF rx_invD(1) [OF assms(1)] ins] arena_insert_inv [OF rx_invD(1) [OF assms(1)] ins]
  show ?thesis unfolding rx_inv_def
    using rx_invD [OF assms(1)] lookup by (auto simp: rx' split: if_splits) (metis option.distinct(1))+
qed

lemma fd_watched_iff:
  assumes "arena_inv a"
  shows "list_ex (\<lambda>(_, reg). wd_fd reg = fd) (arena_iter a) \<longleftrightarrow> (\<exists>rk r. arena_get a rk = Some r \<and> wd_fd r = fd)"
  using arena_iter_exact [OF assms] by (auto simp: list_ex_iff)

lemma rx_watch_inv:
  assumes inv: "rx_inv rx" and watch: "rx_watch po rx hk fd data = Some (r, rx')"
  shows "rx_inv rx'"
proof (cases "arena_get (rx_handlers rx) hk = None \<or> (\<exists>rk r. arena_get (rx_registrations rx) rk = Some r \<and> wd_fd r = fd)")
  case True
  then show ?thesis using assms fd_watched_iff [OF rx_invD(2) [OF inv]] by (auto simp: rx_watch_def split: option.splits)
next
  case False
  then obtain e where e: "arena_get (rx_handlers rx) hk = Some e" by auto
  let ?new = "\<lparr>wd_fd = fd, wd_handler = hk, wd_read_interest = True, wd_write_interest = False, wd_user_data = data\<rparr>"
  have "\<not> list_ex (\<lambda>(_, reg). wd_fd reg = fd) (arena_iter (rx_registrations rx))"
    using False fd_watched_iff [OF rx_invD(2) [OF inv]] by blast
  with watch e obtain rk regs where ins: "arena_insert (rx_registrations rx) ?new = Some (rk, regs)"
    and res: "(case po_add po fd rk of
                Some e \<Rightarrow> (Inl (PollError e), rx\<lparr>rx_registrations := fst (arena_remove regs rk)\<rparr>)
              | None \<Rightarrow> (Inr rk, rx\<lparr>rx_registrations := regs,
                  rx_handlers := arena_get_mut (rx_handlers rx) hk (\<lambda>e. e\<lparr>he_regs := he_regs e @ [rk]\<rparr>)\<rparr>)) = (r, rx')"
    by (auto simp: rx_watch_def)
  note i = rx_invD [OF inv]
  note new = ar.add_fresh [OF i(2) ins] ar.add_lookup [OF i(2) ins] ar.add_invar [OF i(2) ins]
  show ?thesis
  proof (cases "po_add po fd rk")
    case (Some err)
    then have rx': "rx' = rx\<lparr>rx_registrations := fst (arena_remove regs rk)\<rparr>" using res by auto
    moreover have "arena_get (fst (arena_remove regs rk)) = arena_get (rx_registrations rx)" by (rule ar.add_then_del [OF i(2) ins])
    ultimately show ?thesis using inv ar.del_invar [OF new(3)] by (simp add: rx_inv_def) blast
  next
    case None
    then have rx': "rx' = rx\<lparr>rx_registrations := regs,
        rx_handlers := arena_get_mut (rx_handlers rx) hk (\<lambda>e. e\<lparr>he_regs := he_regs e @ [rk]\<rparr>)\<rparr>" using res by auto
    have h: "arena_get (rx_handlers rx') = (arena_get (rx_handlers rx))(hk \<mapsto> e\<lparr>he_regs := he_regs e @ [rk]\<rparr>)"
      by (simp add: rx' arena_get_mut_lookup e)
    have g: "arena_get (rx_registrations rx') = (arena_get (rx_registrations rx))(rk \<mapsto> ?new)" using new(2) by (simp add: rx')
    show ?thesis unfolding rx_inv_def
    proof (intro conjI allI impI)
      show "arena_inv (rx_handlers rx')" "arena_inv (rx_registrations rx')"
        using i(1) new(3) by (simp_all add: rx' arena_get_mut_inv)
    next
      fix q r assume "arena_get (rx_registrations rx') q = Some r"
      then show "\<exists>e. arena_get (rx_handlers rx') (wd_handler r) = Some e \<and> q \<in> set (he_regs e)"
        using i(3) e by (fastforce simp: h g split: if_splits)
    next
      fix k d q assume "arena_get (rx_handlers rx') k = Some d \<and> q \<in> set (he_regs d)"
      then show "\<exists>r. arena_get (rx_registrations rx') q = Some r \<and> wd_handler r = k"
        using i(4) e new(1) by (fastforce simp: h g split: if_splits)
    next
      fix q r q' r' assume "arena_get (rx_registrations rx') q = Some r \<and> arena_get (rx_registrations rx') q' = Some r' \<and> wd_fd r = wd_fd r'"
      then show "q = q'" using i(5) False by (fastforce simp: g split: if_splits)
    qed
  qed
qed

lemma remove_regs_lookup:
  assumes "arena_inv regs" "remove_regs po regs rks = (err, regs')"
  shows "arena_inv regs' \<and> arena_get regs' = (\<lambda>rk. if rk \<in> set rks then None else arena_get regs rk)"
  using assms
proof (induction rks arbitrary: regs err regs')
  case (Cons rk rks)
  obtain regs1 v where rm: "arena_remove regs rk = (regs1, v)" by fastforce
  have one: "arena_inv regs1" "arena_get regs1 = (arena_get regs)(rk := None)"
    using ar.del_invar [OF Cons.prems(1), of rk] ar.del_lookup [OF Cons.prems(1), of rk] rm by simp_all
  obtain err1 regs2 where rest: "remove_regs po regs1 rks = (err1, regs2)" by fastforce
  have "regs' = regs2" using Cons.prems(2) rm rest by (auto split: option.splits prod.splits)
  with Cons.IH [OF one(1) rest] one(2) show ?case by (auto simp: fun_eq_iff)
qed simp

text \<open>What is left of the reactor when a handler is unregistered, whatever the kernel answers.\<close>

lemma rx_unregister_lookup:
  assumes "rx_inv rx" "rx_unregister po rx hk = (r, rx')"
  shows "arena_get (rx_handlers rx') = (arena_get (rx_handlers rx))(hk := None)"
    and "arena_get (rx_registrations rx') = (\<lambda>rk. case arena_get (rx_registrations rx) rk of
           Some w \<Rightarrow> if wd_handler w = hk then None else Some w | None \<Rightarrow> None)"
    and "arena_inv (rx_handlers rx')" and "arena_inv (rx_registrations rx')"
proof -
  note i = rx_invD [OF assms(1)]
  obtain hs v where rm: "arena_remove (rx_handlers rx) hk = (hs, v)" by fastforce
  have h: "arena_get hs = (arena_get (rx_handlers rx))(hk := None)" "v = arena_get (rx_handlers rx) hk" "arena_inv hs"
    using ar.del_lookup [OF i(1), of hk] ar.del_value [of "rx_handlers rx" hk] ar.del_invar [OF i(1), of hk] rm by simp_all
  have "arena_get (rx_handlers rx') = (arena_get (rx_handlers rx))(hk := None)
    \<and> arena_get (rx_registrations rx') = (\<lambda>rk. case arena_get (rx_registrations rx) rk of
           Some w \<Rightarrow> if wd_handler w = hk then None else Some w | None \<Rightarrow> None)
    \<and> arena_inv (rx_handlers rx') \<and> arena_inv (rx_registrations rx')"
  proof (cases v)
    case None
    then have "rx' = rx" using assms(2) rm by (simp add: rx_unregister_def)
    moreover have "wd_handler w \<noteq> hk" if "arena_get (rx_registrations rx) rk = Some w" for rk w
      using i(3) [OF that] h(2) None by auto
    ultimately show ?thesis using h(2) None i(1,2) by (auto simp: fun_eq_iff split: option.splits)
  next
    case (Some e)
    obtain err regs where rr: "remove_regs po (rx_registrations rx) (he_regs e) = (err, regs)" by fastforce
    note g = remove_regs_lookup [OF i(2) rr]
    have mem: "rk \<in> set (he_regs e) \<longleftrightarrow> (\<exists>w. arena_get (rx_registrations rx) rk = Some w \<and> wd_handler w = hk)" for rk
      using i(3,4) h(2) Some by fastforce
    have "rx' = rx\<lparr>rx_handlers := hs, rx_registrations := regs\<rparr>"
      using assms(2) rm Some rr by (auto simp: rx_unregister_def)
    with g h mem show ?thesis by (auto simp: fun_eq_iff split: option.splits)
  qed
  then show "arena_get (rx_handlers rx') = (arena_get (rx_handlers rx))(hk := None)"
    "arena_get (rx_registrations rx') = (\<lambda>rk. case arena_get (rx_registrations rx) rk of
           Some w \<Rightarrow> if wd_handler w = hk then None else Some w | None \<Rightarrow> None)"
    "arena_inv (rx_handlers rx')" "arena_inv (rx_registrations rx')" by blast+
qed

lemma rx_unregister_inv:
  assumes "rx_inv rx" "rx_unregister po rx hk = (r, rx')"
  shows "rx_inv rx'"
proof -
  note i = rx_invD [OF assms(1)] and u = rx_unregister_lookup [OF assms]
  show ?thesis unfolding rx_inv_def
  proof (intro conjI allI impI)
    fix q w assume "arena_get (rx_registrations rx') q = Some w"
    then show "\<exists>e. arena_get (rx_handlers rx') (wd_handler w) = Some e \<and> q \<in> set (he_regs e)"
      using i(3) by (auto simp: u split: option.splits if_splits)
  next
    fix k d q assume "arena_get (rx_handlers rx') k = Some d \<and> q \<in> set (he_regs d)"
    then show "\<exists>w. arena_get (rx_registrations rx') q = Some w \<and> wd_handler w = k"
      using i(4) by (fastforce simp: u split: option.splits if_splits)
  next
    fix q w q' w' assume "arena_get (rx_registrations rx') q = Some w \<and> arena_get (rx_registrations rx') q' = Some w' \<and> wd_fd w = wd_fd w'"
    then show "q = q'" using i(5) by (auto simp: u split: option.splits if_splits)
  qed (use u in auto)
qed

lemma rx_inv_handlers:
  assumes "rx_inv rx" "arena_inv hs"
    "\<And>k. map_option he_regs (arena_get hs k) = map_option he_regs (arena_get (rx_handlers rx) k)"
  shows "rx_inv (rx\<lparr>rx_handlers := hs\<rparr>)"
proof -
  note i = rx_invD [OF assms(1)]
  have same: "(\<exists>e. arena_get hs k = Some e \<and> q \<in> set (he_regs e)) \<longleftrightarrow> (\<exists>e. arena_get (rx_handlers rx) k = Some e \<and> q \<in> set (he_regs e))" for k q
    using assms(3) [of k] by (cases "arena_get hs k"; cases "arena_get (rx_handlers rx) k") auto
  show ?thesis unfolding rx_inv_def using i assms(2) same by simp metis
qed

lemma rx_inv_interest:
  assumes "rx_inv rx" "\<And>r. wd_handler (f r) = wd_handler r \<and> wd_fd (f r) = wd_fd r"
  shows "rx_inv (rx\<lparr>rx_registrations := arena_get_mut (rx_registrations rx) rk f\<rparr>)"
proof -
  note i = rx_invD [OF assms(1)]
  show ?thesis unfolding rx_inv_def
    using i(1-4) assms(2) i(5) by (auto simp: arena_get_mut_lookup arena_get_mut_inv split: if_splits) (metis | fastforce)+
qed

lemma rx_unwatch_inv:
  assumes "rx_inv rx"
  shows "rx_inv (snd (rx_unwatch po rx rk))"
proof (cases "arena_get (rx_registrations rx) rk")
  case None
  then show ?thesis using assms ar.del_value [of "rx_registrations rx" rk] by (auto simp: rx_unwatch_def split: prod.splits)
next
  case (Some w)
  note i = rx_invD [OF assms]
  let ?rx = "snd (rx_unwatch po rx rk)"
  obtain regs where rm: "arena_remove (rx_registrations rx) rk = (regs, Some w)"
    using ar.del_value [of "rx_registrations rx" rk] Some by (metis prod.collapse)
  have g: "arena_get (rx_registrations ?rx) = (arena_get (rx_registrations rx))(rk := None)" "arena_inv (rx_registrations ?rx)"
    using ar.del_lookup [OF i(2), of rk] ar.del_invar [OF i(2), of rk] rm by (simp_all add: rx_unwatch_def)
  have h: "rx_handlers ?rx = arena_get_mut (rx_handlers rx) (wd_handler w) (\<lambda>e. e\<lparr>he_regs := filter (\<lambda>r. r \<noteq> rk) (he_regs e)\<rparr>)"
    using rm by (simp add: rx_unwatch_def)
  show ?thesis unfolding rx_inv_def
  proof (intro conjI allI impI)
    show "arena_inv (rx_handlers ?rx)" using i(1) by (simp add: h arena_get_mut_inv)
  next
    fix q v assume "arena_get (rx_registrations ?rx) q = Some v"
    then show "\<exists>e. arena_get (rx_handlers ?rx) (wd_handler v) = Some e \<and> q \<in> set (he_regs e)"
      using i(3) [of q v] by (auto simp: g h arena_get_mut_lookup split: if_splits)
  next
    fix k d q assume a: "arena_get (rx_handlers ?rx) k = Some d \<and> q \<in> set (he_regs d)"
    then obtain d' where d': "arena_get (rx_handlers rx) k = Some d'" "q \<in> set (he_regs d')"
      by (auto simp: h arena_get_mut_lookup split: if_splits)
    then obtain v where v: "arena_get (rx_registrations rx) q = Some v" "wd_handler v = k" using i(4) by blast
    moreover have "q \<noteq> rk" using a v Some by (auto simp: h arena_get_mut_lookup split: if_splits)
    ultimately show "\<exists>v. arena_get (rx_registrations ?rx) q = Some v \<and> wd_handler v = k" by (simp add: g)
  next
    fix q v q' v' assume "arena_get (rx_registrations ?rx) q = Some v \<and> arena_get (rx_registrations ?rx) q' = Some v' \<and> wd_fd v = wd_fd v'"
    then show "q = q'" using i(5) by (auto simp: g split: if_splits)
  qed (use g in simp)
qed

lemma take_out_regs:
  assumes "rx_inv rx" "take_out rx hk = (rx', h)"
  shows "rx_inv rx' \<and> rx_registrations rx' = rx_registrations rx"
proof -
  have rx': "rx' = rx\<lparr>rx_handlers := fst (take_handler he_handler (\<lambda>h e. e\<lparr>he_handler := h\<rparr>) (rx_handlers rx) hk)\<rparr>"
    using assms(2) by (auto simp: take_out_def split: prod.splits)
  have "rx_inv (rx\<lparr>rx_handlers := fst (take_handler he_handler (\<lambda>h e. e\<lparr>he_handler := h\<rparr>) (rx_handlers rx) hk)\<rparr>)"
    by (rule rx_inv_handlers [OF assms(1)])
       (use rx_invD(1) [OF assms(1)] in \<open>auto simp: take_handler_def arena_get_mut_lookup arena_get_mut_inv split: option.splits\<close>)
  with rx' show ?thesis by simp
qed

lemma put_back_inv: "rx_inv rx \<Longrightarrow> rx_inv (put_back rx hk h)"
  unfolding put_back_def
  by (rule rx_inv_handlers)
     (use rx_invD(1) in \<open>auto simp: restore_handler_def arena_get_mut_lookup arena_get_mut_inv split: option.splits\<close>)

text \<open>The reactor over time: what its handlers call, with any answers of the kernel, and the taking
  out and putting back of handlers around the calls.\<close>

inductive rx_run :: "'h reactor \<Rightarrow> bool" where
  start: "rx_run reactor_new"
| register: "rx_run rx \<Longrightarrow> rx_register adopt rx h = Some (k, rx') \<Longrightarrow> rx_run rx'"
| watch: "rx_run rx \<Longrightarrow> rx_watch po rx k fd user_data = Some (r, rx') \<Longrightarrow> rx_run rx'"
| unwatch: "rx_run rx \<Longrightarrow> rx_run (snd (rx_unwatch po rx k))"
| unregister: "rx_run rx \<Longrightarrow> rx_run (snd (rx_unregister po rx k))"
| write_interest: "rx_run rx \<Longrightarrow> rx_run (snd (rx_set_write_interest po rx k on))"
| read_interest: "rx_run rx \<Longrightarrow> rx_run (snd (rx_set_read_interest po rx k on))"
| taken: "rx_run rx \<Longrightarrow> rx_run (fst (take_out rx k))"
| restored: "rx_run rx \<Longrightarrow> rx_run (put_back rx k h)"
| flags: "rx_run rx \<Longrightarrow> rx_run (rx\<lparr>rx_shutdown := s, rx_dump_pending := p\<rparr>)"

lemma rx_run_inv: "rx_run rx \<Longrightarrow> rx_inv rx"
proof (induction rule: rx_run.induct)
  case (register rx adopt h k rx')
  then show ?case by (auto intro: rx_register_inv)
next
  case (watch rx po k fd user_data r rx')
  then show ?case by (auto intro: rx_watch_inv)
next
  case (unregister rx po k)
  then show ?case by (metis rx_unregister_inv prod.collapse)
next
  case (write_interest rx po k on)
  then show ?case using rx_inv_interest [of rx "\<lambda>r. r\<lparr>wd_write_interest := on\<rparr>" k]
    by (auto simp: rx_set_write_interest_def split: option.splits)
next
  case (read_interest rx po k on)
  then show ?case using rx_inv_interest [of rx "\<lambda>r. r\<lparr>wd_read_interest := on\<rparr>" k]
    by (auto simp: rx_set_read_interest_def split: option.splits)
next
  case (taken rx k)
  then show ?case by (metis take_out_regs prod.collapse)
next
  case (flags rx s p)
  then show ?case by (simp add: rx_inv_def) blast
qed (simp_all add: rx_inv_new rx_unwatch_inv put_back_inv)

text \<open>C38. An unregistered handler hears nothing more. Whatever the reactor did so far and whatever the
  kernel answers, once a handler is unregistered its key resolves to nothing, none of its
  descriptors is watched, and an event still queued for one of them is dropped; every other handler
  and watch is untouched, and no descriptor is ever watched twice.\<close>

theorem unregistered_hears_nothing:
  assumes "rx_run rx" and "rx_unregister po rx hk = (r, rx')"
  shows "\<not> rx_is_registered rx' hk
    \<and> (\<forall>rk w. arena_get (rx_registrations rx) rk = Some w \<and> wd_handler w = hk \<longrightarrow> rx_dispatch cb rx' rk ready = rx')
    \<and> (\<forall>k. k \<noteq> hk \<longrightarrow> arena_get (rx_handlers rx') k = arena_get (rx_handlers rx) k)
    \<and> (\<forall>rk w. arena_get (rx_registrations rx') rk = Some w \<longleftrightarrow> arena_get (rx_registrations rx) rk = Some w \<and> wd_handler w \<noteq> hk)
    \<and> (\<forall>rk w rk' w'. arena_get (rx_registrations rx') rk = Some w \<and> arena_get (rx_registrations rx') rk' = Some w'
         \<and> wd_fd w = wd_fd w' \<longrightarrow> rk = rk')"
proof -
  note inv = rx_run_inv [OF assms(1)] and u = rx_unregister_lookup [OF rx_run_inv [OF assms(1)] assms(2)]
  have "\<not> rx_is_registered rx' hk" by (simp add: rx_is_registered_def arena_contains_def u(1))
  moreover have "rx_dispatch cb rx' rk ready = rx'"
    if "arena_get (rx_registrations rx) rk = Some w" "wd_handler w = hk" for rk w
    using that by (simp add: rx_dispatch_def u(2))
  moreover have "arena_get (rx_registrations rx') rk = Some w \<longleftrightarrow> arena_get (rx_registrations rx) rk = Some w \<and> wd_handler w \<noteq> hk" for rk w
    by (auto simp: u(2) split: option.splits)
  ultimately show ?thesis using u(1) rx_invD(5) [OF rx_unregister_inv [OF inv assms(2)]] by auto
qed

text \<open>A handler with two descriptors, unregistered while the kernel refuses to drop its interest.\<close>

definition sample_poller :: poller where
  "sample_poller = \<lparr>po_add = (\<lambda>_ _. None), po_remove = (\<lambda>_. Some (Os ENOMEM)), po_set_interest = (\<lambda>_ _ _ _. None)\<rparr>"

definition sample_reactor :: "nat reactor" where
  "sample_reactor = snd (the (rx_watch sample_poller (snd (the (rx_register (\<lambda>_ h. h) reactor_new 3)))
     \<lparr>key_index = 0, key_generation = 0\<rparr> 8 21))"

lemma unregistered_hears_nothing_witness:
  "map_option wd_fd (arena_get (rx_registrations sample_reactor) \<lparr>key_index = 0, key_generation = 0\<rparr>) = Some 8
   \<and> fst (rx_unregister sample_poller sample_reactor \<lparr>key_index = 0, key_generation = 0\<rparr>) = Inl (Os ENOMEM)
   \<and> (\<forall>cb ready. rx_dispatch cb (snd (rx_unregister sample_poller sample_reactor \<lparr>key_index = 0, key_generation = 0\<rparr>))
         \<lparr>key_index = 0, key_generation = 0\<rparr> ready
       = snd (rx_unregister sample_poller sample_reactor \<lparr>key_index = 0, key_generation = 0\<rparr>))"
proof (intro conjI)
  let ?k = "\<lparr>key_index = 0, key_generation = 0\<rparr> :: key"
  have "rx_register (\<lambda>_ h. h) reactor_new (3 :: nat) = Some (?k, snd (the (rx_register (\<lambda>_ h. h) reactor_new 3)))" by code_simp
  then have one: "rx_run (snd (the (rx_register (\<lambda>_ h. h) reactor_new (3 :: nat))))" by (rule rx_run.register [OF rx_run.start])
  have "rx_watch sample_poller (snd (the (rx_register (\<lambda>_ h. h) reactor_new (3 :: nat)))) ?k 8 21 = Some (Inr ?k, sample_reactor)" by code_simp
  then have run: "rx_run sample_reactor" by (rule rx_run.watch [OF one])
  show "map_option wd_fd (arena_get (rx_registrations sample_reactor) ?k) = Some 8"
    "fst (rx_unregister sample_poller sample_reactor ?k) = Inl (Os ENOMEM)" by code_simp+
  have "map_option wd_handler (arena_get (rx_registrations sample_reactor) ?k) = Some ?k" by code_simp
  then obtain w where "arena_get (rx_registrations sample_reactor) ?k = Some w" "wd_handler w = ?k" by blast
  then show "\<forall>cb ready. rx_dispatch cb (snd (rx_unregister sample_poller sample_reactor ?k)) ?k ready
      = snd (rx_unregister sample_poller sample_reactor ?k)"
    using unregistered_hears_nothing [OF run, of sample_poller ?k] by (metis prod.collapse)
qed

end
