(* ===== verification/Dial.thy ===== *)
theory Dial
  imports Reactor Discovery "HOL-Library.Sublist"
begin

text \<open>
  \<^verbatim>\<open>src/src/dispatch/dial_context.rs\<close> and \<^verbatim>\<open>src/src/reflector/dial/rewrite.rs\<close>: the registry of DIAL proxies,
  one per device, and the rewriting of a device's \<^verbatim>\<open>LOCATION\<close> to the listener of its proxy. The system
  answers for the addresses of this host and for the listeners bound; its answers may depend on the
  reactor, since that is where the bound listeners live. The proxy itself is a handler of the
  reactor, built by an argument.
\<close>

section \<open>The registry\<close>

definition MAX_DIAL_PROXIES :: nat where "MAX_DIAL_PROXIES = 64"

record dial_proxy_key =
  dp_source :: capture_key
  dp_target :: capture_key
  dp_endpoint :: socket_v4

record dial_entry =
  de_handler :: key
  de_desc_addr :: socket_v4
  de_desc_grace :: instant

type_synonym dial_context = "(dial_proxy_key, dial_entry) linear_map"

definition dial_new :: dial_context where "dial_new = lm_new"

definition dial_lookup :: "dial_context \<Rightarrow> dial_proxy_key \<Rightarrow> 'h reactor \<Rightarrow> instant \<Rightarrow> socket_v4 option \<times> dial_context" where
  "dial_lookup ctx k rx grace =
     (case lm_get ctx k of
        Some e \<Rightarrow>
          if rx_is_registered rx (de_handler e)
          then (Some (de_desc_addr e), lm_get_mut ctx k (\<lambda>e. e\<lparr>de_desc_grace := grace\<rparr>))
          else (None, fst (lm_remove ctx k))
      | None \<Rightarrow> (None, fst (lm_remove ctx k)))"

definition dial_has_capacity :: "dial_context \<Rightarrow> 'h reactor \<Rightarrow> bool \<times> dial_context" where
  "dial_has_capacity ctx rx =
     (let ctx = lm_retain (\<lambda>_ p. (rx_is_registered rx (de_handler p), p)) ctx
      in (lm_len ctx < MAX_DIAL_PROXIES, ctx))"

definition dial_insert :: "dial_context \<Rightarrow> dial_proxy_key \<Rightarrow> key \<Rightarrow> socket_v4 \<Rightarrow> instant \<Rightarrow> dial_context" where
  "dial_insert ctx k handler desc_addr grace =
     fst (lm_insert ctx k \<lparr>de_handler = handler, de_desc_addr = desc_addr, de_desc_grace = grace\<rparr>)"

definition next_grace :: "dial_context \<Rightarrow> instant option" where
  "next_grace ctx = min_instant (map (\<lambda>(_, p). de_desc_grace p) (lm_iter ctx))"

text \<open>The reactor changes along the walk, so the walk is written out.\<close>

fun evict_where ::
  "poller \<Rightarrow> (dial_proxy_key \<Rightarrow> dial_entry \<Rightarrow> bool) \<Rightarrow> 'h reactor \<Rightarrow> dial_context \<Rightarrow> 'h reactor \<times> dial_context" where
  "evict_where po evict rx [] = (rx, [])"
| "evict_where po evict rx ((k, p) # ps) =
     (if evict k p then evict_where po evict (snd (rx_unregister po rx (de_handler p))) ps
      else let keep = rx_is_registered rx (de_handler p); (rx, ps) = evict_where po evict rx ps
           in (rx, if keep then (k, p) # ps else ps))"

definition dial_sweep :: "poller \<Rightarrow> instant \<Rightarrow> 'h reactor \<Rightarrow> dial_context \<Rightarrow> 'h reactor \<times> dial_context" where
  "dial_sweep po now = evict_where po (\<lambda>_ p. de_desc_grace p \<le> now)"

definition evict_on_interface_change ::
  "poller \<Rightarrow> capture_key list \<Rightarrow> 'h reactor \<Rightarrow> dial_context \<Rightarrow> 'h reactor \<times> dial_context" where
  "evict_on_interface_change po changed =
     evict_where po (\<lambda>k _. dp_source k \<in> set changed \<or> dp_target k \<in> set changed)"

section \<open>Rewriting a location\<close>

definition DEFAULT_DESC_GRACE :: nat where "DEFAULT_DESC_GRACE = 30 * 60 * 1000000000"
definition MAX_DESC_GRACE :: nat where "MAX_DESC_GRACE = 2 * 60 * 60 * 1000000000"

datatype listener = Description | Rest

record proxy_placement =
  pp_source_capture :: capture_key
  pp_source :: ipv4
  pp_target_capture :: capture_key
  pp_target :: ipv4
  pp_target_iface :: "interface_name option"

record 'h dial_system =
  dw_poller :: poller
  dw_adopt :: "key \<Rightarrow> 'h \<Rightarrow> 'h"
  dw_host_addrs :: "(io_error, ipv4 list) result"
  dw_listen :: "'h reactor \<Rightarrow> listener \<Rightarrow> ipv4 \<Rightarrow> (io_error, nat \<times> socket_v4) result"
  dw_proxy :: "ipv4 \<Rightarrow> interface_name option \<Rightarrow> nat \<times> socket_v4 \<Rightarrow> socket_v4 \<Rightarrow> nat \<times> socket_v4 \<Rightarrow> 'h"

definition names_this_host :: "'h dial_system \<Rightarrow> socket_v4 \<Rightarrow> bool" where
  "names_this_host dw endpoint = (case dw_host_addrs dw of Inr addrs \<Rightarrow> fst endpoint \<in> set addrs | Inl _ \<Rightarrow> True)"

text \<open>\<open>None\<close> is a panic of the reactor's arena.\<close>

definition mint_proxy ::
  "'h dial_system \<Rightarrow> dial_context \<Rightarrow> 'h reactor \<Rightarrow> proxy_placement \<Rightarrow> dial_proxy_key \<Rightarrow> instant
   \<Rightarrow> (socket_v4 option \<times> dial_context \<times> 'h reactor) option" where
  "mint_proxy dw ctx rx placement k grace =
     (let (room, ctx) = dial_has_capacity ctx rx in
      if \<not> room then Some (None, ctx, rx)
      else if names_this_host dw (dp_endpoint k) then Some (None, ctx, rx)
      else case dw_listen dw rx Description (pp_source placement) of
          Inl _ \<Rightarrow> Some (None, ctx, rx)
        | Inr desc \<Rightarrow>
            (case dw_listen dw rx Rest (pp_source placement) of
               Inl _ \<Rightarrow> Some (None, ctx, rx)
             | Inr rest \<Rightarrow>
                 map_option (\<lambda>(r, rx).
                   case r of
                     Inl _ \<Rightarrow> (None, ctx, rx)
                   | Inr handler \<Rightarrow> (Some (snd desc), dial_insert ctx k handler (snd desc) grace, rx))
                 (rx_register_with_fds (dw_poller dw) (dw_adopt dw) rx
                   (dw_proxy dw (pp_target placement) (pp_target_iface placement) desc (dp_endpoint k) rest)
                   [(fst desc, 0), (fst rest, 0)])))"

text \<open>\<open>room\<close> is the capacity of the sink; \<open>Some (None, \<dots>)\<close> forwards the payload unchanged.\<close>

definition rewrite_location ::
  "'h dial_system \<Rightarrow> dial_context \<Rightarrow> 'h reactor \<Rightarrow> bytes \<Rightarrow> proxy_placement \<Rightarrow> nat \<Rightarrow> instant
   \<Rightarrow> (bytes option \<times> dial_context \<times> 'h reactor) option" where
  "rewrite_location dw ctx rx payload placement room now =
     (if \<not> is_dial_service_message payload then Some (None, ctx, rx)
      else case parse_dial_location_authority payload of
          None \<Rightarrow> Some (None, ctx, rx)
        | Some location \<Rightarrow>
            if is_never_a_peer (V4 (fst (au_endpoint location))) then Some (None, ctx, rx)
            else
              let max_age = (case parse_cache_control_max_age payload of
                    None \<Rightarrow> DEFAULT_DESC_GRACE
                  | Some seconds \<Rightarrow> min (seconds * 1000000000) MAX_DESC_GRACE);
                  grace = now + max_age;
                  k = \<lparr>dp_source = pp_source_capture placement, dp_target = pp_target_capture placement,
                       dp_endpoint = au_endpoint location\<rparr>
              in Option.bind
                   (case dial_lookup ctx k rx grace of
                      (Some addr, ctx) \<Rightarrow> Some (Some addr, ctx, rx)
                    | (None, ctx) \<Rightarrow> mint_proxy dw ctx rx placement k grace)
                   (\<lambda>(desc_addr, ctx, rx).
                      case desc_addr of
                        None \<Rightarrow> Some (None, ctx, rx)
                      | Some addr \<Rightarrow>
                          let out = take (au_offset location) payload @ socket_v4_display addr
                                @ drop (au_offset location + au_len location) payload
                          in Some (if length out \<le> room then Some out else None, ctx, rx)))"

section \<open>What the registry keeps\<close>

text \<open>
  Each device once, at most as many as the cap, each under a listener one can connect to, and no two served by one
  handler: the capacity check of a mint drops what the reactor no longer knows, so a key handed out anew
  is in no entry left.
\<close>

definition handlers_once :: "dial_context \<Rightarrow> bool" where
  "handlers_once ctx \<longleftrightarrow>
     (\<forall>k k' p p'. lm_get ctx k = Some p \<and> lm_get ctx k' = Some p' \<and> de_handler p = de_handler p' \<longrightarrow> k = k')"

definition dial_inv :: "dial_context \<Rightarrow> bool" where
  "dial_inv ctx \<longleftrightarrow> lm_inv ctx \<and> lm_len ctx \<le> MAX_DIAL_PROXIES \<and> (\<forall>k p. lm_get ctx k = Some p \<longrightarrow> snd (de_desc_addr p) \<noteq> 0)
     \<and> handlers_once ctx"

lemma dial_inv_subset:
  assumes "dial_inv ctx" "lm_inv ctx'" "\<And>k p. lm_get ctx' k = Some p \<Longrightarrow> lm_get ctx k = Some p" "lm_len ctx' \<le> lm_len ctx"
  shows "dial_inv ctx'"
  using assms unfolding dial_inv_def handlers_once_def by (meson le_trans)

lemma lm_get_iff: "lm_inv ctx \<Longrightarrow> lm_get ctx k = Some p \<longleftrightarrow> (k, p) \<in> set ctx"
  by (simp add: lm_get_map_of lm_inv_def)

lemma evict_where_facts:
  assumes "evict_where po evict rx ctx = (rx', ctx')" "rx_inv rx"
  shows "rx_inv rx' \<and> subseq ctx' ctx \<and> (\<forall>(k, p) \<in> set ctx'. \<not> evict k p)
    \<and> (\<forall>(k, p) \<in> set ctx. evict k p \<longrightarrow> \<not> rx_is_registered rx' (de_handler p))
    \<and> (\<forall>hk. rx_is_registered rx' hk \<longrightarrow> rx_is_registered rx hk)"
  using assms
proof (induction ctx arbitrary: rx rx' ctx')
  case (Cons kp ps)
  obtain k p where kp: "kp = (k, p)" by fastforce
  show ?case
  proof (cases "evict k p")
    case True
    obtain r rx1 where u: "rx_unregister po rx (de_handler p) = (r, rx1)" by fastforce
    have h: "arena_get (rx_handlers rx1) = (arena_get (rx_handlers rx))(de_handler p := None)" and inv: "rx_inv rx1"
      using rx_unregister_lookup(1) [OF Cons.prems(2) u] rx_unregister_inv [OF Cons.prems(2) u] .
    have "evict_where po evict rx1 ps = (rx', ctx')" using Cons.prems(1) kp True u by simp
    note ih = Cons.IH [OF this inv]
    have "rx_is_registered rx1 hk \<longleftrightarrow> hk \<noteq> de_handler p \<and> rx_is_registered rx hk" for hk
      by (simp add: rx_is_registered_def arena_contains_def h)
    with ih True kp show ?thesis by auto
  next
    case False
    obtain rx1 ps1 where r: "evict_where po evict rx ps = (rx1, ps1)" by fastforce
    then have "rx' = rx1" "ctx' = (if rx_is_registered rx (de_handler p) then (k, p) # ps1 else ps1)"
      using Cons.prems(1) kp False by simp_all
    with Cons.IH [OF r Cons.prems(2)] False kp show ?thesis by auto
  qed
qed simp

lemma handlers_distinct: "dial_inv ctx \<Longrightarrow> distinct (map (\<lambda>(k, p). de_handler p) ctx)"
proof -
  assume inv: "dial_inv ctx"
  then have lm: "lm_inv ctx" and once: "handlers_once ctx" by (simp_all add: dial_inv_def)
  have "inj_on (\<lambda>(k, p). de_handler p) (set ctx)"
  proof (rule inj_onI, clarify)
    fix k p k' p' assume "(k, p) \<in> set ctx" "(k', p') \<in> set ctx" "de_handler p = de_handler p'"
    then have get: "lm_get ctx k = Some p" "lm_get ctx k' = Some p'" by (simp_all add: lm_get_iff [OF lm])
    with once \<open>de_handler p = de_handler p'\<close> have "k = k'" unfolding handlers_once_def by blast
    with get show "k = k' \<and> p = p'" by simp
  qed
  moreover have "distinct ctx" using lm by (simp add: lm_inv_def distinct_map)
  ultimately show ?thesis by (simp add: distinct_map)
qed

text \<open>An eviction keeps exactly the live entries it was not asked to evict, and unregisters exactly the handlers of the others.\<close>

lemma evict_where_exact:
  assumes "evict_where po evict rx ctx = (rx', ctx')" "rx_inv rx" "distinct (map (\<lambda>(k, p). de_handler p) ctx)"
  shows "ctx' = filter (\<lambda>(k, p). \<not> evict k p \<and> rx_is_registered rx (de_handler p)) ctx
    \<and> (\<forall>h. rx_is_registered rx' h \<longleftrightarrow> rx_is_registered rx h \<and> \<not> list_ex (\<lambda>(k, p). evict k p \<and> de_handler p = h) ctx)"
  using assms
proof (induction ctx arbitrary: rx rx' ctx')
  case (Cons kp ps)
  obtain k p where kp: "kp = (k, p)" by fastforce
  have new: "\<forall>(k', p') \<in> set ps. de_handler p' \<noteq> de_handler p" using Cons.prems(3) kp by force
  show ?case
  proof (cases "evict k p")
    case True
    obtain r rx1 where u: "rx_unregister po rx (de_handler p) = (r, rx1)" by fastforce
    have h: "arena_get (rx_handlers rx1) = (arena_get (rx_handlers rx))(de_handler p := None)" and inv: "rx_inv rx1"
      using rx_unregister_lookup(1) [OF Cons.prems(2) u] rx_unregister_inv [OF Cons.prems(2) u] .
    have reg: "rx_is_registered rx1 hk \<longleftrightarrow> hk \<noteq> de_handler p \<and> rx_is_registered rx hk" for hk
      by (simp add: rx_is_registered_def arena_contains_def h)
    have "evict_where po evict rx1 ps = (rx', ctx')" using Cons.prems(1) kp True u by simp
    note ih = Cons.IH [OF this inv]
    have "filter (\<lambda>(k, p). \<not> evict k p \<and> rx_is_registered rx1 (de_handler p)) ps
        = filter (\<lambda>(k, p). \<not> evict k p \<and> rx_is_registered rx (de_handler p)) ps"
      using new by (intro filter_cong) (auto simp: reg)
    with ih True kp Cons.prems(3) reg show ?thesis by auto
  next
    case False
    obtain rx1 ps1 where r: "evict_where po evict rx ps = (rx1, ps1)" by fastforce
    then have "rx' = rx1" "ctx' = (if rx_is_registered rx (de_handler p) then (k, p) # ps1 else ps1)"
      using Cons.prems(1) kp False by simp_all
    with Cons.IH [OF r Cons.prems(2)] Cons.prems(3) False kp show ?thesis by auto
  qed
qed simp

lemma evict_where_inv:
  assumes "evict_where po evict rx ctx = (rx', ctx')" "rx_inv rx" "dial_inv ctx"
  shows "dial_inv ctx'"
proof -
  have sub: "subseq ctx' ctx" using evict_where_facts [OF assms(1,2)] by blast
  then have "subseq (map fst ctx') (map fst ctx)" by (rule subseq_map)
  then have inv: "lm_inv ctx'" using assms(3) by (auto simp: subseq_conv_nths dial_inv_def lm_inv_def intro: distinct_nthsI)
  show ?thesis
  proof (rule dial_inv_subset [OF assms(3) inv])
    have "set ctx' \<subseteq> set ctx" using sub set_nths_subset by (fastforce simp: subseq_conv_nths)
    then show "lm_get ctx' k = Some p \<Longrightarrow> lm_get ctx k = Some p" for k p
      using lm_get_iff [OF inv, of k p] lm_get_iff [of ctx k p] assms(3) by (auto simp: dial_inv_def)
    show "lm_len ctx' \<le> lm_len ctx" using sub not_subseq_length by (auto simp: lm_len_def not_less [symmetric])
  qed
qed

lemma dial_inv_remove: "dial_inv ctx \<Longrightarrow> dial_inv (fst (lm_remove ctx k))"
  by (rule dial_inv_subset)
     (auto simp: dial_inv_def lm.invar_del lm.lookup_del lm.count_del_le split: if_splits)

lemma dial_lookup_facts:
  assumes "dial_lookup ctx k rx grace = (r, ctx')" "dial_inv ctx"
  shows "dial_inv ctx' \<and> (\<forall>a. r = Some a \<longrightarrow> (\<exists>e. lm_get ctx' k = Some e \<and> de_desc_addr e = a \<and> de_desc_grace e = grace
    \<and> rx_is_registered rx (de_handler e)))"
proof (cases "\<exists>e. lm_get ctx k = Some e \<and> rx_is_registered rx (de_handler e)")
  case True
  then obtain e where e: "lm_get ctx k = Some e" "rx_is_registered rx (de_handler e)" by blast
  have "dial_inv (lm_get_mut ctx k (\<lambda>e. e\<lparr>de_desc_grace := grace\<rparr>))"
    using assms(2) by (auto simp: dial_inv_def handlers_once_def lm.invar_edit lm.count_edit lm.lookup_edit split: if_splits)
  with e assms(1) show ?thesis by (auto simp: dial_lookup_def lm.lookup_edit)
next
  case False
  then have "r = None" "ctx' = fst (lm_remove ctx k)" using assms(1) by (auto simp: dial_lookup_def split: option.splits if_splits)
  with dial_inv_remove [OF assms(2)] show ?thesis by simp
qed

lemma dial_capacity_facts:
  assumes "dial_has_capacity ctx rx = (room, ctx')" "dial_inv ctx"
  shows "dial_inv ctx' \<and> (room \<longrightarrow> lm_len ctx' < MAX_DIAL_PROXIES)
    \<and> (\<forall>k p. lm_get ctx' k = Some p \<longrightarrow> lm_get ctx k = Some p \<and> rx_is_registered rx (de_handler p))"
proof -
  let ?keep = "\<lambda>k p. rx_is_registered rx (de_handler p)"
  have ctx': "ctx' = lm_retain (\<lambda>k p. (?keep k p, p)) ctx" "room \<longleftrightarrow> lm_len ctx' < MAX_DIAL_PROXIES"
    using assms(1) by (auto simp: dial_has_capacity_def Let_def)
  have "dial_inv ctx'"
    by (rule dial_inv_subset [OF assms(2)])
       (use assms(2) in \<open>auto simp: ctx'(1) dial_inv_def lm_get_retain intro: lm_retain_inv lm_retain_len split: if_splits option.splits\<close>)
  moreover have "lm_get ctx k = Some p \<and> rx_is_registered rx (de_handler p)" if "lm_get ctx' k = Some p" for k p
    using that assms(2) by (auto simp: ctx'(1) dial_inv_def lm_get_retain split: if_splits option.splits)
  ultimately show ?thesis using ctx'(2) by simp
qed

lemma dial_insert_inv:
  assumes "dial_inv ctx" "lm_len ctx < MAX_DIAL_PROXIES" "snd addr \<noteq> 0" "\<And>k p. lm_get ctx k = Some p \<Longrightarrow> de_handler p \<noteq> h"
  shows "dial_inv (dial_insert ctx k h addr grace)"
proof -
  have "handlers_once (dial_insert ctx k h addr grace)"
    using assms(1,4) unfolding handlers_once_def dial_inv_def dial_insert_def by (auto simp: lm.lookup_put split: if_splits)
  then show ?thesis using assms(1-3) by (auto simp: dial_inv_def dial_insert_def lm.invar_put lm.count_put lm.lookup_put split: if_splits)
qed

text \<open>A bound listener has a port.\<close>

definition binds_ports :: "'h dial_system \<Rightarrow> bool" where
  "binds_ports dw \<longleftrightarrow> (\<forall>rx what ip fd addr. dw_listen dw rx what ip = Inr (fd, addr) \<longrightarrow> snd addr \<noteq> 0)"

lemma rx_watch_registered:
  assumes "rx_watch po rx hk fd data = Some (r, rx')"
  shows "rx_is_registered rx' k = rx_is_registered rx k"
  using assms by (auto simp: rx_watch_def rx_is_registered_def arena_contains_def arena_get_mut_lookup split: option.splits if_splits prod.splits)

lemma watch_all_facts:
  assumes "watch_all po rx hk fds = Some (r, rx')" "rx_run rx"
  shows "rx_run rx' \<and> (r = Inr () \<longrightarrow> rx_is_registered rx' hk = rx_is_registered rx hk)"
  using assms
proof (induction fds arbitrary: rx)
  case (Cons f fds)
  obtain fd data where f: "f = (fd, data)" by fastforce
  with Cons.prems(1) obtain r1 rx1 where w: "rx_watch po rx hk fd data = Some (r1, rx1)"
    by (cases "rx_watch po rx hk fd data") auto
  have run: "rx_run rx1" by (rule rx_run.watch [OF Cons.prems(2) w])
  show ?case
  proof (cases r1)
    case (Inl e)
    then show ?thesis using Cons.prems(1) f w rx_run.unregister [OF run, of po hk] by auto
  next
    case (Inr rk)
    then have "watch_all po rx1 hk fds = Some (r, rx')" using Cons.prems(1) f w by simp
    from Cons.IH [OF this run] rx_watch_registered [OF w] show ?thesis by simp
  qed
qed simp

lemma register_with_fds_facts:
  assumes "rx_register_with_fds po adopt rx h fds = Some (r, rx')" "rx_run rx"
  shows "rx_run rx' \<and> (\<forall>hk. r = Inr hk \<longrightarrow> rx_is_registered rx' hk \<and> \<not> rx_is_registered rx hk)"
proof -
  obtain hk rx1 where reg: "rx_register adopt rx h = Some (hk, rx1)"
    using assms(1) by (cases "rx_register adopt rx h") (auto simp: rx_register_with_fds_def)
  then obtain r1 where w: "watch_all po rx1 hk fds = Some (r1, rx')" "r = (case r1 of Inl e \<Rightarrow> Inl e | Inr _ \<Rightarrow> Inr hk)"
    using assms(1) by (auto simp: rx_register_with_fds_def)
  have run: "rx_run rx1" by (rule rx_run.register [OF assms(2) reg])
  have "rx_is_registered rx1 hk"
    using reg arena_insert_lookup(2) [OF rx_invD(1) [OF rx_run_inv [OF assms(2)]]]
    by (fastforce simp: rx_register_def rx_is_registered_def arena_contains_def)
  moreover have "\<not> rx_is_registered rx hk"
    using reg arena_insert_lookup(1) [OF rx_invD(1) [OF rx_run_inv [OF assms(2)]]]
    by (fastforce simp: rx_register_def rx_is_registered_def arena_contains_def)
  ultimately show ?thesis using watch_all_facts [OF w(1) run] w(2) by (auto split: sum.splits)
qed

text \<open>
  Where an entry comes from: a description listener and a REST listener were bound for its pair of interfaces, and its
  handler is the key the reactor gave the proxy of its device on those two listeners, watched on both; its address is
  that of the description listener.
\<close>

definition minted :: "'h dial_system \<Rightarrow> dial_proxy_key \<Rightarrow> dial_entry \<Rightarrow> bool" where
  "minted dw k e \<longleftrightarrow>
     (\<exists>rx0 rx1 (placement :: proxy_placement) fd rest. rx_run rx0
       \<and> pp_source_capture placement = dp_source k \<and> pp_target_capture placement = dp_target k
       \<and> dw_listen dw rx0 Description (pp_source placement) = Inr (fd, de_desc_addr e)
       \<and> dw_listen dw rx0 Rest (pp_source placement) = Inr rest
       \<and> rx_register_with_fds (dw_poller dw) (dw_adopt dw) rx0
           (dw_proxy dw (pp_target placement) (pp_target_iface placement) (fd, de_desc_addr e) (dp_endpoint k) rest)
           [(fd, 0), (fst rest, 0)] = Some (Inr (de_handler e), rx1))"

definition all_minted :: "'h dial_system \<Rightarrow> dial_context \<Rightarrow> bool" where
  "all_minted dw ctx \<longleftrightarrow> (\<forall>k e. lm_get ctx k = Some e \<longrightarrow> minted dw k e)"

lemma minted_grace: "minted dw k (e\<lparr>de_desc_grace := g\<rparr>) = minted dw k e"
  by (simp add: minted_def)

lemma all_minted_subset: "all_minted dw ctx \<Longrightarrow> (\<And>k e. lm_get ctx' k = Some e \<Longrightarrow> lm_get ctx k = Some e) \<Longrightarrow> all_minted dw ctx'"
  by (auto simp: all_minted_def)

lemma dial_lookup_minted:
  assumes "dial_lookup ctx k rx grace = (r, ctx')" "dial_inv ctx" "all_minted dw ctx"
  shows "all_minted dw ctx'"
  using assms dial_inv_def [of ctx]
  by (auto simp: dial_lookup_def all_minted_def lm.lookup_edit lm.lookup_del minted_grace split: option.splits if_splits)

lemma mint_proxy_facts:
  assumes "mint_proxy dw ctx rx placement k grace = Some (r, ctx', rx')" "dial_inv ctx" "rx_run rx" "binds_ports dw"
    and "all_minted dw ctx" "pp_source_capture placement = dp_source k" "pp_target_capture placement = dp_target k"
  shows "dial_inv ctx' \<and> rx_run rx' \<and> all_minted dw ctx' \<and> (\<forall>a. r = Some a \<longrightarrow> (\<exists>e. lm_get ctx' k = Some e \<and> de_desc_addr e = a
    \<and> de_desc_grace e = grace \<and> rx_is_registered rx' (de_handler e)))"
proof -
  obtain room c where cap: "dial_has_capacity ctx rx = (room, c)" by fastforce
  note c = dial_capacity_facts [OF cap assms(2)]
  show ?thesis
  proof (cases "\<exists>desc rest. room \<and> \<not> names_this_host dw (dp_endpoint k) \<and> dw_listen dw rx Description (pp_source placement) = Inr desc
      \<and> dw_listen dw rx Rest (pp_source placement) = Inr rest")
    case True
    then obtain desc rest where l: "room" "\<not> names_this_host dw (dp_endpoint k)"
      "dw_listen dw rx Description (pp_source placement) = Inr desc" "dw_listen dw rx Rest (pp_source placement) = Inr rest" by blast
    let ?p = "dw_proxy dw (pp_target placement) (pp_target_iface placement) desc (dp_endpoint k) rest"
    obtain r1 where reg: "rx_register_with_fds (dw_poller dw) (dw_adopt dw) rx ?p [(fst desc, 0), (fst rest, 0)] = Some (r1, rx')"
      and res: "(r, ctx') = (case r1 of Inl _ \<Rightarrow> (None, c) | Inr h \<Rightarrow> (Some (snd desc), dial_insert c k h (snd desc) grace))"
      using assms(1) cap l by (fastforce simp: mint_proxy_def split: sum.splits)
    note f = register_with_fds_facts [OF reg assms(3)]
    have "snd (snd desc) \<noteq> 0" using assms(4) l(3) unfolding binds_ports_def by (metis prod.collapse)
    have old: "all_minted dw c" using all_minted_subset [OF assms(5)] c by blast
    show ?thesis
    proof (cases r1)
      case (Inl e)
      with res f c old show ?thesis by simp
    next
      case (Inr h)
      let ?e = "\<lparr>de_handler = h, de_desc_addr = snd desc, de_desc_grace = grace\<rparr>"
      have r: "r = Some (snd desc)" "ctx' = dial_insert c k h (snd desc) grace" using res Inr by simp_all
      have "dial_inv ctx'" unfolding r(2)
        by (rule dial_insert_inv) (use f c l(1) Inr \<open>snd (snd desc) \<noteq> 0\<close> in auto)
      moreover have "minted dw k ?e"
        unfolding minted_def using assms(3,6,7) l(3,4) reg Inr
        by (intro exI [of _ rx] exI [of _ rx'] exI [of _ placement] exI [of _ "fst desc"] exI [of _ rest]) simp
      moreover have "lm_get ctx' k' = (if k' = k then Some ?e else lm_get c k')" for k'
        unfolding r(2) by (simp add: dial_insert_def lm.lookup_put)
      ultimately show ?thesis using f Inr r(1) old by (auto simp: all_minted_def)
    qed
  next
    case False
    then have "r = None" "ctx' = c" "rx' = rx"
      using assms(1) cap by (auto simp: mint_proxy_def split: sum.splits if_splits)
    with c assms(3) all_minted_subset [OF assms(5)] show ?thesis by auto
  qed
qed

text \<open>The time an advertisement keeps its proxy for.\<close>

definition announced_age :: "bytes \<Rightarrow> nat" where
  "announced_age payload =
     (case parse_cache_control_max_age payload of None \<Rightarrow> 30 * 60 * 10 ^ 9 | Some seconds \<Rightarrow> min (seconds * 10 ^ 9) (2 * 60 * 60 * 10 ^ 9))"

lemma rewrite_location_facts:
  assumes rw: "rewrite_location dw ctx rx payload placement room now = Some (r, ctx', rx')"
    and inv: "dial_inv ctx" and run: "rx_run rx" and ports: "binds_ports dw" and old: "all_minted dw ctx"
  shows "dial_inv ctx' \<and> rx_run rx' \<and> all_minted dw ctx' \<and> (\<forall>out. r = Some out \<longrightarrow> (\<exists>loc loc' e.
      parse_dial_location_authority payload = Some loc \<and> parse_dial_location_authority out = Some loc'
      \<and> lm_get ctx' \<lparr>dp_source = pp_source_capture placement, dp_target = pp_target_capture placement, dp_endpoint = au_endpoint loc\<rparr> = Some e
      \<and> out = take (au_offset loc) payload @ socket_v4_display (de_desc_addr e) @ drop (au_offset loc + au_len loc) payload
      \<and> au_endpoint loc' = de_desc_addr e \<and> rx_is_registered rx' (de_handler e)
      \<and> de_desc_grace e = now + announced_age payload \<and> length out \<le> room))"
proof (cases "\<exists>loc. is_dial_service_message payload \<and> parse_dial_location_authority payload = Some loc
    \<and> \<not> is_never_a_peer (V4 (fst (au_endpoint loc)))")
  case False
  then have "r = None" "ctx' = ctx" "rx' = rx" using rw by (auto simp: rewrite_location_def split: if_splits option.splits)
  with inv run old show ?thesis by simp
next
  case True
  then obtain loc where loc: "is_dial_service_message payload" "parse_dial_location_authority payload = Some loc"
    "\<not> is_never_a_peer (V4 (fst (au_endpoint loc)))" by blast
  define age where "age = (case parse_cache_control_max_age payload of None \<Rightarrow> DEFAULT_DESC_GRACE
    | Some seconds \<Rightarrow> min (seconds * 1000000000) MAX_DESC_GRACE)"
  have age: "age = announced_age payload"
    by (simp add: age_def announced_age_def DEFAULT_DESC_GRACE_def MAX_DESC_GRACE_def split: option.splits)
  let ?k = "\<lparr>dp_source = pp_source_capture placement, dp_target = pp_target_capture placement, dp_endpoint = au_endpoint loc\<rparr>"
  let ?found = "case dial_lookup ctx ?k rx (now + age) of
      (Some addr, ctx) \<Rightarrow> Some (Some addr, ctx, rx) | (None, ctx) \<Rightarrow> mint_proxy dw ctx rx placement ?k (now + age)"
  obtain l c where look: "dial_lookup ctx ?k rx (now + age) = (l, c)" by fastforce
  note lf = dial_lookup_facts [OF look inv] and lm = dial_lookup_minted [OF look inv old]
  obtain a where found: "?found = Some (a, ctx', rx')"
    and r: "r = (case a of None \<Rightarrow> None | Some addr \<Rightarrow>
        let out = take (au_offset loc) payload @ socket_v4_display addr @ drop (au_offset loc + au_len loc) payload
        in if length out \<le> room then Some out else None)"
    using rw loc unfolding rewrite_location_def age_def [symmetric]
    by (cases ?found) (auto simp: Let_def age_def split: option.splits prod.splits)
  have f: "dial_inv ctx' \<and> rx_run rx' \<and> all_minted dw ctx' \<and> (\<forall>addr. a = Some addr \<longrightarrow> (\<exists>e. lm_get ctx' ?k = Some e \<and> de_desc_addr e = addr
    \<and> de_desc_grace e = now + age \<and> rx_is_registered rx' (de_handler e)))"
  proof (cases l)
    case None
    then have "mint_proxy dw c rx placement ?k (now + age) = Some (a, ctx', rx')" using found look by simp
    from mint_proxy_facts [OF this _ run ports lm] lf show ?thesis by simp
  next
    case (Some addr)
    with found look lf lm run show ?thesis by auto
  qed
  show ?thesis
  proof (intro conjI allI impI)
    fix out assume "r = Some out"
    then obtain addr where a: "a = Some addr" "out = take (au_offset loc) payload @ socket_v4_display addr @ drop (au_offset loc + au_len loc) payload"
      "length out \<le> room" using r by (auto simp: Let_def split: option.splits if_splits)
    then obtain e where e: "lm_get ctx' ?k = Some e" "de_desc_addr e = addr" "de_desc_grace e = now + age"
      "rx_is_registered rx' (de_handler e)" using f by blast
    then have "snd addr \<noteq> 0" using f by (auto simp: dial_inv_def)
    from location_splice [OF loc(2) this] a(2) obtain loc' where "parse_dial_location_authority out = Some loc'" "au_endpoint loc' = addr" by blast
    with loc(2) e a(2,3) age show "\<exists>loc loc' e. parse_dial_location_authority payload = Some loc \<and> parse_dial_location_authority out = Some loc'
      \<and> lm_get ctx' \<lparr>dp_source = pp_source_capture placement, dp_target = pp_target_capture placement, dp_endpoint = au_endpoint loc\<rparr> = Some e
      \<and> out = take (au_offset loc) payload @ socket_v4_display (de_desc_addr e) @ drop (au_offset loc + au_len loc) payload
      \<and> au_endpoint loc' = de_desc_addr e \<and> rx_is_registered rx' (de_handler e)
      \<and> de_desc_grace e = now + announced_age payload \<and> length out \<le> room" by auto
  qed (use f in simp_all)
qed

text \<open>The registry and the reactor over time.\<close>

inductive dial_run :: "'h dial_system \<Rightarrow> dial_context \<Rightarrow> 'h reactor \<Rightarrow> bool" for dw where
  start: "dial_run dw dial_new reactor_new"
| rewrite: "dial_run dw ctx rx \<Longrightarrow> rewrite_location dw ctx rx payload placement room now = Some (r, ctx', rx') \<Longrightarrow> dial_run dw ctx' rx'"
| evict: "dial_run dw ctx rx \<Longrightarrow> evict_where (dw_poller dw) which rx ctx = (rx', ctx') \<Longrightarrow> dial_run dw ctx' rx'"
| reactor: "dial_run dw ctx rx \<Longrightarrow> rx_run rx' \<Longrightarrow> dial_run dw ctx rx'"

lemma evict_where_run: "evict_where po which rx ctx = (rx', ctx') \<Longrightarrow> rx_run rx \<Longrightarrow> rx_run rx'"
proof (induction ctx arbitrary: rx rx' ctx')
  case (Cons kp ps)
  obtain k p where kp: "kp = (k, p)" by fastforce
  obtain rx1 ps1 where r: "evict_where po which rx ps = (rx1, ps1)" by fastforce
  show ?case
    using Cons.prems kp r Cons.IH [of "snd (rx_unregister po rx (de_handler p))" rx' ctx'] Cons.IH [OF r]
    by (cases "which k p") (auto intro: rx_run.unregister)
qed simp

lemma evict_where_minted:
  assumes "evict_where po which rx ctx = (rx', ctx')" "rx_inv rx" "dial_inv ctx" "all_minted dw ctx"
  shows "all_minted dw ctx'"
proof (rule all_minted_subset [OF assms(4)])
  have "ctx' = filter (\<lambda>(k, p). \<not> which k p \<and> rx_is_registered rx (de_handler p)) ctx"
    using evict_where_exact [OF assms(1,2) handlers_distinct [OF assms(3)]] by blast
  then have "set ctx' \<subseteq> set ctx" by auto
  moreover have "lm_inv ctx'" "lm_inv ctx" using evict_where_inv [OF assms(1-3)] assms(3) by (simp_all add: dial_inv_def)
  ultimately show "lm_get ctx' k = Some e \<Longrightarrow> lm_get ctx k = Some e" for k e by (auto simp: lm_get_iff)
qed

lemma dial_run_inv: "dial_run dw ctx rx \<Longrightarrow> binds_ports dw \<Longrightarrow> dial_inv ctx \<and> rx_run rx \<and> all_minted dw ctx"
proof (induction rule: dial_run.induct)
  case start
  show ?case
    by (simp add: dial_inv_def handlers_once_def all_minted_def dial_new_def lm.invar_empty lm.lookup_empty lm.count_empty rx_run.start)
next
  case (rewrite ctx rx payload placement room now r ctx' rx')
  then show ?case using rewrite_location_facts [OF rewrite.hyps(2)] by blast
next
  case (evict ctx rx which rx' ctx')
  then show ?case
    using evict_where_inv [OF evict.hyps(2)] evict_where_run [OF evict.hyps(2)] evict_where_minted [OF evict.hyps(2)] rx_run_inv by blast
qed simp

section \<open>Properties\<close>

text \<open>C39. A rewritten advertisement leads to a live proxy. Over any life of the registry, when a device's
  message is rewritten only the authority of its \<^verbatim>\<open>LOCATION\<close> changes, and that names in the device's place the
  description listener of the proxy recorded for that device and that pair of interfaces: the listener was bound
  on the source side, the proxy was built on it for the device's endpoint and registered with the reactor under the
  recorded key, watching it (\<open>minted\<close>), and that key is still registered. The proxy is kept for the time the
  device announced, at most two hours, or for thirty minutes when it announced none.\<close>

theorem rewritten_location_is_served:
  assumes "dial_run dw ctx rx" and "binds_ports dw"
    and "rewrite_location dw ctx rx payload placement room now = Some (Some out, ctx', rx')"
  shows "\<exists>loc loc' k e. parse_dial_location_authority payload = Some loc \<and> parse_dial_location_authority out = Some loc'
    \<and> k = \<lparr>dp_source = pp_source_capture placement, dp_target = pp_target_capture placement, dp_endpoint = au_endpoint loc\<rparr>
    \<and> lm_get ctx' k = Some e \<and> minted dw k e
    \<and> out = take (au_offset loc) payload @ socket_v4_display (de_desc_addr e) @ drop (au_offset loc + au_len loc) payload
    \<and> au_endpoint loc' = de_desc_addr e \<and> rx_is_registered rx' (de_handler e)
    \<and> de_desc_grace e = now + announced_age payload \<and> length out \<le> room"
proof -
  note run = dial_run_inv [OF assms(1,2)]
  note facts = rewrite_location_facts [OF assms(3) _ _ assms(2)]
  have "all_minted dw ctx'" using run facts by blast
  moreover obtain loc loc' e where "parse_dial_location_authority payload = Some loc" "parse_dial_location_authority out = Some loc'"
      "lm_get ctx' \<lparr>dp_source = pp_source_capture placement, dp_target = pp_target_capture placement, dp_endpoint = au_endpoint loc\<rparr> = Some e"
      "out = take (au_offset loc) payload @ socket_v4_display (de_desc_addr e) @ drop (au_offset loc + au_len loc) payload"
      "au_endpoint loc' = de_desc_addr e" "rx_is_registered rx' (de_handler e)"
      "de_desc_grace e = now + announced_age payload" "length out \<le> room"
    using run facts by blast
  ultimately show ?thesis unfolding all_minted_def by blast
qed

text \<open>C40. The registry is bounded and lets go of exactly what it should. Over any life of it there are at most 64
  proxies, one per device and pair of interfaces, no two under one handler. A sweep keeps, in their order, exactly the
  proxies whose grace is not over and which the reactor still knows, and of the handlers of the reactor it
  unregisters exactly those of the proxies past their grace; an interface change does the same for the proxies
  on a changed interface, whichever side of the proxy it is.\<close>

theorem dial_registry_bounded:
  assumes "dial_run dw ctx rx" and "binds_ports dw"
    and "dial_sweep po now rx ctx = (rx1, ctx1)" and "evict_on_interface_change po changed rx ctx = (rx2, ctx2)"
  shows "lm_len ctx \<le> MAX_DIAL_PROXIES \<and> distinct (map fst ctx) \<and> distinct (map (\<lambda>(k, p). de_handler p) ctx)
    \<and> ctx1 = filter (\<lambda>(k, p). now < de_desc_grace p \<and> rx_is_registered rx (de_handler p)) ctx
    \<and> (\<forall>h. rx_is_registered rx1 h \<longleftrightarrow>
        rx_is_registered rx h \<and> \<not> list_ex (\<lambda>(k, p). de_desc_grace p \<le> now \<and> de_handler p = h) ctx)
    \<and> ctx2 = filter (\<lambda>(k, p). \<not> (dp_source k \<in> set changed \<or> dp_target k \<in> set changed) \<and> rx_is_registered rx (de_handler p)) ctx
    \<and> (\<forall>h. rx_is_registered rx2 h \<longleftrightarrow>
        rx_is_registered rx h \<and> \<not> list_ex (\<lambda>(k, p). (dp_source k \<in> set changed \<or> dp_target k \<in> set changed) \<and> de_handler p = h) ctx)"
proof -
  note run = dial_run_inv [OF assms(1,2)]
  have inv: "rx_inv rx" and once: "distinct (map (\<lambda>(k, p). de_handler p) ctx)" using run rx_run_inv handlers_distinct by blast+
  note s = evict_where_exact [OF assms(3) [unfolded dial_sweep_def] inv once]
    and c = evict_where_exact [OF assms(4) [unfolded evict_on_interface_change_def] inv once]
  have "lm_len ctx \<le> MAX_DIAL_PROXIES" "distinct (map fst ctx)" using run by (simp_all add: dial_inv_def lm_inv_def)
  with once s c show ?thesis by (simp add: not_le)
qed

text \<open>A device advertised from one interface, and the time after its grace.\<close>

definition sample_dial_system :: "unit dial_system" where
  "sample_dial_system = \<lparr>dw_poller = \<lparr>po_add = (\<lambda>_ _. None), po_remove = (\<lambda>_. None), po_set_interest = (\<lambda>_ _ _ _. None)\<rparr>,
     dw_adopt = (\<lambda>_ h. h), dw_host_addrs = Inr [0x0a000001],
     dw_listen = (\<lambda>_ what ip. Inr (case what of Description \<Rightarrow> (11, (ip, 40001)) | Rest \<Rightarrow> (12, (ip, 40002)))),
     dw_proxy = (\<lambda>_ _ _ _ _. ())\<rparr>"

definition sample_advert :: bytes where
  "sample_advert = (bstr ''NOTIFY * HTTP/1.1'' @ [13, 10] @ bstr ''NT: '') @ DIAL_SERVICE_TYPE @ bstr '':1'' @ [13, 10]
     @ bstr ''LOCATION: http://10.0.0.5:8008/dd.xml'' @ [13, 10] @ bstr ''CACHE-CONTROL: max-age=60'' @ [13, 10]"

definition sample_placement :: proxy_placement where
  "sample_placement = \<lparr>pp_source_capture = 0, pp_source = 0x0a000001, pp_target_capture = 1, pp_target = 0x0a000002, pp_target_iface = None\<rparr>"

definition sample_device :: dial_proxy_key where
  "sample_device = \<lparr>dp_source = 0, dp_target = 1, dp_endpoint = (0x0a000005, 8008)\<rparr>"

definition sample_ctx :: dial_context where
  "sample_ctx = fst (snd (the (mint_proxy sample_dial_system dial_new reactor_new sample_placement sample_device 60000000005)))"

definition sample_rx :: "unit reactor" where
  "sample_rx = snd (snd (the (mint_proxy sample_dial_system dial_new reactor_new sample_placement sample_device 60000000005)))"

definition sample_rewritten :: bytes where
  "sample_rewritten = take 81 sample_advert @ socket_v4_display (0x0a000001, 40001) @ drop (81 + 13) sample_advert"

lemma contains_infix: "contains_ignore_ascii_case (pre @ needle @ post) needle"
proof (induction pre)
  case Nil
  show ?case by (cases needle; cases post) (simp_all add: eq_ignore_ascii_case_def)
qed simp

lemma sample_ports: "binds_ports sample_dial_system"
  by (auto simp: binds_ports_def sample_dial_system_def split: listener.splits)

lemma sample_mint:
  "mint_proxy sample_dial_system dial_new reactor_new sample_placement sample_device 60000000005
    = Some (Some (0x0a000001, 40001), sample_ctx, sample_rx)"
  by code_simp

lemma sample_location:
  "parse_dial_location_authority sample_advert = Some \<lparr>au_endpoint = (0x0a000005, 8008), au_offset = 81, au_len = 13\<rparr>"
  by code_simp

lemma sample_max_age: "parse_cache_control_max_age sample_advert = Some 60"
  by code_simp

lemma sample_fits: "length sample_rewritten \<le> 500"
  by code_simp

lemma sample_rewrite:
  "rewrite_location sample_dial_system dial_new reactor_new sample_advert sample_placement 500 5
    = Some (Some sample_rewritten, sample_ctx, sample_rx)"
proof -
  have "is_dial_service_message sample_advert"
    unfolding is_dial_service_message_def sample_advert_def by (rule contains_infix)
  moreover have "\<not> is_never_a_peer (V4 0x0a000005)" "min 60000000000 MAX_DESC_GRACE = 60000000000" by code_simp+
  moreover have "dial_lookup dial_new sample_device (reactor_new :: unit reactor) 60000000005 = (None, dial_new)" by code_simp
  moreover have "\<lparr>dp_source = pp_source_capture sample_placement, dp_target = pp_target_capture sample_placement,
      dp_endpoint = (0x0a000005, 8008)\<rparr> = sample_device" by (simp add: sample_device_def sample_placement_def)
  ultimately show ?thesis
    using sample_fits
    by (simp add: rewrite_location_def sample_location sample_max_age sample_mint sample_rewritten_def)
qed

lemma rewritten_location_is_served_witness:
  "\<exists>loc' e. parse_dial_location_authority sample_rewritten = Some loc' \<and> lm_get sample_ctx sample_device = Some e
    \<and> minted sample_dial_system sample_device e
    \<and> au_endpoint loc' = de_desc_addr e \<and> rx_is_registered sample_rx (de_handler e) \<and> de_desc_grace e = 5 + 60 * 10 ^ 9"
proof -
  have "announced_age sample_advert = 60 * 10 ^ 9" by (simp add: announced_age_def sample_max_age)
  moreover have "\<lparr>dp_source = pp_source_capture sample_placement, dp_target = pp_target_capture sample_placement,
      dp_endpoint = (0x0a000005, 8008)\<rparr> = sample_device" by (simp add: sample_device_def sample_placement_def)
  ultimately show ?thesis
    using rewritten_location_is_served [OF dial_run.start sample_ports sample_rewrite] sample_location by auto
qed

text \<open>Before its grace is over the proxy stays, and a change of another interface leaves it.\<close>

lemma dial_registry_bounded_witness:
  "lm_len sample_ctx = 1
    \<and> snd (dial_sweep (dw_poller sample_dial_system) 60000000004 sample_rx sample_ctx) = sample_ctx
    \<and> snd (dial_sweep (dw_poller sample_dial_system) 60000000005 sample_rx sample_ctx) = []
    \<and> snd (evict_on_interface_change (dw_poller sample_dial_system) [2] sample_rx sample_ctx) = sample_ctx
    \<and> snd (evict_on_interface_change (dw_poller sample_dial_system) [1] sample_rx sample_ctx) = []"
proof -
  have run: "dial_run sample_dial_system sample_ctx sample_rx" by (rule dial_run.rewrite [OF dial_run.start sample_rewrite])
  let ?po = "dw_poller sample_dial_system"
  have exact: "snd (dial_sweep ?po t sample_rx sample_ctx)
      = filter (\<lambda>(k, p). t < de_desc_grace p \<and> rx_is_registered sample_rx (de_handler p)) sample_ctx
    \<and> snd (evict_on_interface_change ?po ch sample_rx sample_ctx)
      = filter (\<lambda>(k, p). \<not> (dp_source k \<in> set ch \<or> dp_target k \<in> set ch) \<and> rx_is_registered sample_rx (de_handler p)) sample_ctx" for t ch
    using dial_registry_bounded [OF run sample_ports, of ?po t "fst (dial_sweep ?po t sample_rx sample_ctx)" "snd (dial_sweep ?po t sample_rx sample_ctx)"
        ch "fst (evict_on_interface_change ?po ch sample_rx sample_ctx)" "snd (evict_on_interface_change ?po ch sample_rx sample_ctx)"]
    by simp
  have "lm_len sample_ctx = 1" by code_simp
  moreover have "filter (\<lambda>(k, p). 60000000004 < de_desc_grace p \<and> rx_is_registered sample_rx (de_handler p)) sample_ctx = sample_ctx"
    "filter (\<lambda>(k, p). 60000000005 < de_desc_grace p \<and> rx_is_registered sample_rx (de_handler p)) sample_ctx = []"
    "filter (\<lambda>(k, p). \<not> (dp_source k \<in> set [2] \<or> dp_target k \<in> set [2]) \<and> rx_is_registered sample_rx (de_handler p)) sample_ctx = sample_ctx"
    "filter (\<lambda>(k, p). \<not> (dp_source k \<in> set [1] \<or> dp_target k \<in> set [1]) \<and> rx_is_registered sample_rx (de_handler p)) sample_ctx = []"
    by code_simp+
  ultimately show ?thesis using exact by metis
qed

end
