(* ===== verification/Lifecycle.thy ===== *)
theory Lifecycle
  imports Interface_Table
begin

text \<open>
  \<^verbatim>\<open>src/src/dispatch/lifecycle.rs\<close>: keeping the interface table current. A drain of the monitor refreshes
  what a notification names, a periodic re-read catches what none announces, and the reconcile steps
  every interface. The events a drain delivers are an argument, and the kernel answers as it does for
  the table; \<open>None\<close> is a panic of the table. The log lines are dropped.
\<close>

section \<open>The state\<close>

definition RECONCILE_TICK :: nat where "RECONCILE_TICK = 30 * 1000000000"
definition RECONCILE_RETRY :: nat where "RECONCILE_RETRY = 1000000000"
definition RECHECK_INTERVAL :: nat where "RECHECK_INTERVAL = 30 * 1000000000"

record changes =
  ch_v4_moved :: "capture_key list"
  ch_touched :: "capture_key list"
  ch_reconcile :: bool

definition changes_default :: changes where
  "changes_default = \<lparr>ch_v4_moved = [], ch_touched = [], ch_reconcile = False\<rparr>"

record rebuilt =
  rb_captures :: "capture_key list"
  rb_removed :: bool

text \<open>The monitor is the descriptor it is read through, if it could be opened.\<close>

record lifecycle =
  lc_monitor :: "nat option"
  lc_max_seen_ifindex :: "u32 option"
  lc_next_reconcile :: instant
  lc_next_recheck :: instant

definition lifecycle_new :: "nat option \<Rightarrow> instant \<Rightarrow> lifecycle" where
  "lifecycle_new monitor now = \<lparr>lc_monitor = monitor, lc_max_seen_ifindex = None,
     lc_next_reconcile = now + RECONCILE_TICK, lc_next_recheck = now + RECHECK_INTERVAL\<rparr>"

definition monitor_fd :: "lifecycle \<Rightarrow> nat option" where
  "monitor_fd lc = lc_monitor lc"

definition raise_ceiling :: "u32 option \<Rightarrow> u32 \<Rightarrow> u32 option" where
  "raise_ceiling ceiling ix = Some (case ceiling of None \<Rightarrow> ix | Some c \<Rightarrow> max c ix)"

definition saw_interface :: "lifecycle \<Rightarrow> u32 \<Rightarrow> lifecycle" where
  "saw_interface lc ix = lc\<lparr>lc_max_seen_ifindex := raise_ceiling (lc_max_seen_ifindex lc) ix\<rparr>"

definition reconcile_now :: "lifecycle \<Rightarrow> instant \<Rightarrow> lifecycle" where
  "reconcile_now lc now = lc\<lparr>lc_next_reconcile := now\<rparr>"

definition captures_for :: "interface_table \<Rightarrow> interface_key list \<Rightarrow> capture_key list" where
  "captures_for t ks = concat (map (captures_of t) ks)"

section \<open>Re-reading\<close>

text \<open>Whether what a re-read found counts as a move; \<open>failed\<close> says what a failed one does.\<close>

definition v4_moved :: "bool \<Rightarrow> (io_error, address_change) result \<Rightarrow> bool" where
  "v4_moved failed r = (case r of Inr change \<Rightarrow> ac_v4 change | Inl _ \<Rightarrow> failed)"

definition addr_moved :: "bool \<Rightarrow> (io_error, address_change) result \<Rightarrow> bool" where
  "addr_moved failed r = (case r of Inr change \<Rightarrow> ac_v4 change \<or> ac_v6 change | Inl _ \<Rightarrow> failed)"

definition recheck :: "kernel \<Rightarrow> lifecycle \<Rightarrow> interface_table \<Rightarrow> instant \<Rightarrow> changes \<times> lifecycle \<times> interface_table" where
  "recheck kn lc t now =
     (let lc = lc\<lparr>lc_next_recheck := now + RECHECK_INTERVAL\<rparr>;
          (results, t) = refresh_all kn t;
          v4 = map fst (filter (\<lambda>(_, r). v4_moved False r) results);
          touched = map fst (filter (\<lambda>(_, r). addr_moved False r) results);
          (ok, t') = converge_all kn t now
      in (\<lparr>ch_v4_moved = captures_for t v4, ch_touched = captures_for t touched, ch_reconcile = \<not> ok\<rparr>, lc, t'))"

section \<open>Draining the monitor\<close>

datatype interface_event = Overflow | AddressEvent u32 | LinkEvent u32

definition note_event :: "interface_event \<Rightarrow> (u32, bool) linear_map \<times> bool \<Rightarrow> (u32, bool) linear_map \<times> bool" where
  "note_event event = (\<lambda>(changed, overflow).
     let note = (\<lambda>ix is_link.
           case lm_get changed ix of
             Some _ \<Rightarrow> lm_get_mut changed ix (\<lambda>link. link \<or> is_link)
           | None \<Rightarrow> fst (lm_insert changed ix is_link))
     in case event of
          Overflow \<Rightarrow> (changed, True)
        | AddressEvent ix \<Rightarrow> (note ix False, overflow)
        | LinkEvent ix \<Rightarrow> (note ix True, overflow))"

definition INDEXES_MONOTONIC :: "platform \<Rightarrow> bool" where "INDEXES_MONOTONIC p \<longleftrightarrow> p = Linux"
definition LIFECYCLE_EVENTS :: "platform \<Rightarrow> bool" where "LIFECYCLE_EVENTS p \<longleftrightarrow> p \<noteq> MacOs"

definition unwatched_event_reconciles ::
  "platform \<Rightarrow> interface_table \<Rightarrow> u32 \<Rightarrow> bool \<Rightarrow> u32 option \<Rightarrow> instant \<Rightarrow> bool \<times> interface_table" where
  "unwatched_event_reconciles p t ix is_link prior_ceiling now =
     (let (woken, t) = wake_unbound t ix now;
          above = (case prior_ceiling of None \<Rightarrow> True | Some c \<Rightarrow> c < ix);
          creation = (if INDEXES_MONOTONIC p then is_link \<and> above else is_link)
      in (woken \<or> creation \<or> \<not> LIFECYCLE_EVENTS p, t))"

text \<open>The walk over the interfaces named, with what it found so far.\<close>

record found =
  fo_v4_moved :: "interface_key list"
  fo_touched :: "interface_key list"
  fo_reconcile :: bool

fun drain_changed ::
  "kernel \<Rightarrow> u32 option \<Rightarrow> instant \<Rightarrow> (u32 \<times> bool) list \<Rightarrow> interface_table \<Rightarrow> found \<Rightarrow> (found \<times> interface_table) option" where
  "drain_changed kn prior now [] t f = Some (f, t)"
| "drain_changed kn prior now ((ix, is_link) # evs) t f =
     (case key_by_ifindex t ix of
        None \<Rightarrow>
          (let (wants, t) = unwatched_event_reconciles (kn_platform kn) t ix is_link prior now
           in drain_changed kn prior now evs t (f\<lparr>fo_reconcile := fo_reconcile f \<or> wants\<rparr>))
      | Some k \<Rightarrow>
          Option.bind (it_refresh kn t k) (\<lambda>(r, t).
            let f = f\<lparr>fo_v4_moved := fo_v4_moved f @ (if v4_moved True r then [k] else []),
                     fo_touched := fo_touched f @ (if addr_moved True r then [k] else [])\<rparr>
            in case r of
                 Inr _ \<Rightarrow>
                   (let (ok, t) = it_converge kn t k now
                    in drain_changed kn prior now evs t (f\<lparr>fo_reconcile := fo_reconcile f \<or> is_link \<or> \<not> ok\<rparr>))
               | Inl _ \<Rightarrow> drain_changed kn prior now evs t (f\<lparr>fo_reconcile := True\<rparr>)))"

definition lc_drain ::
  "kernel \<Rightarrow> interface_event list \<Rightarrow> lifecycle \<Rightarrow> interface_table \<Rightarrow> instant \<Rightarrow> (changes \<times> lifecycle \<times> interface_table) option" where
  "lc_drain kn events lc t now =
     (if lc_monitor lc = None then Some (changes_default, lc, t)
      else
        let (changed, overflow) = fold note_event events (lm_new, False) in
        if lm_is_empty changed \<and> \<not> overflow then Some (changes_default, lc, t)
        else
          let prior = lc_max_seen_ifindex lc;
              lc = lc\<lparr>lc_max_seen_ifindex := fold (\<lambda>(ix, _) c. raise_ceiling c ix) (lm_iter changed) prior\<rparr>
          in map_option (\<lambda>(f, t). (\<lparr>ch_v4_moved = captures_for t (fo_v4_moved f), ch_touched = captures_for t (fo_touched f),
                 ch_reconcile = fo_reconcile f\<rparr>, lc, t))
               (if overflow then
                  let t = wake_all_unbound t now; (results, t) = refresh_all kn t
                  in Some (\<lparr>fo_v4_moved = map fst (filter (\<lambda>(_, r). v4_moved True r) results),
                            fo_touched = map fst (filter (\<lambda>(_, r). addr_moved True r) results), fo_reconcile = True\<rparr>, t)
                else drain_changed kn prior now (lm_iter changed) t \<lparr>fo_v4_moved = [], fo_touched = [], fo_reconcile = False\<rparr>))"

section \<open>The reconcile\<close>

datatype moved = Rebound | Removed

fun moved_by :: "step \<Rightarrow> moved option" where
  "moved_by (SParked (Some _)) = Some Removed"
| "moved_by (BindFailed (Present _) _ _ _ _) = Some Removed"
| "moved_by (Bound _ _ _) = Some Rebound"
| "moved_by _ = None"

definition next_pass :: "instant \<Rightarrow> bool \<Rightarrow> instant option \<Rightarrow> instant" where
  "next_pass now soon bind_retry =
     (let nxt = now + (if soon then RECONCILE_RETRY else RECONCILE_TICK)
      in case bind_retry of
           Some retry \<Rightarrow> if now < retry then min retry nxt else nxt
         | None \<Rightarrow> nxt)"

fun unsettled :: "step \<Rightarrow> bool" where
  "unsettled (LookupFailed _) = True"
| "unsettled (Bound _ _ gone) = gone"
| "unsettled _ = False"

text \<open>The turn of one interface: whether it needs another soon, and what it re-bound or released.\<close>

definition reconcile_one :: "kernel \<Rightarrow> instant \<Rightarrow> interface_key \<Rightarrow> interface_table \<Rightarrow> (bool \<times> rebuilt list \<times> interface_table) option" where
  "reconcile_one kn now k t =
     map_option (\<lambda>(st, t).
       let (gone, t) = (if st = Kept then let (ok, t) = it_converge kn t k now in (\<not> ok, t) else (False, t))
       in (gone \<or> unsettled st,
           case moved_by st of
             Some m \<Rightarrow> [\<lparr>rb_captures = captures_of t k, rb_removed = (m = Removed)\<rparr>]
           | None \<Rightarrow> [],
           t))
     (it_step kn t k now)"

fun reconcile_each ::
  "kernel \<Rightarrow> instant \<Rightarrow> interface_key list \<Rightarrow> interface_table \<Rightarrow> (bool \<times> rebuilt list \<times> interface_table) option" where
  "reconcile_each kn now [] t = Some (False, [], t)"
| "reconcile_each kn now (k # ks) t =
     Option.bind (reconcile_one kn now k t) (\<lambda>(soon, here, t).
       map_option (\<lambda>(later, rebuilt, t). (soon \<or> later, here @ rebuilt, t)) (reconcile_each kn now ks t))"

definition reconcile ::
  "kernel \<Rightarrow> lifecycle \<Rightarrow> interface_table \<Rightarrow> instant \<Rightarrow> (rebuilt list \<times> lifecycle \<times> interface_table) option" where
  "reconcile kn lc t now =
     map_option (\<lambda>(retry_soon, rebuilt, t).
       (rebuilt, lc\<lparr>lc_next_reconcile := next_pass now (retry_soon \<or> any_parked t) (next_bind_retry t)\<rparr>, t))
     (reconcile_each kn now (interface_keys t) t)"

section \<open>A turn touches its interface only\<close>

definition elsewhere :: "interface_key \<Rightarrow> interface_table \<Rightarrow> interface_table \<Rightarrow> bool" where
  "elsewhere k t t' \<longleftrightarrow> length (it_entries t') = length (it_entries t) \<and> (\<forall>k'. k' \<noteq> k \<longrightarrow> it_entry t' k' = it_entry t k')
     \<and> map ce_interface (it_captures t') = map ce_interface (it_captures t)"

lemma elsewhere_refl [simp]: "elsewhere k t t"
  by (simp add: elsewhere_def)

lemma elsewhere_trans: "elsewhere k t t' \<Longrightarrow> elsewhere k t' t'' \<Longrightarrow> elsewhere k t t''"
  by (simp add: elsewhere_def)

lemma elsewhere_set [simp]: "elsewhere k t (set_entry t k e)"
  by (auto simp: elsewhere_def it_entry_def nth_opt_def set_entry_def nth_list_update word_unat_eq_iff)

lemma elsewhere_captures: "map ce_interface cs = map ce_interface (it_captures t) \<Longrightarrow> elsewhere k t (t\<lparr>it_captures := cs\<rparr>)"
  by (simp add: elsewhere_def it_entry_def)

lemma it_converge_elsewhere: "elsewhere k t (snd (it_converge kn t k now))"
  by (auto simp: it_converge_def split_beta Let_def split: option.splits)

lemma settle_bind_elsewhere: "elsewhere k t (snd (settle_bind kn t k e ix was bound now))"
proof (cases bound)
  case (Inr x)
  let ?t = "set_entry t k (e\<lparr>ie_presence := Present ix\<rparr>)"
  let ?cs = "map (\<lambda>c. if ce_interface c = k then c\<lparr>ce_counters := record_recovery (ce_counters c)\<rparr> else c) (it_captures ?t)"
  have "elsewhere k t (?t\<lparr>it_captures := ?cs\<rparr>)"
    by (rule elsewhere_trans [OF elsewhere_set elsewhere_captures]) (simp add: comp_def if_distrib cong: if_cong)
  from elsewhere_trans [OF this it_converge_elsewhere] show ?thesis
    by (simp add: settle_bind_def Inr Let_def split_beta)
qed (simp add: settle_bind_def Let_def)

lemma it_bind_elsewhere: "elsewhere k t (snd (it_bind kn t k e ix now))"
proof (cases "kn_read kn (if_name (ie_interface e)) ix")
  case (Inr rd)
  obtain r cs where rb: "rebind_captures kn (if kn_platform kn = Linux then ie_interface e else take_link (ie_interface e) rd) k ix (it_captures t) = (r, cs)"
    by (metis prod.exhaust)
  have "map ce_interface cs = map ce_interface (it_captures t)" by (metis rb rebind_interfaces snd_conv)
  then have cs: "elsewhere k t (t\<lparr>it_captures := cs\<rparr>)" by (rule elsewhere_captures)
  show ?thesis
    using rb elsewhere_trans [OF cs settle_bind_elsewhere] Inr
    by (cases "kn_platform kn = Linux"; cases r) (simp_all add: it_bind_def Let_def)
qed (simp add: it_bind_def settle_bind_elsewhere)

lemma it_step_elsewhere:
  assumes "it_step kn t k now = Some (st, t')"
  shows "elsewhere k t t'"
proof -
  obtain e where "it_entry t k = Some e" using assms by (auto simp: it_step_def)
  moreover have "elsewhere k t t'" if "it_bind kn t k e ix now = (st, t')" for e ix
    by (metis it_bind_elsewhere snd_conv that)
  ultimately show ?thesis using assms
    by (auto simp: it_step_def split: sum.split_asm option.split_asm presence.split_asm if_split_asm)
qed

lemma reconcile_one_elsewhere:
  assumes "reconcile_one kn now k t = Some (soon, here, t')"
  shows "elsewhere k t t'"
proof -
  obtain st t1 where st: "it_step kn t k now = Some (st, t1)" using assms by (auto simp: reconcile_one_def)
  have "t' = (if st = Kept then snd (it_converge kn t1 k now) else t1)"
    using assms st by (auto simp: reconcile_one_def Let_def split_beta split: if_split_asm)
  with elsewhere_trans [OF it_step_elsewhere [OF st] it_converge_elsewhere] it_step_elsewhere [OF st] show ?thesis by simp
qed

section \<open>What a pass reports\<close>

lemma enumerate_filter_mem: "word_of_nat i \<in> set (map (\<lambda>(i, _). word_of_nat i :: u32) (filter (\<lambda>(_, c). P c) (enumerate 0 xs))) \<longleftrightarrow> P (xs ! i)"
  if "i < length xs" "length xs \<le> 2 ^ 32"
  using that
  by (force simp: in_set_enumerate_eq word_of_nat_eq_iff take_bit_nat_eq_self)

lemma captures_of_mem:
  assumes "length (it_captures t) \<le> 2 ^ 32"
  shows "c \<in> set (captures_of t k) \<longleftrightarrow> interface_of t c = Some k"
proof (cases "unat c < length (it_captures t)")
  case True
  with enumerate_filter_mem [OF True assms, of "\<lambda>c. ce_interface c = k"] show ?thesis
    by (simp add: captures_of_def interface_of_def it_capture_entry_def nth_opt_def)
next
  case False
  then have "c \<notin> set (captures_of t k)"
    using assms by (auto simp: captures_of_def in_set_enumerate_eq unat_of_nat_u32)
  with False show ?thesis by (simp add: interface_of_def it_capture_entry_def nth_opt_def)
qed

lemma elsewhere_interface_of: "elsewhere k t t' \<Longrightarrow> interface_of t' c = interface_of t c"
proof -
  have "map_option ce_interface (nth_opt cs i) = nth_opt (map ce_interface cs) i" for cs :: "capture_entry list" and i by (simp add: nth_opt_def)
  then show "elsewhere k t t' \<Longrightarrow> interface_of t' c = interface_of t c"
    by (simp add: elsewhere_def interface_of_def it_capture_entry_def)
qed

lemma it_converge_index: "interface_index (snd (it_converge kn t k now)) k' = interface_index t k'"
proof (cases "k' = k")
  case True
  show ?thesis
  proof (cases "it_entry t k")
    case (Some e)
    then have "unat k < length (it_entries t)" by (simp add: it_entry_Some)
    with Some True show ?thesis
      by (simp add: it_converge_def interface_index_def it_entry_set ie_converge_def ie_ifindex_def split_beta Let_def
          split: option.split presence.split)
  qed (simp add: it_converge_def True)
qed (use it_converge_elsewhere [of k t kn now] in \<open>simp add: elsewhere_def interface_index_def\<close>)

lemma settle_failed_index: "moved_by (fst (settle_bind kn t k e ix was bound now)) = None \<Longrightarrow> unat k < length (it_entries t)
    \<Longrightarrow> interface_index (snd (settle_bind kn t k e ix was bound now)) k = None \<and> (\<forall>ix. was \<noteq> Present ix)"
  by (cases bound; cases was) (auto simp: settle_bind_def Let_def split_beta interface_index_def it_entry_set ie_release_def ie_ifindex_def)

lemma bind_unmoved:
  assumes "it_entry t k = Some e" "it_bind kn t k e ix now = (st, t')" "moved_by st = None"
  shows "interface_index t' k = interface_index t k"
proof -
  have k: "unat k < length (it_entries t)" using assms(1) by (simp add: it_entry_Some)
  have "\<exists>cs e' b. it_bind kn t k e ix now = settle_bind kn (t\<lparr>it_captures := cs\<rparr>) k e' ix (ie_presence e) b now"
  proof (cases "kn_read kn (if_name (ie_interface e)) ix")
    case (Inl err)
    then have "it_bind kn t k e ix now = settle_bind kn (t\<lparr>it_captures := it_captures t\<rparr>) k
        (e\<lparr>ie_memberships := map_option ms_rebase (ie_memberships e)\<rparr>) ix (ie_presence e) (Inl err) now"
      by (simp add: it_bind_def)
    then show ?thesis by blast
  next
    case (Inr rd)
    then show ?thesis by (auto simp: it_bind_def Let_def split: prod.split sum.split)
  qed
  then obtain cs e' b where "settle_bind kn (t\<lparr>it_captures := cs\<rparr>) k e' ix (ie_presence e) b now = (st, t')"
    using assms(2) by auto
  with settle_failed_index [of kn "t\<lparr>it_captures := cs\<rparr>" k e' ix "ie_presence e" b now] assms(1,3) k show ?thesis
    by (auto simp: interface_index_def ie_ifindex_def split: presence.splits)
qed

lemma it_step_unmoved:
  assumes "it_step kn t k now = Some (st, t')" "moved_by st = None"
  shows "interface_index t' k = interface_index t k"
proof -
  obtain e where e: "it_entry t k = Some e" using assms by (auto simp: it_step_def)
  then have "unat k < length (it_entries t)" by (simp add: it_entry_Some)
  with assms e bind_unmoved [OF e] show ?thesis
    by (auto simp: it_step_def interface_index_def it_entry_set ie_ifindex_def
        split: sum.split_asm option.split_asm presence.split_asm if_split_asm)
qed

lemma reconcile_one_moved:
  assumes "reconcile_one kn now k t = Some (soon, here, t')" "interface_index t' k \<noteq> interface_index t k"
  shows "\<exists>r \<in> set here. rb_captures r = captures_of t' k"
proof -
  obtain st t1 where st: "it_step kn t k now = Some (st, t1)" using assms by (auto simp: reconcile_one_def)
  have t': "t' = (if st = Kept then snd (it_converge kn t1 k now) else t1)"
    using assms st by (auto simp: reconcile_one_def Let_def split_beta split: if_split_asm)
  have "moved_by st \<noteq> None"
    using it_step_unmoved [OF st] assms(2) by (auto simp: t' it_converge_index split: if_split_asm)
  with assms(1) st show ?thesis by (auto simp: reconcile_one_def Let_def split_beta split: if_split_asm option.split_asm)
qed

section \<open>Recovery\<close>

text \<open>Whatever an entry still waits for is due.\<close>

definition all_due :: "instant \<Rightarrow> interface_entry \<Rightarrow> bool" where
  "all_due now e \<longleftrightarrow> joinable now e \<and> (case ie_presence e of Unbound u \<Rightarrow> ub_next_try u \<le> now | _ \<Rightarrow> True)"

lemma all_due_later: "ie_inv j now e \<Longrightarrow> now + RETRY_CEILING \<le> later \<Longrightarrow> all_due later e"
  by (auto simp: all_due_def ie_inv_def presence_ok_def intro: joinable_later [unfolded ie_inv_def] split: presence.splits)

lemma reconcile_one_recovers:
  assumes e: "it_entry t k = Some e" and ready: "all_due now e" and returns: "kn_back kn (if_name (ie_interface e)) ix rd"
  obtains here t' e' where "reconcile_one kn now k t = Some (False, here, t')" "it_entry t' k = Some e'"
    "ie_ifindex e' = Some ix" "all_joined e'"
proof (cases "ie_presence e = Present ix")
  case True
  have "it_step kn t k now = Some (Kept, t)"
    using e True returns by (auto simp: it_step_def kn_back_def it_probe_def list_all_iff interface_index_def ie_ifindex_def split: option.splits)
  moreover obtain e' t' where "it_converge kn t k now = (True, t')" "it_entry t' k = Some e'" "all_joined e'"
    "ie_presence e' = Present ix"
    using it_converge_joins [OF e True] ready returns by (metis all_due_def kn_back_def)
  ultimately show thesis by (intro that [of "[]" t' e']) (simp_all add: reconcile_one_def ie_ifindex_def)
next
  case False
  obtain e' t' where b: "it_bind kn t k e ix now = (Bound (ie_presence e) ix False, t')" "it_entry t' k = Some e'"
    "all_joined e'" "ie_presence e' = Present ix"
    using bind_succeeds [OF e returns] .
  have "it_step kn t k now = Some (Bound (ie_presence e) ix False, t')"
    using e False returns b(1) ready by (auto simp: it_step_def kn_back_def all_due_def split: presence.splits)
  with b show thesis by (intro that) (simp_all add: reconcile_one_def ie_ifindex_def)
qed

lemma reconcile_one_total: "it_entry t k \<noteq> None \<Longrightarrow> reconcile_one kn now k t \<noteq> None"
  by (auto simp: reconcile_one_def it_step_def)

lemma reconcile_each_ConsE:
  assumes "reconcile_each kn now (k # ks) t = Some (soon, rb, t')"
  obtains s1 here t1 s2 rb' where "reconcile_one kn now k t = Some (s1, here, t1)"
    "reconcile_each kn now ks t1 = Some (s2, rb', t')" "rb = here @ rb'"
proof -
  obtain s1 here t1 where one: "reconcile_one kn now k t = Some (s1, here, t1)" using assms by (auto simp: bind_eq_Some_conv)
  with assms show thesis by (auto intro: that [OF one])
qed

lemma reconcile_each_frame:
  assumes "reconcile_each kn now ks t = Some (soon, rb, t')"
  shows "interface_of t' c = interface_of t c \<and> (k \<notin> set ks \<longrightarrow> it_entry t' k = it_entry t k)
    \<and> length (it_captures t') = length (it_captures t)"
  using assms
proof (induction ks arbitrary: t soon rb)
  case (Cons k' ks)
  obtain s1 here t1 s2 rb' where one: "reconcile_one kn now k' t = Some (s1, here, t1)"
    and rest: "reconcile_each kn now ks t1 = Some (s2, rb', t')"
    using Cons.prems by (auto elim: reconcile_each_ConsE simp del: reconcile_each.simps)
  have "length (it_captures t1) = length (it_captures t)"
    using reconcile_one_elsewhere [OF one] by (metis elsewhere_def length_map)
  with Cons.IH [OF rest] reconcile_one_elsewhere [OF one] elsewhere_interface_of [OF reconcile_one_elsewhere [OF one]] show ?case
    by (auto simp: elsewhere_def)
qed simp

lemma reconcile_each_total: "(\<And>k. k \<in> set ks \<Longrightarrow> it_entry t k \<noteq> None) \<Longrightarrow> reconcile_each kn now ks t \<noteq> None"
proof (induction ks arbitrary: t)
  case (Cons k ks)
  obtain s here t1 where one: "reconcile_one kn now k t = Some (s, here, t1)"
    using reconcile_one_total [of t k kn now] Cons.prems by (cases "reconcile_one kn now k t") auto
  have "it_entry t1 k' \<noteq> None" if "k' \<in> set ks" for k'
    using Cons.prems [of k'] that reconcile_one_elsewhere [OF one] by (simp add: elsewhere_def it_entry_def nth_opt_def split: if_splits)
  from Cons.IH [OF this] one show ?case by auto
qed simp

lemma reconcile_each_reports:
  assumes "reconcile_each kn now ks t = Some (soon, rb, t')" "distinct ks" "length (it_captures t) \<le> 2 ^ 32"
    and "interface_of t c = Some k" "interface_index t' k \<noteq> interface_index t k"
  shows "\<exists>r \<in> set rb. c \<in> set (rb_captures r)"
  using assms
proof (induction ks arbitrary: t soon rb)
  case (Cons k' ks)
  obtain s1 here t1 s2 rb' where one: "reconcile_one kn now k' t = Some (s1, here, t1)"
    and rest: "reconcile_each kn now ks t1 = Some (s2, rb', t')" and rb: "rb = here @ rb'"
    using Cons.prems by (auto elim: reconcile_each_ConsE simp del: reconcile_each.simps)
  note else1 = reconcile_one_elsewhere [OF one]
  have c1: "interface_of t1 c = Some k" using elsewhere_interface_of [OF else1] Cons.prems(4) by simp
  have len: "length (it_captures t1) \<le> 2 ^ 32" using else1 Cons.prems(3) by (metis elsewhere_def length_map)
  show ?case
  proof (cases "interface_index t1 k = interface_index t k")
    case True
    with Cons.IH [OF rest _ len c1] Cons.prems(2,5) rb show ?thesis by auto
  next
    case False
    then have "k = k'" using else1 by (auto simp: elsewhere_def interface_index_def)
    with reconcile_one_moved [OF one] False obtain r where "r \<in> set here" "rb_captures r = captures_of t1 k" by auto
    with captures_of_mem [OF len, of c k] c1 rb show ?thesis by (intro bexI [of _ r]) simp_all
  qed
qed simp

lemma reconcile_each_recovers:
  assumes "reconcile_each kn now ks t = Some (soon, rb, t')" "distinct ks" "k \<in> set ks" "it_entry t k = Some e"
    and "all_due now e" "kn_back kn (if_name (ie_interface e)) ix rd"
  shows "\<exists>e'. it_entry t' k = Some e' \<and> ie_ifindex e' = Some ix \<and> all_joined e'"
  using assms
proof (induction ks arbitrary: t soon rb)
  case (Cons k' ks)
  obtain s1 here t1 s2 rb' where one: "reconcile_one kn now k' t = Some (s1, here, t1)"
    and rest: "reconcile_each kn now ks t1 = Some (s2, rb', t')"
    using Cons.prems by (auto elim: reconcile_each_ConsE simp del: reconcile_each.simps)
  show ?case
  proof (cases "k = k'")
    case True
    obtain here' t2 e' where "reconcile_one kn now k t = Some (False, here', t2)" "it_entry t2 k = Some e'"
      "ie_ifindex e' = Some ix" "all_joined e'"
      using reconcile_one_recovers [OF Cons.prems(4,5,6)] .
    with one True reconcile_each_frame [OF rest, of _ k] Cons.prems(2) show ?thesis by auto
  next
    case False
    then have "it_entry t1 k = Some e" using reconcile_one_elsewhere [OF one] Cons.prems(4) by (simp add: elsewhere_def)
    with Cons.IH [OF rest] False Cons.prems(2,3,5,6) show ?thesis by auto
  qed
qed simp

lemma interface_keys_facts:
  assumes "length (it_entries t) \<le> 2 ^ 32"
  shows "distinct (interface_keys t)" "k \<in> set (interface_keys t) \<longleftrightarrow> it_entry t k \<noteq> None"
proof -
  have "inj_on (word_of_nat :: nat \<Rightarrow> u32) {0..<length (it_entries t)}"
    using assms by (intro inj_onI) (auto simp: word_of_nat_eq_iff take_bit_nat_eq_self)
  then show "distinct (interface_keys t)" by (simp add: interface_keys_def distinct_map)
  have "k \<in> set (interface_keys t) \<longleftrightarrow> unat k < length (it_entries t)"
    using assms by (auto simp: interface_keys_def unat_of_nat_u32 image_iff intro!: bexI [of _ "unat k"])
  then show "k \<in> set (interface_keys t) \<longleftrightarrow> it_entry t k \<noteq> None" by (simp add: it_entry_def nth_opt_def)
qed

lemma reconcile_total:
  assumes "it_inv now t"
  obtains soon rb t' where "reconcile_each kn later (interface_keys t) t = Some (soon, rb, t')"
    "reconcile kn lc t later
       = Some (rb, lc\<lparr>lc_next_reconcile := next_pass later (soon \<or> any_parked t') (next_bind_retry t')\<rparr>, t')"
proof -
  have "reconcile_each kn later (interface_keys t) t \<noteq> None"
    using assms interface_keys_facts(2) by (intro reconcile_each_total) (auto simp: it_inv_def)
  then obtain soon rb t' where each: "reconcile_each kn later (interface_keys t) t = Some (soon, rb, t')" by auto
  then show thesis by (intro that [OF each]) (simp add: reconcile_def)
qed

text \<open>C35. No interface is given up on. Whatever happened to the interfaces so far, one reconcile pass thirty
  seconds later (or any time after) ends, and leaves every interface whose name resolves again, and
  that the system lets be read, captured on and joined, bound to the index its name resolves to with
  all of its groups joined; what the other interfaces do does not matter.\<close>

theorem reconcile_recovers:
  assumes run: "it_run now t" and later: "now + RETRY_CEILING \<le> later"
  shows "\<exists>rb lc' t'. reconcile kn lc t later = Some (rb, lc', t')
    \<and> (\<forall>k e ix rd. it_entry t k = Some e \<and> kn_back kn (if_name (ie_interface e)) ix rd
         \<longrightarrow> (\<exists>e'. it_entry t' k = Some e' \<and> ie_ifindex e' = Some ix \<and> all_joined e'))"
proof -
  have inv: "it_inv now t" by (rule it_run_inv [OF run])
  then have len: "length (it_entries t) \<le> 2 ^ 32" by (simp add: it_inv_def)
  obtain soon rb t' where each: "reconcile_each kn later (interface_keys t) t = Some (soon, rb, t')"
    and rec: "reconcile kn lc t later
       = Some (rb, lc\<lparr>lc_next_reconcile := next_pass later (soon \<or> any_parked t') (next_bind_retry t')\<rparr>, t')"
    by (rule reconcile_total [OF inv])
  have "\<exists>e'. it_entry t' k = Some e' \<and> ie_ifindex e' = Some ix \<and> all_joined e'"
    if "it_entry t k = Some e" "kn_back kn (if_name (ie_interface e)) ix rd" for k e ix rd
    using reconcile_each_recovers [OF each interface_keys_facts(1) [OF len] _ that(1) all_due_later [OF it_entry_inv [OF that(1) inv] later] that(2)]
      interface_keys_facts(2) [OF len, of k] that(1) by simp
  with rec show ?thesis by blast
qed

text \<open>Nothing moves in silence and the reconcile never spins. Over any life of the table, every capture
  whose interface changed index in a pass, came back or was lost, is among those the pass reports, so
  that the proxies and sessions on it are dropped; the next pass is due after this one and within
  thirty seconds, within one second while an interface is parked, and no later than the retry of a
  failed bind.\<close>

theorem reconcile_reports:
  assumes run: "it_run now t" and rec: "reconcile kn lc t later = Some (rb, lc', t')"
  shows "(\<forall>c. ifindex_of t' c \<noteq> ifindex_of t c \<longrightarrow> (\<exists>r. r \<in> set rb \<and> c \<in> set (rb_captures r)))
    \<and> later < lc_next_reconcile lc' \<and> lc_next_reconcile lc' \<le> later + RECONCILE_TICK
    \<and> (any_parked t' \<longrightarrow> lc_next_reconcile lc' \<le> later + RECONCILE_RETRY)
    \<and> (\<forall>retry. next_bind_retry t' = Some retry \<and> later < retry \<longrightarrow> lc_next_reconcile lc' \<le> retry)"
proof -
  have inv: "it_inv now t" by (rule it_run_inv [OF run])
  then have len: "length (it_entries t) \<le> 2 ^ 32" "length (it_captures t) \<le> 2 ^ 32" by (simp_all add: it_inv_def)
  obtain soon where each: "reconcile_each kn later (interface_keys t) t = Some (soon, rb, t')"
    and lc': "lc' = lc\<lparr>lc_next_reconcile := next_pass later (soon \<or> any_parked t') (next_bind_retry t')\<rparr>"
    using rec by (auto simp: reconcile_def)
  have "\<exists>r. r \<in> set rb \<and> c \<in> set (rb_captures r)" if moved: "ifindex_of t' c \<noteq> ifindex_of t c" for c
  proof -
    have "interface_of t' c = interface_of t c" using reconcile_each_frame [OF each] by blast
    with moved obtain k where "interface_of t c = Some k" "interface_index t' k \<noteq> interface_index t k"
      by (cases "interface_of t c") (auto simp: ifindex_of_def)
    with reconcile_each_reports [OF each interface_keys_facts(1) [OF len(1)] len(2)] show ?thesis by blast
  qed
  moreover have "RECONCILE_RETRY \<le> RECONCILE_TICK" "0 < RECONCILE_RETRY" by (simp_all add: RECONCILE_RETRY_def RECONCILE_TICK_def)
  ultimately show ?thesis by (auto simp: lc' next_pass_def Let_def split: option.split)
qed

text \<open>The sample interface comes back under another index.\<close>

lemma reconcile_recovers_witness:
  "\<exists>rb lc' t' e'. reconcile (sample_kernel 9) (lifecycle_new (Some 4) 5) sample_parked 30000000005 = Some (rb, lc', t')
    \<and> it_entry t' 0 = Some e' \<and> ie_ifindex e' = Some 9 \<and> all_joined e'"
proof -
  have "map_option ie_presence (it_entry sample_parked 0) = Some Parked" by code_simp
  then obtain e where e: "it_entry sample_parked 0 = Some e" by blast
  have "kn_back (sample_kernel 9) (if_name (ie_interface e)) 9 sample_reading"
    by (simp add: kn_back_def sample_kernel_def kn_index_def if_index_checked_def grants_def granted_answer_def)
  with e reconcile_recovers [OF sample_parked_run, of 30000000005 "sample_kernel 9" "lifecycle_new (Some 4) 5"]
  show ?thesis by (simp add: RETRY_CEILING_def) blast
qed

lemma reconcile_reports_witness:
  "\<exists>rb lc' t'. reconcile (sample_kernel 9) (lifecycle_new (Some 4) 5) sample_parked 6 = Some (rb, lc', t')
    \<and> (\<exists>r. r \<in> set rb \<and> 0 \<in> set (rb_captures r)) \<and> 6 < lc_next_reconcile lc'"
proof -
  have "map_option (\<lambda>(rb, lc', t'). ifindex_of t' 0) (reconcile (sample_kernel 9) (lifecycle_new (Some 4) 5) sample_parked 6)
      = Some (Some 9)" "ifindex_of sample_parked 0 = None" by code_simp+
  then obtain rb lc' t' where r: "reconcile (sample_kernel 9) (lifecycle_new (Some 4) 5) sample_parked 6 = Some (rb, lc', t')"
    "ifindex_of t' 0 \<noteq> ifindex_of sample_parked 0" by auto
  from reconcile_reports [OF sample_parked_run r(1)] r show ?thesis by blast
qed

end
