(* ===== verification/Reflector.thy ===== *)
theory Reflector
  imports Egress Dial Lifecycle Reassembly Config
begin

text \<open>
  The state of the dispatcher (\<^verbatim>\<open>src/src/dispatch.rs\<close>) and what its reflectors share
  (\<^verbatim>\<open>src/src/reflector.rs\<close>): filters, registrations, deliveries, rewrites, verdicts and the checks of a
  build. The source's handlers are trait objects; here they are a datatype of the two kinds there
  are, so that their records are part of the dispatcher's state. The clock, the kernel, the reactor's
  system and the ports the system reserves are arguments; the number of reservations asked for is
  kept in the state (\<open>dp_reservations\<close>) so that each may be answered on its own. \<open>None\<close> is a panic.
\<close>

section \<open>Filters\<close>

record packet_filter =
  fi_src_ip :: "ipaddr option"
  fi_dst_ip :: "ipaddr list option"
  fi_src_port :: "u16 option"
  fi_dst_port :: "u16 list option"
  fi_src_mac :: "mac_addr list option"
  fi_dst_mac :: "mac_addr option"
  fi_broadcast :: bool
  fi_dst_own :: "address_family option"

definition filter_default :: packet_filter where
  "filter_default = \<lparr>fi_src_ip = None, fi_dst_ip = None, fi_src_port = None, fi_dst_port = None, fi_src_mac = None,
     fi_dst_mac = None, fi_broadcast = False, fi_dst_own = None\<rparr>"

definition is_none_or :: "'a option \<Rightarrow> ('a \<Rightarrow> bool) \<Rightarrow> bool" where
  "is_none_or x p = (case x of None \<Rightarrow> True | Some v \<Rightarrow> p v)"

definition is_some_and :: "'a option \<Rightarrow> ('a \<Rightarrow> bool) \<Rightarrow> bool" where
  "is_some_and x p = (case x of None \<Rightarrow> False | Some v \<Rightarrow> p v)"

lemma is_none_or_simps [simp]: "is_none_or None p" "is_none_or (Some v) p = p v"
  by (simp_all add: is_none_or_def)

lemma is_some_and_simps [simp]: "\<not> is_some_and None p" "is_some_and (Some v) p = p v"
  by (simp_all add: is_some_and_def)

definition filter_matches :: "packet_filter \<Rightarrow> packet \<Rightarrow> interface_addresses option \<Rightarrow> bool" where
  "filter_matches f p ingress \<longleftrightarrow>
     (\<not> fi_broadcast f \<or> is_broadcast p (Option.bind ingress v4_directed_broadcast))
     \<and> is_none_or (fi_src_ip f) (\<lambda>ip. fst (p_source p) = ip)
     \<and> is_none_or (fi_dst_ip f) (\<lambda>accepted. fst (p_dest p) \<in> set accepted
          \<or> is_some_and (fi_dst_own f) (\<lambda>family. family_uses family (fst (p_dest p))
                \<and> is_some_and ingress (\<lambda>addrs. has_addr addrs (fst (p_dest p)))))
     \<and> is_none_or (fi_src_port f) (\<lambda>port. snd (p_source p) = port)
     \<and> is_none_or (fi_dst_port f) (\<lambda>accepted. snd (p_dest p) \<in> set accepted)
     \<and> is_none_or (fi_src_mac f) (\<lambda>accepted. is_some_and (p_src_mac p) (\<lambda>mac. mac \<in> set accepted))
     \<and> is_none_or (fi_dst_mac f) (\<lambda>mac. p_dst_mac p = Some mac)"

section \<open>Legs\<close>

datatype verdict = Reflect message_type | Skip message_type | Excluded | Junk

datatype delivery = Link | Peers "ipaddr list" | Unicast socket_addr mac_addr

definition delivery_new :: "ipaddr list option \<Rightarrow> delivery" where
  "delivery_new peers = (case peers of Some ps \<Rightarrow> Peers ps | None \<Rightarrow> Link)"

definition delivery_destination :: "delivery \<Rightarrow> ipaddr \<Rightarrow> ipaddr option" where
  "delivery_destination d dst =
     (case d of
        Link \<Rightarrow> Some dst
      | Peers peers \<Rightarrow> find (\<lambda>peer. is_ipv4 peer = is_ipv4 dst) peers
      | Unicast to _ \<Rightarrow> Some (fst to))"

datatype rewrite = Verbatim | Replaced bytes | RewriteRefused | Unreadable

text \<open>The implementations of \<^verbatim>\<open>ReplyRewrite\<close>, with what each keeps besides its scratch and its log labels.\<close>

datatype rewriter =
    NoRewrite
  | ServiceGate service_filter
  | ResponseGate "service_filter option"
  | DialRewrite capture_key

datatype source_port = FixedPort u16 | CapturedPort
datatype source = FromEgress source_port | CapturedSource
datatype ttl = FixedTtl u8 | CapturedTtl
datatype unicast_to = Nowhere | ToBroadcast | ToGroup ipv4 ipv6

record emit =
  em_source :: source
  em_ttl :: ttl
  em_unicast :: unicast_to

record simple_reflector =
  sr_egress :: capture_key
  sr_delivery :: delivery
  sr_classify :: "packet \<Rightarrow> verdict"
  sr_emit :: emit
  sr_rewrite :: rewriter
  sr_suppress :: "bytes \<Rightarrow> bool"

record search_protocol =
  sp_name :: string
  sp_port :: u16
  sp_ttl :: u8
  sp_group_v4 :: ipv4
  sp_groups_v6 :: "ipv6 list"
  sp_response_type :: message_type
  sp_announcement_verdict :: "bytes \<Rightarrow> verdict"
  sp_search_verdict :: "bytes \<Rightarrow> verdict"
  sp_window :: "bytes \<Rightarrow> nat"
  sp_suppress :: "bytes \<Rightarrow> bool"

record session_key =
  sk_searcher :: socket_addr
  sk_dest :: socket_addr

record session =
  ss_expiry :: instant
  ss_source :: socket_addr
  ss_response_key :: key

record search_reflector =
  se_source :: capture_key
  se_target :: capture_key
  se_delivery :: delivery
  se_device_macs :: "mac_addr list option"
  se_protocol :: search_protocol
  se_make_reply :: rewriter
  se_sessions :: "(session_key, session) linear_map"

section \<open>The dispatcher\<close>

datatype packet_handler = SimpleHandler simple_reflector | SearchHandler search_reflector

record registration =
  rg_ingress :: capture_key
  rg_filter :: packet_filter
  rg_handler :: "packet_handler option"

record counter_report =
  cr_interval :: nat
  cr_next :: instant

record dispatcher =
  dp_table :: interface_table
  dp_registrations :: "registration arena"
  dp_lifecycle :: lifecycle
  dp_dial :: dial_context
  dp_egress :: egress
  dp_reassembly :: reassembler
  dp_report :: "counter_report option"
  dp_reservations :: nat

record 'h world =
  w_kernel :: kernel
  w_outside :: outside
  w_dial :: "'h dial_system"
  w_reserve :: "nat \<Rightarrow> ipaddr \<Rightarrow> u32 \<Rightarrow> (io_error, u16) result"

definition with_table :: "interface_table \<Rightarrow> lifecycle \<Rightarrow> u32 \<Rightarrow> dispatcher" where
  "with_table t lc seed = \<lparr>dp_table = t, dp_registrations = arena_new, dp_lifecycle = lc, dp_dial = dial_new,
     dp_egress = egress_new seed, dp_reassembly = reassembler_new, dp_report = None, dp_reservations = 0\<rparr>"

definition enable_counter_report :: "dispatcher \<Rightarrow> nat \<Rightarrow> instant \<Rightarrow> dispatcher" where
  "enable_counter_report d interval now = d\<lparr>dp_report := Some \<lparr>cr_interval = interval, cr_next = now + interval\<rparr>\<rparr>"

definition open_capture :: "kernel \<Rightarrow> dispatcher \<Rightarrow> interface_name \<Rightarrow> ((io_error, capture_key) result \<times> dispatcher) option" where
  "open_capture kn d name =
     map_option (\<lambda>(r, t).
       let d = d\<lparr>dp_table := t\<rparr>
       in (r, case r of
                Inl _ \<Rightarrow> d
              | Inr key \<Rightarrow>
                  (case Option.bind (interface_of t key) (interface_index t) of
                     Some ix \<Rightarrow> d\<lparr>dp_lifecycle := saw_interface (dp_lifecycle d) ix\<rparr>
                   | None \<Rightarrow> d)))
     (it_open_capture kn (dp_table d) name)"

definition MONITOR_TAG :: u64 where "MONITOR_TAG = - 1"

definition dp_capture_watches :: "dispatcher \<Rightarrow> (nat \<times> u64) list" where
  "dp_capture_watches d = capture_watches (dp_table d)
     @ (case monitor_fd (dp_lifecycle d) of Some fd \<Rightarrow> [(fd, MONITOR_TAG)] | None \<Rightarrow> [])"

definition dp_register :: "dispatcher \<Rightarrow> capture_key \<Rightarrow> packet_filter \<Rightarrow> packet_handler \<Rightarrow> (key \<times> dispatcher) option" where
  "dp_register d ingress f handler =
     map_option (\<lambda>(k, a). (k, d\<lparr>dp_registrations := a\<rparr>))
       (arena_insert (dp_registrations d) \<lparr>rg_ingress = ingress, rg_filter = f, rg_handler = Some handler\<rparr>)"

definition dp_unregister :: "dispatcher \<Rightarrow> key \<Rightarrow> dispatcher" where
  "dp_unregister d k = d\<lparr>dp_registrations := fst (arena_remove (dp_registrations d) k)\<rparr>"

definition dp_join_group ::
  "kernel \<Rightarrow> dispatcher \<Rightarrow> capture_key \<Rightarrow> ipaddr \<Rightarrow> wanted \<Rightarrow> instant \<Rightarrow> ((join_error, unit) result \<times> dispatcher) option" where
  "dp_join_group kn d capture grp w now =
     (case interface_of (dp_table d) capture of
        None \<Rightarrow> Some (Inr (), d)
      | Some k \<Rightarrow> map_option (\<lambda>(r, t). (r, d\<lparr>dp_table := t\<rparr>)) (it_join_on kn (dp_table d) k grp w now))"

definition dp_egress_addrs :: "dispatcher \<Rightarrow> capture_key \<Rightarrow> interface_addresses option" where
  "dp_egress_addrs d c = egress_addrs (dp_table d) c"

definition dp_dial_context :: "dispatcher \<Rightarrow> capture_key \<Rightarrow> dial_context \<times> interface_name option" where
  "dp_dial_context d target =
     (dp_dial d, Option.bind (interface_of (dp_table d) target) (interface_name_of (dp_table d)))"

definition dp_link_type :: "dispatcher \<Rightarrow> capture_key \<Rightarrow> link_type option" where
  "dp_link_type d c = map_option cp_link (it_capture (dp_table d) c)"

text \<open>The sends work on the egress path and the table.\<close>

definition with_egress :: "(egress \<times> interface_table \<Rightarrow> 'r \<times> egress \<times> interface_table) \<Rightarrow> dispatcher \<Rightarrow> 'r \<times> dispatcher" where
  "with_egress f d = (let (r, g, t) = f (dp_egress d, dp_table d) in (r, d\<lparr>dp_egress := g, dp_table := t\<rparr>))"

definition dp_send_udp ::
  "outside \<Rightarrow> dispatcher \<Rightarrow> capture_key \<Rightarrow> socket_addr \<Rightarrow> mac_addr \<Rightarrow> datagram_source \<Rightarrow> u8 \<Rightarrow> bytes
   \<Rightarrow> (io_error fault, unit) result \<times> dispatcher" where
  "dp_send_udp os d egress dst dst_mac src ttl payload =
     with_egress (eg_send_udp os egress dst_mac \<lparr>dg_dst = dst, dg_source = src, dg_ttl = ttl, dg_payload = payload\<rparr>) d"

definition dp_send_udp_group ::
  "outside \<Rightarrow> dispatcher \<Rightarrow> capture_key \<Rightarrow> socket_addr \<Rightarrow> datagram_source \<Rightarrow> u8 \<Rightarrow> bytes
   \<Rightarrow> (io_error fault, unit) result \<times> dispatcher" where
  "dp_send_udp_group os d egress dst src ttl payload =
     with_egress (eg_send_udp_group os egress \<lparr>dg_dst = dst, dg_source = src, dg_ttl = ttl, dg_payload = payload\<rparr>) d"

definition dp_send_udp_to_peers ::
  "outside \<Rightarrow> dispatcher \<Rightarrow> capture_key \<Rightarrow> ipaddr list \<Rightarrow> socket_addr \<Rightarrow> datagram_source \<Rightarrow> u8 \<Rightarrow> bytes
   \<Rightarrow> (io_error fault, unit) result \<times> dispatcher" where
  "dp_send_udp_to_peers os d egress peers dst src ttl payload =
     with_egress (eg_send_udp_to_peers os egress peers \<lparr>dg_dst = dst, dg_source = src, dg_ttl = ttl, dg_payload = payload\<rparr>) d"

definition delivery_send ::
  "outside \<Rightarrow> delivery \<Rightarrow> dispatcher \<Rightarrow> capture_key \<Rightarrow> socket_addr \<Rightarrow> datagram_source \<Rightarrow> u8 \<Rightarrow> bytes
   \<Rightarrow> (io_error fault, unit) result \<times> dispatcher" where
  "delivery_send os dl d egress dst src ttl payload =
     (case dl of
        Link \<Rightarrow> dp_send_udp_group os d egress dst src ttl payload
      | Peers peers \<Rightarrow> dp_send_udp_to_peers os d egress peers dst src ttl payload
      | Unicast to mac \<Rightarrow> dp_send_udp os d egress to mac src ttl payload)"

section \<open>Building a reflector\<close>

datatype ip_family = Ipv4Family | Ipv6Family

type_synonym interface_map = "(interface_name, capture_key) linear_map"

datatype build_error =
    UnknownInterface interface_name
  | RequiredFamilyUnavailable interface_name ip_family
  | MacsUnmatchable interface_name
  | InterfaceGone interface_name
  | GroupJoin ipaddr interface_name join_error

definition im_require :: "interface_map \<Rightarrow> interface_name \<Rightarrow> (build_error, capture_key) result" where
  "im_require m name = (case lm_get m name of Some k \<Rightarrow> Inr k | None \<Rightarrow> Inl (UnknownInterface name))"

definition directional_verdict :: "('k \<Rightarrow> message_type) \<Rightarrow> 'k option \<Rightarrow> 'k \<Rightarrow> verdict" where
  "directional_verdict into k reflect =
     (case k of
        Some k \<Rightarrow> if k = reflect then Reflect (into k) else Skip (into k)
      | None \<Rightarrow> Junk)"

definition require_macs_matchable ::
  "dispatcher \<Rightarrow> mac_addr list option \<Rightarrow> capture_key \<Rightarrow> interface_name \<Rightarrow> (build_error, unit) result" where
  "require_macs_matchable d macs target target_if =
     (if macs \<noteq> None \<and> is_some_and (dp_link_type d target) (\<lambda>link. link \<noteq> Ethernet)
      then Inl (MacsUnmatchable target_if) else Inr ())"

definition egress_sources :: "dispatcher \<Rightarrow> capture_key \<Rightarrow> socket_addr \<Rightarrow> bool" where
  "egress_sources d egress dst =
     is_some_and (dp_egress_addrs d egress) (\<lambda>addrs. case fst dst of V4 _ \<Rightarrow> has_v4 addrs | V6 _ \<Rightarrow> has_v6 addrs)"

definition missing_required_family :: "address_family \<Rightarrow> interface_addresses \<Rightarrow> ip_family option" where
  "missing_required_family family addrs =
     (if requires_ipv4 family \<and> \<not> has_v4 addrs then Some Ipv4Family
      else if requires_ipv6 family \<and> \<not> has_v6 addrs then Some Ipv6Family
      else None)"

definition addrs_or_default :: "dispatcher \<Rightarrow> capture_key \<Rightarrow> interface_addresses" where
  "addrs_or_default d c = (case dp_egress_addrs d c of Some a \<Rightarrow> a | None \<Rightarrow> addresses_default)"

definition require_egress_family ::
  "dispatcher \<Rightarrow> capture_key \<Rightarrow> interface_name \<Rightarrow> address_family \<Rightarrow> (build_error, unit) result" where
  "require_egress_family d egress egress_if family =
     (case missing_required_family family (addrs_or_default d egress) of
        Some f \<Rightarrow> Inl (RequiredFamilyUnavailable egress_if f)
      | None \<Rightarrow> Inr ())"

definition require_both_sides_family ::
  "dispatcher \<Rightarrow> address_family \<Rightarrow> capture_key \<Rightarrow> interface_name \<Rightarrow> capture_key \<Rightarrow> interface_name \<Rightarrow> (build_error, unit) result" where
  "require_both_sides_family d family src src_if tgt tgt_if =
     (let s = addrs_or_default d src; t = addrs_or_default d tgt in
      if requires_ipv4 family \<and> \<not> (has_v4 s \<and> has_v4 t)
        then Inl (RequiredFamilyUnavailable (if \<not> has_v4 s then src_if else tgt_if) Ipv4Family)
      else if requires_ipv6 family \<and> \<not> (has_v6 s \<and> has_v6 t)
        then Inl (RequiredFamilyUnavailable (if \<not> has_v6 s then src_if else tgt_if) Ipv6Family)
      else Inr ())"

definition group_addrs :: "address_family \<Rightarrow> u16 \<Rightarrow> ipv4 \<Rightarrow> ipv6 list \<Rightarrow> socket_addr list" where
  "group_addrs family port v4 v6 =
     (if uses_ipv4 family then [(V4 v4, port)] else [])
   @ (if uses_ipv6 family then map (\<lambda>g. (V6 g, port)) v6 else [])"

definition join_failure :: "join_error \<Rightarrow> ipaddr \<Rightarrow> interface_name \<Rightarrow> build_error" where
  "join_failure e grp name = (case e of JoinGone \<Rightarrow> InterfaceGone name | _ \<Rightarrow> GroupJoin grp name e)"

text \<open>A build threads the dispatcher; what it changed before an error stays changed.\<close>

definition require_group_join ::
  "kernel \<Rightarrow> capture_key \<Rightarrow> ipaddr \<Rightarrow> interface_name \<Rightarrow> wanted \<Rightarrow> instant \<Rightarrow> dispatcher
   \<Rightarrow> ((build_error, unit) result \<times> dispatcher) option" where
  "require_group_join kn capture grp name w now d =
     map_option (\<lambda>(r, d). (case r of Inl e \<Rightarrow> Inl (join_failure e grp name) | Inr _ \<Rightarrow> Inr (), d))
       (dp_join_group kn d capture grp w now)"

text \<open>The joins of a build, in order, until one fails.\<close>

fun join_each ::
  "kernel \<Rightarrow> instant \<Rightarrow> (capture_key \<times> ipaddr \<times> interface_name \<times> wanted) list \<Rightarrow> dispatcher
   \<Rightarrow> ((build_error, unit) result \<times> dispatcher) option" where
  "join_each kn now [] d = Some (Inr (), d)"
| "join_each kn now ((capture, grp, name, w) # js) d =
     (case require_group_join kn capture grp name w now d of
        None \<Rightarrow> None
      | Some (Inl e, d) \<Rightarrow> Some (Inl e, d)
      | Some (Inr _, d) \<Rightarrow> join_each kn now js d)"

definition open_pair ::
  "kernel \<Rightarrow> instant \<Rightarrow> reflector \<Rightarrow> interface_map \<Rightarrow> string \<Rightarrow> socket_addr list \<Rightarrow> dispatcher
   \<Rightarrow> ((build_error, capture_key \<times> capture_key) result \<times> dispatcher) option" where
  "open_pair kn now r interfaces label groups d =
     (case im_require interfaces (rf_source_if r) of
        Inl e \<Rightarrow> Some (Inl e, d)
      | Inr src \<Rightarrow>
     (case im_require interfaces (rf_target_if r) of
        Inl e \<Rightarrow> Some (Inl e, d)
      | Inr tgt \<Rightarrow>
     (case require_both_sides_family d (rf_family r) src (rf_source_if r) tgt (rf_target_if r) of
        Inl e \<Rightarrow> Some (Inl e, d)
      | Inr _ \<Rightarrow>
     (case require_macs_matchable d (rf_macs r) tgt (rf_target_if r) of
        Inl e \<Rightarrow> Some (Inl e, d)
      | Inr _ \<Rightarrow>
          map_option (\<lambda>(res, d). (case res of Inl e \<Rightarrow> Inl e | Inr _ \<Rightarrow> Inr (src, tgt), d))
            (join_each kn now
              (concat (map (\<lambda>g. let w = \<lparr>wa_label = label, wa_required = family_requires (rf_family r) (fst g), wa_wait_level = LvInfo\<rparr>
                 in [(src, fst g, rf_source_if r, w), (tgt, fst g, rf_target_if r, w)]) groups)) d)))))"

end
