(* ===== verification/Simple_Reflector.thy ===== *)
theory Simple_Reflector
  imports Reflector
begin

text \<open>
  \<^verbatim>\<open>src/src/reflector/simple.rs\<close>: the stateless reflector. It classifies a packet, decides where it goes
  and what it says, and sends it; the rewrites of \<^verbatim>\<open>src/src/reflector/mdns.rs\<close> and
  \<^verbatim>\<open>src/src/reflector/ssdp.rs\<close> are here too, since it calls them. \<open>None\<close> is a panic: of a frame builder,
  of an arena, or of a write past a buffer.
\<close>

section \<open>How a re-emit is stamped\<close>

definition source_port_resolve :: "source_port \<Rightarrow> packet \<Rightarrow> u16" where
  "source_port_resolve sp p = (case sp of FixedPort port \<Rightarrow> port | CapturedPort \<Rightarrow> snd (p_source p))"

definition source_resolve :: "source \<Rightarrow> packet \<Rightarrow> datagram_source" where
  "source_resolve s p = (case s of FromEgress port \<Rightarrow> EgressSource (source_port_resolve port p) | CapturedSource \<Rightarrow> Exact (p_source p))"

definition ttl_resolve :: "ttl \<Rightarrow> packet \<Rightarrow> u8" where
  "ttl_resolve t p = (case t of FixedTtl v \<Rightarrow> v | CapturedTtl \<Rightarrow> p_ttl p)"

definition emit_fixed :: "u16 \<Rightarrow> u8 \<Rightarrow> emit" where
  "emit_fixed port ttl = \<lparr>em_source = FromEgress (FixedPort port), em_ttl = FixedTtl ttl, em_unicast = Nowhere\<rparr>"

definition emit_captured_from_egress :: emit where
  "emit_captured_from_egress = \<lparr>em_source = FromEgress CapturedPort, em_ttl = CapturedTtl, em_unicast = Nowhere\<rparr>"

definition emit_reply :: "u8 \<Rightarrow> emit" where
  "emit_reply ttl = \<lparr>em_source = FromEgress CapturedPort, em_ttl = FixedTtl ttl, em_unicast = Nowhere\<rparr>"

definition emit_captured :: emit where
  "emit_captured = \<lparr>em_source = CapturedSource, em_ttl = CapturedTtl, em_unicast = Nowhere\<rparr>"

definition unicast_to_broadcast :: "emit \<Rightarrow> emit" where
  "unicast_to_broadcast e = e\<lparr>em_unicast := ToBroadcast\<rparr>"

definition unicast_to_group :: "emit \<Rightarrow> ipv4 \<Rightarrow> ipv6 \<Rightarrow> emit" where
  "unicast_to_group e v4 v6 = e\<lparr>em_unicast := ToGroup v4 v6\<rparr>"

definition V6_ALL_NODES :: ipv6 where "V6_ALL_NODES = 0xff020000000000000000000000000001"

definition link_destination :: "socket_addr \<Rightarrow> ipv4 option \<Rightarrow> unicast_to \<Rightarrow> socket_addr option" where
  "link_destination dest directed unicast =
     (let port = snd dest in
      case fst dest of
        V4 v4 \<Rightarrow>
          if v4_is_multicast v4 \<or> v4_is_broadcast v4 then Some dest
          else (case unicast of
                  Nowhere \<Rightarrow> None
                | ToBroadcast \<Rightarrow> Some (V4 (case directed of Some b \<Rightarrow> b | None \<Rightarrow> 0xffffffff), port)
                | ToGroup g4 _ \<Rightarrow> Some (V4 g4, port))
      | V6 v6 \<Rightarrow>
          if v6_is_multicast v6 then Some dest
          else (case unicast of
                  Nowhere \<Rightarrow> None
                | ToBroadcast \<Rightarrow> Some (V6 V6_ALL_NODES, port)
                | ToGroup _ g6 \<Rightarrow> Some (V6 g6, port)))"

section \<open>Rewrites\<close>

definition service_judge :: "service_filter \<Rightarrow> packet \<Rightarrow> rewrite" where
  "service_judge f p =
     (case decide f (p_payload p) of
        DecisionPass \<Rightarrow> Verbatim
      | DecisionRefuse _ \<Rightarrow> RewriteRefused
      | DecisionTrim payload _ _ \<Rightarrow> Replaced payload
      | DecisionMalformed \<Rightarrow> Unreadable)"

definition response_judge :: "service_filter option \<Rightarrow> packet \<Rightarrow> rewrite" where
  "response_judge services p =
     (let addressed = (\<lambda>trimmed.
            case strip (case trimmed of Some payload \<Rightarrow> payload | None \<Rightarrow> p_payload p) of
              Some (payload, _) \<Rightarrow> Replaced payload
            | None \<Rightarrow> (case trimmed of Some payload \<Rightarrow> Replaced payload | None \<Rightarrow> Verbatim))
      in case services of
           None \<Rightarrow> addressed None
         | Some f \<Rightarrow>
             (case service_judge f p of
                Verbatim \<Rightarrow> addressed None
              | Replaced payload \<Rightarrow> addressed (Some payload)
              | RewriteRefused \<Rightarrow> RewriteRefused
              | Unreadable \<Rightarrow> Unreadable))"

text \<open>The scratch of the DIAL rewrite holds a whole frame.\<close>

definition dial_judge ::
  "'h dial_system \<Rightarrow> capture_key \<Rightarrow> packet \<Rightarrow> capture_key \<Rightarrow> instant \<Rightarrow> dispatcher \<times> 'h reactor
   \<Rightarrow> (rewrite \<times> dispatcher \<times> 'h reactor) option" where
  "dial_judge dw target p egress now = (\<lambda>(d, rx).
     case (Option.bind (dp_egress_addrs d egress) ia_v4, Option.bind (dp_egress_addrs d target) ia_v4) of
       (Some src, Some tgt) \<Rightarrow>
         (let (ctx, target_iface) = dp_dial_context d target;
              placement = \<lparr>pp_source_capture = egress, pp_source = src, pp_target_capture = target, pp_target = tgt,
                pp_target_iface = target_iface\<rparr>
          in map_option (\<lambda>(out, ctx, rx). (case out of Some payload \<Rightarrow> Replaced payload | None \<Rightarrow> Verbatim, d\<lparr>dp_dial := ctx\<rparr>, rx))
               (rewrite_location dw ctx rx (p_payload p) placement MAX_FRAME_LEN now))
     | _ \<Rightarrow> Some (Verbatim, d, rx))"

definition rewrite_with ::
  "'h dial_system \<Rightarrow> rewriter \<Rightarrow> packet \<Rightarrow> capture_key \<Rightarrow> instant \<Rightarrow> dispatcher \<times> 'h reactor
   \<Rightarrow> (rewrite \<times> dispatcher \<times> 'h reactor) option" where
  "rewrite_with dw rw p egress now st =
     (case rw of
        NoRewrite \<Rightarrow> Some (Verbatim, st)
      | ServiceGate f \<Rightarrow> Some (service_judge f p, st)
      | ResponseGate services \<Rightarrow> Some (response_judge services p, st)
      | DialRewrite target \<Rightarrow> dial_judge dw target p egress now st)"

definition keeps_advertised_addresses :: "rewriter \<Rightarrow> bool" where
  "keeps_advertised_addresses rw = (case rw of DialRewrite _ \<Rightarrow> False | _ \<Rightarrow> True)"

section \<open>The reflector\<close>

definition simple_new :: "capture_key \<Rightarrow> delivery \<Rightarrow> (packet \<Rightarrow> verdict) \<Rightarrow> emit \<Rightarrow> simple_reflector" where
  "simple_new egress delivery gate stamp = \<lparr>sr_egress = egress, sr_delivery = delivery, sr_classify = gate, sr_emit = stamp,
     sr_rewrite = NoRewrite, sr_suppress = (\<lambda>_. False)\<rparr>"

definition with_rewrite :: "rewriter \<Rightarrow> simple_reflector \<Rightarrow> simple_reflector" where
  "with_rewrite rw s = s\<lparr>sr_rewrite := rw\<rparr>"

definition with_suppress :: "(bytes \<Rightarrow> bool) \<Rightarrow> simple_reflector \<Rightarrow> simple_reflector" where
  "with_suppress f s = s\<lparr>sr_suppress := f\<rparr>"

definition simple_destination :: "simple_reflector \<Rightarrow> packet \<Rightarrow> dispatcher \<Rightarrow> socket_addr option" where
  "simple_destination s p d =
     (case sr_delivery s of
        Unicast to _ \<Rightarrow> Some to
      | _ \<Rightarrow> link_destination (p_dest p) (Option.bind (dp_egress_addrs d (sr_egress s)) v4_directed_broadcast) (em_unicast (sr_emit s)))"

text \<open>The payload that goes out, or the outcome that keeps it in.\<close>

definition judged_payload :: "simple_reflector \<Rightarrow> packet \<Rightarrow> message_type \<Rightarrow> rewrite \<Rightarrow> (outcome, bytes) result" where
  "judged_payload s p t rw =
     (let check = (\<lambda>payload checked. if checked \<and> sr_suppress s payload then Inl (Dropped t) else Inr payload)
      in case rw of
           Verbatim \<Rightarrow> check (p_payload p) True
         | Replaced payload \<Rightarrow> check payload (keeps_advertised_addresses (sr_rewrite s))
         | RewriteRefused \<Rightarrow> Inl (Refused t)
         | Unreadable \<Rightarrow> Inl (Dropped t))"

definition sent_outcome :: "message_type \<Rightarrow> (io_error fault, unit) result \<Rightarrow> outcome option" where
  "sent_outcome t r = (case r of Inr _ \<Rightarrow> Some (Reflected t) | Inl (Err _) \<Rightarrow> Some (Dropped t) | Inl Panic \<Rightarrow> None)"

definition simple_on_packet ::
  "'h world \<Rightarrow> simple_reflector \<Rightarrow> packet \<Rightarrow> instant \<Rightarrow> dispatcher \<times> 'h reactor \<Rightarrow> (outcome \<times> dispatcher \<times> 'h reactor) option" where
  "simple_on_packet w s p now st =
     (case sr_classify s p of
        Skip t \<Rightarrow> Some (Skipped t, st)
      | Excluded \<Rightarrow> Some (Filtered, st)
      | Junk \<Rightarrow> Some (Filtered, st)
      | Reflect t \<Rightarrow>
          if delivery_destination (sr_delivery s) (fst (p_dest p)) = None then Some (Filtered, st)
          else
            (case simple_destination s p (fst st) of
               None \<Rightarrow> Some (Filtered, st)
             | Some dest \<Rightarrow>
                 if \<not> egress_sources (fst st) (sr_egress s) dest then Some (Stalled t, st)
                 else
                   Option.bind (rewrite_with (w_dial w) (sr_rewrite s) p (sr_egress s) now st) (\<lambda>(rw, d, rx).
                     case judged_payload s p t rw of
                       Inl out \<Rightarrow> Some (out, d, rx)
                     | Inr payload \<Rightarrow>
                         (let (r, d) = delivery_send (w_outside w) (sr_delivery s) d (sr_egress s) dest
                                (source_resolve (em_source (sr_emit s)) p) (ttl_resolve (em_ttl (sr_emit s)) p) payload
                          in map_option (\<lambda>out. (out, d, rx)) (sent_outcome t r)))))"

section \<open>What a call leaves alone\<close>

text \<open>A send works on the egress path and the table, a rewrite on the DIAL registry.\<close>

definition sent_by :: "dispatcher \<Rightarrow> dispatcher \<Rightarrow> bool" where
  "sent_by d d' \<longleftrightarrow> sends (dp_egress d, dp_table d) (dp_egress d', dp_table d')
     \<and> d' = d\<lparr>dp_egress := dp_egress d', dp_table := dp_table d'\<rparr>"

lemma sent_by_refl [simp]: "sent_by d d"
  by (simp add: sent_by_def)

lemma sent_by_reads: "sent_by d d' \<Longrightarrow> dp_egress_addrs d' c = dp_egress_addrs d c \<and> dp_registrations d' = dp_registrations d
    \<and> dp_dial d' = dp_dial d \<and> dp_lifecycle d' = dp_lifecycle d \<and> dp_reassembly d' = dp_reassembly d \<and> dp_reservations d' = dp_reservations d"
  by (cases d; cases d') (auto simp: sent_by_def sends_def dp_egress_addrs_def)

lemma sent_by_path: "sent_by d d' \<Longrightarrow> path_ok (dp_egress d) \<Longrightarrow> path_ok (dp_egress d')"
  using sends_path_ok by (fastforce simp: sent_by_def)

lemma with_egress_sent:
  assumes "with_egress f d = (r, d')" "\<And>r' s'. f (dp_egress d, dp_table d) = (r', s') \<Longrightarrow> sends (dp_egress d, dp_table d) s' \<and> r' \<noteq> Inl Panic"
  shows "sent_by d d' \<and> r \<noteq> Inl Panic"
  using assms by (cases "f (dp_egress d, dp_table d)") (fastforce simp: with_egress_def sent_by_def)

lemma delivery_send_facts:
  assumes "delivery_send os dl d egress dst src ttl payload = (r, d')" "path_ok (dp_egress d)"
  shows "sent_by d d' \<and> r \<noteq> Inl Panic"
proof (cases dl)
  case Link
  with assms(1) show ?thesis
    by (auto simp: delivery_send_def dp_send_udp_group_def intro!: with_egress_sent dest: send_udp_group_facts [OF _ assms(2)])
next
  case (Peers peers)
  have "sends (dp_egress d, dp_table d) s' \<and> r' \<noteq> Inl Panic"
    if "eg_send_udp_to_peers os egress peers dg (dp_egress d, dp_table d) = (r', s')" for dg r' s'
    using that send_to_each_facts [OF _ assms(2)] by (simp add: eg_send_udp_to_peers_def)
  with Peers assms(1) show ?thesis
    by (auto simp: delivery_send_def dp_send_udp_to_peers_def intro!: with_egress_sent)
next
  case (Unicast to mac)
  with assms(1) show ?thesis
    by (auto simp: delivery_send_def dp_send_udp_def intro!: with_egress_sent dest: send_udp_facts [OF _ assms(2)])
qed

lemma rewrite_with_frame:
  assumes "rewrite_with dw rw p egress now (d, rx) = Some (r, d', rx')"
  shows "d' = d\<lparr>dp_dial := dp_dial d'\<rparr>"
  using assms by (auto simp: rewrite_with_def dial_judge_def dp_dial_context_def split: rewriter.split_asm option.split_asm)

lemma dial_only: "d' = d\<lparr>dp_dial := ctx\<rparr> \<Longrightarrow> dp_registrations d' = dp_registrations d \<and> dp_egress d' = dp_egress d \<and> dp_table d' = dp_table d
    \<and> dp_egress_addrs d' = dp_egress_addrs d"
  by (simp add: dp_egress_addrs_def fun_eq_iff)

section \<open>What goes out\<close>

text \<open>The whole of a call: nothing is sent, or one payload is, judged fit, from a state only a rewrite touched.\<close>

lemma simple_on_packet_cases:
  assumes "simple_on_packet w s p now (d, rx) = Some (out, d', rx')" "path_ok (dp_egress d)"
  obtains (kept) "d' = d\<lparr>dp_dial := dp_dial d'\<rparr>" "\<And>t. out \<noteq> Reflected t"
  | (sent) t dest rw d1 payload r where "sr_classify s p = Reflect t"
      "delivery_destination (sr_delivery s) (fst (p_dest p)) \<noteq> None" "simple_destination s p d = Some dest"
      "egress_sources d (sr_egress s) dest" "rewrite_with (w_dial w) (sr_rewrite s) p (sr_egress s) now (d, rx) = Some (rw, d1, rx')"
      "judged_payload s p t rw = Inr payload"
      "delivery_send (w_outside w) (sr_delivery s) d1 (sr_egress s) dest
         (source_resolve (em_source (sr_emit s)) p) (ttl_resolve (em_ttl (sr_emit s)) p) payload = (r, d')"
      "out = (if r = Inr () then Reflected t else Dropped t)" "d1 = d\<lparr>dp_dial := dp_dial d1\<rparr>" "sent_by d1 d'"
proof (cases "sr_classify s p")
  case (Reflect t)
  show thesis
  proof (cases "delivery_destination (sr_delivery s) (fst (p_dest p)) = None \<or> simple_destination s p d = None
      \<or> \<not> egress_sources d (sr_egress s) (the (simple_destination s p d))")
    case True
    with Reflect assms(1) show thesis
      by (intro kept) (auto simp: simple_on_packet_def split: option.split_asm if_split_asm)
  next
    case False
    then obtain dest where go: "delivery_destination (sr_delivery s) (fst (p_dest p)) \<noteq> None" "simple_destination s p d = Some dest"
      "egress_sources d (sr_egress s) dest" by auto
    with Reflect assms(1) obtain rw d1 rx1 where rw: "rewrite_with (w_dial w) (sr_rewrite s) p (sr_egress s) now (d, rx) = Some (rw, d1, rx1)"
      by (auto simp: simple_on_packet_def bind_eq_Some_conv)
    note d1 = rewrite_with_frame [OF rw]
    show thesis
    proof (cases "judged_payload s p t rw")
      case (Inl out')
      have "out' \<noteq> Reflected t'" for t' using Inl by (auto simp: judged_payload_def Let_def split: rewrite.split_asm if_split_asm)
      with Reflect go rw Inl assms(1) d1 show thesis by (intro kept) (auto simp: simple_on_packet_def)
    next
      case (Inr payload)
      obtain r d2 where send: "delivery_send (w_outside w) (sr_delivery s) d1 (sr_egress s) dest
         (source_resolve (em_source (sr_emit s)) p) (ttl_resolve (em_ttl (sr_emit s)) p) payload = (r, d2)" by fastforce
      have "path_ok (dp_egress d1)" using assms(2) dial_only [OF d1] by simp
      note f = delivery_send_facts [OF send this]
      have "d' = d2" "rx' = rx1" "out = (if r = Inr () then Reflected t else Dropped t)"
        using Reflect go rw Inr assms(1) send f by (auto simp: simple_on_packet_def sent_outcome_def split: sum.split_asm fault.split_asm)
      with Reflect go rw Inr send d1 f show thesis by (intro sent [of t dest rw d1 payload r]) auto
    qed
  qed
qed (use assms(1) in \<open>auto simp: simple_on_packet_def intro: kept\<close>)

end
