(* ===== verification/Search_Reflector.thy ===== *)
theory Search_Reflector
  imports Simple_Reflector
begin

text \<open>
  \<^verbatim>\<open>src/src/reflector/search.rs\<close>: the search direction of SSDP and WS-Discovery. A search goes out from a
  port reserved for its searcher, where a registration of its own waits for the replies and sends
  them back to that searcher. Sessions expire, and are dropped when the target interface changes.
  Dropping a reservation frees its port, which is the system's business and leaves no trace here.
\<close>

section \<open>Sessions\<close>

definition MAX_SESSIONS :: nat where "MAX_SESSIONS = 64"

definition sp_groups :: "search_protocol \<Rightarrow> address_family \<Rightarrow> socket_addr list" where
  "sp_groups pr family = group_addrs family (sp_port pr) (sp_group_v4 pr) (sp_groups_v6 pr)"

definition search_new ::
  "capture_key \<Rightarrow> capture_key \<Rightarrow> delivery \<Rightarrow> mac_addr list option \<Rightarrow> search_protocol \<Rightarrow> rewriter \<Rightarrow> search_reflector" where
  "search_new src tgt delivery macs pr make_reply = \<lparr>se_source = src, se_target = tgt, se_delivery = delivery, se_device_macs = macs,
     se_protocol = pr, se_make_reply = make_reply, se_sessions = lm_new\<rparr>"

definition reply_source :: "dispatcher \<Rightarrow> capture_key \<Rightarrow> ipaddr \<Rightarrow> ipaddr option" where
  "reply_source d target dest =
     (case dest of
        V4 _ \<Rightarrow> map_option V4 (Option.bind (dp_egress_addrs d target) ia_v4)
      | V6 dst6 \<Rightarrow> map_option V6 (Option.bind (dp_egress_addrs d target) (\<lambda>a. v6_for a (scope_of_v6 dst6))))"

text \<open>\<^verbatim>\<open>PortReservation::create\<close>: the system binds a port, if it can.\<close>

definition reserve :: "'h world \<Rightarrow> dispatcher \<Rightarrow> ipaddr \<Rightarrow> u32 \<Rightarrow> (io_error, socket_addr) result \<times> dispatcher" where
  "reserve w d addr ix =
     (case w_reserve w (dp_reservations d) addr ix of Inl e \<Rightarrow> Inl e | Inr port \<Rightarrow> Inr (addr, port),
      d\<lparr>dp_reservations := Suc (dp_reservations d)\<rparr>)"

definition reply_filter :: "search_reflector \<Rightarrow> socket_addr \<Rightarrow> packet_filter" where
  "reply_filter s reserved = filter_default\<lparr>fi_dst_ip := Some [fst reserved], fi_dst_port := Some [snd reserved],
     fi_src_mac := se_device_macs s\<rparr>"

definition reply_leg :: "search_reflector \<Rightarrow> packet \<Rightarrow> simple_reflector" where
  "reply_leg s p =
     with_suppress (sp_suppress (se_protocol s)) (with_rewrite (se_make_reply s)
       (simple_new (se_source s)
          (Unicast (p_source p) (case p_src_mac p of Some mac \<Rightarrow> mac | None \<Rightarrow> mac_broadcast))
          (\<lambda>_. Reflect (sp_response_type (se_protocol s)))
          (emit_reply (sp_ttl (se_protocol s)))))"

definition make_session ::
  "'h world \<Rightarrow> search_reflector \<Rightarrow> packet \<Rightarrow> ipaddr \<Rightarrow> dispatcher \<Rightarrow> instant \<Rightarrow> message_type
   \<Rightarrow> ((outcome, session) result \<times> dispatcher) option" where
  "make_session w s p destination d expiry t =
     (if MAX_SESSIONS \<le> lm_len (se_sessions s) then Some (Inl (Dropped t), d)
      else case reply_source d (se_target s) destination of
          None \<Rightarrow> Some (Inl (Stalled t), d)
        | Some our_addr \<Rightarrow>
            (case reserve w d our_addr (case ifindex_of (dp_table d) (se_target s) of Some ix \<Rightarrow> ix | None \<Rightarrow> 0) of
               (Inl _, d) \<Rightarrow> Some (Inl (Dropped t), d)
             | (Inr reserved, d) \<Rightarrow>
                 map_option (\<lambda>(k, d). (Inr \<lparr>ss_expiry = expiry, ss_source = reserved, ss_response_key = k\<rparr>, d))
                   (dp_register d (se_target s) (reply_filter s reserved) (SimpleHandler (reply_leg s p)))))"

section \<open>The reflector\<close>

definition search_send :: "'h world \<Rightarrow> search_reflector \<Rightarrow> packet \<Rightarrow> socket_addr \<Rightarrow> dispatcher \<Rightarrow> (io_error fault, unit) result \<times> dispatcher" where
  "search_send w s p src d =
     delivery_send (w_outside w) (se_delivery s) d (se_target s) (p_dest p) (Exact src) (sp_ttl (se_protocol s)) (p_payload p)"

definition search_on_packet ::
  "'h world \<Rightarrow> search_reflector \<Rightarrow> packet \<Rightarrow> instant \<Rightarrow> dispatcher \<Rightarrow> (outcome \<times> search_reflector \<times> dispatcher) option" where
  "search_on_packet w s p now d =
     (case sp_search_verdict (se_protocol s) (p_payload p) of
        Skip t \<Rightarrow> Some (Skipped t, s, d)
      | Excluded \<Rightarrow> Some (Filtered, s, d)
      | Junk \<Rightarrow> Some (Filtered, s, d)
      | Reflect t \<Rightarrow>
     (case delivery_destination (se_delivery s) (fst (p_dest p)) of
        None \<Rightarrow> Some (Filtered, s, d)
      | Some destination \<Rightarrow>
          let expiry = now + sp_window (se_protocol s) (p_payload p);
              k = \<lparr>sk_searcher = p_source p, sk_dest = p_dest p\<rparr>
          in case lm_get (se_sessions s) k of
               Some session \<Rightarrow>
                 (case search_send w s p (ss_source session) d of
                    (Inr _, d) \<Rightarrow> Some (Reflected t,
                        s\<lparr>se_sessions := lm_get_mut (se_sessions s) k (\<lambda>v. v\<lparr>ss_expiry := max (ss_expiry v) expiry\<rparr>)\<rparr>, d)
                  | (Inl (Err _), d) \<Rightarrow> Some (Dropped t, s, d)
                  | (Inl Panic, _) \<Rightarrow> None)
             | None \<Rightarrow>
                 Option.bind (make_session w s p destination d expiry t) (\<lambda>(r, d).
                   case r of
                     Inl out \<Rightarrow> Some (out, s, d)
                   | Inr session \<Rightarrow>
                       (case search_send w s p (ss_source session) d of
                          (Inr _, d) \<Rightarrow> Some (Reflected t, s\<lparr>se_sessions := fst (lm_insert (se_sessions s) k session)\<rparr>, d)
                        | (Inl (Err _), d) \<Rightarrow> Some (Dropped t, s, dp_unregister d (ss_response_key session))
                        | (Inl Panic, _) \<Rightarrow> None))))"

definition search_next_deadline :: "search_reflector \<Rightarrow> instant option" where
  "search_next_deadline s = min_instant (map (\<lambda>(_, v). ss_expiry v) (lm_iter (se_sessions s)))"

text \<open>The registrations go with the sessions that expired, in the order of the walk.\<close>

definition search_on_deadline :: "search_reflector \<Rightarrow> instant \<Rightarrow> dispatcher \<Rightarrow> search_reflector \<times> dispatcher" where
  "search_on_deadline s now d =
     (let gone = filter (\<lambda>(_, v). ss_expiry v \<le> now) (lm_iter (se_sessions s))
      in (s\<lparr>se_sessions := lm_retain (\<lambda>_ v. (\<not> ss_expiry v \<le> now, v)) (se_sessions s)\<rparr>,
          fold (\<lambda>(_, v) d. dp_unregister d (ss_response_key v)) gone d))"

definition search_on_iface_change :: "search_reflector \<Rightarrow> capture_key list \<Rightarrow> dispatcher \<Rightarrow> search_reflector \<times> dispatcher" where
  "search_on_iface_change s captures d =
     (if lm_is_empty (se_sessions s) \<or> se_target s \<notin> set captures then (s, d)
      else (s\<lparr>se_sessions := lm_clear (se_sessions s)\<rparr>,
            fold (\<lambda>(_, v) d. dp_unregister d (ss_response_key v)) (lm_iter (se_sessions s)) d))"

section \<open>Any handler\<close>

definition on_packet ::
  "'h world \<Rightarrow> packet_handler \<Rightarrow> packet \<Rightarrow> instant \<Rightarrow> dispatcher \<times> 'h reactor
   \<Rightarrow> (outcome \<times> packet_handler \<times> dispatcher \<times> 'h reactor) option" where
  "on_packet w h p now st =
     (case h of
        SimpleHandler s \<Rightarrow> map_option (\<lambda>(out, st). (out, SimpleHandler s, st)) (simple_on_packet w s p now st)
      | SearchHandler s \<Rightarrow>
          map_option (\<lambda>(out, s, d). (out, SearchHandler s, d, snd st)) (search_on_packet w s p now (fst st)))"

definition handler_next_deadline :: "packet_handler \<Rightarrow> instant option" where
  "handler_next_deadline h = (case h of SimpleHandler _ \<Rightarrow> None | SearchHandler s \<Rightarrow> search_next_deadline s)"

definition handler_on_deadline :: "packet_handler \<Rightarrow> instant \<Rightarrow> dispatcher \<Rightarrow> packet_handler \<times> dispatcher" where
  "handler_on_deadline h now d =
     (case h of
        SimpleHandler s \<Rightarrow> (h, d)
      | SearchHandler s \<Rightarrow> (case search_on_deadline s now d of (s, d) \<Rightarrow> (SearchHandler s, d)))"

definition handler_on_iface_change :: "packet_handler \<Rightarrow> capture_key list \<Rightarrow> dispatcher \<Rightarrow> packet_handler \<times> dispatcher" where
  "handler_on_iface_change h captures d =
     (case h of
        SimpleHandler s \<Rightarrow> (h, d)
      | SearchHandler s \<Rightarrow> (case search_on_iface_change s captures d of (s, d) \<Rightarrow> (SearchHandler s, d)))"

end
