(* ===== verification/Dispatch.thy ===== *)
theory Dispatch
  imports Search_Reflector
begin

text \<open>
  \<^verbatim>\<open>src/src/dispatch.rs\<close>: the dispatcher at work. A captured frame is parsed, reassembled if it is a
  fragment, and routed to every registration whose filter admits it; the deadlines and the interface
  changes reach the handlers the same way, each taken out of its slot for its call and restored
  after it. What a capture reads is an argument of the drain, frame by frame, with the instant each
  is read at. \<open>None\<close> is a panic; the log lines are dropped.
\<close>

section \<open>Routing\<close>

definition is_own_echo :: "mac_addr option \<Rightarrow> mac_addr option \<Rightarrow> bool" where
  "is_own_echo src own =
     (case (src, own) of (Some src, Some own) \<Rightarrow> src = own \<and> \<not> mac_is_unspecified own | _ \<Rightarrow> False)"

definition rg_set_handler :: "packet_handler option \<Rightarrow> registration \<Rightarrow> registration" where
  "rg_set_handler h r = r\<lparr>rg_handler := h\<rparr>"

definition dp_take :: "dispatcher \<Rightarrow> key \<Rightarrow> dispatcher \<times> packet_handler option" where
  "dp_take d k =
     (let (a, h) = take_handler rg_handler rg_set_handler (dp_registrations d) k in (d\<lparr>dp_registrations := a\<rparr>, h))"

definition dp_restore :: "dispatcher \<Rightarrow> key \<Rightarrow> packet_handler \<Rightarrow> dispatcher" where
  "dp_restore d k h = d\<lparr>dp_registrations := restore_handler rg_set_handler (dp_registrations d) k h\<rparr>"

definition registration_keys :: "dispatcher \<Rightarrow> key list" where
  "registration_keys d = map fst (arena_iter (dp_registrations d))"

definition applies :: "registration \<Rightarrow> capture_key \<Rightarrow> packet \<Rightarrow> interface_addresses option \<Rightarrow> bool" where
  "applies r ingress p addrs \<longleftrightarrow> rg_ingress r = ingress \<and> filter_matches (rg_filter r) p addrs"

definition would_route :: "dispatcher \<Rightarrow> capture_key \<Rightarrow> packet \<Rightarrow> bool" where
  "would_route d ingress p =
     list_ex (\<lambda>(_, r). applies r ingress p (dp_egress_addrs d ingress)) (arena_iter (dp_registrations d))"

text \<open>The loop over the keys of the snapshot, with the outcome so far.\<close>

fun route_keys ::
  "'h world \<Rightarrow> capture_key \<Rightarrow> packet \<Rightarrow> interface_addresses option \<Rightarrow> instant \<Rightarrow> key list \<Rightarrow> outcome option \<Rightarrow> dispatcher \<times> 'h reactor
   \<Rightarrow> (outcome option \<times> dispatcher \<times> 'h reactor) option" where
  "route_keys w ingress p addrs now [] out st = Some (out, st)"
| "route_keys w ingress p addrs now (k # ks) out (d, rx) =
     (if \<not> is_some_and (arena_get (dp_registrations d) k) (\<lambda>r. applies r ingress p addrs)
      then route_keys w ingress p addrs now ks out (d, rx)
      else case dp_take d k of
          (_, None) \<Rightarrow> None
        | (d, Some h) \<Rightarrow>
            (case on_packet w h p now (d, rx) of
               None \<Rightarrow> None
             | Some (o', h, d, rx) \<Rightarrow>
                 route_keys w ingress p addrs now ks
                   (Some (case out of None \<Rightarrow> o' | Some prev \<Rightarrow> fst (combine prev o')))
                   (dp_restore d k h, rx)))"

definition route :: "'h world \<Rightarrow> capture_key \<Rightarrow> packet \<Rightarrow> instant \<Rightarrow> dispatcher \<times> 'h reactor \<Rightarrow> (dispatcher \<times> 'h reactor) option" where
  "route w ingress p now = (\<lambda>(d, rx).
     if is_own_echo (p_src_mac p) (Option.bind (dp_egress_addrs d ingress) ia_mac)
     then map_option (\<lambda>t. (d\<lparr>dp_table := t\<rparr>, rx)) (it_record_echo (dp_table d) ingress)
     else
       Option.bind (route_keys w ingress p (dp_egress_addrs d ingress) now (registration_keys d) None
           (d\<lparr>dp_egress := begin_packet (dp_egress d)\<rparr>, rx)) (\<lambda>(out, d, rx).
         let d = d\<lparr>dp_egress := end_packet (dp_egress d)\<rparr>
         in case out of
              None \<Rightarrow> Some (d, rx)
            | Some o' \<Rightarrow> map_option (\<lambda>t. (d\<lparr>dp_table := t\<rparr>, rx)) (it_record (dp_table d) ingress o')))"

section \<open>Draining a capture\<close>

definition MAX_FRAMES_PER_EVENT :: nat where "MAX_FRAMES_PER_EVENT = 64"

fun record_lost :: "lost list \<Rightarrow> interface_table \<Rightarrow> interface_table option" where
  "record_lost [] t = Some t"
| "record_lost (l # ls) t = Option.bind (it_record_unreassembled t (lo_ingress l)) (record_lost ls)"

definition reassemble_and_route ::
  "'h world \<Rightarrow> capture_key \<Rightarrow> fragment \<Rightarrow> instant \<Rightarrow> dispatcher \<times> 'h reactor \<Rightarrow> (dispatcher \<times> 'h reactor) option" where
  "reassemble_and_route w ingress f now = (\<lambda>(d, rx).
     let wanted = is_none_or (fragment_headers f) (would_route d ingress);
         (ra, done) = offer (dp_reassembly d) ingress f wanted now;
         (ra, lost) = drain_lost ra
     in Option.bind (record_lost lost (dp_table d)) (\<lambda>t.
          let d = d\<lparr>dp_reassembly := ra, dp_table := t\<rparr>
          in case done of
               None \<Rightarrow> Some (d, rx)
             | Some r \<Rightarrow>
                 map_option (\<lambda>(d, rx). (d\<lparr>dp_reassembly := recycle (dp_reassembly d) r\<rparr>, rx))
                   (case reassembled_packet r of
                      Inr p \<Rightarrow> route w ingress p now (d, rx)
                    | Inl (Err _) \<Rightarrow> map_option (\<lambda>t. (d\<lparr>dp_table := t\<rparr>, rx)) (it_record_unreassembled (dp_table d) ingress)
                    | Inl Panic \<Rightarrow> None)))"

text \<open>What \<^verbatim>\<open>next_frame\<close> answers, in the order it is asked: a frame, a frame too long for the buffer, nothing, or
  an error that may say the interface is lost. \<open>buffered\<close> is what \<^verbatim>\<open>has_buffered\<close> answers before each.\<close>

datatype read = FrameRead bytes | Oversized | NothingLeft | ReadFailed bool

record reading_step =
  rs_buffered :: bool
  rs_read :: read
  rs_now :: instant

fun drain_frames ::
  "'h world \<Rightarrow> capture_key \<Rightarrow> link_type \<Rightarrow> bool \<Rightarrow> reading_step list \<Rightarrow> nat \<Rightarrow> nat \<Rightarrow> dispatcher \<times> 'h reactor
   \<Rightarrow> (nat \<times> dispatcher \<times> 'h reactor) option" where
  "drain_frames w ingress link bound [] drained oversized st = Some (oversized, st)"
| "drain_frames w ingress link bound (s # ss) drained oversized (d, rx) =
     (if MAX_FRAMES_PER_EVENT \<le> drained \<and> \<not> rs_buffered s then Some (oversized, d, rx)
      else case rs_read s of
          Oversized \<Rightarrow> drain_frames w ingress link bound ss (Suc drained) (Suc oversized) (d, rx)
        | NothingLeft \<Rightarrow> Some (oversized, d, rx)
        | ReadFailed lost \<Rightarrow>
            Some (oversized, if lost then d\<lparr>dp_lifecycle := reconcile_now (dp_lifecycle d) (rs_now s)\<rparr> else d, rx)
        | FrameRead frame \<Rightarrow>
            if \<not> bound then drain_frames w ingress link bound ss (Suc drained) oversized (d, rx)
            else
              Option.bind
                (case parse_frame link frame of
                   Inr (Datagram p) \<Rightarrow> route w ingress p (rs_now s) (d, rx)
                 | Inr (Fragment f) \<Rightarrow> reassemble_and_route w ingress f (rs_now s) (d, rx)
                 | Inl _ \<Rightarrow> Some (d, rx))
                (drain_frames w ingress link bound ss (Suc drained) oversized))"

definition drain_and_route ::
  "'h world \<Rightarrow> capture_key \<Rightarrow> reading_step list \<Rightarrow> dispatcher \<times> 'h reactor \<Rightarrow> (dispatcher \<times> 'h reactor) option" where
  "drain_and_route w ingress reads = (\<lambda>(d, rx).
     case it_take (dp_table d) ingress of
       (None, t) \<Rightarrow> Some (d\<lparr>dp_table := t\<rparr>, rx)
     | (Some capture, t) \<Rightarrow>
         Option.bind (drain_frames w ingress (cp_link capture) (ifindex_of t ingress \<noteq> None) reads 0 0 (d\<lparr>dp_table := t\<rparr>, rx))
           (\<lambda>(oversized, d, rx).
             Option.bind (if 0 < oversized then it_record_oversized (dp_table d) ingress (word_of_nat oversized) else Some (dp_table d)) (\<lambda>t.
               Some (d\<lparr>dp_table := snd (it_restore t ingress capture)\<rparr>, rx))))"

section \<open>Interface changes\<close>

text \<open>Each handler of the snapshot that is still there is taken out, called and restored.\<close>

fun each_handler :: "(packet_handler \<Rightarrow> dispatcher \<Rightarrow> packet_handler \<times> dispatcher) \<Rightarrow> key list \<Rightarrow> dispatcher \<Rightarrow> dispatcher" where
  "each_handler f [] d = d"
| "each_handler f (k # ks) d =
     (case dp_take d k of
        (d, None) \<Rightarrow> each_handler f ks d
      | (d, Some h) \<Rightarrow> (case f h d of (h, d) \<Rightarrow> each_handler f ks (dp_restore d k h)))"

definition notify_iface_change :: "capture_key list \<Rightarrow> dispatcher \<Rightarrow> dispatcher" where
  "notify_iface_change captures d =
     (if captures = [] then d else each_handler (\<lambda>h. handler_on_iface_change h captures) (registration_keys d) d)"

definition evict_changed :: "'h world \<Rightarrow> capture_key list \<Rightarrow> dispatcher \<times> 'h reactor \<Rightarrow> dispatcher \<times> 'h reactor" where
  "evict_changed w captures = (\<lambda>(d, rx).
     case evict_on_interface_change (dw_poller (w_dial w)) captures rx (dp_dial d) of (rx, ctx) \<Rightarrow> (d\<lparr>dp_dial := ctx\<rparr>, rx))"

definition add_new :: "capture_key list \<Rightarrow> capture_key list \<Rightarrow> capture_key list" where
  "add_new changed captures = fold (\<lambda>c cs. if c \<in> set cs then cs else cs @ [c]) captures changed"

definition after_repair :: "'h world \<Rightarrow> capture_key list \<Rightarrow> rebuilt list \<Rightarrow> dispatcher \<times> 'h reactor \<Rightarrow> dispatcher \<times> 'h reactor" where
  "after_repair w touched rebuilt st =
     (let (d, rx) = fold (\<lambda>r. evict_changed w (rb_captures r)) rebuilt st;
          changed = fold (\<lambda>r cs. add_new cs (rb_captures r)) rebuilt touched
      in (notify_iface_change changed d, rx))"

definition apply_interface_changes ::
  "'h world \<Rightarrow> changes \<Rightarrow> instant \<Rightarrow> dispatcher \<times> 'h reactor \<Rightarrow> (dispatcher \<times> 'h reactor) option" where
  "apply_interface_changes w ch now = (\<lambda>(d, rx).
     map_option (\<lambda>(rebuilt, lc, t).
         after_repair w (ch_touched ch) rebuilt (evict_changed w (ch_v4_moved ch) (d\<lparr>dp_lifecycle := lc, dp_table := t\<rparr>, rx)))
       (if ch_reconcile ch then reconcile (w_kernel w) (dp_lifecycle d) (dp_table d) now
        else Some ([], dp_lifecycle d, dp_table d)))"

definition refresh_changed_interfaces ::
  "'h world \<Rightarrow> interface_event list \<Rightarrow> instant \<Rightarrow> dispatcher \<times> 'h reactor \<Rightarrow> (dispatcher \<times> 'h reactor) option" where
  "refresh_changed_interfaces w events now = (\<lambda>(d, rx).
     Option.bind (lc_drain (w_kernel w) events (dp_lifecycle d) (dp_table d) now) (\<lambda>(ch, lc, t).
       apply_interface_changes w ch now (d\<lparr>dp_lifecycle := lc, dp_table := t\<rparr>, rx)))"

definition reconcile_interfaces :: "'h world \<Rightarrow> instant \<Rightarrow> dispatcher \<times> 'h reactor \<Rightarrow> (dispatcher \<times> 'h reactor) option" where
  "reconcile_interfaces w now = (\<lambda>(d, rx).
     map_option (\<lambda>(rebuilt, lc, t). after_repair w [] rebuilt (d\<lparr>dp_lifecycle := lc, dp_table := t\<rparr>, rx))
       (reconcile (w_kernel w) (dp_lifecycle d) (dp_table d) now))"

section \<open>The reactor's calls\<close>

definition dp_next_deadline :: "dispatcher \<Rightarrow> instant option" where
  "dp_next_deadline d = min_instant
     (List.map_filter (\<lambda>(_, h). handler_next_deadline h) (arena_handlers rg_handler (dp_registrations d))
      @ (case next_grace (dp_dial d) of Some g \<Rightarrow> [g] | None \<Rightarrow> [])
      @ (case dp_report d of Some r \<Rightarrow> [cr_next r] | None \<Rightarrow> [])
      @ [lc_next_reconcile (dp_lifecycle d), lc_next_recheck (dp_lifecycle d)]
      @ (case next_join_retry (dp_table d) of Some j \<Rightarrow> [j] | None \<Rightarrow> []))"

definition due_handlers :: "dispatcher \<Rightarrow> instant \<Rightarrow> key list" where
  "due_handlers d now = map fst (filter (\<lambda>(_, h). is_some_and (handler_next_deadline h) (\<lambda>t. t \<le> now))
     (arena_handlers rg_handler (dp_registrations d)))"

definition tick_report :: "instant \<Rightarrow> counter_report option \<Rightarrow> counter_report option" where
  "tick_report now r =
     (case r of
        Some rep \<Rightarrow> Some (if cr_next rep \<le> now then rep\<lparr>cr_next := now + cr_interval rep\<rparr> else rep)
      | None \<Rightarrow> None)"

definition recheck_if_due :: "'h world \<Rightarrow> instant \<Rightarrow> dispatcher \<times> 'h reactor \<Rightarrow> (dispatcher \<times> 'h reactor) option" where
  "recheck_if_due w now = (\<lambda>(d, rx).
     if lc_next_recheck (dp_lifecycle d) \<le> now
     then case recheck (w_kernel w) (dp_lifecycle d) (dp_table d) now of
            (ch, lc, t) \<Rightarrow> apply_interface_changes w ch now (d\<lparr>dp_lifecycle := lc, dp_table := t\<rparr>, rx)
     else Some (d, rx))"

definition joins_if_due :: "'h world \<Rightarrow> instant \<Rightarrow> dispatcher \<Rightarrow> bool \<times> dispatcher" where
  "joins_if_due w now d =
     (if is_some_and (next_join_retry (dp_table d)) (\<lambda>retry. retry \<le> now)
      then case converge_all (w_kernel w) (dp_table d) now of (ok, t) \<Rightarrow> (\<not> ok, d\<lparr>dp_table := t\<rparr>)
      else (False, d))"

definition dp_on_deadline :: "'h world \<Rightarrow> instant \<Rightarrow> dispatcher \<times> 'h reactor \<Rightarrow> (dispatcher \<times> 'h reactor) option" where
  "dp_on_deadline w now = (\<lambda>(d, rx).
     let d = each_handler (\<lambda>h. handler_on_deadline h now) (due_handlers d now) d;
         (rx, ctx) = dial_sweep (dw_poller (w_dial w)) now rx (dp_dial d);
         d = d\<lparr>dp_dial := ctx, dp_report := tick_report now (dp_report d)\<rparr>
     in Option.bind (recheck_if_due w now (d, rx)) (\<lambda>(d, rx).
          let (joins_found_gone, d) = joins_if_due w now d
          in if joins_found_gone \<or> lc_next_reconcile (dp_lifecycle d) \<le> now then reconcile_interfaces w now (d, rx)
             else Some (d, rx)))"

text \<open>What the descriptor that became readable holds: events of the monitor, or reads of a capture.\<close>

definition dp_on_readable ::
  "'h world \<Rightarrow> ready_event \<Rightarrow> interface_event list \<Rightarrow> reading_step list \<Rightarrow> instant \<Rightarrow> dispatcher \<times> 'h reactor
   \<Rightarrow> (dispatcher \<times> 'h reactor) option" where
  "dp_on_readable w event events reads now st =
     (if ev_user_data event = MONITOR_TAG then refresh_changed_interfaces w events now st
      else drain_and_route w (ucast (ev_user_data event)) reads st)"

end
