(* ===== verification/Sessions.thy ===== *)
theory Sessions
  imports Dispatch
begin

text \<open>
  What the dispatcher keeps true of its registrations: every handler is in its slot between calls, and
  every session of a search reflector owns a registration of its own that sends replies back to the
  searcher and nobody else. The invariant is stated on the map from keys to registrations, so that
  the proofs about handlers need not look into the arena.
\<close>

section \<open>The registrations as a map\<close>

type_synonym regs = "key \<Rightarrow> registration option"

abbreviation regs :: "dispatcher \<Rightarrow> regs" where
  "regs d \<equiv> arena_get (dp_registrations d)"

lemma regs_take: "regs (fst (dp_take d k)) = (regs d)(k := map_option (rg_set_handler None) (regs d k))"
  by (cases "regs d k") (auto simp: dp_take_def take_handler_def arena_get_mut_lookup fun_eq_iff)

lemma regs_restore: "regs (dp_restore d k h) = (regs d)(k := map_option (rg_set_handler (Some h)) (regs d k))"
  by (cases "regs d k") (auto simp: dp_restore_def restore_handler_def arena_get_mut_lookup fun_eq_iff)

lemma take_other [simp]:
  "dp_egress (fst (dp_take d k)) = dp_egress d" "dp_table (fst (dp_take d k)) = dp_table d" "dp_dial (fst (dp_take d k)) = dp_dial d"
  "dp_lifecycle (fst (dp_take d k)) = dp_lifecycle d"
  by (simp_all add: dp_take_def split_beta)

lemma restore_other [simp]:
  "dp_egress (dp_restore d k h) = dp_egress d" "dp_table (dp_restore d k h) = dp_table d" "dp_dial (dp_restore d k h) = dp_dial d"
  "dp_lifecycle (dp_restore d k h) = dp_lifecycle d"
  by (simp_all add: dp_restore_def)

lemma take_arena: "arena_inv (dp_registrations d) \<Longrightarrow> arena_inv (dp_registrations (fst (dp_take d k)))"
  by (auto simp: dp_take_def take_handler_def arena_get_mut_inv split: option.splits)

lemma restore_arena: "arena_inv (dp_registrations d) \<Longrightarrow> arena_inv (dp_registrations (dp_restore d k h))"
  by (auto simp: dp_restore_def restore_handler_def arena_get_mut_inv split: option.splits)

lemma take_handler_value: "snd (dp_take d k) = Option.bind (regs d k) rg_handler"
  by (auto simp: dp_take_def take_handler_def split: option.splits)

lemma register_facts:
  assumes "dp_register d ingress f h = Some (k, d')" "arena_inv (dp_registrations d)"
  shows "regs d k = None" "regs d' = (regs d)(k \<mapsto> \<lparr>rg_ingress = ingress, rg_filter = f, rg_handler = Some h\<rparr>)"
    "arena_inv (dp_registrations d')" "d' = d\<lparr>dp_registrations := dp_registrations d'\<rparr>"
  using assms arena_insert_lookup [OF assms(2)] arena_insert_inv [OF assms(2)]
  by (auto simp: dp_register_def arena_insert_def)

lemma unregister_facts:
  assumes "arena_inv (dp_registrations d)"
  shows "regs (dp_unregister d k) = (regs d)(k := None)" "arena_inv (dp_registrations (dp_unregister d k))"
    "dp_unregister d k = d\<lparr>dp_registrations := dp_registrations (dp_unregister d k)\<rparr>"
  using arena_remove_lookup [OF assms] arena_remove_inv [OF assms] by (simp_all add: dp_unregister_def)

lemma unregister_all_facts:
  assumes "arena_inv (dp_registrations d)" "fold (\<lambda>(_, v) d. dp_unregister d (ss_response_key v)) xs d = d'"
  shows "regs d' = (\<lambda>k. if k \<in> ss_response_key ` snd ` set xs then None else regs d k) \<and> arena_inv (dp_registrations d')
    \<and> d' = d\<lparr>dp_registrations := dp_registrations d'\<rparr>"
  using assms
proof (induction xs arbitrary: d)
  case (Cons x xs)
  obtain sk v where x: "x = (sk, v)" by fastforce
  note u = unregister_facts [OF Cons.prems(1), of "ss_response_key v"]
  have "fold (\<lambda>(_, v) d. dp_unregister d (ss_response_key v)) xs (dp_unregister d (ss_response_key v)) = d'"
    using Cons.prems(2) x by simp
  from Cons.IH [OF u(2) this] u(1,3) show ?case
    by (cases d; cases d'; cases "dp_unregister d (ss_response_key v)") (auto simp: x fun_eq_iff)
qed simp

section \<open>Sessions own registrations\<close>

definition is_reply :: "search_reflector \<Rightarrow> session_key \<Rightarrow> session \<Rightarrow> registration \<Rightarrow> bool" where
  "is_reply s sk v r \<longleftrightarrow> rg_ingress r = se_target s \<and> rg_filter r = reply_filter s (ss_source v)
     \<and> (\<exists>p. p_source p = sk_searcher sk \<and> rg_handler r = Some (SimpleHandler (reply_leg s p)))"

definition sessions_ok :: "regs \<Rightarrow> search_reflector \<Rightarrow> bool" where
  "sessions_ok R s \<longleftrightarrow> lm_inv (se_sessions s) \<and> lm_len (se_sessions s) \<le> MAX_SESSIONS
     \<and> (\<forall>sk v. (sk, v) \<in> set (se_sessions s) \<longrightarrow> (\<exists>r. R (ss_response_key v) = Some r \<and> is_reply s sk v r))"

definition search_at :: "regs \<Rightarrow> key \<Rightarrow> search_reflector \<Rightarrow> bool" where
  "search_at R k s \<longleftrightarrow> (\<exists>r. R k = Some r \<and> rg_handler r = Some (SearchHandler s))"

definition owns :: "regs \<Rightarrow> key \<Rightarrow> session_key \<Rightarrow> key \<Rightarrow> bool" where
  "owns R k sk rk \<longleftrightarrow> (\<exists>s v. search_at R k s \<and> (sk, v) \<in> set (se_sessions s) \<and> ss_response_key v = rk)"

definition owned_inv :: "regs \<Rightarrow> bool" where
  "owned_inv R \<longleftrightarrow> (\<forall>k r. R k = Some r \<longrightarrow> rg_handler r \<noteq> None) \<and> (\<forall>k s. search_at R k s \<longrightarrow> sessions_ok R s)
     \<and> (\<forall>k sk k' sk' rk. owns R k sk rk \<and> owns R k' sk' rk \<longrightarrow> k = k' \<and> sk = sk')"

lemma reply_not_search: "R rk = Some r \<Longrightarrow> is_reply s sk v r \<Longrightarrow> \<not> search_at R rk s'"
  by (auto simp: is_reply_def search_at_def)

lemma owns_reply:
  assumes "owned_inv R" "owns R k sk rk"
  obtains s v r where "search_at R k s" "(sk, v) \<in> set (se_sessions s)" "ss_response_key v = rk" "R rk = Some r" "is_reply s sk v r"
proof -
  obtain s v where s: "search_at R k s" "(sk, v) \<in> set (se_sessions s)" "ss_response_key v = rk"
    using assms(2) by (auto simp: owns_def)
  with assms(1) have "sessions_ok R s" by (auto simp: owned_inv_def)
  with s obtain r where "R rk = Some r" "is_reply s sk v r" unfolding sessions_ok_def by blast
  with s that show thesis by blast
qed

lemma owns_live: "owned_inv R \<Longrightarrow> owns R k sk rk \<Longrightarrow> R rk \<noteq> None"
  by (erule (1) owns_reply) simp

text \<open>The part of a reflector its sessions' registrations were made from.\<close>

definition same_leg :: "search_reflector \<Rightarrow> search_reflector \<Rightarrow> bool" where
  "same_leg s s' \<longleftrightarrow> s' = s\<lparr>se_sessions := se_sessions s'\<rparr>"

lemma same_leg_reply: "same_leg s s' \<Longrightarrow> is_reply s' sk v r = is_reply s sk v r"
  by (cases s; cases s') (simp add: same_leg_def is_reply_def reply_filter_def reply_leg_def)

lemma own_reply_elsewhere:
  assumes "owned_inv R" "search_at R k s" "owns R k2 sk rk"
  shows "rk \<noteq> k"
  using owns_reply [OF assms(1,3)] reply_not_search assms(2) by metis

text \<open>A search reflector at \<open>k\<close> changes its sessions from those of \<open>s\<close> to those of \<open>s'\<close>, and registrations of its
  own come or go with them.\<close>

lemma owned_inv_sessions:
  assumes inv: "owned_inv R" and at: "search_at R k s" and leg: "same_leg s s'"
    and k: "R' k = map_option (rg_set_handler (Some (SearchHandler s'))) (R k)"
    and other: "\<And>x r. x \<noteq> k \<Longrightarrow> R' x = Some r \<Longrightarrow> R x = Some r \<or> (\<exists>leg. rg_handler r = Some (SimpleHandler leg))"
    and kept: "\<And>k2 sk rk. k2 \<noteq> k \<Longrightarrow> owns R k2 sk rk \<Longrightarrow> R' rk = R rk"
    and len: "lm_inv (se_sessions s')" "lm_len (se_sessions s') \<le> MAX_SESSIONS"
    and ok: "\<And>sk v. (sk, v) \<in> set (se_sessions s') \<Longrightarrow> \<exists>r. R' (ss_response_key v) = Some r \<and> is_reply s sk v r"
    and own: "\<And>sk v. (sk, v) \<in> set (se_sessions s') \<Longrightarrow> owns R k sk (ss_response_key v) \<or> R (ss_response_key v) = None"
    and inj: "\<And>sk v sk' v'. (sk, v) \<in> set (se_sessions s') \<Longrightarrow> (sk', v') \<in> set (se_sessions s')
        \<Longrightarrow> ss_response_key v = ss_response_key v' \<Longrightarrow> sk = sk'"
  shows "owned_inv R'"
proof -
  have at_cases: "k2 = k \<and> s2 = s' \<or> k2 \<noteq> k \<and> search_at R k2 s2" if "search_at R' k2 s2" for k2 s2
    using that at k other [of k2] by (cases "k2 = k") (fastforce simp: search_at_def rg_set_handler_def)+
  have owns_cases: "k2 = k \<and> (\<exists>v. (sk, v) \<in> set (se_sessions s') \<and> ss_response_key v = rk) \<or> k2 \<noteq> k \<and> owns R k2 sk rk"
    if "owns R' k2 sk rk" for k2 sk rk
    using that at_cases by (fastforce simp: owns_def)
  have unique: "k2 = k3 \<and> sk2 = sk3" if "owns R k2 sk2 rk" "owns R k3 sk3 rk" for k2 sk2 k3 sk3 rk
    using inv that unfolding owned_inv_def by blast
  have handlers: "rg_handler r \<noteq> None" if "R' x = Some r" for x r
    using that inv k at other [of x r] by (cases "x = k") (auto simp: owned_inv_def rg_set_handler_def search_at_def)
  have here: "sessions_ok R' s'" unfolding sessions_ok_def using len ok same_leg_reply [OF leg] by blast
  have away: "sessions_ok R' s2" if "k2 \<noteq> k" "search_at R k2 s2" for k2 s2
  proof -
    have old: "sessions_ok R s2" using inv that(2) by (auto simp: owned_inv_def)
    have "R' (ss_response_key v) = R (ss_response_key v)" if "(sk, v) \<in> set (se_sessions s2)" for sk v
      using kept [OF \<open>k2 \<noteq> k\<close>, of sk] that \<open>search_at R k2 s2\<close> by (auto simp: owns_def)
    with old show ?thesis unfolding sessions_ok_def by metis
  qed
  have cross: False if "k2 \<noteq> k" "owns R k2 sk2 rk" "(sk, v) \<in> set (se_sessions s')" "ss_response_key v = rk" for k2 sk2 rk sk v
  proof -
    have "R rk \<noteq> None" by (rule owns_live [OF inv that(2)])
    with own [OF that(3)] that unique [of k sk rk k2 sk2] show False by auto
  qed
  have uniq: "k2 = k3 \<and> sk2 = sk3" if "owns R' k2 sk2 rk" "owns R' k3 sk3 rk" for k2 sk2 k3 sk3 rk
    using owns_cases [OF that(1)] owns_cases [OF that(2)]
  proof (elim disjE conjE exE)
    fix v v' assume "k2 = k" "k3 = k" "(sk2, v) \<in> set (se_sessions s')" "(sk3, v') \<in> set (se_sessions s')"
      "ss_response_key v = rk" "ss_response_key v' = rk"
    then show ?thesis using inj by simp
  qed (use cross unique in blast)+
  have oks: "sessions_ok R' s2" if "search_at R' k2 s2" for k2 s2
    using at_cases [OF that] here away by auto
  show ?thesis unfolding owned_inv_def
  proof (intro conjI allI impI)
    fix x r assume "R' x = Some r"
    then show "rg_handler r \<noteq> None" by (rule handlers)
  next
    fix x s2 assume "search_at R' x s2"
    then show "sessions_ok R' s2" by (rule oks)
  next
    fix k2 sk2 k3 sk3 rk assume "owns R' k2 sk2 rk \<and> owns R' k3 sk3 rk"
    then show "k2 = k3" "sk2 = sk3" using uniq by auto
  qed
qed

text \<open>The legs \<open>B\<close> an entry was built into stay registered; every other registration belongs to a session.\<close>

definition legs_inv :: "key set \<Rightarrow> regs \<Rightarrow> bool" where
  "legs_inv B R \<longleftrightarrow> (\<forall>k\<in>B. R k \<noteq> None) \<and> (\<forall>k sk rk. owns R k sk rk \<longrightarrow> rk \<notin> B)
     \<and> (\<forall>k r. R k = Some r \<longrightarrow> k \<in> B \<or> (\<exists>k' sk. owns R k' sk k))"

lemma search_is_leg:
  assumes "owned_inv R" "legs_inv B R" "search_at R k s"
  shows "k \<in> B"
proof -
  obtain r where "R k = Some r" using assms(3) by (auto simp: search_at_def)
  then have "k \<in> B \<or> (\<exists>k' sk. owns R k' sk k)" using assms(2) unfolding legs_inv_def by blast
  with own_reply_elsewhere [OF assms(1,3)] show ?thesis by blast
qed

lemma legs_inv_sessions:
  assumes owned: "owned_inv R" and legs: "legs_inv B R" and at: "search_at R k s"
    and k: "R' k = map_option (rg_set_handler (Some (SearchHandler s'))) (R k)"
    and own: "\<And>k2 sk rk. owns R' k2 sk rk \<Longrightarrow> owns R k2 sk rk \<or> R rk = None"
    and base: "\<And>x. x \<in> B \<Longrightarrow> x \<noteq> k \<Longrightarrow> R' x = R x"
    and cover: "\<And>x r. R' x = Some r \<Longrightarrow> x \<noteq> k \<Longrightarrow>
        R x \<noteq> None \<and> x \<notin> ss_response_key ` snd ` set (se_sessions s) \<or> x \<in> ss_response_key ` snd ` set (se_sessions s')"
  shows "legs_inv B R'"
proof -
  note leg = search_is_leg [OF owned legs]
  have at_k: "search_at R' k s'" using at k by (auto simp: search_at_def rg_set_handler_def)
  have at': "search_at R' k2 s2" if "search_at R k2 s2" "k2 \<noteq> k" for k2 s2
    using that base [OF leg [OF that(1)] that(2)] by (simp add: search_at_def)
  have live: "R x \<noteq> None" if "x \<in> B" for x using legs that unfolding legs_inv_def by blast
  have "R' x \<noteq> None" if "x \<in> B" for x
    using at_k live [OF that] base [OF that] by (cases "x = k") (auto simp: search_at_def)
  moreover have "rk \<notin> B" if "owns R' k2 sk rk" for k2 sk rk
    using own [OF that] legs live unfolding legs_inv_def by blast
  moreover have "x \<in> B \<or> (\<exists>k' sk. owns R' k' sk x)" if x: "R' x = Some r" "x \<noteq> k" for x r
    using cover [OF x]
  proof
    assume "x \<in> ss_response_key ` snd ` set (se_sessions s')"
    then obtain sk v where "(sk, v) \<in> set (se_sessions s')" "ss_response_key v = x" by auto
    with at_k show ?thesis by (auto simp: owns_def)
  next
    assume old: "R x \<noteq> None \<and> x \<notin> ss_response_key ` snd ` set (se_sessions s)"
    have "owns R' k' sk x" if "owns R k' sk x" for k' sk
    proof -
      obtain s2 v where o: "search_at R k' s2" "(sk, v) \<in> set (se_sessions s2)" "ss_response_key v = x"
        using \<open>owns R k' sk x\<close> by (auto simp: owns_def)
      then have "k' \<noteq> k" using at old by (force simp: search_at_def)
      with at' [OF o(1)] o(2,3) show ?thesis by (auto simp: owns_def)
    qed
    with old legs show ?thesis unfolding legs_inv_def by blast
  qed
  ultimately show ?thesis using leg [OF at] unfolding legs_inv_def by blast
qed

definition reg_inv :: "key set \<Rightarrow> regs \<Rightarrow> bool" where
  "reg_inv B R \<longleftrightarrow> owned_inv R \<and> legs_inv B R"

lemma reg_owned: "reg_inv B R \<Longrightarrow> owned_inv R"
  by (simp add: reg_inv_def)

text \<open>The three ways sessions change: one is refreshed, one is added, some are dropped.\<close>

definition same_sessions :: "search_reflector \<Rightarrow> search_reflector \<Rightarrow> bool" where
  "same_sessions s s' \<longleftrightarrow> same_leg s s' \<and> map (\<lambda>(sk, v). (sk, ss_source v, ss_response_key v)) (se_sessions s')
     = map (\<lambda>(sk, v). (sk, ss_source v, ss_response_key v)) (se_sessions s)"

lemma same_sessions_mem:
  assumes "same_sessions s s'" "(sk, v') \<in> set (se_sessions s')"
  obtains v where "(sk, v) \<in> set (se_sessions s)" "ss_source v = ss_source v'" "ss_response_key v = ss_response_key v'"
proof -
  have "(sk, ss_source v', ss_response_key v') \<in> set (map (\<lambda>(sk, v). (sk, ss_source v, ss_response_key v)) (se_sessions s'))"
    using assms(2) by force
  with assms(1) that show thesis unfolding same_sessions_def by auto
qed

lemma same_sessions_keys: "same_sessions s s' \<Longrightarrow> map fst (se_sessions s') = map fst (se_sessions s)"
proof -
  assume "same_sessions s s'"
  then have "map fst (map (\<lambda>(sk, v). (sk, ss_source v, ss_response_key v)) (se_sessions s'))
      = map fst (map (\<lambda>(sk, v). (sk, ss_source v, ss_response_key v)) (se_sessions s))" by (simp only: same_sessions_def)
  then show ?thesis by (simp add: comp_def split_beta)
qed

lemma refresh_owned:
  assumes inv: "owned_inv R" and at: "search_at R k s" and same: "same_sessions s s'"
  shows "owned_inv (R(k := map_option (rg_set_handler (Some (SearchHandler s'))) (R k)))"
proof (rule owned_inv_sessions [OF inv at])
  have old: "sessions_ok R s" using inv at by (auto simp: owned_inv_def)
  show "same_leg s s'" using same by (simp add: same_sessions_def)
  show "lm_inv (se_sessions s')" "lm_len (se_sessions s') \<le> MAX_SESSIONS"
    using old same_sessions_keys [OF same] unfolding sessions_ok_def lm_inv_def lm_len_def by (metis, metis length_map)
  fix sk v' assume m: "(sk, v') \<in> set (se_sessions s')"
  obtain v where v: "(sk, v) \<in> set (se_sessions s)" "ss_source v = ss_source v'" "ss_response_key v = ss_response_key v'"
    using same_sessions_mem [OF same m] .
  then have own: "owns R k sk (ss_response_key v')" using at by (auto simp: owns_def)
  then show "owns R k sk (ss_response_key v') \<or> R (ss_response_key v') = None" by blast
  have "\<exists>r. R (ss_response_key v) = Some r \<and> is_reply s sk v r" using old v(1) unfolding sessions_ok_def by blast
  with v own_reply_elsewhere [OF inv at own]
  show "\<exists>r. (R(k := map_option (rg_set_handler (Some (SearchHandler s'))) (R k))) (ss_response_key v') = Some r \<and> is_reply s sk v' r"
    by (auto simp: is_reply_def)
  fix sk2 v2 assume "(sk2, v2) \<in> set (se_sessions s')" "ss_response_key v' = ss_response_key v2"
  moreover from this(1) obtain v3 where "(sk2, v3) \<in> set (se_sessions s)" "ss_response_key v3 = ss_response_key v2"
    using same_sessions_mem [OF same] by metis
  then have "owns R k sk2 (ss_response_key v2)" using at by (auto simp: owns_def)
  ultimately show "sk = sk2" using own inv unfolding owned_inv_def by metis
qed (use own_reply_elsewhere [OF inv at] in auto)

lemma add_owned:
  assumes inv: "owned_inv R" and at: "search_at R k s" and fresh: "R rk = None" and new: "lm_get (se_sessions s) sk = None"
    and room: "lm_len (se_sessions s) < MAX_SESSIONS" and v: "ss_response_key v = rk" and reply: "is_reply s sk v r"
    and s': "s' = s\<lparr>se_sessions := se_sessions s @ [(sk, v)]\<rparr>"
  shows "owned_inv ((R(rk \<mapsto> r))(k := map_option (rg_set_handler (Some (SearchHandler s'))) (R k)))" (is "owned_inv ?R")
proof (rule owned_inv_sessions [OF inv at])
  have old: "sessions_ok R s" using inv at by (auto simp: owned_inv_def)
  have rk: "rk \<noteq> k" using fresh at by (auto simp: search_at_def)
  show "same_leg s s'" by (simp add: s' same_leg_def)
  show "lm_inv (se_sessions s')" "lm_len (se_sessions s') \<le> MAX_SESSIONS"
    using old new room by (auto simp: s' sessions_ok_def lm_inv_def lm_len_def lm_get_map_of map_of_eq_None_iff)
  show "?R k2 = Some r2 \<Longrightarrow> R k2 = Some r2 \<or> (\<exists>leg. rg_handler r2 = Some (SimpleHandler leg))" if "k2 \<noteq> k" for k2 r2
    using that reply by (auto simp: is_reply_def split: if_splits)
  show "?R rk2 = R rk2" if "k2 \<noteq> k" "owns R k2 sk2 rk2" for k2 sk2 rk2
  proof -
    have "rk2 \<noteq> rk" using owns_live [OF inv that(2)] fresh by auto
    with own_reply_elsewhere [OF inv at that(2)] show ?thesis by simp
  qed
  have mem: "(sk2, v2) = (sk, v) \<or> (sk2, v2) \<in> set (se_sessions s) \<and> owns R k sk2 (ss_response_key v2)
      \<and> (\<exists>r. R (ss_response_key v2) = Some r \<and> is_reply s sk2 v2 r)"
    if "(sk2, v2) \<in> set (se_sessions s')" for sk2 v2
    using that old at by (auto simp: s' sessions_ok_def owns_def)
  show "\<exists>r. ?R (ss_response_key v2) = Some r \<and> is_reply s sk2 v2 r" if "(sk2, v2) \<in> set (se_sessions s')" for sk2 v2
  proof (cases "(sk2, v2) = (sk, v)")
    case True
    then show ?thesis using rk v reply by simp
  next
    case False
    with mem [OF that] obtain r2 where r2: "R (ss_response_key v2) = Some r2" "is_reply s sk2 v2 r2"
      "owns R k sk2 (ss_response_key v2)" by auto
    with own_reply_elsewhere [OF inv at r2(3)] fresh show ?thesis by (auto split: if_splits)
  qed
  show "owns R k sk2 (ss_response_key v2) \<or> R (ss_response_key v2) = None" if "(sk2, v2) \<in> set (se_sessions s')" for sk2 v2
    using mem [OF that] fresh v by auto
  show "sk2 = sk3" if "(sk2, v2) \<in> set (se_sessions s')" "(sk3, v3) \<in> set (se_sessions s')" "ss_response_key v2 = ss_response_key v3"
    for sk2 v2 sk3 v3
    using mem [OF that(1)] mem [OF that(2)] that(3) fresh v inv unfolding owned_inv_def by (metis option.distinct(1) prod.inject)
qed simp

lemma drop_owned:
  assumes inv: "owned_inv R" and at: "search_at R k s" and s': "s' = s\<lparr>se_sessions := filter Q (se_sessions s)\<rparr>"
    and R': "\<And>x. R' x = (if x \<in> ss_response_key ` snd ` set (filter (\<lambda>e. \<not> Q e) (se_sessions s)) then None else R x)"
  shows "owned_inv (R'(k := map_option (rg_set_handler (Some (SearchHandler s'))) (R' k)))" (is "owned_inv ?R")
proof -
  have old: "sessions_ok R s" using inv at by (auto simp: owned_inv_def)
  have own: "owns R k sk (ss_response_key v)" if "(sk, v) \<in> set (se_sessions s)" for sk v
    using that at by (auto simp: owns_def)
  have unique: "k2 = k3 \<and> sk2 = sk3" if "owns R k2 sk2 rk" "owns R k3 sk3 rk" for k2 sk2 k3 sk3 rk
    using inv that unfolding owned_inv_def by blast
  have "k \<notin> ss_response_key ` snd ` set (filter (\<lambda>e. \<not> Q e) (se_sessions s))"
    using own_reply_elsewhere [OF inv at own] by fastforce
  then have k: "R' k = R k" by (simp add: R')
  show ?thesis
  proof (rule owned_inv_sessions [OF inv at])
    show "same_leg s s'" by (simp add: s' same_leg_def)
    show "?R k = map_option (rg_set_handler (Some (SearchHandler s'))) (R k)" by (simp add: k)
    show "lm_inv (se_sessions s')" "lm_len (se_sessions s') \<le> MAX_SESSIONS"
      using old by (auto simp: s' sessions_ok_def lm_filter_inv lm_len_def intro: le_trans [OF length_filter_le])
    show "?R rk = R rk" if "k2 \<noteq> k" "owns R k2 sk rk" for k2 sk rk
    proof -
      have "rk \<notin> ss_response_key ` snd ` set (filter (\<lambda>e. \<not> Q e) (se_sessions s))"
        using unique [OF that(2)] own that(1) by fastforce
      with own_reply_elsewhere [OF inv at that(2)] show ?thesis by (simp add: R')
    qed
    show "\<exists>r. ?R (ss_response_key v) = Some r \<and> is_reply s sk v r" if "(sk, v) \<in> set (se_sessions s')" for sk v
    proof -
      have m: "(sk, v) \<in> set (se_sessions s)" "Q (sk, v)" using that by (auto simp: s')
      have "ss_response_key v \<notin> ss_response_key ` snd ` set (filter (\<lambda>e. \<not> Q e) (se_sessions s))"
      proof
        assume "ss_response_key v \<in> ss_response_key ` snd ` set (filter (\<lambda>e. \<not> Q e) (se_sessions s))"
        then obtain sk2 v2 where d: "(sk2, v2) \<in> set (se_sessions s)" "\<not> Q (sk2, v2)" "ss_response_key v = ss_response_key v2" by auto
        have "sk = sk2" using unique [OF own [OF m(1)]] own [OF d(1)] d(3) by simp
        moreover have "distinct (map fst (se_sessions s))" using old by (simp add: sessions_ok_def lm_inv_def)
        ultimately have "v = v2" using m(1) d(1) by (metis eq_key_imp_eq_value)
        with \<open>sk = sk2\<close> m(2) d(2) show False by simp
      qed
      with m old own_reply_elsewhere [OF inv at own [OF m(1)]] show ?thesis by (auto simp: R' sessions_ok_def)
    qed
    show "sk = sk2" if "(sk, v) \<in> set (se_sessions s')" "(sk2, v2) \<in> set (se_sessions s')" "ss_response_key v = ss_response_key v2"
      for sk v sk2 v2
    proof -
      have "(sk, v) \<in> set (se_sessions s)" "(sk2, v2) \<in> set (se_sessions s)" using that(1,2) by (simp_all add: s')
      from unique [OF own [OF this(1)]] own [OF this(2)] that(3) show ?thesis by simp
    qed
  qed (auto simp: R' s' own split: if_splits)
qed

lemma same_sessions_response: "same_sessions s s' \<Longrightarrow> ss_response_key ` snd ` set (se_sessions s') = ss_response_key ` snd ` set (se_sessions s)"
proof -
  assume "same_sessions s s'"
  then have "(snd \<circ> snd) ` set (map (\<lambda>(sk, v). (sk, ss_source v, ss_response_key v)) (se_sessions s'))
      = (snd \<circ> snd) ` set (map (\<lambda>(sk, v). (sk, ss_source v, ss_response_key v)) (se_sessions s))" by (simp only: same_sessions_def)
  then show ?thesis by (simp add: image_comp comp_def split_beta)
qed

lemma refresh_reg_inv:
  assumes inv: "reg_inv B R" and at: "search_at R k s" and same: "same_sessions s s'"
  shows "reg_inv B (R(k := map_option (rg_set_handler (Some (SearchHandler s'))) (R k)))" (is "reg_inv B ?R")
proof -
  have i: "owned_inv R" "legs_inv B R" using inv by (simp_all add: reg_inv_def)
  have "legs_inv B ?R"
  proof (rule legs_inv_sessions [OF i at])
    show "owns R k2 sk rk \<or> R rk = None" if owned: "owns ?R k2 sk rk" for k2 sk rk
    proof (cases "k2 = k")
      case True
      with owned at obtain v where v: "(sk, v) \<in> set (se_sessions s')" "ss_response_key v = rk"
        by (auto simp: owns_def search_at_def rg_set_handler_def)
      from same_sessions_mem [OF same v(1)] obtain v0 where "(sk, v0) \<in> set (se_sessions s)" "ss_response_key v0 = rk"
        using v(2) by metis
      with at True show ?thesis by (auto simp: owns_def)
    qed (use owned in \<open>auto simp: owns_def search_at_def\<close>)
    show "R x \<noteq> None \<and> x \<notin> ss_response_key ` snd ` set (se_sessions s) \<or> x \<in> ss_response_key ` snd ` set (se_sessions s')"
      if "?R x = Some r" "x \<noteq> k" for x r
      using that same_sessions_response [OF same] by auto
  qed simp_all
  with refresh_owned [OF i(1) at same] show ?thesis by (simp add: reg_inv_def)
qed

lemma add_reg_inv:
  assumes inv: "reg_inv B R" and at: "search_at R k s" and fresh: "R rk = None" and new: "lm_get (se_sessions s) sk = None"
    and room: "lm_len (se_sessions s) < MAX_SESSIONS" and v: "ss_response_key v = rk" and reply: "is_reply s sk v r"
    and s': "s' = s\<lparr>se_sessions := se_sessions s @ [(sk, v)]\<rparr>"
  shows "reg_inv B ((R(rk \<mapsto> r))(k := map_option (rg_set_handler (Some (SearchHandler s'))) (R k)))" (is "reg_inv B ?R")
proof -
  have i: "owned_inv R" "legs_inv B R" using inv by (simp_all add: reg_inv_def)
  have rk: "rk \<notin> B" using i(2) fresh unfolding legs_inv_def by blast
  have "legs_inv B ?R"
  proof (rule legs_inv_sessions [OF i at])
    show "owns R k2 sk2 rk2 \<or> R rk2 = None" if owned: "owns ?R k2 sk2 rk2" for k2 sk2 rk2
    proof (cases "k2 = k")
      case True
      with owned at obtain v2 where "(sk2, v2) \<in> set (se_sessions s')" "ss_response_key v2 = rk2"
        by (auto simp: owns_def search_at_def rg_set_handler_def)
      with at True v fresh show ?thesis by (auto simp: owns_def s')
    next
      case False
      with owned reply have "owns R k2 sk2 rk2" by (auto simp: owns_def search_at_def is_reply_def split: if_splits)
      then show ?thesis by blast
    qed
    show "R x \<noteq> None \<and> x \<notin> ss_response_key ` snd ` set (se_sessions s) \<or> x \<in> ss_response_key ` snd ` set (se_sessions s')"
      if "?R x = Some r2" "x \<noteq> k" for x r2
      using that v by (auto simp: s' split: if_splits)
  qed (use rk in auto)
  with add_owned [OF i(1) at fresh new room v reply s'] show ?thesis by (simp add: reg_inv_def)
qed

lemma drop_reg_inv:
  assumes inv: "reg_inv B R" and at: "search_at R k s" and s': "s' = s\<lparr>se_sessions := filter Q (se_sessions s)\<rparr>"
    and R': "\<And>x. R' x = (if x \<in> ss_response_key ` snd ` set (filter (\<lambda>e. \<not> Q e) (se_sessions s)) then None else R x)"
  shows "reg_inv B (R'(k := map_option (rg_set_handler (Some (SearchHandler s'))) (R' k)))" (is "reg_inv B ?R")
proof -
  let ?gone = "ss_response_key ` snd ` set (filter (\<lambda>e. \<not> Q e) (se_sessions s))"
  have i: "owned_inv R" "legs_inv B R" using inv by (simp_all add: reg_inv_def)
  have gone: "x \<notin> B" if "x \<in> ?gone" for x
  proof -
    from that obtain sk v where "(sk, v) \<in> set (se_sessions s)" "ss_response_key v = x" by auto
    with at have "owns R k sk x" by (auto simp: owns_def)
    with i(2) show ?thesis unfolding legs_inv_def by blast
  qed
  with search_is_leg [OF i at] have k: "R' k = R k" by (auto simp: R')
  have "legs_inv B ?R"
  proof (rule legs_inv_sessions [OF i at])
    show "?R k = map_option (rg_set_handler (Some (SearchHandler s'))) (R k)" by (simp add: k)
    show "owns R k2 sk rk \<or> R rk = None" if owned: "owns ?R k2 sk rk" for k2 sk rk
    proof (cases "k2 = k")
      case True
      with owned at k obtain v where "(sk, v) \<in> set (se_sessions s)" "ss_response_key v = rk"
        by (auto simp: owns_def search_at_def rg_set_handler_def s')
      with at True show ?thesis by (auto simp: owns_def)
    next
      case False
      with owned have "owns R k2 sk rk" by (auto simp: owns_def search_at_def R' split: if_split_asm)
      then show ?thesis by blast
    qed
    show "?R x = R x" if "x \<in> B" "x \<noteq> k" for x using that gone by (auto simp: R')
    show "R x \<noteq> None \<and> x \<notin> ss_response_key ` snd ` set (se_sessions s) \<or> x \<in> ss_response_key ` snd ` set (se_sessions s')"
      if x: "?R x = Some r" "x \<noteq> k" for x r
    proof -
      have "x \<notin> ?gone" "R x \<noteq> None" using x by (auto simp: R' split: if_split_asm)
      then show ?thesis by (force simp: s')
    qed
  qed
  with drop_owned [OF i(1) at s' R'] show ?thesis by (simp add: reg_inv_def)
qed

section \<open>The handlers\<close>

definition dp_inv :: "key set \<Rightarrow> dispatcher \<Rightarrow> bool" where
  "dp_inv B d \<longleftrightarrow> arena_inv (dp_registrations d) \<and> reg_inv B (regs d) \<and> path_ok (dp_egress d)"

text \<open>While the handler \<open>h\<close> of \<open>k\<close> is out for its call.\<close>

definition calling :: "key set \<Rightarrow> dispatcher \<Rightarrow> key \<Rightarrow> packet_handler \<Rightarrow> bool" where
  "calling B d k h \<longleftrightarrow> regs d k \<noteq> None \<and> dp_inv B (dp_restore d k h)"

lemma calling_facts:
  assumes "calling B d k h" "arena_inv (dp_registrations d)"
  shows "path_ok (dp_egress d)" "reg_inv B ((regs d)(k := map_option (rg_set_handler (Some h)) (regs d k)))"
    "\<And>s. h = SearchHandler s \<Longrightarrow> search_at ((regs d)(k := map_option (rg_set_handler (Some h)) (regs d k))) k s"
  using assms by (auto simp: calling_def dp_inv_def regs_restore search_at_def rg_set_handler_def)

lemma callingI:
  assumes "regs d k \<noteq> None" "arena_inv (dp_registrations d)" "path_ok (dp_egress d)"
    "reg_inv B ((regs d)(k := map_option (rg_set_handler (Some h)) (regs d k)))"
  shows "calling B d k h"
  using assms by (simp add: calling_def dp_inv_def regs_restore restore_arena)

lemma take_calling:
  assumes "dp_inv B d" "dp_take d k = (d', Some h)"
  shows "calling B d' k h" "arena_inv (dp_registrations d')"
proof -
  obtain r where r: "regs d k = Some r" "rg_handler r = Some h"
    using assms(2) take_handler_value [of d k] by (cases "regs d k") auto
  have d': "d' = fst (dp_take d k)" using assms(2) by simp
  have again: "rg_set_handler (Some h) (rg_set_handler None r) = r" using r(2) by (cases r) (simp add: rg_set_handler_def)
  have regs': "regs d' = (regs d)(k := map_option (rg_set_handler None) (regs d k))" by (simp add: d' regs_take)
  show arena: "arena_inv (dp_registrations d')" using assms(1) by (simp add: d' take_arena dp_inv_def)
  have "(regs d')(k := map_option (rg_set_handler (Some h)) (regs d' k)) = regs d"
    using r(1) again by (auto simp: regs' fun_eq_iff)
  moreover have "regs d' k \<noteq> None" using r(1) by (simp add: regs')
  moreover have "path_ok (dp_egress d')" using assms(1) by (simp add: d' dp_inv_def)
  ultimately show "calling B d' k h" using assms(1) arena by (intro callingI) (simp_all add: dp_inv_def)
qed

lemma lm_get_mut_same:
  assumes "\<And>v. g (f v) = g v"
  shows "map (\<lambda>(k, v). (k, g v)) (lm_get_mut m key f) = map (\<lambda>(k, v). (k, g v)) m"
  using assms by (induction m) auto

lemma make_session_facts:
  assumes "make_session w s p destination d expiry t = Some (res, d')" "arena_inv (dp_registrations d)"
  shows "arena_inv (dp_registrations d') \<and> dp_egress d' = dp_egress d \<and> dp_table d' = dp_table d
    \<and> (case res of
         Inl out \<Rightarrow> regs d' = regs d \<and> (\<forall>t. out \<noteq> Reflected t)
       | Inr v \<Rightarrow> lm_len (se_sessions s) < MAX_SESSIONS \<and> regs d (ss_response_key v) = None \<and> ss_expiry v = expiry
           \<and> (\<exists>r. regs d' = (regs d)(ss_response_key v \<mapsto> r) \<and> is_reply s \<lparr>sk_searcher = p_source p, sk_dest = p_dest p\<rparr> v r))"
proof (cases "MAX_SESSIONS \<le> lm_len (se_sessions s) \<or> reply_source d (se_target s) destination = None")
  case True
  with assms show ?thesis by (auto simp: make_session_def split: if_split_asm option.split_asm)
next
  case False
  then obtain our where our: "\<not> MAX_SESSIONS \<le> lm_len (se_sessions s)" "reply_source d (se_target s) destination = Some our" by auto
  obtain rr d1 where res: "reserve w d our (case ifindex_of (dp_table d) (se_target s) of Some ix \<Rightarrow> ix | None \<Rightarrow> 0) = (rr, d1)" by fastforce
  then have d1: "dp_registrations d1 = dp_registrations d" "dp_egress d1 = dp_egress d" "dp_table d1 = dp_table d"
    by (auto simp: reserve_def)
  show ?thesis
  proof (cases rr)
    case (Inl e)
    with assms our res d1 show ?thesis by (auto simp: make_session_def)
  next
    case (Inr reserved)
    with assms(1) our res obtain k d2 where reg: "dp_register d1 (se_target s) (reply_filter s reserved) (SimpleHandler (reply_leg s p)) = Some (k, d2)"
      and out: "d' = d2" "res = Inr \<lparr>ss_expiry = expiry, ss_source = reserved, ss_response_key = k\<rparr>"
      by (auto simp: make_session_def)
    have "arena_inv (dp_registrations d1)" using assms(2) d1 by simp
    note f = register_facts [OF reg this]
    have "dp_egress d2 = dp_egress d1" "dp_table d2 = dp_table d1" by (subst f(4), simp)+
    moreover have "is_reply s \<lparr>sk_searcher = p_source p, sk_dest = p_dest p\<rparr> \<lparr>ss_expiry = expiry, ss_source = reserved, ss_response_key = k\<rparr>
        \<lparr>rg_ingress = se_target s, rg_filter = reply_filter s reserved, rg_handler = Some (SimpleHandler (reply_leg s p))\<rparr>"
      by (auto simp: is_reply_def)
    ultimately show ?thesis using f(1,2,3) out our(1) d1 by auto
  qed
qed

lemma search_send_facts:
  assumes "search_send w s p src d = (r, d')" "path_ok (dp_egress d)"
  shows "sent_by d d'" "r \<noteq> Inl Panic" "dp_registrations d' = dp_registrations d" "path_ok (dp_egress d')"
  using delivery_send_facts [OF assms(1) [unfolded search_send_def] assms(2)] sent_by_reads sent_by_path assms(2) by blast+

lemma search_on_packet_cases:
  assumes "search_on_packet w s p now d = Some (out, s', d')" "arena_inv (dp_registrations d)" "path_ok (dp_egress d)"
  obtains (same) "regs d' = regs d" "arena_inv (dp_registrations d')" "path_ok (dp_egress d')" "same_sessions s s'"
  | (opened) v r sk where "sk = \<lparr>sk_searcher = p_source p, sk_dest = p_dest p\<rparr>" "lm_get (se_sessions s) sk = None"
      "s' = s\<lparr>se_sessions := se_sessions s @ [(sk, v)]\<rparr>" "lm_len (se_sessions s) < MAX_SESSIONS" "regs d (ss_response_key v) = None"
      "regs d' = (regs d)(ss_response_key v \<mapsto> r)" "is_reply s sk v r" "arena_inv (dp_registrations d')" "path_ok (dp_egress d')"
proof -
  let ?k = "\<lparr>sk_searcher = p_source p, sk_dest = p_dest p\<rparr>"
  let ?expiry = "now + sp_window (se_protocol s) (p_payload p)"
  have refl: "same_sessions s s" by (simp add: same_sessions_def same_leg_def)
  consider (quiet) "s' = s" "d' = d" | (live) t v dest where "sp_search_verdict (se_protocol s) (p_payload p) = Reflect t"
      "delivery_destination (se_delivery s) (fst (p_dest p)) = Some dest" "lm_get (se_sessions s) ?k = Some v"
    | (new) t dest where "sp_search_verdict (se_protocol s) (p_payload p) = Reflect t"
      "delivery_destination (se_delivery s) (fst (p_dest p)) = Some dest" "lm_get (se_sessions s) ?k = None"
    using assms(1) by (auto simp: search_on_packet_def Let_def split: verdict.split_asm option.split_asm)
  then show thesis
  proof cases
    case quiet
    then show thesis using assms(2,3) refl by (intro same) simp_all
  next
    case live
    obtain r d1 where send: "search_send w s p (ss_source v) d = (r, d1)" by fastforce
    note f = search_send_facts [OF send assms(3)]
    have "d' = d1" "s' = s \<or> s' = s\<lparr>se_sessions := lm_get_mut (se_sessions s) ?k (\<lambda>v. v\<lparr>ss_expiry := max (ss_expiry v) ?expiry\<rparr>)\<rparr>"
      using assms(1) live send f(2) by (auto simp: search_on_packet_def Let_def split: sum.split_asm fault.split_asm)
    moreover have "same_sessions s (s\<lparr>se_sessions := lm_get_mut (se_sessions s) ?k (\<lambda>v. v\<lparr>ss_expiry := max (ss_expiry v) ?expiry\<rparr>)\<rparr>)"
      by (simp add: same_sessions_def same_leg_def lm_get_mut_same [of "\<lambda>v :: session. (ss_source v, ss_response_key v)"])
    ultimately show thesis using f assms(2) refl by (intro same) auto
  next
    case new
    with assms(1) obtain res d1 where ms: "make_session w s p dest d ?expiry t = Some (res, d1)"
      by (auto simp: search_on_packet_def Let_def bind_eq_Some_conv)
    note m = make_session_facts [OF ms assms(2)]
    show thesis
    proof (cases res)
      case (Inl o')
      then have "s' = s" "d' = d1" using assms(1) new ms by (auto simp: search_on_packet_def Let_def)
      then show thesis using m Inl assms(3) refl by (intro same) simp_all
    next
      case (Inr v)
      obtain r d2 where send: "search_send w s p (ss_source v) d1 = (r, d2)" by fastforce
      have "path_ok (dp_egress d1)" using m assms(3) by simp
      note f = search_send_facts [OF send this]
      obtain reg where reg: "regs d1 = (regs d)(ss_response_key v \<mapsto> reg)" "is_reply s ?k v reg" using m Inr by auto
      show thesis
      proof (cases "r = Inr ()")
        case True
        then have "s' = s\<lparr>se_sessions := se_sessions s @ [(?k, v)]\<rparr>" "d' = d2"
          using assms(1) new ms send Inr by (auto simp: search_on_packet_def Let_def lm_insert_def)
        then show thesis using m Inr f reg new by (intro opened [of ?k v reg]) simp_all
      next
        case False
        then have "s' = s" "d' = dp_unregister d2 (ss_response_key v)"
          using assms(1) new ms send Inr f(2) by (auto simp: search_on_packet_def Let_def split: sum.split_asm fault.split_asm)
        moreover have inv2: "arena_inv (dp_registrations d2)" using m f(3) by simp
        moreover have "dp_egress (dp_unregister d2 (ss_response_key v)) = dp_egress d2" by (simp add: dp_unregister_def)
        ultimately show thesis
          using m Inr f reg refl unregister_facts(1,2) [OF inv2] by (intro same) (auto simp: fun_eq_iff)
      qed
    qed
  qed
qed

lemma on_packet_calling:
  assumes "on_packet w h p now (d, rx) = Some (out, h', d', rx')" "calling B d k h" "arena_inv (dp_registrations d)"
  shows "calling B d' k h'" "arena_inv (dp_registrations d')"
proof -
  have live: "regs d k \<noteq> None" using assms(2) by (simp add: calling_def)
  note c = calling_facts [OF assms(2,3)]
  have "calling B d' k h' \<and> arena_inv (dp_registrations d')"
  proof (cases h)
    case (SimpleHandler s)
    then have on: "simple_on_packet w s p now (d, rx) = Some (out, d', rx')" and h': "h' = h"
      using assms(1) by (auto simp: on_packet_def)
    from on c(1) have "dp_registrations d' = dp_registrations d \<and> path_ok (dp_egress d')"
    proof (cases rule: simple_on_packet_cases)
      case kept
      from dial_only [OF kept(1)] c(1) show ?thesis by simp
    next
      case (sent t dest rw d1 payload r)
      from dial_only [OF sent(9)] sent_by_reads [OF sent(10)] sent_by_path [OF sent(10)] c(1) show ?thesis by simp
    qed
    with c live assms(3) h' show ?thesis by (auto intro: callingI)
  next
    case (SearchHandler s)
    then obtain s' where on: "search_on_packet w s p now d = Some (out, s', d')" and h': "h' = SearchHandler s'"
      using assms(1) by (auto simp: on_packet_def)
    note at = c(3) [OF SearchHandler]
    from on assms(3) c(1) show ?thesis
    proof (cases rule: search_on_packet_cases)
      case same
      from refresh_reg_inv [OF c(2) at same(4)] same(1,2,3) live h' show ?thesis
        by (cases "regs d k") (auto intro!: callingI simp: rg_set_handler_def)
    next
      case (opened v r sk)
      have fresh: "((regs d)(k := map_option (rg_set_handler (Some h)) (regs d k))) (ss_response_key v) = None"
        using opened(5) live by auto
      note inv' = add_reg_inv [OF c(2) at fresh opened(2,4) refl opened(7,3)]
      have eq: "((regs d)(k := map_option (rg_set_handler (Some h)) (regs d k), ss_response_key v \<mapsto> r))
            (k := map_option (rg_set_handler (Some (SearchHandler s'))) (((regs d)(k := map_option (rg_set_handler (Some h)) (regs d k))) k))
          = (regs d')(k := map_option (rg_set_handler (Some h')) (regs d' k))"
        using opened(5,6) live h' by (cases "regs d k") (auto simp: fun_eq_iff rg_set_handler_def)
      have "regs d' k \<noteq> None" using live opened(6) by simp
      with inv' [unfolded eq] opened(8,9) show ?thesis by (auto intro: callingI)
    qed
  qed
  then show "calling B d' k h'" "arena_inv (dp_registrations d')" by blast+
qed

text \<open>Dropping sessions, on a deadline or an interface change.\<close>

lemma drop_sessions_calling:
  assumes "calling B d k (SearchHandler s)" "arena_inv (dp_registrations d)"
    and "fold (\<lambda>(_, v) d. dp_unregister d (ss_response_key v)) (filter (\<lambda>e. \<not> Q e) (se_sessions s)) d = d'"
  shows "calling B d' k (SearchHandler (s\<lparr>se_sessions := filter Q (se_sessions s)\<rparr>))" "arena_inv (dp_registrations d')"
proof -
  let ?R = "(regs d)(k := map_option (rg_set_handler (Some (SearchHandler s))) (regs d k))"
  let ?gone = "ss_response_key ` snd ` set (filter (\<lambda>e. \<not> Q e) (se_sessions s))"
  note c = calling_facts [OF assms(1,2)] and u = unregister_all_facts [OF assms(2,3)]
  have live: "regs d k \<noteq> None" using assms(1) by (simp add: calling_def)
  have "k \<notin> ?gone"
    using own_reply_elsewhere [OF reg_owned [OF c(2)] c(3) [OF refl]] c(3) [OF refl] by (fastforce simp: owns_def)
  then have k: "regs d' k = regs d k" using u by simp
  have eq: "(\<lambda>x. if x \<in> ?gone then None else ?R x)(k := map_option (rg_set_handler (Some (SearchHandler s'))) (?R k))
      = (regs d')(k := map_option (rg_set_handler (Some (SearchHandler s'))) (regs d' k))" for s'
    using u k by (cases "regs d k") (auto simp: fun_eq_iff rg_set_handler_def)
  have "reg_inv B ((\<lambda>x. if x \<in> ?gone then None else ?R x)(k := map_option (rg_set_handler
      (Some (SearchHandler (s\<lparr>se_sessions := filter Q (se_sessions s)\<rparr>)))) ((\<lambda>x. if x \<in> ?gone then None else ?R x) k)))"
    by (rule drop_reg_inv [OF c(2) c(3) [OF refl] refl]) simp
  then have "reg_inv B ((regs d')(k := map_option (rg_set_handler (Some (SearchHandler (s\<lparr>se_sessions := filter Q (se_sessions s)\<rparr>)))) (regs d' k)))"
    using \<open>k \<notin> ?gone\<close> eq by simp
  moreover have "dp_egress d' = dp_egress d" using u by (metis dispatcher.surjective dispatcher.select_convs(5) dispatcher.update_convs(2))
  ultimately show "calling B d' k (SearchHandler (s\<lparr>se_sessions := filter Q (se_sessions s)\<rparr>))" "arena_inv (dp_registrations d')"
    using u k live c(1) by (auto intro: callingI)
qed

lemma on_deadline_calling:
  assumes "handler_on_deadline h now d = (h', d')" "calling B d k h" "arena_inv (dp_registrations d)"
  shows "calling B d' k h'" "arena_inv (dp_registrations d')"
proof -
  have "calling B d' k h' \<and> arena_inv (dp_registrations d')"
  proof (cases h)
    case (SearchHandler s)
    have "lm_retain (\<lambda>_ v. (\<not> ss_expiry v \<le> now, v)) (se_sessions s) = filter (\<lambda>(_, v). \<not> ss_expiry v \<le> now) (se_sessions s)"
      by (simp add: lm_retain_filter)
    moreover have "filter (\<lambda>(_, v). ss_expiry v \<le> now) (se_sessions s) = filter (\<lambda>e. \<not> (case e of (_, v) \<Rightarrow> \<not> ss_expiry v \<le> now)) (se_sessions s)"
      by (rule filter_cong) auto
    ultimately have "fold (\<lambda>(_, v) d. dp_unregister d (ss_response_key v)) (filter (\<lambda>e. \<not> (case e of (_, v) \<Rightarrow> \<not> ss_expiry v \<le> now)) (se_sessions s)) d = d'"
      "h' = SearchHandler (s\<lparr>se_sessions := filter (\<lambda>(_, v). \<not> ss_expiry v \<le> now) (se_sessions s)\<rparr>)"
      using assms(1) SearchHandler by (simp_all add: handler_on_deadline_def search_on_deadline_def lm_iter_def)
    with drop_sessions_calling [OF _ assms(3)] assms(2) SearchHandler show ?thesis by blast
  qed (use assms in \<open>simp add: handler_on_deadline_def\<close>)
  then show "calling B d' k h'" "arena_inv (dp_registrations d')" by blast+
qed

lemma on_iface_change_calling:
  assumes "handler_on_iface_change h captures d = (h', d')" "calling B d k h" "arena_inv (dp_registrations d)"
  shows "calling B d' k h'" "arena_inv (dp_registrations d')"
proof -
  have "calling B d' k h' \<and> arena_inv (dp_registrations d')"
  proof (cases h)
    case (SearchHandler s)
    show ?thesis
    proof (cases "lm_is_empty (se_sessions s) \<or> se_target s \<notin> set captures")
      case False
      then have "fold (\<lambda>(_, v) d. dp_unregister d (ss_response_key v)) (filter (\<lambda>e. \<not> False) (se_sessions s)) d = d'"
        "h' = SearchHandler (s\<lparr>se_sessions := filter (\<lambda>_. False) (se_sessions s)\<rparr>)"
        using assms(1) SearchHandler by (simp_all add: handler_on_iface_change_def search_on_iface_change_def lm_iter_def lm_clear_def)
      with drop_sessions_calling [OF _ assms(3), of B k s "\<lambda>_. False" d'] assms(2) SearchHandler show ?thesis by simp
    qed (use assms SearchHandler in \<open>auto simp: handler_on_iface_change_def search_on_iface_change_def\<close>)
  qed (use assms in \<open>simp add: handler_on_iface_change_def\<close>)
  then show "calling B d' k h'" "arena_inv (dp_registrations d')" by blast+
qed

section \<open>The dispatcher's operations\<close>

lemma dp_inv_cong: "dp_registrations d' = dp_registrations d \<Longrightarrow> path_ok (dp_egress d') = path_ok (dp_egress d) \<Longrightarrow> dp_inv B d' = dp_inv B d"
  by (simp add: dp_inv_def)

lemma dp_inv_fields [simp]:
  "dp_inv B (d\<lparr>dp_table := t\<rparr>) = dp_inv B d" "dp_inv B (d\<lparr>dp_lifecycle := lc\<rparr>) = dp_inv B d" "dp_inv B (d\<lparr>dp_dial := ctx\<rparr>) = dp_inv B d"
  "dp_inv B (d\<lparr>dp_reassembly := ra\<rparr>) = dp_inv B d" "dp_inv B (d\<lparr>dp_report := rep\<rparr>) = dp_inv B d"
  "dp_inv B (d\<lparr>dp_egress := begin_packet (dp_egress d)\<rparr>) = dp_inv B d" "dp_inv B (d\<lparr>dp_egress := end_packet (dp_egress d)\<rparr>) = dp_inv B d"
  by (simp_all add: dp_inv_def path_ok_def begin_packet_def end_packet_def)

lemma restore_inv: "calling B d k h \<Longrightarrow> dp_inv B (dp_restore d k h)"
  by (simp add: calling_def)

lemma take_none: "dp_inv B d \<Longrightarrow> dp_take d k = (d', None) \<Longrightarrow> d' = d"
proof (cases "regs d k")
  case (Some r)
  assume "dp_inv B d" and t: "dp_take d k = (d', None)"
  with Some obtain h where "rg_handler r = Some h" unfolding dp_inv_def reg_inv_def owned_inv_def by blast
  with t Some show ?thesis by (simp add: dp_take_def take_handler_def)
qed (simp add: dp_take_def take_handler_def)

lemma route_keys_inv:
  "route_keys w ingress p addrs now ks out (d, rx) = Some (out', d', rx') \<Longrightarrow> dp_inv B d \<Longrightarrow> dp_inv B d'"
proof (induction ks arbitrary: out d rx)
  case (Cons k ks)
  show ?case
  proof (cases "is_some_and (regs d k) (\<lambda>r. applies r ingress p addrs)")
    case True
    with Cons.prems(1) obtain d1 h where t: "dp_take d k = (d1, Some h)"
      by (cases "dp_take d k"; cases "snd (dp_take d k)") auto
    with True Cons.prems(1) obtain o' h' d2 rx2 where on: "on_packet w h p now (d1, rx) = Some (o', h', d2, rx2)"
      by (cases "on_packet w h p now (d1, rx)") auto
    note c = take_calling [OF Cons.prems(2) t]
    from on_packet_calling [OF on c] have "dp_inv B (dp_restore d2 k h')" by (simp add: restore_inv)
    with Cons.IH Cons.prems(1) True t on show ?thesis by auto
  qed (use Cons in auto)
qed simp

lemma route_inv: "route w ingress p now (d, rx) = Some (d', rx') \<Longrightarrow> dp_inv B d \<Longrightarrow> dp_inv B d'"
  using route_keys_inv [of w ingress p "dp_egress_addrs d ingress" now "registration_keys d" None "d\<lparr>dp_egress := begin_packet (dp_egress d)\<rparr>" rx]
  by (auto simp: route_def bind_eq_Some_conv Let_def split: if_split_asm option.split_asm)

lemma reassemble_inv:
  assumes "reassemble_and_route w ingress f now (d, rx) = Some (d', rx')" "dp_inv B d"
  shows "dp_inv B d'"
proof -
  obtain ra f' where offered: "offer (dp_reassembly d) ingress f (is_none_or (fragment_headers f) (would_route d ingress)) now = (ra, f')"
    by fastforce
  obtain ra' lost where drained: "drain_lost ra = (ra', lost)" by fastforce
  from assms(1) offered drained obtain t where t: "record_lost lost (dp_table d) = Some t"
    by (auto simp: reassemble_and_route_def bind_eq_Some_conv)
  let ?d = "d\<lparr>dp_reassembly := ra', dp_table := t\<rparr>"
  have ok: "dp_inv B ?d" using assms(2) dp_inv_fields(1,4) by simp
  show ?thesis
  proof (cases f')
    case None
    with assms(1) offered drained t ok show ?thesis by (auto simp: reassemble_and_route_def)
  next
    case (Some r)
    from assms(1) [unfolded reassemble_and_route_def prod.case offered drained Let_def t Option.bind_lunit option.case Some]
    obtain d1 rx1 where
      one: "(case reassembled_packet r of Inr p \<Rightarrow> route w ingress p now (?d, rx)
          | Inl (Err _) \<Rightarrow> map_option (\<lambda>t. (?d\<lparr>dp_table := t\<rparr>, rx)) (it_record_unreassembled (dp_table ?d) ingress)
          | Inl Panic \<Rightarrow> None) = Some (d1, rx1)"
      and d': "d' = d1\<lparr>dp_reassembly := recycle (dp_reassembly d1) r\<rparr>"
      unfolding option.case map_option_eq_Some by (auto split: prod.split_asm)
    have "dp_inv B d1"
    proof (cases "reassembled_packet r")
      case (Inr p)
      with one have "route w ingress p now (?d, rx) = Some (d1, rx1)" by simp
      then show ?thesis using ok by (rule route_inv)
    qed (use one ok in \<open>auto split: fault.split_asm\<close>)
    with d' show ?thesis by simp
  qed
qed

lemma drain_frames_inv:
  "drain_frames w ingress link bound reads drained oversized (d, rx) = Some (n, d', rx') \<Longrightarrow> dp_inv B d \<Longrightarrow> dp_inv B d'"
proof (induction reads arbitrary: drained oversized d rx)
  case (Cons s ss)
  show ?case
  proof (cases "rs_read s")
    case (FrameRead frame)
    show ?thesis
    proof (cases "bound \<and> \<not> (MAX_FRAMES_PER_EVENT \<le> drained \<and> \<not> rs_buffered s)")
      case True
      with FrameRead Cons.prems(1) obtain d1 rx1 where
        one: "(case parse_frame link frame of Inr (Datagram p) \<Rightarrow> route w ingress p (rs_now s) (d, rx)
            | Inr (Fragment f) \<Rightarrow> reassemble_and_route w ingress f (rs_now s) (d, rx) | Inl _ \<Rightarrow> Some (d, rx)) = Some (d1, rx1)"
        and rest: "drain_frames w ingress link bound ss (Suc drained) oversized (d1, rx1) = Some (n, d', rx')"
        by (auto simp: bind_eq_Some_conv split: if_split_asm)
      have "dp_inv B d1"
        using one Cons.prems(2) route_inv reassemble_inv by (auto split: sum.split_asm parsed.split_asm)
      from Cons.IH [OF rest this] show ?thesis .
    qed (use Cons FrameRead in \<open>auto split: if_split_asm\<close>)
  qed (use Cons in \<open>auto split: if_split_asm\<close>)
qed simp

lemma drain_and_route_inv:
  assumes "drain_and_route w ingress reads (d, rx) = Some (d', rx')" "dp_inv B d"
  shows "dp_inv B d'"
  using assms drain_frames_inv
  by (fastforce simp: drain_and_route_def bind_eq_Some_conv split: prod.split_asm option.split_asm)

lemma each_handler_inv:
  assumes "\<And>h d h' d' k. f h d = (h', d') \<Longrightarrow> calling B d k h \<Longrightarrow> arena_inv (dp_registrations d) \<Longrightarrow> calling B d' k h'"
    and "dp_inv B d"
  shows "dp_inv B (each_handler f ks d)"
  using assms(2)
proof (induction ks arbitrary: d)
  case (Cons k ks)
  obtain d1 h where t: "dp_take d k = (d1, h)" by fastforce
  show ?case
  proof (cases h)
    case None
    with t have "d1 = d" using take_none [OF Cons.prems] by blast
    with None t Cons.IH [OF Cons.prems] show ?thesis by simp
  next
    case (Some h0)
    obtain h' d2 where f: "f h0 d1 = (h', d2)" by fastforce
    from assms(1) [OF f] take_calling [OF Cons.prems] t Some have "dp_inv B (dp_restore d2 k h')" by (simp add: restore_inv)
    with Cons.IH t Some f show ?thesis by simp
  qed
qed simp

lemma notify_inv: "dp_inv B d \<Longrightarrow> dp_inv B (notify_iface_change captures d)"
  by (simp add: notify_iface_change_def each_handler_inv on_iface_change_calling(1))

lemma evict_changed_inv [simp]: "dp_inv B (fst (evict_changed w captures st)) = dp_inv B (fst st)"
  by (simp add: evict_changed_def split: prod.split)

lemma evict_fold_inv: "dp_inv B (fst (fold (\<lambda>r. evict_changed w (rb_captures r)) rs st)) = dp_inv B (fst st)"
  by (induction rs arbitrary: st) simp_all

lemma after_repair_inv: "dp_inv B (fst st) \<Longrightarrow> dp_inv B (fst (after_repair w touched rs st))"
  using evict_fold_inv [of B w rs st] by (auto simp: after_repair_def notify_inv split: prod.split)

lemma apply_changes_inv:
  assumes "apply_interface_changes w ch now (d, rx) = Some (d', rx')" "dp_inv B d"
  shows "dp_inv B d'"
proof -
  obtain rs lc t where "(d', rx') = after_repair w (ch_touched ch) rs
      (evict_changed w (ch_v4_moved ch) (d\<lparr>dp_lifecycle := lc, dp_table := t\<rparr>, rx))"
    using assms(1) unfolding apply_interface_changes_def prod.case map_option_eq_Some by (auto split: prod.split_asm) metis
  moreover have "dp_inv B (fst (evict_changed w (ch_v4_moved ch) (d\<lparr>dp_lifecycle := lc, dp_table := t\<rparr>, rx)))"
    using assms(2) by simp
  ultimately show ?thesis using after_repair_inv by (metis fst_conv)
qed

end
