(* ===== verification/Reflectors.thy ===== *)
theory Reflectors
  imports Dispatch
begin

text \<open>
  The reflectors of the five protocols and what a configured entry registers:
  \<^verbatim>\<open>src/src/reflector/mdns.rs\<close>, \<^verbatim>\<open>ssdp.rs\<close>, \<^verbatim>\<open>wsd.rs\<close>, \<^verbatim>\<open>wol.rs\<close>, \<^verbatim>\<open>udp.rs\<close>, \<^verbatim>\<open>build_pair\<close> of
  \<^verbatim>\<open>src/src/reflector/search.rs\<close>, and the wiring of \<^verbatim>\<open>src/src/lib.rs\<close>.
\<close>

section \<open>Classifiers\<close>

fun mdns_type :: "mdns_kind \<Rightarrow> message_type" where
  "mdns_type MdnsQuery = MdnsQueryType"
| "mdns_type MdnsResponse = MdnsResponseType"

definition direction :: "mdns_kind \<Rightarrow> bytes \<Rightarrow> verdict" where
  "direction k payload = directional_verdict mdns_type (classify payload) k"

fun ssdp_type :: "ssdp_kind \<Rightarrow> message_type" where
  "ssdp_type SsdpAdvertisement = SsdpAdvertisementType"
| "ssdp_type SsdpSearch = SsdpSearchType"

definition ssdp_advertisement_verdict :: "bytes \<Rightarrow> verdict" where
  "ssdp_advertisement_verdict payload = directional_verdict ssdp_type (ssdp_classify payload) SsdpAdvertisement"

definition ssdp_search_verdict :: "bytes \<Rightarrow> verdict" where
  "ssdp_search_verdict payload = directional_verdict ssdp_type (ssdp_classify payload) SsdpSearch"

definition SESSION_GRACE :: nat where "SESSION_GRACE = 2 * 1000000000"

definition search_window :: "bytes \<Rightarrow> nat" where
  "search_window payload =
     (case parse_msearch_mx payload of Some mx \<Rightarrow> mx | None \<Rightarrow> unat MSEARCH_MX_DEFAULT) * 1000000000 + SESSION_GRACE"

definition SSDP :: search_protocol where
  "SSDP = \<lparr>sp_name = ''SSDP'', sp_port = SSDP_PORT, sp_ttl = SSDP_TTL, sp_group_v4 = SSDP_GROUP_V4,
     sp_groups_v6 = [SSDP_GROUP_V6_LINK_LOCAL, SSDP_GROUP_V6_SITE_LOCAL], sp_response_type = SsdpResponseType,
     sp_announcement_verdict = ssdp_advertisement_verdict, sp_search_verdict = ssdp_search_verdict,
     sp_window = search_window, sp_suppress = ssdp_advertises_only_unreachable\<rparr>"

fun wsd_type :: "wsd_kind \<Rightarrow> message_type" where
  "wsd_type WsdAnnouncement = WsdAnnouncementType"
| "wsd_type WsdSearch = WsdSearchType"

definition wsd_announcement_verdict :: "bytes \<Rightarrow> verdict" where
  "wsd_announcement_verdict payload = directional_verdict wsd_type (wsd_classify payload) WsdAnnouncement"

definition wsd_search_verdict :: "bytes \<Rightarrow> verdict" where
  "wsd_search_verdict payload = directional_verdict wsd_type (wsd_classify payload) WsdSearch"

definition SESSION_WINDOW :: nat where "SESSION_WINDOW = 5 * 1000000000"

definition WSD :: search_protocol where
  "WSD = \<lparr>sp_name = ''WSD'', sp_port = WSD_PORT, sp_ttl = WSD_TTL, sp_group_v4 = WSD_GROUP_V4, sp_groups_v6 = [WSD_GROUP_V6],
     sp_response_type = WsdResponseType, sp_announcement_verdict = wsd_announcement_verdict,
     sp_search_verdict = wsd_search_verdict, sp_window = (\<lambda>_. SESSION_WINDOW), sp_suppress = wsd_advertises_only_unreachable\<rparr>"

definition PREFIX_LEN :: nat where "PREFIX_LEN = 6"
definition MAC_LEN :: nat where "MAC_LEN = 6"
definition MAC_REPS :: nat where "MAC_REPS = 16"
definition MAGIC_LEN :: nat where "MAGIC_LEN = PREFIX_LEN + MAC_REPS * MAC_LEN"

definition mac_of_bytes :: "bytes \<Rightarrow> mac_addr" where
  "mac_of_bytes b = MacAddr (b ! 0) (b ! 1) (b ! 2) (b ! 3) (b ! 4) (b ! 5)"

text \<open>\<^verbatim>\<open>as_chunks\<close>: the slices of \<open>n\<close> bytes a slice splits into.\<close>

fun chunks :: "nat \<Rightarrow> nat \<Rightarrow> bytes \<Rightarrow> bytes list" where
  "chunks n 0 b = []"
| "chunks n (Suc reps) b = take n b # chunks n reps (drop n b)"

definition magic_packet_mac :: "bytes \<Rightarrow> mac_addr option" where
  "magic_packet_mac payload =
     (if length payload < MAGIC_LEN then None
      else
        let magic = take MAGIC_LEN payload in
        if take PREFIX_LEN magic \<noteq> replicate PREFIX_LEN 0xff then None
        else case chunks MAC_LEN MAC_REPS (drop PREFIX_LEN magic) of
               [] \<Rightarrow> None
             | mac # repeats \<Rightarrow> if list_ex (\<lambda>rep. rep \<noteq> mac) repeats then None else Some (mac_of_bytes mac))"

definition wake_allowed :: "mac_addr \<Rightarrow> mac_addr list option \<Rightarrow> bool" where
  "wake_allowed mac targets = is_none_or targets (\<lambda>ts. mac \<in> set ts)"

definition wake_classify :: "mac_addr list option \<Rightarrow> address_family \<Rightarrow> packet \<Rightarrow> verdict" where
  "wake_classify targets family p =
     (case magic_packet_mac (p_payload p) of
        None \<Rightarrow> Junk
      | Some mac \<Rightarrow>
          if \<not> wake_allowed mac targets then Excluded
          else if \<not> family_uses family (fst (p_dest p)) then Excluded
          else Reflect WakeOnLanType)"

definition relay_verdict :: "bytes \<Rightarrow> verdict" where
  "relay_verdict _ = Reflect UdpDatagramType"

section \<open>Builds\<close>

text \<open>What a build makes: registrations on the dispatcher, or an error.\<close>

type_synonym built = "((build_error, unit) result \<times> dispatcher) option"

fun register_all :: "(capture_key \<times> packet_filter \<times> packet_handler) list \<Rightarrow> dispatcher \<Rightarrow> dispatcher option" where
  "register_all [] d = Some d"
| "register_all ((ingress, f, h) # rs) d =
     (case dp_register d ingress f h of None \<Rightarrow> None | Some (_, d) \<Rightarrow> register_all rs d)"

definition mdns_legs :: "reflector \<Rightarrow> mdns_config \<Rightarrow> socket_addr list \<Rightarrow> capture_key \<Rightarrow> capture_key \<Rightarrow> (capture_key \<times> packet_filter \<times> packet_handler) list" where
  "mdns_legs r m groups src tgt =
     (let group_ips = map fst groups;
          services = map_option service_filter_new (md_services m)
      in [(src, filter_default\<lparr>fi_dst_ip := Some group_ips, fi_dst_port := Some [MDNS_PORT]\<rparr>,
           SimpleHandler (with_rewrite (case services of Some f \<Rightarrow> ServiceGate f | None \<Rightarrow> NoRewrite)
             (simple_new tgt (delivery_new (rf_target_peers r)) (\<lambda>p. direction MdnsQuery (p_payload p)) (emit_fixed MDNS_PORT MDNS_TTL)))),
          (tgt, filter_default\<lparr>fi_src_port := Some MDNS_PORT, fi_dst_ip := Some group_ips, fi_dst_port := Some [MDNS_PORT],
             fi_src_mac := rf_macs r, fi_dst_own := Some (rf_family r)\<rparr>,
           SimpleHandler (with_suppress advertises_only_unreachable (with_rewrite (ResponseGate services)
             (simple_new src (delivery_new (rf_source_peers r)) (\<lambda>p. direction MdnsResponse (p_payload p))
               (unicast_to_group (emit_fixed MDNS_PORT MDNS_TTL) MDNS_GROUP_V4 MDNS_GROUP_V6)))))])"

definition mdns_build :: "kernel \<Rightarrow> instant \<Rightarrow> reflector \<Rightarrow> interface_map \<Rightarrow> dispatcher \<Rightarrow> built" where
  "mdns_build kn now r interfaces d =
     (case rf_mdns r of
        None \<Rightarrow> Some (Inr (), d)
      | Some m \<Rightarrow>
          let groups = group_addrs (rf_family r) MDNS_PORT MDNS_GROUP_V4 [MDNS_GROUP_V6] in
          case open_pair kn now r interfaces ''mDNS'' groups d of
            None \<Rightarrow> None
          | Some (Inl e, d) \<Rightarrow> Some (Inl e, d)
          | Some (Inr (src, tgt), d) \<Rightarrow> map_option (\<lambda>d. (Inr (), d)) (register_all (mdns_legs r m groups src tgt) d))"

definition search_legs ::
  "reflector \<Rightarrow> search_protocol \<Rightarrow> (capture_key \<Rightarrow> rewriter) option \<Rightarrow> socket_addr list \<Rightarrow> capture_key \<Rightarrow> capture_key
   \<Rightarrow> (capture_key \<times> packet_filter \<times> packet_handler) list" where
  "search_legs r pr rewrite groups src tgt =
     (let group_ips = map fst groups;
          rw = (case rewrite of Some mint \<Rightarrow> mint tgt | None \<Rightarrow> NoRewrite)
      in [(tgt, filter_default\<lparr>fi_dst_ip := Some group_ips, fi_dst_port := Some [sp_port pr], fi_src_mac := rf_macs r\<rparr>,
           SimpleHandler (with_rewrite rw (with_suppress (sp_suppress pr)
             (simple_new src (delivery_new (rf_source_peers r)) (\<lambda>p. sp_announcement_verdict pr (p_payload p))
               (emit_fixed (sp_port pr) (sp_ttl pr)))))),
          (src, filter_default\<lparr>fi_dst_ip := Some group_ips, fi_dst_port := Some [sp_port pr]\<rparr>,
           SearchHandler (search_new src tgt (delivery_new (rf_target_peers r)) (rf_macs r) pr rw))])"

definition build_pair ::
  "kernel \<Rightarrow> instant \<Rightarrow> reflector \<Rightarrow> interface_map \<Rightarrow> search_protocol \<Rightarrow> (capture_key \<Rightarrow> rewriter) option \<Rightarrow> dispatcher \<Rightarrow> built" where
  "build_pair kn now r interfaces pr rewrite d =
     (let groups = sp_groups pr (rf_family r) in
      case open_pair kn now r interfaces (sp_name pr) groups d of
        None \<Rightarrow> None
      | Some (Inl e, d) \<Rightarrow> Some (Inl e, d)
      | Some (Inr (src, tgt), d) \<Rightarrow> map_option (\<lambda>d. (Inr (), d)) (register_all (search_legs r pr rewrite groups src tgt) d))"

definition ssdp_build :: "kernel \<Rightarrow> instant \<Rightarrow> reflector \<Rightarrow> interface_map \<Rightarrow> dispatcher \<Rightarrow> built" where
  "ssdp_build kn now r interfaces d =
     (case rf_ssdp r of
        None \<Rightarrow> Some (Inr (), d)
      | Some s \<Rightarrow> build_pair kn now r interfaces SSDP (if sd_dial s then Some DialRewrite else None) d)"

definition wsd_build :: "kernel \<Rightarrow> instant \<Rightarrow> reflector \<Rightarrow> interface_map \<Rightarrow> dispatcher \<Rightarrow> built" where
  "wsd_build kn now r interfaces d = (if \<not> rf_wsd r then Some (Inr (), d) else build_pair kn now r interfaces WSD None d)"

text \<open>The captures of a one-way entry, once its egress can send what the entry requires.\<close>

definition open_egress :: "reflector \<Rightarrow> interface_map \<Rightarrow> dispatcher \<Rightarrow> (build_error, capture_key \<times> capture_key) result" where
  "open_egress r interfaces d =
     (case im_require interfaces (rf_source_if r) of
        Inl e \<Rightarrow> Inl e
      | Inr ingress \<Rightarrow>
          (case im_require interfaces (rf_target_if r) of
             Inl e \<Rightarrow> Inl e
           | Inr egress \<Rightarrow>
               (case require_egress_family d egress (rf_target_if r) (rf_family r) of
                  Inl e \<Rightarrow> Inl e
                | Inr _ \<Rightarrow> Inr (ingress, egress))))"

definition wol_leg :: "reflector \<Rightarrow> wol_config \<Rightarrow> capture_key \<Rightarrow> capture_key \<Rightarrow> capture_key \<times> packet_filter \<times> packet_handler" where
  "wol_leg r wol ingress egress =
     (ingress, filter_default\<lparr>fi_dst_port := Some (wol_ports wol)\<rparr>,
      SimpleHandler (simple_new egress (delivery_new (rf_target_peers r)) (wake_classify (rf_macs r) (rf_family r))
        (unicast_to_broadcast emit_captured_from_egress)))"

definition wol_build :: "kernel \<Rightarrow> instant \<Rightarrow> reflector \<Rightarrow> interface_map \<Rightarrow> dispatcher \<Rightarrow> built" where
  "wol_build kn now r interfaces d =
     (case rf_wol r of
        None \<Rightarrow> Some (Inr (), d)
      | Some wol \<Rightarrow>
          (case open_egress r interfaces d of
             Inl e \<Rightarrow> Some (Inl e, d)
           | Inr (ingress, egress) \<Rightarrow> map_option (\<lambda>d. (Inr (), d)) (register_all [wol_leg r wol ingress egress] d)))"

definition udp_filters :: "udp_relay \<Rightarrow> packet_filter list" where
  "udp_filters u =
     (let groups = (case ur_groups u of Some g \<Rightarrow> g | None \<Rightarrow> [])
      in (if groups \<noteq> [] then [filter_default\<lparr>fi_dst_ip := Some groups, fi_dst_port := Some (ur_ports u)\<rparr>] else [])
       @ (if ur_broadcast u then [filter_default\<lparr>fi_broadcast := True, fi_dst_port := Some (ur_ports u)\<rparr>] else []))"

definition udp_leg :: "reflector \<Rightarrow> capture_key \<Rightarrow> capture_key \<Rightarrow> packet_filter \<Rightarrow> capture_key \<times> packet_filter \<times> packet_handler" where
  "udp_leg r ingress egress f =
     (ingress, f, SimpleHandler (simple_new egress (delivery_new (rf_target_peers r)) (\<lambda>p. relay_verdict (p_payload p))
        (unicast_to_broadcast emit_captured)))"

definition udp_build :: "kernel \<Rightarrow> instant \<Rightarrow> reflector \<Rightarrow> interface_map \<Rightarrow> dispatcher \<Rightarrow> built" where
  "udp_build kn now r interfaces d =
     (case rf_udp r of
        None \<Rightarrow> Some (Inr (), d)
      | Some u \<Rightarrow>
          (case open_egress r interfaces d of
             Inl e \<Rightarrow> Some (Inl e, d)
           | Inr (ingress, egress) \<Rightarrow>
               (case join_each kn now
                   (map (\<lambda>g. (ingress, g, rf_source_if r,
                       \<lparr>wa_label = ''UDP relay'', wa_required = family_requires (rf_family r) g, wa_wait_level = LvWarn\<rparr>))
                     (case ur_groups u of Some g \<Rightarrow> g | None \<Rightarrow> [])) d of
                  None \<Rightarrow> None
                | Some (Inl e, d) \<Rightarrow> Some (Inl e, d)
                | Some (Inr _, d) \<Rightarrow> map_option (\<lambda>d. (Inr (), d)) (register_all (map (udp_leg r ingress egress) (udp_filters u)) d))))"

definition and_then :: "(dispatcher \<Rightarrow> built) \<Rightarrow> (dispatcher \<Rightarrow> built) \<Rightarrow> dispatcher \<Rightarrow> built" where
  "and_then f g d = (case f d of None \<Rightarrow> None | Some (Inl e, d) \<Rightarrow> Some (Inl e, d) | Some (Inr _, d) \<Rightarrow> g d)"

definition build_reflector :: "kernel \<Rightarrow> instant \<Rightarrow> interface_map \<Rightarrow> reflector \<Rightarrow> dispatcher \<Rightarrow> built" where
  "build_reflector kn now interfaces r =
     and_then (wol_build kn now r interfaces) (and_then (mdns_build kn now r interfaces)
       (and_then (ssdp_build kn now r interfaces) (and_then (wsd_build kn now r interfaces) (udp_build kn now r interfaces))))"

fun build_all :: "kernel \<Rightarrow> instant \<Rightarrow> interface_map \<Rightarrow> reflector list \<Rightarrow> dispatcher \<Rightarrow> built" where
  "build_all kn now interfaces [] d = Some (Inr (), d)"
| "build_all kn now interfaces (r # rs) d =
     and_then (build_reflector kn now interfaces r)
       (and_then (if rf_bidirectional r then build_reflector kn now interfaces (reversed r) else (\<lambda>d. Some (Inr (), d)))
         (build_all kn now interfaces rs)) d"

fun open_each :: "kernel \<Rightarrow> interface_name list \<Rightarrow> interface_map \<Rightarrow> dispatcher \<Rightarrow> ((io_error, interface_map) result \<times> dispatcher) option" where
  "open_each kn [] interfaces d = Some (Inr interfaces, d)"
| "open_each kn (name # names) interfaces d =
     (if lm_get interfaces name \<noteq> None then open_each kn names interfaces d
      else case open_capture kn d name of
          None \<Rightarrow> None
        | Some (Inl e, d) \<Rightarrow> Some (Inl e, d)
        | Some (Inr k, d) \<Rightarrow> open_each kn names (fst (lm_insert interfaces name k)) d)"

definition open_captures :: "kernel \<Rightarrow> reflector list \<Rightarrow> dispatcher \<Rightarrow> ((io_error, interface_map) result \<times> dispatcher) option" where
  "open_captures kn rs d = open_each kn (concat (map (\<lambda>r. [rf_source_if r, rf_target_if r]) rs)) lm_new d"

end
