(* ===== verification/Serving.thy ===== *)
theory Serving
  imports Sessions Reflectors
begin

text \<open>
  The dispatcher from its start to any later moment: the captures are opened and the entries built as
  \<^verbatim>\<open>src/src/lib.rs\<close> does it, then the reactor calls. What holds of every such state: the legs that were
  built stay, the replies of live sessions are the only other registrations, and sessions end.
\<close>

section \<open>The remaining calls\<close>

lemma refresh_changed_inv:
  assumes "refresh_changed_interfaces w events now (d, rx) = Some (d', rx')" "dp_inv B d"
  shows "dp_inv B d'"
proof -
  obtain ch lc t where "apply_interface_changes w ch now (d\<lparr>dp_lifecycle := lc, dp_table := t\<rparr>, rx) = Some (d', rx')"
    using assms(1) by (auto simp: refresh_changed_interfaces_def bind_eq_Some_conv)
  from apply_changes_inv [OF this] assms(2) show ?thesis by simp
qed

lemma reconcile_interfaces_inv:
  assumes "reconcile_interfaces w now (d, rx) = Some (d', rx')" "dp_inv B d"
  shows "dp_inv B d'"
proof -
  obtain rs lc t where "(d', rx') = after_repair w [] rs (d\<lparr>dp_lifecycle := lc, dp_table := t\<rparr>, rx)"
    using assms(1) unfolding reconcile_interfaces_def prod.case map_option_eq_Some by (auto split: prod.split_asm) metis
  with after_repair_inv [of B "(d\<lparr>dp_lifecycle := lc, dp_table := t\<rparr>, rx)" w "[]" rs] assms(2) show ?thesis
    by (metis dp_inv_fields(1,2) fst_conv)
qed

lemma recheck_inv:
  assumes "recheck_if_due w now (d, rx) = Some (d', rx')" "dp_inv B d"
  shows "dp_inv B d'"
  using assms apply_changes_inv by (fastforce simp: recheck_if_due_def split: if_split_asm prod.split_asm)

lemma joins_inv: "joins_if_due w now d = (b, d') \<Longrightarrow> dp_inv B d \<Longrightarrow> dp_inv B d'"
  by (auto simp: joins_if_due_def split: if_split_asm prod.split_asm)

lemma on_deadline_inv:
  assumes "dp_on_deadline w now (d, rx) = Some (d', rx')" "dp_inv B d"
  shows "dp_inv B d'"
proof -
  let ?d = "each_handler (\<lambda>h. handler_on_deadline h now) (due_handlers d now) d"
  obtain rx1 ctx where sw: "dial_sweep (dw_poller (w_dial w)) now rx (dp_dial ?d) = (rx1, ctx)" by fastforce
  have "dp_inv B ?d" by (rule each_handler_inv [OF on_deadline_calling(1) assms(2)])
  then have "dp_inv B (?d\<lparr>dp_dial := ctx, dp_report := tick_report now (dp_report ?d)\<rparr>)" by simp
  moreover obtain d2 rx2 where re: "recheck_if_due w now (?d\<lparr>dp_dial := ctx, dp_report := tick_report now (dp_report ?d)\<rparr>, rx1) = Some (d2, rx2)"
    using assms(1) sw by (auto simp: dp_on_deadline_def bind_eq_Some_conv Let_def)
  ultimately have d2: "dp_inv B d2" using recheck_inv by blast
  obtain b d3 where j: "joins_if_due w now d2 = (b, d3)" by fastforce
  have d3: "dp_inv B d3" using joins_inv [OF j d2] .
  have "reconcile_interfaces w now (d3, rx2) = Some (d', rx') \<or> d' = d3"
    using assms(1) sw re j by (auto simp: dp_on_deadline_def Let_def split: if_split_asm)
  with reconcile_interfaces_inv d3 show ?thesis by blast
qed

lemma on_readable_inv:
  "dp_on_readable w ev events reads now (d, rx) = Some (d', rx') \<Longrightarrow> dp_inv B d \<Longrightarrow> dp_inv B d'"
  using refresh_changed_inv drain_and_route_inv by (auto simp: dp_on_readable_def split: if_split_asm)

section \<open>Building\<close>

fun fresh_handler :: "packet_handler \<Rightarrow> bool" where
  "fresh_handler (SimpleHandler _) = True"
| "fresh_handler (SearchHandler s) = (se_sessions s = [])"

lemma register_owned:
  assumes inv: "owned_inv R" and k: "R k = None" and r: "rg_handler r = Some h" "fresh_handler h"
  shows "owned_inv (R(k \<mapsto> r))" "owns (R(k \<mapsto> r)) = owns R"
proof -
  have at: "search_at (R(k \<mapsto> r)) k2 s2 \<longleftrightarrow> (if k2 = k then h = SearchHandler s2 else search_at R k2 s2)" for k2 s2
    using r(1) by (auto simp: search_at_def)
  have not_at: "\<not> search_at R k s2" for s2 using k by (simp add: search_at_def)
  have empty: "se_sessions s2 = []" if "h = SearchHandler s2" for s2 using r(2) that by simp
  show eq: "owns (R(k \<mapsto> r)) = owns R"
    using empty not_at by (fastforce simp: owns_def at fun_eq_iff split: if_split_asm)
  have "sessions_ok (R(k \<mapsto> r)) s2" if s2: "search_at (R(k \<mapsto> r)) k2 s2" for k2 s2
  proof (cases "k2 = k")
    case True
    with s2 at empty show ?thesis by (simp add: sessions_ok_def lm_inv_def lm_len_def)
  next
    case False
    with s2 at inv have "sessions_ok R s2" by (auto simp: owned_inv_def)
    with k show ?thesis by (fastforce simp: sessions_ok_def)
  qed
  moreover have "rg_handler r2 \<noteq> None" if "(R(k \<mapsto> r)) x = Some r2" for x r2
    using that r(1) inv by (auto simp: owned_inv_def split: if_split_asm)
  moreover have "k2 = k3 \<and> sk2 = sk3" if "owns R k2 sk2 rk" "owns R k3 sk3 rk" for k2 sk2 k3 sk3 rk
    using inv that unfolding owned_inv_def by blast
  ultimately show "owned_inv (R(k \<mapsto> r))" unfolding owned_inv_def eq by blast
qed

text \<open>While building, every registration is a leg.\<close>

definition building :: "dispatcher \<Rightarrow> bool" where
  "building d \<longleftrightarrow> dp_inv (dom (regs d)) d"

lemma with_table_building: "building (with_table t lc seed)"
proof -
  have "regs (with_table t lc seed) = Map.empty"
    by (auto simp: with_table_def arena_new_def arena_get_def arena_slot_def nth_opt_def fun_eq_iff)
  then show ?thesis
    by (simp add: building_def dp_inv_def reg_inv_def owned_inv_def legs_inv_def owns_def search_at_def)
      (simp add: with_table_def arena_inv_new path_ok_def egress_new_def)
qed

lemma register_building:
  assumes "dp_register d ingress f h = Some (k, d')" "building d" "fresh_handler h"
  shows "building d'"
proof -
  have d: "arena_inv (dp_registrations d)" "owned_inv (regs d)" "legs_inv (dom (regs d)) (regs d)" "path_ok (dp_egress d)"
    using assms(2) by (simp_all add: building_def dp_inv_def reg_inv_def)
  note f = register_facts [OF assms(1) d(1)]
  note o = register_owned [OF d(2) f(1) _ assms(3), of "\<lparr>rg_ingress = ingress, rg_filter = f, rg_handler = Some h\<rparr>"]
  have "owned_inv (regs d')" "owns (regs d') = owns (regs d)" unfolding f(2) using o by simp_all
  moreover have "rk \<noteq> k" if "owns (regs d) k2 sk rk" for k2 sk rk
    using owns_live [OF d(2) that] f(1) by auto
  ultimately have "reg_inv (dom (regs d')) (regs d')"
    using d(3) by (auto simp: reg_inv_def legs_inv_def f(2))
  moreover have "dp_egress d' = dp_egress d" by (subst f(4), simp)
  ultimately show ?thesis using d(4) f(3) by (simp add: building_def dp_inv_def)
qed

lemma register_all_building:
  "register_all rs d = Some d' \<Longrightarrow> building d \<Longrightarrow> \<forall>(i, f, h) \<in> set rs. fresh_handler h \<Longrightarrow> building d'"
proof (induction rs arbitrary: d)
  case (Cons r rs)
  obtain i f h where r: "r = (i, f, h)" by (cases r)
  with Cons.prems obtain k d1 where reg: "dp_register d i f h = Some (k, d1)" "register_all rs d1 = Some d'"
    by (auto split: option.split_asm)
  have "building d1" using register_building [OF reg(1) Cons.prems(2)] Cons.prems(3) r by simp
  from Cons.IH [OF reg(2) this] Cons.prems(3) show ?case by simp
qed simp

text \<open>Everything else a build does leaves the registrations and the egress path alone.\<close>

definition same_regs :: "dispatcher \<Rightarrow> dispatcher \<Rightarrow> bool" where
  "same_regs d d' \<longleftrightarrow> dp_registrations d' = dp_registrations d \<and> dp_egress d' = dp_egress d"

lemma same_regs_building: "same_regs d d' \<Longrightarrow> building d' = building d"
  by (simp add: same_regs_def building_def dp_inv_def)

lemma same_regs_refl [simp]: "same_regs d d"
  by (simp add: same_regs_def)

lemma same_regs_trans: "same_regs d d' \<Longrightarrow> same_regs d' d'' \<Longrightarrow> same_regs d d''"
  by (simp add: same_regs_def)

lemma join_each_same: "join_each kn now js d = Some (r, d') \<Longrightarrow> same_regs d d'"
proof (induction kn now js d rule: join_each.induct)
  case (2 kn now capture grp name w js d)
  then obtain r1 d1 where j: "require_group_join kn capture grp name w now d = Some (r1, d1)" by (auto split: option.split_asm)
  then have "same_regs d d1"
    by (auto simp: require_group_join_def dp_join_group_def same_regs_def split: option.split_asm)
  with 2 j show ?case by (cases r1) (auto intro: same_regs_trans)
qed simp

lemma join_each_mapped: "map_option (\<lambda>(res, d). (f res, d)) (join_each kn now js d) = Some (res, d') \<Longrightarrow> same_regs d d'"
  by (auto dest: join_each_same)

lemma open_pair_same: "open_pair kn now r interfaces label groups d = Some (res, d') \<Longrightarrow> same_regs d d'"
  unfolding open_pair_def
  by (auto split: sum.split_asm simp del: map_option_eq_Some dest!: join_each_mapped)

lemma open_capture_same: "open_capture kn d name = Some (r, d') \<Longrightarrow> same_regs d d'"
  by (auto simp: open_capture_def same_regs_def Let_def split: sum.split option.split)

lemma open_each_same: "open_each kn names interfaces d = Some (r, d') \<Longrightarrow> same_regs d d'"
proof (induction kn names interfaces d rule: open_each.induct)
  case (2 kn name names interfaces d)
  show ?case
  proof (cases "lm_get interfaces name = None")
    case True
    with 2 obtain r1 d1 where o: "open_capture kn d name = Some (r1, d1)" by (auto split: option.split_asm)
    with 2 True open_capture_same [OF o] show ?thesis by (cases r1) (auto intro: same_regs_trans)
  qed (use 2 in auto)
qed simp

lemma legs_fresh:
  "\<forall>(i, f, h) \<in> set (mdns_legs r m groups src tgt). fresh_handler h"
  "\<forall>(i, f, h) \<in> set (search_legs r pr rw groups src tgt). fresh_handler h"
  "\<forall>(i, f, h) \<in> set [wol_leg r wol src tgt]. fresh_handler h"
  "\<forall>(i, f, h) \<in> set (map (udp_leg r src tgt) fs). fresh_handler h"
  by (auto simp: mdns_legs_def search_legs_def wol_leg_def udp_leg_def Let_def search_new_def lm_new_def)

lemma mdns_building: "mdns_build kn now r im d = Some (res, d') \<Longrightarrow> building d \<Longrightarrow> building d'"
  using open_pair_same same_regs_building register_all_building [OF _ _ legs_fresh(1)]
  by (fastforce simp: mdns_build_def Let_def split: option.split_asm sum.split_asm prod.split_asm)

lemma pair_building: "build_pair kn now r im pr rw d = Some (res, d') \<Longrightarrow> building d \<Longrightarrow> building d'"
  using open_pair_same same_regs_building register_all_building [OF _ _ legs_fresh(2)]
  by (fastforce simp: build_pair_def Let_def split: option.split_asm sum.split_asm prod.split_asm)

lemma wol_building: "wol_build kn now r im d = Some (res, d') \<Longrightarrow> building d \<Longrightarrow> building d'"
  using register_all_building [OF _ _ legs_fresh(3)]
  by (fastforce simp: wol_build_def split: option.split_asm sum.split_asm prod.split_asm)

lemma udp_building: "udp_build kn now r im d = Some (res, d') \<Longrightarrow> building d \<Longrightarrow> building d'"
  using join_each_same same_regs_building register_all_building [OF _ _ legs_fresh(4)]
  by (fastforce simp: udp_build_def split: option.split_asm sum.split_asm prod.split_asm)

lemma and_then_building:
  assumes "\<And>d res d'. f d = Some (res, d') \<Longrightarrow> building d \<Longrightarrow> building d'"
    and "\<And>d res d'. g d = Some (res, d') \<Longrightarrow> building d \<Longrightarrow> building d'"
    and "and_then f g d = Some (res, d')" "building d"
  shows "building d'"
proof -
  from assms(3) obtain r1 d1 where f: "f d = Some (r1, d1)" by (auto simp: and_then_def split: option.split_asm)
  have "building d1" by (rule assms(1) [OF f assms(4)])
  with assms(2,3) f show ?thesis by (cases r1) (auto simp: and_then_def)
qed

lemma ssdp_building: "ssdp_build kn now r im d = Some (res, d') \<Longrightarrow> building d \<Longrightarrow> building d'"
  by (auto simp: ssdp_build_def split: option.split_asm dest: pair_building)

lemma wsd_building: "wsd_build kn now r im d = Some (res, d') \<Longrightarrow> building d \<Longrightarrow> building d'"
  by (auto simp: wsd_build_def split: if_split_asm dest: pair_building)

lemma build_reflector_building:
  assumes "build_reflector kn now im r d = Some (res, d')" "building d"
  shows "building d'"
proof -
  note last = and_then_building [of "wsd_build kn now r im" "udp_build kn now r im", OF wsd_building udp_building]
  note rest = and_then_building [of "ssdp_build kn now r im", OF ssdp_building last]
  note more = and_then_building [of "mdns_build kn now r im", OF mdns_building rest]
  show ?thesis
    by (rule and_then_building [of "wol_build kn now r im", OF wol_building more assms(1) [unfolded build_reflector_def] assms(2)])
qed

lemma build_all_building: "build_all kn now im rs d = Some (res, d') \<Longrightarrow> building d \<Longrightarrow> building d'"
proof (induction rs arbitrary: d res d')
  case (Cons r rs)
  show ?case
  proof (rule and_then_building [OF build_reflector_building _ Cons.prems [unfolded build_all.simps]])
    fix d res d'
    assume "and_then (if rf_bidirectional r then build_reflector kn now im (reversed r) else (\<lambda>d. Some (Inr (), d))) (build_all kn now im rs) d
      = Some (res, d')" "building d"
    then show "building d'"
      by (rule and_then_building [rotated 2]) (auto dest: Cons.IH build_reflector_building split: if_split_asm)
  qed
qed simp

section \<open>Serving\<close>

text \<open>
  \<open>B\<close> holds the keys of the legs the entries \<open>rs\<close> were built into. Each call may meet another world, and other
  handlers change the reactor between the calls.
\<close>

inductive serving :: "reflector list \<Rightarrow> key set \<Rightarrow> dispatcher \<times> 'h reactor \<Rightarrow> bool" for rs where
  started: "open_captures kn rs (with_table t lc seed) = Some (Inr im, d0) \<Longrightarrow> build_all kn now im rs d0 = Some (Inr (), d)
    \<Longrightarrow> serving rs (dom (regs d)) (d, rx)"
| reporting: "serving rs B (d, rx) \<Longrightarrow> serving rs B (enable_counter_report d interval now, rx)"
| readable: "serving rs B st \<Longrightarrow> dp_on_readable w ev events reads now st = Some st' \<Longrightarrow> serving rs B st'"
| deadline: "serving rs B st \<Longrightarrow> dp_on_deadline w now st = Some st' \<Longrightarrow> serving rs B st'"
| elsewhere: "serving rs B (d, rx) \<Longrightarrow> serving rs B (d, rx')"

lemma serving_inv: "serving rs B st \<Longrightarrow> dp_inv B (fst st)"
proof (induction rule: serving.induct)
  case (started kn t lc seed im d0 now d rx)
  have "building d0"
    using open_each_same [OF started(1) [unfolded open_captures_def]] same_regs_building with_table_building by blast
  from build_all_building [OF started(2) this] show ?case by (simp add: building_def)
next
  case (readable B st w ev events reads now st')
  then show ?case using on_readable_inv by (cases st; cases st') auto
next
  case (deadline B st w now st')
  then show ?case using on_deadline_inv by (cases st; cases st') auto
qed (simp_all add: enable_counter_report_def)

lemma serving_facts:
  assumes "serving rs B (d, rx)"
  shows "arena_inv (dp_registrations d)" "owned_inv (regs d)" "legs_inv B (regs d)" "path_ok (dp_egress d)"
  using serving_inv [OF assms] by (simp_all add: dp_inv_def reg_inv_def)

section \<open>Sessions end\<close>

text \<open>A deadline or an interface change only drops sessions, and with them their registrations.\<close>

fun narrows :: "packet_handler \<Rightarrow> packet_handler \<Rightarrow> bool" where
  "narrows (SearchHandler s) (SearchHandler s') = (set (se_sessions s') \<subseteq> set (se_sessions s))"
| "narrows h h' = (h' = h)"

definition narrowed :: "regs \<Rightarrow> regs \<Rightarrow> bool" where
  "narrowed R R' \<longleftrightarrow> (\<forall>k s'. search_at R' k s' \<longrightarrow> (\<exists>s. search_at R k s \<and> set (se_sessions s') \<subseteq> set (se_sessions s)))"

lemma narrowed_refl [simp]: "narrowed R R"
  by (auto simp: narrowed_def)

lemma narrowed_trans: "narrowed R R' \<Longrightarrow> narrowed R' R'' \<Longrightarrow> narrowed R R''"
  unfolding narrowed_def by (meson order_trans)

lemma dropping_facts:
  assumes "arena_inv (dp_registrations d)" "fold (\<lambda>(_, v) d. dp_unregister d (ss_response_key v)) xs d = d'"
  shows "regs d' k \<noteq> None \<Longrightarrow> regs d' k = regs d k"
  using unregister_all_facts [OF assms] by (auto split: if_split_asm)

lemma on_deadline_narrows:
  assumes "handler_on_deadline h now d = (h', d')" "arena_inv (dp_registrations d)"
  shows "narrows h h'" "regs d' k \<noteq> None \<Longrightarrow> regs d' k = regs d k"
    "h' = SearchHandler s' \<Longrightarrow> (sk, v) \<in> set (se_sessions s') \<Longrightarrow> now < ss_expiry v"
proof -
  show "narrows h h'" "h' = SearchHandler s' \<Longrightarrow> (sk, v) \<in> set (se_sessions s') \<Longrightarrow> now < ss_expiry v"
    using assms(1) by (cases h; auto simp: handler_on_deadline_def search_on_deadline_def lm_retain_filter)+
  show "regs d' k \<noteq> None \<Longrightarrow> regs d' k = regs d k"
    using assms dropping_facts [OF assms(2)] by (cases h) (auto simp: handler_on_deadline_def search_on_deadline_def Let_def)
qed

lemma on_iface_change_narrows:
  assumes "handler_on_iface_change h captures d = (h', d')" "arena_inv (dp_registrations d)"
  shows "narrows h h'" "regs d' k \<noteq> None \<Longrightarrow> regs d' k = regs d k"
proof -
  show "narrows h h'"
    using assms(1) by (cases h) (auto simp: handler_on_iface_change_def search_on_iface_change_def lm_clear_def split: if_split_asm)
  have "d' = d \<or> (\<exists>xs :: (session_key \<times> session) list. fold (\<lambda>(_, v) d. dp_unregister d (ss_response_key v)) xs d = d')"
    using assms(1) by (cases h) (auto simp: handler_on_iface_change_def search_on_iface_change_def split: if_split_asm)
  then show "regs d' k \<noteq> None \<Longrightarrow> regs d' k = regs d k" using dropping_facts [OF assms(2)] by blast
qed

text \<open>One handler out, called and back.\<close>

lemma called_search_at:
  assumes t: "dp_take d k = (d1, Some h)" and keep: "\<And>x. regs d2 x \<noteq> None \<Longrightarrow> regs d2 x = regs d1 x"
    and at: "search_at (regs (dp_restore d2 k h')) k2 s2"
  shows "if k2 = k then h' = SearchHandler s2 else search_at (regs d) k2 s2"
proof -
  have d1: "regs d1 = (regs d)(k := map_option (rg_set_handler None) (regs d k))"
    using regs_take [of d k] t by simp
  obtain r where r: "regs (dp_restore d2 k h') k2 = Some r" "rg_handler r = Some (SearchHandler s2)"
    using at by (auto simp: search_at_def)
  show ?thesis
  proof (cases "k2 = k")
    case True
    with r show ?thesis by (auto simp: regs_restore rg_set_handler_def)
  next
    case False
    with r have "regs d2 k2 = Some r" by (simp add: regs_restore)
    moreover from this keep [of k2] have "regs d1 k2 = Some r" by simp
    ultimately show ?thesis using d1 False r(2) by (auto simp: search_at_def)
  qed
qed

lemma called_narrowed:
  assumes t: "dp_take d k = (d1, Some h)" and keep: "\<And>x. regs d2 x \<noteq> None \<Longrightarrow> regs d2 x = regs d1 x" and n: "narrows h h'"
  shows "narrowed (regs d) (regs (dp_restore d2 k h'))"
proof -
  obtain r where "regs d k = Some r" "rg_handler r = Some h"
    using t take_handler_value [of d k] by (cases "regs d k") auto
  then have "\<exists>s. search_at (regs d) k s \<and> set (se_sessions s3) \<subseteq> set (se_sessions s)" if "h' = SearchHandler s3" for s3
    using n that by (cases h) (auto simp: search_at_def)
  with called_search_at [OF t keep] show ?thesis unfolding narrowed_def by (metis order_refl)
qed

lemma each_handler_narrowed:
  assumes "\<And>h d h' d'. f h d = (h', d') \<Longrightarrow> arena_inv (dp_registrations d) \<Longrightarrow> narrows h h' \<and> (\<forall>x. regs d' x \<noteq> None \<longrightarrow> regs d' x = regs d x)"
    and inv: "\<And>h d h' d' k. f h d = (h', d') \<Longrightarrow> calling B d k h \<Longrightarrow> arena_inv (dp_registrations d) \<Longrightarrow> calling B d' k h'"
    and "dp_inv B d"
  shows "narrowed (regs d) (regs (each_handler f ks d))"
  using assms(3)
proof (induction ks arbitrary: d)
  case (Cons k ks)
  obtain d1 h where t: "dp_take d k = (d1, h)" by fastforce
  show ?case
  proof (cases h)
    case None
    with t have "d1 = d" using take_none [OF Cons.prems] by blast
    with None t Cons.IH [OF Cons.prems] show ?thesis by simp
  next
    case (Some h0)
    note c = take_calling [OF Cons.prems t [unfolded Some]]
    obtain h' d2 where f: "f h0 d1 = (h', d2)" by fastforce
    have "narrowed (regs d) (regs (dp_restore d2 k h'))"
      using assms(1) [OF f c(2)] by (intro called_narrowed [OF t [unfolded Some]]) blast+
    moreover have "dp_inv B (dp_restore d2 k h')" by (rule restore_inv [OF inv [OF f c]])
    ultimately show ?thesis using Cons.IH t Some f narrowed_trans by fastforce
  qed
qed simp

text \<open>After the sweep no session is left that was to end by now.\<close>

definition unexpired :: "instant \<Rightarrow> regs \<Rightarrow> bool" where
  "unexpired now R \<longleftrightarrow> (\<forall>k s sk v. search_at R k s \<longrightarrow> (sk, v) \<in> set (se_sessions s) \<longrightarrow> now < ss_expiry v)"

lemma narrowed_unexpired: "narrowed R R' \<Longrightarrow> unexpired now R \<Longrightarrow> unexpired now R'"
  unfolding narrowed_def unexpired_def by blast

lemma sweep_unexpired:
  assumes "dp_inv B d"
    and "\<And>k s sk v. search_at (regs d) k s \<Longrightarrow> k \<notin> set ks \<Longrightarrow> (sk, v) \<in> set (se_sessions s) \<Longrightarrow> now < ss_expiry v"
  shows "unexpired now (regs (each_handler (\<lambda>h. handler_on_deadline h now) ks d))"
  using assms
proof (induction ks arbitrary: d)
  case Nil
  then show ?case by (auto simp: unexpired_def)
next
  case (Cons k ks)
  obtain d1 h where t: "dp_take d k = (d1, h)" by fastforce
  show ?case
  proof (cases h)
    case None
    with t have d1: "d1 = d" using take_none [OF Cons.prems(1)] by blast
    have "Option.bind (regs d k) rg_handler = None" using t None take_handler_value [of d k] by simp
    then have "\<not> search_at (regs d) k s" for s by (auto simp: search_at_def)
    with Cons.IH [OF Cons.prems(1)] Cons.prems(2) None t d1 show ?thesis by fastforce
  next
    case (Some h0)
    note t' = t [unfolded Some]
    note c = take_calling [OF Cons.prems(1) t']
    obtain h' d2 where f: "handler_on_deadline h0 now d1 = (h', d2)" by fastforce
    note n = on_deadline_narrows [OF f c(2)]
    have "dp_inv B (dp_restore d2 k h')" by (rule restore_inv [OF on_deadline_calling(1) [OF f c]])
    moreover have "now < ss_expiry v" if at: "search_at (regs (dp_restore d2 k h')) k2 s2" and k2: "k2 \<notin> set ks"
      and v: "(sk, v) \<in> set (se_sessions s2)" for k2 s2 sk v
    proof (cases "k2 = k")
      case True
      with called_search_at [OF t' n(2) at] n(3) v show ?thesis by simp
    next
      case False
      with called_search_at [OF t' n(2) at] have "search_at (regs d) k2 s2" by simp
      with Cons.prems(2) False k2 v show ?thesis by simp
    qed
    ultimately show ?thesis using Cons.IH t' f by simp
  qed
qed

lemma min_instant_Some: "t \<in> set ts \<Longrightarrow> \<exists>m. min_instant ts = Some m \<and> m \<le> t"
  using min_by_key_le [of "\<lambda>t. t" ts] min_by_key_None [of "\<lambda>t. t" ts] by (cases "min_instant ts") (auto simp: min_instant_def)

lemma search_handler_listed:
  assumes "arena_inv (dp_registrations d)" "search_at (regs d) k s"
  shows "(k, SearchHandler s) \<in> set (arena_handlers rg_handler (dp_registrations d))"
proof -
  obtain r where r: "regs d k = Some r" "rg_handler r = Some (SearchHandler s)" using assms(2) by (auto simp: search_at_def)
  then have "(k, r) \<in> set (arena_iter (dp_registrations d))" using arena_iter_exact [OF assms(1)] by simp
  with r(2) show ?thesis by (force simp: arena_handlers_def List.map_filter_def)
qed

lemma session_deadline:
  assumes "(sk, v) \<in> set (se_sessions s)"
  obtains t where "handler_next_deadline (SearchHandler s) = Some t" "t \<le> ss_expiry v"
  using min_instant_Some [of "ss_expiry v" "map (\<lambda>(_, v). ss_expiry v) (se_sessions s)"] assms that
  by (force simp: handler_next_deadline_def search_next_deadline_def lm_iter_def)

lemma due_handlers_complete:
  assumes "arena_inv (dp_registrations d)" "search_at (regs d) k s" "(sk, v) \<in> set (se_sessions s)" "ss_expiry v \<le> now"
  shows "k \<in> set (due_handlers d now)"
proof -
  obtain t where t: "handler_next_deadline (SearchHandler s) = Some t" "t \<le> ss_expiry v" by (rule session_deadline [OF assms(3)])
  then have "is_some_and (handler_next_deadline (SearchHandler s)) (\<lambda>t. t \<le> now)" using assms(4) by simp
  with search_handler_listed [OF assms(1,2)] show ?thesis by (force simp: due_handlers_def)
qed

lemma notify_narrowed: "dp_inv B d \<Longrightarrow> narrowed (regs d) (regs (notify_iface_change captures d))"
  unfolding notify_iface_change_def
  using each_handler_narrowed [of "\<lambda>h. handler_on_iface_change h captures" B d] on_iface_change_narrows on_iface_change_calling(1)
  by simp

lemma evict_fold_regs: "dp_registrations (fst (fold (\<lambda>r. evict_changed w (rb_captures r)) rs st)) = dp_registrations (fst st)"
  by (induction rs arbitrary: st) (simp_all add: evict_changed_def split_beta)

lemma after_repair_narrowed:
  assumes "dp_inv B (fst st)"
  shows "narrowed (regs (fst st)) (regs (fst (after_repair w touched rs st)))"
proof -
  obtain d rx where f: "fold (\<lambda>r. evict_changed w (rb_captures r)) rs st = (d, rx)" by fastforce
  have "dp_inv B d" "regs d = regs (fst st)"
    using assms evict_fold_inv [of B w rs st] evict_fold_regs [of w rs st] f by auto
  with notify_narrowed show ?thesis by (simp add: after_repair_def f) metis
qed

lemma apply_changes_narrowed:
  assumes "apply_interface_changes w ch now (d, rx) = Some (d', rx')" "dp_inv B d"
  shows "narrowed (regs d) (regs d')"
proof -
  obtain rs lc t where a: "(d', rx') = after_repair w (ch_touched ch) rs
      (evict_changed w (ch_v4_moved ch) (d\<lparr>dp_lifecycle := lc, dp_table := t\<rparr>, rx))" (is "_ = after_repair w _ rs ?st")
    using assms(1) unfolding apply_interface_changes_def prod.case map_option_eq_Some by (auto split: prod.split_asm) metis
  have "dp_inv B (fst ?st)" "regs (fst ?st) = regs d" using assms(2) by (simp_all add: evict_changed_def split_beta)
  with after_repair_narrowed [of B ?st w "ch_touched ch" rs] a show ?thesis by (metis fst_conv)
qed

lemma reconcile_interfaces_narrowed:
  assumes "reconcile_interfaces w now (d, rx) = Some (d', rx')" "dp_inv B d"
  shows "narrowed (regs d) (regs d')"
proof -
  obtain rs lc t where a: "(d', rx') = after_repair w [] rs (d\<lparr>dp_lifecycle := lc, dp_table := t\<rparr>, rx)" (is "_ = after_repair w _ rs ?st")
    using assms(1) unfolding reconcile_interfaces_def prod.case map_option_eq_Some by (auto split: prod.split_asm) metis
  have "dp_inv B (fst ?st)" "regs (fst ?st) = regs d" using assms(2) by simp_all
  with after_repair_narrowed [of B ?st w "[]" rs] a show ?thesis by (metis fst_conv)
qed

lemma on_deadline_unexpired:
  assumes "dp_on_deadline w now (d, rx) = Some (d', rx')" "dp_inv B d"
  shows "unexpired now (regs d') \<and> narrowed (regs d) (regs d')"
proof -
  let ?d = "each_handler (\<lambda>h. handler_on_deadline h now) (due_handlers d now) d"
  obtain rx1 ctx where sw: "dial_sweep (dw_poller (w_dial w)) now rx (dp_dial ?d) = (rx1, ctx)" by fastforce
  let ?d1 = "?d\<lparr>dp_dial := ctx, dp_report := tick_report now (dp_report ?d)\<rparr>"
  have arena: "arena_inv (dp_registrations d)" using assms(2) by (simp add: dp_inv_def)
  have "unexpired now (regs ?d)"
    using due_handlers_complete [OF arena] by (intro sweep_unexpired [OF assms(2)]) (meson not_le)
  then have u: "unexpired now (regs ?d1)" by simp
  have "narrowed (regs d) (regs ?d)"
    using on_deadline_narrows(1,2) by (intro each_handler_narrowed [OF _ on_deadline_calling(1) assms(2)]) blast
  then have n: "narrowed (regs d) (regs ?d1)" by simp
  have "dp_inv B ?d" by (rule each_handler_inv [OF on_deadline_calling(1) assms(2)])
  then have i: "dp_inv B ?d1" by simp
  obtain d2 rx2 where re: "recheck_if_due w now (?d1, rx1) = Some (d2, rx2)"
    using assms(1) sw by (auto simp: dp_on_deadline_def bind_eq_Some_conv Let_def)
  have n2: "narrowed (regs ?d1) (regs d2)"
  proof (cases "lc_next_recheck (dp_lifecycle ?d1) \<le> now")
    case True
    obtain ch lc t where r: "recheck (w_kernel w) (dp_lifecycle ?d1) (dp_table ?d1) now = (ch, lc, t)" using prod_cases3 by blast
    with re True have "apply_interface_changes w ch now (?d1\<lparr>dp_lifecycle := lc, dp_table := t\<rparr>, rx1) = Some (d2, rx2)"
      by (simp add: recheck_if_due_def)
    from apply_changes_narrowed [OF this] i show ?thesis by simp
  qed (use re in \<open>simp add: recheck_if_due_def\<close>)
  obtain b d3 where j: "joins_if_due w now d2 = (b, d3)" by fastforce
  then have r3: "regs d3 = regs d2" by (auto simp: joins_if_due_def split: if_split_asm prod.split_asm)
  have i3: "dp_inv B d3" by (rule joins_inv [OF j recheck_inv [OF re i]])
  have "reconcile_interfaces w now (d3, rx2) = Some (d', rx') \<or> d' = d3"
    using assms(1) sw re j by (auto simp: dp_on_deadline_def Let_def split: if_split_asm)
  then have "narrowed (regs d3) (regs d')" using reconcile_interfaces_narrowed i3 by auto
  then have "narrowed (regs ?d1) (regs d')" using n2 r3 narrowed_trans by metis
  with u n show ?thesis using narrowed_unexpired narrowed_trans by blast
qed

lemma session_value_unique:
  assumes "owned_inv R" "search_at R k s" "(sk, v) \<in> set (se_sessions s)" "(sk, v') \<in> set (se_sessions s)"
  shows "v = v'"
proof -
  have "sessions_ok R s" using assms(1,2) unfolding owned_inv_def by blast
  then have "distinct (map fst (se_sessions s))" by (simp add: sessions_ok_def lm_inv_def)
  with assms(3,4) show ?thesis by (metis eq_key_imp_eq_value)
qed

lemma expired_registration_gone:
  assumes d: "owned_inv (regs d)" "legs_inv B (regs d)" and d': "legs_inv B (regs d')"
    and swept: "unexpired now (regs d')" "narrowed (regs d) (regs d')"
    and s: "search_at (regs d) k s" "(sk, v) \<in> set (se_sessions s)" "ss_expiry v \<le> now"
  shows "regs d' (ss_response_key v) = None"
proof (rule ccontr)
  assume "regs d' (ss_response_key v) \<noteq> None"
  moreover have own: "owns (regs d) k sk (ss_response_key v)" using s by (auto simp: owns_def)
  then have "ss_response_key v \<notin> B" using d(2) unfolding legs_inv_def by blast
  ultimately obtain k' sk' where "owns (regs d') k' sk' (ss_response_key v)" using d' unfolding legs_inv_def by blast
  then obtain s' v' where s': "search_at (regs d') k' s'" "(sk', v') \<in> set (se_sessions s')" "ss_response_key v' = ss_response_key v"
    by (auto simp: owns_def)
  then obtain s0 where s0: "search_at (regs d) k' s0" "(sk', v') \<in> set (se_sessions s0)" using swept(2) unfolding narrowed_def by blast
  then have "owns (regs d) k' sk' (ss_response_key v)" using s'(3) by (auto simp: owns_def)
  with own d(1) have "k' = k" "sk' = sk" unfolding owned_inv_def by blast+
  moreover from this s(1) s0(1) have "s0 = s" by (auto simp: search_at_def)
  ultimately have "v' = v" using session_value_unique [OF d(1) s(1)] s(2) s0(2) by blast
  with s' swept(1) s(3) show False unfolding unexpired_def by (meson not_le)
qed

section \<open>Properties\<close>

text \<open>C3. Registrations are accounted for. From the start of the process through any calls of the reactor, under any
  answers of the kernel: every registration has its handler in place; the legs the entries were built
  into all stay; and every other registration is the reply leg of exactly one live session, listening
  on the interface the search went out on, at the address the session reserved, and answering the
  searcher of that session. No search reflector holds more than 64 sessions.\<close>

theorem registrations_accounted:
  assumes "serving rs B (d, rx)"
  shows "(\<forall>k r. arena_get (dp_registrations d) k = Some r \<longrightarrow> rg_handler r \<noteq> None)
    \<and> (\<forall>k\<in>B. arena_get (dp_registrations d) k \<noteq> None)
    \<and> (\<forall>k r. arena_get (dp_registrations d) k = Some r \<and> k \<notin> B \<longrightarrow>
          (\<exists>k' sk. \<forall>k2 sk2. owns (arena_get (dp_registrations d)) k2 sk2 k \<longleftrightarrow> k2 = k' \<and> sk2 = sk)
          \<and> (\<exists>k' s sk v leg. search_at (arena_get (dp_registrations d)) k' s \<and> (sk, v) \<in> set (se_sessions s) \<and> ss_response_key v = k
                \<and> rg_ingress r = se_target s \<and> rg_filter r = reply_filter s (ss_source v)
                \<and> rg_handler r = Some (SimpleHandler leg) \<and> (\<exists>mac. sr_delivery leg = Unicast (sk_searcher sk) mac)))
    \<and> (\<forall>k s. search_at (arena_get (dp_registrations d)) k s \<longrightarrow> k \<in> B \<and> lm_len (se_sessions s) \<le> MAX_SESSIONS)"
proof -
  note f = serving_facts [OF assms]
  have owned: "(\<exists>k' sk. \<forall>k2 sk2. owns (regs d) k2 sk2 k \<longleftrightarrow> k2 = k' \<and> sk2 = sk)
      \<and> (\<exists>k' s sk v leg. search_at (regs d) k' s \<and> (sk, v) \<in> set (se_sessions s) \<and> ss_response_key v = k
            \<and> rg_ingress r = se_target s \<and> rg_filter r = reply_filter s (ss_source v)
            \<and> rg_handler r = Some (SimpleHandler leg) \<and> (\<exists>mac. sr_delivery leg = Unicast (sk_searcher sk) mac))"
    if k: "regs d k = Some r" "k \<notin> B" for k r
  proof -
    obtain k' sk where own: "owns (regs d) k' sk k" using f(3) k unfolding legs_inv_def by blast
    have "k2 = k' \<and> sk2 = sk" if "owns (regs d) k2 sk2 k" for k2 sk2
      using f(2) own that unfolding owned_inv_def by blast
    with own have one: "\<exists>k' sk. \<forall>k2 sk2. owns (regs d) k2 sk2 k \<longleftrightarrow> k2 = k' \<and> sk2 = sk" by blast
    obtain s v r' where s: "search_at (regs d) k' s" "(sk, v) \<in> set (se_sessions s)" "ss_response_key v = k"
      "regs d k = Some r'" "is_reply s sk v r'" using owns_reply [OF f(2) own] by metis
    have "r' = r" using s(4) k(1) by simp
    with s(5) obtain p where p: "rg_ingress r = se_target s" "rg_filter r = reply_filter s (ss_source v)"
      "p_source p = sk_searcher sk" "rg_handler r = Some (SimpleHandler (reply_leg s p))" by (auto simp: is_reply_def)
    have "\<exists>mac. sr_delivery (reply_leg s p) = Unicast (p_source p) mac"
      by (simp add: reply_leg_def with_suppress_def with_rewrite_def simple_new_def)
    with one s(1-3) p show ?thesis by metis
  qed
  have small: "k \<in> B \<and> lm_len (se_sessions s) \<le> MAX_SESSIONS" if "search_at (regs d) k s" for k s
    using search_is_leg [OF f(2,3) that] f(2) that unfolding owned_inv_def sessions_ok_def by blast
  note handlers = f(2) [unfolded owned_inv_def, THEN conjunct1] and legs = f(3) [unfolded legs_inv_def, THEN conjunct1]
  show ?thesis
    by (intro conjI) (rule handlers, rule legs, (intro allI impI, elim conjE, rule owned, assumption+), use small in blast)
qed

text \<open>C6. Sessions end. The dispatcher asks to be woken no later than the first session is to end; a deadline call
  leaves no session that was to end by then, and the reply leg of each such session is gone.\<close>

theorem sessions_expire:
  assumes run: "serving rs B (d, rx)" and call: "dp_on_deadline w now (d, rx) = Some (d', rx')"
  shows "(\<forall>k s sk v. search_at (arena_get (dp_registrations d)) k s \<and> (sk, v) \<in> set (se_sessions s) \<longrightarrow>
          (\<exists>t. dp_next_deadline d = Some t \<and> t \<le> ss_expiry v)
          \<and> (ss_expiry v \<le> now \<longrightarrow> arena_get (dp_registrations d') (ss_response_key v) = None))
    \<and> (\<forall>k s sk v. search_at (arena_get (dp_registrations d')) k s \<and> (sk, v) \<in> set (se_sessions s) \<longrightarrow> now < ss_expiry v)"
proof -
  note f = serving_facts [OF run] and f' = serving_facts [OF serving.deadline [OF run call]]
  have swept: "unexpired now (regs d')" "narrowed (regs d) (regs d')"
    using on_deadline_unexpired [OF call serving_inv [OF run, simplified]] by simp_all
  have "\<exists>t. dp_next_deadline d = Some t \<and> t \<le> ss_expiry v"
    if s: "search_at (regs d) k s" "(sk, v) \<in> set (se_sessions s)" for k s sk v
  proof -
    obtain t where t: "handler_next_deadline (SearchHandler s) = Some t" "t \<le> ss_expiry v" by (rule session_deadline [OF s(2)])
    have "t \<in> set (List.map_filter (\<lambda>(_, h). handler_next_deadline h) (arena_handlers rg_handler (dp_registrations d)))"
      using search_handler_listed [OF f(1) s(1)] t(1) by (force simp: List.map_filter_def)
    then have "\<exists>m. dp_next_deadline d = Some m \<and> m \<le> t"
      unfolding dp_next_deadline_def by (intro min_instant_Some) (unfold set_append, blast)
    with t(2) show ?thesis by (auto intro: order_trans)
  qed
  moreover have "regs d' (ss_response_key v) = None"
    if "search_at (regs d) k s" "(sk, v) \<in> set (se_sessions s)" "ss_expiry v \<le> now" for k s sk v
    using expired_registration_gone [OF f(2,3) f'(3) swept that] .
  ultimately show ?thesis using swept(1) unfolding unexpired_def by blast
qed

section \<open>A sample run\<close>

text \<open>An SSDP entry between two Ethernet interfaces. The frame buffer is left as it is, since nothing here sends.\<close>

definition sample_ssdp_entry :: reflector where
  "sample_ssdp_entry = \<lparr>rf_name = bstr ''tv'', rf_source_if = bstr ''eth0'', rf_target_if = bstr ''eth1'', rf_source_peers = None,
     rf_target_peers = None, rf_macs = None, rf_family = FamilyIpv4, rf_wol = None, rf_mdns = None,
     rf_ssdp = Some \<lparr>sd_dial = False\<rparr>, rf_wsd = False, rf_bidirectional = False, rf_udp = None\<rparr>"

definition sample_world :: "unit world" where
  "sample_world = \<lparr>w_kernel = sample_kernel 2, w_outside = sample_outside, w_dial = sample_dial_system,
     w_reserve = (\<lambda>n _ _. Inr (40000 + word_of_nat n))\<rparr>"

definition sample_start :: "egress \<Rightarrow> dispatcher" where
  "sample_start g = \<lparr>dp_table = table_new, dp_registrations = arena_new, dp_lifecycle = lifecycle_new None 5, dp_dial = dial_new,
     dp_egress = g, dp_reassembly = reassembler_new, dp_report = None, dp_reservations = 0\<rparr>"

definition sample_captured :: "egress \<Rightarrow> dispatcher" where
  "sample_captured g = snd (the (open_captures (sample_kernel 2) [sample_ssdp_entry] (sample_start g)))"

definition sample_map :: interface_map where
  "sample_map = [(bstr ''eth0'', 0), (bstr ''eth1'', 1)]"

definition sample_built :: "egress \<Rightarrow> dispatcher" where
  "sample_built g = snd (the (build_all (sample_kernel 2) 5 sample_map [sample_ssdp_entry] (sample_captured g)))"

lemma sample_captures: "open_captures (sample_kernel 2) [sample_ssdp_entry] (sample_start g) = Some (Inr sample_map, sample_captured g)"
proof -
  have "map_option fst (open_captures (sample_kernel 2) [sample_ssdp_entry] (sample_start g)) = Some (Inr sample_map)" by code_simp
  then show ?thesis by (auto simp: sample_captured_def)
qed

lemma sample_builds: "build_all (sample_kernel 2) 5 sample_map [sample_ssdp_entry] (sample_captured g) = Some (Inr (), sample_built g)"
proof -
  have "map_option fst (build_all (sample_kernel 2) 5 sample_map [sample_ssdp_entry] (sample_captured g)) = Some (Inr ())" by code_simp
  then show ?thesis by (auto simp: sample_built_def)
qed

lemma sample_serving:
  "serving [sample_ssdp_entry] (dom (arena_get (dp_registrations (sample_built (egress_new 7))))) (sample_built (egress_new 7), rx)"
proof -
  have "sample_start (egress_new 7) = with_table table_new (lifecycle_new None 5) 7" by (simp add: sample_start_def with_table_def)
  with sample_captures [of "egress_new 7"] sample_builds serving.started show ?thesis by metis
qed

definition search_target :: "dispatcher \<Rightarrow> key \<Rightarrow> capture_key option" where
  "search_target d k = (case Option.bind (arena_get (dp_registrations d) k) rg_handler of Some (SearchHandler s) \<Rightarrow> Some (se_target s) | _ \<Rightarrow> None)"

lemma search_target_at: "search_target d k = Some c \<Longrightarrow> \<exists>s. search_at (arena_get (dp_registrations d)) k s \<and> se_target s = c"
  by (auto simp: search_target_def search_at_def bind_eq_Some_conv split: option.split_asm packet_handler.split_asm)

lemma sample_search_leg:
  "\<exists>s. search_at (arena_get (dp_registrations (sample_built g))) \<lparr>key_index = 1, key_generation = 0\<rparr> s \<and> se_target s = 1"
proof -
  have "search_target (sample_built g) \<lparr>key_index = 1, key_generation = 0\<rparr> = Some 1" by code_simp
  then show ?thesis by (rule search_target_at)
qed

lemma registrations_accounted_witness:
  "\<exists>r s. arena_get (dp_registrations (sample_built (egress_new 7))) \<lparr>key_index = 1, key_generation = 0\<rparr> = Some r
    \<and> rg_handler r = Some (SearchHandler s) \<and> se_target s = 1 \<and> lm_len (se_sessions s) \<le> MAX_SESSIONS"
proof -
  obtain s where s: "search_at (arena_get (dp_registrations (sample_built (egress_new 7)))) \<lparr>key_index = 1, key_generation = 0\<rparr> s" "se_target s = 1"
    using sample_search_leg by blast
  moreover have "lm_len (se_sessions s) \<le> MAX_SESSIONS"
    using registrations_accounted [OF sample_serving [of "reactor_new :: unit reactor"]] s(1) by blast
  ultimately show ?thesis by (auto simp: search_at_def)
qed

lemma sessions_expire_witness:
  "\<exists>d' rx' s. dp_on_deadline sample_world 9 (sample_built (egress_new 7), reactor_new) = Some (d', rx')
    \<and> search_at (arena_get (dp_registrations d')) \<lparr>key_index = 1, key_generation = 0\<rparr> s \<and> list_all (\<lambda>(sk, v). 9 < ss_expiry v) (se_sessions s)"
proof -
  have "map_option (\<lambda>(d', rx'). search_target d' \<lparr>key_index = 1, key_generation = 0\<rparr>)
      (dp_on_deadline sample_world 9 (sample_built g, reactor_new)) = Some (Some 1)" for g by code_simp
  from this [of "egress_new 7"] obtain d' rx' s where d': "dp_on_deadline sample_world 9 (sample_built (egress_new 7), reactor_new) = Some (d', rx')"
    and s: "search_at (arena_get (dp_registrations d')) \<lparr>key_index = 1, key_generation = 0\<rparr> s"
    by (auto dest!: search_target_at)
  have "list_all (\<lambda>(sk, v). 9 < ss_expiry v) (se_sessions s)"
    using sessions_expire [OF sample_serving d'] s by (fastforce simp: list_all_iff)
  with d' s show ?thesis by blast
qed

end
