(* ===== verification/Exchange.thy ===== *)
theory Exchange
  imports Serving
begin

text \<open>
  Exchanges seen from the wire: the reply to a search reaches the searcher, a frame of ours that comes
  back is not reflected again, and one readable capture does not starve the others.
\<close>

section \<open>Replies\<close>

lemma make_session_registers:
  assumes "make_session w s p destination d expiry t = Some (Inr v, d')" "arena_inv (dp_registrations d)"
  shows "regs d' (ss_response_key v)
    = Some \<lparr>rg_ingress = se_target s, rg_filter = reply_filter s (ss_source v), rg_handler = Some (SimpleHandler (reply_leg s p))\<rparr>"
proof -
  obtain our reserved d1 where
    "reserve w d our (case ifindex_of (dp_table d) (se_target s) of Some ix \<Rightarrow> ix | None \<Rightarrow> 0) = (Inr reserved, d1)"
    and reg: "dp_register d1 (se_target s) (reply_filter s reserved) (SimpleHandler (reply_leg s p)) = Some (ss_response_key v, d')"
    and v: "ss_source v = reserved"
    using assms(1) by (auto simp: make_session_def split: if_split_asm option.split_asm sum.split_asm prod.split_asm)
  then have "arena_inv (dp_registrations d1)" using assms(2) by (auto simp: reserve_def)
  from register_facts(2) [OF reg this] v show ?thesis by simp
qed

lemma reply_applies:
  "applies \<lparr>rg_ingress = se_target s, rg_filter = reply_filter s reserved, rg_handler = h\<rparr> c q addrs \<longleftrightarrow>
    c = se_target s \<and> p_dest q = reserved
    \<and> is_none_or (se_device_macs s) (\<lambda>macs. is_some_and (p_src_mac q) (\<lambda>mac. mac \<in> set macs))"
  by (auto simp: applies_def filter_matches_def reply_filter_def filter_default_def prod_eq_iff)

text \<open>What the reply leg does with a reply it lets through.\<close>

lemma reply_leg_sends:
  assumes "se_make_reply s = NoRewrite" "\<not> sp_suppress (se_protocol s) (p_payload q)" "egress_sources d (se_source s) (p_source p)"
  shows "simple_on_packet w (reply_leg s p) q now (d, rx) =
    (let (r, d') = dp_send_udp (w_outside w) d (se_source s) (p_source p) (case p_src_mac p of Some mac \<Rightarrow> mac | None \<Rightarrow> mac_broadcast)
           (EgressSource (snd (p_source q))) (sp_ttl (se_protocol s)) (p_payload q)
     in map_option (\<lambda>out. (out, d', rx)) (sent_outcome (sp_response_type (se_protocol s)) r))"
  using assms by (simp add: simple_on_packet_def reply_leg_def with_suppress_def with_rewrite_def simple_new_def emit_reply_def
      delivery_destination_def simple_destination_def rewrite_with_def judged_payload_def source_resolve_def source_port_resolve_def
      ttl_resolve_def delivery_send_def)

text \<open>C4. A reply reaches its searcher. Once a session is made for a search \<open>p\<close>, a device's reply to the reserved
  address (from an allowed device, with something reachable in it) is let through by the session's
  registration for as long as it stands, and goes out as one frame on the interface the search came
  from: it parses to the reply's payload, addressed to the searcher at its IP, port and link address,
  from this host's address with the device's port.\<close>

theorem replies_reach_searcher:
  assumes made: "make_session w s p destination d expiry t = Some (Inr v, d')" "arena_inv (dp_registrations d)"
    and plain: "se_make_reply s = NoRewrite"
    and reply: "p_dest q = ss_source v" "is_none_or (se_device_macs s) (\<lambda>macs. is_some_and (p_src_mac q) (\<lambda>mac. mac \<in> set macs))"
      "\<not> sp_suppress (se_protocol s) (p_payload q)"
    and still: "arena_get (dp_registrations d1) (ss_response_key v) = arena_get (dp_registrations d') (ss_response_key v)"
    and egress: "it_capture (dp_table d1) (se_source s) = Some cap" "cp_link cap = Ethernet"
      "egress_addrs (dp_table d1) (se_source s) = Some addrs" "ifindex_of (dp_table d1) (se_source s) \<noteq> None" "ia_mac addrs = Some mac"
    and sources: "egress_sources d1 (se_source s) (p_source p)"
    and src: "source_addr addrs (fst (p_source p)) (EgressSource (snd (p_source q))) = Some src"
    and fits: "48 + length (p_payload q) \<le> frame_mtu (mtu_of (dp_table d1) (se_source s))" and path: "path_ok (dp_egress d1)"
    and fresh: "\<And>dig. \<not> already_sent (dp_egress d1) (dp_table d1) (se_source s) dig"
    and accepts: "\<And>wire f. os_send (w_outside w1) wire cap f = None"
  shows "\<exists>r leg d2 frame. arena_get (dp_registrations d1) (ss_response_key v) = Some r \<and> applies r (se_target s) q here
    \<and> rg_handler r = Some (SimpleHandler leg)
    \<and> simple_on_packet w1 leg q now (d1, rx) = Some (Reflected (sp_response_type (se_protocol s)), d2, rx)
    \<and> eg_wire (dp_egress d2) = eg_wire (dp_egress d1) @ [\<lparr>at_egress = se_source s, at_frame = frame, at_error = None\<rparr>]
    \<and> parse_frame Ethernet (frame @ pad) = Inr (Datagram \<lparr>p_source = src, p_dest = p_source p, p_ttl = sp_ttl (se_protocol s),
         p_dst_mac = Some (case p_src_mac p of Some m \<Rightarrow> m | None \<Rightarrow> mac_broadcast), p_src_mac = Some mac, p_payload = p_payload q\<rparr>)"
proof -
  let ?mac = "case p_src_mac p of Some m \<Rightarrow> m | None \<Rightarrow> mac_broadcast"
  let ?dg = "\<lparr>dg_dst = p_source p, dg_source = EgressSource (snd (p_source q)), dg_ttl = sp_ttl (se_protocol s), dg_payload = p_payload q\<rparr>"
  note reg = make_session_registers [OF made, folded still]
  obtain g' t' frame where sent: "eg_send_udp (w_outside w1) (se_source s) ?mac ?dg (dp_egress d1, dp_table d1) = (Inr (), g', t')"
    "eg_wire g' = eg_wire (dp_egress d1) @ [\<lparr>at_egress = se_source s, at_frame = frame, at_error = None\<rparr>]"
    "parse_frame Ethernet (frame @ pad) = Inr (Datagram \<lparr>p_source = src, p_dest = p_source p, p_ttl = sp_ttl (se_protocol s),
         p_dst_mac = Some ?mac, p_src_mac = Some mac, p_payload = p_payload q\<rparr>)"
    using whole_send [OF egress _ _ path fresh accepts, of ?dg src ?mac pad] src fits by auto
  have "simple_on_packet w1 (reply_leg s p) q now (d1, rx)
      = Some (Reflected (sp_response_type (se_protocol s)), d1\<lparr>dp_egress := g', dp_table := t'\<rparr>, rx)"
    by (simp add: reply_leg_sends [OF plain reply(3) sources] dp_send_udp_def with_egress_def sent(1) sent_outcome_def)
  with reg sent(2,3) reply(1,2) show ?thesis by (fastforce simp: reply_applies)
qed

section \<open>Echoes\<close>

lemma own_echo_recorded:
  assumes "dp_egress_addrs d c = Some addrs" "ia_mac addrs = Some mac" "\<not> mac_is_unspecified mac" "p_src_mac p = Some mac"
  shows "route w c p now (d, rx) = map_option (\<lambda>t. (d\<lparr>dp_table := t\<rparr>, rx)) (it_record_echo (dp_table d) c)"
  using assms by (simp add: route_def is_own_echo_def)

text \<open>C7. No reflection loops through an echo. What is sent on a bound Ethernet interface, within its MTU, goes out
  under the interface's own link address; if a bridge or an access point hands that very frame back
  to the interface's capture, however padded, draining it sends nothing, opens no session and touches
  no registration: the echo is counted and the drain goes on with what follows.\<close>

theorem own_frames_are_not_reflected:
  assumes egress: "it_capture t c = Some cap" "cp_link cap = Ethernet" "egress_addrs t c = Some addrs" "ifindex_of t c \<noteq> None"
      "ia_mac addrs = Some mac" and src: "source_addr addrs (fst (dg_dst dg)) (dg_source dg) = Some src"
    and fits: "48 + length (dg_payload dg) \<le> frame_mtu (mtu_of t c)" and path: "path_ok g"
    and fresh: "\<not> already_sent g t c (os_hash os (dst_mac, dg))" and accepts: "\<And>wire f. os_send os wire cap f = None"
    and later: "dp_egress_addrs d c = Some addrs'" "ia_mac addrs' = Some mac" "\<not> mac_is_unspecified mac"
  shows "\<exists>g' t' frame. eg_send_udp os c dst_mac dg (g, t) = (Inr (), g', t')
    \<and> eg_wire g' = eg_wire g @ [\<lparr>at_egress = c, at_frame = frame, at_error = None\<rparr>]
    \<and> (\<forall>pad now reads oversized. drain_frames w c Ethernet True (\<lparr>rs_buffered = True, rs_read = FrameRead (frame @ pad), rs_now = now\<rparr> # reads)
          0 oversized (d, rx)
        = Option.bind (it_record_echo (dp_table d) c)
            (\<lambda>t. drain_frames w c Ethernet True reads 1 oversized (d\<lparr>dp_table := t\<rparr>, rx)))"
proof -
  note send = whole_send [OF egress src fits path fresh accepts]
  obtain g' t' frame where sent: "eg_send_udp os c dst_mac dg (g, t) = (Inr (), g', t')"
    "eg_wire g' = eg_wire g @ [\<lparr>at_egress = c, at_frame = frame, at_error = None\<rparr>]" using send [of "[]"] by blast
  have parsed: "parse_frame Ethernet (frame @ pad) = Inr (Datagram \<lparr>p_source = src, p_dest = dg_dst dg, p_ttl = dg_ttl dg,
         p_dst_mac = Some dst_mac, p_src_mac = Some mac, p_payload = dg_payload dg\<rparr>)" for pad
    using send [of pad] sent by auto
  have "drain_frames w c Ethernet True (\<lparr>rs_buffered = True, rs_read = FrameRead (frame @ pad), rs_now = now\<rparr> # reads) 0 oversized (d, rx)
      = Option.bind (it_record_echo (dp_table d) c) (\<lambda>t. drain_frames w c Ethernet True reads 1 oversized (d\<lparr>dp_table := t\<rparr>, rx))"
    for pad now reads oversized
    by (cases "it_record_echo (dp_table d) c") (simp_all add: parsed own_echo_recorded [OF later(1,2,3)])
  with sent show ?thesis by blast
qed

section \<open>Fairness\<close>

text \<open>C10. One readable event drains at most 64 frames, or what the capture had already buffered: reads past the first
  one that finds 64 frames drained and nothing buffered are not made, whatever they would return.\<close>

theorem drain_is_bounded:
  assumes "MAX_FRAMES_PER_EVENT \<le> drained + length reads" "\<not> rs_buffered s"
  shows "drain_frames w c link bound (reads @ s # rest) drained oversized st
     = drain_frames w c link bound (reads @ [s]) drained oversized st"
  using assms
proof (induction reads arbitrary: drained oversized st)
  case Nil
  then show ?case by (cases st) simp
next
  case (Cons r reads)
  have "drain_frames w c link bound (reads @ s # rest) (Suc drained) o' st' = drain_frames w c link bound (reads @ [s]) (Suc drained) o' st'" for o' st'
    using Cons.IH [of "Suc drained"] Cons.prems by simp
  then show ?case by (cases st) (auto split: read.split intro!: Option.bind_cong sum.case_cong)
qed

section \<open>Samples\<close>

definition sample_searcher :: search_reflector where
  "sample_searcher = search_new 0 1 Link None SSDP NoRewrite"

definition sample_search :: packet where
  "sample_search = \<lparr>p_source = (V4 0xc0a80163, 50000), p_dest = (V4 0xeffffffa, 1900), p_ttl = 2, p_dst_mac = None,
     p_src_mac = Some (MacAddr 2 0 0 0 0 9), p_payload = bstr ''M-SEARCH * HTTP/1.1''\<rparr>"

definition sample_reply :: packet where
  "sample_reply = \<lparr>p_source = (V4 0xc0a80132, 1900), p_dest = (V4 0xc0a80102, 40000), p_ttl = 64, p_dst_mac = None,
     p_src_mac = Some (MacAddr 2 0 0 0 0 8), p_payload = bstr ''HTTP/1.1 200 OK''\<rparr>"

definition sample_making :: "egress \<Rightarrow> (outcome, session) result \<times> dispatcher" where
  "sample_making g = the (make_session sample_world sample_searcher sample_search (V4 0xeffffffa) (sample_built g) 9 SsdpSearchType)"

definition sample_session :: session where
  "sample_session = \<lparr>ss_expiry = 9, ss_source = (V4 0xc0a80102, 40000), ss_response_key = \<lparr>key_index = 2, key_generation = 0\<rparr>\<rparr>"

lemma sample_made:
  "make_session sample_world sample_searcher sample_search (V4 0xeffffffa) (sample_built g) 9 SsdpSearchType
    = Some (Inr sample_session, snd (sample_making g))"
proof -
  have "map_option fst (make_session sample_world sample_searcher sample_search (V4 0xeffffffa) (sample_built g) 9 SsdpSearchType)
      = Some (Inr sample_session)" by code_simp
  then show ?thesis by (auto simp: sample_making_def)
qed

lemma sample_source_side:
  "it_capture (dp_table (snd (sample_making g))) 0 = Some \<lparr>cp_fd = 7, cp_link = Ethernet, cp_name = bstr ''eth0''\<rparr>"
  "egress_addrs (dp_table (snd (sample_making g))) 0 = Some sample_addresses" "ifindex_of (dp_table (snd (sample_making g))) 0 \<noteq> None"
  "egress_sources (snd (sample_making g)) 0 (p_source sample_search)"
  "48 + length (p_payload sample_reply) \<le> frame_mtu (mtu_of (dp_table (snd (sample_making g))) 0)"
  "dp_egress (snd (sample_making g)) = g"
  by code_simp+

lemma replies_reach_searcher_witness:
  "\<exists>leg d2 frame. simple_on_packet sample_world leg sample_reply 10 (snd (sample_making (egress_new 7)), reactor_new)
      = Some (Reflected SsdpResponseType, d2, reactor_new)
    \<and> eg_wire (dp_egress d2) = [\<lparr>at_egress = 0, at_frame = frame, at_error = None\<rparr>]
    \<and> parse_frame Ethernet frame = Inr (Datagram \<lparr>p_source = (V4 0xc0a80102, 1900), p_dest = (V4 0xc0a80163, 50000), p_ttl = SSDP_TTL,
         p_dst_mac = Some (MacAddr 2 0 0 0 0 9), p_src_mac = Some (MacAddr 2 0 0 0 0 1), p_payload = bstr ''HTTP/1.1 200 OK''\<rparr>)"
proof -
  have arena: "arena_inv (dp_registrations (sample_built (egress_new 7)))"
    using serving_facts(1) [OF sample_serving [of "reactor_new :: unit reactor"]] .
  have s: "se_make_reply sample_searcher = NoRewrite" "se_source sample_searcher = 0" "se_device_macs sample_searcher = None"
    "se_protocol sample_searcher = SSDP" by (simp_all add: sample_searcher_def search_new_def)
  have unsuppressed: "\<not> sp_suppress SSDP (p_payload sample_reply)" "p_dest sample_reply = ss_source sample_session"
    "source_addr sample_addresses (fst (p_source sample_search)) (EgressSource (snd (p_source sample_reply))) = Some (V4 0xc0a80102, 1900)"
    by code_simp+
  have fresh: "\<not> already_sent (dp_egress (snd (sample_making (egress_new 7)))) t c dig" for t c dig
    by (simp add: sample_source_side already_sent_def egress_new_def)
  have path: "path_ok (dp_egress (snd (sample_making (egress_new 7))))" by (simp add: sample_source_side path_ok_def egress_new_def)
  have accepts: "os_send (w_outside sample_world) wire cap f = None" for wire cap f by (simp add: sample_world_def sample_outside_def)
  from replies_reach_searcher [OF sample_made arena s(1) unsuppressed(2) _ _ refl _ _ _ _ _ _ unsuppressed(3) _ path fresh accepts,
      where pad = "[]" and now = 10 and rx = "reactor_new :: unit reactor" and mac = "MacAddr 2 0 0 0 0 1"]
  show ?thesis
    using sample_source_side [of "egress_new 7"] unsuppressed(1) sample_egress(4)
    by (fastforce simp: s sample_search_def sample_reply_def SSDP_def egress_new_def)
qed

lemma own_frames_are_not_reflected_witness:
  "\<exists>g' t' frame. eg_send_udp sample_outside 0 (MacAddr 1 0 0x5e 0 0 0xfb) sample_relay (begin_packet (egress_new 7), sample_opened) = (Inr (), g', t')
    \<and> eg_wire g' = [\<lparr>at_egress = 0, at_frame = frame, at_error = None\<rparr>]
    \<and> drain_frames sample_world 0 Ethernet True [\<lparr>rs_buffered = True, rs_read = FrameRead (frame @ [0, 0]), rs_now = 9\<rparr>]
          0 0 (sample_built (egress_new 7), reactor_new)
        = map_option (\<lambda>t. (0, sample_built (egress_new 7)\<lparr>dp_table := t\<rparr>, reactor_new)) (it_record_echo (dp_table (sample_built (egress_new 7))) 0)
    \<and> it_record_echo (dp_table (sample_built (egress_new 7))) 0 \<noteq> None"
proof -
  have built: "dp_egress_addrs (sample_built g) 0 = Some sample_addresses" "it_record_echo (dp_table (sample_built g)) 0 \<noteq> None" for g by code_simp+
  have mac: "\<not> mac_is_unspecified (MacAddr 2 0 0 0 0 1)" by code_simp
  from own_frames_are_not_reflected [OF sample_egress(1) _ sample_egress(2,3,4,6,7) path_ok_new sample_fresh sample_accepts
      built(1) sample_egress(4) mac, of "MacAddr 1 0 0x5e 0 0 0xfb" sample_world "egress_new 7" "reactor_new :: unit reactor"]
  obtain g' t' frame where sent: "eg_send_udp sample_outside 0 (MacAddr 1 0 0x5e 0 0 0xfb) sample_relay (begin_packet (egress_new 7), sample_opened) = (Inr (), g', t')"
    "eg_wire g' = [\<lparr>at_egress = 0, at_frame = frame, at_error = None\<rparr>]"
    and drain: "\<And>pad now reads oversized. drain_frames sample_world 0 Ethernet True (\<lparr>rs_buffered = True, rs_read = FrameRead (frame @ pad), rs_now = now\<rparr> # reads)
          0 oversized (sample_built (egress_new 7), reactor_new)
        = Option.bind (it_record_echo (dp_table (sample_built (egress_new 7))) 0)
            (\<lambda>t. drain_frames sample_world 0 Ethernet True reads 1 oversized (sample_built (egress_new 7)\<lparr>dp_table := t\<rparr>, reactor_new))"
    by (auto simp: begin_packet_def egress_new_def)
  from drain [of "[0, 0]" 9 "[]" 0] have "drain_frames sample_world 0 Ethernet True [\<lparr>rs_buffered = True, rs_read = FrameRead (frame @ [0, 0]), rs_now = 9\<rparr>]
          0 0 (sample_built (egress_new 7), reactor_new)
        = map_option (\<lambda>t. (0, sample_built (egress_new 7)\<lparr>dp_table := t\<rparr>, reactor_new)) (it_record_echo (dp_table (sample_built (egress_new 7))) 0)"
    by (cases "it_record_echo (dp_table (sample_built (egress_new 7))) 0") simp_all
  with sent built(2) show ?thesis by blast
qed

lemma drain_is_bounded_witness:
  "drain_frames sample_world 0 Ethernet True
      [\<lparr>rs_buffered = True, rs_read = Oversized, rs_now = 9\<rparr>, \<lparr>rs_buffered = False, rs_read = Oversized, rs_now = 9\<rparr>,
       \<lparr>rs_buffered = True, rs_read = FrameRead [], rs_now = 9\<rparr>] 63 0 (sample_built (egress_new 7), reactor_new)
    = Some (1, sample_built (egress_new 7), reactor_new)"
  using drain_is_bounded [of 63 "[\<lparr>rs_buffered = True, rs_read = Oversized, rs_now = 9\<rparr>]" "\<lparr>rs_buffered = False, rs_read = Oversized, rs_now = 9\<rparr>"
      sample_world 0 Ethernet True "[\<lparr>rs_buffered = True, rs_read = FrameRead [], rs_now = 9\<rparr>]" 0 "(sample_built (egress_new 7), reactor_new)"]
  by (simp add: MAX_FRAMES_PER_EVENT_def)

end
