(* ===== verification/Legs.thy ===== *)
theory Legs
  imports Reflectors
begin

text \<open>
  What the legs of an entry let through, against what the configuration check of
  \<^verbatim>\<open>src/src/config/conflict.rs\<close> takes them to let through, and what the classifiers of
  \<^verbatim>\<open>src/src/reflector/wol.rs\<close> and of the directional protocols accept.
\<close>

section \<open>Magic packets\<close>

fun mac_bytes :: "mac_addr \<Rightarrow> bytes" where
  "mac_bytes (MacAddr a b c d e f) = [a, b, c, d, e, f]"

lemma mac_bytes_inverse:
  assumes "length b = 6"
  shows "mac_bytes (mac_of_bytes b) = b"
proof -
  have "[b ! 0, b ! 1, b ! 2, b ! 3, b ! 4, b ! 5] = b"
    using assms by (intro nth_equalityI) (auto simp: less_Suc_eq numeral_eq_Suc nth_Cons')
  then show ?thesis by (simp add: mac_of_bytes_def)
qed

lemma mac_of_mac_bytes [simp]: "mac_of_bytes (mac_bytes m) = m" "length (mac_bytes m) = 6"
  by (cases m; simp add: mac_of_bytes_def numeral_eq_Suc)+

lemma chunks_all:
  "length b = n * k \<Longrightarrow> (\<forall>c \<in> set (chunks n k b). c = m) \<and> length m = n \<or> k = 0 \<Longrightarrow> b = concat (replicate k m)"
proof (induction k arbitrary: b)
  case (Suc k)
  then have t: "take n b = m" "\<forall>c \<in> set (chunks n k (drop n b)). c = m" "length m = n" by auto
  moreover have "length (drop n b) = n * k" using Suc.prems(1) by simp
  ultimately have "drop n b = concat (replicate k m)" using Suc.IH by simp
  then show ?case using t(1) append_take_drop_id [of n b] by simp
qed simp

lemma chunks_replicate: "length m = n \<Longrightarrow> chunks n k (concat (replicate k m) @ rest) = replicate k m"
  by (induction k) auto

lemma chunks_length: "length (chunks n k b) = k"
  by (induction k arbitrary: b) auto

text \<open>C9. What wakes a device. A payload is a magic packet for a device exactly when it begins with six bytes of all
  ones followed by the device's address sixteen times; anything may follow, a SecureOn password say.\<close>

theorem magic_packet_exact:
  "magic_packet_mac payload = Some mac \<longleftrightarrow> (\<exists>rest. payload = replicate 6 0xff @ concat (replicate 16 (mac_bytes mac)) @ rest)"
proof
  assume m: "magic_packet_mac payload = Some mac"
  let ?body = "drop 6 (take 102 payload)"
  have len: "102 \<le> length payload" and pre: "take 6 (take 102 payload) = replicate 6 0xff"
    using m by (auto simp: magic_packet_mac_def MAGIC_LEN_def PREFIX_LEN_def MAC_LEN_def MAC_REPS_def Let_def split: if_split_asm)
  obtain b bs where c: "chunks 6 16 ?body = b # bs" "\<forall>r \<in> set bs. r = b" "mac = mac_of_bytes b"
    using m by (auto simp: magic_packet_mac_def MAGIC_LEN_def PREFIX_LEN_def MAC_LEN_def MAC_REPS_def Let_def list_ex_iff
        split: if_split_asm list.split_asm)
  have "b = take 6 ?body" using c(1) by (simp add: numeral_eq_Suc)
  then have b: "length b = 6" using len by simp
  have "?body = concat (replicate 16 b)"
    using chunks_all [of ?body 6 16 b] c(1,2) b len by simp
  moreover have "mac_bytes mac = b" using mac_bytes_inverse [OF b] c(3) by simp
  ultimately have "take 102 payload = replicate 6 0xff @ concat (replicate 16 (mac_bytes mac))"
    using pre append_take_drop_id [of 6 "take 102 payload"] by simp
  then have "payload = replicate 6 0xff @ concat (replicate 16 (mac_bytes mac)) @ drop 102 payload"
    by (metis append.assoc append_take_drop_id)
  then show "\<exists>rest. payload = replicate 6 0xff @ concat (replicate 16 (mac_bytes mac)) @ rest" ..
next
  assume "\<exists>rest. payload = replicate 6 0xff @ concat (replicate 16 (mac_bytes mac)) @ rest"
  then obtain rest where p: "payload = (replicate 6 0xff @ concat (replicate 16 (mac_bytes mac))) @ rest" by auto
  have len: "length (concat (replicate 16 (mac_bytes mac))) = 96" by (simp add: length_concat map_replicate_const sum_list_replicate)
  have "take 102 payload = replicate 6 0xff @ concat (replicate 16 (mac_bytes mac))"
    unfolding p using len by (simp add: take_append)
  moreover have "chunks 6 16 (concat (replicate 16 (mac_bytes mac))) = replicate 16 (mac_bytes mac)"
    using chunks_replicate [of "mac_bytes mac" 6 16 "[]"] by simp
  moreover have "replicate 16 (mac_bytes mac) = mac_bytes mac # replicate 15 (mac_bytes mac)" by (simp add: numeral_eq_Suc)
  moreover have "\<not> length payload < 102" unfolding p using len by simp
  ultimately show "magic_packet_mac payload = Some mac"
    by (simp add: magic_packet_mac_def MAGIC_LEN_def PREFIX_LEN_def MAC_LEN_def MAC_REPS_def Let_def list_ex_iff del: replicate_Suc)
qed

section \<open>Legs about a device\<close>

text \<open>
  The legs of an entry, as it was built, that carry what a device sends or what wakes it, with the
  protocol and the interfaces of each; \<open>cap\<close> is the capture of an interface.
\<close>

definition device_legs :: "(interface_name \<Rightarrow> capture_key) \<Rightarrow> reflector
    \<Rightarrow> (protocol \<times> interface_name \<times> interface_name \<times> capture_key \<times> packet_filter \<times> packet_handler) list" where
  "device_legs cap r =
     (let src = cap (rf_source_if r); tgt = cap (rf_target_if r) in
      (case rf_wol r of Some wol \<Rightarrow> [(Wol, rf_source_if r, rf_target_if r, wol_leg r wol src tgt)] | None \<Rightarrow> [])
    @ (case rf_mdns r of
         Some m \<Rightarrow> [(Mdns, rf_target_if r, rf_source_if r,
            mdns_legs r m (group_addrs (rf_family r) MDNS_PORT MDNS_GROUP_V4 [MDNS_GROUP_V6]) src tgt ! 1)]
       | None \<Rightarrow> [])
    @ (case rf_ssdp r of
         Some s \<Rightarrow> [(Ssdp, rf_target_if r, rf_source_if r,
            search_legs r SSDP (if sd_dial s then Some DialRewrite else None) (sp_groups SSDP (rf_family r)) src tgt ! 0)]
       | None \<Rightarrow> [])
    @ (if rf_wsd r then [(Wsd, rf_target_if r, rf_source_if r, search_legs r WSD None (sp_groups WSD (rf_family r)) src tgt ! 0)] else [])
    @ (case rf_udp r of
         Some u \<Rightarrow> map (\<lambda>f. (UdpRelay, rf_source_if r, rf_target_if r, udp_leg r src tgt f)) (udp_filters u)
       | None \<Rightarrow> []))"

text \<open>An entry is built as it is, and reversed too when it is bidirectional.\<close>

definition built_as :: "reflector \<Rightarrow> reflector \<Rightarrow> bool" where
  "built_as r r' \<longleftrightarrow> r' = r \<or> rf_bidirectional r \<and> r' = reversed r"

lemma built_as_facts:
  assumes "built_as r r'"
  shows "(rf_source_if r', rf_target_if r') \<in> set (directions r)" "rf_macs r' = rf_macs r" "rf_family r' = rf_family r"
    "rf_wol r' = rf_wol r" "rf_mdns r' = rf_mdns r" "rf_ssdp r' = rf_ssdp r" "rf_wsd r' = rf_wsd r" "rf_udp r' = rf_udp r"
  using assms by (auto simp: built_as_def directions_def reversed_def)

lemma directions_discovery:
  assumes "(s, t) \<in> set (directions r)" "g \<in> set groups" "family_uses (rf_family r) g"
  shows "\<lparr>fl_protocol = q, fl_ingress = t, fl_egress = s, fl_port = port, fl_reach = ReachGroup g\<rparr> \<in> set (discovery_flows r q port groups)"
  using assms by (auto simp: directions_def discovery_flows_def split: if_split_asm)

text \<open>The device a packet is about.\<close>

definition device_of :: "protocol \<Rightarrow> packet \<Rightarrow> mac_addr" where
  "device_of q p = (case (if q = Wol then magic_packet_mac (p_payload p) else p_src_mac p) of Some m \<Rightarrow> m | None \<Rightarrow> MacAddr 0 0 0 0 0 0)"

lemma mac_filter_allows:
  "is_none_or macs (\<lambda>ms. is_some_and (p_src_mac p) (\<lambda>m. m \<in> set ms)) \<Longrightarrow> q \<noteq> Wol \<Longrightarrow> macs_allow macs (device_of q p)"
  by (cases macs; cases "p_src_mac p") (simp_all add: macs_allow_def device_of_def)

lemma reflectsI:
  assumes "f \<in> set (flows r)" "fl_protocol f = q" "flow_admits bc f i e p" "q \<noteq> UdpRelay \<Longrightarrow> macs_allow (rf_macs r) mac"
    "(if q = Wol \<or> q = UdpRelay then (i, e) else (e, i)) \<in> set (directions r)"
  shows "reflects_device bc r q i e p mac"
  using assms by (auto simp: reflects_device_def)

text \<open>A discovery leg admits what its flow admits.\<close>

lemma discovery_reflects:
  assumes r: "built_as r r'" and q: "q \<notin> {Wol, UdpRelay}" and flows: "set (discovery_flows r q port groups) \<subseteq> set (flows r)"
    and dest: "fst (p_dest p) \<in> set groups" "family_uses (rf_family r) (fst (p_dest p))" "snd (p_dest p) = port"
    and mac: "is_none_or (rf_macs r) (\<lambda>ms. is_some_and (p_src_mac p) (\<lambda>m. m \<in> set ms))"
  shows "reflects_device bc r q (rf_target_if r') (rf_source_if r') p (device_of q p)"
proof -
  have "\<exists>f \<in> set (flows r). fl_protocol f = q \<and> flow_admits bc f (rf_target_if r') (rf_source_if r') p"
    using directions_discovery [OF built_as_facts(1) [OF r] dest(1,2), of q port] flows dest(3)
    by (intro bexI) (auto simp: flow_admits_def)
  with mac_filter_allows [OF mac, of q] q built_as_facts(1) [OF r] show ?thesis by (auto simp: reflects_device_def)
qed

lemma group_addrs_dest:
  assumes "ip \<in> set (map fst (group_addrs family port v4 v6))"
  shows "ip \<in> set (V4 v4 # map V6 v6)" "family_uses family ip"
  using assms by (auto simp: group_addrs_def family_uses_def split: if_split_asm)

lemma wol_reflects:
  assumes r: "built_as r r'" and wol: "rf_wol r = Some wol" and port: "snd (p_dest p) \<in> set (wol_ports wol)"
    and wake: "wake_classify (rf_macs r) (rf_family r) p = Reflect t"
  shows "reflects_device bc r Wol (rf_source_if r') (rf_target_if r') p (device_of Wol p)"
proof -
  have w: "macs_allow (rf_macs r) (device_of Wol p)" "family_uses (rf_family r) (fst (p_dest p))"
    using wake by (auto simp: wake_classify_def wake_allowed_def is_none_or_def macs_allow_def device_of_def split: option.split_asm if_split_asm)
  have "\<lparr>fl_protocol = Wol, fl_ingress = rf_source_if r', fl_egress = rf_target_if r', fl_port = snd (p_dest p), fl_reach = ReachAny (rf_family r)\<rparr>
      \<in> set (flows r)"
    using built_as_facts(1) [OF r] wol port by (force simp: flows_def direction_flows_def)
  from reflectsI [OF this, of Wol] w built_as_facts(1) [OF r] show ?thesis by (simp add: flow_admits_def)
qed

lemma udp_reflects:
  assumes r: "built_as r r'" and udp: "rf_udp r = Some u" and f: "f \<in> set (udp_filters u)" "filter_matches f p addrs"
  shows "reflects_device (Option.bind addrs v4_directed_broadcast) r UdpRelay (rf_source_if r') (rf_target_if r') p mac"
proof -
  have port: "snd (p_dest p) \<in> set (ur_ports u)" using f by (auto simp: udp_filters_def filter_matches_def filter_default_def Let_def split: if_split_asm)
  obtain reach where reach: "(snd (p_dest p), reach) \<in> set (destinations u)" "reach_admits (Option.bind addrs v4_directed_broadcast) reach p"
  proof (cases "fi_broadcast f")
    case True
    then have "ur_broadcast u" "is_broadcast p (Option.bind addrs v4_directed_broadcast)"
      using f by (auto simp: udp_filters_def filter_matches_def filter_default_def Let_def split: if_split_asm)
    with port that [of ReachBroadcast] show thesis by (auto simp: destinations_def Let_def)
  next
    case False
    then obtain gs where "ur_groups u = Some gs" "fst (p_dest p) \<in> set gs"
      using f by (auto simp: udp_filters_def filter_matches_def filter_default_def Let_def split: if_split_asm option.split_asm)
    with port that [of "ReachGroup (fst (p_dest p))"] show thesis by (auto simp: destinations_def Let_def)
  qed
  have "\<lparr>fl_protocol = UdpRelay, fl_ingress = rf_source_if r', fl_egress = rf_target_if r', fl_port = snd (p_dest p), fl_reach = reach\<rparr>
      \<in> set (flows r)"
    using built_as_facts(1) [OF r] udp reach(1) by (force simp: flows_def direction_flows_def)
  from reflectsI [OF this, of UdpRelay] reach(2) built_as_facts(1) [OF r] show ?thesis by (simp add: flow_admits_def)
qed

lemma device_legs_names:
  assumes "built_as r r'" "(q, i, e, x) \<in> set (device_legs cap r')"
  shows "{i, e} \<subseteq> {rf_source_if r, rf_target_if r}"
proof -
  have "{i, e} \<subseteq> {rf_source_if r', rf_target_if r'}"
    using assms(2) by (auto simp: device_legs_def Let_def split: option.split_asm if_split_asm)
  with assms(1) show ?thesis by (auto simp: built_as_def reversed_def)
qed

text \<open>Every leg about a device reflects what the flows of its entry say it does. An mDNS answer sent to this host
  itself, which the response leg takes too, is no flow.\<close>

lemma device_leg_reflects:
  assumes r: "built_as r r'" and leg: "(q, i, e, c, f, SimpleHandler leg) \<in> set (device_legs cap r')"
    and p: "filter_matches f p addrs" "sr_classify leg p = Reflect t"
    and foreign: "\<not> is_some_and addrs (\<lambda>a. has_addr a (fst (p_dest p)))"
  shows "reflects_device (Option.bind addrs v4_directed_broadcast) r q i e p (device_of q p) \<and> c = cap i \<and> sr_egress leg = cap e
    \<and> (q = UdpRelay \<longrightarrow> (\<forall>mac. reflects_device (Option.bind addrs v4_directed_broadcast) r q i e p mac))"
proof -
  note b = built_as_facts [OF r]
  note legs = leg [unfolded device_legs_def Let_def set_append Un_iff]
  let ?R = "\<lambda>q i e. reflects_device (Option.bind addrs v4_directed_broadcast) r q i e p (device_of q p)"
  from legs consider (wol) wol where "rf_wol r' = Some wol" "(q, i, e, c, f, SimpleHandler leg)
        = (Wol, rf_source_if r', rf_target_if r', wol_leg r' wol (cap (rf_source_if r')) (cap (rf_target_if r')))"
    | (mdns) m where "rf_mdns r' = Some m" "(q, i, e, c, f, SimpleHandler leg) = (Mdns, rf_target_if r', rf_source_if r',
        mdns_legs r' m (group_addrs (rf_family r') MDNS_PORT MDNS_GROUP_V4 [MDNS_GROUP_V6]) (cap (rf_source_if r')) (cap (rf_target_if r')) ! 1)"
    | (ssdp) s where "rf_ssdp r' = Some s" "(q, i, e, c, f, SimpleHandler leg) = (Ssdp, rf_target_if r', rf_source_if r',
        search_legs r' SSDP (if sd_dial s then Some DialRewrite else None) (sp_groups SSDP (rf_family r')) (cap (rf_source_if r')) (cap (rf_target_if r')) ! 0)"
    | (wsd) "rf_wsd r'" "(q, i, e, c, f, SimpleHandler leg) = (Wsd, rf_target_if r', rf_source_if r',
        search_legs r' WSD None (sp_groups WSD (rf_family r')) (cap (rf_source_if r')) (cap (rf_target_if r')) ! 0)"
    | (udp) u f' where "rf_udp r' = Some u" "f' \<in> set (udp_filters u)" "(q, i, e, c, f, SimpleHandler leg)
        = (UdpRelay, rf_source_if r', rf_target_if r', udp_leg r' (cap (rf_source_if r')) (cap (rf_target_if r')) f')"
    by (elim disjE) ((cases "rf_wol r'"; auto), (cases "rf_mdns r'"; auto), (cases "rf_ssdp r'"; auto), (cases "rf_wsd r'"; auto),
        (cases "rf_udp r'"; auto))
  then show ?thesis
  proof cases
    case wol
    have "?R Wol (rf_source_if r') (rf_target_if r')"
      using wol p b by (intro wol_reflects [OF r]) (auto simp: wol_leg_def simple_new_def filter_matches_def filter_default_def)
    with wol show ?thesis by (auto simp: wol_leg_def simple_new_def)
  next
    case mdns
    have dest: "fst (p_dest p) \<in> set (map fst (group_addrs (rf_family r) MDNS_PORT MDNS_GROUP_V4 [MDNS_GROUP_V6]))"
      "snd (p_dest p) = MDNS_PORT" "is_none_or (rf_macs r) (\<lambda>ms. is_some_and (p_src_mac p) (\<lambda>m. m \<in> set ms))"
      using mdns p(1) foreign b by (cases addrs; auto simp: mdns_legs_def Let_def filter_matches_def filter_default_def)+
    have "?R Mdns (rf_target_if r') (rf_source_if r')"
      using mdns(1) b group_addrs_dest [OF dest(1)] dest(2,3)
      by (intro discovery_reflects [OF r, of _ MDNS_PORT mdns_groups]) (auto simp: flows_def mdns_groups_def)
    with mdns show ?thesis by (auto simp: mdns_legs_def Let_def simple_new_def with_suppress_def with_rewrite_def)
  next
    case ssdp
    have dest: "fst (p_dest p) \<in> set (map fst (sp_groups SSDP (rf_family r)))"
      "snd (p_dest p) = SSDP_PORT" "is_none_or (rf_macs r) (\<lambda>ms. is_some_and (p_src_mac p) (\<lambda>m. m \<in> set ms))"
      using ssdp p(1) b by (auto simp: search_legs_def Let_def filter_matches_def filter_default_def SSDP_def)
    have "?R Ssdp (rf_target_if r') (rf_source_if r')"
      using ssdp(1) b group_addrs_dest [OF dest(1) [unfolded sp_groups_def]] dest(2,3)
      by (intro discovery_reflects [OF r, of _ SSDP_PORT ssdp_groups]) (auto simp: flows_def ssdp_groups_def SSDP_def)
    with ssdp show ?thesis by (auto simp: search_legs_def Let_def simple_new_def with_suppress_def with_rewrite_def)
  next
    case wsd
    have dest: "fst (p_dest p) \<in> set (map fst (sp_groups WSD (rf_family r)))"
      "snd (p_dest p) = WSD_PORT" "is_none_or (rf_macs r) (\<lambda>ms. is_some_and (p_src_mac p) (\<lambda>m. m \<in> set ms))"
      using wsd p(1) b by (auto simp: search_legs_def Let_def filter_matches_def filter_default_def WSD_def)
    have "?R Wsd (rf_target_if r') (rf_source_if r')"
      using wsd(1) b group_addrs_dest [OF dest(1) [unfolded sp_groups_def]] dest(2,3)
      by (intro discovery_reflects [OF r, of _ WSD_PORT wsd_groups]) (auto simp: flows_def wsd_groups_def WSD_def)
    with wsd show ?thesis by (auto simp: search_legs_def Let_def simple_new_def with_suppress_def with_rewrite_def)
  next
    case udp
    have "reflects_device (Option.bind addrs v4_directed_broadcast) r UdpRelay (rf_source_if r') (rf_target_if r') p mac" for mac
      using udp p(1) b by (intro udp_reflects [OF r, of u f']) (auto simp: udp_leg_def)
    with udp show ?thesis by (auto simp: udp_leg_def simple_new_def)
  qed
qed

text \<open>C5. No packet about a device crosses twice. In a configuration the conflict check accepts, built over captures
  that tell the interfaces apart, take two legs of different entries on the same capture with the same
  egress, and a packet both let through that is not addressed to this host itself: they are legs of
  different protocols, neither of them the relay.\<close>

theorem legs_never_duplicate:
  assumes ok: "check_conflicts rs = None" "\<forall>r \<in> set rs. lists_valid r" and cap: "inj_on cap (\<Union>r\<in>set rs. {rf_source_if r, rf_target_if r})"
    and ij: "m < length rs" "n < length rs" "m \<noteq> n" and built: "built_as (rs ! m) a" "built_as (rs ! n) b"
    and legs: "(q, i, e, c, f, SimpleHandler leg) \<in> set (device_legs cap a)" "(q', i', e', c, f', SimpleHandler leg') \<in> set (device_legs cap b)"
      "sr_egress leg = sr_egress leg'"
    and bc: "sane_broadcast (Option.bind addrs v4_directed_broadcast)"
    and p: "filter_matches f p addrs" "sr_classify leg p = Reflect t" "filter_matches f' p addrs" "sr_classify leg' p = Reflect t'"
    and foreign: "\<not> is_some_and addrs (\<lambda>a. has_addr a (fst (p_dest p)))"
  shows "q \<noteq> q' \<and> q \<noteq> UdpRelay \<and> q' \<noteq> UdpRelay"
proof (rule ccontr)
  let ?bc = "Option.bind addrs v4_directed_broadcast"
  assume "\<not> (q \<noteq> q' \<and> q \<noteq> UdpRelay \<and> q' \<noteq> UdpRelay)"
  then have same: "q = q' \<or> q = UdpRelay \<or> q' = UdpRelay" by blast
  have valid: "lists_valid (rs ! m)" "lists_valid (rs ! n)" using ok(2) ij by auto
  note l = device_leg_reflects [OF built(1) legs(1) p(1,2) foreign] and l' = device_leg_reflects [OF built(2) legs(2) p(3,4) foreign]
  have "cap i = cap i'" "cap e = cap e'" using l l' legs(3) by auto
  moreover have "{i, e} \<subseteq> (\<Union>r\<in>set rs. {rf_source_if r, rf_target_if r})" "{i', e'} \<subseteq> (\<Union>r\<in>set rs. {rf_source_if r, rf_target_if r})"
    using device_legs_names [OF built(1) legs(1)] device_legs_names [OF built(2) legs(2)] nth_mem [OF ij(1)] nth_mem [OF ij(2)] by blast+
  ultimately have "i' = i" "e' = e" using inj_onD [OF cap, of i i'] inj_onD [OF cap, of e e'] by simp_all
  then obtain mac where both: "reflects_device ?bc (rs ! m) q i e p mac" "reflects_device ?bc (rs ! n) q' i e p mac"
    using l l' same by metis
  consider "m < n" | "n < m" using ij(3) by linarith
  then show False
  proof cases
    case 1
    from check_conflicts_None [OF ok(1) 1 ij(2)] no_duplicate_pair [OF _ valid bc both same] show False by blast
  next
    case 2
    have "q' = q \<or> q' = UdpRelay \<or> q = UdpRelay" using same by blast
    with check_conflicts_None [OF ok(1) 2 ij(1)] no_duplicate_pair [OF _ valid(2,1) bc both(2,1)] show False by blast
  qed
qed

text \<open>A magic packet sent to the mDNS group and port reads as an mDNS response too, and is reflected as both.\<close>

definition sample_answers :: reflector where
  "sample_answers = \<lparr>rf_name = bstr ''tv'', rf_source_if = bstr ''lan'', rf_target_if = bstr ''iot'', rf_source_peers = None,
     rf_target_peers = None, rf_macs = None, rf_family = FamilyDefault, rf_wol = None, rf_mdns = Some \<lparr>md_services = None\<rparr>,
     rf_ssdp = None, rf_wsd = False, rf_bidirectional = False, rf_udp = None\<rparr>"

definition sample_wakes :: reflector where
  "sample_wakes = sample_answers\<lparr>rf_name := bstr ''nas'', rf_source_if := bstr ''iot'', rf_target_if := bstr ''lan'',
     rf_mdns := None, rf_wol := Some \<lparr>wol_ports = [5353]\<rparr>\<rparr>"

definition sample_magic :: packet where
  "sample_magic = \<lparr>p_source = (V4 0xc0a80132, 5353), p_dest = (V4 MDNS_GROUP_V4, 5353), p_ttl = 1, p_dst_mac = None,
     p_src_mac = Some (MacAddr 2 0 0 0 0 8), p_payload = replicate 6 0xff @ concat (replicate 16 [2, 0, 0, 0, 0, 9])\<rparr>"

definition sample_capture_of :: "interface_name \<Rightarrow> capture_key" where
  "sample_capture_of name = (if name = bstr ''lan'' then 0 else 1)"

lemma legs_never_duplicate_witness:
  "\<exists>c f leg f' leg'. (Mdns, bstr ''iot'', bstr ''lan'', c, f, SimpleHandler leg) \<in> set (device_legs sample_capture_of sample_answers)
    \<and> (Wol, bstr ''iot'', bstr ''lan'', c, f', SimpleHandler leg') \<in> set (device_legs sample_capture_of sample_wakes)
    \<and> sr_egress leg = sr_egress leg' \<and> filter_matches f sample_magic None \<and> sr_classify leg sample_magic = Reflect MdnsResponseType
    \<and> filter_matches f' sample_magic None \<and> sr_classify leg' sample_magic = Reflect WakeOnLanType \<and> Mdns \<noteq> UdpRelay \<and> Wol \<noteq> UdpRelay"
proof -
  let ?rs = "[sample_answers, sample_wakes]" and ?cap = sample_capture_of
  let ?answer = "mdns_legs sample_answers \<lparr>md_services = None\<rparr> (group_addrs FamilyDefault MDNS_PORT MDNS_GROUP_V4 [MDNS_GROUP_V6]) 0 1 ! 1"
  let ?wake = "wol_leg sample_wakes \<lparr>wol_ports = [5353]\<rparr> 1 0"
  have cap: "?cap (bstr ''lan'') = 0" "?cap (bstr ''iot'') = 1" by code_simp+
  obtain c f leg where a: "?answer = (c, f, SimpleHandler leg)" by (auto simp: mdns_legs_def Let_def)
  obtain c' f' leg' where b: "?wake = (c', f', SimpleHandler leg')" by (auto simp: wol_leg_def)
  have legs: "(Mdns, bstr ''iot'', bstr ''lan'', c, f, SimpleHandler leg) \<in> set (device_legs ?cap sample_answers)"
    "(Wol, bstr ''iot'', bstr ''lan'', c', f', SimpleHandler leg') \<in> set (device_legs ?cap sample_wakes)"
    using a b cap by (simp_all add: device_legs_def sample_answers_def sample_wakes_def)
  have "c = 1" "c' = 1" "sr_egress leg = 0" "sr_egress leg' = 0"
    using a b by (simp_all add: mdns_legs_def wol_leg_def Let_def simple_new_def with_suppress_def with_rewrite_def) auto
  have ok: "check_conflicts ?rs = None" by code_simp
  have valid: "\<forall>r \<in> set ?rs. lists_valid r" by (simp add: lists_valid_def sample_answers_def sample_wakes_def)
  have inj: "inj_on ?cap (\<Union>r\<in>set ?rs. {rf_source_if r, rf_target_if r})"
    using cap by (auto simp: sample_answers_def sample_wakes_def)
  have "filter_matches (fst (snd ?answer)) sample_magic None" "filter_matches (fst (snd ?wake)) sample_magic None" by code_simp+
  then have m: "filter_matches f sample_magic None" "filter_matches f' sample_magic None" using a b by simp_all
  have "direction MdnsResponse (p_payload sample_magic) = Reflect MdnsResponseType"
    "wake_classify None FamilyDefault sample_magic = Reflect WakeOnLanType" by code_simp+
  then have cl: "sr_classify leg sample_magic = Reflect MdnsResponseType" "sr_classify leg' sample_magic = Reflect WakeOnLanType"
    using a b by (auto simp: mdns_legs_def wol_leg_def Let_def simple_new_def with_suppress_def with_rewrite_def sample_wakes_def sample_answers_def)
  have "Mdns \<noteq> UdpRelay \<and> Wol \<noteq> UdpRelay"
    using legs_never_duplicate [OF ok valid inj, of 0 1 sample_answers sample_wakes, OF _ _ _ _ _ legs(1) legs(2) [unfolded \<open>c' = 1\<close>, folded \<open>c = 1\<close>], of None sample_magic]
      m cl \<open>sr_egress leg = 0\<close> \<open>sr_egress leg' = 0\<close> by (simp add: built_as_def sane_broadcast_def)
  with legs m cl \<open>c = 1\<close> \<open>c' = 1\<close> \<open>sr_egress leg = 0\<close> \<open>sr_egress leg' = 0\<close> show ?thesis by metis
qed

end
