(* ===== verification/Capture_Filter.thy ===== *)
theory Capture_Filter
  imports Packet
begin

text \<open>
  \<^verbatim>\<open>src/src/capture/filter.rs\<close> and the filters of \<^verbatim>\<open>src/src/capture/af_packet.rs\<close>: the classic-BPF programs that
  drop in the kernel what is not UDP. The machine that runs them is the kernel's; here it is the
  interpreter the source's own tests use (\<^verbatim>\<open>run_with\<close>), which has the opcodes the programs use. \<open>None\<close> is
  its panic. The ancillary loads, which read metadata of the frame instead of its bytes, are answered
  by an argument, and the constants of the C library are spelled out.
\<close>

section \<open>The machine\<close>

record bpf_insn =
  bi_code :: u16
  bi_jt :: u8
  bi_jf :: u8
  bi_k :: u32

definition insn :: "u16 \<Rightarrow> u8 \<Rightarrow> u8 \<Rightarrow> u32 \<Rightarrow> bpf_insn" where
  "insn code jt jf k = \<lparr>bi_code = code, bi_jt = jt, bi_jf = jf, bi_k = k\<rparr>"

definition ANCILLARY_OFF :: u32 where "ANCILLARY_OFF = 0xfffff000"

definition bpf_load :: "bytes \<Rightarrow> u32 \<Rightarrow> nat \<Rightarrow> u32 option" where
  "bpf_load frame offset n =
     map_option (\<lambda>bs. fold (\<lambda>b w. push_bit 8 w OR ucast b) bs 0) (get_slice (unat offset) (unat offset + n) frame)"

datatype bpf_effect = Loaded "u32 option" | SetX u32 | Jump u8 | Return u32 | NotModeled

definition bpf_effect_of :: "bpf_insn \<Rightarrow> bytes \<Rightarrow> (u32 \<Rightarrow> u32 option) \<Rightarrow> u32 \<Rightarrow> u32 \<Rightarrow> bpf_effect" where
  "bpf_effect_of i frame ancillary a x =
     (let code = bi_code i; k = bi_k i in
      if code \<in> {0x20, 0x28, 0x30} \<and> ANCILLARY_OFF \<le> k then Loaded (ancillary k)
      else if code = 0x20 then Loaded (bpf_load frame k 4)
      else if code = 0x28 then Loaded (bpf_load frame k 2)
      else if code = 0x30 then Loaded (bpf_load frame k 1)
      else if code = 0x48 then Loaded (bpf_load frame (x + k) 2)
      else if code = 0x50 then Loaded (bpf_load frame (x + k) 1)
      else if code = 0x01 then SetX k
      else if code = 0x54 then Loaded (Some (a AND k))
      else if code = 0x15 then Jump (if a = k then bi_jt i else bi_jf i)
      else if code = 0x45 then Jump (if a AND k \<noteq> 0 then bi_jt i else bi_jf i)
      else if code = 0x06 then Return k
      else NotModeled)"

function bpf_run :: "bpf_insn list \<Rightarrow> bytes \<Rightarrow> (u32 \<Rightarrow> u32 option) \<Rightarrow> nat \<Rightarrow> u32 \<Rightarrow> u32 \<Rightarrow> u32 option" where
  "bpf_run program frame ancillary pc a x =
     (if length program \<le> pc then None
      else case bpf_effect_of (program ! pc) frame ancillary a x of
          Loaded None \<Rightarrow> Some 0
        | Loaded (Some v) \<Rightarrow> bpf_run program frame ancillary (Suc pc) v x
        | SetX k \<Rightarrow> bpf_run program frame ancillary (Suc pc) a k
        | Jump n \<Rightarrow> bpf_run program frame ancillary (Suc pc + unat n) a x
        | Return k \<Rightarrow> Some k
        | NotModeled \<Rightarrow> None)"
  by pat_completeness auto
termination by (relation "measure (\<lambda>(program, frame, ancillary, pc, a, x). length program - pc)") auto

declare bpf_run.simps [simp del]

definition bpf_filter :: "bpf_insn list \<Rightarrow> bytes \<Rightarrow> (u32 \<Rightarrow> u32 option) \<Rightarrow> u32 option" where
  "bpf_filter program frame ancillary = bpf_run program frame ancillary 0 0 0"

section \<open>The programs\<close>

definition ETHERNET_UDP_FILTER :: "bpf_insn list" where
  "ETHERNET_UDP_FILTER =
    [insn 0x0001 0 0 0x00000000,
     insn 0x0028 0 0 0x0000000c,
     insn 0x0015 0 3 0x00008100,
     insn 0x0028 0 0 0x0000000e,
     insn 0x0045 12 0 0x00000fff,
     insn 0x0001 0 0 0x00000004,
     insn 0x0048 0 0 0x0000000c,
     insn 0x0015 6 0 0x00000800,
     insn 0x0015 0 8 0x000086dd,
     insn 0x0050 0 0 0x00000014,
     insn 0x0015 5 0 0x00000011,
     insn 0x0015 0 5 0x0000002c,
     insn 0x0050 0 0 0x00000036,
     insn 0x0015 2 3 0x00000011,
     insn 0x0050 0 0 0x00000017,
     insn 0x0015 0 1 0x00000011,
     insn 0x0006 0 0 0xffffffff,
     insn 0x0006 0 0 0x00000000]"

text \<open>\<^verbatim>\<open>SKF_AD_OFF\<close> is -0x1000; the offsets into the metadata are 4, 48 and 44, and an outgoing frame has type 4.\<close>

definition SKF_AD :: "u32 \<Rightarrow> u32" where "SKF_AD offset = ANCILLARY_OFF + offset"
definition SKF_AD_PKTTYPE :: u32 where "SKF_AD_PKTTYPE = 4"
definition SKF_AD_VLAN_TAG :: u32 where "SKF_AD_VLAN_TAG = 44"
definition SKF_AD_VLAN_TAG_PRESENT :: u32 where "SKF_AD_VLAN_TAG_PRESENT = 48"
definition PACKET_OUTGOING :: u32 where "PACKET_OUTGOING = 4"

definition DROP_OUTGOING_PROLOGUE :: "bpf_insn list" where
  "DROP_OUTGOING_PROLOGUE =
    [insn 0x0030 0 0 (SKF_AD SKF_AD_PKTTYPE),
     insn 0x0015 0 1 PACKET_OUTGOING,
     insn 0x0006 0 0 0x00000000]"

definition DROP_VLAN_TAGGED_PROLOGUE :: "bpf_insn list" where
  "DROP_VLAN_TAGGED_PROLOGUE =
    [insn 0x0020 0 0 (SKF_AD SKF_AD_VLAN_TAG_PRESENT),
     insn 0x0015 4 0 0x00000000,
     insn 0x0020 0 0 (SKF_AD SKF_AD_VLAN_TAG),
     insn 0x0054 0 0 0x00000fff,
     insn 0x0015 1 0 0x00000000,
     insn 0x0006 0 0 0x00000000]"

definition RAW_IP_UDP_FILTER :: "bpf_insn list" where
  "RAW_IP_UDP_FILTER =
    [insn 0x0030 0 0 0x00000000,
     insn 0x0054 0 0 0x000000f0,
     insn 0x0015 6 0 0x00000040,
     insn 0x0015 0 8 0x00000060,
     insn 0x0030 0 0 0x00000006,
     insn 0x0015 5 0 0x00000011,
     insn 0x0015 0 5 0x0000002c,
     insn 0x0030 0 0 0x00000028,
     insn 0x0015 2 3 0x00000011,
     insn 0x0030 0 0 0x00000009,
     insn 0x0015 0 1 0x00000011,
     insn 0x0006 0 0 0xffffffff,
     insn 0x0006 0 0 0x00000000]"

text \<open>
  \<^verbatim>\<open>to_be\<close> and \<^verbatim>\<open>to_ne_bytes\<close> of a word, on a host that stores the low octet first and on one that stores it
  last.
\<close>

definition swap_octets :: "u32 \<Rightarrow> u32" where
  "swap_octets w = u32_of (ucast w) (ucast (drop_bit 8 w)) (ucast (drop_bit 16 w)) (ucast (drop_bit 24 w))"

definition to_ne_bytes :: "bool \<Rightarrow> u32 \<Rightarrow> bytes" where
  "to_ne_bytes little w = (if little then rev (u32_be w) else u32_be w)"

definition host_af_to_bpf_be :: "bool \<Rightarrow> u32 \<Rightarrow> u32" where
  "host_af_to_bpf_be little af = (if little then swap_octets af else af)"

definition DLT_NULL_UDP_FILTER :: "bool \<Rightarrow> u32 \<Rightarrow> u32 \<Rightarrow> bpf_insn list" where
  "DLT_NULL_UDP_FILTER little AF_INET AF_INET6 =
    [insn 0x0020 0 0 0x00000000,
     insn 0x0015 6 0 (host_af_to_bpf_be little AF_INET),
     insn 0x0015 0 8 (host_af_to_bpf_be little AF_INET6),
     insn 0x0030 0 0 0x0000000a,
     insn 0x0015 5 0 0x00000011,
     insn 0x0015 0 5 0x0000002c,
     insn 0x0030 0 0 0x0000002c,
     insn 0x0015 2 3 0x00000011,
     insn 0x0030 0 0 0x0000000d,
     insn 0x0015 0 1 0x00000011,
     insn 0x0006 0 0 0xffffffff,
     insn 0x0006 0 0 0x00000000]"

text \<open>\<^verbatim>\<open>classifier\<close> of the Linux capture, whose links are Ethernet or raw IP, and its fallback against our own frames.\<close>

definition capture_classifier :: "link_type \<Rightarrow> bpf_insn list option" where
  "capture_classifier link =
     (case link of
        Ethernet \<Rightarrow> Some (DROP_VLAN_TAGGED_PROLOGUE @ ETHERNET_UDP_FILTER)
      | RawIp \<Rightarrow> Some RAW_IP_UDP_FILTER
      | DltNull \<Rightarrow> None)"

definition drop_outgoing_filter :: "bpf_insn list \<Rightarrow> bpf_insn list" where
  "drop_outgoing_filter classifier = DROP_OUTGOING_PROLOGUE @ classifier"

section \<open>Running them\<close>

text \<open>A run of a prefix that jumps past itself goes on in the rest as if the rest ran alone.\<close>

lemma bpf_run_append: "bpf_run (pre @ program) frame anc (length pre + pc) a x = bpf_run program frame anc pc a x"
proof (induction program frame anc pc a x rule: bpf_run.induct)
  case (1 program frame anc pc a x)
  show ?case
    by (subst (1 2) bpf_run.simps)
      (use 1 in \<open>auto simp: nth_append add.assoc split: bpf_effect.split option.split\<close>)
qed

lemma bpf_run_at:
  assumes "pc < length program" "program ! pc = i"
  shows "bpf_run program frame anc pc a x = (case bpf_effect_of i frame anc a x of
          Loaded None \<Rightarrow> Some 0
        | Loaded (Some v) \<Rightarrow> bpf_run program frame anc (Suc pc) v x
        | SetX k \<Rightarrow> bpf_run program frame anc (Suc pc) a k
        | Jump n \<Rightarrow> bpf_run program frame anc (Suc pc + unat n) a x
        | Return k \<Rightarrow> Some k
        | NotModeled \<Rightarrow> None)"
  using assms by (subst bpf_run.simps) simp

definition takes :: "bool \<Rightarrow> u32 option" where
  "takes b = Some (if b then 0xffffffff else 0)"

lemmas bpf_eval = bpf_filter_def bpf_run.simps bpf_effect_of_def insn_def ANCILLARY_OFF_def takes_def

lemma raw_ip_filter_run:
  "bpf_filter RAW_IP_UDP_FILTER frame anc = (case bpf_load frame 0 1 of
      None \<Rightarrow> takes False
    | Some v \<Rightarrow>
        if v AND 0xf0 = 0x40 then takes (bpf_load frame 9 1 = Some 17)
        else if v AND 0xf0 = 0x60 then takes (bpf_load frame 6 1 = Some 17 \<or> bpf_load frame 6 1 = Some 44 \<and> bpf_load frame 40 1 = Some 17)
        else takes False)"
  unfolding RAW_IP_UDP_FILTER_def by (simp add: bpf_eval split: option.split)

lemma dlt_null_filter_run:
  "bpf_filter (DLT_NULL_UDP_FILTER little inet inet6) frame anc = (case bpf_load frame 0 4 of
      None \<Rightarrow> takes False
    | Some v \<Rightarrow>
        if v = host_af_to_bpf_be little inet then takes (bpf_load frame 13 1 = Some 17)
        else if v = host_af_to_bpf_be little inet6 then takes (bpf_load frame 10 1 = Some 17 \<or> bpf_load frame 10 1 = Some 44 \<and> bpf_load frame 44 1 = Some 17)
        else takes False)"
  unfolding DLT_NULL_UDP_FILTER_def by (simp add: bpf_eval split: option.split)

definition ethernet_takes :: "bytes \<Rightarrow> u32 \<Rightarrow> bool" where
  "ethernet_takes frame x =
     (case bpf_load frame (x + 12) 2 of
        None \<Rightarrow> False
      | Some ty \<Rightarrow>
          if ty = 0x800 then bpf_load frame (x + 23) 1 = Some 17
          else ty = 0x86dd \<and> (bpf_load frame (x + 20) 1 = Some 17 \<or> bpf_load frame (x + 20) 1 = Some 44 \<and> bpf_load frame (x + 54) 1 = Some 17))"

text \<open>The steps of a program at its first few instructions, where what follows is left as it is.\<close>

lemmas bpf_steps = bpf_run_at [where pc = 0] bpf_run_at [where pc = "Suc 0"] bpf_run_at [where pc = 2] bpf_run_at [where pc = 3]
  bpf_run_at [where pc = 4] bpf_run_at [where pc = 5] numeral_2_eq_2 [symmetric] bpf_effect_of_def insn_def ANCILLARY_OFF_def

lemma ethernet_split: "ETHERNET_UDP_FILTER = take 6 ETHERNET_UDP_FILTER @ drop 6 ETHERNET_UDP_FILTER" "length (take 6 ETHERNET_UDP_FILTER) = 6"
  by (simp_all add: ETHERNET_UDP_FILTER_def)

lemma ethernet_rest:
  "bpf_run (drop 6 ETHERNET_UDP_FILTER) frame anc 0 a x = takes (ethernet_takes frame x)"
  "bpf_run (drop 6 ETHERNET_UDP_FILTER) frame anc 11 a x = Some 0"
  unfolding ETHERNET_UDP_FILTER_def ethernet_takes_def by (simp_all add: bpf_eval split: option.split)

lemma ethernet_late:
  "bpf_run ETHERNET_UDP_FILTER frame anc 6 a x = takes (ethernet_takes frame x)" "bpf_run ETHERNET_UDP_FILTER frame anc 17 a x = Some 0"
proof -
  have "bpf_run ETHERNET_UDP_FILTER frame anc (6 + pc) a x = bpf_run (drop 6 ETHERNET_UDP_FILTER) frame anc pc a x" for pc
    using bpf_run_append [of "take 6 ETHERNET_UDP_FILTER" "drop 6 ETHERNET_UDP_FILTER" frame anc pc a x] unfolding ethernet_split(2)
    by (simp only: ethernet_split(1) [symmetric])
  from this [of 0] this [of 11] show "bpf_run ETHERNET_UDP_FILTER frame anc 6 a x = takes (ethernet_takes frame x)"
    "bpf_run ETHERNET_UDP_FILTER frame anc 17 a x = Some 0" by (simp_all add: ethernet_rest)
qed

lemma ethernet_run:
  "bpf_run ETHERNET_UDP_FILTER frame anc 0 a x = (case bpf_load frame 12 2 of
      None \<Rightarrow> takes False
    | Some ty \<Rightarrow>
        if ty = 0x8100 then (case bpf_load frame 14 2 of
            None \<Rightarrow> takes False
          | Some tci \<Rightarrow> takes (tci AND 0xfff = 0 \<and> ethernet_takes frame 4))
        else takes (ethernet_takes frame 0))"
proof -
  have early: "ETHERNET_UDP_FILTER ! 0 = insn 0x0001 0 0 0x00000000" "ETHERNET_UDP_FILTER ! Suc 0 = insn 0x0028 0 0 0x0000000c"
    "ETHERNET_UDP_FILTER ! 2 = insn 0x0015 0 3 0x00008100" "ETHERNET_UDP_FILTER ! 3 = insn 0x0028 0 0 0x0000000e"
    "ETHERNET_UDP_FILTER ! 4 = insn 0x0045 12 0 0x00000fff" "ETHERNET_UDP_FILTER ! 5 = insn 0x0001 0 0 0x00000004"
    "length ETHERNET_UDP_FILTER = 18"
    by (simp_all add: ETHERNET_UDP_FILTER_def)
  then show ?thesis by (simp add: bpf_steps ethernet_late takes_def split: option.split)
qed

text \<open>The prologues drop on the metadata of the frame and otherwise leave the verdict to the classifier.\<close>

definition load_free :: "bpf_insn list \<Rightarrow> bool" where
  "load_free program \<longleftrightarrow> (\<forall>frame anc a. bpf_run program frame anc 0 a 0 = bpf_filter program frame anc)"

lemma ethernet_load_free: "load_free ETHERNET_UDP_FILTER"
  by (simp add: load_free_def bpf_filter_def ethernet_run)

lemma first_load_free:
  assumes "program \<noteq> []" "bi_code (program ! 0) \<in> {0x20, 0x28, 0x30}"
  shows "load_free program"
proof -
  have run: "bpf_run program frame anc 0 a 0 = bpf_run program frame anc 0 0 0" for frame anc a
  proof -
    have "bpf_effect_of (program ! 0) frame anc a 0 = bpf_effect_of (program ! 0) frame anc 0 0"
      using assms(2) by (auto simp: bpf_effect_of_def Let_def)
    moreover obtain v where "bpf_effect_of (program ! 0) frame anc 0 0 = Loaded v"
    proof (cases "ANCILLARY_OFF \<le> bi_k (program ! 0)")
    qed (use assms(2) that in \<open>auto simp: bpf_effect_of_def Let_def\<close>)
    ultimately show ?thesis using assms(1) by (simp add: bpf_run_at)
  qed
  then show ?thesis unfolding load_free_def bpf_filter_def by blast
qed

lemma classifier_load_free: "capture_classifier link = Some program \<Longrightarrow> load_free program"
  by (cases link) (auto simp: capture_classifier_def DROP_VLAN_TAGGED_PROLOGUE_def RAW_IP_UDP_FILTER_def insn_def intro!: first_load_free)

lemma vlan_prologue_run:
  assumes "load_free program" "anc (SKF_AD SKF_AD_VLAN_TAG_PRESENT) = Some present" "anc (SKF_AD SKF_AD_VLAN_TAG) = Some tci"
  shows "bpf_filter (DROP_VLAN_TAGGED_PROLOGUE @ program) frame anc
    = (if present \<noteq> 0 \<and> tci AND 0xfff \<noteq> 0 then Some 0 else bpf_filter program frame anc)"
proof -
  have go: "bpf_run (DROP_VLAN_TAGGED_PROLOGUE @ program) frame anc 6 a 0 = bpf_filter program frame anc" for a
  proof -
    have "length DROP_VLAN_TAGGED_PROLOGUE = 6" by (simp add: DROP_VLAN_TAGGED_PROLOGUE_def)
    with bpf_run_append [of DROP_VLAN_TAGGED_PROLOGUE program frame anc 0 a 0] assms(1) show ?thesis
      by (simp add: load_free_def)
  qed
  have at: "(DROP_VLAN_TAGGED_PROLOGUE @ program) ! 0 = insn 0x0020 0 0 (SKF_AD SKF_AD_VLAN_TAG_PRESENT)"
    "(DROP_VLAN_TAGGED_PROLOGUE @ program) ! Suc 0 = insn 0x0015 4 0 0" "(DROP_VLAN_TAGGED_PROLOGUE @ program) ! 2 = insn 0x0020 0 0 (SKF_AD SKF_AD_VLAN_TAG)"
    "(DROP_VLAN_TAGGED_PROLOGUE @ program) ! 3 = insn 0x0054 0 0 0xfff" "(DROP_VLAN_TAGGED_PROLOGUE @ program) ! 4 = insn 0x0015 1 0 0"
    "(DROP_VLAN_TAGGED_PROLOGUE @ program) ! 5 = insn 0x0006 0 0 0" "length (DROP_VLAN_TAGGED_PROLOGUE @ program) = 6 + length program"
    by (simp_all add: DROP_VLAN_TAGGED_PROLOGUE_def)
  have ad: "ANCILLARY_OFF \<le> SKF_AD SKF_AD_VLAN_TAG_PRESENT" "ANCILLARY_OFF \<le> SKF_AD SKF_AD_VLAN_TAG" by code_simp+
  show ?thesis
    using assms(2,3) ad
    by (simp add: bpf_filter_def [of "DROP_VLAN_TAGGED_PROLOGUE @ program"] bpf_run_at [OF _ at(1)] bpf_run_at [OF _ at(2)] bpf_run_at [OF _ at(3)]
        bpf_run_at [OF _ at(4)] bpf_run_at [OF _ at(5)] bpf_run_at [OF _ at(6)] at(7) go numeral_2_eq_2 [symmetric] bpf_effect_of_def insn_def del: length_append)
qed

lemma outgoing_prologue_run:
  assumes "load_free program" "anc (SKF_AD SKF_AD_PKTTYPE) = Some pkttype"
  shows "bpf_filter (drop_outgoing_filter program) frame anc = (if pkttype = PACKET_OUTGOING then Some 0 else bpf_filter program frame anc)"
proof -
  let ?p = "drop_outgoing_filter program"
  have go: "bpf_run ?p frame anc 3 a 0 = bpf_filter program frame anc" for a
  proof -
    have "length DROP_OUTGOING_PROLOGUE = 3" by (simp add: DROP_OUTGOING_PROLOGUE_def)
    with bpf_run_append [of DROP_OUTGOING_PROLOGUE program frame anc 0 a 0] assms(1) show ?thesis
      by (simp add: load_free_def drop_outgoing_filter_def)
  qed
  have at: "?p ! 0 = insn 0x0030 0 0 (SKF_AD SKF_AD_PKTTYPE)" "?p ! Suc 0 = insn 0x0015 0 1 PACKET_OUTGOING" "?p ! 2 = insn 0x0006 0 0 0"
    "length ?p = 3 + length program"
    by (simp_all add: drop_outgoing_filter_def DROP_OUTGOING_PROLOGUE_def)
  have ad: "ANCILLARY_OFF \<le> SKF_AD SKF_AD_PKTTYPE" by code_simp
  show ?thesis
    using assms(2) ad
    by (simp add: bpf_filter_def [of ?p] bpf_run_at [OF _ at(1)] bpf_run_at [OF _ at(2)] bpf_run_at [OF _ at(3)]
        at(4) go numeral_2_eq_2 [symmetric] bpf_effect_of_def insn_def)
qed

lemma bpf_load_1: "bpf_load frame k 1 = (if unat k < length frame then Some (ucast (frame ! unat k)) else None)"
  by (simp add: bpf_load_def get_slice_def sub_slice_def take_Suc_conv_app_nth hd_drop_conv_nth)

lemma bpf_load_2: "bpf_load frame k 2 = (if unat k + 1 < length frame then Some (ucast (u16_of (frame ! unat k) (frame ! (unat k + 1)))) else None)"
proof (cases "unat k + 1 < length frame")
  case True
  then have "sub_slice (unat k) (unat k + 2) frame = [frame ! unat k, frame ! (unat k + 1)]"
    by (intro nth_equalityI) (auto simp: sub_slice_def nth_Cons' less_Suc_eq numeral_2_eq_2)
  moreover have "push_bit 8 (ucast hi :: u32) OR ucast lo = ucast (u16_of hi lo)" for hi lo :: u8
    by (rule bit_word_eqI) (auto simp: u16_of_def bit_simps dest: bit_imp_le_length)
  ultimately show ?thesis using True by (simp add: bpf_load_def get_slice_def)
qed (simp add: bpf_load_def get_slice_def)

section \<open>The filters and the parser\<close>

text \<open>What the classifiers look at of an IP packet.\<close>

definition udp_in :: "bytes \<Rightarrow> bool" where
  "udp_in l3 \<longleftrightarrow> l3 \<noteq> [] \<and>
     (if drop_bit 4 (l3 ! 0) = 4 then 9 < length l3 \<and> l3 ! 9 = 17
      else drop_bit 4 (l3 ! 0) = 6 \<and> 6 < length l3 \<and> (l3 ! 6 = 17 \<or> l3 ! 6 = 44 \<and> 40 < length l3 \<and> l3 ! 40 = 17))"

lemma parse_datagram_errors:
  "parse_datagram l source dest ttl body \<noteq> Inl (NotUdp proto)" "parse_datagram l source dest ttl body \<noteq> Inl (VlanTagged vid)"
  "parse_datagram l source dest ttl body \<noteq> Inl (BadIpVersion v)"
  by (auto simp: parse_datagram_def parse_udp_def result_bind_def Let_def split: if_split_asm)

lemma ip_addr_errors:
  "ipv4_addr bs \<noteq> Inl (NotUdp proto)" "ipv4_addr bs \<noteq> Inl (VlanTagged vid)" "ipv4_addr bs \<noteq> Inl (BadIpVersion v)"
  "ipv6_addr bs \<noteq> Inl (NotUdp proto)" "ipv6_addr bs \<noteq> Inl (VlanTagged vid)" "ipv6_addr bs \<noteq> Inl (BadIpVersion v)"
  by (simp_all add: ipv4_addr_def ipv6_addr_def)

lemma result_bind_Inl_iff: "result_bind r f = Inl e \<longleftrightarrow> r = Inl e \<or> (\<exists>y. r = Inr y \<and> f y = Inl e)"
  by (cases r) auto

lemmas layer3_errors = parse_datagram_errors ip_addr_errors result_bind_Inr_iff result_bind_Inl_iff

lemma parse_ipv4_udp:
  "parse_ipv4 l = Inr x \<Longrightarrow> 9 < length (pk_l3 l) \<and> pk_l3 l ! 9 = 17"
  "parse_ipv4 l = Inl (NotUdp proto) \<Longrightarrow> pk_l3 l ! 9 \<noteq> 17"
  "parse_ipv4 l \<noteq> Inl (VlanTagged vid)" "parse_ipv4 l \<noteq> Inl (BadIpVersion v)"
  by (auto simp: parse_ipv4_def Let_def IPV4_HEADER_SIZE_def IP_PROTO_UDP_def layer3_errors split: if_split_asm)

text \<open>The first octet behind the fixed IPv6 header is the fragment header's next header.\<close>

lemma fragment_next_header:
  assumes "40 + n \<le> length l3" "\<not> length (sub_slice 40 (40 + n) l3) < 8"
  shows "40 < length l3" "sub_slice 40 (40 + n) l3 ! 0 = l3 ! 40"
  using assms by (auto simp: sub_slice_def)

lemma parse_ipv6_udp:
  "parse_ipv6 l = Inr x \<Longrightarrow> 6 < length (pk_l3 l) \<and> (pk_l3 l ! 6 = 17 \<or> pk_l3 l ! 6 = 44 \<and> 40 < length (pk_l3 l) \<and> pk_l3 l ! 40 = 17)"
  "parse_ipv6 l = Inl (NotUdp proto) \<Longrightarrow> pk_l3 l ! 6 \<noteq> 17 \<and> (pk_l3 l ! 6 = 44 \<longrightarrow> pk_l3 l ! 40 \<noteq> 17)"
  "parse_ipv6 l \<noteq> Inl (VlanTagged vid)" "parse_ipv6 l \<noteq> Inl (BadIpVersion v)"
proof -
  let ?l3 = "pk_l3 l" and ?n = "unat (u16_of (pk_l3 l ! 4) (pk_l3 l ! 5))"
  note unfold = parse_ipv6_def Let_def IPV6_HEADER_SIZE_def IP_PROTO_UDP_def IPV6_NEXT_FRAGMENT_def IPV6_FRAGMENT_HEADER_SIZE_def
  { assume "parse_ipv6 l = Inr x"
    with fragment_next_header [of ?n ?l3]
    show "6 < length ?l3 \<and> (?l3 ! 6 = 17 \<or> ?l3 ! 6 = 44 \<and> 40 < length ?l3 \<and> ?l3 ! 40 = 17)"
      unfolding unfold by (auto simp: layer3_errors simp del: length_drop split: if_split_asm) }
  { assume "parse_ipv6 l = Inl (NotUdp proto)"
    with fragment_next_header [of ?n ?l3]
    show "?l3 ! 6 \<noteq> 17 \<and> (?l3 ! 6 = 44 \<longrightarrow> ?l3 ! 40 \<noteq> 17)"
      unfolding unfold by (auto simp: layer3_errors split: if_split_asm) }
  show "parse_ipv6 l \<noteq> Inl (VlanTagged vid)" "parse_ipv6 l \<noteq> Inl (BadIpVersion v)"
    unfolding unfold by (auto simp: layer3_errors split: if_split_asm)
qed

lemma parsed_is_udp:
  assumes "parse_frame link frame = Inr x"
  shows "\<exists>l. parse_link_header link frame = Inr l \<and> udp_in (pk_l3 l)"
proof -
  obtain l where l: "parse_link_header link frame = Inr l" using assms by (auto simp: parse_frame_def result_bind_Inr_iff)
  with assms have "udp_in (pk_l3 l)"
    by (cases "pk_l3 l") (auto simp: parse_frame_def udp_in_def Let_def dest!: parse_ipv4_udp(1) parse_ipv6_udp(1) split: if_split_asm)
  with l show ?thesis by blast
qed

lemma refused_is_not_udp:
  assumes "parse_frame link frame = Inl (NotUdp proto) \<or> parse_frame link frame = Inl (BadIpVersion v)"
    and l: "parse_link_header link frame = Inr l"
  shows "\<not> udp_in (pk_l3 l)"
  using assms
  by (cases "pk_l3 l")
    (auto simp: parse_frame_def udp_in_def Let_def parse_ipv4_udp(4) parse_ipv6_udp(4) dest!: parse_ipv4_udp(2) parse_ipv6_udp(2) split: if_split_asm)

text \<open>The machine's words are the parser's octets.\<close>

lemma ucast_inj: "(ucast b :: u32) = ucast c \<longleftrightarrow> b = (c :: u8)" "(ucast w :: u32) = ucast v \<longleftrightarrow> w = (v :: u16)"
  by (simp_all add: word_unat_eq_iff unat_ucast_up)

lemma octet_is: "(ucast b :: u32) = 17 \<longleftrightarrow> (b :: u8) = 17" "(ucast b :: u32) = 44 \<longleftrightarrow> (b :: u8) = 44"
  using ucast_inj(1) [of b 17] ucast_inj(1) [of b 44] by simp_all

lemma version_nibble:
  "(ucast b :: u32) AND 0xf0 = 0x40 \<longleftrightarrow> drop_bit 4 (b :: u8) = 4" "(ucast b :: u32) AND 0xf0 = 0x60 \<longleftrightarrow> drop_bit 4 (b :: u8) = 6"
proof -
  have f0: "(0xf0 :: u32) = push_bit 4 (mask 4)" by code_simp
  have "(ucast b :: u32) AND 0xf0 = push_bit 4 (ucast (drop_bit 4 b))"
    unfolding f0 by (rule bit_word_eqI) (auto simp: bit_simps dest: bit_imp_le_length)
  moreover have "unat (push_bit 4 (ucast (drop_bit 4 b) :: u32)) = 16 * unat (drop_bit 4 b)"
    using unat_u8_lt [of b]
    by (simp add: push_bit_eq_mult unat_word_ariths unat_ucast_up unat_drop_bit_eq drop_bit_eq_div)
  ultimately show "(ucast b :: u32) AND 0xf0 = 0x40 \<longleftrightarrow> drop_bit 4 b = 4" "(ucast b :: u32) AND 0xf0 = 0x60 \<longleftrightarrow> drop_bit 4 b = 6"
    by (simp_all add: word_unat_eq_iff)
qed

lemma double_octet_is:
  "(ucast w :: u32) = 0x8100 \<longleftrightarrow> (w :: u16) = 0x8100" "(ucast w :: u32) = 0x800 \<longleftrightarrow> (w :: u16) = 0x800"
  "(ucast w :: u32) = 0x86dd \<longleftrightarrow> (w :: u16) = 0x86dd" "(ucast w :: u32) AND 0xfff = 0 \<longleftrightarrow> (w :: u16) AND 0xfff = 0"
proof -
  from ucast_inj(2) [of w "0x8100"] ucast_inj(2) [of w "0x800"] ucast_inj(2) [of w "0x86dd"]
  show "(ucast w :: u32) = 0x8100 \<longleftrightarrow> w = 0x8100" "(ucast w :: u32) = 0x800 \<longleftrightarrow> w = 0x800" "(ucast w :: u32) = 0x86dd \<longleftrightarrow> w = 0x86dd"
    by simp_all
  have "(ucast w :: u32) AND 0xfff = ucast (w AND 0xfff)" by (rule bit_word_eqI) (auto simp: bit_simps dest: bit_imp_le_length)
  with ucast_inj(2) [of "w AND 0xfff" 0] show "(ucast w :: u32) AND 0xfff = 0 \<longleftrightarrow> w AND 0xfff = 0" by simp
qed

lemmas bpf_loads = bpf_load_1 [unfolded One_nat_def] bpf_load_2

lemma raw_ip_takes: "bpf_filter RAW_IP_UDP_FILTER frame anc = takes (udp_in frame)"
  by (cases frame) (auto simp: raw_ip_filter_run bpf_loads version_nibble octet_is udp_in_def)

text \<open>The constant the filter compares with is what the machine loads of the family a host has stored in its own order.\<close>

lemma bpf_load_4: "bpf_load (a # b # c # d # rest) 0 4 = Some (u32_of a b c d)"
  by (simp add: bpf_load_def get_slice_def sub_slice_def u32_of_def push_bit_or or.assoc)

lemma bpf_load_family: "bpf_load (to_ne_bytes little af @ rest) 0 4 = Some (host_af_to_bpf_be little af)"
  by (simp add: to_ne_bytes_def u32_be_def bpf_load_4 host_af_to_bpf_be_def swap_octets_def)

lemma octets_of_u32:
  "ucast (drop_bit 24 (u32_of a b c d)) = a" "ucast (drop_bit 16 (u32_of a b c d)) = b"
  "ucast (drop_bit 8 (u32_of a b c d)) = c" "ucast (u32_of a b c d) = d"
  unfolding u32_of_def by (rule bit_word_eqI, auto simp: bit_simps)+

lemma host_af_inj: "host_af_to_bpf_be little a = host_af_to_bpf_be little b \<longleftrightarrow> a = b"
proof -
  have "swap_octets (swap_octets w) = w" for w by (simp add: swap_octets_def octets_of_u32)
  then show ?thesis by (auto simp: host_af_to_bpf_be_def) metis
qed

lemma dlt_null_takes:
  assumes "inet \<noteq> inet6" "l3 \<noteq> []"
    and "af = inet \<longleftrightarrow> drop_bit 4 (l3 ! 0) = 4" "af = inet6 \<longleftrightarrow> drop_bit 4 (l3 ! 0) = 6"
  shows "bpf_filter (DLT_NULL_UDP_FILTER little inet inet6) (to_ne_bytes little af @ l3) anc = takes (udp_in l3)"
proof -
  have "length (to_ne_bytes little af) = 4" by (simp add: to_ne_bytes_def)
  then have "(to_ne_bytes little af @ l3) ! (4 + n) = l3 ! n" "length (to_ne_bytes little af @ l3) = 4 + length l3" for n
    by (simp_all add: nth_append)
  from this(1) [of 9] this(1) [of 6] this(1) [of 40] this(2) show ?thesis
    using assms by (auto simp: dlt_null_filter_run bpf_load_family host_af_inj bpf_loads octet_is udp_in_def)
qed

text \<open>
  An Ethernet frame names the protocol twice, in its type field and in the version of the packet; the classifier
  reads the first and the parser the second. They agree on every frame a conforming host sends.
\<close>

definition ethertype_at :: "bytes \<Rightarrow> nat \<Rightarrow> u16" where
  "ethertype_at frame off = u16_of (frame ! (off + 12)) (frame ! (off + 13))"

definition tag_len :: "bytes \<Rightarrow> nat" where
  "tag_len frame = (if ethertype_at frame 0 = 0x8100 then 4 else 0)"

definition type_matches_version :: "bytes \<Rightarrow> bool" where
  "type_matches_version frame \<longleftrightarrow>
     (tag_len frame + 14 < length frame \<longrightarrow>
       (ethertype_at frame (tag_len frame) = 0x800 \<longleftrightarrow> drop_bit 4 (frame ! (tag_len frame + 14)) = 4) \<and>
       (ethertype_at frame (tag_len frame) = 0x86dd \<longleftrightarrow> drop_bit 4 (frame ! (tag_len frame + 14)) = 6))"

lemma ethernet_takes_udp:
  assumes "type_matches_version frame" "unat x = tag_len frame"
  shows "ethernet_takes frame x = udp_in (drop (tag_len frame + 14) frame)"
proof -
  have at: "unat (x + 12) = tag_len frame + 12" "unat (x + 20) = tag_len frame + 20" "unat (x + 23) = tag_len frame + 23"
    "unat (x + 54) = tag_len frame + 54"
    using assms(2) by (auto simp: unat_word_ariths tag_len_def)
  show ?thesis
  proof (cases "tag_len frame + 14 < length frame")
    case True
    with assms(1) have "ethertype_at frame (tag_len frame) = 0x800 \<longleftrightarrow> drop_bit 4 (frame ! (tag_len frame + 14)) = 4"
      "ethertype_at frame (tag_len frame) = 0x86dd \<longleftrightarrow> drop_bit 4 (frame ! (tag_len frame + 14)) = 6"
      by (simp_all add: type_matches_version_def)
    with True show ?thesis
      by (auto simp: ethernet_takes_def bpf_loads at octet_is double_octet_is udp_in_def ethertype_at_def add.commute)
  next
    case False
    then show ?thesis by (auto simp: ethernet_takes_def bpf_loads at udp_in_def)
  qed
qed

lemma ethernet_l3_tag:
  "ethernet_l3 frame =
     (if length frame < 14 \<or> length frame < tag_len frame + 14 then Inl Truncated
      else let vid = ethertype_at frame 2 AND 0xfff in
        if tag_len frame = 4 \<and> vid \<noteq> 0 then Inl (VlanTagged vid) else Inr (drop (tag_len frame + 14) frame))"
proof (cases "length frame < 14")
  case False
  then have ty: "drop 12 (take 14 frame) = [frame ! 12, frame ! 13]"
    by (intro nth_equalityI) (auto simp: nth_Cons' less_Suc_eq numeral_2_eq_2)
  have be: "[hi, lo] = u16_be w \<longleftrightarrow> u16_of hi lo = w" for hi lo w
    by (auto simp: u16_be_def)
  have "(case drop 14 frame of tci_hi # tci_lo # _ # _ # l3 \<Rightarrow> f tci_hi tci_lo l3 | _ \<Rightarrow> z)
      = (if length frame < 18 then z else f (frame ! 14) (frame ! 15) (drop 18 frame))" for f and z :: "(parse_error, bytes) result"
  proof (cases "length frame < 18")
    case True
    have "length (drop 14 frame) \<noteq> Suc (Suc (Suc (Suc n)))" for n using True by simp
    then have "drop 14 frame \<noteq> a # b # c # d # l" for a b c d l by (metis length_Cons)
    then show ?thesis using True by (auto split: list.split)
  next
    case long: False
    then have "drop 14 frame = frame ! 14 # frame ! 15 # frame ! 16 # frame ! 17 # drop 18 frame"
      using Cons_nth_drop_Suc [of 14 frame] Cons_nth_drop_Suc [of 15 frame] Cons_nth_drop_Suc [of 16 frame] Cons_nth_drop_Suc [of 17 frame]
      by simp
    with long show ?thesis by simp
  qed
  with False show ?thesis
    by (auto simp: ethernet_l3_def ETHERNET_HEADER_SIZE_def Let_def ty be ETHERTYPE_VLAN_def VLAN_ID_MASK_def tag_len_def ethertype_at_def)
qed (simp add: ethernet_l3_def ETHERNET_HEADER_SIZE_def)

lemma ethernet_filter_takes:
  assumes "type_matches_version frame" "14 \<le> length frame"
  shows "bpf_filter ETHERNET_UDP_FILTER frame anc = takes (case ethernet_l3 frame of Inl e \<Rightarrow> False | Inr l3 \<Rightarrow> udp_in l3)"
  using assms ethernet_takes_udp [of frame 4] ethernet_takes_udp [of frame 0]
  by (auto simp: bpf_filter_def ethernet_run bpf_loads double_octet_is ethernet_l3_tag Let_def ethertype_at_def tag_len_def udp_in_def)

text \<open>The verdict of the classifier of a link, on frames whose tag, if any, the card has left in place or did not name a VLAN.\<close>

lemma classifier_takes:
  assumes "capture_classifier link = Some program" "link = Ethernet \<longrightarrow> type_matches_version frame"
    and "anc (SKF_AD SKF_AD_VLAN_TAG_PRESENT) = Some present" "anc (SKF_AD SKF_AD_VLAN_TAG) = Some tci" "present = 0 \<or> tci AND 0xfff = 0"
    and "parse_link_header link frame = Inr l"
  shows "bpf_filter program frame anc = takes (udp_in (pk_l3 l))"
proof (cases link)
  case Ethernet
  obtain l3 where "ethernet_l3 frame = Inr l3" "pk_l3 l = l3"
    using assms(6) Ethernet by (auto simp: parse_link_header_def result_bind_Inr_iff)
  moreover from this have "14 \<le> length frame" by (auto simp: ethernet_l3_tag split: if_split_asm)
  ultimately show ?thesis
    using assms Ethernet vlan_prologue_run [OF ethernet_load_free assms(3,4), of frame] ethernet_filter_takes [of frame anc]
    by (auto simp: capture_classifier_def)
next
  case RawIp
  with assms show ?thesis by (auto simp: capture_classifier_def parse_link_header_def raw_ip_takes)
qed (use assms in \<open>simp add: capture_classifier_def\<close>)

lemma link_errors: "parse_link_header link frame = Inl e \<Longrightarrow> e = Truncated \<or> (\<exists>vid. e = VlanTagged vid)"
  by (auto simp: parse_link_header_def result_bind_Inl_iff read_mac_def ok_or_def ethernet_l3_tag Let_def
      split: link_type.split_asm if_split_asm option.split_asm)

lemma no_late_tag: "parse_link_header link frame = Inr l \<Longrightarrow> parse_frame link frame \<noteq> Inl (VlanTagged vid)"
  by (cases "pk_l3 l") (simp_all add: parse_frame_def Let_def parse_ipv4_udp(3) parse_ipv6_udp(3))

lemma tagged_is_dropped:
  assumes "capture_classifier link = Some program" "link = Ethernet \<longrightarrow> type_matches_version frame"
    and "anc (SKF_AD SKF_AD_VLAN_TAG_PRESENT) = Some present" "anc (SKF_AD SKF_AD_VLAN_TAG) = Some tci" "present = 0 \<or> tci AND 0xfff = 0"
    and "parse_link_header link frame = Inl (VlanTagged vid)"
  shows "bpf_filter program frame anc = Some 0"
proof -
  have link: "link = Ethernet" and l3: "ethernet_l3 frame = Inl (VlanTagged vid)"
    using assms(6) by (auto simp: parse_link_header_def result_bind_Inl_iff read_mac_def ok_or_def split: link_type.split_asm if_split_asm option.split_asm)
  from l3 have "14 \<le> length frame" by (auto simp: ethernet_l3_tag split: if_split_asm)
  with assms(1,2,5) link l3 vlan_prologue_run [OF ethernet_load_free assms(3,4), of frame] ethernet_filter_takes [of frame anc]
  show ?thesis by (auto simp: capture_classifier_def takes_def)
qed

text \<open>C11. The classifier installed in the kernel agrees with the parser in the process. A frame the parser takes, datagram
  or fragment, the classifier lets through: no reflectable traffic is lost in the kernel. A frame the parser would
  refuse as another protocol, as an unknown IP version or as tagged for a VLAN is dropped in the kernel. A frame
  whose VLAN tag the card moved into its metadata is dropped too, whatever its bytes. In front of the classifier, the
  filter against our own frames drops those sent and changes no other verdict. The type field of an Ethernet frame is
  assumed to name the version the packet has, since the classifier reads one and the parser the other.
\<close>

theorem classifier_agrees_with_parser:
  assumes "capture_classifier link = Some program" "link = Ethernet \<longrightarrow> type_matches_version frame"
    and "anc (SKF_AD SKF_AD_VLAN_TAG_PRESENT) = Some present" "anc (SKF_AD SKF_AD_VLAN_TAG) = Some tci"
    and "anc (SKF_AD SKF_AD_PKTTYPE) = Some pkttype"
  shows "(present = 0 \<or> tci AND 0xfff = 0 \<longrightarrow>
      (case parse_frame link frame of
         Inr x \<Rightarrow> bpf_filter program frame anc = Some 0xffffffff
       | Inl (NotUdp proto) \<Rightarrow> bpf_filter program frame anc = Some 0
       | Inl (BadIpVersion v) \<Rightarrow> bpf_filter program frame anc = Some 0
       | Inl (VlanTagged vid) \<Rightarrow> bpf_filter program frame anc = Some 0
       | Inl e \<Rightarrow> True))
    \<and> (link = Ethernet \<and> present \<noteq> 0 \<and> tci AND 0xfff \<noteq> 0 \<longrightarrow> bpf_filter program frame anc = Some 0)
    \<and> bpf_filter (drop_outgoing_filter program) frame anc
      = (if pkttype = PACKET_OUTGOING then Some 0 else bpf_filter program frame anc)"
proof (intro conjI impI)
  assume untagged: "present = 0 \<or> tci AND 0xfff = 0"
  note verdict = classifier_takes [OF assms(1-4) untagged]
  show "case parse_frame link frame of
         Inr x \<Rightarrow> bpf_filter program frame anc = Some 0xffffffff
       | Inl (NotUdp proto) \<Rightarrow> bpf_filter program frame anc = Some 0
       | Inl (BadIpVersion v) \<Rightarrow> bpf_filter program frame anc = Some 0
       | Inl (VlanTagged vid) \<Rightarrow> bpf_filter program frame anc = Some 0
       | Inl e \<Rightarrow> True"
  proof (cases "parse_link_header link frame")
    case (Inl e)
    then have "parse_frame link frame = Inl e" by (simp add: parse_frame_def)
    with tagged_is_dropped [OF assms(1-4) untagged] link_errors [OF Inl] Inl show ?thesis by (cases e) auto
  next
    case (Inr l)
    with verdict parsed_is_udp [of link frame] refused_is_not_udp [of link frame _ _ l] no_late_tag [OF Inr]
    show ?thesis by (auto simp: takes_def split: sum.split parse_error.split)
  qed
next
  assume "link = Ethernet \<and> present \<noteq> 0 \<and> tci AND 0xfff \<noteq> 0"
  with assms(1) vlan_prologue_run [OF ethernet_load_free assms(3,4)] show "bpf_filter program frame anc = Some 0"
    by (auto simp: capture_classifier_def)
next
  show "bpf_filter (drop_outgoing_filter program) frame anc
      = (if pkttype = PACKET_OUTGOING then Some 0 else bpf_filter program frame anc)"
    by (rule outgoing_prologue_run [where anc = anc, OF classifier_load_free [OF assms(1)] assms(5)])
qed

definition captured_sample :: bytes where
  "captured_sample = [0xff, 0xff, 0xff, 0xff, 0xff, 0xff, 2, 0, 0, 0, 0, 9, 8, 0] @
     [0x45, 0, 0, 30, 0, 0, 0, 0, 64, 17, 0, 0, 192, 168, 1, 2, 255, 255, 255, 255] @ [0x10, 0, 0, 9, 0, 10, 0, 0, 1, 2]"

theorem classifier_agrees_with_parser_witness:
  "bpf_filter (DROP_VLAN_TAGGED_PROLOGUE @ ETHERNET_UDP_FILTER) captured_sample (\<lambda>_. Some 0) = Some 0xffffffff
    \<and> bpf_filter (drop_outgoing_filter (DROP_VLAN_TAGGED_PROLOGUE @ ETHERNET_UDP_FILTER)) captured_sample (\<lambda>_. Some PACKET_OUTGOING) = Some 0"
proof -
  have "case parse_frame Ethernet captured_sample of Inr x \<Rightarrow> True | Inl e \<Rightarrow> False" by code_simp
  then obtain x where x: "parse_frame Ethernet captured_sample = Inr x" by (auto split: sum.split_asm)
  have "type_matches_version captured_sample" by code_simp
  with classifier_agrees_with_parser [of Ethernet "DROP_VLAN_TAGGED_PROLOGUE @ ETHERNET_UDP_FILTER" captured_sample "\<lambda>_. Some 0" 0 0 0] x
    classifier_agrees_with_parser [of Ethernet "DROP_VLAN_TAGGED_PROLOGUE @ ETHERNET_UDP_FILTER" captured_sample "\<lambda>_. Some PACKET_OUTGOING"
      PACKET_OUTGOING PACKET_OUTGOING PACKET_OUTGOING]
  show ?thesis by (simp add: capture_classifier_def)
qed

end
