(* ===== verification/Captures.thy ===== *)
theory Captures
  imports Capture_Filter Interface
begin

text \<open>
  The captures: \<^verbatim>\<open>src/src/capture/bpf.rs\<close> (macOS and FreeBSD) and \<^verbatim>\<open>src/src/capture/af_packet.rs\<close> (Linux). A system
  call is an argument: what the kernel answers to it. The calls of an attach are listed in the order the code makes
  them, with the answer to each taken from a function of the call. The layout of \<^verbatim>\<open>bpf_hdr\<close> and \<^verbatim>\<open>BPF_WORDALIGN\<close> are
  the C library's and a parameter, \<open>bpf_abi\<close>, whose laws are the locale \<open>bpf_records\<close>; the layouts of
  FreeBSD and of macOS interpret it.
\<close>

section \<open>System calls\<close>

datatype os_errno = E_AGAIN | E_WOULDBLOCK | E_NXIO | E_NETDOWN | E_BUSY | E_OTHER nat

datatype capture_error =
    CapOs os_errno
  | MidHeader
  | PastBatchEnd
  | NoAdvance
  | UnsupportedLink nat
  | IndexTooLarge
  | ShortWrite
  | AllBusy

datatype io_status = IoReady nat | IoWouldBlock

definition would_block :: "os_errno \<Rightarrow> bool" where
  "would_block e \<longleftrightarrow> e = E_AGAIN \<or> e = E_WOULDBLOCK"

text \<open>The count a call returned, or the error behind a negative one.\<close>

definition from_syscall :: "(os_errno, nat) result \<Rightarrow> (capture_error, io_status) result" where
  "from_syscall r =
     (case r of
        Inr n \<Rightarrow> Inr (IoReady n)
      | Inl e \<Rightarrow> if would_block e then Inr IoWouldBlock else Inl (CapOs e))"

definition os_check :: "(os_errno, 'a) result \<Rightarrow> (capture_error, 'a) result" where
  "os_check r = (case r of Inl e \<Rightarrow> Inl (CapOs e) | Inr a \<Rightarrow> Inr a)"

text \<open>\<^verbatim>\<open>Read\<close>: one read of a capture.\<close>

datatype cap_read = ReadFrame bytes | ReadOversized

text \<open>A \<^verbatim>\<open>write\<close> or \<^verbatim>\<open>send\<close> of a frame, which both captures refuse to take in part.\<close>

definition capture_send :: "(os_errno, nat) result \<Rightarrow> bytes \<Rightarrow> (capture_error, unit) result" where
  "capture_send written frame =
     (case written of
        Inl e \<Rightarrow> Inl (CapOs e)
      | Inr n \<Rightarrow> if n \<noteq> length frame then Inl ShortWrite else Inr ())"

section \<open>The batches of BPF\<close>

text \<open>\<^verbatim>\<open>bh_caplen\<close>, \<^verbatim>\<open>bh_datalen\<close> and \<^verbatim>\<open>bh_hdrlen\<close> as the structure at the front of the bytes has them.\<close>

record bpf_hdr =
  bh_caplen :: u32
  bh_datalen :: u32
  bh_hdrlen :: u16

record bpf_abi =
  abi_size :: nat
  abi_read :: "bytes \<Rightarrow> bpf_hdr"
  abi_wordalign :: "nat \<Rightarrow> nat"

record bpf_capture =
  bc_buf :: bytes
  bc_filled :: nat
  bc_offset :: nat
  bc_link_type :: link_type
  bc_name :: interface_name

datatype bpf_record = FrameRecord nat nat | OversizedRecord u32

text \<open>\<open>None\<close> is a read outside the bytes of the record: the copy of the header behind its unchecked pointer.\<close>

definition parse_record :: "bpf_abi \<Rightarrow> bytes \<Rightarrow> (capture_error, bpf_record \<times> nat) result option" where
  "parse_record abi record =
     (if abi_size abi > length record then Some (Inl MidHeader)
      else Option.bind (get_slice 0 (abi_size abi) record) (\<lambda>front.
        let header = abi_read abi front;
            frame_start = unat (bh_hdrlen header);
            frame_end = frame_start + unat (bh_caplen header) in
        if frame_end > length record then Some (Inl PastBatchEnd)
        else
          let advance = abi_wordalign abi frame_end in
          if advance = 0 then Some (Inl NoAdvance)
          else if bh_datalen header > bh_caplen header \<or> unat (bh_caplen header) > MAX_FRAME_LEN
          then Some (Inr (OversizedRecord (bh_datalen header), advance))
          else Some (Inr (FrameRecord frame_start frame_end, advance))))"

text \<open>
  One \<^verbatim>\<open>read\<close> of the device: the bytes it wrote to the front of the buffer, or its error. Asked for more reads than
  were answered, a device would block.
\<close>

type_synonym device_reads = "(os_errno, bytes) result list"

definition bpf_refill :: "device_reads \<Rightarrow> bpf_capture \<Rightarrow> (capture_error, bool) result \<times> bpf_capture \<times> device_reads" where
  "bpf_refill ks c =
     (case ks of
        [] \<Rightarrow> (Inr False, c, [])
      | k # rest \<Rightarrow>
          (case from_syscall (map_sum id length k) of
             Inl e \<Rightarrow> (Inl e, c, rest)
           | Inr IoWouldBlock \<Rightarrow> (Inr False, c, rest)
           | Inr (IoReady n) \<Rightarrow>
               let data = (case k of Inr bs \<Rightarrow> bs | Inl _ \<Rightarrow> []);
                   c1 = c\<lparr>bc_buf := data @ drop (length data) (bc_buf c)\<rparr> in
               if n = 0 then (Inr False, c1, rest)
               else (Inr True, c1\<lparr>bc_filled := n, bc_offset := 0\<rparr>, rest)))"

definition bpf_has_buffered :: "bpf_capture \<Rightarrow> bool" where
  "bpf_has_buffered c \<longleftrightarrow> bc_offset c < bc_filled c"

text \<open>\<^verbatim>\<open>next_frame\<close> behind its refill: the record at the cursor. A slice out of range panics, which is \<open>None\<close>.\<close>

definition take_record :: "bpf_abi \<Rightarrow> bpf_capture \<Rightarrow> ((capture_error, cap_read) result \<times> bpf_capture) option" where
  "take_record abi c =
     (let start = bc_offset c in
      Option.bind (get_slice start (bc_filled c) (bc_buf c)) (\<lambda>record.
      Option.bind (parse_record abi record) (\<lambda>parsed.
        case parsed of
          Inl e \<Rightarrow> Some (Inl e, c\<lparr>bc_offset := bc_filled c\<rparr>)
        | Inr (record, advance) \<Rightarrow>
            let c1 = c\<lparr>bc_offset := start + advance\<rparr> in
            (case record of
               FrameRecord a b \<Rightarrow> map_option (\<lambda>frame. (Inr (ReadFrame frame), c1)) (get_slice (start + a) (start + b) (bc_buf c))
             | OversizedRecord _ \<Rightarrow> Some (Inr ReadOversized, c1)))))"

definition bpf_next_frame :: "bpf_abi \<Rightarrow> device_reads \<Rightarrow> bpf_capture
    \<Rightarrow> ((capture_error, cap_read option) result \<times> bpf_capture \<times> device_reads) option" where
  "bpf_next_frame abi ks c =
     (let (got, c1, ks1) = (if bc_offset c \<ge> bc_filled c then bpf_refill ks c else (Inr True, c, ks)) in
      case got of
        Inl e \<Rightarrow> Some (Inl e, c1, ks1)
      | Inr False \<Rightarrow> Some (Inr None, c1, ks1)
      | Inr True \<Rightarrow>
          map_option (\<lambda>(r, c2). (case r of Inl e \<Rightarrow> Inl e | Inr x \<Rightarrow> Inr (Some x), c2, ks1)) (take_record abi c1))"

definition bpf_lost_interface :: "capture_error \<Rightarrow> bool" where
  "bpf_lost_interface e \<longleftrightarrow> e = CapOs E_NXIO"

section \<open>Opening and attaching\<close>

text \<open>A sequence of calls: those made, and what came of it. A call that fails ends the sequence.\<close>

type_synonym ('c, 'a) calls = "'c list \<times> (capture_error, 'a) result"

definition call :: "('c \<Rightarrow> (os_errno, nat) result) \<Rightarrow> 'c \<Rightarrow> ('c, nat) calls" where
  "call sys c = ([c], os_check (sys c))"

definition then_call :: "('c, 'a) calls \<Rightarrow> ('a \<Rightarrow> ('c, 'b) calls) \<Rightarrow> ('c, 'b) calls" where
  "then_call m f =
     (case snd m of
        Inl e \<Rightarrow> (fst m, Inl e)
      | Inr a \<Rightarrow> (fst m @ fst (f a), snd (f a)))"

datatype device_call =
    OpenDevice nat
  | SetBufferLen nat
  | SetIf interface_name
  | GetDlt
  | SeeSent bool
  | SetProgram "bpf_insn list"
  | Immediate
  | GetBufferLen

definition DLT_NULL :: nat where "DLT_NULL = 0"
definition DLT_EN10MB :: nat where "DLT_EN10MB = 1"

text \<open>The filter of a BPF link; the loopback's depends on the host.\<close>

definition bpf_classifier :: "bpf_insn list \<Rightarrow> link_type \<Rightarrow> bpf_insn list" where
  "bpf_classifier null_filter link = (if link = Ethernet then ETHERNET_UDP_FILTER else null_filter)"

definition bpf_attach :: "bpf_insn list \<Rightarrow> (device_call \<Rightarrow> (os_errno, nat) result) \<Rightarrow> interface \<Rightarrow> (device_call, link_type) calls" where
  "bpf_attach null_filter sys ifc =
     then_call (call sys (SetIf (if_name ifc))) (\<lambda>_.
     then_call (call sys GetDlt) (\<lambda>dlt.
     then_call (if dlt = DLT_EN10MB then ([], Inr Ethernet) else if dlt = DLT_NULL then ([], Inr DltNull)
       else ([], Inl (UnsupportedLink dlt))) (\<lambda>link.
     then_call (call sys (SeeSent (if_loopback ifc))) (\<lambda>_.
     then_call (call sys (SetProgram (bpf_classifier null_filter link))) (\<lambda>_. ([], Inr link))))))"

fun open_bpf_from :: "(device_call \<Rightarrow> (os_errno, nat) result) \<Rightarrow> nat \<Rightarrow> nat \<Rightarrow> (device_call, nat) calls" where
  "open_bpf_from sys n 0 = ([], Inl AllBusy)"
| "open_bpf_from sys n (Suc left) =
     (case sys (OpenDevice n) of
        Inr fd \<Rightarrow> ([OpenDevice n], Inr fd)
      | Inl e \<Rightarrow>
          if e \<noteq> E_BUSY then ([OpenDevice n], Inl (CapOs e))
          else apfst ((#) (OpenDevice n)) (open_bpf_from sys (Suc n) left))"

definition open_bpf_device :: "(device_call \<Rightarrow> (os_errno, nat) result) \<Rightarrow> (device_call, nat) calls" where
  "open_bpf_device sys = open_bpf_from sys 0 256"

definition BUFFER_LEN :: nat where "BUFFER_LEN = 16 * 1024"

definition bpf_open :: "bpf_insn list \<Rightarrow> (device_call \<Rightarrow> (os_errno, nat) result) \<Rightarrow> interface \<Rightarrow> (device_call, bpf_capture) calls" where
  "bpf_open null_filter sys ifc =
     then_call (open_bpf_device sys) (\<lambda>_.
     then_call (call sys (SetBufferLen BUFFER_LEN)) (\<lambda>_.
     then_call (bpf_attach null_filter sys ifc) (\<lambda>link.
     then_call (call sys Immediate) (\<lambda>_.
     then_call (call sys GetBufferLen) (\<lambda>blen.
     ([], Inr \<lparr>bc_buf = replicate blen 0, bc_filled = 0, bc_offset = 0, bc_link_type = link, bc_name = if_name ifc\<rparr>))))))"

definition bpf_rebind :: "bpf_insn list \<Rightarrow> (device_call \<Rightarrow> (os_errno, nat) result) \<Rightarrow> bpf_capture \<Rightarrow> interface
    \<Rightarrow> (capture_error, unit) result \<times> bpf_capture" where
  "bpf_rebind null_filter sys c ifc =
     (case snd (bpf_attach null_filter sys ifc) of
        Inl e \<Rightarrow> (Inl e, c)
      | Inr link \<Rightarrow> (Inr (), c\<lparr>bc_link_type := link, bc_filled := 0, bc_offset := 0\<rparr>))"

definition bpf_attached :: "(device_call \<Rightarrow> (os_errno, nat) result) \<Rightarrow> bool" where
  "bpf_attached sys = (case sys GetDlt of Inl _ \<Rightarrow> False | Inr _ \<Rightarrow> True)"

section \<open>The packet socket\<close>

record af_capture =
  ac_buf :: bytes
  ac_link_type :: link_type
  ac_name :: interface_name

datatype socket_call =
    OpenPacketSocket
  | HwTypeOf interface_name
  | IgnoreOutgoing
  | AttachFilter "bpf_insn list"
  | BindIndex u32
  | TakeError

definition ARPHRD_ETHER :: nat where "ARPHRD_ETHER = 1"
definition ARPHRD_LOOPBACK :: nat where "ARPHRD_LOOPBACK = 772"
definition ARPHRD_NONE :: nat where "ARPHRD_NONE = 0xFFFE"

text \<open>\<^verbatim>\<open>link_addr\<close>: the index has to fit the C integer of the address.\<close>

definition link_addr :: "u32 \<Rightarrow> (capture_error, u32) result" where
  "link_addr ifindex = (if unat ifindex < 2 ^ 31 then Inr ifindex else Inl IndexTooLarge)"

definition af_link_type_of :: "(socket_call \<Rightarrow> (os_errno, nat) result) \<Rightarrow> interface_name \<Rightarrow> (socket_call, link_type) calls" where
  "af_link_type_of sys name =
     then_call (call sys (HwTypeOf name)) (\<lambda>hw.
       if hw = ARPHRD_ETHER \<or> hw = ARPHRD_LOOPBACK then ([], Inr Ethernet)
       else if hw = ARPHRD_NONE then ([], Inr RawIp)
       else ([], Inl (UnsupportedLink hw)))"

definition af_classifier :: "link_type \<Rightarrow> bpf_insn list" where
  "af_classifier link = (case capture_classifier link of Some p \<Rightarrow> p | None \<Rightarrow> [])"

definition install_filter :: "(socket_call \<Rightarrow> (os_errno, nat) result) \<Rightarrow> link_type \<Rightarrow> (socket_call, nat) calls" where
  "install_filter sys link =
     (let classifier = af_classifier link in
      case sys IgnoreOutgoing of
        Inr _ \<Rightarrow> apfst ((#) IgnoreOutgoing) (call sys (AttachFilter classifier))
      | Inl _ \<Rightarrow> apfst ((#) IgnoreOutgoing) (call sys (AttachFilter (drop_outgoing_filter classifier))))"

definition af_attach :: "(socket_call \<Rightarrow> (os_errno, nat) result) \<Rightarrow> interface \<Rightarrow> u32 \<Rightarrow> (socket_call, link_type) calls" where
  "af_attach sys ifc ifindex =
     then_call ([], link_addr ifindex) (\<lambda>addr.
     then_call (af_link_type_of sys (if_name ifc)) (\<lambda>link.
     then_call (install_filter sys link) (\<lambda>_.
     then_call (call sys (BindIndex addr)) (\<lambda>_. ([], Inr link)))))"

definition af_open :: "(socket_call \<Rightarrow> (os_errno, nat) result) \<Rightarrow> interface \<Rightarrow> u32 \<Rightarrow> (socket_call, af_capture) calls" where
  "af_open sys ifc ifindex =
     then_call (call sys OpenPacketSocket) (\<lambda>_.
     then_call (af_attach sys ifc ifindex) (\<lambda>link.
     ([], Inr \<lparr>ac_buf = replicate MAX_FRAME_LEN 0, ac_link_type = link, ac_name = if_name ifc\<rparr>)))"

text \<open>\<^verbatim>\<open>rebind\<close>: whatever the pending error is, it is taken off the socket and only logged.\<close>

definition af_rebind :: "(socket_call \<Rightarrow> (os_errno, nat) result) \<Rightarrow> af_capture \<Rightarrow> interface \<Rightarrow> u32
    \<Rightarrow> socket_call list \<times> (capture_error, unit) result \<times> af_capture" where
  "af_rebind sys c ifc ifindex =
     (case af_attach sys ifc ifindex of
        (calls, Inl e) \<Rightarrow> (calls, Inl e, c)
      | (calls, Inr link) \<Rightarrow> (calls @ [TakeError], Inr (), c\<lparr>ac_link_type := link\<rparr>))"

definition af_attached :: "(os_errno, int) result \<Rightarrow> u32 \<Rightarrow> bool" where
  "af_attached sockname ifindex =
     (case sockname of Inl _ \<Rightarrow> False | Inr bound \<Rightarrow> 0 \<le> bound \<and> bound = uint ifindex)"

text \<open>\<^verbatim>\<open>recv\<close> under \<^verbatim>\<open>MSG_TRUNC\<close>: the length of the frame, and as much of it as fits the buffer written to its front.\<close>

definition recv_once :: "(os_errno, bytes) result \<Rightarrow> af_capture \<Rightarrow> (capture_error, nat option) result \<times> af_capture" where
  "recv_once k c =
     (case from_syscall (map_sum id length k) of
        Inl e \<Rightarrow> (Inl e, c)
      | Inr IoWouldBlock \<Rightarrow> (Inr None, c)
      | Inr (IoReady n) \<Rightarrow>
          let data = (case k of Inr bs \<Rightarrow> take (length (ac_buf c)) bs | Inl _ \<Rightarrow> []) in
          (Inr (Some n), c\<lparr>ac_buf := data @ drop (length data) (ac_buf c)\<rparr>))"

definition af_next_frame :: "(os_errno, bytes) result \<Rightarrow> af_capture \<Rightarrow> (capture_error, cap_read option) result \<times> af_capture" where
  "af_next_frame k c =
     (case recv_once k c of
        (Inl e, c1) \<Rightarrow> (Inl e, c1)
      | (Inr None, c1) \<Rightarrow> (Inr None, c1)
      | (Inr (Some n), c1) \<Rightarrow>
          if n > length (ac_buf c1) then (Inr (Some ReadOversized), c1)
          else (Inr (Some (ReadFrame (take n (ac_buf c1)))), c1))"

definition af_has_buffered :: "af_capture \<Rightarrow> bool" where "af_has_buffered c = False"

definition af_lost_interface :: "capture_error \<Rightarrow> bool" where
  "af_lost_interface e \<longleftrightarrow> e = CapOs E_NETDOWN"

section \<open>Walking a batch\<close>

lemma sub_slice_of_sub_slice: "a + j \<le> b \<Longrightarrow> sub_slice (a + i) (a + j) xs = sub_slice i j (sub_slice a b xs)"
  by (simp add: sub_slice_def drop_take min_def add.commute)

lemma sub_slice_later: "sub_slice (a + k) b xs = drop k (sub_slice a b xs)"
  by (simp add: sub_slice_def drop_take add.commute)

text \<open>
  \<^verbatim>\<open>parse_record\<close> reads nothing outside its bytes; what it accepts lies inside them, is no longer than a frame may be, and
  moves the cursor.
\<close>

lemma parse_record_bounds:
  obtains e where "parse_record abi record = Some (Inl e)"
  | x advance where "parse_record abi record = Some (Inr (x, advance))" "0 < advance"
    "\<And>a b. x = FrameRecord a b \<Longrightarrow> a \<le> b \<and> b \<le> length record \<and> b - a \<le> MAX_FRAME_LEN"
proof -
  have "(\<exists>e. parse_record abi record = Some (Inl e))
    \<or> (\<exists>x advance. parse_record abi record = Some (Inr (x, advance)) \<and> 0 < advance
        \<and> (\<forall>a b. x = FrameRecord a b \<longrightarrow> a \<le> b \<and> b \<le> length record \<and> b - a \<le> MAX_FRAME_LEN))"
    by (auto simp: parse_record_def get_slice_def Let_def)
  then show ?thesis using that by blast
qed

definition capture_ok :: "bpf_capture \<Rightarrow> bool" where
  "capture_ok c \<longleftrightarrow> bc_filled c \<le> length (bc_buf c)"

text \<open>The bytes of a capture that hold the batch, from an offset on.\<close>

definition lies_in_batch :: "nat \<Rightarrow> bpf_capture \<Rightarrow> bytes \<Rightarrow> bool" where
  "lies_in_batch start c f \<longleftrightarrow> (\<exists>a b. start \<le> a \<and> a \<le> b \<and> b \<le> bc_filled c \<and> get_slice a b (bc_buf c) = Some f)"

lemma take_record_step:
  assumes "capture_ok c" "bpf_has_buffered c"
  obtains r c' where "take_record abi c = Some (r, c')"
    "bc_offset c < bc_offset c'" "bc_buf c' = bc_buf c" "bc_filled c' = bc_filled c"
    "\<And>f. r = Inr (ReadFrame f) \<Longrightarrow> length f \<le> MAX_FRAME_LEN \<and> lies_in_batch (bc_offset c) c' f"
    "\<And>e. r = Inl e \<Longrightarrow> \<not> bpf_has_buffered c'"
proof -
  let ?rec = "sub_slice (bc_offset c) (bc_filled c) (bc_buf c)"
  have rec: "get_slice (bc_offset c) (bc_filled c) (bc_buf c) = Some ?rec" "length ?rec = bc_filled c - bc_offset c"
    using assms by (simp_all add: get_slice_def capture_ok_def bpf_has_buffered_def)
  show ?thesis
  proof (cases rule: parse_record_bounds [of abi ?rec])
    case (1 e)
    then show ?thesis using that assms(2) rec(1) by (auto simp: take_record_def bpf_has_buffered_def)
  next
    case (2 x advance)
    show ?thesis
    proof (cases x)
      case (FrameRecord a b)
      with 2(3) rec(2) assms have ab: "a \<le> b" "bc_offset c + b \<le> bc_filled c" "b - a \<le> MAX_FRAME_LEN" "bc_filled c \<le> length (bc_buf c)"
        by (auto simp: capture_ok_def bpf_has_buffered_def)
      let ?f = "sub_slice (bc_offset c + a) (bc_offset c + b) (bc_buf c)"
      have f: "get_slice (bc_offset c + a) (bc_offset c + b) (bc_buf c) = Some ?f" using ab by (simp add: get_slice_def)
      from f ab have lies: "lies_in_batch (bc_offset c) (c\<lparr>bc_offset := bc_offset c + advance\<rparr>) ?f"
        unfolding lies_in_batch_def by (intro exI [of _ "bc_offset c + a"] exI [of _ "bc_offset c + b"]) simp
      have short: "length ?f \<le> MAX_FRAME_LEN" using ab by (auto simp: min_le_iff_disj)
      have "take_record abi c = Some (Inr (ReadFrame ?f), c\<lparr>bc_offset := bc_offset c + advance\<rparr>)"
        using 2(1) FrameRecord rec(1) f by (simp add: take_record_def Let_def)
      from that [OF this] lies short 2(2) show ?thesis by auto
    next
      case (OversizedRecord n)
      then show ?thesis using that 2 rec(1) by (auto simp: take_record_def)
    qed
  qed
qed

lemma refill_step:
  assumes "capture_ok c" "\<forall>k\<in>set ks. case k of Inr bs \<Rightarrow> length bs \<le> length (bc_buf c) | Inl _ \<Rightarrow> True" "bpf_refill ks c = (got, c', ks')"
  shows "capture_ok c'" "length (bc_buf c') = length (bc_buf c)" "ks' = tl ks" "got = Inr True \<Longrightarrow> bpf_has_buffered c'"
    "got \<noteq> Inr True \<Longrightarrow> bc_filled c' = bc_filled c \<and> bc_offset c' = bc_offset c"
proof -
  have "capture_ok c' \<and> length (bc_buf c') = length (bc_buf c) \<and> ks' = tl ks \<and> (if got = Inr True then bpf_has_buffered c' else bc_filled c' = bc_filled c \<and> bc_offset c' = bc_offset c)"
  proof (cases ks)
    case (Cons k rest)
    with assms show ?thesis
      by (cases k) (auto simp: bpf_refill_def from_syscall_def capture_ok_def bpf_has_buffered_def Let_def split: if_split_asm)
  qed (use assms in \<open>auto simp: bpf_refill_def\<close>)
  then show "capture_ok c'" "length (bc_buf c') = length (bc_buf c)" "ks' = tl ks" "got = Inr True \<Longrightarrow> bpf_has_buffered c'"
    "got \<noteq> Inr True \<Longrightarrow> bc_filled c' = bc_filled c \<and> bc_offset c' = bc_offset c" by (auto split: if_split_asm)
qed

text \<open>C14. A read of a BPF capture is safe whatever bytes the device delivers. It never reads outside its buffer and
  never panics; the cursor and the fill stay inside the buffer, which keeps its size; a frame handed on is a run of bytes
  of the batch the device delivered, at or behind the cursor and before the end of what was filled, and no longer than the
  forwarding limit; an unread batch is read on without asking the device and the cursor moves at every call, so no
  batch, however malformed, can stall the drain; and after a malformed record nothing of the batch is left to read.
\<close>

theorem bpf_reads_are_safe:
  assumes "capture_ok c" "\<forall>k\<in>set ks. case k of Inr bs \<Rightarrow> length bs \<le> length (bc_buf c) | Inl _ \<Rightarrow> True"
  shows "\<exists>r c' ks'. bpf_next_frame abi ks c = Some (r, c', ks')
    \<and> capture_ok c' \<and> length (bc_buf c') = length (bc_buf c)
    \<and> (\<forall>f. r = Inr (Some (ReadFrame f)) \<longrightarrow> length f \<le> MAX_FRAME_LEN
        \<and> lies_in_batch (if bpf_has_buffered c then bc_offset c else 0) c' f)
    \<and> (bpf_has_buffered c \<longrightarrow> ks' = ks \<and> bc_buf c' = bc_buf c \<and> bc_filled c' = bc_filled c \<and> bc_offset c < bc_offset c')
    \<and> (\<forall>e. r = Inl e \<longrightarrow> \<not> bpf_has_buffered c')"
proof (cases "bpf_has_buffered c")
  case True
  obtain x c1 where take: "take_record abi c = Some (x, c1)" and step: "bc_offset c < bc_offset c1" "bc_buf c1 = bc_buf c" "bc_filled c1 = bc_filled c"
    "\<And>f. x = Inr (ReadFrame f) \<Longrightarrow> length f \<le> MAX_FRAME_LEN \<and> lies_in_batch (bc_offset c) c1 f"
    "\<And>e. x = Inl e \<Longrightarrow> \<not> bpf_has_buffered c1"
    using take_record_step [OF assms(1) True, of abi] by metis
  have "bpf_next_frame abi ks c = Some (case x of Inl e \<Rightarrow> Inl e | Inr x \<Rightarrow> Inr (Some x), c1, ks)"
    using True take by (simp add: bpf_next_frame_def bpf_has_buffered_def)
  with True step assms(1) show ?thesis by (auto simp: capture_ok_def split: sum.split_asm)
next
  case False
  obtain got c1 ks1 where fill: "bpf_refill ks c = (got, c1, ks1)" by (metis prod_cases3)
  note filled = refill_step [OF assms(1,2) fill]
  show ?thesis
  proof (cases "got = Inr True")
    case True
    obtain x c2 where take: "take_record abi c1 = Some (x, c2)" and step: "bc_buf c2 = bc_buf c1" "bc_filled c2 = bc_filled c1"
      "\<And>f. x = Inr (ReadFrame f) \<Longrightarrow> length f \<le> MAX_FRAME_LEN \<and> lies_in_batch (bc_offset c1) c2 f"
      "\<And>e. x = Inl e \<Longrightarrow> \<not> bpf_has_buffered c2"
      using take_record_step [OF filled(1) filled(4) [OF True], of abi] by metis
    have "bpf_next_frame abi ks c = Some (case x of Inl e \<Rightarrow> Inl e | Inr x \<Rightarrow> Inr (Some x), c2, ks1)"
      using False True take fill by (simp add: bpf_next_frame_def bpf_has_buffered_def)
    moreover have "lies_in_batch 0 c2 f" if "lies_in_batch (bc_offset c1) c2 f" for f using that by (auto simp: lies_in_batch_def)
    ultimately show ?thesis using False step filled by (auto simp: capture_ok_def split: sum.split_asm)
  next
    case quiet: False
    have "bpf_next_frame abi ks c = Some (case got of Inl e \<Rightarrow> Inl e | Inr _ \<Rightarrow> Inr None, c1, ks1)"
      using False fill quiet by (auto simp: bpf_next_frame_def bpf_has_buffered_def split: sum.split bool.split)
    with False filled fill quiet show ?thesis by (auto simp: bpf_has_buffered_def split: sum.split_asm)
  qed
qed

section \<open>Batches as the kernel writes them\<close>

text \<open>
  A record is what the kernel puts behind the fields of the header, what was captured and the length the frame had.
  \<^verbatim>\<open>bh_hdrlen\<close> counts the fields and the fill: the kernel chooses the fill so that the packet behind the link header is
  aligned. The fill may be shorter than the padding at the end of the structure, and then the frame begins
  inside the bytes the structure spans, as it does for Ethernet on both systems; it may be longer too. Records are padded
  to the alignment, except the last.
\<close>

record bpf_rec =
  br_fill :: bytes
  br_data :: bytes
  br_datalen :: u32

definition bpf_header_of :: "nat \<Rightarrow> bpf_rec \<Rightarrow> bpf_hdr" where
  "bpf_header_of written r =
     \<lparr>bh_caplen = of_nat (length (br_data r)), bh_datalen = br_datalen r, bh_hdrlen = of_nat (written + length (br_fill r))\<rparr>"

definition record_bytes :: "nat \<Rightarrow> (bpf_hdr \<Rightarrow> bytes) \<Rightarrow> bpf_rec \<Rightarrow> bytes" where
  "record_bytes written enc r = enc (bpf_header_of written r) @ br_fill r @ br_data r"

definition push_record :: "bpf_abi \<Rightarrow> nat \<Rightarrow> (bpf_hdr \<Rightarrow> bytes) \<Rightarrow> bpf_rec \<Rightarrow> bytes" where
  "push_record abi written enc r =
     (let bs = record_bytes written enc r in bs @ replicate (abi_wordalign abi (length bs) - length bs) 0)"

fun batch_of :: "bpf_abi \<Rightarrow> nat \<Rightarrow> (bpf_hdr \<Rightarrow> bytes) \<Rightarrow> bpf_rec list \<Rightarrow> bytes" where
  "batch_of abi written enc [] = []"
| "batch_of abi written enc [r] = record_bytes written enc r"
| "batch_of abi written enc (r # s # rs) = push_record abi written enc r @ batch_of abi written enc (s # rs)"

text \<open>The lengths fit their fields, and the record is as long as the structure that is copied off its front.\<close>

definition record_fits :: "bpf_abi \<Rightarrow> nat \<Rightarrow> bpf_rec \<Rightarrow> bool" where
  "record_fits abi written r \<longleftrightarrow>
     written + length (br_fill r) < 2 ^ 16 \<and> length (br_data r) < 2 ^ 32
     \<and> abi_size abi \<le> written + length (br_fill r) + length (br_data r)"

definition record_read :: "bpf_rec \<Rightarrow> cap_read" where
  "record_read r =
     (if length (br_data r) < unat (br_datalen r) \<or> MAX_FRAME_LEN < length (br_data r) then ReadOversized else ReadFrame (br_data r))"

text \<open>So many calls of \<^verbatim>\<open>next_frame\<close>, and what each returned; \<open>None\<close> is a panic.\<close>

fun next_frames :: "bpf_abi \<Rightarrow> device_reads \<Rightarrow> bpf_capture \<Rightarrow> nat \<Rightarrow> (capture_error, cap_read option) result list option" where
  "next_frames abi ks c 0 = Some []"
| "next_frames abi ks c (Suc n) =
     Option.bind (bpf_next_frame abi ks c) (\<lambda>(r, c1, ks1). map_option ((#) r) (next_frames abi ks1 c1 n))"

locale bpf_records =
  fixes abi :: bpf_abi and written :: nat and enc :: "bpf_hdr \<Rightarrow> bytes"
  assumes enc_length: "length (enc h) = written"
    and written_fit: "0 < written" "written \<le> abi_size abi"
    and read_enc: "abi_size abi \<le> length (enc h @ rest) \<Longrightarrow> abi_read abi (take (abi_size abi) (enc h @ rest)) = h"
    and align_up: "n \<le> abi_wordalign abi n"
begin

lemma record_length: "length (record_bytes written enc r) = written + length (br_fill r) + length (br_data r)"
  by (simp add: record_bytes_def enc_length)

lemma parse_record_bytes:
  assumes "record_fits abi written r"
  shows "parse_record abi (record_bytes written enc r @ rest)
    = Some (Inr (if record_read r = ReadOversized then OversizedRecord (br_datalen r)
           else FrameRecord (written + length (br_fill r)) (length (record_bytes written enc r)), abi_wordalign abi (length (record_bytes written enc r))))"
proof -
  let ?bs = "record_bytes written enc r @ rest"
  have "unat (of_nat (length (br_data r)) :: u32) = length (br_data r)" "unat (of_nat (written + length (br_fill r)) :: u16) = written + length (br_fill r)"
    using assms by (simp_all only: record_fits_def unat_of_nat) simp_all
  moreover have "0 < abi_wordalign abi (length (record_bytes written enc r))"
    using align_up [of "length (record_bytes written enc r)"] written_fit record_length [of r] by linarith
  moreover have long: "abi_size abi \<le> length ?bs" using assms by (simp add: record_fits_def record_length)
  moreover have "get_slice 0 (abi_size abi) ?bs = Some (take (abi_size abi) ?bs)" using long by (simp add: get_slice_def sub_slice_def)
  moreover have "abi_read abi (take (abi_size abi) ?bs) = bpf_header_of written r"
    using read_enc [of "bpf_header_of written r" "br_fill r @ br_data r @ rest"] long by (simp add: record_bytes_def)
  ultimately show ?thesis
    by (auto simp: parse_record_def Let_def record_length bpf_header_of_def record_read_def word_less_nat_alt)
qed

lemma take_record_bytes:
  assumes "record_fits abi written r" "get_slice (bc_offset c) (bc_filled c) (bc_buf c) = Some (record_bytes written enc r @ rest)"
  shows "take_record abi c = Some (Inr (record_read r), c\<lparr>bc_offset := bc_offset c + abi_wordalign abi (length (record_bytes written enc r))\<rparr>)"
proof -
  let ?start = "written + length (br_fill r)" and ?stop = "length (record_bytes written enc r)"
  have sl: "bc_offset c \<le> bc_filled c" "bc_filled c \<le> length (bc_buf c)" "sub_slice (bc_offset c) (bc_filled c) (bc_buf c) = record_bytes written enc r @ rest"
    using assms(2) by (auto simp: get_slice_def split: if_split_asm)
  have "?stop \<le> bc_filled c - bc_offset c" using arg_cong [OF sl(3), of length] sl(2) by simp
  then have stop: "bc_offset c + ?stop \<le> bc_filled c" using sl(1) by linarith
  from sub_slice_of_sub_slice [OF this, of ?start "bc_buf c"] sl(3)
  have "sub_slice (bc_offset c + ?start) (bc_offset c + ?stop) (bc_buf c) = br_data r"
    by (simp add: sub_slice_def record_bytes_def enc_length)
  then have "get_slice (bc_offset c + ?start) (bc_offset c + ?stop) (bc_buf c) = Some (br_data r)"
    using stop sl(2) by (simp add: get_slice_def record_length)
  then show ?thesis
    by (simp add: take_record_def assms(2) parse_record_bytes [OF assms(1)] record_read_def)
qed

lemma batch_Cons: "\<exists>rest. batch_of abi written enc (r # rs) = record_bytes written enc r @ rest"
  by (cases rs) (auto simp: push_record_def Let_def)

lemma batch_drop: "drop (abi_wordalign abi (length (record_bytes written enc r))) (batch_of abi written enc (r # rs)) = batch_of abi written enc rs"
  using align_up [of "length (record_bytes written enc r)"] by (cases rs) (simp_all add: push_record_def Let_def)

lemma next_frames_batch:
  assumes "\<forall>r\<in>set rs. record_fits abi written r" "capture_ok c" "sub_slice (bc_offset c) (bc_filled c) (bc_buf c) = batch_of abi written enc rs"
  shows "next_frames abi [] c (Suc (length rs)) = Some (map (\<lambda>r. Inr (Some (record_read r))) rs @ [Inr None])"
  using assms
proof (induction rs arbitrary: c)
  case Nil
  then have "bc_filled c \<le> bc_offset c" by (auto simp: capture_ok_def sub_slice_def)
  then show ?case by (simp add: bpf_next_frame_def bpf_refill_def)
next
  case (Cons r rs)
  obtain rest where rest: "batch_of abi written enc (r # rs) = record_bytes written enc r @ rest" using batch_Cons by blast
  let ?c = "c\<lparr>bc_offset := bc_offset c + abi_wordalign abi (length (record_bytes written enc r))\<rparr>"
  have "length (batch_of abi written enc (r # rs)) \<noteq> 0" using rest written_fit by (simp add: record_length)
  then have buffered: "bc_offset c < bc_filled c" using Cons.prems(3) by (intro not_le_imp_less notI) (simp add: sub_slice_def)
  then have "get_slice (bc_offset c) (bc_filled c) (bc_buf c) = Some (record_bytes written enc r @ rest)"
    using Cons.prems(2,3) rest by (simp add: get_slice_def capture_ok_def)
  then have take: "take_record abi c = Some (Inr (record_read r), ?c)"
    using take_record_bytes [of r c rest] Cons.prems(1) by simp
  with buffered have "bpf_next_frame abi [] c = Some (Inr (Some (record_read r)), ?c, [])" by (simp add: bpf_next_frame_def)
  moreover have "sub_slice (bc_offset ?c) (bc_filled ?c) (bc_buf ?c) = batch_of abi written enc rs"
    using batch_drop [of r rs] Cons.prems(3) by (simp add: sub_slice_later)
  moreover have "capture_ok ?c" using Cons.prems(2) by (simp add: capture_ok_def)
  ultimately show ?case using Cons.IH [of ?c] Cons.prems(1) by simp
qed

lemma batch_read_back:
  assumes "\<forall>r\<in>set rs. record_fits abi written r" "rs \<noteq> []" "\<not> bpf_has_buffered c"
    and "length (batch_of abi written enc rs) \<le> length (bc_buf c)"
  shows "next_frames abi [Inr (batch_of abi written enc rs)] c (Suc (length rs)) = Some (map (\<lambda>r. Inr (Some (record_read r))) rs @ [Inr None])"
proof -
  let ?b = "batch_of abi written enc rs"
  let ?c = "c\<lparr>bc_buf := ?b @ drop (length ?b) (bc_buf c), bc_filled := length ?b, bc_offset := 0\<rparr>"
  obtain r rest where "rs = r # rest" using assms(2) by (cases rs) auto
  with batch_Cons [of r rest] written_fit have b: "?b \<noteq> []" by (auto simp: record_length dest: arg_cong [of _ _ length])
  have "bpf_next_frame abi [Inr ?b] c = bpf_next_frame abi [] ?c"
    using assms(3) b by (simp add: bpf_next_frame_def bpf_refill_def from_syscall_def bpf_has_buffered_def Let_def)
  then have "next_frames abi [Inr ?b] c (Suc (length rs)) = next_frames abi [] ?c (Suc (length rs))" by simp
  also have "\<dots> = Some (map (\<lambda>r. Inr (Some (record_read r))) rs @ [Inr None])"
    by (rule next_frames_batch) (use assms in \<open>auto simp: capture_ok_def sub_slice_def\<close>)
  finally show ?thesis .
qed

end

text \<open>
  The header of the two systems: a time stamp, the two lengths and the header's own, in the order of a little-endian
  host, in a structure padded to its alignment; records are aligned to a word.
\<close>

definition le_abi :: "nat \<Rightarrow> nat \<Rightarrow> nat \<Rightarrow> bpf_abi" where
  "le_abi stamp hsize word =
     \<lparr>abi_size = hsize,
      abi_read = \<lambda>bs. \<lparr>bh_caplen = u32_of (bs ! (stamp + 3)) (bs ! (stamp + 2)) (bs ! (stamp + 1)) (bs ! stamp),
                     bh_datalen = u32_of (bs ! (stamp + 7)) (bs ! (stamp + 6)) (bs ! (stamp + 5)) (bs ! (stamp + 4)),
                     bh_hdrlen = u16_of (bs ! (stamp + 9)) (bs ! (stamp + 8))\<rparr>,
      abi_wordalign = \<lambda>n. (n + (word - 1)) div word * word\<rparr>"

definition le_header :: "nat \<Rightarrow> bpf_hdr \<Rightarrow> bytes" where
  "le_header stamp h =
     replicate stamp 0 @ rev (u32_be (bh_caplen h)) @ rev (u32_be (bh_datalen h)) @ rev (u16_be (bh_hdrlen h))"

lemma le_records:
  assumes "stamp + 10 \<le> hsize" "0 < word"
  shows "bpf_records (le_abi stamp hsize word) (stamp + 10) (le_header stamp)"
proof
  fix h :: bpf_hdr and rest and n
  show "length (le_header stamp h) = stamp + 10" by (simp add: le_header_def)
  show "0 < stamp + 10" "stamp + 10 \<le> abi_size (le_abi stamp hsize word)" using assms(1) by (simp_all add: le_abi_def)
  have field: "take hsize (le_header stamp h @ rest) ! (stamp + i)
      = (rev (u32_be (bh_caplen h)) @ rev (u32_be (bh_datalen h)) @ rev (u16_be (bh_hdrlen h))) ! i" if "i < 10" for i
    using that assms(1) by (simp add: le_header_def nth_append)
  show "abi_read (le_abi stamp hsize word) (take (abi_size (le_abi stamp hsize word)) (le_header stamp h @ rest)) = h"
    using field [of 0] field [of 1] field [of 2] field [of 3] field [of 4] field [of 5] field [of 6] field [of 7] field [of 8] field [of 9]
    by (simp add: le_abi_def u32_be_def u16_be_def)
  have "n + (word - 1) = (n + (word - 1)) div word * word + (n + (word - 1)) mod word" by (rule div_mult_mod_eq [symmetric])
  moreover have "(n + (word - 1)) mod word \<le> word - 1" using mod_less_divisor [OF assms(2), of "n + (word - 1)"] by linarith
  ultimately have "n \<le> (n + (word - 1)) div word * word" by linarith
  then show "n \<le> abi_wordalign (le_abi stamp hsize word) n" by (simp add: le_abi_def)
qed

interpretation freebsd: bpf_records "le_abi 16 32 8" 26 "le_header 16"
  using le_records [of 16 32 8] by simp

interpretation macos: bpf_records "le_abi 8 20 4" 18 "le_header 8"
  using le_records [of 8 20 4] by simp

text \<open>C12. A batch the kernel wrote is read back record for record. Whatever the layout of the header and the alignment, as
  long as the fields of the header read back as written whatever stands behind them and the alignment rounds up, a read
  that delivers any non-empty list of records gives, call by call and without a panic, each frame in order with exactly
  the bytes captured, wherever the header says the frame begins: the length of the header is the record's own, and may
  be shorter or longer than the structure. A frame the kernel cut short or one past the forwarding limit is
  reported as oversized instead, and the call after the last finds nothing more.
\<close>

theorem bpf_batch_roundtrip:
  assumes "\<forall>h. length (enc h) = written" "0 < written" "written \<le> abi_size abi"
    and "\<forall>h rest. abi_size abi \<le> length (enc h @ rest) \<longrightarrow> abi_read abi (take (abi_size abi) (enc h @ rest)) = h"
    and "\<forall>n. n \<le> abi_wordalign abi n"
    and "\<forall>r\<in>set rs. record_fits abi written r" "rs \<noteq> []" "\<not> bpf_has_buffered c"
    and "length (batch_of abi written enc rs) \<le> length (bc_buf c)"
  shows "next_frames abi [Inr (batch_of abi written enc rs)] c (Suc (length rs))
    = Some (map (\<lambda>r. Inr (Some (record_read r))) rs @ [Inr None])"
  by (rule bpf_records.batch_read_back [OF bpf_records.intro]) (use assms in auto)

definition fresh_capture :: "nat \<Rightarrow> bpf_capture" where
  "fresh_capture len = \<lparr>bc_buf = replicate len 0, bc_filled = 0, bc_offset = 0, bc_link_type = Ethernet, bc_name = []\<rparr>"

theorem bpf_reads_are_safe_witness:
  "case bpf_next_frame (le_abi 8 20 4) [Inr [1, 2, 3]] (fresh_capture 40) of
     Some (r, c', ks') \<Rightarrow> r = Inl MidHeader \<and> capture_ok c' \<and> length (bc_buf c') = 40 \<and> \<not> bpf_has_buffered c'
   | None \<Rightarrow> False"
proof -
  have "map_option fst (bpf_next_frame (le_abi 8 20 4) [Inr [1, 2, 3]] (fresh_capture 40)) = Some (Inl MidHeader)"
    by (simp add: bpf_next_frame_def bpf_refill_def from_syscall_def fresh_capture_def take_record_def parse_record_def get_slice_def sub_slice_def
        le_abi_def Let_def)
  moreover have "capture_ok (fresh_capture 40)" "length (bc_buf (fresh_capture 40)) = 40" by (simp_all add: capture_ok_def fresh_capture_def)
  ultimately show ?thesis
    using bpf_reads_are_safe [of "fresh_capture 40" "[Inr [1, 2, 3]]" "le_abi 8 20 4"] by auto
qed

text \<open>An Ethernet record of macOS, whose header is two bytes shorter than its structure, one cut short, and one with a longer header.\<close>

definition sample_records :: "bpf_rec list" where
  "sample_records = [\<lparr>br_fill = [], br_data = [1, 2, 3], br_datalen = 3\<rparr>, \<lparr>br_fill = [0, 0], br_data = [4], br_datalen = 9\<rparr>,
     \<lparr>br_fill = [7, 7, 7, 7], br_data = [5, 6], br_datalen = 2\<rparr>]"

theorem bpf_batch_roundtrip_witness:
  "next_frames (le_abi 8 20 4) [Inr (batch_of (le_abi 8 20 4) 18 (le_header 8) sample_records)] (fresh_capture 80) 4
    = Some [Inr (Some (ReadFrame [1, 2, 3])), Inr (Some ReadOversized), Inr (Some (ReadFrame [5, 6])), Inr None]"
proof -
  let ?abi = "le_abi 8 20 4" and ?enc = "le_header 8"
  have "length (batch_of ?abi 18 ?enc sample_records) = 72"
    by (simp add: sample_records_def push_record_def record_bytes_def macos.enc_length Let_def) (simp add: le_abi_def)
  moreover have "\<not> bpf_has_buffered (fresh_capture 80)" "length (bc_buf (fresh_capture 80)) = 80"
    by (simp_all add: bpf_has_buffered_def fresh_capture_def)
  moreover have "\<forall>r\<in>set sample_records. record_fits ?abi 18 r" "sample_records \<noteq> []" "Suc (length sample_records) = 4"
    by (simp_all add: sample_records_def record_fits_def le_abi_def)
  ultimately have "next_frames ?abi [Inr (batch_of ?abi 18 ?enc sample_records)] (fresh_capture 80) (Suc (length sample_records))
      = Some (map (\<lambda>r. Inr (Some (record_read r))) sample_records @ [Inr None])"
    by (intro bpf_batch_roundtrip allI impI macos.enc_length macos.read_enc macos.written_fit macos.align_up) simp_all
  moreover have "map (\<lambda>r. Inr (Some (record_read r)) :: (capture_error, cap_read option) result) sample_records
      = [Inr (Some (ReadFrame [1, 2, 3])), Inr (Some ReadOversized), Inr (Some (ReadFrame [5, 6]))]"
    by (simp add: sample_records_def record_read_def MAX_FRAME_LEN_def MAX_DATAGRAM_LEN_def)
  moreover have "Suc (length sample_records) = 4" by (simp add: sample_records_def)
  ultimately show ?thesis by (simp only: append.simps)
qed

section \<open>The order of an attach\<close>

lemma af_classifier_is: "link \<noteq> DltNull \<Longrightarrow> capture_classifier link = Some (af_classifier link)"
  by (cases link) (simp_all add: af_classifier_def capture_classifier_def)

text \<open>The calls of an attach that got as far as the bind, and what they were answered.\<close>

lemma af_attach_bound:
  assumes "af_attach sys ifc ifindex = (calls, r)" "BindIndex i \<in> set calls"
  obtains hw link prog v where "sys (HwTypeOf (if_name ifc)) = Inr hw" "link = (if hw = ARPHRD_NONE then RawIp else Ethernet)" "i = ifindex" "calls = [HwTypeOf (if_name ifc), IgnoreOutgoing, AttachFilter prog, BindIndex ifindex]"
    "prog = (case sys IgnoreOutgoing of Inr _ \<Rightarrow> af_classifier link | Inl _ \<Rightarrow> drop_outgoing_filter (af_classifier link))"
    "sys (AttachFilter prog) = Inr v" "r = (case sys (BindIndex ifindex) of Inl e \<Rightarrow> Inl (CapOs e) | Inr _ \<Rightarrow> Inr link)"
proof -
  obtain hw where hw: "sys (HwTypeOf (if_name ifc)) = Inr hw" "link_addr ifindex = Inr ifindex"
    using assms by (auto simp: af_attach_def then_call_def af_link_type_of_def call_def os_check_def link_addr_def split: sum.split_asm if_split_asm)
  obtain link where link: "af_link_type_of sys (if_name ifc) = ([HwTypeOf (if_name ifc)], Inr link)"
    "link = (if hw = ARPHRD_NONE then RawIp else Ethernet)"
    using assms hw
    by (auto simp: af_attach_def then_call_def af_link_type_of_def call_def os_check_def ARPHRD_NONE_def ARPHRD_ETHER_def ARPHRD_LOOPBACK_def
        split: if_split_asm)
  let ?prog = "case sys IgnoreOutgoing of Inr _ \<Rightarrow> af_classifier link | Inl _ \<Rightarrow> drop_outgoing_filter (af_classifier link)"
  have inst: "install_filter sys link = ([IgnoreOutgoing, AttachFilter ?prog], os_check (sys (AttachFilter ?prog)))"
    by (auto simp: install_filter_def call_def Let_def split: sum.split)
  obtain v where v: "sys (AttachFilter ?prog) = Inr v"
    using assms hw link inst by (cases "sys (AttachFilter ?prog)") (auto simp: af_attach_def then_call_def os_check_def)
  show ?thesis
  proof (rule that [OF hw(1) link(2) _ _ refl v])
    show "i = ifindex" "calls = [HwTypeOf (if_name ifc), IgnoreOutgoing, AttachFilter ?prog, BindIndex ifindex]"
      "r = (case sys (BindIndex ifindex) of Inl e \<Rightarrow> Inl (CapOs e) | Inr _ \<Rightarrow> Inr link)"
      using assms hw link(1) inst v by (auto simp: af_attach_def then_call_def call_def os_check_def split: sum.split sum.split_asm)
  qed
qed

text \<open>C13. A packet socket never delivers an unfiltered frame or one of our own. Attaching, at the start or to a recreated
  interface, makes its calls in one order, and the bind, which starts delivery, is the last of them: it is reached only
  after a filter was accepted, which is the classifier of the link type just read where the kernel agreed to ignore outgoing frames and
  otherwise the classifier behind a prologue under which every outgoing frame is dropped. An attach that succeeded has
  bound the interface it was asked to.
\<close>

theorem attach_filters_before_delivery:
  assumes "af_attach sys ifc ifindex = (calls, r)"
  shows "(\<forall>i. BindIndex i \<in> set calls \<longrightarrow>
        i = ifindex \<and> (\<exists>hw prog link classifier v. calls = [HwTypeOf (if_name ifc), IgnoreOutgoing, AttachFilter prog, BindIndex i]
          \<and> sys (HwTypeOf (if_name ifc)) = Inr hw \<and> link = (if hw = ARPHRD_NONE then RawIp else Ethernet) \<and> (\<forall>l. r = Inr l \<longrightarrow> l = link)
          \<and> sys (AttachFilter prog) = Inr v \<and> capture_classifier link = Some classifier
          \<and> (case sys IgnoreOutgoing of
               Inr _ \<Rightarrow> prog = classifier
             | Inl _ \<Rightarrow> \<forall>frame anc pkttype. anc (SKF_AD SKF_AD_PKTTYPE) = Some pkttype \<longrightarrow>
                 bpf_filter prog frame anc = (if pkttype = PACKET_OUTGOING then Some 0 else bpf_filter classifier frame anc))))
    \<and> (\<forall>link. r = Inr link \<longrightarrow> BindIndex ifindex \<in> set calls \<and> (\<exists>v. sys (BindIndex ifindex) = Inr v))"
proof (intro conjI allI impI)
  fix i assume "BindIndex i \<in> set calls"
  from af_attach_bound [OF assms this] obtain hw link prog v where
    a: "sys (HwTypeOf (if_name ifc)) = Inr hw" "i = ifindex" "calls = [HwTypeOf (if_name ifc), IgnoreOutgoing, AttachFilter prog, BindIndex ifindex]"
    "prog = (case sys IgnoreOutgoing of Inr _ \<Rightarrow> af_classifier link | Inl _ \<Rightarrow> drop_outgoing_filter (af_classifier link))"
    "sys (AttachFilter prog) = Inr v" "link = (if hw = ARPHRD_NONE then RawIp else Ethernet)"
    "r = (case sys (BindIndex ifindex) of Inl e \<Rightarrow> Inl (CapOs e) | Inr _ \<Rightarrow> Inr link)" by metis
  have cl: "capture_classifier link = Some (af_classifier link)" using a(6) by (simp add: af_classifier_is)
  have same: "\<forall>l. r = Inr l \<longrightarrow> l = link" using a(7) by (auto split: sum.split_asm)
  show "i = ifindex" by (rule a(2))
  have "case sys IgnoreOutgoing of
               Inr _ \<Rightarrow> prog = af_classifier link
             | Inl _ \<Rightarrow> \<forall>frame anc pkttype. anc (SKF_AD SKF_AD_PKTTYPE) = Some pkttype \<longrightarrow>
                 bpf_filter prog frame anc = (if pkttype = PACKET_OUTGOING then Some 0 else bpf_filter (af_classifier link) frame anc)"
    using a(4) outgoing_prologue_run [OF classifier_load_free [OF cl]] by (auto split: sum.split)
  with a(1,2,3,5,6) cl same show "\<exists>hw prog link classifier v. calls = [HwTypeOf (if_name ifc), IgnoreOutgoing, AttachFilter prog, BindIndex i]
          \<and> sys (HwTypeOf (if_name ifc)) = Inr hw \<and> link = (if hw = ARPHRD_NONE then RawIp else Ethernet) \<and> (\<forall>l. r = Inr l \<longrightarrow> l = link)
          \<and> sys (AttachFilter prog) = Inr v \<and> capture_classifier link = Some classifier
          \<and> (case sys IgnoreOutgoing of
               Inr _ \<Rightarrow> prog = classifier
             | Inl _ \<Rightarrow> \<forall>frame anc pkttype. anc (SKF_AD SKF_AD_PKTTYPE) = Some pkttype \<longrightarrow>
                 bpf_filter prog frame anc = (if pkttype = PACKET_OUTGOING then Some 0 else bpf_filter classifier frame anc))"
    by blast
next
  fix link assume "r = Inr link"
  with assms show "BindIndex ifindex \<in> set calls" "\<exists>v. sys (BindIndex ifindex) = Inr v"
    by (auto simp: af_attach_def then_call_def call_def os_check_def link_addr_def split: sum.split_asm if_split_asm)
qed

definition old_kernel :: "socket_call \<Rightarrow> (os_errno, nat) result" where
  "old_kernel c = (case c of HwTypeOf _ \<Rightarrow> Inr ARPHRD_NONE | IgnoreOutgoing \<Rightarrow> Inl (E_OTHER 92) | _ \<Rightarrow> Inr 0)"

definition tunnel :: interface where
  "tunnel = \<lparr>if_name = [0x77], if_addrs = addresses_default, if_mtu = None, if_loopback = False\<rparr>"

theorem attach_filters_before_delivery_witness:
  "\<exists>prog. af_attach old_kernel tunnel 7 = ([HwTypeOf [0x77], IgnoreOutgoing, AttachFilter prog, BindIndex 7], Inr RawIp)
    \<and> bpf_filter prog [0x45, 0, 0, 28] (\<lambda>_. Some PACKET_OUTGOING) = Some 0"
proof -
  have run: "af_attach old_kernel tunnel 7
      = ([HwTypeOf [0x77], IgnoreOutgoing, AttachFilter (drop_outgoing_filter RAW_IP_UDP_FILTER), BindIndex 7], Inr RawIp)"
    by (simp add: af_attach_def then_call_def call_def os_check_def link_addr_def af_link_type_of_def install_filter_def old_kernel_def tunnel_def
        af_classifier_def capture_classifier_def ARPHRD_NONE_def ARPHRD_ETHER_def ARPHRD_LOOPBACK_def)
  moreover have "old_kernel IgnoreOutgoing = Inl (E_OTHER 92)" by (simp add: old_kernel_def)
  ultimately show ?thesis using attach_filters_before_delivery [OF run] by (auto simp: tunnel_def)
qed

text \<open>A packet socket hands on a frame whole or not at all.\<close>

lemma af_reads_whole:
  assumes "length (ac_buf c) = MAX_FRAME_LEN"
  shows "\<exists>c'. af_next_frame (Inr f) c = (Inr (Some (if length f \<le> MAX_FRAME_LEN then ReadFrame f else ReadOversized)), c')
    \<and> length (ac_buf c') = MAX_FRAME_LEN"
  using assms by (auto simp: af_next_frame_def recv_once_def from_syscall_def Let_def)

lemma af_quiet: "af_next_frame (Inl e) c = (if would_block e then Inr None else Inl (CapOs e), c)"
  by (simp add: af_next_frame_def recv_once_def from_syscall_def)

text \<open>The bind of a BPF device is its first call and the filter its last: \<^verbatim>\<open>BIOCSETF\<close> flushes what came between.\<close>

lemma bpf_attach_filters_last:
  assumes "bpf_attach null_filter sys ifc = (calls, Inr link)"
  shows "calls = [SetIf (if_name ifc), GetDlt, SeeSent (if_loopback ifc), SetProgram (bpf_classifier null_filter link)]"
    "link \<in> {Ethernet, DltNull}"
  using assms by (auto simp: bpf_attach_def then_call_def call_def os_check_def split: sum.split_asm if_split_asm)

text \<open>The device opened is the first not busy, and an error other than busy ends the search.\<close>

lemma open_bpf_from_finds:
  "snd (open_bpf_from sys n left) = Inr fd \<longleftrightarrow>
     (\<exists>k<left. sys (OpenDevice (n + k)) = Inr fd \<and> (\<forall>j<k. sys (OpenDevice (n + j)) = Inl E_BUSY))"
proof (induction left arbitrary: n)
  case (Suc left)
  have split: "(\<exists>k<Suc left. P k) \<longleftrightarrow> P 0 \<or> (\<exists>k<left. P (Suc k))" for P by (metis less_Suc_eq_0_disj)
  have all: "(\<forall>j<Suc k. P j) \<longleftrightarrow> P 0 \<and> (\<forall>j<k. P (Suc j))" for P and k :: nat by (metis less_Suc_eq_0_disj)
  show ?case unfolding split all using Suc.IH [of "Suc n"] by (auto split: sum.split)
qed simp

end
