(* ===== verification/Spec2Isabelle.thy ===== *)
theory Spec2Isabelle
  imports Arena Reassembly Stream_Buffer Discovery Counters Mdns_Filters Config_Load Exchange Legs Captures
begin

text \<open>
  Netflector reflects discovery traffic between the networks of one host: it captures frames on a
  set of interfaces, decides which configured relay wants each of them, and puts the datagram out on
  the other interfaces under an address of its own. This development models its logic, from bytes on
  the wire to the configuration that says what is relayed, and proves what makes each part correct.
  Paths below are relative to \<open>src/src\<close> of the repository.

  \<^bold>\<open>Conventions.\<close> A struct is a record, an enum a datatype with the constructors of the source, an
  integer whose width matters a word of that width; sizes and indices of slices are natural numbers.
  Fallible code returns a sum, with \<open>Inl\<close> the error, or an option. Instants and durations are natural
  numbers of nanoseconds. The kernel (system calls, the TOML deserializer, the clock) is an argument
  of the definitions that use it, and no assumption is made of it beyond what a theorem states.
  Every loop is a total function; those whose source carries a budget (the step budget of the DNS
  walk, its pointer hops, the capacity of the reassembler) carry the same budget as an argument or
  a constant, so no fuel is invented by the model.

  \<^bold>\<open>The shared ground.\<close> \<open>Prelude\<close> holds the widths, the byte and option lemmas and the collections of
  simplification rules. \<open>Linear_Map\<close> (\<open>linear_map.rs\<close>) and \<open>Unique_List\<close> (\<open>unique_list.rs\<close>) are the
  two containers of the code, the first with its map laws as a locale its clients rest on; \<open>Arena\<close>
  (\<open>reactor/arena.rs\<close>) the generational slots behind every key, with the staleness of a removed key
  up to the wrap-around of its generation.

  \<^bold>\<open>The wire.\<close> \<open>Addresses\<close> (\<open>net.rs\<close>, \<open>net/mac.rs\<close>), \<open>Checksum\<close> (\<open>net/checksum.rs\<close>), \<open>Frame\<close>
  (\<open>net/frame.rs\<close>) and \<open>Packet\<close> (\<open>net/packet.rs\<close>) build and read frames: the builders are total and
  their frames parse back to the datagram or the fragment they carry. \<open>Reassembly\<close>
  (\<open>dispatch/reassembly.rs\<close>) joins fragments under a capacity and an expiry; the theorems of this
  theory compose it with the builders and the parser.

  \<^bold>\<open>The protocols.\<close> \<open>Dns_Message\<close>, \<open>Dns_Names\<close>, \<open>Dns_Trim\<close> (\<open>net/mdns/message.rs\<close>) re-encode DNS
  messages without some of their entries, \<open>Mdns_Filters\<close> (\<open>net/mdns/services.rs\<close>,
  \<open>net/mdns/addresses.rs\<close>) decide which; \<open>Discovery\<close> (\<open>net/ssdp.rs\<close>, \<open>net/ssdp/dial.rs\<close>,
  \<open>net/wsd.rs\<close>) classifies the text protocols; \<open>Http\<close>, \<open>Http_Framing\<close> (\<open>net/http.rs\<close>,
  \<open>net/http/framing.rs\<close>) and \<open>Stream_Buffer\<close> (\<open>net/stream_buffer.rs\<close>) relay HTTP connections.

  \<^bold>\<open>The configuration.\<close> \<open>Interface\<close> (\<open>interface.rs\<close>) models interfaces and the addresses they send
  from; \<open>Config_Values\<close> and \<open>Config\<close> (\<open>config/value.rs\<close>, \<open>cli.rs\<close>, \<open>config/conflict.rs\<close>) the values and
  the conflict check, whose specification is that no packet is reflected twice; \<open>Config_Load\<close>
  (\<open>config.rs\<close>, \<open>config/raw.rs\<close>, \<open>config/env.rs\<close>, \<open>config/error.rs\<close>) parsing, merging and validation.

  \<^bold>\<open>The dispatcher.\<close> \<open>Multicast\<close> (\<open>dispatch/multicast.rs\<close>) is the state machine of the multicast
  memberships, with its reachable states as an inductive relation; \<open>Interface_Table\<close>
  (\<open>dispatch/interface_table.rs\<close>) that of the interfaces, their binding and their captures, over any
  answers of the kernel; \<open>Datagram\<close> and \<open>Egress\<close> (\<open>dispatch/datagram.rs\<close>, \<open>dispatch/egress.rs\<close>) send
  datagrams, each once per packet routed; \<open>Counters\<close> (\<open>dispatch/counters.rs\<close>) holds the outcomes of a
  packet and their counts; \<open>Lifecycle\<close> (\<open>dispatch/lifecycle.rs\<close>) turns events and timers into re-reads
  and re-binds of the interfaces. \<open>Reflector\<close> (\<open>dispatch.rs\<close>, \<open>reflector.rs\<close>) is the state of the
  dispatcher and what reflectors share, and \<open>Dispatch\<close> (\<open>dispatch.rs\<close>) its work: draining a capture,
  routing a packet to the registrations, deadlines, interface changes.

  \<^bold>\<open>The reflectors.\<close> \<open>Simple_Reflector\<close> (\<open>reflector/simple.rs\<close> and the rewrites of \<open>mdns.rs\<close> and
  \<open>ssdp.rs\<close>) and \<open>Search_Reflector\<close> (\<open>reflector/search.rs\<close>) are the two kinds of handler; \<open>Reflectors\<close>
  (\<open>reflector/mdns.rs\<close>, \<open>ssdp.rs\<close>, \<open>wsd.rs\<close>, \<open>wol.rs\<close>, \<open>udp.rs\<close> and the build of \<open>lib.rs\<close>) makes a configured
  entry into registrations. \<open>Sessions\<close> proves what every call keeps true of the registrations,
  \<open>Serving\<close> follows the dispatcher from its start through any calls (\<open>serving\<close>): the legs that were
  built stay, every other registration belongs to one live session, and sessions end. \<open>Exchange\<close>
  follows a reply to its searcher and an echo to its end, on the wire; \<open>Legs\<close> ties the legs of the
  entries to the flows the configuration check reasons about, so that no packet about a device crosses
  twice.

  \<^bold>\<open>The reactor.\<close> \<open>Reactor\<close> (\<open>reactor.rs\<close>) keeps handlers and watched descriptors in two arenas and
  dispatches readiness, deadlines and control events; \<open>Dial\<close> (\<open>dispatch/dial_context.rs\<close>,
  \<open>reflector/dial/rewrite.rs\<close>) keeps the DIAL proxies registered with it, bounded in number and time,
  and rewrites advertisements to their listeners.

  \<^bold>\<open>The captures.\<close> \<open>Capture_Filter\<close> (\<open>capture/filter.rs\<close>) has the classic-BPF programs and, standing for
  the kernel's machine, the interpreter the tests of that file run them on, and shows that the classifiers
  let through what the parser takes and drop what it refuses.
  \<open>Captures\<close> (\<open>capture/af_packet.rs\<close>, \<open>capture/bpf.rs\<close>, the call outcomes of \<open>sys.rs\<close>) has opening,
  attaching, rebinding and reading: the filter stands before delivery starts, and batches are read back
  record by record, whatever length each header gives itself; an index out of range is a panic of the
  model. The layout of the BPF header is a parameter, whose laws are a locale interpreted on
  the layouts of FreeBSD and macOS.

  \<^bold>\<open>Not modelled.\<close> The pollers, the sockets of \<open>sys.rs\<close> and \<open>net/tcp.rs\<close>, netlink and getifaddrs
  reading, privileges and the syslog and stderr writers are system calls.
\<close>

section \<open>From one end of a link to the other\<close>

text \<open>What a peer captures of frame \<open>i\<close>: the bytes the writer put out, parsed.\<close>

definition capture_fragment :: "(bool \<Rightarrow> u32) \<Rightarrow> udp_frames \<Rightarrow> bytes \<Rightarrow> nat \<Rightarrow> fragment option" where
  "capture_fragment af u out i =
     (case frames_write af u i out of
        Inl _ \<Rightarrow> None
      | Inr (n, out') \<Rightarrow>
          (case parse_frame (link_type_of (uf_link u)) (take n out') of
             Inr (Fragment f) \<Rightarrow> Some f
           | _ \<Rightarrow> None))"

lemma capture_fragment_frame:
  assumes inv: "frames_inv u" and frag: "uf_fragmented u" and i: "i < frames_count u"
    and bytes: "datagram_bytes u = udp_bytes sport dport payload c @ payload" and len: "8 + length payload \<le> 65535"
    and out: "frame_length u i \<le> length out"
  shows "capture_fragment af u out i = Some (frame_fragment u i)"
proof -
  obtain n out' where w: "frames_write af u i out = Inr (n, out')" using frames_write_layout [OF inv i out] by blast
  from parse_written [OF inv w bytes len, of "[]"] frag show ?thesis by (simp add: capture_fragment_def w)
qed

text \<open>The fragments of one datagram, captured in the order \<open>order\<close> and offered at the times \<open>ts\<close>.\<close>

lemma fragments_reassemble:
  assumes inv: "frames_inv u" and frag: "uf_fragmented u" and len: "datagram_len u \<le> MAX_DATAGRAM_LEN"
    and r: "ra_inv r" "lm_get (ra_collecting r) key = None" "lm_get (ra_discarding r) key = None"
    and key: "key = fragment_key ingress (frame_fragment u 0)"
    and order: "distinct order" "set order = {0..<frames_count u}"
    and ts: "length ts = length order" "\<forall>t \<in> set ts. t - hd ts < EXPIRY"
  shows "\<exists>r' whole. offer_all r ingress (zip (map (frame_fragment u) order) ts)
      = (r', replicate (length order - 1) None @ [Some whole]) \<and> ra_inv r'
    \<and> take (re_len whole) (bf_bytes (re_buf whole)) = datagram_bytes u
    \<and> re_first whole = fr_header (frame_fragment u 0)"
proof -
  let ?fs = "zip (map (frame_fragment u) order) ts"
  have same: "fragment_key ingress (frame_fragment u i) = key" for i
    by (simp add: key fragment_key_def frame_fragment_def)
  have "length ?fs = length order" using ts(1) by simp
  have zero: "0 < frames_count u"
    using inv by (simp add: frames_count_iff frame_start_def datagram_len_def UDP_HEADER_SIZE_def)
  then have ne: "order \<noteq> []" "ts \<noteq> []" using order(2) ts(1) by auto
  then have hd: "snd (hd ?fs) = hd ts" by (simp add: hd_zip)
  have fst: "fst ` set ?fs = frame_fragment u ` {0..<frames_count u}"
    using ts(1) order(2) by (metis length_map list.set_map map_fst_zip)
  have pieces: "\<forall>(f, now) \<in> set ?fs. piece_of (datagram_bytes u) f \<and> fragment_key ingress f = key \<and> now - snd (hd ?fs) < EXPIRY"
  proof clarify
    fix f now assume "(f, now) \<in> set ?fs"
    then have "f \<in> frame_fragment u ` {0..<frames_count u}" "now \<in> set ts"
      by (metis fst fst_conv image_eqI, auto dest: set_zip_rightD)
    then show "piece_of (datagram_bytes u) f \<and> fragment_key ingress f = key \<and> now - snd (hd ?fs) < EXPIRY"
      using ts(2) frame_fragment_piece [OF inv frag] same by (auto simp: hd)
  qed
  have apart: "sorted_wrt (\<lambda>x y. apart (fst x) (fst y)) ?fs"
  proof (simp add: sorted_wrt_iff_nth_less ts(1), intro allI impI)
    fix i j assume "i < j" "j < length order"
    then have "order ! i \<in> {0..<frames_count u}" "order ! j \<in> {0..<frames_count u}" "order ! i \<noteq> order ! j"
      using order by (metis less_trans nth_mem, metis nth_mem, auto simp: nth_eq_iff_index_eq)
    then show "apart (frame_fragment u (order ! i)) (frame_fragment u (order ! j))"
      using frame_fragments_apart [OF inv] by simp
  qed
  have cov: "covers (fst ` set ?fs) (datagram_bytes u)"
    unfolding fst by (rule frame_fragments_cover [OF inv])
  have size: "8 \<le> length (datagram_bytes u)" "length (datagram_bytes u) \<le> MAX_DATAGRAM_LEN"
    using inv len by (simp_all add: datagram_len_def UDP_HEADER_SIZE_def)
  obtain r' whole g where whole: "offer_all r ingress ?fs = (r', replicate (length ?fs - 1) None @ [Some whole])"
    "ra_inv r'" "take (re_len whole) (bf_bytes (re_buf whole)) = datagram_bytes u"
    and g: "g \<in> fst ` set ?fs" "frag_off g = 0" "re_first whole = fr_header g"
    using offer_all_pieces [OF r size pieces apart cov] by blast
  from g(1) obtain i where "g = frame_fragment u i" unfolding fst by blast
  with g(2) frame_start_positive [OF inv, of i] have "g = frame_fragment u 0" by (cases i) auto
  with whole g(3) \<open>length ?fs = length order\<close> show ?thesis by auto
qed

text \<open>C1. A datagram too large for the link's MTU survives the trip. Whatever order its IPv4 fragments
  are captured in, within the expiry, the receiver's reassembler answers nothing until the last of
  them and then the very packet that was sent: addresses, ports, TTL, MACs and payload, with the
  UDP checksum verified.\<close>

theorem ipv4_fragments_deliver:
  assumes built: "frames_ipv4 link src dst ttl ident payload mtu = Inr u"
    and large: "mtu < 28 + length payload" "8 + length payload \<le> MAX_DATAGRAM_LEN"
    and out: "link_size link + mtu \<le> length out"
    and r: "ra_inv r" "lm_get (ra_collecting r) key = None" "lm_get (ra_discarding r) key = None"
    and key: "key = \<lparr>dk_ingress = ingress, dk_source = V4 (fst src), dk_dest = V4 (fst dst), dk_id = ucast ident\<rparr>"
    and order: "distinct order" "set order = {0..<frames_count u}"
    and ts: "length ts = length order" "\<forall>t \<in> set ts. t - hd ts < EXPIRY"
  shows "\<exists>fs r' whole. map (capture_fragment af u out) order = map Some fs
    \<and> offer_all r ingress (zip fs ts) = (r', replicate (length order - 1) None @ [Some whole])
    \<and> reassembled_packet whole
      = Inr (frames_packet link (HeaderV4 (fst src) (fst dst) ttl ident) (snd src) (snd dst) payload)"
  using built
proof (cases rule: frames_ipv4_inv)
  case (1 c)
  have frag: "uf_fragmented u" and len: "datagram_len u \<le> MAX_DATAGRAM_LEN"
    using 1 large by (simp_all add: datagram_len_def UDP_HEADER_SIZE_def)
  have "capture_fragment af u out i = Some (frame_fragment u i)" if "i < frames_count u" for i
  proof (rule capture_fragment_frame [OF 1(2) frag that 1(5)])
    show "frame_length u i \<le> length out"
      using 1 out by (auto simp: frame_length_def frame_stop_def net_sizes)
  qed (use 1 in simp)
  then have captured: "map (capture_fragment af u out) order = map Some (map (frame_fragment u) order)"
    using order(2) by auto
  have "key = fragment_key ingress (frame_fragment u 0)"
    using 1 by (simp add: key fragment_key_def frame_fragment_def)
  from fragments_reassemble [OF 1(2) frag len r this order ts] obtain r' whole where
    "offer_all r ingress (zip (map (frame_fragment u) order) ts) = (r', replicate (length order - 1) None @ [Some whole])"
    and whole: "take (re_len whole) (bf_bytes (re_buf whole)) = datagram_bytes u" "re_first whole = fr_header (frame_fragment u 0)"
    by blast
  moreover have "reassembled_packet whole
      = Inr (frames_packet link (HeaderV4 (fst src) (fst dst) ttl ident) (snd src) (snd dst) payload)"
    unfolding reassembled_packet_def whole 1(5)
    by (subst reassembled_v4 [OF 1(6)]) (use 1 in \<open>simp_all add: frame_fragment_def frames_packet_def\<close>)
  ultimately show ?thesis using captured by blast
qed

text \<open>C2. Likewise for IPv6, whose fragments carry their place in a Fragment header.\<close>

theorem ipv6_fragments_deliver:
  assumes built: "frames_ipv6 link src dst hop ident payload mtu = Inr u"
    and large: "mtu < 48 + length payload" "8 + length payload \<le> MAX_DATAGRAM_LEN"
    and out: "link_size link + mtu \<le> length out"
    and r: "ra_inv r" "lm_get (ra_collecting r) key = None" "lm_get (ra_discarding r) key = None"
    and key: "key = \<lparr>dk_ingress = ingress, dk_source = V6 (fst src), dk_dest = V6 (fst dst), dk_id = ident\<rparr>"
    and order: "distinct order" "set order = {0..<frames_count u}"
    and ts: "length ts = length order" "\<forall>t \<in> set ts. t - hd ts < EXPIRY"
  shows "\<exists>fs r' whole. map (capture_fragment af u out) order = map Some fs
    \<and> offer_all r ingress (zip fs ts) = (r', replicate (length order - 1) None @ [Some whole])
    \<and> reassembled_packet whole
      = Inr (frames_packet link (HeaderV6 (fst src) (fst dst) hop ident) (snd src) (snd dst) payload)"
  using built
proof (cases rule: frames_ipv6_inv)
  case (1 c)
  have frag: "uf_fragmented u" and len: "datagram_len u \<le> MAX_DATAGRAM_LEN"
    using 1 large by (simp_all add: datagram_len_def UDP_HEADER_SIZE_def)
  have "capture_fragment af u out i = Some (frame_fragment u i)" if "i < frames_count u" for i
  proof (rule capture_fragment_frame [OF 1(2) frag that 1(5)])
    show "frame_length u i \<le> length out"
      using 1 out by (auto simp: frame_length_def frame_stop_def)
  qed (use 1 in simp)
  then have captured: "map (capture_fragment af u out) order = map Some (map (frame_fragment u) order)"
    using order(2) by auto
  have "key = fragment_key ingress (frame_fragment u 0)"
    using 1 by (simp add: key fragment_key_def frame_fragment_def)
  from fragments_reassemble [OF 1(2) frag len r this order ts] obtain r' whole where
    "offer_all r ingress (zip (map (frame_fragment u) order) ts) = (r', replicate (length order - 1) None @ [Some whole])"
    and whole: "take (re_len whole) (bf_bytes (re_buf whole)) = datagram_bytes u" "re_first whole = fr_header (frame_fragment u 0)"
    by blast
  moreover have "reassembled_packet whole
      = Inr (frames_packet link (HeaderV6 (fst src) (fst dst) hop ident) (snd src) (snd dst) payload)"
    unfolding reassembled_packet_def whole 1(5)
    by (subst reassembled_v6 [OF 1(6)]) (use 1 in \<open>simp_all add: frame_fragment_def frames_packet_def\<close>)
  ultimately show ?thesis using captured by blast
qed

lemma ipv4_fragments_deliver_witness:
  "\<exists>u fs r' whole. frames_ipv4 sample_link (0xc0a80102, 5353) (0xe00000fb, 5353) 255 7 (replicate 30 9) 40 = Inr u
    \<and> map (capture_fragment (\<lambda>_. 0) u (replicate 60 0)) (rev [0..<frames_count u]) = map Some fs
    \<and> offer_all reassembler_new 3 (zip fs (replicate (frames_count u) 5))
        = (r', replicate (frames_count u - 1) None @ [Some whole])
    \<and> reassembled_packet whole
        = Inr (frames_packet sample_link (HeaderV4 0xc0a80102 0xe00000fb 255 7) 5353 5353 (replicate 30 9))"
proof -
  have "\<exists>u. frames_ipv4 sample_link (0xc0a80102, 5353) (0xe00000fb, 5353) 255 7 (replicate 30 9) 40 = Inr u"
    by (rule frames_ipv4_builds) simp_all
  then obtain u where built: "frames_ipv4 sample_link (0xc0a80102, 5353) (0xe00000fb, 5353) 255 7 (replicate 30 9) 40 = Inr u" ..
  let ?key = "\<lparr>dk_ingress = 3, dk_source = V4 (fst (0xc0a80102, 5353 :: u16)), dk_dest = V4 (fst (0xe00000fb, 5353 :: u16)),
    dk_id = ucast (7 :: u16)\<rparr>"
  have "\<exists>fs r' whole. map (capture_fragment (\<lambda>_. 0) u (replicate 60 0)) (rev [0..<frames_count u]) = map Some fs
    \<and> offer_all reassembler_new 3 (zip fs (replicate (frames_count u) 5))
        = (r', replicate (length (rev [0..<frames_count u]) - 1) None @ [Some whole])
    \<and> reassembled_packet whole = Inr (frames_packet sample_link
        (HeaderV4 (fst (0xc0a80102, 5353 :: u16)) (fst (0xe00000fb, 5353 :: u16)) 255 7)
        (snd (0xc0a80102 :: ipv4, 5353)) (snd (0xe00000fb :: ipv4, 5353)) (replicate 30 9))"
    by (rule ipv4_fragments_deliver [OF built, where key = ?key])
       (simp_all add: ra_inv_new [unfolded reassembler_new_def] reassembler_new_def lm.lookup_empty MAX_DATAGRAM_LEN_def sample_link_def net_sizes EXPIRY_def
         in_set_replicate)
  with built show ?thesis by auto
qed

lemma ipv6_fragments_deliver_witness:
  "\<exists>u fs r' whole. frames_ipv6 sample_link (1, 5353) (2, 5353) 255 7 (replicate 30 9) 60 = Inr u
    \<and> map (capture_fragment (\<lambda>_. 0) u (replicate 80 0)) (rev [0..<frames_count u]) = map Some fs
    \<and> offer_all reassembler_new 3 (zip fs (replicate (frames_count u) 5))
        = (r', replicate (frames_count u - 1) None @ [Some whole])
    \<and> reassembled_packet whole
        = Inr (frames_packet sample_link (HeaderV6 1 2 255 7) 5353 5353 (replicate 30 9))"
proof -
  have "\<exists>u. frames_ipv6 sample_link (1, 5353) (2, 5353) 255 7 (replicate 30 9) 60 = Inr u"
    by (rule frames_ipv6_builds) simp_all
  then obtain u where built: "frames_ipv6 sample_link (1, 5353) (2, 5353) 255 7 (replicate 30 9) 60 = Inr u" ..
  let ?key = "\<lparr>dk_ingress = 3, dk_source = V6 (fst (1, 5353 :: u16)), dk_dest = V6 (fst (2, 5353 :: u16)), dk_id = 7\<rparr>"
  have "\<exists>fs r' whole. map (capture_fragment (\<lambda>_. 0) u (replicate 80 0)) (rev [0..<frames_count u]) = map Some fs
    \<and> offer_all reassembler_new 3 (zip fs (replicate (frames_count u) 5))
        = (r', replicate (length (rev [0..<frames_count u]) - 1) None @ [Some whole])
    \<and> reassembled_packet whole = Inr (frames_packet sample_link
        (HeaderV6 (fst (1, 5353 :: u16)) (fst (2, 5353 :: u16)) 255 7)
        (snd (1 :: ipv6, 5353)) (snd (2 :: ipv6, 5353)) (replicate 30 9))"
    by (rule ipv6_fragments_deliver [OF built, where key = ?key])
       (simp_all add: ra_inv_new [unfolded reassembler_new_def] reassembler_new_def lm.lookup_empty MAX_DATAGRAM_LEN_def sample_link_def net_sizes EXPIRY_def
         in_set_replicate)
  with built show ?thesis by auto
qed

end
